(* ===== verification/Prelude.thy ===== *)
theory Prelude
  imports Main "HOL-Library.Word" "HOL-Library.AList"
begin

text \<open>
  What every component of the model shares: the machine types of the Rust source, the reading of
  its hash maps as association lists with distinct keys, the development's collections of
  simplification rules, and the two generic interfaces (a streaming parser, a state machine with an
  invariant) whose lemmas the components obtain by interpretation.
\<close>

unbundle bit_operations_syntax

section \<open>Machine types\<close>

text \<open>
  \<open>u8\<close> and \<open>u64\<close> are words. A \<open>usize\<close> that only counts memory the process really holds is a
  \<open>nat\<close>; where the source relies on the width (saturation, checked addition, wrapping) the width is
  written out in the definition that relies on it.
\<close>

type_synonym u8 = "8 word"
type_synonym u64 = "64 word"
type_synonym bytes = "u8 list"

named_theorems alist_simps \<open>lookup, update and removal in a hash map\<close>
named_theorems wire_simps \<open>bytes of varints and frames\<close>

section \<open>Hash maps as association lists\<close>

text \<open>
  A \<open>HashMap\<close> is an association list with distinct keys. The order of the list stands for the
  iteration order, which Rust leaves open; \<open>keys_distinct\<close> is the representation invariant.
\<close>

abbreviation keys :: "('k \<times> 'v) list \<Rightarrow> 'k list" where
  "keys m \<equiv> map fst m"

abbreviation keys_distinct :: "('k \<times> 'v) list \<Rightarrow> bool" where
  "keys_distinct m \<equiv> distinct (map fst m)"

lemmas [alist_simps] = update_conv' delete_conv' distinct_update distinct_delete

lemma map_of_SomeD_keys: "map_of m k = Some v \<Longrightarrow> k \<in> set (keys m)"
  by (metis map_of_eq_None_iff option.discI set_map)

lemma update_update: "AList.update k v (AList.update k w m) = AList.update k v m"
  by (induction m) auto

lemma set_alist_update: "set (AList.update k v xs) \<subseteq> insert (k, v) (set xs)"
  by (induction xs) auto

lemma set_alist_delete: "set (AList.delete k xs) \<subseteq> set xs"
  by (auto simp: AList.delete_eq)

lemma length_update: "length (AList.update k v m) = (if map_of m k = None then Suc (length m) else length m)"
  by (induction m) auto

lemma length_delete: "keys_distinct m \<Longrightarrow> length (AList.delete k m) = (if map_of m k = None then length m else length m - 1)"
proof (induction m)
  case (Cons x m)
  then show ?case by (cases x; cases m) (auto simp: map_of_eq_None_iff delete_notin_dom)
qed simp

lemma sum_list_update:
  "sum_list (map (f \<circ> snd) (AList.update k v m)) + (case map_of m k of None \<Rightarrow> 0 | Some w \<Rightarrow> f w)
   = sum_list (map (f \<circ> snd) m) + f v"
  for f :: "'v \<Rightarrow> nat"
  by (induction m) auto

lemma sum_list_delete:
  "keys_distinct m \<Longrightarrow> sum_list (map (f \<circ> snd) (AList.delete k m)) + (case map_of m k of None \<Rightarrow> 0 | Some w \<Rightarrow> f w)
   = sum_list (map (f \<circ> snd) m)"
  for f :: "'v \<Rightarrow> nat"
proof (induction m)
  case (Cons x m)
  show ?case
  proof (cases "fst x = k")
    case True
    with Cons.prems have "k \<notin> fst ` set m" by auto
    then have "AList.delete k m = m" by (rule delete_id)
    with True show ?thesis by (cases x) simp
  next
    case False
    with Cons show ?thesis by (cases x) auto
  qed
qed simp

section \<open>Positions in a list\<close>

text \<open>\<open>Iterator::position\<close> and \<open>VecDeque::remove\<close>.\<close>

fun position :: "('a \<Rightarrow> bool) \<Rightarrow> 'a list \<Rightarrow> nat option" where
  "position P [] = None"
| "position P (x # xs) = (if P x then Some 0 else map_option Suc (position P xs))"

definition remove_nth :: "nat \<Rightarrow> 'a list \<Rightarrow> 'a list" where
  "remove_nth i xs = take i xs @ drop (Suc i) xs"

lemma position_SomeD:
  "position P xs = Some i \<Longrightarrow> i < length xs \<and> P (xs ! i) \<and> (\<forall>j < i. \<not> P (xs ! j))"
proof (induction xs arbitrary: i)
  case (Cons x xs)
  then show ?case by (cases i) (auto simp: nth_Cons split: if_splits nat.splits)
qed simp

lemma position_None_iff [simp]: "position P xs = None \<longleftrightarrow> (\<forall>x \<in> set xs. \<not> P x)"
  by (induction xs) auto

lemma remove_nth_Cons [simp]: "remove_nth 0 (x # xs) = xs" "remove_nth (Suc i) (x # xs) = x # remove_nth i xs"
  by (simp_all add: remove_nth_def)

lemma length_remove_nth [simp]: "i < length xs \<Longrightarrow> length (remove_nth i xs) = length xs - 1"
  by (simp add: remove_nth_def)

lemma set_remove_nth: "set (remove_nth i xs) \<subseteq> set xs"
  by (auto simp: remove_nth_def dest: in_set_takeD in_set_dropD)

lemma map_of_list_update:
  "keys_distinct m \<Longrightarrow> i < length m \<Longrightarrow> map_of (m[i := (fst (m ! i), v)]) = (map_of m)(fst (m ! i) \<mapsto> v)"
proof (induction m arbitrary: i)
  case (Cons x m)
  show ?case
  proof (cases i)
    case 0
    then show ?thesis by (cases x) auto
  next
    case (Suc j)
    with Cons.prems have "fst (m ! j) \<noteq> fst x" by (metis distinct.simps(2) in_set_conv_nth length_Cons length_map list.simps(9) nth_map Suc_less_eq)
    with Suc Cons show ?thesis by (cases x) (auto simp: fun_upd_twist)
  qed
qed simp

lemma keys_list_update [simp]: "keys (m[i := (fst (m ! i), v)]) = keys m"
proof (cases "i < length m")
  case True
  then have "keys m ! i = fst (m ! i)" by simp
  then show ?thesis by (metis fst_conv list_update_id map_update)
qed (simp add: list_update_beyond)

text \<open>Taking one element out changes a sum or a count by exactly that element.\<close>

lemma sum_list_remove_nth:
  "i < length xs \<Longrightarrow> sum_list (map f xs) = f (xs ! i) + sum_list (map f (remove_nth i xs))"
  for f :: "'a \<Rightarrow> nat"
proof (induction xs arbitrary: i)
  case (Cons x xs)
  then show ?case by (cases i) auto
qed simp

lemma sum_list_list_update:
  "i < length xs \<Longrightarrow> sum_list (map f (xs[i := x])) + f (xs ! i) = sum_list (map f xs) + f x"
  for f :: "'a \<Rightarrow> nat"
proof (induction xs arbitrary: i)
  case (Cons y ys)
  then show ?case by (cases i) (auto simp: algebra_simps)
qed simp

lemma filter_remove_nth:
  "i < length xs \<Longrightarrow> \<not> P (xs ! i) \<Longrightarrow> filter P (remove_nth i xs) = filter P xs"
proof (induction xs arbitrary: i)
  case (Cons x xs)
  then show ?case by (cases i) auto
qed simp

lemma length_filter_remove_nth:
  "i < length xs \<Longrightarrow> P (xs ! i) \<Longrightarrow> length (filter P xs) = Suc (length (filter P (remove_nth i xs)))"
proof (induction xs arbitrary: i)
  case (Cons x xs)
  then show ?case by (cases i) auto
qed simp

section \<open>Streaming parsers\<close>

text \<open>
  A parser over a growing buffer answers an error, \<open>None\<close> (the bytes present do not hold a whole
  item yet), or an item with the number of bytes it took. Running it to exhaustion collects the
  items, the error that stopped it if any, and the bytes left over. One unit of fuel is spent per
  item; an item takes at least one byte, so the length of the buffer is enough.
\<close>

type_synonym ('b, 'e, 'a) item_parser = "'b list \<Rightarrow> 'e + ('a \<times> nat) option"

fun parse_fuel :: "nat \<Rightarrow> ('b, 'e, 'a) item_parser \<Rightarrow> 'b list \<Rightarrow> 'a list \<times> 'e option \<times> 'b list" where
  "parse_fuel 0 nxt bs = ([], None, bs)"
| "parse_fuel (Suc n) nxt bs =
     (case nxt bs of
        Inl e \<Rightarrow> ([], Some e, bs)
      | Inr None \<Rightarrow> ([], None, bs)
      | Inr (Some (a, k)) \<Rightarrow>
          (case parse_fuel n nxt (drop k bs) of (items, err, rest) \<Rightarrow> (a # items, err, rest)))"

definition parse_all :: "('b, 'e, 'a) item_parser \<Rightarrow> 'b list \<Rightarrow> 'a list \<times> 'e option \<times> 'b list" where
  "parse_all nxt bs = parse_fuel (Suc (length bs)) nxt bs"

locale stream_parser =
  fixes nxt :: "('b, 'e, 'a) item_parser"
  assumes progress: "nxt bs = Inr (Some (a, k)) \<Longrightarrow> 0 < k \<and> k \<le> length bs"
    and settled: "nxt bs \<noteq> Inr None \<Longrightarrow> nxt (bs @ more) = nxt bs"
begin

lemma parse_fuel_enough:
  "length bs < n \<Longrightarrow> parse_fuel n nxt bs = parse_fuel (Suc (length bs)) nxt bs"
proof (induction n arbitrary: bs rule: less_induct)
  case (less n)
  then obtain m where n: "n = Suc m" by (cases n) auto
  show ?case
  proof (cases "\<exists>a k. nxt bs = Inr (Some (a, k))")
    case True
    then obtain a k where ak: "nxt bs = Inr (Some (a, k))" by blast
    with progress have "0 < k" "k \<le> length bs" by blast+
    then have shorter: "length (drop k bs) < length bs" by simp
    then have "length (drop k bs) < m" using less.prems n by simp
    then have "parse_fuel m nxt (drop k bs) = parse_fuel (Suc (length (drop k bs))) nxt (drop k bs)"
      using less.IH n by blast
    moreover have "parse_fuel (length bs) nxt (drop k bs)
        = parse_fuel (Suc (length (drop k bs))) nxt (drop k bs)"
      using less.IH [OF _ shorter] less.prems by blast
    ultimately show ?thesis using n ak by simp
  next
    case False
    then show ?thesis using n by (auto split: sum.splits option.splits)
  qed
qed

lemma parse_all_unfold:
  "parse_all nxt bs =
     (case nxt bs of
        Inl e \<Rightarrow> ([], Some e, bs)
      | Inr None \<Rightarrow> ([], None, bs)
      | Inr (Some (a, k)) \<Rightarrow>
          (case parse_all nxt (drop k bs) of (items, err, rest) \<Rightarrow> (a # items, err, rest)))"
proof -
  have "parse_fuel (length bs) nxt (drop k bs) = parse_all nxt (drop k bs)"
    if "nxt bs = Inr (Some (a, k))" for a k
  proof -
    from progress [OF that] have "length (drop k bs) < length bs" by auto
    then show ?thesis unfolding parse_all_def by (rule parse_fuel_enough)
  qed
  then show ?thesis
    by (simp add: parse_all_def split: sum.splits option.splits)
qed

text \<open>Bytes that arrive later never change what was already decided.\<close>

lemma parse_all_append:
  "parse_all nxt (bs @ more) =
     (case parse_all nxt bs of
        (items, Some e, rest) \<Rightarrow> (items, Some e, rest @ more)
      | (items, None, rest) \<Rightarrow>
          (case parse_all nxt (rest @ more) of (items', err, rest') \<Rightarrow> (items @ items', err, rest')))"
proof (induction "length bs" arbitrary: bs rule: less_induct)
  case less
  consider e where "nxt bs = Inl e" | "nxt bs = Inr None" | a k where "nxt bs = Inr (Some (a, k))"
    by (metis old.sum.exhaust option.exhaust surj_pair)
  then show ?case
  proof cases
    case 1
    with settled [of bs more] have "nxt (bs @ more) = Inl e" by simp
    with 1 show ?thesis by (simp add: parse_all_unfold [of bs] parse_all_unfold [of "bs @ more"])
  next
    case 2
    then show ?thesis by (simp add: parse_all_unfold [of bs] split: prod.split)
  next
    case 3
    with settled [of bs more] have ext: "nxt (bs @ more) = Inr (Some (a, k))" by simp
    from progress [OF 3] have k: "0 < k" "k \<le> length bs" by auto
    then have "length (drop k bs) < length bs" by simp
    note IH = less [OF this]
    from k have "drop k (bs @ more) = drop k bs @ more" by simp
    with 3 ext IH show ?thesis
      by (simp add: parse_all_unfold [of bs] parse_all_unfold [of "bs @ more"]
          split: prod.splits option.splits)
  qed
qed

text \<open>Without an error, what is left over holds no whole item.\<close>

lemma parse_all_rest: "parse_all nxt bs = (items, None, rest) \<Longrightarrow> nxt rest = Inr None"
proof (induction "length bs" arbitrary: bs items rule: less_induct)
  case less
  show ?case
  proof (cases "\<exists>a k. nxt bs = Inr (Some (a, k))")
    case True
    then obtain a k where ak: "nxt bs = Inr (Some (a, k))" by blast
    from progress [OF ak] have "length (drop k bs) < length bs" by auto
    moreover from less.prems ak obtain items' where "parse_all nxt (drop k bs) = (items', None, rest)"
      by (auto simp: parse_all_unfold [of bs] split: prod.splits)
    ultimately show ?thesis by (rule less.hyps)
  next
    case False
    with less.prems show ?thesis
      by (auto simp: parse_all_unfold [of bs] split: sum.splits option.splits)
  qed
qed

end

section \<open>Computations that fail\<close>

text \<open>
  A \<open>Result\<close> is a sum with the error on the left. \<open>and_then\<close> is the question mark operator, \<open>ensure\<close> an early
  return of an error, \<open>check_all\<close> a loop of checks that stops at the first error.
\<close>

definition and_then :: "'e + 'a \<Rightarrow> ('a \<Rightarrow> 'e + 'b) \<Rightarrow> 'e + 'b" where
  "and_then r f = (case r of Inl e \<Rightarrow> Inl e | Inr x \<Rightarrow> f x)"

definition ensure :: "bool \<Rightarrow> 'e \<Rightarrow> 'e + unit" where
  "ensure b e = (if b then Inr () else Inl e)"

definition or_err :: "'a option \<Rightarrow> 'e \<Rightarrow> 'e + 'a" where
  "or_err r e = (case r of None \<Rightarrow> Inl e | Some x \<Rightarrow> Inr x)"

fun collect_ok :: "('a \<Rightarrow> 'e + 'b) \<Rightarrow> 'a list \<Rightarrow> 'e + 'b list" where
  "collect_ok f [] = Inr []"
| "collect_ok f (x # xs) = and_then (f x) (\<lambda>y. and_then (collect_ok f xs) (\<lambda>ys. Inr (y # ys)))"

named_theorems result_ok \<open>when a computation that may fail succeeds\<close>

lemma and_then_simps [simp]: "and_then (Inl e) f = Inl e" "and_then (Inr x) f = f x"
  by (simp_all add: and_then_def)

lemma ensure_simps [simp]: "ensure True e = Inr ()" "ensure False e = Inl e"
  by (simp_all add: ensure_def)

lemma or_err_simps [simp]: "or_err None e = Inl e" "or_err (Some x) e = Inr x"
  by (simp_all add: or_err_def)

lemma and_then_ok [result_ok]: "and_then r f = Inr y \<longleftrightarrow> (\<exists>x. r = Inr x \<and> f x = Inr y)"
  by (cases r) simp_all

lemma ensure_ok [result_ok]: "ensure b e = Inr u \<longleftrightarrow> b"
  by (cases b) simp_all

lemma or_err_ok [result_ok]: "or_err r e = Inr x \<longleftrightarrow> r = Some x"
  by (cases r) simp_all

lemma collect_ok_map: "collect_ok f xs = Inr ys \<longleftrightarrow> map f xs = map Inr ys"
proof (induction xs arbitrary: ys)
  case (Cons x xs)
  show ?case by (cases ys) (auto simp: result_ok Cons.IH)
qed auto

section \<open>State machines\<close>

text \<open>
  A machine starts in one of its initial states and moves by steps; \<open>reach\<close> are the states a run
  can visit.
\<close>

inductive reach :: "('s \<Rightarrow> bool) \<Rightarrow> ('s \<Rightarrow> 's \<Rightarrow> bool) \<Rightarrow> 's \<Rightarrow> bool" for start step where
  reach_start: "start s \<Longrightarrow> reach start step s"
| reach_step: "reach start step s \<Longrightarrow> step s t \<Longrightarrow> reach start step t"

locale invariant_machine =
  fixes start :: "'s \<Rightarrow> bool" and step :: "'s \<Rightarrow> 's \<Rightarrow> bool" and inv :: "'s \<Rightarrow> bool"
  assumes inv_start: "start s \<Longrightarrow> inv s"
    and inv_step: "inv s \<Longrightarrow> step s t \<Longrightarrow> inv t"
begin

lemma reach_inv: "reach start step s \<Longrightarrow> inv s"
  by (induction rule: reach.induct) (auto intro: inv_start inv_step)

end

end
