(* ===== verification/Framing.thy ===== *)
theory Framing
  imports Prelude
begin

text \<open>
  The crate \<open>frame\<close> (\<open>crates/frame/src/lib.rs\<close>): varints, the delimited frame, and the stateful
  \<open>FrameReader\<close> that turns transport chunks into whole frames. The lemmas give the varint round
  trip, its length bound, and that neither frames nor errors depend on where the transport cut the
  stream.
\<close>

section \<open>Definitions\<close>

datatype frame_error = VarintTooLong | TooLarge nat nat | Truncated nat

definition MAX_FRAME_BYTES :: nat where
  "MAX_FRAME_BYTES = 2 ^ 20"

definition MAX_VARINT_BYTES :: nat where
  "MAX_VARINT_BYTES = 10"

text \<open>
  The loop of \<open>read_varint\<close>: \<open>n\<close> is the length of the whole buffer, \<open>i\<close> the position, \<open>acc\<close> the
  value so far; the first equation is what follows the loop.
\<close>

fun read_varint_from :: "nat \<Rightarrow> nat \<Rightarrow> u64 \<Rightarrow> bytes \<Rightarrow> frame_error + (u64 \<times> nat) option" where
  "read_varint_from n i acc [] =
     (if n \<ge> MAX_VARINT_BYTES then Inl VarintTooLong else Inr None)"
| "read_varint_from n i acc (b # bs) =
     (if i \<ge> MAX_VARINT_BYTES then Inl VarintTooLong
      else if i = MAX_VARINT_BYTES - 1 \<and> (b AND 0x7f) > 1 then Inl VarintTooLong
      else let acc' = acc OR push_bit (7 * i) (ucast (b AND 0x7f)) in
        if b AND 0x80 = 0 then Inr (Some (acc', i + 1))
        else read_varint_from n (i + 1) acc' bs)"

definition read_varint :: "bytes \<Rightarrow> frame_error + (u64 \<times> nat) option" where
  "read_varint buf = read_varint_from (length buf) 0 0 buf"

lemma unat_drop7: "unat (drop_bit 7 (v :: u64)) = unat v div 2 ^ 7"
  by (simp only: unat_drop_bit_eq) (simp only: drop_bit_eq_div)

function write_varint :: "u64 \<Rightarrow> bytes \<Rightarrow> bytes" where
  "write_varint v out =
     (if v \<ge> 0x80 then write_varint (drop_bit 7 v) (out @ [ucast v OR 0x80])
      else out @ [ucast v])"
  by pat_completeness auto
termination
proof (relation "measure (\<lambda>(v, out). unat v)", simp)
  fix v :: u64 and out :: bytes
  assume "0x80 \<le> v"
  then have "0 < unat v" by (simp add: word_le_nat_alt)
  then have "unat v div 2 ^ 7 < unat v" by simp
  then show "((drop_bit 7 v, out @ [ucast v OR 0x80]), (v, out)) \<in> measure (\<lambda>(v, out). unat v)"
    by (simp only: in_measure prod.case unat_drop7)
qed

declare write_varint.simps [simp del]

text \<open>The value of the function on success is the buffer \<open>out\<close> it has appended to.\<close>

definition write_frame :: "bytes \<Rightarrow> nat \<Rightarrow> bytes \<Rightarrow> frame_error + bytes" where
  "write_frame message mx out =
     (if length message > mx then Inl (TooLarge (length message) mx)
      else Inr (write_varint (of_nat (length message)) out @ message))"

record frame_reader =
  fr_buf :: bytes
  fr_start :: nat
  fr_max :: nat

definition reader_new :: "nat \<Rightarrow> frame_reader" where
  "reader_new mx = \<lparr>fr_buf = [], fr_start = 0, fr_max = mx\<rparr>"

definition reader_default :: frame_reader where
  "reader_default = reader_new MAX_FRAME_BYTES"

lemma read_varint_from_consumed:
  "read_varint_from n i acc buf = Inr (Some (v, k)) \<Longrightarrow> i < k \<and> k \<le> i + length buf \<and> k \<le> 10"
  by (induction n i acc buf rule: read_varint_from.induct)
    (auto simp: Let_def MAX_VARINT_BYTES_def split: if_splits)

lemma read_varint_consumed:
  "read_varint buf = Inr (Some (v, k)) \<Longrightarrow> 0 < k \<and> k \<le> length buf \<and> k \<le> 10"
  using read_varint_from_consumed [of "length buf" 0 0 buf v k] by (simp add: read_varint_def)

text \<open>
  The loop of \<open>FrameReader::push\<close> over the bytes held, from \<open>start\<close>: the position it ends at, and
  the frames or the error. Each turn reads at least one byte of the buffer.
\<close>

function push_loop :: "bytes \<Rightarrow> nat \<Rightarrow> nat \<Rightarrow> bytes list \<Rightarrow> nat \<times> (frame_error + bytes list)" where
  "push_loop buf start mx out =
     (let rest = drop start buf in
      case read_varint rest of
        Inl e \<Rightarrow> (start, Inl e)
      | Inr None \<Rightarrow> (start, Inr out)
      | Inr (Some (len, head)) \<Rightarrow>
          if unat len > mx then (start, Inl (TooLarge (unat len) mx))
          else if length rest < head + unat len then (start, Inr out)
          else push_loop buf (start + (head + unat len)) mx
                 (out @ [take (unat len) (drop head rest)]))"
  by pat_completeness auto
termination
  by (relation "measure (\<lambda>(buf, start, mx, out). length buf - start)")
    (auto dest: read_varint_consumed)

declare push_loop.simps [simp del]

definition reader_push :: "frame_reader \<Rightarrow> bytes \<Rightarrow> frame_reader \<times> (frame_error + bytes list)" where
  "reader_push r chunk =
     (let r1 = (if fr_start r > 0 \<and> fr_start r * 2 \<ge> length (fr_buf r)
                then r\<lparr>fr_buf := drop (fr_start r) (fr_buf r), fr_start := 0\<rparr> else r);
          r2 = r1\<lparr>fr_buf := fr_buf r1 @ chunk\<rparr>;
          (start', res) = push_loop (fr_buf r2) (fr_start r2) (fr_max r2) []
      in (r2\<lparr>fr_start := start'\<rparr>, res))"

definition reader_pending :: "frame_reader \<Rightarrow> nat" where
  "reader_pending r = length (fr_buf r) - fr_start r"

text \<open>A connection's read loop: every chunk in turn, up to the first error.\<close>

fun reader_feed :: "frame_reader \<Rightarrow> bytes list \<Rightarrow> frame_reader \<times> (frame_error + bytes list)" where
  "reader_feed r [] = (r, Inr [])"
| "reader_feed r (c # cs) =
     (case reader_push r c of
        (r', Inl e) \<Rightarrow> (r', Inl e)
      | (r', Inr fs) \<Rightarrow>
          (case reader_feed r' cs of
             (r'', Inl e) \<Rightarrow> (r'', Inl e)
           | (r'', Inr gs) \<Rightarrow> (r'', Inr (fs @ gs))))"

section \<open>The varint round trip\<close>

definition varint :: "u64 \<Rightarrow> bytes" where
  "varint v = write_varint v []"

lemma write_varint_append: "write_varint v (xs @ ys) = xs @ write_varint v ys"
proof (induction v ys rule: write_varint.induct)
  case (1 v ys)
  then show ?case by (simp add: write_varint.simps [of v])
qed

lemma write_varint_eq [wire_simps]: "write_varint v out = out @ varint v"
  using write_varint_append [of v out "[]"] by (simp add: varint_def)

lemma varint_last: "v < 0x80 \<Longrightarrow> varint v = [ucast v]"
  by (simp add: varint_def write_varint.simps [of v] flip: not_le)

lemma varint_more: "0x80 \<le> v \<Longrightarrow> varint v = (ucast v OR 0x80) # varint (drop_bit 7 v)"
  by (simp add: varint_def write_varint.simps [of v] write_varint_eq [unfolded varint_def, of _ "[_]"])

lemma varint_induct [case_names last more]:
  assumes last: "\<And>v. v < 0x80 \<Longrightarrow> P v"
    and more: "\<And>v. 0x80 \<le> v \<Longrightarrow> P (drop_bit 7 v) \<Longrightarrow> P v"
  shows "P (v :: u64)"
  using write_varint.induct [of "\<lambda>v _. P v" v "[]"] last more by (metis linorder_not_le)

lemma mask7_u8: "(0x7f :: u8) = mask 7"
  by (simp add: mask_eq_exp_minus_1)

lemma mask7_u64: "(0x7f :: u64) = mask 7"
  by (simp add: mask_eq_exp_minus_1)

lemma bit_0x80: "bit (0x80 :: int) n \<longleftrightarrow> n = 7" "bit (0x80 :: nat) n \<longleftrightarrow> n = 7"
  using bit_exp_iff [of 7 n, where 'a = int] bit_exp_iff [of 7 n, where 'a = nat] by simp_all

lemmas byte_bits = mask7_u8 mask7_u64 bit_0x80 bit_simps

lemma cont_byte_low: "(ucast (v :: u64) OR 0x80 :: u8) AND 0x7f = ucast v AND 0x7f"
  by (rule bit_word_eqI) (auto simp: byte_bits)

lemma cont_byte_high: "(ucast (v :: u64) OR 0x80 :: u8) AND 0x80 \<noteq> 0"
proof -
  have "bit ((ucast v OR 0x80 :: u8) AND 0x80) 7" by (simp add: byte_bits)
  then show ?thesis by auto
qed

lemma low7_ucast: "ucast ((ucast (v :: u64) :: u8) AND 0x7f) = v AND 0x7f"
  by (rule bit_word_eqI) (auto simp: byte_bits)

lemma join7: "push_bit k (v AND 0x7f) OR push_bit (k + 7) (drop_bit 7 v) = push_bit k (v :: u64)"
proof (rule bit_word_eqI)
  fix n assume "n < LENGTH(64)"
  then show "bit (push_bit k (v AND 0x7f) OR push_bit (k + 7) (drop_bit 7 v)) n = bit (push_bit k v) n"
    by (cases "k + 7 \<le> n") (auto simp: byte_bits)
qed

lemma small_bits:
  assumes "v < 0x80" and "bit (v :: u64) n"
  shows "n < 7"
proof (rule ccontr)
  assume "\<not> n < 7"
  have "unat v < 2 ^ 7" using assms(1) by (simp add: word_less_nat_alt)
  then have "\<not> bit (unat v) n" using \<open>\<not> n < 7\<close>
    by (metis bit_take_bit_iff take_bit_nat_eq_self)
  with assms(2) show False by (simp add: bit_unsigned_iff)
qed

lemma last_byte: "v < 0x80 \<Longrightarrow> (ucast (v :: u64) :: u8) AND 0x80 = 0"
  by (rule bit_word_eqI) (auto simp: byte_bits dest: small_bits)

lemma last_low: "v < 0x80 \<Longrightarrow> (v :: u64) AND 0x7f = v"
  by (rule bit_word_eqI) (auto simp: byte_bits dest: small_bits)

lemma last_low8: "v < 0x80 \<Longrightarrow> (ucast (v :: u64) :: u8) AND 0x7f = ucast v"
  by (rule bit_word_eqI) (auto simp: byte_bits dest: small_bits)

lemma last_ucast: "v < 0x80 \<Longrightarrow> ucast (ucast (v :: u64) :: u8) = v"
  using low7_ucast [of v] by (simp add: last_low last_low8)

lemma read_varint_from_varint:
  assumes "i \<le> 9" "unat v < 2 ^ (64 - 7 * i)"
  shows "read_varint_from n i acc (varint v @ rest)
     = Inr (Some (acc OR push_bit (7 * i) v, i + length (varint v)))"
  using assms
proof (induction v arbitrary: i acc rule: varint_induct)
  case (last v)
  have nine: "\<not> (ucast v :: u8) > 1" if "i = 9"
  proof -
    have "unat (ucast v :: u8) \<le> 1"
      using last.prems that by (simp add: unsigned_ucast_eq take_bit_nat_eq_self)
    then show ?thesis by (simp add: word_less_nat_alt)
  qed
  show ?case using last nine
    by (simp add: varint_last MAX_VARINT_BYTES_def last_byte last_low8 last_ucast Let_def)
next
  case (more v)
  have "i \<noteq> 9" using more.hyps more.prems by (auto simp: word_le_nat_alt)
  with more.prems have i: "Suc i \<le> 9" by simp
  have "unat v < 2 ^ (64 - 7 * Suc i) * 2 ^ 7"
    using more.prems(2) i by (simp only: power_add [symmetric]) simp
  then have "unat (drop_bit 7 v) < 2 ^ (64 - 7 * Suc i)"
    unfolding unat_drop7 by (rule less_mult_imp_div_less)
  note IH = more.IH [OF i this]
  have "read_varint_from n i acc (varint v @ rest)
      = read_varint_from n (Suc i) (acc OR push_bit (7 * i) (v AND 0x7f)) (varint (drop_bit 7 v) @ rest)"
    using i more.hyps
    by (simp add: varint_more MAX_VARINT_BYTES_def cont_byte_low cont_byte_high low7_ucast Let_def)
  then show ?case using IH join7 [of "7 * i" v] more.hyps
    by (simp add: varint_more or.assoc add.commute)
qed

lemma read_varint_varint [wire_simps]:
  "read_varint (varint v @ rest) = Inr (Some (v, length (varint v)))"
  using read_varint_from_varint [of 0 v "length (varint v @ rest)" 0 rest] unsigned_less [of v]
  by (simp add: read_varint_def)

lemma varint_nonempty [simp]: "varint v \<noteq> []"
  by (cases "v < 0x80") (auto simp: varint_last varint_more)

lemma read_varint_from_settled:
  assumes "i + length buf = n" and "read_varint_from n i acc buf \<noteq> Inr None"
  shows "read_varint_from (n + length later) i acc (buf @ later) = read_varint_from n i acc buf"
  using assms
proof (induction n i acc buf rule: read_varint_from.induct)
  case (1 n i acc)
  then show ?case by (cases later) (auto split: if_splits)
next
  case (2 n i acc b bs)
  then show ?case by (auto simp: Let_def split: if_splits)
qed

lemma read_varint_settled:
  "read_varint buf \<noteq> Inr None \<Longrightarrow> read_varint (buf @ later) = read_varint buf"
  using read_varint_from_settled [of 0 buf "length buf" 0 later] by (simp add: read_varint_def)

section \<open>The reader and its specification\<close>

text \<open>
  What one turn of the reader's loop decides about the bytes not yet handed out. It is a streaming
  parser, so every lemma of that interface is about frames.
\<close>

definition next_frame :: "nat \<Rightarrow> (u8, frame_error, bytes) item_parser" where
  "next_frame mx bs =
     (case read_varint bs of
        Inl e \<Rightarrow> Inl e
      | Inr None \<Rightarrow> Inr None
      | Inr (Some (len, head)) \<Rightarrow>
          if unat len > mx then Inl (TooLarge (unat len) mx)
          else if length bs < head + unat len then Inr None
          else Inr (Some (take (unat len) (drop head bs), head + unat len)))"

lemma next_frame_simps:
  "read_varint bs = Inl e \<Longrightarrow> next_frame mx bs = Inl e"
  "read_varint bs = Inr None \<Longrightarrow> next_frame mx bs = Inr None"
  "read_varint bs = Inr (Some (len, head)) \<Longrightarrow> unat len > mx \<Longrightarrow>
     next_frame mx bs = Inl (TooLarge (unat len) mx)"
  "read_varint bs = Inr (Some (len, head)) \<Longrightarrow> \<not> unat len > mx \<Longrightarrow> length bs < head + unat len \<Longrightarrow>
     next_frame mx bs = Inr None"
  "read_varint bs = Inr (Some (len, head)) \<Longrightarrow> \<not> unat len > mx \<Longrightarrow> \<not> length bs < head + unat len \<Longrightarrow>
     next_frame mx bs = Inr (Some (take (unat len) (drop head bs), head + unat len))"
  by (simp_all add: next_frame_def)

interpretation frames: stream_parser "next_frame mx" for mx
proof
  fix bs a k
  assume "next_frame mx bs = Inr (Some (a, k))"
  then show "0 < k \<and> k \<le> length bs"
    by (auto simp: next_frame_def split: sum.splits option.splits if_splits dest: read_varint_consumed)
next
  fix bs later
  assume decided: "next_frame mx bs \<noteq> Inr None"
  then have "read_varint bs \<noteq> Inr None" by (auto simp: next_frame_def)
  then have "read_varint (bs @ later) = read_varint bs" by (rule read_varint_settled)
  with decided show "next_frame mx (bs @ later) = next_frame mx bs"
    by (auto simp: next_frame_def split: sum.splits option.splits dest: read_varint_consumed)
qed

abbreviation split_frames :: "nat \<Rightarrow> bytes \<Rightarrow> bytes list \<times> frame_error option \<times> bytes" where
  "split_frames mx \<equiv> parse_all (next_frame mx)"

lemma push_loop_spec:
  "start \<le> length buf \<Longrightarrow>
   push_loop buf start mx out =
     (case split_frames mx (drop start buf) of
        (fs, err, rest) \<Rightarrow>
          (length buf - length rest, case err of Some e \<Rightarrow> Inl e | None \<Rightarrow> Inr (out @ fs)))
   \<and> (case split_frames mx (drop start buf) of
        (fs, err, rest) \<Rightarrow> rest = drop (length buf - length rest) buf \<and> length rest \<le> length buf)"
proof (induction buf start mx out rule: push_loop.induct)
  case (1 buf start mx out)
  show ?case
  proof (cases "\<exists>m k. next_frame mx (drop start buf) = Inr (Some (m, k))")
    case True
    then obtain m k where mk: "next_frame mx (drop start buf) = Inr (Some (m, k))" by blast
    then obtain len head where lh: "read_varint (drop start buf) = Inr (Some (len, head))"
      "\<not> unat len > mx" "\<not> length (drop start buf) < head + unat len"
      "m = take (unat len) (drop head (drop start buf))" "k = head + unat len"
      by (auto simp: next_frame_def split: sum.splits option.splits if_splits)
    then have "push_loop buf start mx out = push_loop buf (start + k) mx (out @ [m])"
      by (simp add: push_loop.simps [of buf start] Let_def)
    moreover have "start + k \<le> length buf" using "1.prems" lh by simp
    ultimately show ?thesis
      using "1.IH" [OF refl lh(1) refl refl lh(2,3)] mk lh(4,5)
      by (simp add: frames.parse_all_unfold [of mx "drop start buf"] add.commute split: prod.splits option.splits)
  next
    case False
    then have "push_loop buf start mx out =
        (start, case next_frame mx (drop start buf) of Inl e \<Rightarrow> Inl e | Inr _ \<Rightarrow> Inr out)"
      by (auto simp: push_loop.simps [of buf start] next_frame_def Let_def
          split: sum.splits option.splits if_splits)
    with False "1.prems" show ?thesis
      by (auto simp: frames.parse_all_unfold [of mx "drop start buf"]
          split: sum.splits option.splits)
  qed
qed

definition reader_inv :: "frame_reader \<Rightarrow> bool" where
  "reader_inv r \<longleftrightarrow> fr_start r \<le> length (fr_buf r)"

definition unread :: "frame_reader \<Rightarrow> bytes" where
  "unread r = drop (fr_start r) (fr_buf r)"

lemma reader_new_unread [simp]: "reader_inv (reader_new mx)" "unread (reader_new mx) = []"
    "fr_max (reader_new mx) = mx"
  by (simp_all add: reader_inv_def unread_def reader_new_def)

text \<open>Compaction, position and buffer are an implementation of the unread bytes.\<close>

lemma reader_push_refines:
  assumes "reader_inv r" and "reader_push r chunk = (r', res)"
  shows "split_frames (fr_max r) (unread r @ chunk) = (fs, err, rest) \<Longrightarrow>
      unread r' = rest \<and> res = (case err of Some e \<Rightarrow> Inl e | None \<Rightarrow> Inr fs)
      \<and> reader_inv r' \<and> fr_max r' = fr_max r"
proof -
  define buf where "buf = (if fr_start r > 0 \<and> fr_start r * 2 \<ge> length (fr_buf r)
      then unread r else fr_buf r) @ chunk"
  define start where "start = (if fr_start r > 0 \<and> fr_start r * 2 \<ge> length (fr_buf r)
      then 0 else fr_start r)"
  have start: "start \<le> length buf" and rest: "drop start buf = unread r @ chunk"
    using assms(1) by (auto simp: buf_def start_def unread_def reader_inv_def)
  have r': "fr_buf r' = buf" "fr_max r' = fr_max r"
    "(fr_start r', res) = push_loop buf start (fr_max r) []"
    using assms(2) by (auto simp: reader_push_def buf_def start_def unread_def Let_def split: prod.splits)
  assume "split_frames (fr_max r) (unread r @ chunk) = (fs, err, rest)"
  with push_loop_spec [OF start, of "fr_max r" "[]"] rest r' show ?thesis
    by (auto simp: unread_def reader_inv_def split: option.split)
qed

lemma reader_pending_unread [simp]: "reader_pending r = length (unread r)"
  by (simp add: reader_pending_def unread_def)

lemma reader_feed_spec:
  assumes "reader_inv r" and "cs \<noteq> []" and "reader_feed r cs = (r', res)"
  shows "split_frames (fr_max r) (unread r @ concat cs) = (fs, err, rest) \<Longrightarrow>
      res = (case err of Some e \<Rightarrow> Inl e | None \<Rightarrow> Inr fs) \<and> (err = None \<longrightarrow> unread r' = rest)"
  using assms
proof (induction cs arbitrary: r fs err rest r' res)
  case Nil
  then show ?case by simp
next
  case (Cons c cs)
  obtain r1 res1 where push: "reader_push r c = (r1, res1)" by fastforce
  obtain fs1 err1 rest1 where sp: "split_frames (fr_max r) (unread r @ c) = (fs1, err1, rest1)"
    by (metis prod_cases3)
  note R = reader_push_refines [OF Cons.prems(2) push sp]
  have app: "split_frames (fr_max r) (unread r @ concat (c # cs)) =
     (case (fs1, err1, rest1) of
        (items, Some e, rest) \<Rightarrow> (items, Some e, rest @ concat cs)
      | (items, None, rest) \<Rightarrow>
          (case split_frames (fr_max r) (rest @ concat cs) of
             (items', err, rest') \<Rightarrow> (items @ items', err, rest')))"
    using frames.parse_all_append [of "fr_max r" "unread r @ c" "concat cs"] sp by simp
  show ?case
  proof (cases err1)
    case (Some e)
    with Cons.prems app R push show ?thesis by auto
  next
    case None
    show ?thesis
    proof (cases "cs = []")
      case True
      have "next_frame (fr_max r) rest1 = Inr None"
        using frames.parse_all_rest [of "fr_max r"] sp None by simp
      then have "split_frames (fr_max r) rest1 = ([], None, rest1)"
        by (simp add: frames.parse_all_unfold [of "fr_max r" rest1])
      with True None Cons.prems R push app show ?thesis by auto
    next
      case False
      obtain r2 res2 where feed: "reader_feed r1 cs = (r2, res2)" by fastforce
      obtain fs2 err2 rest2 where sp2: "split_frames (fr_max r) (rest1 @ concat cs) = (fs2, err2, rest2)"
        by (metis prod_cases3)
      have "res2 = (case err2 of Some e \<Rightarrow> Inl e | None \<Rightarrow> Inr fs2) \<and> (err2 = None \<longrightarrow> unread r2 = rest2)"
        using Cons.IH [of r1 fs2 err2 rest2 r2 res2] False R feed sp2 Cons.prems push None by auto
      then show ?thesis using Cons.prems(1,4) app sp2 None R push feed by (auto split: option.splits)
    qed
  qed
qed

section \<open>What the framing guarantees\<close>

text \<open>Several messages written one after the other, up to the first that is refused.\<close>

fun write_frames :: "nat \<Rightarrow> bytes list \<Rightarrow> bytes \<Rightarrow> frame_error + bytes" where
  "write_frames mx [] out = Inr out"
| "write_frames mx (m # ms) out =
     (case write_frame m mx out of Inl e \<Rightarrow> Inl e | Inr out' \<Rightarrow> write_frames mx ms out')"

definition delimit :: "bytes \<Rightarrow> bytes" where
  "delimit m = varint (of_nat (length m)) @ m"

lemma write_frame_delimit [wire_simps]: "length m \<le> mx \<Longrightarrow> write_frame m mx out = Inr (out @ delimit m)"
  by (simp add: write_frame_def write_varint_eq delimit_def)

lemma write_frames_delimit:
  "write_frames mx ms out = Inr stream \<longleftrightarrow>
     (\<forall>m \<in> set ms. length m \<le> mx) \<and> stream = out @ concat (map delimit ms)"
  by (induction ms arbitrary: out) (auto simp: write_frame_def write_varint_eq delimit_def)

lemma next_frame_delimit:
  assumes "length m \<le> mx" and "length m < 2 ^ 64"
  shows "next_frame mx (delimit m @ rest) = Inr (Some (m, length (delimit m)))"
proof -
  have "unat (of_nat (length m) :: u64) = length m"
    using assms(2) by (simp add: unsigned_of_nat take_bit_nat_eq_self)
  moreover have "read_varint (delimit m @ rest)
      = Inr (Some (of_nat (length m), length (varint (of_nat (length m)))))"
    by (simp add: delimit_def read_varint_varint)
  ultimately show ?thesis using assms(1)
    by (simp add: next_frame_simps(5) delimit_def)
qed

lemma next_frame_Nil [simp]: "next_frame mx [] = Inr None"
  by (simp add: next_frame_simps(2) read_varint_def MAX_VARINT_BYTES_def)

lemma split_frames_Nil [simp]: "split_frames mx [] = ([], None, [])"
  by (simp add: frames.parse_all_unfold [of mx "[]"])

lemma split_frames_delimit:
  assumes "\<forall>m \<in> set ms. length m \<le> mx" and "mx < 2 ^ 64"
  shows "split_frames mx (concat (map delimit ms)) = (ms, None, [])"
  using assms(1)
proof (induction ms)
  case Nil
  then show ?case by simp
next
  case (Cons m ms)
  then have "next_frame mx (delimit m @ concat (map delimit ms)) = Inr (Some (m, length (delimit m)))"
    using assms(2) by (intro next_frame_delimit) auto
  with Cons show ?case by (simp add: frames.parse_all_unfold [of mx "delimit m @ _"])
qed

lemma reader_feed_new:
  assumes "split_frames mx (concat cs) = (fs, err, rest)" and "reader_feed (reader_new mx) cs = (r, res)"
  shows "res = (case err of Some e \<Rightarrow> Inl e | None \<Rightarrow> Inr fs) \<and> (err = None \<longrightarrow> unread r = rest)"
proof (cases "cs = []")
  case True
  with assms show ?thesis by auto
next
  case False
  with assms reader_feed_spec [of "reader_new mx" cs r res fs err rest] show ?thesis by simp
qed

text \<open>Every 64-bit value written as a varint takes between one and ten bytes and is read back
  exactly, together with the number of bytes it took, whatever bytes follow it.
\<close>

theorem varint_roundtrip:
  "read_varint (write_varint v [] @ rest) = Inr (Some (v, length (write_varint v [])))
   \<and> 0 < length (write_varint v []) \<and> length (write_varint v []) \<le> MAX_VARINT_BYTES"
  using read_varint_varint [of v rest] read_varint_consumed [of "varint v @ rest" v "length (varint v)"]
  by (simp add: varint_def MAX_VARINT_BYTES_def)

text \<open>A varint cut anywhere before its last byte is an ordinary short read, never an error and never
  a value.
\<close>

theorem partial_varint_waits:
  assumes "k < length (write_varint v [])"
  shows "read_varint (take k (write_varint v [])) = Inr None"
proof (rule ccontr)
  let ?p = "take k (varint v)"
  assume "read_varint (take k (write_varint v [])) \<noteq> Inr None"
  then have decided: "read_varint ?p \<noteq> Inr None" by (simp add: varint_def)
  then have "read_varint (?p @ drop k (varint v)) = read_varint ?p" by (rule read_varint_settled)
  then have "read_varint ?p = Inr (Some (v, length (varint v)))"
    using read_varint_varint [of v "[]"] by simp
  then have "length (varint v) \<le> k" using read_varint_consumed by fastforce
  with assms show False by (simp add: varint_def)
qed

theorem partial_varint_waits_witness:
  "read_varint [0xac] = Inr None"
proof -
  have "write_varint 300 [] = [0xac, 0x02]"
    by (simp add: write_varint.simps)
  then show ?thesis using partial_varint_waits [of 1 300] by simp
qed

text \<open>Where the transport cuts the stream makes no difference: feeding any list of chunks gives the
  same frames, or the same error, as pushing all the bytes at once.
\<close>

theorem chunk_boundaries_do_not_matter:
  "snd (reader_feed (reader_new mx) cs) = snd (reader_push (reader_new mx) (concat cs))"
proof -
  obtain fs err rest where sp: "split_frames mx (concat cs) = (fs, err, rest)" by (metis prod_cases3)
  obtain r res where f: "reader_feed (reader_new mx) cs = (r, res)" by fastforce
  obtain r' res' where p: "reader_push (reader_new mx) (concat cs) = (r', res')" by fastforce
  show ?thesis
    using reader_feed_new [OF sp f] reader_push_refines [OF _ p, of fs err rest] sp f p by simp
qed

text \<open>What the writer accepts the reader returns: messages written under a limit and delivered in any
  chunks come back in order, each once, with nothing left pending.
\<close>

theorem frames_survive_every_chunking:
  assumes "write_frames mx ms [] = Inr stream" and "concat cs = stream" and "mx < 2 ^ 64"
  shows "\<exists>r. reader_feed (reader_new mx) cs = (r, Inr ms) \<and> reader_pending r = 0"
proof -
  from assms have "split_frames mx (concat cs) = (ms, None, [])"
    by (simp add: write_frames_delimit split_frames_delimit)
  then show ?thesis
    using reader_feed_new [of mx cs ms None "[]"] by (cases "reader_feed (reader_new mx) cs") auto
qed

theorem frames_survive_every_chunking_witness:
  "\<exists>r. reader_feed (reader_new 16) [[2, 7], [8, 1], [9]] = (r, Inr [[7, 8], [9]]) \<and> reader_pending r = 0"
proof -
  have "write_frames 16 [[7, 8], [9]] [] = Inr [2, 7, 8, 1, 9]"
    by (simp add: write_frame_def write_varint.simps word_le_nat_alt)
  then show ?thesis using frames_survive_every_chunking [of 16 "[[7, 8], [9]]" _ "[[2, 7], [8, 1], [9]]"] by simp
qed

end
