(* ===== verification/Wire.thy ===== *)
theory Wire
  imports Framing
begin

text \<open>
  The messages of \<open>proto/wmlhub/v1/hub.proto\<close> that the relay routes, and the framing helpers of
  \<open>crates/proto/src/lib.rs\<close> around them. The protobuf codec itself is generated code of a
  third-party crate: it is the pair of parameters \<open>pe\<close> (\<open>Message::encode_to_vec\<close>) and \<open>pd\<close>
  (\<open>Message::decode\<close>). What is used of it is that decoding an encoded frame gives that frame back,
  and this is a named hypothesis of the lemmas that need it.
\<close>

section \<open>Messages\<close>

datatype role = RoleUnspecified | RoleRuntime | RoleClient | RoleBoxConnector

datatype kind = KindUnspecified | SessionEvents | Telemetry | Command | CommandResult | Bulk

datatype error_code =
  CodeUnspecified | Unsupported | Unauthenticated | Invalid | Unavailable | Limit | SlowConsumerCode | Throttled

text \<open>Enumerations travel as 32-bit integers; an unknown value reads as the unspecified one.\<close>

definition role_of_i32 :: "int \<Rightarrow> role" where
  "role_of_i32 i = (if i = 1 then RoleRuntime else if i = 2 then RoleClient
     else if i = 3 then RoleBoxConnector else RoleUnspecified)"

definition i32_of_role :: "role \<Rightarrow> int" where
  "i32_of_role r = (case r of RoleUnspecified \<Rightarrow> 0 | RoleRuntime \<Rightarrow> 1 | RoleClient \<Rightarrow> 2 | RoleBoxConnector \<Rightarrow> 3)"

definition kind_of_i32 :: "int \<Rightarrow> kind" where
  "kind_of_i32 i = (if i = 1 then SessionEvents else if i = 2 then Telemetry else if i = 3 then Command
     else if i = 4 then CommandResult else if i = 5 then Bulk else KindUnspecified)"

definition i32_of_kind :: "kind \<Rightarrow> int" where
  "i32_of_kind k = (case k of KindUnspecified \<Rightarrow> 0 | SessionEvents \<Rightarrow> 1 | Telemetry \<Rightarrow> 2 | Command \<Rightarrow> 3
     | CommandResult \<Rightarrow> 4 | Bulk \<Rightarrow> 5)"

definition i32_of_code :: "error_code \<Rightarrow> int" where
  "i32_of_code c = (case c of CodeUnspecified \<Rightarrow> 0 | Unsupported \<Rightarrow> 1 | Unauthenticated \<Rightarrow> 2 | Invalid \<Rightarrow> 3
     | Unavailable \<Rightarrow> 4 | Limit \<Rightarrow> 5 | SlowConsumerCode \<Rightarrow> 6 | Throttled \<Rightarrow> 7)"

lemma role_of_i32_of_role [simp]: "role_of_i32 (i32_of_role r) = r"
  by (cases r) (simp_all add: role_of_i32_def i32_of_role_def)

lemma kind_of_i32_of_kind [simp]: "kind_of_i32 (i32_of_kind k) = k"
  by (cases k) (simp_all add: kind_of_i32_def i32_of_kind_def)

record certificate =
  cert_body :: bytes
  cert_signature :: bytes

record hello =
  h_protocol :: nat
  h_principal :: bytes
  h_role :: int
  h_account_credential :: bytes
  h_account_root :: bytes
  h_chain :: "certificate list"
  h_signature :: bytes
  h_invite :: bytes

record wire_limits =
  wl_max_frame_bytes :: nat
  wl_max_payload_bytes :: nat
  wl_ring_session_events :: nat
  wl_ring_telemetry :: nat
  wl_account_bytes_per_second :: nat
  wl_account_burst_bytes :: nat

record welcome_frame =
  w_protocol :: nat
  w_server_time_ms :: nat
  w_limits :: "wire_limits option"
  w_revoker :: "certificate option"
  w_features :: "string list"

record stream_ref =
  sr_publisher :: bytes
  sr_channel :: bytes

datatype address = ToPrincipal bytes | ToChannel bytes

record envelope =
  e_to :: "address option"
  e_kind :: int
  e_sender :: bytes
  e_seq :: nat
  e_epoch :: u64
  e_coalesce :: bytes
  e_ref :: nat
  e_payload :: bytes

record position =
  p_epoch :: u64
  p_seq :: nat

record subscribe =
  sub_stream :: "stream_ref option"
  sub_since :: "position option"

record unsubscribe =
  unsub_stream :: "stream_ref option"

record backfilled =
  bf_stream :: "stream_ref option"
  bf_epoch :: u64
  bf_seq :: nat
  bf_truncated :: bool

record gap =
  g_stream :: "stream_ref option"
  g_epoch :: u64
  g_dropped :: nat
  g_resume_seq :: nat

record presence =
  pr_principal :: bytes
  pr_role :: int
  pr_online :: bool
  pr_chain :: "certificate list"

record error_frame =
  er_code :: int
  er_ref :: nat
  er_message :: string

record challenge =
  ch_nonce :: bytes
  ch_hub :: string
  ch_server_time_ms :: nat

record pair_offer =
  po_code_hash :: bytes
  po_offer :: bytes

record pair_answer =
  pa_code_hash :: bytes
  pa_answer :: bytes

record paired =
  pd_offer :: bytes
  pd_answer :: bytes

datatype body =
    BHello hello | BWelcome welcome_frame | BEnvelope envelope | BSubscribe subscribe | BUnsubscribe unsubscribe
  | BBackfilled backfilled | BGap gap | BPresence presence | BPing nat | BPong nat | BError error_frame
  | BChallenge challenge | BPairOffer pair_offer | BPairFetch bytes | BPairAnswer pair_answer | BPaired paired

datatype frame = Frame (frame_body: "body option")

section \<open>Codec helpers\<close>

datatype 'p decode_error = FrameErr frame_error | ProtoErr 'p

fun encode_frames_from :: "(frame \<Rightarrow> bytes) \<Rightarrow> frame list \<Rightarrow> nat \<Rightarrow> bytes \<Rightarrow> frame_error + bytes" where
  "encode_frames_from pe [] mx out = Inr out"
| "encode_frames_from pe (f # fs) mx out =
     (case write_frame (pe f) mx out of Inl e \<Rightarrow> Inl e | Inr out' \<Rightarrow> encode_frames_from pe fs mx out')"

definition encode_frames :: "(frame \<Rightarrow> bytes) \<Rightarrow> frame list \<Rightarrow> nat \<Rightarrow> frame_error + bytes" where
  "encode_frames pe fs mx = encode_frames_from pe fs mx []"

text \<open>\<open>encode_length_delimited\<close> is the length as a varint, then the message.\<close>

definition encode_frame :: "(frame \<Rightarrow> bytes) \<Rightarrow> frame \<Rightarrow> bytes" where
  "encode_frame pe f = write_varint (of_nat (length (pe f))) [] @ pe f"

text \<open>\<open>usize::checked_add\<close> on a 64-bit target.\<close>

definition checked_add_usize :: "nat \<Rightarrow> nat \<Rightarrow> nat option" where
  "checked_add_usize a b = (if a + b < 2 ^ 64 then Some (a + b) else None)"

function decode_shared_from ::
    "(bytes \<Rightarrow> 'p + frame) \<Rightarrow> bytes \<Rightarrow> nat \<Rightarrow> nat \<Rightarrow> frame list \<Rightarrow> 'p decode_error + frame list" where
  "decode_shared_from pd message mx at frames =
     (if at < length message then
        (case read_varint (drop at message) of
           Inl e \<Rightarrow> Inl (FrameErr e)
         | Inr None \<Rightarrow> Inl (FrameErr (Truncated (length message - at)))
         | Inr (Some (len, head)) \<Rightarrow>
             if unat len > mx then Inl (FrameErr (TooLarge (unat len) mx))
             else (case Option.bind (checked_add_usize (at + head) (unat len))
                       (\<lambda>e. if e \<le> length message then Some e else None) of
                 None \<Rightarrow> Inl (FrameErr (Truncated (length message - at)))
               | Some end_at \<Rightarrow>
                   (case pd (take (end_at - (at + head)) (drop (at + head) message)) of
                      Inl p \<Rightarrow> Inl (ProtoErr p)
                    | Inr f \<Rightarrow> decode_shared_from pd message mx end_at (frames @ [f]))))
      else Inr frames)"
  by pat_completeness auto
termination
  by (relation "measure (\<lambda>(pd, message, mx, at, frames). length message - at)")
    (auto simp: checked_add_usize_def split: if_splits dest!: read_varint_consumed)

declare decode_shared_from.simps [simp del]

definition decode_frames_shared :: "(bytes \<Rightarrow> 'p + frame) \<Rightarrow> bytes \<Rightarrow> nat \<Rightarrow> 'p decode_error + frame list" where
  "decode_frames_shared pd message mx = decode_shared_from pd message mx 0 []"

definition join_frames :: "bytes list \<Rightarrow> bytes" where
  "join_frames frames = (case frames of [f] \<Rightarrow> f | _ \<Rightarrow> concat frames)"

fun decode_each :: "(bytes \<Rightarrow> 'p + frame) \<Rightarrow> bytes list \<Rightarrow> 'p decode_error + frame list" where
  "decode_each pd [] = Inr []"
| "decode_each pd (b # bs) =
     (case pd b of Inl p \<Rightarrow> Inl (ProtoErr p)
      | Inr f \<Rightarrow> (case decode_each pd bs of Inl e \<Rightarrow> Inl e | Inr fs \<Rightarrow> Inr (f # fs)))"

definition decode_frames :: "(bytes \<Rightarrow> 'p + frame) \<Rightarrow> bytes \<Rightarrow> nat \<Rightarrow> 'p decode_error + frame list" where
  "decode_frames pd message mx =
     (case reader_push (reader_new mx) message of
        (_, Inl e) \<Rightarrow> Inl (FrameErr e)
      | (reader, Inr raw) \<Rightarrow>
          if reader_pending reader \<noteq> 0 then Inl (FrameErr (Truncated (reader_pending reader)))
          else decode_each pd raw)"

section \<open>Properties of the codec helpers\<close>

lemma join_frames_concat [simp]: "join_frames frames = concat frames"
  by (simp add: join_frames_def split: list.split)

lemma encode_frame_delimit [wire_simps]: "encode_frame pe f = delimit (pe f)"
  by (simp add: encode_frame_def delimit_def varint_def)

lemma encode_frame_nonempty [simp]: "encode_frame pe f \<noteq> []"
  by (simp add: encode_frame_delimit delimit_def)

lemma encode_frames_from_write: "encode_frames_from pe fs mx out = write_frames mx (map pe fs) out"
  by (induction pe fs mx out rule: encode_frames_from.induct) (auto split: sum.splits)

lemma decode_frames_split:
  "decode_frames pd message mx =
     (case split_frames mx message of
        (_, Some e, _) \<Rightarrow> Inl (FrameErr e)
      | (raw, None, rest) \<Rightarrow>
          if rest \<noteq> [] then Inl (FrameErr (Truncated (length rest))) else decode_each pd raw)"
proof -
  obtain raw err rest where sp: "split_frames mx message = (raw, err, rest)" by (metis prod_cases3)
  obtain r res where p: "reader_push (reader_new mx) message = (r, res)" by fastforce
  from reader_push_refines [OF _ p, of raw err rest] sp p show ?thesis
    by (simp add: decode_frames_def split: option.splits)
qed

text \<open>The shared decoder is the same pass, with each frame decoded as soon as it is cut out.\<close>

lemma decode_shared_from_step:
  assumes "length message < 2 ^ 64" and "at \<le> length message"
  shows "decode_shared_from pd message mx at fs =
     (if drop at message = [] then Inr fs
      else case next_frame mx (drop at message) of
        Inl e \<Rightarrow> Inl (FrameErr e)
      | Inr None \<Rightarrow> Inl (FrameErr (Truncated (length (drop at message))))
      | Inr (Some (b, k)) \<Rightarrow>
          (case pd b of Inl p \<Rightarrow> Inl (ProtoErr p)
           | Inr f \<Rightarrow> decode_shared_from pd message mx (at + k) (fs @ [f])))"
proof -
  consider e where "read_varint (drop at message) = Inl e"
    | "read_varint (drop at message) = Inr None"
    | len head where "read_varint (drop at message) = Inr (Some (len, head))"
    by (metis old.sum.exhaust option.exhaust surj_pair)
  then show ?thesis
  proof cases
    case 1
    then show ?thesis using assms by (simp add: decode_shared_from.simps [of pd message mx at] next_frame_simps)
  next
    case 2
    then show ?thesis using assms by (simp add: decode_shared_from.simps [of pd message mx at] next_frame_simps)
  next
    case 3
    then have "head \<le> length (drop at message)" by (auto dest: read_varint_consumed)
    with 3 assms show ?thesis
      by (cases "unat len > mx"; cases "length (drop at message) < head + unat len")
        (auto simp: decode_shared_from.simps [of pd message mx at] next_frame_simps checked_add_usize_def
          drop_drop add.commute add.left_commute split: option.splits)
  qed
qed

lemma decode_shared_from_split:
  assumes "length message < 2 ^ 64" and "at \<le> length message"
  shows "decode_shared_from pd message mx at fs = Inr gs \<longleftrightarrow>
     (\<exists>raw hs. split_frames mx (drop at message) = (raw, None, []) \<and> decode_each pd raw = Inr hs \<and> gs = fs @ hs)"
  using assms(2)
proof (induction "length message - at" arbitrary: at fs rule: less_induct)
  case less
  show ?case
  proof (cases "\<exists>b k. next_frame mx (drop at message) = Inr (Some (b, k))")
    case True
    then obtain b k where bk: "next_frame mx (drop at message) = Inr (Some (b, k))" by blast
    then have k: "0 < k" "k \<le> length (drop at message)" using frames.progress by blast+
    then have "at + k \<le> length message" "length message - (at + k) < length message - at" by auto
    note IH = less.hyps [OF this(2,1)]
    show ?thesis using k bk
      by (auto simp: decode_shared_from_step [OF assms(1) less.prems] frames.parse_all_unfold [of mx "drop at message"]
          IH drop_drop add.commute split: sum.splits prod.splits)
  next
    case False
    then show ?thesis
      by (auto simp: decode_shared_from_step [OF assms(1) less.prems] frames.parse_all_unfold [of mx "drop at message"]
          split: sum.splits option.splits)
  qed
qed

lemma decode_each_ok: "\<forall>f \<in> set fs. pd (pe f) = Inr f \<Longrightarrow> decode_each pd (map pe fs) = Inr fs"
  by (induction fs) auto

text \<open>A batch encoded for one websocket message decodes to the same frames, in order, by the
  copying decoder and by the shared one, when every frame fits the limit.
\<close>

theorem batch_round_trips:
  fixes pe :: "frame \<Rightarrow> bytes" and pd :: "bytes \<Rightarrow> 'p + frame"
  assumes codec: "\<forall>f \<in> set fs. pd (pe f) = Inr f"
    and enc: "encode_frames pe fs mx = Inr message"
    and width: "mx < 2 ^ 64" "length message < 2 ^ 64"
  shows "message = join_frames (map (encode_frame pe) fs)
    \<and> decode_frames pd message mx = Inr fs \<and> decode_frames_shared pd message mx = Inr fs"
proof -
  from enc have fit: "\<forall>m \<in> set (map pe fs). length m \<le> mx" and m: "message = concat (map delimit (map pe fs))"
    by (simp_all add: encode_frames_def encode_frames_from_write write_frames_delimit)
  have sp: "split_frames mx message = (map pe fs, None, [])"
    unfolding m using fit width(1) by (rule split_frames_delimit)
  have each: "decode_each pd (map pe fs) = Inr fs" using codec by (rule decode_each_ok)
  have "decode_frames pd message mx = Inr fs" by (simp add: decode_frames_split sp each)
  moreover have "decode_frames_shared pd message mx = Inr fs"
    using decode_shared_from_split [of message 0 pd mx "[]" fs] width(2) sp each
    by (simp add: decode_frames_shared_def)
  moreover have "message = join_frames (map (encode_frame pe) fs)"
    using m by (simp add: encode_frame_delimit [abs_def] comp_def)
  ultimately show ?thesis by blast
qed

text \<open>A codec for the witness: two pings, told apart by one byte.\<close>

definition ping_encode :: "frame \<Rightarrow> bytes" where
  "ping_encode f = (if f = Frame (Some (BPing 1)) then [1] else [2, 2])"

definition ping_decode :: "bytes \<Rightarrow> unit + frame" where
  "ping_decode b = (if b = [1] then Inr (Frame (Some (BPing 1)))
     else if b = [2, 2] then Inr (Frame (Some (BPing 2))) else Inl ())"

theorem batch_round_trips_witness:
  "decode_frames_shared ping_decode [1, 1, 2, 2, 2] 16 = Inr [Frame (Some (BPing 1)), Frame (Some (BPing 2))]"
proof -
  have "encode_frames ping_encode [Frame (Some (BPing 1)), Frame (Some (BPing 2))] 16 = Inr [1, 1, 2, 2, 2]"
    by (simp add: encode_frames_def ping_encode_def write_frame_def write_varint.simps word_le_nat_alt)
  from batch_round_trips [OF _ this, of ping_decode, THEN conjunct2, THEN conjunct2] show ?thesis
    by (simp add: ping_encode_def ping_decode_def)
qed

text \<open>The zero-copy decoder and the copying one accept exactly the same messages and give the same
  frames for them.
\<close>

theorem shared_decoding_agrees:
  assumes "length message < 2 ^ 64"
  shows "decode_frames_shared pd message mx = Inr fs \<longleftrightarrow> decode_frames pd message mx = Inr fs"
  using decode_shared_from_split [OF assms, of 0 pd mx "[]" fs]
  by (auto simp: decode_frames_shared_def decode_frames_split split: prod.splits option.splits)

theorem shared_decoding_agrees_witness:
  "decode_frames_shared ping_decode [1, 1] 16 = Inr [Frame (Some (BPing 1))]"
proof -
  have "split_frames 16 [1, 1] = ([[1]], None, [])"
    using split_frames_delimit [of "[[1]]" 16]
    by (simp add: delimit_def varint_def write_varint.simps word_le_nat_alt)
  then have "decode_frames ping_decode [1, 1] 16 = Inr [Frame (Some (BPing 1))]"
    by (simp add: decode_frames_split ping_decode_def)
  then show ?thesis using shared_decoding_agrees [of "[1, 1]" ping_decode 16] by simp
qed

end
