(* ===== verification/Limits.thy ===== *)
theory Limits
  imports Wire
begin

text \<open>
  The relay's bounds, \<open>crates/relay/src/limits.rs\<close>: the record of every limit, its defaults and
  the part a peer is told.
\<close>

record limits =
  max_frame_bytes :: nat
  max_payload_bytes :: nat
  max_id_bytes :: nat
  max_coalesce_bytes :: nat
  ring_session_events :: nat
  ring_telemetry :: nat
  account_ring_bytes :: nat
  max_streams_per_account :: nat
  max_connections_per_account :: nat
  max_accounts :: nat
  max_subscriptions_per_connection :: nat
  queue_session_events :: nat
  queue_telemetry :: nat
  queue_bytes :: nat
  account_bytes_per_second :: nat
  account_burst_bytes :: nat

definition limits_default :: limits where
  "limits_default = \<lparr>
     max_frame_bytes = 2 ^ 20,
     max_payload_bytes = 2 ^ 20 - 1024,
     max_id_bytes = 64,
     max_coalesce_bytes = 16,
     ring_session_events = 512,
     ring_telemetry = 256,
     account_ring_bytes = 64 * 2 ^ 20,
     max_streams_per_account = 1024,
     max_connections_per_account = 64,
     max_accounts = 10000,
     max_subscriptions_per_connection = 256,
     queue_session_events = 1024,
     queue_telemetry = 128,
     queue_bytes = 16 * 2 ^ 20,
     account_bytes_per_second = 8 * 2 ^ 20,
     account_burst_bytes = 32 * 2 ^ 20\<rparr>"

definition clamp_u32 :: "nat \<Rightarrow> nat" where
  "clamp_u32 n = (if n < 2 ^ 32 then n else 2 ^ 32 - 1)"

definition limits_announce :: "limits \<Rightarrow> wire_limits" where
  "limits_announce l = \<lparr>
     wl_max_frame_bytes = clamp_u32 (max_frame_bytes l),
     wl_max_payload_bytes = clamp_u32 (max_payload_bytes l),
     wl_ring_session_events = clamp_u32 (ring_session_events l),
     wl_ring_telemetry = clamp_u32 (ring_telemetry l),
     wl_account_bytes_per_second = account_bytes_per_second l,
     wl_account_burst_bytes = account_burst_bytes l\<rparr>"

lemma clamp_u32_le: "clamp_u32 n \<le> n" "clamp_u32 n < 2 ^ 32"
  by (simp_all add: clamp_u32_def)

text \<open>A relay of a few bytes, for concrete examples.\<close>

definition tiny_limits :: limits where
  "tiny_limits = \<lparr>
     max_frame_bytes = 40, max_payload_bytes = 30, max_id_bytes = 4, max_coalesce_bytes = 2,
     ring_session_events = 3, ring_telemetry = 2, account_ring_bytes = 50, max_streams_per_account = 2,
     max_connections_per_account = 2, max_accounts = 2, max_subscriptions_per_connection = 2,
     queue_session_events = 3, queue_telemetry = 1, queue_bytes = 40,
     account_bytes_per_second = 100, account_burst_bytes = 200\<rparr>"

end
