(* ===== verification/Ring.thy ===== *)
theory Ring
  imports Limits
begin

text \<open>
  One stream's ring, \<open>crates/relay/src/ring.rs\<close>: the bounded history a subscriber backfills from.
  A ring always holds an unbroken run of the stream's sequence numbers that ends at the newest one,
  so a backfill that is not marked truncated is complete.
\<close>

section \<open>Definitions\<close>

record entry =
  en_seq :: nat
  en_wire :: bytes
  en_coalesce :: bytes

record ring =
  r_kind :: kind
  r_epoch :: u64
  r_seq :: nat
  r_entries :: "entry list"
  r_bytes :: nat
  r_touched :: nat

record backfill =
  fill_entries :: "entry list"
  fill_truncated :: bool

record published =
  pub_entry :: entry
  pub_added :: nat
  pub_freed :: nat

definition ring_new :: "kind \<Rightarrow> u64 \<Rightarrow> nat \<Rightarrow> ring" where
  "ring_new k epoch touched =
     \<lparr>r_kind = k, r_epoch = epoch, r_seq = 0, r_entries = [], r_bytes = 0, r_touched = touched\<rparr>"

text \<open>The bytes freed, and the ring without its oldest entry.\<close>

definition ring_evict_oldest :: "ring \<Rightarrow> nat \<times> ring" where
  "ring_evict_oldest r =
     (case r_entries r of
        e # es \<Rightarrow> (length (en_wire e), r\<lparr>r_entries := es, r_bytes := r_bytes r - length (en_wire e)\<rparr>)
      | [] \<Rightarrow> (0, r))"

text \<open>The loop that evicts past the capacity, with the bytes freed so far.\<close>

function ring_evict_past :: "nat \<Rightarrow> nat \<Rightarrow> ring \<Rightarrow> nat \<times> ring" where
  "ring_evict_past capacity freed r =
     (if length (r_entries r) > capacity
      then case ring_evict_oldest r of (n, r') \<Rightarrow> ring_evict_past capacity (freed + n) r'
      else (freed, r))"
  by pat_completeness auto
termination
  by (relation "measure (\<lambda>(capacity, freed, r). length (r_entries r))")
    (auto simp: ring_evict_oldest_def split: list.splits)

declare ring_evict_past.simps [simp del]

definition ring_publish :: "(frame \<Rightarrow> bytes) \<Rightarrow> envelope \<Rightarrow> nat \<Rightarrow> nat \<Rightarrow> ring \<Rightarrow> published \<times> ring" where
  "ring_publish pe env capacity touched r =
     (let r1 = r\<lparr>r_seq := r_seq r + 1, r_touched := touched\<rparr>;
          env1 = env\<lparr>e_seq := r_seq r1, e_epoch := r_epoch r1\<rparr>;
          wire = encode_frame pe (Frame (Some (BEnvelope env1)));
          entry = \<lparr>en_seq = r_seq r1, en_wire = wire, en_coalesce = e_coalesce env1\<rparr>
      in if capacity > 0 then
           let added = length wire;
               r2 = r1\<lparr>r_bytes := r_bytes r1 + added, r_entries := r_entries r1 @ [entry]\<rparr>;
               (freed, r3) = ring_evict_past capacity 0 r2
           in (\<lparr>pub_entry = entry, pub_added = added, pub_freed = freed\<rparr>, r3)
         else (\<lparr>pub_entry = entry, pub_added = 0, pub_freed = 0\<rparr>, r1))"

text \<open>
  \<open>after + 1\<close> is computed in a \<open>u64\<close> on a position the subscriber chose, so it is written with its
  wrap-around (release builds wrap; a debug build panics there).
\<close>

definition ring_backfill :: "position option \<Rightarrow> ring \<Rightarrow> backfill" where
  "ring_backfill since r =
     (let after = (case since of Some p \<Rightarrow> if p_epoch p = r_epoch r then p_seq p else 0 | None \<Rightarrow> 0);
          first_retained = (case r_entries r of e # _ \<Rightarrow> en_seq e | [] \<Rightarrow> r_seq r + 1);
          entries = filter (\<lambda>e. en_seq e > after) (r_entries r);
          stale_epoch = (case since of Some p \<Rightarrow> p_epoch p \<noteq> r_epoch r \<and> p_seq p > 0 | None \<Rightarrow> False)
      in \<lparr>fill_entries = entries, fill_truncated = (first_retained > (after + 1) mod 2 ^ 64 \<or> stale_epoch)\<rparr>)"

definition ring_is_empty :: "ring \<Rightarrow> bool" where
  "ring_is_empty r \<longleftrightarrow> r_entries r = []"

text \<open>The model checker's test of one ring.\<close>

fun ring_in_order :: "nat \<Rightarrow> nat \<Rightarrow> entry list \<Rightarrow> bool" where
  "ring_in_order seq prev [] = True"
| "ring_in_order seq prev (e # es) = (\<not> (en_seq e \<le> prev \<or> en_seq e > seq) \<and> ring_in_order seq (en_seq e) es)"

definition ring_check :: "nat \<Rightarrow> ring \<Rightarrow> bool" where
  "ring_check capacity r \<longleftrightarrow>
     sum_list (map (length \<circ> en_wire) (r_entries r)) = r_bytes r
     \<and> \<not> length (r_entries r) > capacity \<and> ring_in_order (r_seq r) 0 (r_entries r)"

section \<open>The ring's invariant\<close>

declare upt_Suc [simp del]

abbreviation entry_bytes :: "entry list \<Rightarrow> nat" where
  "entry_bytes es \<equiv> sum_list (map (length \<circ> en_wire) es)"

text \<open>The retained entries are the last ones published, with no gap.\<close>

definition ring_ok :: "ring \<Rightarrow> bool" where
  "ring_ok r \<longleftrightarrow>
     length (r_entries r) \<le> r_seq r
     \<and> map en_seq (r_entries r) = [r_seq r + 1 - length (r_entries r) ..< r_seq r + 1]
     \<and> entry_bytes (r_entries r) = r_bytes r"

lemma ring_new_ok [simp]: "ring_ok (ring_new k epoch touched)"
  by (simp add: ring_ok_def ring_new_def)

lemma upt_tl: "a # as = [i ..< j] \<Longrightarrow> a = i \<and> as = [Suc i ..< j]"
  by (metis list.discI list.inject upt_conv_Cons upt_eq_Cons_conv upt_eq_Nil_conv linorder_not_le)

lemma ring_evict_oldest_ok:
  assumes "ring_ok r" and "ring_evict_oldest r = (n, r')"
  shows "ring_ok r' \<and> r_bytes r = r_bytes r' + n \<and> r_entries r' = tl (r_entries r)
    \<and> r_seq r' = r_seq r \<and> r_kind r' = r_kind r \<and> r_epoch r' = r_epoch r \<and> r_touched r' = r_touched r"
proof (cases "r_entries r")
  case Nil
  with assms show ?thesis by (auto simp: ring_evict_oldest_def)
next
  case (Cons e es)
  from assms(1) Cons have "map en_seq (e # es) = [r_seq r - length es ..< r_seq r + 1]"
    and len: "Suc (length es) \<le> r_seq r" and bytes: "length (en_wire e) + entry_bytes es = r_bytes r"
    by (simp_all add: ring_ok_def)
  then have "map en_seq es = [Suc (r_seq r - length es) ..< r_seq r + 1]"
    using upt_tl [of "en_seq e" "map en_seq es"] by simp
  then have "map en_seq es = [r_seq r + 1 - length es ..< r_seq r + 1]"
    using len by (simp add: Suc_diff_le)
  with assms(2) Cons len bytes show ?thesis
    by (auto simp: ring_evict_oldest_def ring_ok_def)
qed

lemma ring_evict_past_ok:
  "ring_ok r \<Longrightarrow> ring_evict_past capacity freed r = (n, r') \<Longrightarrow>
   ring_ok r' \<and> r_bytes r + freed = r_bytes r' + n
   \<and> r_entries r' = drop (length (r_entries r) - capacity) (r_entries r)
   \<and> r_seq r' = r_seq r \<and> r_kind r' = r_kind r \<and> r_epoch r' = r_epoch r \<and> r_touched r' = r_touched r"
proof (induction capacity freed r rule: ring_evict_past.induct)
  case (1 capacity freed r)
  show ?case
  proof (cases "length (r_entries r) > capacity")
    case True
    obtain k r1 where step: "ring_evict_oldest r = (k, r1)" by fastforce
    note E = ring_evict_oldest_ok [OF "1.prems"(1) step]
    have "ring_evict_past capacity (freed + k) r1 = (n, r')"
      using "1.prems"(2) True step by (simp add: ring_evict_past.simps [of capacity freed r])
    from "1.IH" [OF True step [symmetric] _ this] E
    have IH: "ring_ok r' \<and> r_bytes r1 + (freed + k) = r_bytes r' + n
      \<and> r_entries r' = drop (length (r_entries r1) - capacity) (r_entries r1)
      \<and> r_seq r' = r_seq r1 \<and> r_kind r' = r_kind r1 \<and> r_epoch r' = r_epoch r1 \<and> r_touched r' = r_touched r1"
      by blast
    have "drop (length (tl (r_entries r)) - capacity) (tl (r_entries r))
        = drop (length (r_entries r) - capacity) (r_entries r)"
      using True by (cases "r_entries r") (auto simp: drop_Cons' Suc_diff_le)
    with IH E show ?thesis by simp
  next
    case False
    with "1.prems" show ?thesis by (simp add: ring_evict_past.simps [of capacity freed r])
  qed
qed

text \<open>A publish takes the next number, keeps the run unbroken and accounts for every byte.\<close>

definition stamped :: "ring \<Rightarrow> envelope \<Rightarrow> envelope" where
  "stamped r env = env\<lparr>e_seq := Suc (r_seq r), e_epoch := r_epoch r\<rparr>"

definition stamped_entry :: "(frame \<Rightarrow> bytes) \<Rightarrow> ring \<Rightarrow> envelope \<Rightarrow> entry" where
  "stamped_entry pe r env =
     \<lparr>en_seq = Suc (r_seq r), en_wire = encode_frame pe (Frame (Some (BEnvelope (stamped r env)))),
      en_coalesce = e_coalesce env\<rparr>"

lemma stamped_entry_simps [simp]:
  "en_seq (stamped_entry pe r env) = Suc (r_seq r)"
  "en_coalesce (stamped_entry pe r env) = e_coalesce env"
  "en_wire (stamped_entry pe r env) = encode_frame pe (Frame (Some (BEnvelope (stamped r env))))"
  by (simp_all add: stamped_entry_def)

lemma ring_publish_ok:
  assumes ok: "ring_ok r" and fits: "length (r_entries r) \<le> capacity"
    and pub: "ring_publish pe env capacity touched r = (p, r')"
  shows "ring_ok r' \<and> length (r_entries r') \<le> capacity \<and> r_seq r' = Suc (r_seq r)
    \<and> r_bytes r' + pub_freed p = r_bytes r + pub_added p
    \<and> r_kind r' = r_kind r \<and> r_epoch r' = r_epoch r \<and> r_touched r' = touched
    \<and> pub_entry p = stamped_entry pe r env
    \<and> r_entries r' = drop (Suc (length (r_entries r)) - capacity) (r_entries r @ [stamped_entry pe r env])"
proof (cases "capacity > 0")
  case True
  let ?e = "stamped_entry pe r env"
  let ?r2 = "r\<lparr>r_seq := Suc (r_seq r), r_touched := touched,
      r_bytes := r_bytes r + length (en_wire ?e), r_entries := r_entries r @ [?e]\<rparr>"
  obtain freed r3 where ev: "ring_evict_past capacity 0 ?r2 = (freed, r3)" by fastforce
  have "ring_ok ?r2" using ok by (simp add: ring_ok_def upt_Suc_append)
  note E = ring_evict_past_ok [OF this ev]
  have "p = \<lparr>pub_entry = ?e, pub_added = length (en_wire ?e), pub_freed = freed\<rparr>" "r' = r3"
    using pub ev True by (simp_all add: ring_publish_def stamped_entry_def stamped_def Let_def split: prod.splits)
  with E show ?thesis by auto
next
  case False
  then have "r_entries r = []" using fits by simp
  with pub False ok show ?thesis
    by (auto simp: ring_publish_def stamped_entry_def stamped_def Let_def ring_ok_def)
qed

text \<open>The invariant gives everything the model checker tests.\<close>

lemma ring_in_order_upt: "map en_seq es = [i ..< Suc seq] \<Longrightarrow> prev < i \<Longrightarrow> ring_in_order seq prev es"
proof (induction es arbitrary: i prev)
  case (Cons e es)
  from Cons.prems(1) have "en_seq e = i" "map en_seq es = [Suc i ..< Suc seq]"
    using upt_tl [of "en_seq e" "map en_seq es" i "Suc seq"] by auto
  moreover have "[i ..< Suc seq] \<noteq> []" using Cons.prems(1) by (metis list.discI list.simps(9))
  then have "i \<le> seq" by simp
  ultimately show ?case using Cons.IH [of "Suc i" i] Cons.prems(2) by simp
qed simp

lemma ring_ok_check: "ring_ok r \<Longrightarrow> length (r_entries r) \<le> capacity \<Longrightarrow> ring_check capacity r"
  using ring_in_order_upt [of "r_entries r" "r_seq r + 1 - length (r_entries r)" "r_seq r" 0]
  by (simp add: ring_ok_def ring_check_def)

section \<open>Backfill\<close>

lemma filter_upt_gt: "filter (\<lambda>n. n > a) [i ..< j] = [max i (Suc a) ..< j]"
  by (induction j) (auto simp: max_def upt_Suc)

lemma filter_map_seq: "map en_seq (filter (\<lambda>e. en_seq e > a) es) = filter (\<lambda>n. n > a) (map en_seq es)"
  by (simp add: filter_map comp_def)

lemma ring_first_retained:
  assumes "ring_ok r"
  shows "(case r_entries r of e # _ \<Rightarrow> en_seq e | [] \<Rightarrow> r_seq r + 1) = r_seq r + 1 - length (r_entries r)"
proof (cases "r_entries r")
  case (Cons e es)
  with assms have "map en_seq (e # es) = [r_seq r + 1 - length (r_entries r) ..< r_seq r + 1]"
    by (simp add: ring_ok_def)
  with Cons show ?thesis using upt_tl [of "en_seq e" "map en_seq es"] by simp
qed simp

lemma ring_backfill_seqs:
  assumes "ring_ok r"
  shows "map en_seq (filter (\<lambda>e. en_seq e > a) (r_entries r))
    = [max (r_seq r - length (r_entries r)) a + 1 ..< r_seq r + 1]"
proof -
  have "r_seq r + 1 - length (r_entries r) = Suc (r_seq r - length (r_entries r))"
    using assms by (simp add: ring_ok_def Suc_diff_le)
  with assms show ?thesis unfolding filter_map_seq by (simp add: ring_ok_def filter_upt_gt)
qed

lemma ring_backfill_resume:
  assumes "ring_ok r" and "a + 1 < 2 ^ 64" and "since = Some \<lparr>p_epoch = r_epoch r, p_seq = a\<rparr> \<or> since = None \<and> a = 0"
  shows "map en_seq (fill_entries (ring_backfill since r))
      = [max (r_seq r - length (r_entries r)) a + 1 ..< r_seq r + 1]
    \<and> (fill_truncated (ring_backfill since r) \<longleftrightarrow> a < r_seq r - length (r_entries r))"
proof -
  have "(a + 1) mod 2 ^ 64 = a + 1" using assms(2) by (rule mod_less)
  moreover have "length (r_entries r) \<le> r_seq r" using assms(1) by (simp add: ring_ok_def)
  ultimately show ?thesis
    using assms(3) ring_backfill_seqs [OF assms(1), of a] ring_first_retained [OF assms(1)]
    by (auto simp: ring_backfill_def Let_def)
qed

section \<open>A log a reader can resume from\<close>

text \<open>
  What a reconnecting subscriber relies on: a log whose newest number counts its publishes, and a
  replay from a position that is complete unless it says otherwise. Numbers from \<open>bound\<close> on are not
  positions the log can resume from.
\<close>

locale replay_log =
  fixes ok :: "'r \<Rightarrow> bool" and head :: "'r \<Rightarrow> nat" and publish :: "'e \<Rightarrow> 'r \<Rightarrow> 'r"
    and replay :: "nat \<Rightarrow> 'r \<Rightarrow> nat list \<times> bool" and bound :: nat
  assumes publish_ok: "ok r \<Longrightarrow> ok (publish e r)"
    and publish_head: "ok r \<Longrightarrow> head (publish e r) = Suc (head r)"
    and replay_suffix: "ok r \<Longrightarrow> a \<le> head r \<Longrightarrow> a < bound \<Longrightarrow> \<exists>k \<ge> a. fst (replay a r) = [k + 1 ..< head r + 1]"
    and replay_flag: "ok r \<Longrightarrow> a \<le> head r \<Longrightarrow> a < bound \<Longrightarrow>
        \<not> snd (replay a r) \<longleftrightarrow> fst (replay a r) = [a + 1 ..< head r + 1]"
begin

lemma publishes_ok: "ok r \<Longrightarrow> ok (fold publish es r) \<and> head (fold publish es r) = head r + length es"
  by (induction es arbitrary: r) (auto simp: publish_ok publish_head)

text \<open>Whoever was at the head, missed some publishes and resumes, gets exactly those or is told.\<close>

lemma resume_exact:
  assumes "ok r" and "head r < bound"
  shows "snd (replay (head r) (fold publish es r))
    \<or> fst (replay (head r) (fold publish es r)) = [head r + 1 ..< head r + 1 + length es]"
  using replay_flag [of "fold publish es r" "head r"] publishes_ok [OF assms(1), of es] assms(2)
  by (auto simp: add.commute add.left_commute)

lemma resume_never_repeats:
  assumes "ok r" and "head r < bound"
  shows "distinct (fst (replay (head r) (fold publish es r)))
    \<and> (\<forall>n \<in> set (fst (replay (head r) (fold publish es r))). head r < n)"
  using replay_suffix [of "fold publish es r" "head r"] publishes_ok [OF assms(1), of es] assms(2) by auto

end

definition ring_replay :: "nat \<Rightarrow> ring \<Rightarrow> nat list \<times> bool" where
  "ring_replay a r =
     (let b = ring_backfill (Some \<lparr>p_epoch = r_epoch r, p_seq = a\<rparr>) r
      in (map en_seq (fill_entries b), fill_truncated b))"

definition ring_publishes :: "(frame \<Rightarrow> bytes) \<Rightarrow> nat \<Rightarrow> envelope \<times> nat \<Rightarrow> ring \<Rightarrow> ring" where
  "ring_publishes pe capacity = (\<lambda>(env, touched) r. snd (ring_publish pe env capacity touched r))"

lemma upt_Suc_eq_iff: "a \<le> j \<Longrightarrow> k \<le> j \<Longrightarrow> [Suc k ..< Suc j] = [Suc a ..< Suc j] \<longleftrightarrow> k = a"
  by (metis Suc_diff_le diff_Suc_Suc diff_diff_cancel length_upt)

interpretation ring_log: replay_log
  "\<lambda>r. ring_ok r \<and> length (r_entries r) \<le> capacity" r_seq "ring_publishes pe capacity" ring_replay "2 ^ 64 - 1"
  for pe capacity
proof
  fix r :: ring and e :: "envelope \<times> nat" and a :: nat
  assume r: "ring_ok r \<and> length (r_entries r) \<le> capacity"
  obtain env t where e: "e = (env, t)" by fastforce
  obtain p r' where pub: "ring_publish pe env capacity t r = (p, r')" by fastforce
  from ring_publish_ok [OF _ _ pub] r e pub
  show "ring_ok (ring_publishes pe capacity e r) \<and> length (r_entries (ring_publishes pe capacity e r)) \<le> capacity"
    and "r_seq (ring_publishes pe capacity e r) = Suc (r_seq r)"
    by (auto simp: ring_publishes_def)
  assume a: "a \<le> r_seq r" "a < 2 ^ 64 - 1"
  have len: "length (r_entries r) \<le> r_seq r" using r by (simp add: ring_ok_def)
  have F: "fst (ring_replay a r) = [max (r_seq r - length (r_entries r)) a + 1 ..< r_seq r + 1]
      \<and> (snd (ring_replay a r) \<longleftrightarrow> a < r_seq r - length (r_entries r))"
    using ring_backfill_resume [of r a "Some \<lparr>p_epoch = r_epoch r, p_seq = a\<rparr>"] r a
    by (simp add: ring_replay_def Let_def)
  then show "\<exists>k \<ge> a. fst (ring_replay a r) = [k + 1 ..< r_seq r + 1]"
    by (intro exI [of _ "max (r_seq r - length (r_entries r)) a"]) simp
  show "\<not> snd (ring_replay a r) \<longleftrightarrow> fst (ring_replay a r) = [a + 1 ..< r_seq r + 1]"
    using F a len by (simp add: upt_Suc_eq_iff max_def)
qed

section \<open>What the ring guarantees\<close>

text \<open>After any publishes into a fresh ring, what it retains is the unbroken run of its newest
  sequence numbers, never more than its capacity, with its byte count exact: the ring passes every
  test the model checker makes of it.
\<close>

theorem ring_keeps_newest_run:
  fixes pe :: "frame \<Rightarrow> bytes"
  defines "r \<equiv> \<lambda>k epoch touched capacity es. fold (ring_publishes pe capacity) es (ring_new k epoch touched)"
  shows "map en_seq (r_entries (r k epoch touched capacity es))
      = [length es + 1 - length (r_entries (r k epoch touched capacity es)) ..< length es + 1]
    \<and> r_seq (r k epoch touched capacity es) = length es
    \<and> ring_check capacity (r k epoch touched capacity es)"
proof -
  let ?r0 = "ring_new k epoch touched"
  have r0: "ring_ok ?r0 \<and> length (r_entries ?r0) \<le> capacity" "r_seq ?r0 = 0"
    by (simp_all add: ring_new_def ring_ok_def)
  from ring_log.publishes_ok [OF r0(1), of pe es] r0(2) show ?thesis
    unfolding r_def by (simp add: ring_ok_check) (simp add: ring_ok_def)
qed

text \<open>C34. A subscriber that had seen everything up to the head of a stream, missed any number of
  publishes and resumes from its position gets exactly the missed numbers, in order, or is told that
  its record has a gap; it is never sent one it already had.
\<close>

theorem resuming_is_exact_or_flagged:
  assumes "ring_ok r" and "length (r_entries r) \<le> capacity" and "r_seq r + 1 < 2 ^ 64"
    and "r' = fold (ring_publishes pe capacity) es r"
    and "b = ring_backfill (Some \<lparr>p_epoch = r_epoch r', p_seq = r_seq r\<rparr>) r'"
  shows "(fill_truncated b \<or> map en_seq (fill_entries b) = [r_seq r + 1 ..< r_seq r + 1 + length es])
    \<and> (\<forall>e \<in> set (fill_entries b). r_seq r < en_seq e)"
proof -
  have pos: "r_seq r < 2 ^ 64 - 1" using assms(3) by simp
  have "ring_replay (r_seq r) r' = (map en_seq (fill_entries b), fill_truncated b)"
    unfolding assms(5) ring_replay_def Let_def ..
  with ring_log.resume_exact [OF conjI [OF assms(1,2)] pos, of pe es]
    ring_log.resume_never_repeats [OF conjI [OF assms(1,2)] pos, of pe es]
  show ?thesis unfolding assms(4) [symmetric] by simp
qed

text \<open>A one-envelope ring for the witnesses, its frame encoded as nothing.\<close>

definition tiny_ring :: ring where
  "tiny_ring = \<lparr>r_kind = SessionEvents, r_epoch = 42, r_seq = 1,
     r_entries = [\<lparr>en_seq = 1, en_wire = [0], en_coalesce = []\<rparr>], r_bytes = 1, r_touched = 0\<rparr>"

definition blank_envelope :: envelope where
  "blank_envelope = \<lparr>e_to = None, e_kind = 1, e_sender = [], e_seq = 0, e_epoch = 0, e_coalesce = [],
     e_ref = 0, e_payload = []\<rparr>"

lemma tiny_ring_ok: "ring_ok tiny_ring" "length (r_entries tiny_ring) \<le> 3" "r_seq tiny_ring = 1"
  by (simp_all add: tiny_ring_def ring_ok_def upt_rec)

theorem resuming_is_exact_or_flagged_witness:
  "let r' = fold (ring_publishes (\<lambda>_. []) 3) [(blank_envelope, 0), (blank_envelope, 0)] tiny_ring;
       b = ring_backfill (Some \<lparr>p_epoch = r_epoch r', p_seq = 1\<rparr>) r'
   in fill_truncated b \<or> map en_seq (fill_entries b) = [2 ..< 4]"
proof -
  have "r_seq tiny_ring + 1 < 2 ^ 64" by (simp add: tiny_ring_ok(3))
  from resuming_is_exact_or_flagged [OF tiny_ring_ok(1,2) this refl refl, of "\<lambda>_. []"
      "[(blank_envelope, 0), (blank_envelope, 0)]"]
  show ?thesis by (simp add: Let_def tiny_ring_ok(3) numeral_2_eq_2 numeral_3_eq_3 eval_nat_numeral)
qed

text \<open>The flag itself is computed with a wrap-around. A position of the right epoch at or past the
  head, which nothing can be missing after, is answered as complete, except the largest one: a
  subscriber that names sequence number \<open>u64::MAX\<close> is told its record has a gap (and in a build with
  overflow checks the addition panics).
\<close>

theorem last_position_is_called_truncated:
  assumes "ring_ok r" and "r_seq r \<le> a" and "a < 2 ^ 64"
  shows "fill_entries (ring_backfill (Some \<lparr>p_epoch = r_epoch r, p_seq = a\<rparr>) r) = []
    \<and> (fill_truncated (ring_backfill (Some \<lparr>p_epoch = r_epoch r, p_seq = a\<rparr>) r) \<longleftrightarrow> a = 2 ^ 64 - 1)"
proof (cases "a = 2 ^ 64 - 1")
  case True
  have len: "length (r_entries r) \<le> r_seq r" using assms(1) by (simp add: ring_ok_def)
  have "(a + 1) mod 2 ^ 64 = 0" using True by simp
  moreover have "filter (\<lambda>e. en_seq e > a) (r_entries r) = []"
    using ring_backfill_seqs [OF assms(1), of a] assms(2) by (simp del: upt_Suc)
  ultimately show ?thesis using True ring_first_retained [OF assms(1)] len
    by (simp add: ring_backfill_def Let_def Suc_diff_le)
next
  case False
  then have "a + 1 < 2 ^ 64" using assms(3) by simp
  from ring_backfill_resume [OF assms(1) this, of "Some \<lparr>p_epoch = r_epoch r, p_seq = a\<rparr>"] assms(2) False
  show ?thesis by (simp del: upt_Suc)
qed

theorem last_position_is_called_truncated_witness:
  "fill_truncated (ring_backfill (Some \<lparr>p_epoch = 42, p_seq = 2 ^ 64 - 1\<rparr>) tiny_ring)
   \<and> \<not> fill_truncated (ring_backfill (Some \<lparr>p_epoch = 42, p_seq = 2 ^ 64 - 2\<rparr>) tiny_ring)"
  using last_position_is_called_truncated [OF tiny_ring_ok(1), of "2 ^ 64 - 1"]
    last_position_is_called_truncated [OF tiny_ring_ok(1), of "2 ^ 64 - 2"] tiny_ring_ok(3)
  by (simp add: tiny_ring_def)

declare upt_Suc [simp]

end
