(* ===== verification/Queue.thy ===== *)
theory Queue
  imports Ring "HOL-Library.Sublist"
begin

text \<open>
  One connection's outbound queue, \<open>crates/relay/src/queue.rs\<close>, where backpressure is decided by
  kind: session events and direct envelopes are never dropped (past the bound the connection is a slow
  consumer), telemetry is coalesced and past its bound the oldest is dropped and counted, and a
  \<open>Gap\<close> reports the count before the stream's next delivery.
\<close>

lemma sorted_wrt_subseq: "subseq xs ys \<Longrightarrow> sorted_wrt R ys \<Longrightarrow> sorted_wrt R xs"
  by (induction rule: list_emb.induct) (auto elim: list_emb_set)

section \<open>Definitions\<close>

record stream_key =
  sk_publisher :: bytes
  sk_channel :: bytes

definition key_to_ref :: "stream_key \<Rightarrow> stream_ref" where
  "key_to_ref k = \<lparr>sr_publisher = sk_publisher k, sr_channel = sk_channel k\<rparr>"

datatype push_result = Pushed | SlowConsumer

record item =
  it_wire :: bytes
  it_stream :: "stream_key option"
  it_seq :: nat
  it_epoch :: u64
  it_coalesce :: bytes
  it_telemetry :: bool
  it_session_event :: bool

record dropped =
  d_epoch :: u64
  d_count :: nat

record outbound =
  o_items :: "item list"
  o_bytes :: nat
  o_session_events :: nat
  o_telemetry :: nat
  o_dropped :: "(stream_key \<times> dropped) list"

definition outbound_default :: outbound where
  "outbound_default = \<lparr>o_items = [], o_bytes = 0, o_session_events = 0, o_telemetry = 0, o_dropped = []\<rparr>"

definition outbound_push :: "limits \<Rightarrow> item \<Rightarrow> outbound \<Rightarrow> outbound \<times> push_result" where
  "outbound_push l it q =
     (if it_session_event it \<and> o_session_events q \<ge> queue_session_events l then (q, SlowConsumer)
      else let q' = q\<lparr>o_session_events := o_session_events q + of_bool (it_session_event it),
                      o_telemetry := o_telemetry q + of_bool (it_telemetry it),
                      o_bytes := o_bytes q + length (it_wire it),
                      o_items := o_items q @ [it]\<rparr>
           in (q', if o_bytes q' > queue_bytes l then SlowConsumer else Pushed))"

definition frame_item :: "(frame \<Rightarrow> bytes) \<Rightarrow> frame \<Rightarrow> item" where
  "frame_item pe f = \<lparr>it_wire = encode_frame pe f, it_stream = None, it_seq = 0, it_epoch = 0, it_coalesce = [],
     it_telemetry = False, it_session_event = False\<rparr>"

definition push_frame :: "(frame \<Rightarrow> bytes) \<Rightarrow> limits \<Rightarrow> frame \<Rightarrow> outbound \<Rightarrow> outbound \<times> push_result" where
  "push_frame pe l f q = outbound_push l (frame_item pe f) q"

definition coalesce_target :: "stream_key \<Rightarrow> bytes \<Rightarrow> outbound \<Rightarrow> nat option" where
  "coalesce_target stream coalesce q =
     (if coalesce = [] then None
      else position (\<lambda>it. it_telemetry it \<and> it_stream it = Some stream \<and> it_coalesce it = coalesce) (o_items q))"

text \<open>A telemetry item always belongs to a stream (\<open>expect\<close>), which the invariant keeps.\<close>

definition note_dropped :: "item \<Rightarrow> (stream_key \<times> dropped) list \<Rightarrow> (stream_key \<times> dropped) list" where
  "note_dropped it m =
     (case it_stream it of
        None \<Rightarrow> m
      | Some key \<Rightarrow>
          let d = (case map_of m key of Some d \<Rightarrow> d | None \<Rightarrow> \<lparr>d_epoch = 0, d_count = 0\<rparr>)
          in AList.update key (d\<lparr>d_epoch := it_epoch it, d_count := d_count d + 1\<rparr>) m)"

definition drop_oldest_telemetry :: "outbound \<Rightarrow> outbound" where
  "drop_oldest_telemetry q =
     (case position it_telemetry (o_items q) of
        None \<Rightarrow> q
      | Some i \<Rightarrow>
          let it = o_items q ! i
          in q\<lparr>o_items := remove_nth i (o_items q), o_bytes := o_bytes q - length (it_wire it),
               o_telemetry := o_telemetry q - 1, o_dropped := note_dropped it (o_dropped q)\<rparr>)"

text \<open>
  The loop that makes room. It goes on while the counter is at the bound; that a telemetry item is
  then there to drop is what exact counters give, and without one the source's loop would not end, so
  the model stops at that point. \<open>drop_telemetry_past_done\<close> proves that the loop ends by its own
  condition.
\<close>

function drop_telemetry_past :: "nat \<Rightarrow> outbound \<Rightarrow> outbound" where
  "drop_telemetry_past bound q =
     (if o_telemetry q \<ge> bound \<and> position it_telemetry (o_items q) \<noteq> None
      then drop_telemetry_past bound (drop_oldest_telemetry q) else q)"
  by pat_completeness auto
termination
proof (relation "measure (\<lambda>(bound, q). length (o_items q))", simp)
  fix bound :: nat and q :: outbound
  assume "bound \<le> o_telemetry q \<and> position it_telemetry (o_items q) \<noteq> None"
  then obtain i where "position it_telemetry (o_items q) = Some i" by blast
  then show "((bound, drop_oldest_telemetry q), (bound, q)) \<in> measure (\<lambda>(bound, q). length (o_items q))"
    by (auto simp: drop_oldest_telemetry_def Let_def dest: position_SomeD)
qed

declare drop_telemetry_past.simps [simp del]

definition published_item :: "stream_key \<Rightarrow> kind \<Rightarrow> u64 \<Rightarrow> entry \<Rightarrow> item" where
  "published_item stream k epoch e = \<lparr>it_wire = en_wire e, it_stream = Some stream, it_seq = en_seq e,
     it_epoch = epoch, it_coalesce = en_coalesce e, it_telemetry = (k = Telemetry),
     it_session_event = (k = SessionEvents)\<rparr>"

definition push_published ::
    "limits \<Rightarrow> stream_key \<Rightarrow> kind \<Rightarrow> u64 \<Rightarrow> entry \<Rightarrow> outbound \<Rightarrow> outbound \<times> push_result" where
  "push_published l stream k epoch e q =
     (let it = published_item stream k epoch e in
      if k \<noteq> Telemetry then outbound_push l it q
      else let q1 = (case coalesce_target stream (it_coalesce it) q of
                       Some i \<Rightarrow> q\<lparr>o_items := remove_nth i (o_items q),
                                   o_bytes := o_bytes q - length (it_wire (o_items q ! i)),
                                   o_telemetry := o_telemetry q - 1\<rparr>
                     | None \<Rightarrow> q);
               q2 = drop_telemetry_past (max (queue_telemetry l) 1) q1
           in outbound_push l it q2)"

definition purge_stream :: "stream_key \<Rightarrow> outbound \<Rightarrow> outbound" where
  "purge_stream key q =
     (let gone = filter (\<lambda>it. it_stream it = Some key) (o_items q)
      in q\<lparr>o_items := filter (\<lambda>it. it_stream it \<noteq> Some key) (o_items q),
           o_bytes := o_bytes q - sum_list (map (length \<circ> it_wire) gone),
           o_session_events := o_session_events q - length (filter it_session_event gone),
           o_telemetry := o_telemetry q - length (filter it_telemetry gone),
           o_dropped := AList.delete key (o_dropped q)\<rparr>)"

definition gap_frame :: "stream_key \<Rightarrow> dropped \<Rightarrow> item \<Rightarrow> frame" where
  "gap_frame key d it = Frame (Some (BGap \<lparr>g_stream = Some (key_to_ref key), g_epoch = d_epoch d,
     g_dropped = d_count d, g_resume_seq = it_seq it\<rparr>))"

text \<open>One turn of \<open>take\<close>: the front item leaves, with the report owed to its stream, if any.\<close>

definition pop_front :: "outbound \<Rightarrow> item \<Rightarrow> item list \<Rightarrow> frame list \<times> outbound" where
  "pop_front q it rest =
     (let q1 = q\<lparr>o_items := rest, o_bytes := o_bytes q - length (it_wire it),
                 o_session_events := o_session_events q - of_bool (it_session_event it)\<rparr>
      in if it_telemetry it then
           let q2 = q1\<lparr>o_telemetry := o_telemetry q1 - 1\<rparr>
           in case it_stream it of
                None \<Rightarrow> ([], q2)
              | Some key \<Rightarrow>
                  (case map_of (o_dropped q2) key of
                     Some d \<Rightarrow> ([gap_frame key d it], q2\<lparr>o_dropped := AList.delete key (o_dropped q2)\<rparr>)
                   | None \<Rightarrow> ([], q2))
         else ([], q1))"

lemma pop_front_items [simp]: "o_items (snd (pop_front q it rest)) = rest"
  by (auto simp: pop_front_def Let_def split: option.splits)

function take_loop :: "(frame \<Rightarrow> bytes) \<Rightarrow> nat \<Rightarrow> nat \<Rightarrow> bytes list \<Rightarrow> outbound \<Rightarrow> bytes list \<times> outbound" where
  "take_loop pe budget spent out q =
     (case o_items q of
        [] \<Rightarrow> (out, q)
      | it # rest \<Rightarrow>
          if out \<noteq> [] \<and> spent + length (it_wire it) > budget then (out, q)
          else let (gaps, q') = pop_front q it rest
               in take_loop pe budget (spent + length (it_wire it))
                    (out @ map (encode_frame pe) gaps @ [it_wire it]) q')"
  by pat_completeness auto
termination
proof (relation "measure (\<lambda>(pe, budget, spent, out, q). length (o_items q))", simp)
  fix pe :: "frame \<Rightarrow> bytes" and budget spent :: nat and out :: "bytes list" and q it rest x gaps q'
  assume "o_items q = it # rest" "x = pop_front q it rest" "(gaps, q') = x"
  then have "o_items q' = rest" by (metis pop_front_items snd_conv)
  with \<open>o_items q = it # rest\<close>
  show "((pe, budget, spent + length (it_wire it), out @ map (encode_frame pe) gaps @ [it_wire it], q'),
      (pe, budget, spent, out, q)) \<in> measure (\<lambda>(pe, budget, spent, out, q). length (o_items q))"
    by simp
qed

declare take_loop.simps [simp del]

definition outbound_take :: "(frame \<Rightarrow> bytes) \<Rightarrow> nat \<Rightarrow> outbound \<Rightarrow> bytes list \<times> outbound" where
  "outbound_take pe budget q = take_loop pe budget 0 [] q"

definition outbound_is_empty :: "outbound \<Rightarrow> bool" where
  "outbound_is_empty q \<longleftrightarrow> o_items q = []"

text \<open>The model checker's test of one queue: exact counters, and every bound.\<close>

definition outbound_check :: "limits \<Rightarrow> outbound \<Rightarrow> bool" where
  "outbound_check l q \<longleftrightarrow>
     sum_list (map (length \<circ> it_wire) (o_items q)) = o_bytes q
     \<and> length (filter it_session_event (o_items q)) = o_session_events q
     \<and> length (filter it_telemetry (o_items q)) = o_telemetry q
     \<and> \<not> (o_bytes q > queue_bytes l \<or> o_session_events q > queue_session_events l
          \<or> o_telemetry q > max (queue_telemetry l) 1)"

lemma take_loop_simps:
  "o_items q = [] \<Longrightarrow> take_loop pe budget spent out q = (out, q)"
  "o_items q = it # rest \<Longrightarrow> take_loop pe budget spent out q =
     (if out \<noteq> [] \<and> spent + length (it_wire it) > budget then (out, q)
      else take_loop pe budget (spent + length (it_wire it))
             (out @ map (encode_frame pe) (fst (pop_front q it rest)) @ [it_wire it]) (snd (pop_front q it rest)))"
  by (simp_all add: take_loop.simps [of pe budget spent out q] split: prod.split)

section \<open>Counters and bounds\<close>

abbreviation item_bytes :: "item list \<Rightarrow> nat" where
  "item_bytes its \<equiv> sum_list (map (length \<circ> it_wire) its)"

definition outbound_ok :: "outbound \<Rightarrow> bool" where
  "outbound_ok q \<longleftrightarrow>
     item_bytes (o_items q) = o_bytes q
     \<and> length (filter it_session_event (o_items q)) = o_session_events q
     \<and> length (filter it_telemetry (o_items q)) = o_telemetry q
     \<and> (\<forall>it \<in> set (o_items q). it_telemetry it \<longrightarrow> it_stream it \<noteq> None \<and> \<not> it_session_event it)
     \<and> keys_distinct (o_dropped q)"

definition outbound_within :: "limits \<Rightarrow> outbound \<Rightarrow> bool" where
  "outbound_within l q \<longleftrightarrow>
     o_bytes q \<le> queue_bytes l \<and> o_session_events q \<le> queue_session_events l
     \<and> o_telemetry q \<le> max (queue_telemetry l) 1"

lemma outbound_default_ok [simp]: "outbound_ok outbound_default" "outbound_within l outbound_default"
  by (simp_all add: outbound_ok_def outbound_within_def outbound_default_def)

lemma outbound_check_iff: "outbound_ok q \<Longrightarrow> outbound_check l q \<longleftrightarrow> outbound_within l q"
  by (auto simp: outbound_ok_def outbound_check_def outbound_within_def)

lemma outbound_push_ok:
  assumes "outbound_ok q" and "it_telemetry it \<Longrightarrow> it_stream it \<noteq> None \<and> \<not> it_session_event it"
    and "outbound_push l it q = (q', r)"
  shows "outbound_ok q'"
  using assms by (auto simp: outbound_push_def outbound_ok_def Let_def split: if_splits)

lemma outbound_push_within:
  assumes "outbound_within l q" and "it_telemetry it \<Longrightarrow> o_telemetry q < max (queue_telemetry l) 1"
    and "outbound_push l it q = (q', Pushed)"
  shows "outbound_within l q'"
  using assms by (auto simp: outbound_push_def outbound_within_def Let_def split: if_splits)

lemma outbound_push_items:
  "outbound_push l it q = (q', r) \<Longrightarrow>
   (o_items q' = o_items q @ [it] \<or> r = SlowConsumer \<and> q' = q) \<and> o_dropped q' = o_dropped q"
  by (auto simp: outbound_push_def Let_def split: if_splits)

lemma outbound_push_Pushed: "outbound_push l it q = (q', Pushed) \<Longrightarrow> o_items q' = o_items q @ [it]"
  by (auto simp: outbound_push_def Let_def split: if_splits)

lemma outbound_push_thins:
  assumes "outbound_push l it q = (q', r)" and "subseq (o_items q) xs"
  shows "subseq (o_items q') (xs @ [it])"
  using outbound_push_items [OF assms(1)] assms(2) by (auto intro: list_emb_append_mono)

text \<open>Taking one telemetry item out of the middle, as coalescing and dropping do.\<close>

definition without_nth :: "nat \<Rightarrow> outbound \<Rightarrow> outbound" where
  "without_nth i q = q\<lparr>o_items := remove_nth i (o_items q),
     o_bytes := o_bytes q - length (it_wire (o_items q ! i)), o_telemetry := o_telemetry q - 1\<rparr>"

lemma without_nth_ok:
  assumes "outbound_ok q" and "i < length (o_items q)" and "it_telemetry (o_items q ! i)"
  shows "outbound_ok (without_nth i q) \<and> Suc (o_telemetry (without_nth i q)) = o_telemetry q
    \<and> o_bytes (without_nth i q) \<le> o_bytes q \<and> o_session_events (without_nth i q) = o_session_events q"
proof -
  have session: "\<not> it_session_event (o_items q ! i)"
    using assms by (auto simp: outbound_ok_def)
  have "item_bytes (o_items q) = length (it_wire (o_items q ! i)) + item_bytes (remove_nth i (o_items q))"
    using sum_list_remove_nth [OF assms(2), of "length \<circ> it_wire"] by simp
  then show ?thesis
    using assms session length_filter_remove_nth [OF assms(2), of it_telemetry, OF assms(3)] filter_remove_nth [OF assms(2), of it_session_event]
      set_remove_nth [of i "o_items q"]
    by (auto simp: outbound_ok_def without_nth_def)
qed

lemma note_dropped_distinct: "keys_distinct m \<Longrightarrow> keys_distinct (note_dropped it m)"
  by (auto simp: note_dropped_def Let_def distinct_update split: option.splits)

lemma drop_oldest_eq:
  "position it_telemetry (o_items q) = Some i \<Longrightarrow>
   drop_oldest_telemetry q = (without_nth i q)\<lparr>o_dropped := note_dropped (o_items q ! i) (o_dropped q)\<rparr>"
  by (simp add: drop_oldest_telemetry_def without_nth_def Let_def)

lemma drop_oldest_ok:
  assumes "outbound_ok q" and "position it_telemetry (o_items q) = Some i"
  shows "outbound_ok (drop_oldest_telemetry q) \<and> Suc (o_telemetry (drop_oldest_telemetry q)) = o_telemetry q
    \<and> o_bytes (drop_oldest_telemetry q) \<le> o_bytes q
    \<and> o_session_events (drop_oldest_telemetry q) = o_session_events q"
proof -
  from assms(2) have "i < length (o_items q)" "it_telemetry (o_items q ! i)" by (auto dest: position_SomeD)
  from without_nth_ok [OF assms(1) this] note_dropped_distinct [of "o_dropped q"] assms(1)
  show ?thesis by (auto simp: drop_oldest_eq [OF assms(2)] outbound_ok_def)
qed

lemma drop_telemetry_past_stop:
  "\<not> (o_telemetry q \<ge> bound \<and> position it_telemetry (o_items q) \<noteq> None) \<Longrightarrow> drop_telemetry_past bound q = q"
  by (subst drop_telemetry_past.simps) (rule if_not_P)

lemma drop_telemetry_past_go:
  "o_telemetry q \<ge> bound \<Longrightarrow> position it_telemetry (o_items q) = Some i \<Longrightarrow>
   drop_telemetry_past bound q = drop_telemetry_past bound (drop_oldest_telemetry q)"
  by (subst drop_telemetry_past.simps) simp

lemma drop_telemetry_past_induct:
  assumes "outbound_ok q" and "P q"
    and step: "\<And>q i. outbound_ok q \<Longrightarrow> P q \<Longrightarrow> position it_telemetry (o_items q) = Some i \<Longrightarrow>
        P (drop_oldest_telemetry q)"
  shows "P (drop_telemetry_past bound q)"
  using assms(1,2)
proof (induction bound q rule: drop_telemetry_past.induct)
  case (1 bound q)
  show ?case
  proof (cases "o_telemetry q \<ge> bound \<and> position it_telemetry (o_items q) \<noteq> None")
    case True
    then obtain i where i: "position it_telemetry (o_items q) = Some i" by blast
    from 1 True i drop_oldest_ok [OF "1.prems"(1) i] step show ?thesis
      by (simp add: drop_telemetry_past_go)
  next
    case False
    from drop_telemetry_past_stop [OF this] "1.prems" show ?thesis by simp
  qed
qed

text \<open>The loop ends because its own condition fails: the queue is then under the bound.\<close>

lemma drop_telemetry_past_done:
  assumes "outbound_ok q" and "0 < bound"
  shows "o_telemetry (drop_telemetry_past bound q) < bound"
  using assms
proof (induction bound q rule: drop_telemetry_past.induct)
  case (1 bound q)
  show ?case
  proof (cases "o_telemetry q \<ge> bound \<and> position it_telemetry (o_items q) \<noteq> None")
    case True
    then obtain i where i: "position it_telemetry (o_items q) = Some i" by blast
    from 1 True i drop_oldest_ok [OF "1.prems"(1) i] show ?thesis
      by (simp add: drop_telemetry_past_go)
  next
    case False
    have "o_telemetry q < bound"
    proof (rule ccontr)
      assume "\<not> o_telemetry q < bound"
      with False have "filter it_telemetry (o_items q) = []" by (simp add: filter_empty_conv)
      with "1.prems" \<open>\<not> o_telemetry q < bound\<close> show False by (auto simp: outbound_ok_def)
    qed
    with drop_telemetry_past_stop [OF False] show ?thesis by simp
  qed
qed

lemma drop_telemetry_past_ok:
  assumes "outbound_ok q"
  shows "outbound_ok (drop_telemetry_past bound q) \<and> o_bytes (drop_telemetry_past bound q) \<le> o_bytes q
    \<and> o_session_events (drop_telemetry_past bound q) = o_session_events q
    \<and> o_telemetry (drop_telemetry_past bound q) \<le> o_telemetry q"
  by (rule drop_telemetry_past_induct [OF assms]) (use assms drop_oldest_ok in fastforce)+


text \<open>\<open>push_published\<close> in stages: what is left after coalescing and making room, then the append.\<close>

definition made_room :: "limits \<Rightarrow> stream_key \<Rightarrow> bytes \<Rightarrow> outbound \<Rightarrow> outbound" where
  "made_room l stream coalesce q =
     drop_telemetry_past (max (queue_telemetry l) 1)
       (case coalesce_target stream coalesce q of Some i \<Rightarrow> without_nth i q | None \<Rightarrow> q)"

lemma push_published_stages:
  "push_published l stream k epoch e q =
     outbound_push l (published_item stream k epoch e)
       (if k = Telemetry then made_room l stream (en_coalesce e) q else q)"
  by (auto simp: push_published_def made_room_def without_nth_def published_item_def Let_def split: option.splits)

lemma coalesce_target_SomeD:
  "coalesce_target stream c q = Some i \<Longrightarrow>
   c \<noteq> [] \<and> i < length (o_items q) \<and> it_telemetry (o_items q ! i) \<and> it_stream (o_items q ! i) = Some stream
   \<and> it_coalesce (o_items q ! i) = c"
  by (auto simp: coalesce_target_def split: if_splits dest: position_SomeD)

lemma made_room_ok:
  assumes "outbound_ok q"
  shows "outbound_ok (made_room l stream c q) \<and> o_bytes (made_room l stream c q) \<le> o_bytes q
    \<and> o_session_events (made_room l stream c q) = o_session_events q
    \<and> o_telemetry (made_room l stream c q) < max (queue_telemetry l) 1"
proof -
  let ?q1 = "case coalesce_target stream c q of Some i \<Rightarrow> without_nth i q | None \<Rightarrow> q"
  have "outbound_ok ?q1 \<and> o_bytes ?q1 \<le> o_bytes q \<and> o_session_events ?q1 = o_session_events q"
    using assms without_nth_ok [OF assms] coalesce_target_SomeD [of stream c q]
    by (auto split: option.split)
  then show ?thesis
    using drop_telemetry_past_ok [of ?q1 "max (queue_telemetry l) 1"]
      drop_telemetry_past_done [of ?q1 "max (queue_telemetry l) 1"]
    by (auto simp: made_room_def)
qed

lemma published_item_sound:
  "it_telemetry (published_item s k ep e) \<Longrightarrow>
   it_stream (published_item s k ep e) \<noteq> None \<and> \<not> it_session_event (published_item s k ep e)"
  by (simp add: published_item_def)

lemma push_published_ok:
  assumes "outbound_ok q" and "push_published l s k ep e q = (q', r)"
  shows "outbound_ok q'"
proof -
  have "outbound_ok (if k = Telemetry then made_room l s (en_coalesce e) q else q)"
    using assms(1) made_room_ok by simp
  then show ?thesis
    using outbound_push_ok [OF _ published_item_sound] assms(2) by (simp add: push_published_stages)
qed

lemma push_published_within:
  assumes "outbound_ok q" and "outbound_within l q" and "push_published l s k ep e q = (q', Pushed)"
  shows "outbound_within l q'"
proof -
  let ?q1 = "if k = Telemetry then made_room l s (en_coalesce e) q else q"
  have "outbound_within l ?q1"
    using assms(1,2) made_room_ok [OF assms(1), of l s "en_coalesce e"] by (auto simp: outbound_within_def)
  moreover have "o_telemetry ?q1 < max (queue_telemetry l) 1" if "it_telemetry (published_item s k ep e)"
    using that made_room_ok [OF assms(1), of l s "en_coalesce e"] by (simp add: published_item_def)
  moreover from assms(3) have "outbound_push l (published_item s k ep e) ?q1 = (q', Pushed)"
    by (simp only: push_published_stages)
  ultimately show ?thesis by (rule outbound_push_within)
qed

lemma push_frame_ok: "outbound_ok q \<Longrightarrow> push_frame pe l f q = (q', r) \<Longrightarrow> outbound_ok q'"
  unfolding push_frame_def by (erule outbound_push_ok) (simp_all add: frame_item_def)

lemma push_frame_within: "outbound_within l q \<Longrightarrow> push_frame pe l f q = (q', Pushed) \<Longrightarrow> outbound_within l q'"
  unfolding push_frame_def by (erule outbound_push_within) (simp_all add: frame_item_def)

lemma sum_list_partition:
  "sum_list (map f xs) = sum_list (map f (filter P xs)) + sum_list (map f (filter (\<lambda>x. \<not> P x) xs))"
  for f :: "'a \<Rightarrow> nat"
  by (induction xs) auto

lemma length_filter_partition:
  "length (filter P xs) = length (filter P (filter Q xs)) + length (filter P (filter (\<lambda>x. \<not> Q x) xs))"
  by (induction xs) auto

lemma purge_stream_ok:
  assumes "outbound_ok q"
  shows "outbound_ok (purge_stream key q)"
  using assms sum_list_partition [of "length \<circ> it_wire" "o_items q" "\<lambda>it. it_stream it = Some key"]
    length_filter_partition [of it_telemetry "o_items q" "\<lambda>it. it_stream it = Some key"]
    length_filter_partition [of it_session_event "o_items q" "\<lambda>it. it_stream it = Some key"]
  by (auto simp add: outbound_ok_def purge_stream_def Let_def distinct_delete)

lemma purge_stream_within: "outbound_within l q \<Longrightarrow> outbound_within l (purge_stream key q)"
  by (auto simp: outbound_within_def purge_stream_def Let_def)

lemma purge_stream_items [simp]:
  "o_items (purge_stream key q) = filter (\<lambda>it. it_stream it \<noteq> Some key) (o_items q)"
  by (simp add: purge_stream_def Let_def)

lemma pop_front_ok:
  assumes "outbound_ok q" and "o_items q = it # rest"
  shows "outbound_ok (snd (pop_front q it rest))"
  using assms by (auto simp: outbound_ok_def pop_front_def Let_def distinct_delete split: option.splits)

lemma pop_front_within: "outbound_within l q \<Longrightarrow> outbound_within l (snd (pop_front q it rest))"
  by (auto simp: outbound_within_def pop_front_def Let_def split: option.splits)

section \<open>What \<open>take\<close> hands over\<close>

text \<open>
  The specification of \<open>take\<close>: pop the first \<open>n\<close> items, each with the report owed before it.
\<close>

fun pops :: "nat \<Rightarrow> outbound \<Rightarrow> (frame list \<times> item) list \<times> outbound" where
  "pops 0 q = ([], q)"
| "pops (Suc n) q =
     (case o_items q of
        [] \<Rightarrow> ([], q)
      | it # rest \<Rightarrow> (case pop_front q it rest of (gaps, q1) \<Rightarrow>
          (case pops n q1 of (ps, q2) \<Rightarrow> ((gaps, it) # ps, q2))))"

definition handed_over :: "(frame \<Rightarrow> bytes) \<Rightarrow> (frame list \<times> item) list \<Rightarrow> bytes list" where
  "handed_over pe ps = concat (map (\<lambda>(gaps, it). map (encode_frame pe) gaps @ [it_wire it]) ps)"

lemma pops_items: "map snd (fst (pops n q)) = take n (o_items q) \<and> o_items (snd (pops n q)) = drop n (o_items q)"
proof (induction n arbitrary: q)
  case (Suc n)
  show ?case
  proof (cases "o_items q")
    case (Cons it rest)
    with Suc [of "snd (pop_front q it rest)"] pop_front_items [of q it rest]
    show ?thesis by (auto simp: split: prod.splits)
  qed simp
qed simp

lemma pops_keep:
  assumes "I q" and "\<And>q it rest. I q \<Longrightarrow> o_items q = it # rest \<Longrightarrow> I (snd (pop_front q it rest))"
  shows "I (snd (pops n q))"
  using assms(1)
proof (induction n arbitrary: q)
  case (Suc n)
  then show ?case
    using assms(2) [OF Suc.prems]
    by (auto split: list.split prod.split) (metis Suc.IH snd_conv)+
qed simp

text \<open>The budget: beyond the first item, what is popped fits, and the next item would not have.\<close>

lemma take_loop_pops:
  "\<exists>n. take_loop pe budget spent out q = (out @ handed_over pe (fst (pops n q)), snd (pops n q))
     \<and> n \<le> length (o_items q) \<and> (out = [] \<and> o_items q \<noteq> [] \<longrightarrow> 0 < n)
     \<and> (of_bool (out = []) < n \<longrightarrow> spent + item_bytes (take n (o_items q)) \<le> budget)
     \<and> (n < length (o_items q) \<longrightarrow> budget < spent + item_bytes (take (Suc n) (o_items q)))"
  (is "\<exists>n. ?P pe budget spent out q n")
proof (induction pe budget spent out q rule: take_loop.induct)
  case (1 pe budget spent out q)
  show ?case
  proof (cases "o_items q")
    case Nil
    then have "?P pe budget spent out q 0" by (simp add: take_loop.simps [of pe budget spent out q] handed_over_def)
    then show ?thesis ..
  next
    case (Cons it rest)
    show ?thesis
    proof (cases "out \<noteq> [] \<and> spent + length (it_wire it) > budget")
      case True
      with Cons have "?P pe budget spent out q 0"
        by (simp add: take_loop.simps [of pe budget spent out q] handed_over_def)
      then show ?thesis ..
    next
      case False
      obtain gaps q' where pf: "pop_front q it rest = (gaps, q')" by fastforce
      then have rest: "o_items q' = rest" by (metis pop_front_items snd_conv)
      let ?spent = "spent + length (it_wire it)" and ?out = "out @ map (encode_frame pe) gaps @ [it_wire it]"
      from "1" [OF Cons False pf [symmetric] refl] obtain n where n: "?P pe budget ?spent ?out q' n" by blast
      have "take_loop pe budget spent out q = take_loop pe budget ?spent ?out q'"
        using Cons False pf by (subst take_loop.simps) auto
      with n Cons False pf rest have "?P pe budget spent out q (Suc n)"
        by (cases "n = 0") (auto simp: handed_over_def split: prod.splits)
      then show ?thesis ..
    qed
  qed
qed

lemma outbound_take_pops:
  obtains n where "outbound_take pe budget q = (handed_over pe (fst (pops n q)), snd (pops n q))"
    and "n \<le> length (o_items q)" and "o_items q \<noteq> [] \<Longrightarrow> 0 < n"
    and "1 < n \<Longrightarrow> item_bytes (take n (o_items q)) \<le> budget"
    and "n < length (o_items q) \<Longrightarrow> budget < item_bytes (take (Suc n) (o_items q))"
  using take_loop_pops [of pe budget 0 "[]" q] by (auto simp: outbound_take_def)

lemma outbound_take_ok: "outbound_ok q \<Longrightarrow> outbound_ok (snd (outbound_take pe budget q))"
  by (rule outbound_take_pops [of pe budget q]) (simp add: pops_keep [of outbound_ok] pop_front_ok)

lemma outbound_take_within: "outbound_within l q \<Longrightarrow> outbound_within l (snd (outbound_take pe budget q))"
  by (rule outbound_take_pops [of pe budget q]) (simp add: pops_keep [of "outbound_within l"] pop_front_within)


section \<open>Runs of a queue\<close>

text \<open>
  What a connection does to its queue over its life, and the interface that says how little a bounded
  queue may do to the sequence it is given: a push may thin out what is queued but never reorders it,
  an accepted push keeps every firm item, a drain takes a prefix.
\<close>

datatype ('x, 'k) queue_event = Push 'x | Purge 'k | Drain nat

fun run_queue :: "('x \<Rightarrow> 'q \<Rightarrow> 'q \<times> push_result) \<Rightarrow> ('k \<Rightarrow> 'q \<Rightarrow> 'q) \<Rightarrow> (nat \<Rightarrow> 'q \<Rightarrow> 'i list \<times> 'q)
    \<Rightarrow> ('x, 'k) queue_event list \<Rightarrow> 'q \<Rightarrow> 'i list \<times> push_result list \<times> 'q" where
  "run_queue push purge drain [] q = ([], [], q)"
| "run_queue push purge drain (Push x # evs) q =
     (case push x q of (q1, r) \<Rightarrow> (case run_queue push purge drain evs q1 of (d, rs, q2) \<Rightarrow> (d, r # rs, q2)))"
| "run_queue push purge drain (Purge k # evs) q = run_queue push purge drain evs (purge k q)"
| "run_queue push purge drain (Drain b # evs) q =
     (case drain b q of (d1, q1) \<Rightarrow> (case run_queue push purge drain evs q1 of (d, rs, q2) \<Rightarrow> (d1 @ d, rs, q2)))"

lemma run_queue_steps:
  "run_queue push purge drain [] q = ([], [], q)"
  "push x q = (q1, r) \<Longrightarrow> run_queue push purge drain evs q1 = (d, rs, q2) \<Longrightarrow>
   run_queue push purge drain (Push x # evs) q = (d, r # rs, q2)"
  "run_queue push purge drain evs (purge k q) = res \<Longrightarrow> run_queue push purge drain (Purge k # evs) q = res"
  "drain b q = (d1, q1) \<Longrightarrow> run_queue push purge drain evs q1 = (d, rs, q2) \<Longrightarrow>
   run_queue push purge drain (Drain b # evs) q = (d1 @ d, rs, q2)"
  by simp_all

fun pushed_by :: "('x \<Rightarrow> 'i) \<Rightarrow> ('x, 'k) queue_event list \<Rightarrow> 'i list" where
  "pushed_by item_of [] = []"
| "pushed_by item_of (Push x # evs) = item_of x # pushed_by item_of evs"
| "pushed_by item_of (ev # evs) = pushed_by item_of evs"

fun purged_by :: "('x, 'k) queue_event list \<Rightarrow> 'k set" where
  "purged_by [] = {}"
| "purged_by (Purge k # evs) = insert k (purged_by evs)"
| "purged_by (ev # evs) = purged_by evs"

locale bounded_queue =
  fixes content :: "'q \<Rightarrow> 'i list"
    and push :: "'x \<Rightarrow> 'q \<Rightarrow> 'q \<times> push_result"
    and item_of :: "'x \<Rightarrow> 'i"
    and purge :: "'k \<Rightarrow> 'q \<Rightarrow> 'q"
    and belongs :: "'i \<Rightarrow> 'k \<Rightarrow> bool"
    and drain :: "nat \<Rightarrow> 'q \<Rightarrow> 'i list \<times> 'q"
    and firm :: "'i \<Rightarrow> bool"
  assumes push_thins: "push x q = (q', r) \<Longrightarrow> subseq (content q') (content q @ [item_of x])"
    and push_keeps_firm:
      "push x q = (q', Pushed) \<Longrightarrow> filter firm (content q') = filter firm (content q @ [item_of x])"
    and purge_filters: "content (purge k q) = filter (\<lambda>i. \<not> belongs i k) (content q)"
    and drain_prefix: "drain b q = (d, q') \<Longrightarrow> content q = d @ content q'"
begin

lemma run_in_order:
  "run_queue push purge drain evs q = (d, rs, q') \<Longrightarrow> subseq (d @ content q') (content q @ pushed_by item_of evs)"
proof (induction evs arbitrary: q d rs)
  case (Cons ev evs)
  show ?case
  proof (cases ev)
    case (Push x)
    obtain q1 r where p: "push x q = (q1, r)" by fastforce
    with Cons Push obtain rs' where "run_queue push purge drain evs q1 = (d, rs', q')"
      by (auto split: prod.splits)
    from Cons.IH [OF this] push_thins [OF p] show ?thesis
      using Push subseq_order.trans [OF _ list_emb_append_mono [OF push_thins [OF p] subseq_order.refl]]
      by fastforce
  next
    case (Purge k)
    have "subseq (content (purge k q)) (content q)" by (simp add: purge_filters)
    from subseq_order.trans [OF _ list_emb_append_mono [OF this subseq_order.refl]] Cons Purge
    show ?thesis by fastforce
  next
    case (Drain b)
    obtain d1 q1 where dr: "drain b q = (d1, q1)" by fastforce
    with Cons.prems Drain obtain d2 where "run_queue push purge drain evs q1 = (d2, rs, q')" "d = d1 @ d2"
      by (auto split: prod.splits)
    with Cons.IH Drain drain_prefix [OF dr] show ?thesis by (simp add: subseq_append')
  qed
qed simp

lemma run_keeps_firm:
  assumes "run_queue push purge drain evs q = (d, rs, q')" and "set rs \<subseteq> {Pushed}"
    and "\<And>i k. P i \<Longrightarrow> firm i" and "\<And>i k. P i \<Longrightarrow> k \<in> purged_by evs \<Longrightarrow> \<not> belongs i k"
  shows "filter P (d @ content q') = filter P (content q @ pushed_by item_of evs)"
  using assms
proof (induction evs arbitrary: q d rs)
  case (Cons ev evs)
  note firm = Cons.prems(3)
  have absorb: "filter P xs = filter P (filter firm xs)" for xs
    using firm by (auto simp: filter_filter intro: filter_cong)
  show ?case
  proof (cases ev)
    case (Push x)
    obtain q1 r where p: "push x q = (q1, r)" by fastforce
    with Cons.prems Push obtain rs' where run: "run_queue push purge drain evs q1 = (d, rs', q')" "rs = r # rs'"
      by (auto split: prod.splits)
    with Cons.prems p have "push x q = (q1, Pushed)" by simp
    then have "filter P (content q1) = filter P (content q @ [item_of x])"
      using absorb push_keeps_firm by metis
    with Cons.IH [OF run(1)] Cons.prems run(2) Push show ?thesis by simp
  next
    case (Purge k)
    then have "filter P (content (purge k q)) = filter P (content q)"
      using Cons.prems(4) by (auto simp: purge_filters filter_filter intro: filter_cong)
    with Cons.IH [of "purge k q"] Cons.prems Purge show ?thesis by simp
  next
    case (Drain b)
    obtain d1 q1 where dr: "drain b q = (d1, q1)" by fastforce
    with Cons.prems Drain obtain d2 where "run_queue push purge drain evs q1 = (d2, rs, q')" "d = d1 @ d2"
      by (auto split: prod.splits)
    with Cons.IH Cons.prems Drain drain_prefix [OF dr] show ?thesis by simp
  qed
qed simp

lemma run_keeps_inv:
  assumes "run_queue push purge drain evs q = (d, rs, q')" and "set rs \<subseteq> {Pushed}" and "I q"
    and "\<And>x q q'. I q \<Longrightarrow> push x q = (q', Pushed) \<Longrightarrow> I q'" and "\<And>k q. I q \<Longrightarrow> I (purge k q)"
    and "\<And>b q. I q \<Longrightarrow> I (snd (drain b q))"
  shows "I q'"
  using assms(1-3)
proof (induction evs arbitrary: q d rs)
  case (Cons ev evs)
  show ?case
  proof (cases ev)
    case (Push x)
    with Cons assms(4) show ?thesis by (fastforce split: prod.splits)
  next
    case (Purge k)
    with Cons assms(5) show ?thesis by simp
  next
    case (Drain b)
    with Cons.prems obtain d1 q1 d2 where "drain b q = (d1, q1)" "run_queue push purge drain evs q1 = (d2, rs, q')"
      by (auto split: prod.splits)
    with Cons.IH Cons.prems assms(6) [of q b] show ?thesis by simp
  qed
qed simp

end


section \<open>The outbound queue as a bounded queue\<close>

datatype push_call =
    PushFrame frame
  | PushPublished stream_key kind u64 entry

primrec apply_push :: "(frame \<Rightarrow> bytes) \<Rightarrow> limits \<Rightarrow> push_call \<Rightarrow> outbound \<Rightarrow> outbound \<times> push_result" where
  "apply_push pe l (PushFrame f) q = push_frame pe l f q"
| "apply_push pe l (PushPublished s k ep e) q = push_published l s k ep e q"

primrec call_item :: "(frame \<Rightarrow> bytes) \<Rightarrow> push_call \<Rightarrow> item" where
  "call_item pe (PushFrame f) = frame_item pe f"
| "call_item pe (PushPublished s k ep e) = published_item s k ep e"

definition drain_items :: "(frame \<Rightarrow> bytes) \<Rightarrow> nat \<Rightarrow> outbound \<Rightarrow> item list \<times> outbound" where
  "drain_items pe budget q =
     (let q' = snd (outbound_take pe budget q) in (take (length (o_items q) - length (o_items q')) (o_items q), q'))"

lemma subseq_remove_nth: "subseq (remove_nth i xs) xs"
proof (induction xs arbitrary: i)
  case (Cons x xs)
  then show ?case by (cases i) auto
qed (simp add: remove_nth_def)

lemma without_nth_thins:
  "subseq (o_items (without_nth i q)) (o_items q)"
  "i < length (o_items q) \<Longrightarrow> it_telemetry (o_items q ! i) \<Longrightarrow>
   filter (\<lambda>it. \<not> it_telemetry it) (o_items (without_nth i q)) = filter (\<lambda>it. \<not> it_telemetry it) (o_items q)"
  by (simp_all add: without_nth_def subseq_remove_nth filter_remove_nth)

lemma drop_telemetry_past_thins:
  "subseq (o_items (drop_telemetry_past bound q)) (o_items q)
   \<and> filter (\<lambda>it. \<not> it_telemetry it) (o_items (drop_telemetry_past bound q)) = filter (\<lambda>it. \<not> it_telemetry it) (o_items q)"
proof (induction bound q rule: drop_telemetry_past.induct)
  case (1 bound q)
  show ?case
  proof (cases "o_telemetry q \<ge> bound \<and> position it_telemetry (o_items q) \<noteq> None")
    case True
    then obtain i where i: "position it_telemetry (o_items q) = Some i" by blast
    then have "i < length (o_items q)" "it_telemetry (o_items q ! i)" by (auto dest: position_SomeD)
    with without_nth_thins have
      "subseq (o_items (drop_oldest_telemetry q)) (o_items q)"
      "filter (\<lambda>it. \<not> it_telemetry it) (o_items (drop_oldest_telemetry q)) = filter (\<lambda>it. \<not> it_telemetry it) (o_items q)"
      by (simp_all add: drop_oldest_eq [OF i])
    with 1 True i show ?thesis
      by (auto simp: drop_telemetry_past_go simp del: position_None_iff intro: subseq_order.trans)
  next
    case False
    from drop_telemetry_past_stop [OF this] show ?thesis by simp
  qed
qed

lemma made_room_thins:
  "subseq (o_items (made_room l s c q)) (o_items q)
   \<and> filter (\<lambda>it. \<not> it_telemetry it) (o_items (made_room l s c q)) = filter (\<lambda>it. \<not> it_telemetry it) (o_items q)"
proof (cases "coalesce_target s c q")
  case None
  with drop_telemetry_past_thins show ?thesis by (simp add: made_room_def)
next
  case (Some i)
  from coalesce_target_SomeD [OF this] Some drop_telemetry_past_thins [of _ "without_nth i q"] without_nth_thins [of i q]
  show ?thesis by (auto simp: made_room_def intro: subseq_order.trans)
qed

lemma push_published_thins:
  assumes "push_published l s k ep e q = (q', r)"
  shows "subseq (o_items q') (o_items q @ [published_item s k ep e])"
    and "r = Pushed \<Longrightarrow> filter (\<lambda>it. \<not> it_telemetry it) (o_items q')
      = filter (\<lambda>it. \<not> it_telemetry it) (o_items q @ [published_item s k ep e])"
proof -
  let ?q1 = "if k = Telemetry then made_room l s (en_coalesce e) q else q"
  from assms have push: "outbound_push l (published_item s k ep e) ?q1 = (q', r)" by (simp only: push_published_stages)
  have q1: "subseq (o_items ?q1) (o_items q)"
    "filter (\<lambda>it. \<not> it_telemetry it) (o_items ?q1) = filter (\<lambda>it. \<not> it_telemetry it) (o_items q)"
    using made_room_thins [of l s "en_coalesce e" q] by auto
  from outbound_push_thins [OF push q1(1)] show "subseq (o_items q') (o_items q @ [published_item s k ep e])" .
  assume "r = Pushed"
  with outbound_push_Pushed push q1(2)
  show "filter (\<lambda>it. \<not> it_telemetry it) (o_items q') = filter (\<lambda>it. \<not> it_telemetry it) (o_items q @ [published_item s k ep e])"
    by fastforce
qed

interpretation outq: bounded_queue o_items "apply_push pe l" "call_item pe" purge_stream
  "\<lambda>it k. it_stream it = Some k" "drain_items pe" "\<lambda>it. \<not> it_telemetry it" for pe l
proof
  fix x q q' r
  assume *: "apply_push pe l x q = (q', r)"
  show "subseq (o_items q') (o_items q @ [call_item pe x])"
    using * push_published_thins(1) outbound_push_thins
    by (cases x) (auto simp: push_frame_def)
next
  fix x q q'
  assume *: "apply_push pe l x q = (q', Pushed)"
  show "filter (\<lambda>it. \<not> it_telemetry it) (o_items q') = filter (\<lambda>it. \<not> it_telemetry it) (o_items q @ [call_item pe x])"
    using * push_published_thins(2) outbound_push_Pushed
    by (cases x) (auto simp: push_frame_def)
next
  fix k q
  show "o_items (purge_stream k q) = filter (\<lambda>it. it_stream it \<noteq> Some k) (o_items q)" by simp
next
  fix b q d q'
  assume "drain_items pe b q = (d, q')"
  then show "o_items q = d @ o_items q'"
    by (rule_tac outbound_take_pops [of pe b q]) (auto simp: drain_items_def Let_def pops_items)
qed


section \<open>The account of dropped telemetry\<close>

text \<open>
  Per stream, the ledger is the telemetry still queued and the drops not reported yet. A report is
  the \<open>Gap\<close> frame \<open>take\<close> emits.
\<close>

definition telemetry_of :: "stream_key \<Rightarrow> item \<Rightarrow> bool" where
  "telemetry_of key it \<longleftrightarrow> it_telemetry it \<and> it_stream it = Some key"

definition pending_drops :: "stream_key \<Rightarrow> (stream_key \<times> dropped) list \<Rightarrow> nat" where
  "pending_drops key m = (case map_of m key of None \<Rightarrow> 0 | Some d \<Rightarrow> d_count d)"

definition ledger :: "stream_key \<Rightarrow> outbound \<Rightarrow> nat" where
  "ledger key q = length (filter (telemetry_of key) (o_items q)) + pending_drops key (o_dropped q)"

fun gap_count :: "stream_key \<Rightarrow> frame \<Rightarrow> nat" where
  "gap_count key (Frame (Some (BGap g))) = (if g_stream g = Some (key_to_ref key) then g_dropped g else 0)"
| "gap_count key f = 0"

definition reported :: "stream_key \<Rightarrow> (frame list \<times> item) list \<Rightarrow> nat" where
  "reported key ps = sum_list (map (\<lambda>(gaps, it). sum_list (map (gap_count key) gaps)) ps)"

lemma key_to_ref_inj [simp]: "key_to_ref a = key_to_ref b \<longleftrightarrow> a = b"
  by (cases a; cases b) (auto simp: key_to_ref_def)

lemma length_filter_remove_nth_of_bool:
  "i < length xs \<Longrightarrow> length (filter P xs) = length (filter P (remove_nth i xs)) + of_bool (P (xs ! i))"
  using length_filter_remove_nth [of i xs P] filter_remove_nth [of i xs P] by (cases "P (xs ! i)") auto

lemma ledger_without_nth:
  "i < length (o_items q) \<Longrightarrow> ledger key q = ledger key (without_nth i q) + of_bool (telemetry_of key (o_items q ! i))"
  using length_filter_remove_nth_of_bool [of i "o_items q" "telemetry_of key"]
  by (simp add: ledger_def without_nth_def)

lemma pending_note_dropped:
  "it_telemetry it \<Longrightarrow> pending_drops key (note_dropped it m) = pending_drops key m + of_bool (telemetry_of key it)"
  by (auto simp: pending_drops_def note_dropped_def telemetry_of_def Let_def update_conv' split: option.splits)

lemma ledger_drop_oldest:
  assumes "position it_telemetry (o_items q) = Some i"
  shows "ledger key (drop_oldest_telemetry q) = ledger key q"
proof -
  from assms have "i < length (o_items q)" "it_telemetry (o_items q ! i)" by (auto dest: position_SomeD)
  with ledger_without_nth [of i q key] pending_note_dropped [of "o_items q ! i" key "o_dropped q"]
  show ?thesis by (simp add: drop_oldest_eq [OF assms] ledger_def without_nth_def)
qed

lemma ledger_made_room:
  assumes "outbound_ok q"
  shows "ledger key (made_room l s c q) + of_bool (key = s \<and> coalesce_target s c q \<noteq> None) = ledger key q"
proof -
  have keep: "ledger key (drop_telemetry_past b q') = ledger key q'" if "outbound_ok q'" for b q'
    by (rule drop_telemetry_past_induct [OF that, where P = "\<lambda>q''. ledger key q'' = ledger key q'"])
      (simp_all add: ledger_drop_oldest)
  show ?thesis
  proof (cases "coalesce_target s c q")
    case None
    with keep [OF assms] show ?thesis by (simp add: made_room_def)
  next
    case (Some i)
    from coalesce_target_SomeD [OF this] have i: "i < length (o_items q)" "it_telemetry (o_items q ! i)"
      "it_stream (o_items q ! i) = Some s" by auto
    from without_nth_ok [OF assms i(1,2)] keep Some ledger_without_nth [OF i(1), of key] i
    show ?thesis by (auto simp: made_room_def telemetry_of_def)
  qed
qed

lemma ledger_push:
  "it_telemetry it \<Longrightarrow> \<not> it_session_event it \<Longrightarrow>
   ledger key (fst (outbound_push l it q)) = ledger key q + of_bool (telemetry_of key it)"
  by (simp add: outbound_push_def ledger_def Let_def)

lemma ledger_push_other: "\<not> it_telemetry it \<Longrightarrow> ledger key (fst (outbound_push l it q)) = ledger key q"
  by (simp add: outbound_push_def ledger_def telemetry_of_def Let_def)

lemma ledger_pop_front:
  assumes "o_items q = it # rest" and "pop_front q it rest = (gaps, q')"
  shows "ledger key q = ledger key q' + of_bool (telemetry_of key it) + sum_list (map (gap_count key) gaps)"
  using assms
  by (auto simp: pop_front_def ledger_def telemetry_of_def pending_drops_def gap_frame_def Let_def delete_conv'
      split: if_splits option.splits)

lemma ledger_pops:
  "outbound_ok q \<Longrightarrow> ledger key q = ledger key (snd (pops n q))
     + length (filter (telemetry_of key) (map snd (fst (pops n q)))) + reported key (fst (pops n q))"
proof (induction n arbitrary: q)
  case (Suc n)
  show ?case
  proof (cases "o_items q")
    case (Cons it rest)
    obtain gaps q' where pf: "pop_front q it rest = (gaps, q')" by fastforce
    from pop_front_ok [OF Suc.prems Cons] pf have "outbound_ok q'" by simp
    from Suc.IH [OF this] ledger_pop_front [OF Cons pf, of key] Cons pf
    show ?thesis by (auto simp: reported_def split: prod.splits)
  qed (simp add: reported_def)
qed (simp add: reported_def)


section \<open>Properties\<close>

text \<open>A stream and a short life of a queue, for concrete examples: a superseded telemetry envelope, a
  dropped one, and a session event.\<close>

definition busy_stream :: stream_key where
  "busy_stream = \<lparr>sk_publisher = [1], sk_channel = [2]\<rparr>"

definition busy_events :: "(push_call, stream_key) queue_event list" where
  "busy_events =
     [Push (PushPublished busy_stream Telemetry 5 \<lparr>en_seq = 1, en_wire = [1, 1], en_coalesce = [9]\<rparr>),
      Push (PushPublished busy_stream Telemetry 5 \<lparr>en_seq = 2, en_wire = [1, 2], en_coalesce = [9]\<rparr>),
      Push (PushPublished busy_stream SessionEvents 5 \<lparr>en_seq = 3, en_wire = [1, 3], en_coalesce = []\<rparr>),
      Push (PushPublished busy_stream Telemetry 5 \<lparr>en_seq = 4, en_wire = [1, 4], en_coalesce = []\<rparr>),
      Drain 2]"

lemmas queue_eval =
  busy_events_def busy_stream_def tiny_limits_def outbound_default_def push_published_def published_item_def
  outbound_push_def coalesce_target_def remove_nth_def drop_telemetry_past.simps drop_oldest_telemetry_def
  note_dropped_def drain_items_def outbound_take_def take_loop_simps pop_front_def gap_frame_def key_to_ref_def
  Let_def

definition busy_end :: outbound where
  "busy_end = \<lparr>o_items = [published_item busy_stream Telemetry 5 \<lparr>en_seq = 4, en_wire = [1, 4], en_coalesce = []\<rparr>],
     o_bytes = 2, o_session_events = 0, o_telemetry = 1, o_dropped = [(busy_stream, \<lparr>d_epoch = 5, d_count = 1\<rparr>)]\<rparr>"

lemma busy_run:
  "run_queue (apply_push (\<lambda>_. [1]) tiny_limits) purge_stream (drain_items (\<lambda>_. [1])) busy_events outbound_default =
    ([published_item busy_stream SessionEvents 5 \<lparr>en_seq = 3, en_wire = [1, 3], en_coalesce = []\<rparr>] @ [],
     [Pushed, Pushed, Pushed, Pushed], busy_end)"
  by (unfold busy_events_def, (rule run_queue_steps, simp add: queue_eval)+, rule run_queue_steps(1) [THEN trans],
      simp add: queue_eval busy_end_def)

lemma apply_push_keeps:
  assumes "outbound_ok q" and "outbound_within l q" and "apply_push pe l x q = (q', Pushed)"
  shows "outbound_ok q' \<and> outbound_within l q'"
proof (cases x)
  case (PushFrame f)
  with assms push_frame_ok [OF assms(1)] push_frame_within [OF assms(2)] show ?thesis by simp
next
  case (PushPublished s k ep e)
  with assms push_published_ok [OF assms(1)] push_published_within [OF assms(1,2)] show ?thesis by simp
qed

text \<open>Whatever frames and published envelopes are pushed, purged and drained, as long as every
  push was accepted the queue passes the model checker's test: the byte, session-event and telemetry
  counters agree with the items, and no bound is exceeded.\<close>

theorem queue_stays_exact_and_bounded:
  assumes "run_queue (apply_push pe l) purge_stream (drain_items pe) evs outbound_default = (d, rs, q)"
    and "set rs \<subseteq> {Pushed}"
  shows "outbound_check l q"
proof -
  have "outbound_ok q \<and> outbound_within l q"
  proof (rule outq.run_keeps_inv [OF assms, where I = "\<lambda>q. outbound_ok q \<and> outbound_within l q"])
    fix x q q' assume "outbound_ok q \<and> outbound_within l q" "apply_push pe l x q = (q', Pushed)"
    then show "outbound_ok q' \<and> outbound_within l q'" by (auto dest: apply_push_keeps)
  qed (simp_all add: purge_stream_ok purge_stream_within drain_items_def Let_def outbound_take_ok outbound_take_within)
  then show ?thesis by (simp add: outbound_check_iff)
qed

theorem queue_stays_exact_and_bounded_witness: "outbound_check tiny_limits busy_end"
  using queue_stays_exact_and_bounded [OF busy_run] by simp

text \<open>The queue never reorders: what was delivered, followed by what is still queued, is a
  subsequence of what was pushed. So the envelopes of a stream pushed in \<open>seq\<close> order, coalesced or
  dropped or not, arrive in \<open>seq\<close> order.\<close>

theorem delivery_keeps_the_order:
  assumes "run_queue (apply_push pe l) purge_stream (drain_items pe) evs outbound_default = (d, rs, q)"
    and "sorted_wrt (<) (map it_seq (filter (\<lambda>it. it_stream it = Some key) (pushed_by (call_item pe) evs)))"
  shows "subseq (d @ o_items q) (pushed_by (call_item pe) evs)
    \<and> sorted_wrt (<) (map it_seq (filter (\<lambda>it. it_stream it = Some key) (d @ o_items q)))"
proof -
  from outq.run_in_order [OF assms(1)] have sub: "subseq (d @ o_items q) (pushed_by (call_item pe) evs)"
    by (simp add: outbound_default_def)
  have "subseq (map it_seq (filter (\<lambda>it. it_stream it = Some key) (d @ o_items q)))
      (map it_seq (filter (\<lambda>it. it_stream it = Some key) (pushed_by (call_item pe) evs)))"
    by (intro subseq_map subseq_filter sub)
  from sorted_wrt_subseq [OF this assms(2)] sub show ?thesis by blast
qed

theorem delivery_keeps_the_order_witness:
  "subseq (fst (run_queue (apply_push (\<lambda>_. [1]) tiny_limits) purge_stream (drain_items (\<lambda>_. [1])) busy_events outbound_default) @ o_items busy_end)
     (pushed_by (call_item (\<lambda>_. [1])) busy_events)
   \<and> sorted_wrt (<) (map it_seq (filter (\<lambda>it. it_stream it = Some busy_stream)
       (fst (run_queue (apply_push (\<lambda>_. [1]) tiny_limits) purge_stream (drain_items (\<lambda>_. [1])) busy_events outbound_default) @ o_items busy_end)))"
  using delivery_keeps_the_order [OF busy_run, of busy_stream]
  by (simp only: busy_run fst_conv) (simp add: busy_events_def published_item_def)

text \<open>Session events, direct envelopes and control frames are never lost: while every push is
  accepted, the delivered and queued items that are not telemetry, of streams that were not purged, are
  exactly those pushed, in order and once each.\<close>

theorem only_telemetry_is_lost:
  assumes "run_queue (apply_push pe l) purge_stream (drain_items pe) evs outbound_default = (d, rs, q)"
    and "set rs \<subseteq> {Pushed}"
  shows "filter (\<lambda>it. \<not> it_telemetry it \<and> (\<forall>k \<in> purged_by evs. it_stream it \<noteq> Some k)) (d @ o_items q)
    = filter (\<lambda>it. \<not> it_telemetry it \<and> (\<forall>k \<in> purged_by evs. it_stream it \<noteq> Some k)) (pushed_by (call_item pe) evs)"
  using outq.run_keeps_firm [OF assms,
      where P = "\<lambda>it. \<not> it_telemetry it \<and> (\<forall>k \<in> purged_by evs. it_stream it \<noteq> Some k)"]
  by (auto simp: outbound_default_def)

theorem only_telemetry_is_lost_witness:
  "filter (\<lambda>it. \<not> it_telemetry it \<and> (\<forall>k \<in> purged_by busy_events. it_stream it \<noteq> Some k))
     (fst (run_queue (apply_push (\<lambda>_. [1]) tiny_limits) purge_stream (drain_items (\<lambda>_. [1])) busy_events outbound_default) @ o_items busy_end)
   = filter (\<lambda>it. \<not> it_telemetry it \<and> (\<forall>k \<in> purged_by busy_events. it_stream it \<noteq> Some k))
     (pushed_by (call_item (\<lambda>_. [1])) busy_events)"
  using only_telemetry_is_lost [OF busy_run] by (simp only: busy_run fst_conv) simp

text \<open>C31. Telemetry is never lost in silence. Pushing a telemetry envelope adds one to its stream's
  account (queued plus dropped and not yet reported), less one when it supersedes a queued envelope
  with its coalesce key; no push changes another stream's account. Taking moves from the account exactly what it
  delivers and what the \<open>Gap\<close> frames it emits report.\<close>

theorem telemetry_is_accounted_for:
  assumes "outbound_ok q"
  shows "ledger key (fst (push_published l s k ep e q))
      + of_bool (k = Telemetry \<and> key = s \<and> coalesce_target s (en_coalesce e) q \<noteq> None)
      = ledger key q + of_bool (k = Telemetry \<and> key = s)
    \<and> (\<exists>ps q'. outbound_take pe b q = (handed_over pe ps, q')
        \<and> ledger key q = ledger key q' + length (filter (telemetry_of key) (map snd ps)) + reported key ps)"
proof
  show "ledger key (fst (push_published l s k ep e q))
      + of_bool (k = Telemetry \<and> key = s \<and> coalesce_target s (en_coalesce e) q \<noteq> None)
      = ledger key q + of_bool (k = Telemetry \<and> key = s)"
    using ledger_made_room [OF assms, of key l s "en_coalesce e"]
    by (auto simp: push_published_stages ledger_push ledger_push_other published_item_def telemetry_of_def
        simp del: position_None_iff)
  show "\<exists>ps q'. outbound_take pe b q = (handed_over pe ps, q')
        \<and> ledger key q = ledger key q' + length (filter (telemetry_of key) (map snd ps)) + reported key ps"
    by (rule outbound_take_pops [of pe b q]) (use ledger_pops [OF assms, of key] in blast)
qed

theorem telemetry_is_accounted_for_witness:
  "\<exists>ps q'. outbound_take (\<lambda>_. [1]) 9 busy_end = (handed_over (\<lambda>_. [1]) ps, q')
     \<and> 2 = ledger busy_stream q' + length (filter (telemetry_of busy_stream) (map snd ps)) + reported busy_stream ps"
proof -
  have "outbound_ok busy_end" by (simp add: outbound_ok_def busy_end_def published_item_def)
  from telemetry_is_accounted_for [OF this, of busy_stream _ busy_stream _ _ _ "\<lambda>_. [1]" 9]
  have "\<exists>ps q'. outbound_take (\<lambda>_. [1]) 9 busy_end = (handed_over (\<lambda>_. [1]) ps, q')
     \<and> ledger busy_stream busy_end
       = ledger busy_stream q' + length (filter (telemetry_of busy_stream) (map snd ps)) + reported busy_stream ps"
    by blast
  moreover have "ledger busy_stream busy_end = 2"
    by (simp add: ledger_def busy_end_def telemetry_of_def pending_drops_def published_item_def)
  ultimately show ?thesis by simp
qed

text \<open>\<open>take\<close> hands over the oldest items in order, at least one when any is queued; beyond the
  first they fit the budget, and it stops only when the next one would not.\<close>

theorem take_fills_the_budget:
  "\<exists>n. map snd (fst (pops n q)) = take n (o_items q)
     \<and> outbound_take pe budget q = (handed_over pe (fst (pops n q)), snd (pops n q))
     \<and> o_items (snd (outbound_take pe budget q)) = drop n (o_items q)
     \<and> n \<le> length (o_items q) \<and> (o_items q = [] \<or> 0 < n)
     \<and> (n \<le> 1 \<or> item_bytes (take n (o_items q)) \<le> budget)
     \<and> (n = length (o_items q) \<or> budget < item_bytes (take (Suc n) (o_items q)))"
proof (rule outbound_take_pops [of pe budget q])
  fix n
  assume "outbound_take pe budget q = (handed_over pe (fst (pops n q)), snd (pops n q))"
    and "n \<le> length (o_items q)" and "o_items q \<noteq> [] \<Longrightarrow> 0 < n"
    and "1 < n \<Longrightarrow> item_bytes (take n (o_items q)) \<le> budget"
    and "n < length (o_items q) \<Longrightarrow> budget < item_bytes (take (Suc n) (o_items q))"
  then show ?thesis
    using pops_items [of n q] by (intro exI [of _ n] conjI) (simp_all, linarith+)
qed

end
