(* ===== verification/Budget.thy ===== *)
theory Budget
  imports Prelude
begin

text \<open>
  The interface every work budget of the hub keeps: a balance that time earns and work spends. The
  relay's account bucket (\<open>crates/relay/src/rate.rs\<close>) and the budget of connections that never
  authenticate (\<open>crates/hub/src/strangers.rs\<close>) both provide it, each in its own theory. The lemmas
  here are the accounting argument: no schedule of charges and refills mints work.
\<close>

text \<open>A schedule: the budget is refilled at a time, or an amount of work is spent.\<close>

datatype budget_event = Earn nat | Spend nat

fun run_budget :: "(nat \<Rightarrow> 'b \<Rightarrow> 'b) \<Rightarrow> (nat \<Rightarrow> 'b \<Rightarrow> 'b) \<Rightarrow> budget_event list \<Rightarrow> 'b \<Rightarrow> 'b" where
  "run_budget refill spend [] b = b"
| "run_budget refill spend (Earn t # es) b = run_budget refill spend es (refill t b)"
| "run_budget refill spend (Spend c # es) b = run_budget refill spend es (spend c b)"

fun total_spent :: "(nat \<Rightarrow> int) \<Rightarrow> budget_event list \<Rightarrow> int" where
  "total_spent cost [] = 0"
| "total_spent cost (Earn t # es) = total_spent cost es"
| "total_spent cost (Spend c # es) = cost c + total_spent cost es"

text \<open>The clock of the schedule never goes backwards; a budget not started yet starts at its first refill.\<close>

fun orderly :: "nat option \<Rightarrow> budget_event list \<Rightarrow> bool" where
  "orderly since [] = True"
| "orderly since (Earn t # es) = ((case since of None \<Rightarrow> True | Some s \<Rightarrow> s \<le> t) \<and> orderly (Some t) es)"
| "orderly since (Spend c # es) = orderly since es"

fun elapsed :: "nat option \<Rightarrow> budget_event list \<Rightarrow> nat" where
  "elapsed since [] = 0"
| "elapsed since (Earn t # es) = (case since of None \<Rightarrow> 0 | Some s \<Rightarrow> t - s) + elapsed (Some t) es"
| "elapsed since (Spend c # es) = elapsed since es"

locale work_budget =
  fixes inv :: "'b \<Rightarrow> bool" and bal :: "'b \<Rightarrow> int" and credited :: "'b \<Rightarrow> nat option"
    and refill :: "nat \<Rightarrow> 'b \<Rightarrow> 'b" and spend :: "nat \<Rightarrow> 'b \<Rightarrow> 'b"
    and cost :: "nat \<Rightarrow> int" and lowest cap scale rate :: int
  assumes scale_pos: "0 < scale" and rate_nonneg: "0 \<le> rate" and cost_nonneg: "0 \<le> cost c"
    and inv_cap: "inv b \<Longrightarrow> bal b \<le> cap"
    and refill_inv: "inv b \<Longrightarrow> inv (refill t b)"
    and spend_inv: "inv b \<Longrightarrow> inv (spend c b)"
    and refill_first: "credited b = None \<Longrightarrow> bal (refill t b) = bal b"
    and refill_credited: "(case credited b of None \<Rightarrow> True | Some s \<Rightarrow> s \<le> t) \<Longrightarrow> credited (refill t b) = Some t"
    and refill_gain: "inv b \<Longrightarrow> credited b = Some s \<Longrightarrow> s \<le> t \<Longrightarrow>
        scale * bal (refill t b) \<le> scale * bal b + rate * int (t - s)"
    and refill_keeps: "inv b \<Longrightarrow> bal b \<le> bal (refill t b)"
    and spend_credited: "credited (spend c b) = credited b"
    and spend_bal: "inv b \<Longrightarrow> lowest \<le> bal b - cost c \<Longrightarrow> bal (spend c b) = bal b - cost c"
begin

lemma total_spent_nonneg: "0 \<le> total_spent cost es"
proof (induction es)
  case (Cons e es)
  then show ?case using cost_nonneg by (cases e) auto
qed simp

lemma run_budget_inv: "inv b \<Longrightarrow> inv (run_budget refill spend es b)"
proof (induction es arbitrary: b)
  case (Cons e es)
  then show ?case by (cases e) (auto intro: refill_inv spend_inv)
qed simp

lemma run_budget_keeps:
  "inv b \<Longrightarrow> lowest \<le> bal b - total_spent cost es \<Longrightarrow>
   bal b - total_spent cost es \<le> bal (run_budget refill spend es b)"
proof (induction es arbitrary: b)
  case (Cons e es)
  show ?case
  proof (cases e)
    case (Earn t)
    with Cons.prems refill_keeps [of b t] refill_inv [of b t] Cons.IH [of "refill t b"] show ?thesis by simp
  next
    case (Spend c)
    from Spend Cons.prems total_spent_nonneg [of es] have "bal (spend c b) = bal b - cost c"
      by (intro spend_bal) simp_all
    with Spend Cons.prems spend_inv [of b c] Cons.IH [of "spend c b"] show ?thesis by simp
  qed
qed simp

lemma no_minting:
  assumes "inv b" and "lowest \<le> bal b - total_spent cost es" and "orderly (credited b) es"
  shows "scale * (total_spent cost es + bal (run_budget refill spend es b))
    \<le> scale * bal b + rate * int (elapsed (credited b) es)"
  using assms
proof (induction es arbitrary: b)
  case Nil
  then show ?case by simp
next
  case (Cons e es)
  show ?case
  proof (cases e)
    case (Earn t)
    let ?b = "refill t b"
    have cr: "credited ?b = Some t" using Earn Cons.prems(3) by (intro refill_credited) simp
    have gain: "scale * bal ?b \<le> scale * bal b + rate * int (case credited b of None \<Rightarrow> 0 | Some s \<Rightarrow> t - s)"
      using Earn Cons.prems(1,3) refill_first [of b t] refill_gain [of b _ t] by (auto split: option.splits)
    have "lowest \<le> bal ?b - total_spent cost es"
      using Earn Cons.prems refill_keeps [of b t] by simp
    then have "scale * (total_spent cost es + bal (run_budget refill spend es ?b))
        \<le> scale * bal ?b + rate * int (elapsed (Some t) es)"
      using Cons.IH [of ?b] Cons.prems Earn cr refill_inv [of b t] by simp
    with gain Earn show ?thesis by (simp add: distrib_left)
  next
    case (Spend c)
    have sb: "bal (spend c b) = bal b - cost c"
      using Spend Cons.prems total_spent_nonneg [of es] by (intro spend_bal) simp_all
    have "scale * (total_spent cost es + bal (run_budget refill spend es (spend c b)))
        \<le> scale * bal (spend c b) + rate * int (elapsed (credited b) es)"
      using Cons.IH [of "spend c b"] Cons.prems Spend sb spend_inv [of b c] by (simp add: spend_credited)
    moreover have "scale * bal (spend c b) = scale * bal b - scale * cost c"
      by (simp add: sb right_diff_distrib)
    ultimately show ?thesis using Spend by (simp add: distrib_left)
  qed
qed

text \<open>Whoever is let in only with a balance that is not negative stays within the rate.\<close>

lemma paced_within_rate:
  assumes "inv b" and "lowest \<le> bal b - total_spent cost es" and "orderly (credited b) es"
    and "0 \<le> bal (run_budget refill spend es b)"
  shows "scale * total_spent cost es \<le> scale * bal b + rate * int (elapsed (credited b) es)"
proof -
  have "0 \<le> scale * bal (run_budget refill spend es b)" using assms(4) scale_pos by simp
  with no_minting [OF assms(1-3)] show ?thesis by (simp add: distrib_left)
qed

end

section \<open>Saturating integers\<close>

definition I128_MAX :: int where "I128_MAX = 2 ^ 127 - 1"
definition I128_MIN :: int where "I128_MIN = - (2 ^ 127)"
definition I64_MAX :: int where "I64_MAX = 2 ^ 63 - 1"
definition I64_MIN :: int where "I64_MIN = - (2 ^ 63)"
definition U64_MAX :: nat where "U64_MAX = 2 ^ 64 - 1"

definition sat_i128 :: "int \<Rightarrow> int" where
  "sat_i128 x = max I128_MIN (min I128_MAX x)"

definition sat_i64 :: "int \<Rightarrow> int" where
  "sat_i64 x = max I64_MIN (min I64_MAX x)"

definition div_ceil :: "nat \<Rightarrow> nat \<Rightarrow> nat" where
  "div_ceil a b = (if a mod b = 0 then a div b else a div b + 1)"

lemma div_ceil_le_iff:
  assumes "0 < b"
  shows "div_ceil a b \<le> k \<longleftrightarrow> a \<le> k * b"
proof -
  have eq: "b * (a div b) + a mod b = a" by simp
  have "a mod b < b" using assms by simp
  show ?thesis
  proof (cases "a mod b = 0")
    case True
    then have "a = a div b * b" using eq by (simp add: mult.commute)
    then have "a \<le> k * b \<longleftrightarrow> a div b \<le> k" using assms by (metis mult_le_cancel2)
    with True show ?thesis by (simp add: div_ceil_def)
  next
    case False
    have "a \<le> k * b \<longleftrightarrow> a div b < k"
    proof
      assume "a \<le> k * b"
      then have "a < k * b" using False by (metis le_neq_implies_less mod_mult_self2_is_0)
      then show "a div b < k" by (rule less_mult_imp_div_less)
    next
      assume "a div b < k"
      then have "Suc (a div b) * b \<le> k * b" by (intro mult_le_mono1) simp
      moreover have "a < b * (a div b) + b" using eq \<open>a mod b < b\<close> by linarith
      then have "a < Suc (a div b) * b" by (simp add: mult.commute add.commute)
      ultimately show "a \<le> k * b" by simp
    qed
    with False show ?thesis by (auto simp: div_ceil_def)
  qed
qed

end
