(* ===== verification/Rate.thy ===== *)
theory Rate
  imports Budget
begin

text \<open>
  One account's work budget, \<open>crates/relay/src/rate.rs\<close>: a token bucket in thousandths of a byte,
  kept in an \<open>i128\<close> with saturating arithmetic. It provides the interface of theory \<open>Budget\<close>; the
  exactness of the wait it reports is proved on top.
\<close>

section \<open>Definitions\<close>

definition FRAME_COST_BYTES :: nat where "FRAME_COST_BYTES = 64"

definition CONNECT_COST_BYTES :: nat where "CONNECT_COST_BYTES = 12 * FRAME_COST_BYTES"

definition CONNECT_REFUSED_ABOVE_MS :: nat where "CONNECT_REFUSED_ABOVE_MS = 1000"

definition MILLI :: int where "MILLI = 1000"

record bucket =
  b_balance :: int
  b_credited :: "nat option"

definition bucket_new :: bucket where
  "bucket_new = \<lparr>b_balance = 0, b_credited = None\<rparr>"

definition bucket_refill :: "nat \<Rightarrow> nat \<Rightarrow> nat \<Rightarrow> bucket \<Rightarrow> bucket" where
  "bucket_refill now_ms rate burst b =
     (case b_credited b of
        None \<Rightarrow> b\<lparr>b_credited := Some now_ms\<rparr>
      | Some credited \<Rightarrow>
          if now_ms \<le> credited then b
          else let earned = sat_i128 (int (now_ms - credited) * int rate)
               in b\<lparr>b_balance := min (sat_i128 (b_balance b + earned)) (int burst * MILLI),
                    b_credited := Some now_ms\<rparr>)"

definition bucket_spend :: "nat \<Rightarrow> bucket \<Rightarrow> bucket" where
  "bucket_spend n b = b\<lparr>b_balance := sat_i128 (b_balance b - int n * MILLI)\<rparr>"

definition bucket_wait_ms :: "nat \<Rightarrow> bucket \<Rightarrow> nat" where
  "bucket_wait_ms rate b =
     (if b_balance b \<ge> 0 \<or> rate = 0 then 0
      else min (div_ceil (nat \<bar>b_balance b\<bar>) rate) U64_MAX)"

definition bucket_tokens :: "bucket \<Rightarrow> int" where
  "bucket_tokens b = sat_i64 (b_balance b div MILLI)"

section \<open>The bucket is a work budget\<close>

definition bucket_cap :: "nat \<Rightarrow> int" where
  "bucket_cap burst = min (int burst * MILLI) I128_MAX"

definition bucket_cost :: "nat \<Rightarrow> int" where
  "bucket_cost n = int n * MILLI"

definition bucket_ok :: "nat \<Rightarrow> bucket \<Rightarrow> bool" where
  "bucket_ok burst b \<longleftrightarrow> I128_MIN \<le> b_balance b \<and> b_balance b \<le> bucket_cap burst"

lemma i128_order: "I128_MIN < 0" "0 < I128_MAX" "I128_MIN \<le> I128_MAX"
  by (simp_all add: I128_MAX_def I128_MIN_def)

lemma sat_i128_range: "I128_MIN \<le> sat_i128 x" "sat_i128 x \<le> I128_MAX"
  using i128_order by (auto simp: sat_i128_def)

lemma sat_i128_le: "I128_MIN \<le> x \<Longrightarrow> sat_i128 x \<le> x"
  by (auto simp: sat_i128_def)

lemma sat_i128_ge: "x \<le> I128_MAX \<Longrightarrow> x \<le> sat_i128 x"
  by (auto simp: sat_i128_def)

lemma sat_i128_id: "I128_MIN \<le> x \<Longrightarrow> x \<le> I128_MAX \<Longrightarrow> sat_i128 x = x"
  by (auto simp: sat_i128_def)

lemma sat_i128_nonneg: "0 \<le> x \<Longrightarrow> 0 \<le> sat_i128 x" "0 \<le> x \<Longrightarrow> sat_i128 x \<le> x"
  using i128_order by (auto simp: sat_i128_def)

lemma bucket_cap_nonneg: "0 \<le> bucket_cap burst"
  using i128_order by (simp add: bucket_cap_def MILLI_def)

lemma bucket_refill_balance:
  assumes "b_credited b = Some s" and "s < t"
  shows "b_balance (bucket_refill t rate burst b)
    = min (sat_i128 (b_balance b + sat_i128 (int (t - s) * int rate))) (int burst * MILLI)"
  using assms by (simp add: bucket_refill_def Let_def)

lemma bucket_refill_mono: "bucket_ok burst b \<Longrightarrow> b_balance b \<le> b_balance (bucket_refill t rate burst b)"
proof (cases "\<exists>s. b_credited b = Some s \<and> s < t")
  case True
  then obtain s where s: "b_credited b = Some s" "s < t" by blast
  assume ok: "bucket_ok burst b"
  have "0 \<le> sat_i128 (int (t - s) * int rate)" by (rule sat_i128_nonneg(1)) simp
  then have "b_balance b \<le> sat_i128 (b_balance b + sat_i128 (int (t - s) * int rate))"
    using ok by (auto simp: sat_i128_def bucket_ok_def bucket_cap_def)
  then show ?thesis using ok by (simp add: bucket_refill_balance [OF s] bucket_ok_def bucket_cap_def)
next
  case False
  then have "b_balance (bucket_refill t rate burst b) = b_balance b"
    by (auto simp: bucket_refill_def split: option.splits)
  then show ?thesis by simp
qed

lemma bucket_refill_ok: "bucket_ok burst b \<Longrightarrow> bucket_ok burst (bucket_refill t rate burst b)"
proof -
  assume ok: "bucket_ok burst b"
  then have "I128_MIN \<le> b_balance (bucket_refill t rate burst b)"
    using bucket_refill_mono [OF ok, of t rate] by (simp add: bucket_ok_def)
  moreover have "b_balance (bucket_refill t rate burst b) \<le> bucket_cap burst"
    using ok sat_i128_range
    by (auto simp: bucket_refill_def bucket_cap_def bucket_ok_def Let_def min_le_iff_disj split: option.splits)
  ultimately show ?thesis by (simp add: bucket_ok_def)
qed

lemma bucket_spend_ok: "bucket_ok burst b \<Longrightarrow> bucket_ok burst (bucket_spend n b)"
  using bucket_cap_nonneg [of burst] i128_order
  by (auto simp: bucket_ok_def bucket_spend_def sat_i128_def MILLI_def)

interpretation account_budget: work_budget
  "bucket_ok burst" b_balance b_credited "\<lambda>t. bucket_refill t rate burst" bucket_spend bucket_cost
  I128_MIN "bucket_cap burst" 1 "int rate" for rate burst
proof
  fix b :: bucket and t s c :: nat
  show "0 \<le> bucket_cost c" by (simp add: bucket_cost_def MILLI_def)
  show "bucket_ok burst b \<Longrightarrow> b_balance b \<le> bucket_cap burst" by (simp add: bucket_ok_def)
  show "b_credited (bucket_spend c b) = b_credited b" by (simp add: bucket_spend_def)
  show "b_credited b = None \<Longrightarrow> b_balance (bucket_refill t rate burst b) = b_balance b"
    by (simp add: bucket_refill_def)
  show "(case b_credited b of None \<Rightarrow> True | Some s \<Rightarrow> s \<le> t) \<Longrightarrow>
      b_credited (bucket_refill t rate burst b) = Some t"
    by (auto simp: bucket_refill_def Let_def split: option.splits)
  show "1 * b_balance (bucket_refill t rate burst b) \<le> 1 * b_balance b + int rate * int (t - s)"
    if ok: "bucket_ok burst b" and s: "b_credited b = Some s" "s \<le> t"
  proof (cases "s = t")
    case True
    with s show ?thesis by (simp add: bucket_refill_def)
  next
    case False
    have e: "0 \<le> sat_i128 (int (t - s) * int rate)" "sat_i128 (int (t - s) * int rate) \<le> int rate * int (t - s)"
      using sat_i128_nonneg [of "int (t - s) * int rate"] by (simp_all add: mult.commute)
    then have "sat_i128 (b_balance b + sat_i128 (int (t - s) * int rate)) \<le> b_balance b + int rate * int (t - s)"
      using ok sat_i128_le [of "b_balance b + sat_i128 (int (t - s) * int rate)"] by (simp add: bucket_ok_def)
    with s False show ?thesis by (simp add: bucket_refill_balance min_le_iff_disj)
  qed
  show "b_balance (bucket_spend c b) = b_balance b - bucket_cost c"
    if "bucket_ok burst b" "I128_MIN \<le> b_balance b - bucket_cost c"
    using that by (auto simp: bucket_spend_def bucket_cost_def bucket_ok_def bucket_cap_def MILLI_def intro!: sat_i128_id)
qed (auto simp: bucket_refill_mono bucket_refill_ok bucket_spend_ok)

lemma bucket_new_ok: "bucket_ok burst bucket_new"
  using bucket_cap_nonneg i128_order by (simp add: bucket_ok_def bucket_new_def)

section \<open>What the budget guarantees\<close>

text \<open>C33. An account's balance is never minted. Work is charged and never refused, so a charge may leave the account in debt, with a negative
  balance. Over any schedule of charges and refills whose clock readings come in order, with at most \<open>2 ^ 127\<close> charged in all, so that
  nothing saturates, all that was charged plus the balance that is left, negative where there is a debt, is at most what the rate earned between
  the first reading and the last; so the debt is at least what was charged beyond that. And the balance never exceeds the burst.
\<close>

theorem account_budget_never_mints:
  assumes "orderly None es" and "total_spent bucket_cost es \<le> 2 ^ 127"
  shows "total_spent bucket_cost es
      + b_balance (run_budget (\<lambda>t. bucket_refill t rate burst) bucket_spend es bucket_new)
      \<le> int rate * int (elapsed None es)
    \<and> b_balance (run_budget (\<lambda>t. bucket_refill t rate burst) bucket_spend es bucket_new) \<le> int burst * MILLI"
proof -
  have "I128_MIN \<le> b_balance bucket_new - total_spent bucket_cost es"
    using assms(2) by (simp add: bucket_new_def I128_MIN_def)
  with account_budget.no_minting [OF bucket_new_ok, of es rate burst] assms(1)
    account_budget.run_budget_inv [OF bucket_new_ok, of burst rate es]
  show ?thesis by (simp add: bucket_new_def bucket_ok_def bucket_cap_def)
qed

theorem account_budget_never_mints_witness:
  "total_spent bucket_cost [Earn 0, Spend 5, Earn 3]
      + b_balance (run_budget (\<lambda>t. bucket_refill t 8000 32000) bucket_spend [Earn 0, Spend 5, Earn 3] bucket_new)
    \<le> int 8000 * int (elapsed None [Earn 0, Spend 5, Earn 3])"
  using account_budget_never_mints [of "[Earn 0, Spend 5, Earn 3]" 8000 32000]
  by (simp add: bucket_cost_def MILLI_def)

lemma bucket_refill_repays:
  assumes ok: "bucket_ok burst b" and s: "b_credited b = Some now" "0 < d"
    and rate: "0 < rate" "d * rate \<le> 2 ^ 126"
  shows "0 \<le> b_balance (bucket_refill (now + d) rate burst b) \<longleftrightarrow> 0 \<le> b_balance b + int (d * rate)"
proof -
  have r: "int (d * rate) \<le> 2 ^ 126" using rate(2) by (metis of_nat_le_iff of_nat_numeral of_nat_power)
  then have earned: "sat_i128 (int d * int rate) = int (d * rate)"
    by (subst sat_i128_id) (simp_all add: I128_MAX_def I128_MIN_def order_trans [of _ 0])
  have "0 \<le> sat_i128 (b_balance b + int (d * rate)) \<longleftrightarrow> 0 \<le> b_balance b + int (d * rate)"
    using i128_order by (auto simp: sat_i128_def)
  with s earned show ?thesis by (simp add: bucket_refill_balance MILLI_def)
qed

text \<open>The wait a charge reports is exact: reading again after it finds the debt repaid, and a
  millisecond less would not have been enough.
\<close>

theorem wait_is_exact:
  assumes ok: "bucket_ok burst b" and now: "b_credited b = Some now"
    and rate: "0 < rate" "rate \<le> 2 ^ 62" and debt: "- b_balance b \<le> int U64_MAX * int rate"
  shows "0 \<le> b_balance (bucket_refill (now + bucket_wait_ms rate b) rate burst b)
    \<and> (\<forall>d < bucket_wait_ms rate b. b_balance (bucket_refill (now + d) rate burst b) < 0)"
proof (cases "0 \<le> b_balance b")
  case True
  then show ?thesis using bucket_refill_mono [OF ok, of now rate] by (simp add: bucket_wait_ms_def)
next
  case False
  let ?w = "bucket_wait_ms rate b" and ?debt = "nat (- b_balance b)"
  have "?debt \<le> U64_MAX * rate" using debt by (simp add: nat_le_iff)
  then have "div_ceil ?debt rate \<le> U64_MAX" using div_ceil_le_iff [OF rate(1)] by simp
  then have w: "?w = div_ceil ?debt rate" using False rate(1) by (simp add: bucket_wait_ms_def)
  have enough: "?w \<le> d \<longleftrightarrow> ?debt \<le> d * rate" for d
    unfolding w by (rule div_ceil_le_iff [OF rate(1)])
  have small: "d * rate \<le> 2 ^ 126" if "d \<le> ?w" for d
  proof -
    have "d \<le> 2 ^ 64" using that w \<open>div_ceil ?debt rate \<le> U64_MAX\<close> by (simp add: U64_MAX_def)
    then have "d * rate \<le> 2 ^ 64 * 2 ^ 62" using rate(2) by (rule mult_le_mono)
    then show ?thesis by (simp add: power_add [symmetric])
  qed
  have repaid: "0 \<le> b_balance (bucket_refill (now + d) rate burst b) \<longleftrightarrow> ?w \<le> d" if "d \<le> ?w" "0 < d" for d
  proof -
    have "0 \<le> b_balance b + int (d * rate) \<longleftrightarrow> ?debt \<le> d * rate"
      using False by (metis add.commute diff_ge_0_iff_ge diff_minus_eq_add nat_le_iff)
    then show ?thesis using bucket_refill_repays [OF ok now that(2) rate(1) small [OF that(1)]] enough by simp
  qed
  have "0 < ?w"
  proof (rule ccontr)
    assume "\<not> 0 < ?w"
    then have "?debt \<le> 0" using enough [of 0] by simp
    with False show False by simp
  qed
  moreover have "b_balance (bucket_refill (now + d) rate burst b) < 0" if "d < ?w" for d
  proof (cases "d = 0")
    case True
    then show ?thesis using False now by (simp add: bucket_refill_def)
  next
    case d: False
    then show ?thesis using repaid [of d] that by simp
  qed
  ultimately show ?thesis using repaid [of ?w] by simp
qed

theorem wait_is_exact_witness:
  "bucket_wait_ms 8000 \<lparr>b_balance = - 12345000, b_credited = Some 0\<rparr> = 1544
   \<and> 0 \<le> b_balance (bucket_refill 1544 8000 32000 \<lparr>b_balance = - 12345000, b_credited = Some 0\<rparr>)
   \<and> b_balance (bucket_refill 1543 8000 32000 \<lparr>b_balance = - 12345000, b_credited = Some 0\<rparr>) < 0"
proof -
  let ?b = "\<lparr>b_balance = - 12345000, b_credited = Some 0\<rparr> :: bucket"
  have w: "bucket_wait_ms 8000 ?b = 1544"
    by (simp add: bucket_wait_ms_def div_ceil_def U64_MAX_def)
  have "bucket_ok 32000 ?b"
    by (simp add: bucket_ok_def bucket_cap_def MILLI_def I128_MAX_def I128_MIN_def)
  from wait_is_exact [OF this, of 0 8000] w show ?thesis by (simp add: U64_MAX_def)
qed

end
