(* ===== verification/Text.thy ===== *)
theory Text
  imports Prelude
begin

text \<open>
  What the components use of Rust's text: digits, splitting, trimming, decimal numbers and hexadecimal
  bytes, on ASCII strings. The round trips are proved here once, for the records that are written to disk
  and read back.
\<close>

section \<open>Digits\<close>

definition to_digit :: "nat \<Rightarrow> char \<Rightarrow> nat option" where
  "to_digit radix c =
     (let n = of_char c :: nat;
          d = (if 48 \<le> n \<and> n \<le> 57 then n - 48
               else if 97 \<le> n \<and> n \<le> 122 then n - 87
               else if 65 \<le> n \<and> n \<le> 90 then n - 55 else 36)
      in if d < radix then Some d else None)"

fun read_digits :: "nat \<Rightarrow> nat \<Rightarrow> nat \<Rightarrow> nat \<Rightarrow> nat \<Rightarrow> string \<Rightarrow> (nat \<times> nat \<times> string) option" where
  "read_digits radix maxd lim n acc [] = Some (n, acc, [])"
| "read_digits radix maxd lim n acc (c # cs) =
     (case to_digit radix c of
        None \<Rightarrow> Some (n, acc, c # cs)
      | Some d \<Rightarrow> if acc * radix + d > lim \<or> n + 1 > maxd then None
                  else read_digits radix maxd lim (n + 1) (acc * radix + d) cs)"

section \<open>Splitting and trimming\<close>

text \<open>\<open>str::split\<close> on one character, \<open>split_once\<close>, \<open>rsplit_once\<close> and \<open>trim\<close>.\<close>

fun split_on :: "char \<Rightarrow> string \<Rightarrow> string list" where
  "split_on c [] = [[]]"
| "split_on c (x # xs) =
     (if x = c then [] # split_on c xs
      else case split_on c xs of [] \<Rightarrow> [[x]] | p # ps \<Rightarrow> (x # p) # ps)"

definition split_once :: "char \<Rightarrow> string \<Rightarrow> (string \<times> string) option" where
  "split_once c s =
     (if c \<in> set s then Some (takeWhile (\<lambda>x. x \<noteq> c) s, drop 1 (dropWhile (\<lambda>x. x \<noteq> c) s)) else None)"

definition rsplit_once :: "char \<Rightarrow> string \<Rightarrow> (string \<times> string) option" where
  "rsplit_once c s = map_option (\<lambda>(a, b). (rev b, rev a)) (split_once c (rev s))"

definition strip_prefix :: "string \<Rightarrow> string \<Rightarrow> string option" where
  "strip_prefix p s = (if take (length p) s = p then Some (drop (length p) s) else None)"

definition is_space :: "char \<Rightarrow> bool" where
  "is_space c \<longleftrightarrow> (let n = of_char c :: nat in 9 \<le> n \<and> n \<le> 13 \<or> n = 32)"

definition trim :: "string \<Rightarrow> string" where
  "trim s = rev (dropWhile is_space (rev (dropWhile is_space s)))"

text \<open>\<open>from_str\<close> of an unsigned type: an optional plus, then decimal digits within the type's maximum.\<close>

definition parse_nat :: "nat \<Rightarrow> string \<Rightarrow> nat option" where
  "parse_nat lim s =
     (let ds = (if take 1 s = ''+'' then drop 1 s else s) in
      case read_digits 10 (length ds) lim 0 0 ds of
        Some (n, acc, rest) \<Rightarrow> if n > 0 \<and> rest = [] then Some acc else None
      | None \<Rightarrow> None)"

text \<open>\<open>str::lines\<close>: a final line feed ends the last line, and a carriage return before a line feed is dropped.\<close>

definition strip_cr :: "string \<Rightarrow> string" where
  "strip_cr s = (if s \<noteq> [] \<and> last s = CHR 13 then butlast s else s)"

definition text_lines :: "string \<Rightarrow> string list" where
  "text_lines s =
     (let ps = split_on CHR 10 s
      in map strip_cr (butlast ps) @ (if last ps = [] then [] else [last ps]))"

text \<open>\<open>str::from_utf8\<close>: which bytes are text. The ranges exclude overlong forms, surrogates and code points past the last.\<close>

definition cont :: "u8 \<Rightarrow> bool" where
  "cont b \<longleftrightarrow> 0x80 \<le> b \<and> b \<le> 0xbf"

fun utf8_valid :: "bytes \<Rightarrow> bool" where
  "utf8_valid [] = True"
| "utf8_valid (b # bs) =
     (if b < 0x80 then utf8_valid bs
      else if 0xc2 \<le> b \<and> b \<le> 0xdf then (case bs of c # r \<Rightarrow> cont c \<and> utf8_valid r | _ \<Rightarrow> False)
      else if 0xe0 \<le> b \<and> b \<le> 0xef then
        (case bs of c # d # r \<Rightarrow> cont c \<and> cont d \<and> (b = 0xe0 \<longrightarrow> 0xa0 \<le> c) \<and> (b = 0xed \<longrightarrow> c \<le> 0x9f) \<and> utf8_valid r | _ \<Rightarrow> False)
      else if 0xf0 \<le> b \<and> b \<le> 0xf4 then
        (case bs of c # d # e # r \<Rightarrow> cont c \<and> cont d \<and> cont e \<and> (b = 0xf0 \<longrightarrow> 0x90 \<le> c) \<and> (b = 0xf4 \<longrightarrow> c \<le> 0x8f) \<and> utf8_valid r
         | _ \<Rightarrow> False)
      else False)"

definition from_utf8 :: "bytes \<Rightarrow> string option" where
  "from_utf8 bs = (if utf8_valid bs then Some (map (\<lambda>b. char_of (unat b)) bs) else None)"

text \<open>\<open>str::as_bytes\<close> of a text whose characters are bytes.\<close>

definition ascii :: "string \<Rightarrow> bytes" where
  "ascii s = map (\<lambda>c. of_nat (of_char c)) s"

section \<open>Decimal and hexadecimal\<close>

text \<open>A number as \<open>format!\<close> writes it.\<close>

fun show_nat :: "nat \<Rightarrow> string" where
  "show_nat n = (if n < 10 then [char_of (48 + n)] else show_nat (n div 10) @ [char_of (48 + n mod 10)])"

declare show_nat.simps [simp del]

definition hex_digit :: "nat \<Rightarrow> char" where
  "hex_digit n = (if n < 10 then char_of (48 + n) else char_of (87 + n))"

definition hex :: "bytes \<Rightarrow> string" where
  "hex bs = concat (map (\<lambda>b. [hex_digit (unat b div 16), hex_digit (unat b mod 16)]) bs)"

definition is_ascii_hexdigit :: "char \<Rightarrow> bool" where
  "is_ascii_hexdigit c \<longleftrightarrow> to_digit 16 c \<noteq> None"

definition is_hex :: "string \<Rightarrow> nat \<Rightarrow> bool" where
  "is_hex s len \<longleftrightarrow> length s = len \<and> list_all is_ascii_hexdigit s"

fun hex_pairs :: "string \<Rightarrow> bytes option" where
  "hex_pairs [] = Some []"
| "hex_pairs [c] = None"
| "hex_pairs (c # d # s) =
     (case (to_digit 16 c, to_digit 16 d, hex_pairs s) of
        (Some h, Some l, Some bs) \<Rightarrow> Some (of_nat (h * 16 + l) # bs)
      | _ \<Rightarrow> None)"

definition unhex :: "string \<Rightarrow> bytes option" where
  "unhex v = (let s = trim v in if s = [] \<or> \<not> list_all is_ascii_hexdigit s then None else hex_pairs s)"

section \<open>Round trips\<close>

lemma to_digit_decimal: "d < 10 \<Longrightarrow> to_digit 10 (char_of (48 + d)) = Some d"
  by (simp add: to_digit_def of_char_of Let_def)

lemma to_digit_hex: "d < 16 \<Longrightarrow> to_digit 16 (hex_digit d) = Some d"
  by (auto simp: to_digit_def hex_digit_def of_char_of Let_def)

lemma read_digits_show:
  assumes "acc * 10 ^ length (show_nat n) + n \<le> lim" and "k + length (show_nat n) \<le> m"
  shows "read_digits 10 m lim k acc (show_nat n @ r) = read_digits 10 m lim (k + length (show_nat n)) (acc * 10 ^ length (show_nat n) + n) r"
  using assms
proof (induction n arbitrary: r rule: show_nat.induct)
  case (1 n)
  show ?case
  proof (cases "n < 10")
    case True
    with 1 to_digit_decimal [OF True] show ?thesis by (simp add: show_nat.simps [of n])
  next
    case False
    let ?q = "n div 10" and ?d = "n mod 10"
    have n: "show_nat n = show_nat ?q @ [char_of (48 + ?d)]" using False by (simp add: show_nat.simps [of n])
    have eq: "(acc * 10 ^ length (show_nat ?q) + ?q) * 10 + ?d = acc * 10 ^ length (show_nat n) + n"
      by (simp add: n algebra_simps)
    then have le: "acc * 10 ^ length (show_nat ?q) + ?q \<le> lim"
    proof -
      have "acc * 10 ^ length (show_nat ?q) + ?q \<le> (acc * 10 ^ length (show_nat ?q) + ?q) * 10 + ?d" by simp
      then show ?thesis using eq "1.prems"(1) by linarith
    qed
    have "to_digit 10 (char_of (48 + ?d)) = Some ?d" by (rule to_digit_decimal) simp
    with 1 False le eq n show ?thesis by (simp add: ac_simps)
  qed
qed

lemma show_nat_digit: "\<exists>d ds. d < (10 :: nat) \<and> show_nat n = char_of (48 + d) # ds"
proof (induction n rule: show_nat.induct)
  case (1 n)
  show ?case
  proof (cases "n < 10")
    case True
    then show ?thesis by (auto simp: show_nat.simps [of n])
  next
    case False
    with 1 obtain d :: nat and ds where "d < 10" "show_nat (n div 10) = char_of (48 + d) # ds" by blast
    with False show ?thesis by (auto simp: show_nat.simps [of n])
  qed
qed

lemma parse_show_nat: "n \<le> lim \<Longrightarrow> parse_nat lim (show_nat n) = Some n"
proof -
  assume le: "n \<le> lim"
  obtain d :: nat and ds where d: "d < 10" "show_nat n = char_of (48 + d) # ds" using show_nat_digit by blast
  have "char_of (48 + d) \<noteq> CHR ''+''"
  proof
    assume "char_of (48 + d) = CHR ''+''"
    then have "of_char (char_of (48 + d) :: char) = (of_char CHR ''+'' :: nat)" by simp
    with d(1) show False by (simp add: of_char_of)
  qed
  then have plus: "take 1 (show_nat n) \<noteq> ''+''" using d by simp
  have "read_digits 10 (length (show_nat n)) lim 0 0 (show_nat n @ []) = Some (length (show_nat n), n, [])"
    using le by (subst read_digits_show) simp_all
  with plus d show ?thesis by (simp add: parse_nat_def Let_def)
qed

lemma hex_simps [simp]: "hex [] = []" "hex (b # bs) = hex_digit (unat b div 16) # hex_digit (unat b mod 16) # hex bs"
  by (simp_all add: hex_def)

lemma byte_nibbles: "unat (b :: u8) div 16 < 16" "unat b mod 16 < 16" "of_nat (unat b div 16 * 16 + unat b mod 16) = b"
proof -
  have "unat b < 256" using unsigned_less [of b] by simp
  then show "unat b div 16 < 16" by (simp add: div_less_iff_less_mult)
qed simp_all

lemma hex_pairs_hex: "hex_pairs (hex bs) = Some bs"
  by (induction bs) (simp_all add: to_digit_hex byte_nibbles)

lemma hex_hexdigits: "list_all is_ascii_hexdigit (hex bs)"
  by (induction bs) (simp_all add: is_ascii_hexdigit_def to_digit_hex byte_nibbles)

lemma length_hex: "length (hex bs) = 2 * length bs"
  by (induction bs) simp_all

lemma hexdigit_not_space: "is_ascii_hexdigit c \<Longrightarrow> \<not> is_space c"
  by (auto simp: is_ascii_hexdigit_def to_digit_def is_space_def Let_def split: if_splits)

lemma trim_id: "s \<noteq> [] \<Longrightarrow> \<not> is_space (hd s) \<Longrightarrow> \<not> is_space (last s) \<Longrightarrow> trim s = s"
proof -
  assume s: "s \<noteq> []" "\<not> is_space (hd s)" "\<not> is_space (last s)"
  then have "dropWhile is_space s = s" by (cases s) simp_all
  moreover have "dropWhile is_space (rev s) = rev s" using s by (cases "rev s") (auto simp: hd_rev)
  ultimately show ?thesis by (simp add: trim_def)
qed

lemma trim_hexdigits: "list_all is_ascii_hexdigit s \<Longrightarrow> trim s = s"
  by (cases "s = []") (auto simp: trim_def [of "[]"] list_all_iff intro!: trim_id hexdigit_not_space)

lemma unhex_hex: "bs \<noteq> [] \<Longrightarrow> unhex (hex bs) = Some bs"
  using hex_hexdigits [of bs] length_hex [of bs]
  by (auto simp: unhex_def trim_hexdigits hex_pairs_hex Let_def simp del: hex_simps)

lemma split_on_none: "c \<notin> set s \<Longrightarrow> split_on c s = [s]"
  by (induction s) auto

lemma split_on_append: "c \<notin> set s \<Longrightarrow> split_on c (s @ c # t) = s # split_on c t"
  by (induction s) auto

lemma split_once_append: "c \<notin> set s \<Longrightarrow> split_once c (s @ c # t) = Some (s, t)"
proof -
  assume c: "c \<notin> set s"
  then have "takeWhile (\<lambda>x. x \<noteq> c) (s @ c # t) = s" "dropWhile (\<lambda>x. x \<noteq> c) (s @ c # t) = c # t"
    by (auto simp: takeWhile_append dropWhile_append)
  then show ?thesis by (simp add: split_once_def)
qed

lemma hexdigit_char: "is_ascii_hexdigit c \<Longrightarrow> of_char c < (128 :: nat) \<and> c \<noteq> CHR '';'' \<and> c \<noteq> CHR ''+'' \<and> of_char c \<noteq> (13 :: nat) \<and> of_char c \<noteq> (10 :: nat)"
  by (auto simp: is_ascii_hexdigit_def to_digit_def Let_def split: if_splits)

lemma utf8_ascii: "(\<forall>b \<in> set bs. b < 0x80) \<Longrightarrow> utf8_valid bs"
  by (induction bs) simp_all

lemma u8_of_char: "unat (of_nat (of_char c) :: u8) = of_char c"
proof -
  have "of_char c < (256 :: nat)" by (metis of_char_mod_256 mod_less_divisor zero_less_numeral)
  then show ?thesis by (simp add: unsigned_of_nat take_bit_nat_eq_self)
qed

lemma from_utf8_text: "(\<forall>c \<in> set s. of_char c < (128 :: nat)) \<Longrightarrow> from_utf8 (ascii s) = Some s"
proof -
  assume s: "\<forall>c \<in> set s. of_char c < (128 :: nat)"
  have "b < 0x80" if b: "b \<in> set (ascii s)" for b
  proof -
    obtain c where c: "b = of_nat (of_char c)" "c \<in> set s" using b by (auto simp: ascii_def)
    then have "unat b < 128" using s by (simp add: u8_of_char)
    then show ?thesis by (simp add: word_less_nat_alt)
  qed
  then have "utf8_valid (ascii s)" by (intro utf8_ascii) blast
  then show ?thesis by (simp add: from_utf8_def ascii_def comp_def u8_of_char)
qed

lemma from_utf8_ascii: "list_all is_ascii_hexdigit s \<Longrightarrow> from_utf8 (ascii s) = Some s"
  by (rule from_utf8_text) (auto simp: list_all_iff dest: hexdigit_char)

lemma hexdigit_not_special: "is_ascii_hexdigit c \<Longrightarrow> c \<noteq> CHR 10 \<and> c \<noteq> CHR 13 \<and> c \<noteq> CHR ''=''"
  by (auto simp: is_ascii_hexdigit_def to_digit_def Let_def)

lemma show_nat_hexdigits: "list_all is_ascii_hexdigit (show_nat n)"
proof (induction n rule: show_nat.induct)
  case (1 n)
  have d: "is_ascii_hexdigit (char_of (48 + m))" if "m < 10" for m :: nat
    using that by (simp add: is_ascii_hexdigit_def to_digit_def of_char_of Let_def)
  show ?case
    using 1 d [of n] d [of "n mod 10"] by (cases "n < 10") (simp_all add: show_nat.simps [of n])
qed

lemma text_lines_cons:
  assumes "CHR 10 \<notin> set s" and "s \<noteq> []" and "last s \<noteq> CHR 13"
  shows "text_lines (s @ CHR 10 # t) = s # text_lines t"
proof -
  have "split_on CHR 10 t \<noteq> []" by (cases t) (auto split: list.split)
  then show ?thesis using assms by (simp add: text_lines_def split_on_append strip_cr_def Let_def)
qed

end
