(* ===== verification/Relay.thy ===== *)
theory Relay
  imports Queue Rate Text
begin

text \<open>
  The routing core, \<open>crates/relay/src/lib.rs\<close>: accounts, presence, streams with their rings,
  subscriptions and outbound queues. Every operation passes the hub's state and the effects of the
  call explicitly. A \<open>HashMap\<close> is an association list and a \<open>HashSet\<close> a list without repetition; the
  order of the list stands for the iteration order. Connection ids, sequence numbers and the logical
  clock are counters that a run never exhausts and are natural numbers; epochs are 64-bit words. The
  encoding of a message is the parameter \<open>pe\<close>.
\<close>

section \<open>Data\<close>

definition THROTTLE_NOTICE_MS :: nat where "THROTTLE_NOTICE_MS = 10000"

definition THROTTLE_NOTICE_MIN_WAIT_MS :: nat where "THROTTLE_NOTICE_MIN_WAIT_MS = 100"

definition MAX_EXACT_IN_A_DOUBLE :: u64 where "MAX_EXACT_IN_A_DOUBLE = push_bit 53 1 - 1"

definition MAX_PRESENCE_CHAIN_BYTES :: nat where "MAX_PRESENCE_CHAIN_BYTES = 2 * 1100"

definition presentable :: "certificate list \<Rightarrow> certificate list" where
  "presentable chain =
     (let total = sum_list (map (\<lambda>c. length (cert_body c) + length (cert_signature c)) chain)
      in if length chain > 2 \<or> total > MAX_PRESENCE_CHAIN_BYTES then [] else chain)"

definition PROTOCOL :: nat where "PROTOCOL = 1"

definition FEATURE_REVOKER :: string where "FEATURE_REVOKER = ''revoker''"

datatype revoker = RevokerUnknown | RevokerNone | RevokerKnown certificate

type_synonym account_id = bytes
type_synonym conn_id = nat

datatype action = Wake conn_id | Close conn_id frame

datatype config_error = ConfigError string

record taken =
  tk_frames :: "bytes list"
  tk_more :: bool

record conn =
  c_principal :: bytes
  c_chain :: "certificate list"
  c_out :: outbound
  c_subs :: "stream_key list"
  c_armed :: bool
  c_throttle_notice_ms :: "nat option"

record stream =
  s_key :: stream_key
  s_ring :: "ring option"
  s_subscribers :: "conn_id list"

record account =
  a_conns :: "(conn_id \<times> conn) list"
  a_online :: "(bytes \<times> (conn_id \<times> role)) list"
  a_streams :: "(stream_key \<times> stream) list"
  a_ring_bytes :: nat
  a_rate :: bucket

definition account_new :: account where
  "account_new = \<lparr>a_conns = [], a_online = [], a_streams = [], a_ring_bytes = 0, a_rate = bucket_new\<rparr>"

record hub =
  hub_limits :: limits
  hub_accounts :: "(account_id \<times> account) list"
  hub_conn_account :: "(conn_id \<times> account_id) list"
  hub_next_conn :: conn_id
  hub_epoch_state :: u64
  hub_clock :: nat

record effects =
  fx_wakes :: "conn_id list"
  fx_close :: "(conn_id \<times> frame) list"
  fx_queued :: nat

definition effects_default :: effects where
  "effects_default = \<lparr>fx_wakes = [], fx_close = [], fx_queued = 0\<rparr>"

definition effects_wake :: "conn_id \<Rightarrow> effects \<Rightarrow> effects" where
  "effects_wake conn fx = (if conn \<in> set (fx_wakes fx) then fx else fx\<lparr>fx_wakes := fx_wakes fx @ [conn]\<rparr>)"

definition fx_push_close :: "conn_id \<Rightarrow> frame \<Rightarrow> effects \<Rightarrow> effects" where
  "fx_push_close conn f fx = fx\<lparr>fx_close := fx_close fx @ [(conn, f)]\<rparr>"

definition conn_arm :: "conn_id \<Rightarrow> conn \<times> effects \<Rightarrow> conn \<times> effects" where
  "conn_arm cid = (\<lambda>(c, fx).
     let fx1 = fx\<lparr>fx_queued := fx_queued fx + 1\<rparr>
     in if c_armed c then (c, fx1) else (c\<lparr>c_armed := True\<rparr>, effects_wake cid fx1))"

definition error :: "error_code \<Rightarrow> nat \<Rightarrow> string \<Rightarrow> frame" where
  "error code reference message =
     Frame (Some (BError \<lparr>er_code = i32_of_code code, er_ref = reference, er_message = message\<rparr>))"

section \<open>Construction\<close>

definition with_id_space :: "limits \<Rightarrow> u64 \<Rightarrow> nat \<Rightarrow> config_error + hub" where
  "with_id_space l epoch_seed shard =
     (if ring_session_events l > queue_session_events l
      then Inl (ConfigError ''a session-events backfill must fit in a connection's queue'')
      else if account_bytes_per_second l = 0 \<or> account_burst_bytes l = 0
      then Inl (ConfigError ''an account's work rate and burst must be positive'')
      else if max_payload_bytes l \<ge> max_frame_bytes l
      then Inl (ConfigError ''a payload must fit in a frame with its envelope'')
      else Inr \<lparr>hub_limits = l, hub_accounts = [], hub_conn_account = [], hub_next_conn = shard * 2 ^ 48 + 1,
                hub_epoch_state = epoch_seed, hub_clock = 0\<rparr>)"

definition hub_new :: "limits \<Rightarrow> u64 \<Rightarrow> config_error + hub" where
  "hub_new l epoch_seed = with_id_space l epoch_seed 0"

definition has_account :: "account_id \<Rightarrow> hub \<Rightarrow> bool" where
  "has_account aid h \<longleftrightarrow> map_of (hub_accounts h) aid \<noteq> None"

definition account_count :: "hub \<Rightarrow> nat" where
  "account_count h = length (hub_accounts h)"

section \<open>Lookups through the account\<close>

definition put_account :: "account_id \<Rightarrow> account \<Rightarrow> hub \<Rightarrow> hub" where
  "put_account aid a h = h\<lparr>hub_accounts := AList.update aid a (hub_accounts h)\<rparr>"

definition put_conn :: "conn_id \<Rightarrow> conn \<Rightarrow> account \<Rightarrow> account" where
  "put_conn cid c a = a\<lparr>a_conns := AList.update cid c (a_conns a)\<rparr>"

definition principal_of :: "account_id \<Rightarrow> conn_id \<Rightarrow> hub \<Rightarrow> bytes option" where
  "principal_of aid conn h =
     (case map_of (hub_accounts h) aid of
        None \<Rightarrow> None
      | Some a \<Rightarrow> map_option c_principal (map_of (a_conns a) conn))"

text \<open>The two ways a push ends: armed, or on the list of connections to close.\<close>

definition pushed_or_closed ::
    "conn_id \<Rightarrow> conn \<Rightarrow> outbound \<times> push_result \<Rightarrow> effects \<Rightarrow> conn \<times> effects" where
  "pushed_or_closed cid c = (\<lambda>(out, r) fx.
     case r of
       Pushed \<Rightarrow> conn_arm cid (c\<lparr>c_out := out\<rparr>, fx)
     | SlowConsumer \<Rightarrow> (c\<lparr>c_out := out\<rparr>, fx_push_close cid (error SlowConsumerCode 0 ''fell behind'') fx))"

definition enqueue ::
    "(frame \<Rightarrow> bytes) \<Rightarrow> account_id \<Rightarrow> conn_id \<Rightarrow> frame \<Rightarrow> hub \<times> effects \<Rightarrow> hub \<times> effects" where
  "enqueue pe aid conn f = (\<lambda>(h, fx).
     case map_of (hub_accounts h) aid of
       None \<Rightarrow> (h, fx)
     | Some a \<Rightarrow>
         (case map_of (a_conns a) conn of
            None \<Rightarrow> (h, fx)
          | Some c \<Rightarrow>
              let (c', fx') = pushed_or_closed conn c (push_frame pe (hub_limits h) f (c_out c)) fx
              in (put_account aid (put_conn conn c' a) h, fx')))"

fun enqueue_all ::
    "(frame \<Rightarrow> bytes) \<Rightarrow> account_id \<Rightarrow> frame \<Rightarrow> conn_id list \<Rightarrow> hub \<times> effects \<Rightarrow> hub \<times> effects" where
  "enqueue_all pe aid f [] hf = hf"
| "enqueue_all pe aid f (other # others) hf = enqueue_all pe aid f others (enqueue pe aid other f hf)"

section \<open>Leaving\<close>

text \<open>A subscriber leaves one stream; a stream with no subscriber and no ring goes with it.\<close>

definition drop_subscriber ::
    "conn_id \<Rightarrow> stream_key \<Rightarrow> (stream_key \<times> stream) list \<Rightarrow> (stream_key \<times> stream) list" where
  "drop_subscriber conn key streams =
     (case map_of streams key of
        None \<Rightarrow> streams
      | Some s \<Rightarrow>
          let s' = s\<lparr>s_subscribers := removeAll conn (s_subscribers s)\<rparr>
          in if s_subscribers s' = [] \<and> s_ring s' = None then AList.delete key streams
             else AList.update key s' streams)"

definition unsubscribe :: "account_id \<Rightarrow> conn_id \<Rightarrow> stream_key \<Rightarrow> hub \<Rightarrow> hub" where
  "unsubscribe aid conn key h =
     (case map_of (hub_accounts h) aid of
        None \<Rightarrow> h
      | Some a \<Rightarrow>
          let a1 = (case map_of (a_conns a) conn of
                      None \<Rightarrow> a
                    | Some c \<Rightarrow> put_conn conn (c\<lparr>c_subs := removeAll key (c_subs c),
                                                c_out := purge_stream key (c_out c)\<rparr>) a)
          in put_account aid (a1\<lparr>a_streams := drop_subscriber conn key (a_streams a1)\<rparr>) h)"

definition go_offline :: "conn_id \<Rightarrow> conn \<Rightarrow> account \<Rightarrow> role \<times> account" where
  "go_offline conn c a =
     (case map_of (a_online a) (c_principal c) of
        Some (cid, r) \<Rightarrow>
          if cid = conn then (r, a\<lparr>a_online := AList.delete (c_principal c) (a_online a)\<rparr>)
          else (RoleUnspecified, a)
      | None \<Rightarrow> (RoleUnspecified, a))"

definition leave_account :: "conn_id \<Rightarrow> conn \<Rightarrow> account \<Rightarrow> role \<times> account" where
  "leave_account conn c a =
     (let (role, a1) = go_offline conn c (a\<lparr>a_conns := AList.delete conn (a_conns a)\<rparr>)
      in (role, a1\<lparr>a_streams := fold (drop_subscriber conn) (c_subs c) (a_streams a1)\<rparr>))"

definition forget :: "(frame \<Rightarrow> bytes) \<Rightarrow> conn_id \<Rightarrow> hub \<times> effects \<Rightarrow> hub \<times> effects" where
  "forget pe conn = (\<lambda>(h, fx).
     case map_of (hub_conn_account h) conn of
       None \<Rightarrow> (h, fx)
     | Some aid \<Rightarrow>
         let h1 = h\<lparr>hub_conn_account := AList.delete conn (hub_conn_account h)\<rparr>
         in case map_of (hub_accounts h1) aid of
              None \<Rightarrow> (h1, fx)
            | Some a \<Rightarrow>
                (case map_of (a_conns a) conn of
                   None \<Rightarrow> (h1, fx)
                 | Some c \<Rightarrow>
                     let (role, a') = leave_account conn c a;
                         others = keys (a_conns a');
                         h2 = (if a_conns a' = [] \<and> a_streams a' = []
                               then h1\<lparr>hub_accounts := AList.delete aid (hub_accounts h1)\<rparr>
                               else put_account aid a' h1);
                         gone = Frame (Some (BPresence \<lparr>pr_principal = c_principal c, pr_role = i32_of_role role,
                                  pr_online = False, pr_chain = []\<rparr>))
                     in enqueue_all pe aid gone others (h2, fx)))"

lemma enqueue_conn_account [simp]: "hub_conn_account (fst (enqueue pe aid conn f hf)) = hub_conn_account (fst hf)"
  by (auto simp: enqueue_def put_account_def Let_def split: option.split prod.split)

lemma enqueue_all_conn_account [simp]:
  "hub_conn_account (fst (enqueue_all pe aid f others hf)) = hub_conn_account (fst hf)"
  by (induction others arbitrary: hf) simp_all

lemma forget_conn_account: "hub_conn_account (fst (forget pe conn hf)) = AList.delete conn (hub_conn_account (fst hf))"
proof (cases "map_of (hub_conn_account (fst hf)) conn")
  case None
  then have "conn \<notin> set (keys (hub_conn_account (fst hf)))" by (simp add: map_of_eq_None_iff)
  with None show ?thesis by (cases hf) (simp add: forget_def)
next
  case (Some aid)
  then show ?thesis
    by (cases hf) (auto simp: forget_def put_account_def Let_def split: option.split prod.split)
qed

text \<open>Closes are applied last in, first out; one close can put other connections on the list.\<close>

function finish_loop ::
    "(frame \<Rightarrow> bytes) \<Rightarrow> (conn_id \<times> frame) list \<Rightarrow> hub \<times> effects \<Rightarrow> (conn_id \<times> frame) list \<times> hub \<times> effects" where
  "finish_loop pe closed hf =
     (if fx_close (snd hf) = [] then (closed, hf)
      else let (conn, f) = last (fx_close (snd hf));
               hf1 = (fst hf, (snd hf)\<lparr>fx_close := butlast (fx_close (snd hf))\<rparr>)
           in if conn \<in> set (map fst closed) \<or> map_of (hub_conn_account (fst hf1)) conn = None
              then finish_loop pe closed hf1
              else finish_loop pe (closed @ [(conn, f)]) (forget pe conn hf1))"
  by pat_completeness auto
termination
proof (relation "measures [\<lambda>(pe, closed, hf). length (hub_conn_account (fst hf)),
      \<lambda>(pe, closed, hf). length (fx_close (snd hf))]")
  fix pe :: "frame \<Rightarrow> bytes" and closed :: "(conn_id \<times> frame) list" and hf hf1 :: "hub \<times> effects" and x conn f
  assume a: "fx_close (snd hf) \<noteq> []" "x = last (fx_close (snd hf))" "(conn, f) = x"
    "hf1 = (fst hf, (snd hf)\<lparr>fx_close := butlast (fx_close (snd hf))\<rparr>)"
  then show "((pe, closed, hf1), (pe, closed, hf)) \<in> measures [\<lambda>(pe, closed, hf). length (hub_conn_account (fst hf)),
      \<lambda>(pe, closed, hf). length (fx_close (snd hf))]"
    by simp
  assume "\<not> (conn \<in> set (map fst closed) \<or> map_of (hub_conn_account (fst hf1)) conn = None)"
  then have "conn \<in> set (keys (hub_conn_account (fst hf1)))" by (simp add: map_of_eq_None_iff)
  then have "length (AList.delete conn (hub_conn_account (fst hf1))) < length (hub_conn_account (fst hf1))"
    by (auto simp: AList.delete_eq intro!: length_filter_less)
  with a show "((pe, closed @ [(conn, f)], forget pe conn hf1), (pe, closed, hf))
      \<in> measures [\<lambda>(pe, closed, hf). length (hub_conn_account (fst hf)), \<lambda>(pe, closed, hf). length (fx_close (snd hf))]"
    by (simp add: forget_conn_account)
qed simp

declare finish_loop.simps [simp del]

definition finish :: "(frame \<Rightarrow> bytes) \<Rightarrow> hub \<times> effects \<Rightarrow> hub \<times> action list" where
  "finish pe hf =
     (let (closed, h, fx) = finish_loop pe [] hf
      in (h, map Wake (filter (\<lambda>c. c \<notin> set (map fst closed)) (fx_wakes fx))
             @ map (\<lambda>(conn, f). Close conn f) closed))"

definition close_conn :: "(frame \<Rightarrow> bytes) \<Rightarrow> conn_id \<Rightarrow> frame option \<Rightarrow> hub \<Rightarrow> hub \<times> action list" where
  "close_conn pe conn frm h =
     finish pe (case frm of
                  Some f \<Rightarrow> (h, fx_push_close conn f effects_default)
                | None \<Rightarrow> forget pe conn (h, effects_default))"

section \<open>Admission\<close>

definition revoker_fields :: "revoker \<Rightarrow> certificate option \<times> string list" where
  "revoker_fields r =
     (case r of
        RevokerUnknown \<Rightarrow> (None, [])
      | RevokerNone \<Rightarrow> (None, [FEATURE_REVOKER])
      | RevokerKnown c \<Rightarrow> (Some c, [FEATURE_REVOKER]))"

definition welcome_of :: "limits \<Rightarrow> nat \<Rightarrow> revoker \<Rightarrow> frame" where
  "welcome_of l now_ms r =
     (let (cert, features) = revoker_fields r
      in Frame (Some (BWelcome \<lparr>w_protocol = PROTOCOL, w_server_time_ms = now_ms, w_limits = Some (limits_announce l),
           w_revoker = cert, w_features = features\<rparr>)))"

definition presence_of :: "account \<Rightarrow> bytes \<times> (conn_id \<times> role) \<Rightarrow> frame" where
  "presence_of a = (\<lambda>(principal, (other, r)).
     Frame (Some (BPresence \<lparr>pr_principal = principal, pr_role = i32_of_role r, pr_online = True,
       pr_chain = (case map_of (a_conns a) other of Some c \<Rightarrow> c_chain c | None \<Rightarrow> [])\<rparr>)))"

definition connect_refusal :: "account_id \<Rightarrow> hello \<Rightarrow> hub \<Rightarrow> frame option" where
  "connect_refusal aid hello h =
     (let l = hub_limits h; role = role_of_i32 (h_role hello) in
      if h_protocol hello < PROTOCOL then Some (error Unsupported 0 ''protocol version not supported'')
      else if role = RoleUnspecified \<or> h_principal hello = [] \<or> length (h_principal hello) > max_id_bytes l
           \<or> aid = [] \<or> length aid > max_id_bytes l
      then Some (error Invalid 0 ''hello needs a principal, a role and an account'')
      else if map_of (hub_accounts h) aid = None \<and> length (hub_accounts h) \<ge> max_accounts l
      then Some (error Limit 0 ''relay is full'')
      else case map_of (hub_accounts h) aid of
             None \<Rightarrow> None
           | Some a \<Rightarrow>
               if map_of (a_online a) (h_principal hello) \<noteq> None
               then Some (error Unauthenticated 0 ''principal already connected'')
               else if length (a_conns a) \<ge> max_connections_per_account l
               then Some (error Limit 0 ''too many connections for this account'')
               else None)"

text \<open>The account's debt at the time of the connect, brought up to date.\<close>

definition connect_debt :: "account_id \<Rightarrow> nat \<Rightarrow> hub \<Rightarrow> hub \<times> nat" where
  "connect_debt aid mono_ms h =
     (let l = hub_limits h; rate = account_bytes_per_second l; burst = account_burst_bytes l in
      case map_of (hub_accounts h) aid of
        None \<Rightarrow> (h, 0)
      | Some a \<Rightarrow> let b = bucket_refill mono_ms rate burst (a_rate a)
                  in (put_account aid (a\<lparr>a_rate := b\<rparr>) h, bucket_wait_ms rate b))"

text \<open>The newcomer's connection, with its welcome and the presence of everyone online queued.\<close>

definition greeted :: "(frame \<Rightarrow> bytes) \<Rightarrow> limits \<Rightarrow> hello \<Rightarrow> nat \<Rightarrow> revoker \<Rightarrow> account \<Rightarrow> conn" where
  "greeted pe l hello now_ms rvk a =
     \<lparr>c_principal = h_principal hello, c_chain = presentable (h_chain hello),
      c_out = fold (\<lambda>f q. fst (push_frame pe l f q))
                (welcome_of l now_ms rvk # map (presence_of a) (a_online a)) outbound_default,
      c_subs = [], c_armed = False, c_throttle_notice_ms = None\<rparr>"

definition admit ::
    "(frame \<Rightarrow> bytes) \<Rightarrow> account_id \<Rightarrow> hello \<Rightarrow> nat \<Rightarrow> nat \<Rightarrow> revoker \<Rightarrow> hub \<Rightarrow> hub \<times> conn_id \<times> action list" where
  "admit pe aid hello now_ms mono_ms rvk h =
     (let l = hub_limits h; role = role_of_i32 (h_role hello);
          a0 = (case map_of (hub_accounts h) aid of Some a \<Rightarrow> a | None \<Rightarrow> account_new);
          a = a0\<lparr>a_rate := bucket_spend CONNECT_COST_BYTES
                (bucket_refill mono_ms (account_bytes_per_second l) (account_burst_bytes l) (a_rate a0))\<rparr>;
          cid = hub_next_conn h;
          others = keys (a_conns a);
          (c, fx) = conn_arm cid (greeted pe l hello now_ms rvk a, effects_default);
          a' = a\<lparr>a_conns := AList.update cid c (a_conns a),
                 a_online := AList.update (h_principal hello) (cid, role) (a_online a)\<rparr>;
          h1 = (put_account aid a' h)\<lparr>hub_next_conn := cid + 1,
                 hub_conn_account := AList.update cid aid (hub_conn_account h)\<rparr>;
          here = Frame (Some (BPresence \<lparr>pr_principal = h_principal hello, pr_role = i32_of_role role,
                   pr_online = True, pr_chain = presentable (h_chain hello)\<rparr>));
          (h2, acts) = finish pe (enqueue_all pe aid here others (h1, fx))
      in (h2, cid, acts))"

definition connect ::
    "(frame \<Rightarrow> bytes) \<Rightarrow> account_id \<Rightarrow> hello \<Rightarrow> nat \<Rightarrow> nat \<Rightarrow> revoker \<Rightarrow> hub
     \<Rightarrow> hub \<times> (frame + conn_id \<times> action list)" where
  "connect pe aid hello now_ms mono_ms rvk h =
     (case connect_refusal aid hello h of
        Some e \<Rightarrow> (h, Inl e)
      | None \<Rightarrow>
          let (h1, wait) = connect_debt aid mono_ms h
          in if wait > CONNECT_REFUSED_ABOVE_MS
             then (h1, Inl (error Limit 0 (''account over its work rate; try again in '' @ show_nat wait @ '' ms'')))
             else let (h2, cid, acts) = admit pe aid hello now_ms mono_ms rvk h1 in (h2, Inr (cid, acts)))"

section \<open>Epochs\<close>

definition GOLDEN :: u64 where "GOLDEN = 11400714819323198485"
definition GOLDEN_INV :: u64 where "GOLDEN_INV = 17428512612931826493"

definition splitmix :: "u64 \<Rightarrow> u64" where
  "splitmix s =
     (let z = (s XOR drop_bit 30 s) * 13787848793156543929;
          z = (z XOR drop_bit 27 z) * 10723151780598845931
      in z XOR drop_bit 31 z)"

text \<open>
  The counter visits every 64-bit value, \<open>GOLDEN\<close> being odd, and at the state \<open>GOLDEN\<close> the
  generator gives a nonzero epoch; so the loop ends.
\<close>

lemma golden_inverse: "GOLDEN_INV * GOLDEN = 1"
  by (simp add: GOLDEN_def GOLDEN_INV_def)

lemma golden_epoch: "splitmix GOLDEN AND MAX_EXACT_IN_A_DOUBLE \<noteq> 0"
  by (simp add: splitmix_def GOLDEN_def MAX_EXACT_IN_A_DOUBLE_def Let_def)

function next_epoch :: "u64 \<Rightarrow> u64 \<times> u64" where
  "next_epoch s =
     (let s' = s + GOLDEN; z = splitmix s' AND MAX_EXACT_IN_A_DOUBLE
      in if z \<noteq> 0 then (z, s') else next_epoch s')"
  by pat_completeness auto
termination
proof (relation "measure (\<lambda>s. unat (- s * GOLDEN_INV))", simp)
  fix s s' z :: u64
  assume "s' = s + GOLDEN" "z = splitmix s' AND MAX_EXACT_IN_A_DOUBLE" "\<not> z \<noteq> 0"
  then have zero: "splitmix (s + GOLDEN) AND MAX_EXACT_IN_A_DOUBLE = 0" by simp
  have "- s * GOLDEN_INV \<noteq> 0"
  proof
    assume "- s * GOLDEN_INV = 0"
    then have "- s * (GOLDEN_INV * GOLDEN) = 0" by (metis mult.assoc mult_zero_left)
    then have "s = 0" by (simp add: golden_inverse)
    with zero golden_epoch show False by simp
  qed
  moreover have "- s' * GOLDEN_INV = - s * GOLDEN_INV - 1"
    using golden_inverse \<open>s' = s + GOLDEN\<close> by (simp add: algebra_simps)
  ultimately show "(s', s) \<in> measure (\<lambda>s. unat (- s * GOLDEN_INV))"
    by (metis in_measure measure_unat)
qed

declare next_epoch.simps [simp del]


section \<open>Streams\<close>

text \<open>\<open>Iterator::min_by_key\<close> returns the first least element, \<open>max_by_key\<close> the last greatest (its position).\<close>

fun min_by_key :: "('a \<Rightarrow> nat) \<Rightarrow> 'a list \<Rightarrow> 'a option" where
  "min_by_key f [] = None"
| "min_by_key f (x # xs) =
     (case min_by_key f xs of None \<Rightarrow> Some x | Some y \<Rightarrow> if f x \<le> f y then Some x else Some y)"

definition stream_touched :: "stream \<Rightarrow> nat" where
  "stream_touched s = (case s_ring s of None \<Rightarrow> 0 | Some r \<Rightarrow> r_touched r)"

definition stream_bytes :: "stream \<Rightarrow> nat" where
  "stream_bytes s = (case s_ring s of None \<Rightarrow> 0 | Some r \<Rightarrow> r_bytes r)"

definition ensure_stream_in :: "nat \<Rightarrow> stream_key \<Rightarrow> account \<Rightarrow> bool \<times> account" where
  "ensure_stream_in lim key a =
     (let fresh = \<lparr>s_key = key, s_ring = None, s_subscribers = []\<rparr> in
      if map_of (a_streams a) key \<noteq> None then (True, a)
      else if length (a_streams a) \<ge> lim
      then case min_by_key (stream_touched \<circ> snd) (filter (\<lambda>(k, s). s_subscribers s = []) (a_streams a)) of
             None \<Rightarrow> (False, a)
           | Some (victim, s) \<Rightarrow>
               (True, a\<lparr>a_streams := AList.update key fresh (AList.delete victim (a_streams a)),
                        a_ring_bytes := a_ring_bytes a - stream_bytes s\<rparr>)
      else (True, a\<lparr>a_streams := AList.update key fresh (a_streams a)\<rparr>))"

definition ensure_stream :: "account_id \<Rightarrow> stream_key \<Rightarrow> hub \<Rightarrow> bool \<times> hub" where
  "ensure_stream aid key h =
     (case map_of (hub_accounts h) aid of
        None \<Rightarrow> (False, h)
      | Some a \<Rightarrow>
          let (ok, a') = ensure_stream_in (max_streams_per_account (hub_limits h)) key a
          in (ok, put_account aid a' h))"

fun largest_ring :: "(stream_key \<times> stream) list \<Rightarrow> (nat \<times> ring) option" where
  "largest_ring [] = None"
| "largest_ring ((k, s) # rest) =
     (case (s_ring s, largest_ring rest) of
        (None, best) \<Rightarrow> map_option (\<lambda>(i, r). (Suc i, r)) best
      | (Some r, None) \<Rightarrow> Some (0, r)
      | (Some r, Some (i, r')) \<Rightarrow> if r_bytes r > r_bytes r' then Some (0, r) else Some (Suc i, r'))"

definition evict_at :: "nat \<Rightarrow> ring \<Rightarrow> account \<Rightarrow> account" where
  "evict_at i r a =
     (let (freed, r') = ring_evict_oldest r
      in a\<lparr>a_streams := (a_streams a)[i := (fst (a_streams a ! i), (snd (a_streams a ! i))\<lparr>s_ring := Some r'\<rparr>)],
           a_ring_bytes := a_ring_bytes a - freed\<rparr>)"

abbreviation stream_entries :: "stream \<Rightarrow> entry list" where
  "stream_entries s \<equiv> (case s_ring s of None \<Rightarrow> [] | Some r \<Rightarrow> r_entries r)"

lemma largest_ring_NoneD: "largest_ring ss = None \<Longrightarrow> (k, s) \<in> set ss \<Longrightarrow> s_ring s = None"
  by (induction ss rule: largest_ring.induct) (auto split: option.splits if_splits)

lemma largest_ring_SomeD:
  "largest_ring ss = Some (i, r) \<Longrightarrow>
   i < length ss \<and> s_ring (snd (ss ! i)) = Some r \<and> (\<forall>x \<in> set ss. stream_bytes (snd x) \<le> r_bytes r)"
proof (induction ss arbitrary: i r rule: largest_ring.induct)
  case (2 k s rest)
  show ?case
  proof (cases "s_ring s")
    case None
    with 2 show ?thesis by (auto simp: stream_bytes_def)
  next
    case (Some q)
    show ?thesis
    proof (cases "largest_ring rest")
      case None
      with Some 2 have "\<forall>x \<in> set rest. s_ring (snd x) = None"
        using largest_ring_NoneD [OF None] by auto
      with None Some 2 show ?thesis by (auto simp: stream_bytes_def)
    next
      case (Some best)
      with \<open>s_ring s = Some q\<close> 2 show ?thesis
        by (cases best) (fastforce simp: stream_bytes_def split: if_splits)
    qed
  qed
qed simp

lemma evict_at_entries:
  assumes "i < length (a_streams a)" and "s_ring (snd (a_streams a ! i)) = Some r" and "r_entries r \<noteq> []"
  shows "sum_list (map (length \<circ> stream_entries \<circ> snd) (a_streams (evict_at i r a)))
    < sum_list (map (length \<circ> stream_entries \<circ> snd) (a_streams a))"
  using assms sum_list_list_update [OF assms(1), of "length \<circ> stream_entries \<circ> snd"
      "(fst (a_streams a ! i), (snd (a_streams a ! i))\<lparr>s_ring := Some (snd (ring_evict_oldest r))\<rparr>)"]
  by (cases "r_entries r") (auto simp: evict_at_def ring_evict_oldest_def)

function enforce_ring_budget :: "nat \<Rightarrow> account \<Rightarrow> account" where
  "enforce_ring_budget budget a =
     (if a_ring_bytes a > budget
      then case largest_ring (a_streams a) of
             None \<Rightarrow> a
           | Some (i, r) \<Rightarrow> if ring_is_empty r then a else enforce_ring_budget budget (evict_at i r a)
      else a)"
  by pat_completeness auto
termination
proof (relation "measure (\<lambda>(b, a). sum_list (map (length \<circ> stream_entries \<circ> snd) (a_streams a)))", simp)
  fix budget :: nat and a :: account and x y i r
  assume "largest_ring (a_streams a) = Some x" "(i, r) = x" "\<not> ring_is_empty r"
  then show "((budget, evict_at i r a), (budget, a))
      \<in> measure (\<lambda>(b, a). sum_list (map (length \<circ> stream_entries \<circ> snd) (a_streams a)))"
    using evict_at_entries [of i a r] by (auto simp: ring_is_empty_def dest: largest_ring_SomeD)
qed

declare enforce_ring_budget.simps [simp del]


section \<open>Routing\<close>

definition ring_capacity :: "limits \<Rightarrow> kind \<Rightarrow> nat" where
  "ring_capacity l k = (case k of SessionEvents \<Rightarrow> ring_session_events l | _ \<Rightarrow> ring_telemetry l)"

text \<open>The fan-out of one published entry to a stream's subscribers.\<close>

fun fan_out ::
    "limits \<Rightarrow> stream_key \<Rightarrow> kind \<Rightarrow> u64 \<Rightarrow> entry \<Rightarrow> conn_id list \<Rightarrow> (conn_id \<times> conn) list \<times> effects
     \<Rightarrow> (conn_id \<times> conn) list \<times> effects" where
  "fan_out l key k epoch e [] cf = cf"
| "fan_out l key k epoch e (sub # subs) (conns, fx) =
     (case map_of conns sub of
        None \<Rightarrow> fan_out l key k epoch e subs (conns, fx)
      | Some c \<Rightarrow>
          let (c', fx') = pushed_or_closed sub c (push_published l key k epoch e (c_out c)) fx
          in fan_out l key k epoch e subs (AList.update sub c' conns, fx'))"

text \<open>The part of \<open>publish\<close> that works on the account: retain, count, fan out, keep the budget.\<close>

definition publish_in ::
    "(frame \<Rightarrow> bytes) \<Rightarrow> limits \<Rightarrow> u64 \<Rightarrow> nat \<Rightarrow> stream_key \<Rightarrow> kind \<Rightarrow> envelope \<Rightarrow> stream
     \<Rightarrow> account \<times> effects \<Rightarrow> account \<times> effects" where
  "publish_in pe l fresh clock key k env s = (\<lambda>(a, fx).
     let r = (case s_ring s of Some r \<Rightarrow> r | None \<Rightarrow> ring_new k fresh clock);
         epoch = r_epoch r;
         (pub, r') = ring_publish pe env (ring_capacity l k) clock r;
         (conns, fx') = fan_out l (s_key s) k epoch (pub_entry pub) (s_subscribers s) (a_conns a, fx)
     in (enforce_ring_budget (account_ring_bytes l)
           (a\<lparr>a_streams := AList.update key (s\<lparr>s_ring := Some r'\<rparr>) (a_streams a),
              a_ring_bytes := a_ring_bytes a + pub_added pub - pub_freed pub, a_conns := conns\<rparr>), fx'))"

text \<open>
  Where the source indexes or expects, the account and the ensured stream are there; the model's
  branches for their absence return unchanged, and the invariant shows that they are not taken.
\<close>

definition publish ::
    "(frame \<Rightarrow> bytes) \<Rightarrow> account_id \<Rightarrow> conn_id \<Rightarrow> stream_key \<Rightarrow> kind \<Rightarrow> envelope \<Rightarrow> hub \<times> effects \<Rightarrow> hub \<times> effects" where
  "publish pe aid conn key k env = (\<lambda>(h, fx).
     let (ok, h1) = ensure_stream aid key h in
     if \<not> ok then (h1, fx_push_close conn (error Limit (e_ref env) ''too many streams for this account'') fx)
     else case map_of (hub_accounts h1) aid of
            None \<Rightarrow> (h1, fx)
          | Some a \<Rightarrow>
              (case map_of (a_streams a) key of
                 None \<Rightarrow> (h1, fx)
               | Some s \<Rightarrow>
                   let existing = map_option r_kind (s_ring s) in
                   if (case existing of Some k' \<Rightarrow> k' \<noteq> k | None \<Rightarrow> False)
                   then enqueue pe aid conn (error Invalid (e_ref env) ''channel already carries another kind'') (h1, fx)
                   else let (epoch, h2) = (if existing = None
                              then let (z, st) = next_epoch (hub_epoch_state h1) in (z, h1\<lparr>hub_epoch_state := st\<rparr>)
                              else (0, h1));
                            h3 = h2\<lparr>hub_clock := hub_clock h2 + 1\<rparr>;
                            (a', fx') = publish_in pe (hub_limits h) epoch (hub_clock h3) key k env s (a, fx)
                        in (put_account aid a' h3, fx')))"

definition direct ::
    "(frame \<Rightarrow> bytes) \<Rightarrow> account_id \<Rightarrow> conn_id \<Rightarrow> bytes \<Rightarrow> envelope \<Rightarrow> hub \<times> effects \<Rightarrow> hub \<times> effects" where
  "direct pe aid conn target env = (\<lambda>(h, fx).
     case (case map_of (hub_accounts h) aid of
             None \<Rightarrow> None
           | Some a \<Rightarrow> (case map_of (a_online a) target of
                         None \<Rightarrow> None
                       | Some (tc, _) \<Rightarrow> map_option (\<lambda>c. (a, tc, c)) (map_of (a_conns a) tc))) of
       None \<Rightarrow> enqueue pe aid conn (error Unavailable (e_ref env) ''recipient is not online'') (h, fx)
     | Some (a, tc, c) \<Rightarrow>
         let env1 = env\<lparr>e_to := Some (ToPrincipal target)\<rparr>;
             (out, r) = push_frame pe (hub_limits h) (Frame (Some (BEnvelope env1))) (c_out c);
             (c', fx') = pushed_or_closed tc c (out, r) fx;
             h1 = put_account aid (put_conn tc c' a) h
         in case r of
              Pushed \<Rightarrow> (h1, fx')
            | SlowConsumer \<Rightarrow> enqueue pe aid conn (error Unavailable (e_ref env) ''recipient fell behind'') (h1, fx'))"

definition on_envelope ::
    "(frame \<Rightarrow> bytes) \<Rightarrow> account_id \<Rightarrow> conn_id \<Rightarrow> envelope \<Rightarrow> hub \<times> effects \<Rightarrow> hub \<times> effects" where
  "on_envelope pe aid conn env = (\<lambda>(h, fx).
     let l = hub_limits h; reference = e_ref env in
     if length (e_payload env) > max_payload_bytes l
     then (h, fx_push_close conn (error Limit reference ''payload too large'') fx)
     else if length (e_coalesce env) > max_coalesce_bytes l
     then (h, fx_push_close conn (error Limit reference ''coalesce key too long'') fx)
     else case principal_of aid conn h of
            None \<Rightarrow> (h, fx)
          | Some sender \<Rightarrow>
              let k = kind_of_i32 (e_kind env);
                  env1 = env\<lparr>e_sender := sender, e_seq := 0, e_epoch := 0, e_to := None\<rparr>
              in case (e_to env, k) of
                   (_, KindUnspecified) \<Rightarrow>
                     enqueue pe aid conn (error Unsupported reference ''unknown kind'') (h, fx)
                 | (Some (ToChannel channel), _) \<Rightarrow>
                     if k = SessionEvents \<or> k = Telemetry then
                       if channel = [] \<or> length channel > max_id_bytes l
                       then enqueue pe aid conn (error Invalid reference ''bad channel'') (h, fx)
                       else let env2 = (if k \<noteq> Telemetry then env1\<lparr>e_coalesce := []\<rparr> else env1)
                            in publish pe aid conn \<lparr>sk_publisher = sender, sk_channel = channel\<rparr> k
                                 (env2\<lparr>e_to := Some (ToChannel channel)\<rparr>) (h, fx)
                     else enqueue pe aid conn (error Invalid reference ''kind does not match its address'') (h, fx)
                 | (Some (ToPrincipal target), _) \<Rightarrow>
                     if k = Command \<or> k = CommandResult \<or> k = Bulk
                     then direct pe aid conn target (env1\<lparr>e_coalesce := []\<rparr>) (h, fx)
                     else enqueue pe aid conn (error Invalid reference ''kind does not match its address'') (h, fx)
                 | (None, _) \<Rightarrow>
                     enqueue pe aid conn (error Invalid reference ''kind does not match its address'') (h, fx))"

text \<open>The backfill of a subscription: entries are pushed and counted until one is refused.\<close>

fun push_backfill ::
    "limits \<Rightarrow> stream_key \<Rightarrow> kind \<Rightarrow> u64 \<Rightarrow> entry list \<Rightarrow> outbound \<times> nat \<Rightarrow> outbound \<times> nat \<times> push_result" where
  "push_backfill l key k epoch [] (q, n) = (q, n, Pushed)"
| "push_backfill l key k epoch (e # es) (q, n) =
     (case push_published l key k epoch e q of
        (q', SlowConsumer) \<Rightarrow> (q', n, SlowConsumer)
      | (q', Pushed) \<Rightarrow> push_backfill l key k epoch es (q', n + 1))"

definition subscribe_fill ::
    "position option \<Rightarrow> stream \<Rightarrow> entry list \<times> kind \<times> u64 \<times> nat \<times> bool" where
  "subscribe_fill since s =
     (case s_ring s of
        Some r \<Rightarrow> let b = ring_backfill since r
                  in (fill_entries b, r_kind r, r_epoch r, r_seq r, fill_truncated b)
      | None \<Rightarrow> ([], KindUnspecified, 0, 0, (case since of Some p \<Rightarrow> p_seq p > 0 | None \<Rightarrow> False)))"

definition on_subscribe ::
    "(frame \<Rightarrow> bytes) \<Rightarrow> account_id \<Rightarrow> conn_id \<Rightarrow> subscribe \<Rightarrow> hub \<times> effects \<Rightarrow> hub \<times> effects" where
  "on_subscribe pe aid conn sub = (\<lambda>(h, fx).
     let l = hub_limits h in
     case sub_stream sub of
       None \<Rightarrow> enqueue pe aid conn (error Invalid 0 ''subscribe needs a stream'') (h, fx)
     | Some st \<Rightarrow>
         if sr_publisher st = [] \<or> length (sr_publisher st) > max_id_bytes l
            \<or> sr_channel st = [] \<or> length (sr_channel st) > max_id_bytes l
         then enqueue pe aid conn (error Invalid 0 ''bad stream'') (h, fx)
         else
           let key = \<lparr>sk_publisher = sr_publisher st, sk_channel = sr_channel st\<rparr>;
               subs = (case map_of (hub_accounts h) aid of
                         None \<Rightarrow> []
                       | Some a \<Rightarrow> (case map_of (a_conns a) conn of Some c \<Rightarrow> c_subs c | None \<Rightarrow> []))
           in if key \<notin> set subs \<and> length subs \<ge> max_subscriptions_per_connection l
              then (h, fx_push_close conn (error Limit 0 ''too many subscriptions'') fx)
              else let (ok, h1) = ensure_stream aid key h in
                   if \<not> ok then (h1, fx_push_close conn (error Limit 0 ''too many streams for this account'') fx)
                   else case map_of (hub_accounts h1) aid of
                          None \<Rightarrow> (h1, fx)
                        | Some a \<Rightarrow>
                            (case (map_of (a_conns a) conn, map_of (a_streams a) key) of
                               (Some c, Some s) \<Rightarrow>
                                 let s' = s\<lparr>s_subscribers := List.insert conn (s_subscribers s)\<rparr>;
                                     (entries, k, epoch, seq, truncated) = subscribe_fill (sub_since sub) s';
                                     (out, n, r) = push_backfill l (s_key s') k epoch entries
                                                     (purge_stream key (c_out c), fx_queued fx);
                                     c' = c\<lparr>c_subs := List.insert key (c_subs c), c_out := out\<rparr>;
                                     h2 = put_account aid (put_conn conn c'
                                            (a\<lparr>a_streams := AList.update key s' (a_streams a)\<rparr>)) h1;
                                     fx1 = fx\<lparr>fx_queued := n\<rparr>
                                 in (case r of
                                       SlowConsumer \<Rightarrow>
                                         (h2, fx_push_close conn (error SlowConsumerCode 0 ''fell behind'') fx1)
                                     | Pushed \<Rightarrow>
                                         enqueue pe aid conn (Frame (Some (BBackfilled
                                           \<lparr>bf_stream = Some (key_to_ref key), bf_epoch = epoch, bf_seq = seq,
                                            bf_truncated = truncated\<rparr>))) (h2, fx1))
                             | _ \<Rightarrow> (h1, fx)))"


section \<open>The server's calls\<close>

definition route :: "(frame \<Rightarrow> bytes) \<Rightarrow> account_id \<Rightarrow> conn_id \<Rightarrow> frame \<Rightarrow> hub \<times> effects \<Rightarrow> hub \<times> effects" where
  "route pe aid conn f = (\<lambda>(h, fx).
     case frame_body f of
       Some (BEnvelope env) \<Rightarrow> on_envelope pe aid conn env (h, fx)
     | Some (BSubscribe sub) \<Rightarrow> on_subscribe pe aid conn sub (h, fx)
     | Some (BUnsubscribe u) \<Rightarrow>
         (case unsub_stream u of
            Some st \<Rightarrow> (unsubscribe aid conn \<lparr>sk_publisher = sr_publisher st, sk_channel = sr_channel st\<rparr> h, fx)
          | None \<Rightarrow> (h, fx))
     | Some (BPing nonce) \<Rightarrow> enqueue pe aid conn (Frame (Some (BPong nonce))) (h, fx)
     | Some (BPong _) \<Rightarrow> (h, fx)
     | Some (BError _) \<Rightarrow> (h, fx)
     | Some (BHello _) \<Rightarrow> (h, fx_push_close conn (error Invalid 0 ''hello sent twice'') fx)
     | Some (BWelcome _) \<Rightarrow> (h, fx_push_close conn (error Invalid 0 ''a hub-to-peer frame sent to the hub'') fx)
     | Some (BBackfilled _) \<Rightarrow> (h, fx_push_close conn (error Invalid 0 ''a hub-to-peer frame sent to the hub'') fx)
     | Some (BGap _) \<Rightarrow> (h, fx_push_close conn (error Invalid 0 ''a hub-to-peer frame sent to the hub'') fx)
     | Some (BPresence _) \<Rightarrow> (h, fx_push_close conn (error Invalid 0 ''a hub-to-peer frame sent to the hub'') fx)
     | Some (BChallenge _) \<Rightarrow> (h, fx_push_close conn (error Invalid 0 ''a hub-to-peer frame sent to the hub'') fx)
     | Some (BPairOffer _) \<Rightarrow> (h, fx_push_close conn (error Invalid 0 ''a pairing frame the relay does not route'') fx)
     | Some (BPairFetch _) \<Rightarrow> (h, fx_push_close conn (error Invalid 0 ''a pairing frame the relay does not route'') fx)
     | Some (BPairAnswer _) \<Rightarrow> (h, fx_push_close conn (error Invalid 0 ''a pairing frame the relay does not route'') fx)
     | Some (BPaired _) \<Rightarrow> (h, fx_push_close conn (error Invalid 0 ''a pairing frame the relay does not route'') fx)
     | None \<Rightarrow> enqueue pe aid conn (error Unsupported 0 ''unknown frame'') (h, fx))"

text \<open>\<open>usize::saturating_mul\<close> on a 64-bit target.\<close>

definition saturating_mul_usize :: "nat \<Rightarrow> nat \<Rightarrow> nat" where
  "saturating_mul_usize a b = min (a * b) (2 ^ 64 - 1)"

definition spend_queued :: "account_id \<Rightarrow> hub \<times> effects \<Rightarrow> hub \<times> effects" where
  "spend_queued aid = (\<lambda>(h, fx).
     case map_of (hub_accounts h) aid of
       None \<Rightarrow> (h, fx)
     | Some a \<Rightarrow>
         (put_account aid (a\<lparr>a_rate := bucket_spend (saturating_mul_usize (fx_queued fx) FRAME_COST_BYTES) (a_rate a)\<rparr>) h,
          fx))"

definition receive :: "(frame \<Rightarrow> bytes) \<Rightarrow> conn_id \<Rightarrow> frame \<Rightarrow> hub \<Rightarrow> hub \<times> action list" where
  "receive pe conn f h =
     (case map_of (hub_conn_account h) conn of
        None \<Rightarrow> (h, [])
      | Some aid \<Rightarrow> finish pe (spend_queued aid (route pe aid conn f (h, effects_default))))"

definition deliver :: "(frame \<Rightarrow> bytes) \<Rightarrow> conn_id \<Rightarrow> frame \<Rightarrow> hub \<Rightarrow> hub \<times> action list" where
  "deliver pe conn f h =
     (case map_of (hub_conn_account h) conn of
        None \<Rightarrow> (h, [])
      | Some aid \<Rightarrow> finish pe (enqueue pe aid conn f (h, effects_default)))"

definition notice_due :: "nat \<Rightarrow> conn \<Rightarrow> bool" where
  "notice_due now_ms c =
     (case c_throttle_notice_ms c of None \<Rightarrow> True | Some t \<Rightarrow> now_ms - t \<ge> THROTTLE_NOTICE_MS)"

definition throttle_notice ::
    "(frame \<Rightarrow> bytes) \<Rightarrow> limits \<Rightarrow> conn_id \<Rightarrow> nat \<Rightarrow> nat \<Rightarrow> account \<times> effects \<Rightarrow> account \<times> effects" where
  "throttle_notice pe l conn wait now_ms = (\<lambda>(a, fx).
     if wait \<ge> THROTTLE_NOTICE_MIN_WAIT_MS then
       case map_of (a_conns a) conn of
         None \<Rightarrow> (a, fx)
       | Some c \<Rightarrow>
           if notice_due now_ms c then
             let c1 = c\<lparr>c_throttle_notice_ms := Some now_ms\<rparr>;
                 notice = error Throttled 0 ''account over its work rate; reading slowed'';
                 (c', fx') = pushed_or_closed conn c1 (push_frame pe l notice (c_out c1)) fx
             in (put_conn conn c' a, fx')
           else (a, fx)
     else (a, fx))"

definition charge :: "(frame \<Rightarrow> bytes) \<Rightarrow> conn_id \<Rightarrow> nat \<Rightarrow> nat \<Rightarrow> hub \<Rightarrow> hub \<times> nat \<times> action list" where
  "charge pe conn bytes now_ms h =
     (let l = hub_limits h; rate = account_bytes_per_second l; burst = account_burst_bytes l in
      case map_of (hub_conn_account h) conn of
        None \<Rightarrow> (h, 0, [])
      | Some aid \<Rightarrow>
          (case map_of (hub_accounts h) aid of
             None \<Rightarrow> (h, 0, [])
           | Some a \<Rightarrow>
               let b = bucket_spend bytes (bucket_refill now_ms rate burst (a_rate a));
                   wait = bucket_wait_ms rate b;
                   (a', fx) = throttle_notice pe l conn wait now_ms (a\<lparr>a_rate := b\<rparr>, effects_default);
                   (h', acts) = finish pe (put_account aid a' h, fx)
               in (h', wait, acts)))"

definition take_outbound :: "(frame \<Rightarrow> bytes) \<Rightarrow> conn_id \<Rightarrow> nat \<Rightarrow> hub \<Rightarrow> hub \<times> taken" where
  "take_outbound pe conn budget h =
     (case map_of (hub_conn_account h) conn of
        None \<Rightarrow> (h, \<lparr>tk_frames = [], tk_more = False\<rparr>)
      | Some aid \<Rightarrow>
          (case map_of (hub_accounts h) aid of
             None \<Rightarrow> (h, \<lparr>tk_frames = [], tk_more = False\<rparr>)
           | Some a \<Rightarrow>
               (case map_of (a_conns a) conn of
                  None \<Rightarrow> (h, \<lparr>tk_frames = [], tk_more = False\<rparr>)
                | Some c \<Rightarrow>
                    let (frames, out) = outbound_take pe budget (c_out c);
                        m = (\<not> outbound_is_empty out)
                    in (put_account aid (put_conn conn (c\<lparr>c_out := out, c_armed := m\<rparr>) a) h,
                        \<lparr>tk_frames = frames, tk_more = m\<rparr>))))"

section \<open>The model checker's test\<close>

text \<open>
  \<open>Model::check\<close> of \<open>model.rs\<close>: \<open>woken\<close> are the connections with a wake outstanding, as a server
  waiting on wakes would know them.
\<close>

definition check_conn :: "limits \<Rightarrow> hub \<Rightarrow> account_id \<Rightarrow> account \<Rightarrow> conn_id set \<Rightarrow> conn_id \<times> conn \<Rightarrow> bool" where
  "check_conn l h aid a woken = (\<lambda>(cid, c).
     \<not> (\<not> outbound_is_empty (c_out c) \<and> cid \<notin> woken)
     \<and> map_of (hub_conn_account h) cid = Some aid
     \<and> outbound_check l (c_out c)
     \<and> \<not> length (c_subs c) > max_subscriptions_per_connection l
     \<and> list_all (\<lambda>key. case map_of (a_streams a) key of Some s \<Rightarrow> cid \<in> set (s_subscribers s) | None \<Rightarrow> False) (c_subs c)
     \<and> (case map_of (a_online a) (c_principal c) of Some (online, _) \<Rightarrow> online = cid | None \<Rightarrow> False))"

definition check_stream :: "limits \<Rightarrow> account \<Rightarrow> stream_key \<times> stream \<Rightarrow> bool" where
  "check_stream l a = (\<lambda>(key, s).
     (case s_ring s of
        None \<Rightarrow> True
      | Some r \<Rightarrow> ring_check (if r_kind r = SessionEvents then ring_session_events l else ring_telemetry l) r)
     \<and> list_all (\<lambda>sub. case map_of (a_conns a) sub of Some c \<Rightarrow> key \<in> set (c_subs c) | None \<Rightarrow> False) (s_subscribers s))"

definition check_account :: "limits \<Rightarrow> hub \<Rightarrow> conn_id set \<Rightarrow> account_id \<times> account \<Rightarrow> bool" where
  "check_account l h woken = (\<lambda>(aid, a).
     \<not> bucket_tokens (a_rate a) > int (account_burst_bytes l)
     \<and> \<not> (a_conns a = [] \<and> a_streams a = [])
     \<and> \<not> (length (a_conns a) > max_connections_per_account l \<or> length (a_streams a) > max_streams_per_account l)
     \<and> list_all (check_stream l a) (a_streams a)
     \<and> sum_list (map (stream_bytes \<circ> snd) (a_streams a)) = a_ring_bytes a
     \<and> \<not> a_ring_bytes a > account_ring_bytes l
     \<and> list_all (check_conn l h aid a woken) (a_conns a)
     \<and> length (a_online a) = length (a_conns a))"

definition hub_check :: "limits \<Rightarrow> hub \<Rightarrow> conn_id set \<Rightarrow> bool" where
  "hub_check l h woken \<longleftrightarrow>
     \<not> length (hub_accounts h) > max_accounts l
     \<and> list_all (check_account l h woken) (hub_accounts h)
     \<and> list_all (\<lambda>(conn, aid). case map_of (hub_accounts h) aid of
                                 Some a \<Rightarrow> map_of (a_conns a) conn \<noteq> None | None \<Rightarrow> False) (hub_conn_account h)"

end
