(* ===== verification/Relay_Inv.thy ===== *)
theory Relay_Inv
  imports Relay
begin

text \<open>
  The invariant of the routing core, and that every call of the server keeps it. In the middle of a
  call the connections on the list to close are exempt from their bounds (a queue may have overflowed:
  that is why they are closed), and a connection may have been armed by a wake that is still among
  the effects; \<open>finish\<close> restores the whole.
\<close>

declare map_of_eq_Some_iff [simp del] Some_eq_map_of_iff [simp del]

section \<open>The invariant\<close>

definition queue_in_order :: "outbound \<Rightarrow> bool" where
  "queue_in_order q \<longleftrightarrow> (\<forall>key. sorted_wrt (<) (map it_seq (filter (\<lambda>it. it_stream it = Some key) (o_items q))))"

definition conn_local :: "limits \<Rightarrow> conn_id set \<Rightarrow> conn_id set \<Rightarrow> conn_id \<Rightarrow> conn \<Rightarrow> bool" where
  "conn_local l X W cid c \<longleftrightarrow>
     outbound_ok (c_out c) \<and> queue_in_order (c_out c) \<and> distinct (c_subs c)
     \<and> length (c_subs c) \<le> max_subscriptions_per_connection l
     \<and> (cid \<in> X \<or> outbound_within l (c_out c) \<and> (o_items (c_out c) = [] \<or> c_armed c) \<and> (c_armed c \<longrightarrow> cid \<in> W))"

definition item_link :: "(stream_key \<times> stream) list \<Rightarrow> stream_key list \<Rightarrow> item \<Rightarrow> bool" where
  "item_link streams subs it \<longleftrightarrow>
     (\<forall>key. it_stream it = Some key \<longrightarrow>
        key \<in> set subs
        \<and> (\<exists>s r. map_of streams key = Some s \<and> s_ring s = Some r \<and> it_epoch it = r_epoch r \<and> it_seq it \<le> r_seq r))"

definition conn_links ::
    "(stream_key \<times> stream) list \<Rightarrow> (bytes \<times> (conn_id \<times> role)) list \<Rightarrow> conn_id \<Rightarrow> conn \<Rightarrow> bool" where
  "conn_links streams online cid c \<longleftrightarrow>
     (\<forall>key \<in> set (c_subs c). \<exists>s. map_of streams key = Some s \<and> cid \<in> set (s_subscribers s))
     \<and> (\<exists>r. map_of online (c_principal c) = Some (cid, r))
     \<and> (\<forall>it \<in> set (o_items (c_out c)). item_link streams (c_subs c) it)"

definition ring_sound :: "limits \<Rightarrow> ring \<Rightarrow> bool" where
  "ring_sound l r \<longleftrightarrow>
     ring_ok r \<and> length (r_entries r) \<le> ring_capacity l (r_kind r) \<and> (r_kind r = SessionEvents \<or> r_kind r = Telemetry)"

definition stream_sound :: "limits \<Rightarrow> (conn_id \<times> conn) list \<Rightarrow> stream_key \<Rightarrow> stream \<Rightarrow> bool" where
  "stream_sound l conns key s \<longleftrightarrow>
     s_key s = key \<and> distinct (s_subscribers s)
     \<and> (\<forall>sub \<in> set (s_subscribers s). \<exists>c. map_of conns sub = Some c \<and> key \<in> set (c_subs c))
     \<and> (\<forall>r. s_ring s = Some r \<longrightarrow> ring_sound l r)"

abbreviation ring_total :: "(stream_key \<times> stream) list \<Rightarrow> nat" where
  "ring_total streams \<equiv> sum_list (map (stream_bytes \<circ> snd) streams)"

definition acct_core :: "limits \<Rightarrow> conn_id set \<Rightarrow> conn_id set \<Rightarrow> account \<Rightarrow> bool" where
  "acct_core l X W a \<longleftrightarrow>
     keys_distinct (a_conns a) \<and> keys_distinct (a_online a) \<and> keys_distinct (a_streams a)
     \<and> length (a_conns a) \<le> max_connections_per_account l \<and> length (a_streams a) \<le> max_streams_per_account l
     \<and> length (a_online a) = length (a_conns a)
     \<and> (\<forall>cid c. map_of (a_conns a) cid = Some c \<longrightarrow>
          conn_local l X W cid c \<and> conn_links (a_streams a) (a_online a) cid c)
     \<and> (\<forall>p cid r. map_of (a_online a) p = Some (cid, r) \<longrightarrow> (\<exists>c. map_of (a_conns a) cid = Some c \<and> c_principal c = p))
     \<and> (\<forall>key s. map_of (a_streams a) key = Some s \<longrightarrow> stream_sound l (a_conns a) key s)
     \<and> ring_total (a_streams a) = a_ring_bytes a
     \<and> bucket_ok (account_burst_bytes l) (a_rate a)"

definition acct_sound :: "limits \<Rightarrow> conn_id set \<Rightarrow> conn_id set \<Rightarrow> account \<Rightarrow> bool" where
  "acct_sound l X W a \<longleftrightarrow> acct_core l X W a \<and> a_ring_bytes a \<le> account_ring_bytes l"

abbreviation closing :: "effects \<Rightarrow> conn_id set" where
  "closing fx \<equiv> fst ` set (fx_close fx)"

definition hub_mid :: "conn_id set \<Rightarrow> hub \<times> effects \<Rightarrow> bool" where
  "hub_mid W = (\<lambda>(h, fx).
     keys_distinct (hub_accounts h) \<and> length (hub_accounts h) \<le> max_accounts (hub_limits h)
     \<and> keys_distinct (hub_conn_account h)
     \<and> (\<forall>aid a. map_of (hub_accounts h) aid = Some a \<longrightarrow>
          acct_sound (hub_limits h) (closing fx) (W \<union> set (fx_wakes fx)) a
          \<and> (a_conns a \<noteq> [] \<or> a_streams a \<noteq> [])
          \<and> (\<forall>cid. map_of (a_conns a) cid \<noteq> None \<longrightarrow> map_of (hub_conn_account h) cid = Some aid))
     \<and> (\<forall>cid aid. map_of (hub_conn_account h) cid = Some aid \<longrightarrow>
          cid < hub_next_conn h \<and> (\<exists>a. map_of (hub_accounts h) aid = Some a \<and> map_of (a_conns a) cid \<noteq> None)))"

definition hub_inv :: "conn_id set \<Rightarrow> hub \<Rightarrow> bool" where
  "hub_inv W h \<longleftrightarrow> hub_mid W (h, effects_default)"

section \<open>One push\<close>

text \<open>What the proofs need to know of a push of \<open>it\<close> onto \<open>q\<close>.\<close>

definition push_good :: "limits \<Rightarrow> outbound \<Rightarrow> item \<Rightarrow> outbound \<times> push_result \<Rightarrow> bool" where
  "push_good l q it = (\<lambda>(q', r).
     subseq (o_items q') (o_items q @ [it]) \<and> outbound_ok q'
     \<and> (outbound_within l q \<and> r = Pushed \<longrightarrow> outbound_within l q'))"

lemma push_frame_good: "outbound_ok q \<Longrightarrow> push_good l q (frame_item pe f) (push_frame pe l f q)"
  using outbound_push_thins [of l "frame_item pe f" q _ _ "o_items q"] push_frame_ok [of q pe l f] push_frame_within [of l q pe f]
  by (auto simp: push_good_def push_frame_def)

lemma push_published_good:
  "outbound_ok q \<Longrightarrow> push_good l q (published_item key k ep e) (push_published l key k ep e q)"
  using push_published_thins(1) [of l key k ep e q] push_published_ok [of q l key k ep e]
    push_published_within [of q l key k ep e]
  by (auto simp: push_good_def)

definition newest_of_its_stream :: "outbound \<Rightarrow> item \<Rightarrow> bool" where
  "newest_of_its_stream q it \<longleftrightarrow>
     (\<forall>jt \<in> set (o_items q). it_stream jt = it_stream it \<and> it_stream it \<noteq> None \<longrightarrow> it_seq jt < it_seq it)"

lemma frame_item_newest [simp]: "newest_of_its_stream q (frame_item pe f)"
  by (simp add: newest_of_its_stream_def frame_item_def)

lemma push_good_order:
  assumes "push_good l q it (q', r)" and "queue_in_order q" and "newest_of_its_stream q it"
  shows "queue_in_order q'"
  unfolding queue_in_order_def
proof
  fix key
  from assms(1) have "subseq (o_items q') (o_items q @ [it])" by (simp add: push_good_def)
  then have "subseq (map it_seq (filter (\<lambda>it. it_stream it = Some key) (o_items q')))
      (map it_seq (filter (\<lambda>it. it_stream it = Some key) (o_items q @ [it])))"
    by (intro subseq_map subseq_filter)
  moreover have "sorted_wrt (<) (map it_seq (filter (\<lambda>it. it_stream it = Some key) (o_items q @ [it])))"
    using assms(2,3) by (auto simp: queue_in_order_def newest_of_its_stream_def sorted_wrt_append)
  ultimately show "sorted_wrt (<) (map it_seq (filter (\<lambda>it. it_stream it = Some key) (o_items q')))"
    by (rule sorted_wrt_subseq)
qed

lemma push_good_items: "push_good l q it (q', r) \<Longrightarrow> set (o_items q') \<subseteq> insert it (set (o_items q))"
proof -
  assume "push_good l q it (q', r)"
  then have "subseq (o_items q') (o_items q @ [it])" by (simp add: push_good_def)
  then show ?thesis by (auto elim: list_emb_set)
qed

lemma conn_local_mono: "conn_local l X W cid c \<Longrightarrow> X \<subseteq> X' \<Longrightarrow> W \<subseteq> W' \<Longrightarrow> conn_local l X' W' cid c"
  by (auto simp: conn_local_def)

definition fx_le :: "effects \<Rightarrow> effects \<Rightarrow> bool" where
  "fx_le fx fx' \<longleftrightarrow> closing fx \<subseteq> closing fx' \<and> set (fx_wakes fx) \<subseteq> set (fx_wakes fx')"

lemma fx_le_refl [simp]: "fx_le fx fx"
  by (simp add: fx_le_def)

lemma fx_le_trans: "fx_le a b \<Longrightarrow> fx_le b c \<Longrightarrow> fx_le a c"
  unfolding fx_le_def by (meson order_trans)

lemma fx_le_push_close [simp]: "fx_le fx (fx_push_close cid f fx)"
  by (auto simp: fx_le_def fx_push_close_def)

lemma fx_push_close_simps [simp]:
  "closing (fx_push_close cid f fx) = insert cid (closing fx)" "fx_wakes (fx_push_close cid f fx) = fx_wakes fx"
  by (auto simp: fx_push_close_def)

text \<open>A connection in the middle of a backfill: its queue may hold entries no wake was sent for yet.\<close>

definition conn_prepared :: "limits \<Rightarrow> conn_id set \<Rightarrow> conn_id set \<Rightarrow> conn_id \<Rightarrow> conn \<Rightarrow> bool" where
  "conn_prepared l X W cid c \<longleftrightarrow>
     outbound_ok (c_out c) \<and> queue_in_order (c_out c) \<and> distinct (c_subs c)
     \<and> length (c_subs c) \<le> max_subscriptions_per_connection l
     \<and> (cid \<in> X \<or> outbound_within l (c_out c) \<and> (c_armed c \<longrightarrow> cid \<in> W))"

lemma conn_local_prepared: "conn_local l X W cid c \<Longrightarrow> conn_prepared l X W cid c"
  by (auto simp: conn_local_def conn_prepared_def)

text \<open>A push through \<open>pushed_or_closed\<close> leaves a connection that is fine, or on the list to close.\<close>

lemma pushed_or_closed_prepared:
  assumes "conn_prepared l (closing fx) (W \<union> set (fx_wakes fx)) cid c"
    and "push_good l (c_out c) it (q', r)" and "newest_of_its_stream (c_out c) it"
    and "pushed_or_closed cid c (q', r) fx = (c', fx')"
  shows "conn_local l (closing fx') (W \<union> set (fx_wakes fx')) cid c' \<and> fx_le fx fx' \<and> c_out c' = q'
    \<and> c_subs c' = c_subs c \<and> c_principal c' = c_principal c \<and> c_chain c' = c_chain c"
proof -
  have ok: "outbound_ok q'" "queue_in_order q'" "outbound_within l (c_out c) \<Longrightarrow> r = Pushed \<Longrightarrow> outbound_within l q'"
    using assms(1-3) push_good_order [OF assms(2)] by (auto simp: push_good_def conn_prepared_def)
  show ?thesis
  proof (cases r)
    case SlowConsumer
    with assms(1,4) ok show ?thesis by (auto simp: pushed_or_closed_def conn_local_def conn_prepared_def)
  next
    case Pushed
    with assms(4) have "conn_arm cid (c\<lparr>c_out := q'\<rparr>, fx) = (c', fx')" by (simp add: pushed_or_closed_def)
    with assms(1) ok Pushed show ?thesis
      by (auto simp: conn_arm_def conn_local_def conn_prepared_def effects_wake_def fx_le_def Let_def split: if_splits)
  qed
qed

lemmas pushed_or_closed_local = pushed_or_closed_prepared [OF conn_local_prepared]


section \<open>Accounts\<close>

lemma acct_core_conn:
  assumes "acct_core l X W a" and "map_of (a_conns a) cid = Some c"
  shows "conn_local l X W cid c" "conn_links (a_streams a) (a_online a) cid c"
  using assms by (simp_all add: acct_core_def)

lemma acct_core_stream: "acct_core l X W a \<Longrightarrow> map_of (a_streams a) key = Some s \<Longrightarrow> stream_sound l (a_conns a) key s"
  by (simp add: acct_core_def)

lemma acct_core_mono: "acct_core l X W a \<Longrightarrow> X \<subseteq> X' \<Longrightarrow> W \<subseteq> W' \<Longrightarrow> acct_core l X' W' a"
  unfolding acct_core_def by (meson conn_local_mono)

lemma acct_sound_mono: "acct_sound l X W a \<Longrightarrow> X \<subseteq> X' \<Longrightarrow> W \<subseteq> W' \<Longrightarrow> acct_sound l X' W' a"
  by (auto simp: acct_sound_def intro: acct_core_mono)

lemma acct_core_rate: "acct_core l X W a \<Longrightarrow> bucket_ok (account_burst_bytes l) b \<Longrightarrow> acct_core l X W (a\<lparr>a_rate := b\<rparr>)"
  by (simp add: acct_core_def)

lemma acct_sound_rate: "acct_sound l X W a \<Longrightarrow> bucket_ok (account_burst_bytes l) b \<Longrightarrow> acct_sound l X W (a\<lparr>a_rate := b\<rparr>)"
  by (simp add: acct_sound_def acct_core_rate)

lemma acct_sound_bucket: "acct_sound l X W a \<Longrightarrow> bucket_ok (account_burst_bytes l) (a_rate a)"
  by (simp add: acct_sound_def acct_core_def)

text \<open>Replacing a connection by one with the same identity and subscriptions.\<close>

lemma acct_core_put_conn:
  assumes core: "acct_core l X W a" and c: "map_of (a_conns a) cid = Some c"
    and same: "c_principal c' = c_principal c" "c_subs c' = c_subs c"
    and local: "conn_local l X' W' cid c'" and mono: "X \<subseteq> X'" "W \<subseteq> W'"
    and items: "\<And>it. it \<in> set (o_items (c_out c')) \<Longrightarrow> item_link (a_streams a) (c_subs c) it"
  shows "acct_core l X' W' (put_conn cid c' a)"
proof -
  have core': "acct_core l X' W' a" using core mono by (rule acct_core_mono)
  have "conn_links (a_streams a) (a_online a) cid c'"
    using acct_core_conn(2) [OF core c] items same by (simp add: conn_links_def)
  moreover have "stream_sound l (AList.update cid c' (a_conns a)) key s"
    if "map_of (a_streams a) key = Some s" for key s
    using acct_core_stream [OF core that] c same(2) unfolding stream_sound_def by (auto simp: update_conv')
  moreover have "\<exists>c''. map_of (AList.update cid c' (a_conns a)) i = Some c'' \<and> c_principal c'' = p"
    if "map_of (a_online a) p = Some (i, r)" for p i r
  proof -
    from core that obtain c0 where "map_of (a_conns a) i = Some c0" "c_principal c0 = p"
      unfolding acct_core_def by blast
    with c same(1) show ?thesis by (auto simp: update_conv')
  qed
  ultimately show ?thesis
    using core' c local unfolding acct_core_def put_conn_def
    by (simp add: distinct_update length_update update_conv')
qed

lemma acct_sound_put_conn:
  assumes "acct_sound l X W a" and "map_of (a_conns a) cid = Some c"
    and "c_principal c' = c_principal c" "c_subs c' = c_subs c"
    and "conn_local l X' W' cid c'" and "X \<subseteq> X'" "W \<subseteq> W'"
    and "\<And>it. it \<in> set (o_items (c_out c')) \<Longrightarrow> item_link (a_streams a) (c_subs c) it"
  shows "acct_sound l X' W' (put_conn cid c' a)"
  using acct_core_put_conn [of l X W a cid c c' X' W'] assms
  by (simp add: acct_sound_def) (simp add: put_conn_def)

lemma item_link_frame [simp]: "item_link streams subs (frame_item pe f)"
  by (simp add: item_link_def frame_item_def)

text \<open>Pushing a frame to one connection of an account.\<close>

lemma acct_sound_push_frame:
  assumes sound: "acct_sound l (closing fx) (W \<union> set (fx_wakes fx)) a" and c: "map_of (a_conns a) cid = Some c"
    and c1: "c_principal c1 = c_principal c" "c_subs c1 = c_subs c" "c_out c1 = c_out c" "c_armed c1 = c_armed c"
    and push: "pushed_or_closed cid c1 (push_frame pe l f (c_out c)) fx = (c', fx')"
  shows "acct_sound l (closing fx') (W \<union> set (fx_wakes fx')) (put_conn cid c' a) \<and> fx_le fx fx'"
proof -
  have core: "acct_core l (closing fx) (W \<union> set (fx_wakes fx)) a" using sound by (simp add: acct_sound_def)
  have local: "conn_local l (closing fx) (W \<union> set (fx_wakes fx)) cid c1"
    using acct_core_conn(1) [OF core c] c1 by (simp add: conn_local_def)
  obtain q' r where qr: "push_frame pe l f (c_out c) = (q', r)" by fastforce
  have good: "push_good l (c_out c1) (frame_item pe f) (q', r)"
    using push_frame_good [of "c_out c1" l pe f] local qr c1(3) by (simp add: conn_local_def)
  have "pushed_or_closed cid c1 (q', r) fx = (c', fx')" using push qr by (simp only:)
  note P = pushed_or_closed_local [OF local good frame_item_newest this]
  have "item_link (a_streams a) (c_subs c) it" if "it \<in> set (o_items (c_out c'))" for it
    using that push_good_items [OF good] P c1(3) acct_core_conn(2) [OF core c] by (auto simp: conn_links_def)
  moreover have "closing fx \<subseteq> closing fx'" "W \<union> set (fx_wakes fx) \<subseteq> W \<union> set (fx_wakes fx')"
    using P by (auto simp: fx_le_def)
  ultimately have "acct_sound l (closing fx') (W \<union> set (fx_wakes fx')) (put_conn cid c' a)"
    using P c1 by (intro acct_sound_put_conn [OF sound c]) simp_all
  with P show ?thesis by blast
qed

section \<open>The hub\<close>

lemma hub_mid_account:
  assumes "hub_mid W (h, fx)" and "map_of (hub_accounts h) aid = Some a"
  shows "acct_sound (hub_limits h) (closing fx) (W \<union> set (fx_wakes fx)) a"
    "a_conns a \<noteq> [] \<or> a_streams a \<noteq> []"
    "map_of (a_conns a) cid \<noteq> None \<Longrightarrow> map_of (hub_conn_account h) cid = Some aid"
  using assms by (auto simp: hub_mid_def)

lemma hub_mid_conn:
  assumes "hub_mid W (h, fx)" and "map_of (hub_conn_account h) cid = Some aid"
  obtains a c where "map_of (hub_accounts h) aid = Some a" "map_of (a_conns a) cid = Some c"
proof -
  from assms have "\<exists>a. map_of (hub_accounts h) aid = Some a \<and> map_of (a_conns a) cid \<noteq> None"
    unfolding hub_mid_def by simp
  with that show ?thesis by auto
qed

text \<open>The general step: one account is replaced by a sound one with the same connections.\<close>

lemma hub_midI:
  assumes "keys_distinct (hub_accounts h)" and "length (hub_accounts h) \<le> max_accounts (hub_limits h)"
    and "keys_distinct (hub_conn_account h)"
    and "\<And>aid a. map_of (hub_accounts h) aid = Some a \<Longrightarrow>
      acct_sound (hub_limits h) (closing fx) (W \<union> set (fx_wakes fx)) a \<and> (a_conns a \<noteq> [] \<or> a_streams a \<noteq> [])"
    and "\<And>aid a cid. map_of (hub_accounts h) aid = Some a \<Longrightarrow> map_of (a_conns a) cid \<noteq> None \<Longrightarrow>
      map_of (hub_conn_account h) cid = Some aid"
    and "\<And>cid aid. map_of (hub_conn_account h) cid = Some aid \<Longrightarrow>
      cid < hub_next_conn h \<and> (\<exists>a. map_of (hub_accounts h) aid = Some a \<and> map_of (a_conns a) cid \<noteq> None)"
  shows "hub_mid W (h, fx)"
  using assms by (simp add: hub_mid_def)

lemma hub_mid_structure:
  assumes "hub_mid W (h, fx)"
  shows "keys_distinct (hub_accounts h)" "length (hub_accounts h) \<le> max_accounts (hub_limits h)"
    "keys_distinct (hub_conn_account h)" "map_of (hub_conn_account h) cid = Some aid \<Longrightarrow> cid < hub_next_conn h"
  using assms by (simp_all add: hub_mid_def)

lemma hub_mid_fx: "hub_mid W (h, fx) \<Longrightarrow> fx_le fx fx' \<Longrightarrow> hub_mid W (h, fx')"
proof -
  assume mid: "hub_mid W (h, fx)" and le: "fx_le fx fx'"
  have "acct_sound (hub_limits h) (closing fx') (W \<union> set (fx_wakes fx')) a"
    if "map_of (hub_accounts h) aid = Some a" for aid a
    using hub_mid_account(1) [OF mid that] le unfolding fx_le_def by (meson acct_sound_mono Un_mono order_refl)
  with mid show ?thesis by (simp add: hub_mid_def)
qed

lemma hub_mid_put_account:
  assumes mid: "hub_mid W (h, fx)" and a: "map_of (hub_accounts h) aid = Some a"
    and sound: "acct_sound (hub_limits h) (closing fx') (W \<union> set (fx_wakes fx')) a'" and le: "fx_le fx fx'"
    and conns: "\<And>cid. map_of (a_conns a') cid = None \<longleftrightarrow> map_of (a_conns a) cid = None"
    and kept: "a_conns a' \<noteq> [] \<or> a_streams a' \<noteq> []"
  shows "hub_mid W (put_account aid a' h, fx')"
proof -
  note mid' = hub_mid_fx [OF mid le]
  show ?thesis
  proof (rule hub_midI)
    fix bid b assume b: "map_of (hub_accounts (put_account aid a' h)) bid = Some b"
    with hub_mid_account [OF mid'] sound kept
    show "acct_sound (hub_limits (put_account aid a' h)) (closing fx') (W \<union> set (fx_wakes fx')) b
        \<and> (a_conns b \<noteq> [] \<or> a_streams b \<noteq> [])"
      by (auto simp: put_account_def update_conv' split: if_splits)
    fix cid assume "map_of (a_conns b) cid \<noteq> None"
    with b conns [of cid] hub_mid_account(3) [OF mid a, of cid] hub_mid_account(3) [OF mid, of bid b cid]
    show "map_of (hub_conn_account (put_account aid a' h)) cid = Some bid"
      by (auto simp: put_account_def update_conv' split: if_splits)
  next
    fix cid bid assume bid: "map_of (hub_conn_account (put_account aid a' h)) cid = Some bid"
    then have "map_of (hub_conn_account h) cid = Some bid" by (simp add: put_account_def)
    with hub_mid_conn [OF mid] obtain b c where "map_of (hub_accounts h) bid = Some b" "map_of (a_conns b) cid = Some c"
      by blast
    then show "cid < hub_next_conn (put_account aid a' h)
        \<and> (\<exists>b. map_of (hub_accounts (put_account aid a' h)) bid = Some b \<and> map_of (a_conns b) cid \<noteq> None)"
      using conns [of cid] a hub_mid_structure(4) [OF mid] bid
      by (cases "bid = aid") (auto simp: put_account_def update_conv')
  qed (use hub_mid_structure [OF mid] a in \<open>simp_all add: put_account_def distinct_update length_update\<close>)
qed

lemma hub_mid_push_close: "hub_mid W (h, fx) \<Longrightarrow> hub_mid W (h, fx_push_close cid f fx)"
  by (erule hub_mid_fx) simp

lemma enqueue_mid:
  assumes mid: "hub_mid W hf"
  shows "hub_mid W (enqueue pe aid conn f hf) \<and> fx_le (snd hf) (snd (enqueue pe aid conn f hf))"
proof -
  obtain h fx where hf: "hf = (h, fx)" by fastforce
  show ?thesis
  proof (cases "\<exists>a c. map_of (hub_accounts h) aid = Some a \<and> map_of (a_conns a) conn = Some c")
    case False
    then have "enqueue pe aid conn f hf = hf" by (auto simp: enqueue_def hf split: option.splits)
    with mid show ?thesis by simp
  next
    case True
    then obtain a c where a: "map_of (hub_accounts h) aid = Some a" and c: "map_of (a_conns a) conn = Some c" by blast
    obtain c' fx' where push: "pushed_or_closed conn c (push_frame pe (hub_limits h) f (c_out c)) fx = (c', fx')"
      by fastforce
    from acct_sound_push_frame [OF hub_mid_account(1) [OF mid [unfolded hf] a] c refl refl refl refl push]
    have "acct_sound (hub_limits h) (closing fx') (W \<union> set (fx_wakes fx')) (put_conn conn c' a)" "fx_le fx fx'" by auto
    moreover have "map_of (a_conns (put_conn conn c' a)) cid = None \<longleftrightarrow> map_of (a_conns a) cid = None" for cid
      using c by (auto simp: put_conn_def update_conv')
    ultimately have "hub_mid W (put_account aid (put_conn conn c' a) h, fx')"
      using hub_mid_put_account [OF mid [unfolded hf] a] by (simp add: put_conn_def update_nonempty)
    then show ?thesis using a c push \<open>fx_le fx fx'\<close> by (simp add: enqueue_def hf)
  qed
qed

lemma enqueue_all_mid:
  "hub_mid W hf \<Longrightarrow> hub_mid W (enqueue_all pe aid f others hf) \<and> fx_le (snd hf) (snd (enqueue_all pe aid f others hf))"
proof (induction others arbitrary: hf)
  case (Cons x xs)
  from enqueue_mid [OF Cons.prems, of pe aid x f] Cons.IH [of "enqueue pe aid x f hf"]
  show ?case by (auto intro: fx_le_trans)
qed simp


section \<open>Leaving\<close>

definition left_stream :: "conn_id \<Rightarrow> stream \<Rightarrow> stream option" where
  "left_stream conn s =
     (let s' = s\<lparr>s_subscribers := removeAll conn (s_subscribers s)\<rparr>
      in if s_subscribers s' = [] \<and> s_ring s' = None then None else Some s')"

lemma left_stream_SomeD:
  "left_stream conn s = Some s' \<Longrightarrow>
   s_ring s' = s_ring s \<and> s_key s' = s_key s \<and> s_subscribers s' = removeAll conn (s_subscribers s)"
  by (auto simp: left_stream_def Let_def split: if_splits)

lemma left_stream_kept:
  "cid \<in> set (s_subscribers s) \<and> cid \<noteq> conn \<or> s_ring s \<noteq> None \<Longrightarrow> \<exists>s'. left_stream conn s = Some s'"
proof -
  assume a: "cid \<in> set (s_subscribers s) \<and> cid \<noteq> conn \<or> s_ring s \<noteq> None"
  have "removeAll conn (s_subscribers s) \<noteq> []" if "cid \<in> set (s_subscribers s)" "cid \<noteq> conn"
  proof
    assume "removeAll conn (s_subscribers s) = []"
    then have "set (removeAll conn (s_subscribers s)) = {}" by simp
    with that show False by auto
  qed
  with a show ?thesis by (auto simp: left_stream_def Let_def)
qed

lemma map_of_drop_subscriber:
  "map_of (drop_subscriber conn key ss) = (map_of ss)(key := Option.bind (map_of ss key) (left_stream conn))"
  by (auto simp: drop_subscriber_def left_stream_def Let_def update_conv' delete_conv' split: option.splits)

lemma drop_subscriber_shape:
  assumes "keys_distinct ss"
  shows "keys_distinct (drop_subscriber conn key ss)" "length (drop_subscriber conn key ss) \<le> length ss"
    "ring_total (drop_subscriber conn key ss) = ring_total ss"
proof -
  show "keys_distinct (drop_subscriber conn key ss)"
    using assms by (auto simp: drop_subscriber_def Let_def distinct_update distinct_delete split: option.splits)
  show "length (drop_subscriber conn key ss) \<le> length ss"
    by (auto simp: drop_subscriber_def Let_def length_update length_delete_le split: option.splits)
  show "ring_total (drop_subscriber conn key ss) = ring_total ss"
    using sum_list_delete [OF assms, of stream_bytes key]
      sum_list_update [of stream_bytes key "(the (map_of ss key))\<lparr>s_subscribers := removeAll conn (s_subscribers (the (map_of ss key)))\<rparr>" ss]
    by (auto simp: drop_subscriber_def Let_def stream_bytes_def split: option.splits)
qed

lemma fold_drop_subscriber:
  assumes "keys_distinct ss"
  shows "keys_distinct (fold (drop_subscriber conn) ks ss) \<and> length (fold (drop_subscriber conn) ks ss) \<le> length ss
    \<and> ring_total (fold (drop_subscriber conn) ks ss) = ring_total ss"
  using assms
proof (induction ks arbitrary: ss)
  case (Cons k ks)
  from Cons.IH [OF drop_subscriber_shape(1) [OF Cons.prems]] drop_subscriber_shape [OF Cons.prems]
  show ?case by (metis fold_simps(2) order_trans)
qed simp

lemma map_of_fold_drop_subscriber:
  "distinct ks \<Longrightarrow> map_of (fold (drop_subscriber conn) ks ss) k
   = (if k \<in> set ks then Option.bind (map_of ss k) (left_stream conn) else map_of ss k)"
proof (induction ks arbitrary: ss)
  case (Cons x xs)
  then show ?case by (auto simp: map_of_drop_subscriber)
qed simp

lemma leave_account_eq:
  assumes "conn_links (a_streams a) (a_online a) conn c"
  shows "snd (leave_account conn c a) = a\<lparr>a_conns := AList.delete conn (a_conns a),
      a_online := AList.delete (c_principal c) (a_online a),
      a_streams := fold (drop_subscriber conn) (c_subs c) (a_streams a)\<rparr>"
  using assms by (auto simp: leave_account_def go_offline_def conn_links_def)

lemma item_link_left:
  assumes "item_link ss subs it" and "\<And>key s. map_of ss key = Some s \<Longrightarrow> s_ring s \<noteq> None \<Longrightarrow>
      \<exists>s'. map_of ss' key = Some s' \<and> s_ring s' = s_ring s"
  shows "item_link ss' subs it"
  using assms unfolding item_link_def by (metis option.discI)

lemma leave_account_sound:
  assumes sound: "acct_sound l X W a" and c: "map_of (a_conns a) conn = Some c"
    and X: "X \<subseteq> insert conn X'"
  shows "acct_sound l X' W (snd (leave_account conn c a))"
proof -
  have core: "acct_core l X W a" using sound by (simp add: acct_sound_def)
  note links = acct_core_conn(2) [OF core c]
  have subs: "distinct (c_subs c)" using acct_core_conn(1) [OF core c] by (simp add: conn_local_def)
  have dist: "keys_distinct (a_conns a)" "keys_distinct (a_online a)" "keys_distinct (a_streams a)"
    using core by (simp_all add: acct_core_def)
  let ?ss = "fold (drop_subscriber conn) (c_subs c) (a_streams a)"
  let ?conns = "AList.delete conn (a_conns a)" and ?online = "AList.delete (c_principal c) (a_online a)"
  have mine: "\<exists>r. map_of (a_online a) (c_principal c) = Some (conn, r)" using links by (simp add: conn_links_def)
  have kept: "\<exists>s'. map_of ?ss key = Some s' \<and> s_ring s' = s_ring s
      \<and> (cid \<in> set (s_subscribers s) \<longrightarrow> cid \<noteq> conn \<longrightarrow> cid \<in> set (s_subscribers s'))"
    if "map_of (a_streams a) key = Some s" "cid \<in> set (s_subscribers s) \<and> cid \<noteq> conn \<or> s_ring s \<noteq> None" for key s cid
  proof -
    from left_stream_kept [OF that(2)] obtain s' where s': "left_stream conn s = Some s'" ..
    from left_stream_SomeD [OF s'] s' that(1) show ?thesis
      by (auto simp: map_of_fold_drop_subscriber [OF subs])
  qed
  have conns: "conn_local l X' W cid c0 \<and> conn_links ?ss ?online cid c0"
    if "map_of ?conns cid = Some c0" for cid c0
  proof -
    from that have ne: "cid \<noteq> conn" and c0: "map_of (a_conns a) cid = Some c0"
      by (auto simp: delete_conv' split: if_splits)
    note L = acct_core_conn [OF core c0]
    have "conn_local l X' W cid c0" using L(1) ne X by (auto simp: conn_local_def)
    moreover have "c_principal c0 \<noteq> c_principal c"
      using L(2) mine ne by (auto simp: conn_links_def)
    then have "\<exists>r. map_of ?online (c_principal c0) = Some (cid, r)"
      using L(2) by (auto simp: conn_links_def delete_conv')
    moreover have "\<exists>s'. map_of ?ss key = Some s' \<and> cid \<in> set (s_subscribers s')" if key: "key \<in> set (c_subs c0)" for key
    proof -
      from L(2) key obtain s where "map_of (a_streams a) key = Some s" "cid \<in> set (s_subscribers s)"
        by (auto simp: conn_links_def)
      with kept [of key s cid] ne show ?thesis by auto
    qed
    moreover have "item_link ?ss (c_subs c0) it" if "it \<in> set (o_items (c_out c0))" for it
    proof (rule item_link_left)
      show "item_link (a_streams a) (c_subs c0) it" using L(2) that by (simp add: conn_links_def)
      show "\<exists>s'. map_of ?ss key = Some s' \<and> s_ring s' = s_ring s"
        if "map_of (a_streams a) key = Some s" "s_ring s \<noteq> None" for key s
        using kept [OF that(1)] that(2) by blast
    qed
    ultimately show ?thesis by (simp add: conn_links_def)
  qed
  have online: "\<exists>c0. map_of ?conns cid = Some c0 \<and> c_principal c0 = p"
    if "map_of ?online p = Some (cid, r)" for p cid r
  proof -
    from that have p: "p \<noteq> c_principal c" "map_of (a_online a) p = Some (cid, r)"
      by (auto simp: delete_conv' split: if_splits)
    with core obtain c0 where "map_of (a_conns a) cid = Some c0" "c_principal c0 = p" unfolding acct_core_def by blast
    with p c show ?thesis by (auto simp: delete_conv')
  qed
  have streams: "stream_sound l ?conns key s'" if "map_of ?ss key = Some s'" for key s'
  proof (cases "key \<in> set (c_subs c)")
    case True
    with that obtain s where s: "map_of (a_streams a) key = Some s" "left_stream conn s = Some s'"
      by (auto simp: map_of_fold_drop_subscriber [OF subs] bind_eq_Some_conv)
    from acct_core_stream [OF core s(1)] left_stream_SomeD [OF s(2)] show ?thesis
      by (auto simp: stream_sound_def delete_conv' distinct_removeAll)
  next
    case False
    with that have s: "map_of (a_streams a) key = Some s'" by (simp add: map_of_fold_drop_subscriber [OF subs])
    from acct_core_stream [OF core s] False c show ?thesis
      by (auto simp: stream_sound_def delete_conv')
  qed
  have "acct_core l X' W (snd (leave_account conn c a))"
    unfolding leave_account_eq [OF links]
    using core fold_drop_subscriber [OF dist(3), of conn "c_subs c"] dist conns online streams mine c
    by (auto simp: acct_core_def distinct_delete length_delete)
  with sound show ?thesis by (simp add: acct_sound_def leave_account_eq [OF links])
qed


section \<open>Forgetting a connection, and finishing a call\<close>

text \<open>A connection an account does not hold can leave the list to close.\<close>

lemma acct_sound_unexempt:
  assumes "acct_sound l X W a" and "map_of (a_conns a) conn = None" and "X \<subseteq> insert conn X'"
  shows "acct_sound l X' W a"
proof -
  have "conn_local l X' W cid c" if "map_of (a_conns a) cid = Some c" for cid c
  proof -
    have "conn_local l X W cid c" using assms(1) that unfolding acct_sound_def by (blast intro: acct_core_conn)
    with that assms(2,3) show ?thesis by (auto simp: conn_local_def)
  qed
  with assms(1) show ?thesis by (simp add: acct_sound_def acct_core_def)
qed

lemma hub_mid_elsewhere:
  assumes "hub_mid W (h, fx)" and "map_of (hub_accounts h) bid = Some b"
    and "map_of (hub_conn_account h) conn \<noteq> Some bid"
  shows "map_of (a_conns b) conn = None"
  using hub_mid_account(3) [OF assms(1,2), of conn] assms(3) by blast

lemma hub_mid_unexempt:
  assumes mid: "hub_mid W (h, fx)" and gone: "map_of (hub_conn_account h) conn = None"
    and le: "closing fx \<subseteq> insert conn (closing fx')" "fx_wakes fx' = fx_wakes fx"
  shows "hub_mid W (h, fx')"
proof -
  have "acct_sound (hub_limits h) (closing fx') (W \<union> set (fx_wakes fx')) a"
    if a: "map_of (hub_accounts h) aid = Some a" for aid a
    using acct_sound_unexempt [OF hub_mid_account(1) [OF mid a] _ le(1)] hub_mid_elsewhere [OF mid a] gone le(2) by simp
  with mid show ?thesis by (simp add: hub_mid_def)
qed

text \<open>The state between the removal of a connection and the presence that announces it.\<close>

definition without_conn :: "conn_id \<Rightarrow> account_id \<Rightarrow> account \<Rightarrow> hub \<Rightarrow> hub" where
  "without_conn conn aid a' h =
     (let h1 = h\<lparr>hub_conn_account := AList.delete conn (hub_conn_account h)\<rparr>
      in if a_conns a' = [] \<and> a_streams a' = [] then h1\<lparr>hub_accounts := AList.delete aid (hub_accounts h1)\<rparr>
         else put_account aid a' h1)"

lemma without_conn_simps:
  "hub_limits (without_conn conn aid a' h) = hub_limits h"
  "hub_next_conn (without_conn conn aid a' h) = hub_next_conn h"
  "hub_conn_account (without_conn conn aid a' h) = AList.delete conn (hub_conn_account h)"
  "map_of (hub_accounts (without_conn conn aid a' h)) bid =
     (if bid = aid then (if a_conns a' = [] \<and> a_streams a' = [] then None else Some a')
      else map_of (hub_accounts h) bid)"
  by (auto simp: without_conn_def put_account_def Let_def update_conv' delete_conv')

lemma forget_eq:
  assumes "map_of (hub_conn_account h) conn = Some aid" and "map_of (hub_accounts h) aid = Some a"
    and "map_of (a_conns a) conn = Some c"
  shows "\<exists>gone. forget pe conn (h, fx) = enqueue_all pe aid gone (keys (a_conns (snd (leave_account conn c a))))
    (without_conn conn aid (snd (leave_account conn c a)) h, fx)"
  using assms by (auto simp: forget_def without_conn_def Let_def split: prod.split)

lemma without_conn_mid:
  assumes mid: "hub_mid W (h, fx)" and conn: "map_of (hub_conn_account h) conn = Some aid"
    and a: "map_of (hub_accounts h) aid = Some a" and c: "map_of (a_conns a) conn = Some c"
    and le: "closing fx \<subseteq> insert conn (closing fx')" "fx_wakes fx' = fx_wakes fx"
  shows "hub_mid W (without_conn conn aid (snd (leave_account conn c a)) h, fx')"
proof -
  let ?a = "snd (leave_account conn c a)" and ?h = "without_conn conn aid (snd (leave_account conn c a)) h"
  note sound = hub_mid_account(1) [OF mid a]
  have links: "conn_links (a_streams a) (a_online a) conn c"
    using sound c unfolding acct_sound_def by (blast intro: acct_core_conn)
  have conns: "a_conns ?a = AList.delete conn (a_conns a)" by (simp add: leave_account_eq [OF links])
  have sound': "acct_sound (hub_limits h) (closing fx') (W \<union> set (fx_wakes fx')) ?a"
    using leave_account_sound [OF sound c le(1)] le(2) by simp
  show ?thesis
  proof (rule hub_midI)
    show "keys_distinct (hub_accounts ?h)" "length (hub_accounts ?h) \<le> max_accounts (hub_limits ?h)"
      using hub_mid_structure(1,2) [OF mid] a length_delete_le [of aid "hub_accounts h"]
      by (auto simp: without_conn_def put_account_def Let_def distinct_update distinct_delete length_update)
    show "keys_distinct (hub_conn_account ?h)"
      using hub_mid_structure(3) [OF mid] by (simp add: without_conn_simps distinct_delete)
  next
    fix bid b assume b: "map_of (hub_accounts ?h) bid = Some b"
    show "acct_sound (hub_limits ?h) (closing fx') (W \<union> set (fx_wakes fx')) b \<and> (a_conns b \<noteq> [] \<or> a_streams b \<noteq> [])"
    proof (cases "bid = aid")
      case True
      with b sound' show ?thesis by (auto simp: without_conn_simps split: if_splits)
    next
      case False
      with b have b': "map_of (hub_accounts h) bid = Some b" by (simp add: without_conn_simps)
      have "map_of (a_conns b) conn = None" using hub_mid_elsewhere [OF mid b'] conn False by simp
      from acct_sound_unexempt [OF hub_mid_account(1) [OF mid b'] this le(1)] le(2) hub_mid_account(2) [OF mid b']
      show ?thesis by (simp add: without_conn_simps)
    qed
    fix cid assume cid: "map_of (a_conns b) cid \<noteq> None"
    show "map_of (hub_conn_account ?h) cid = Some bid"
    proof (cases "bid = aid")
      case True
      with b cid conns hub_mid_account(3) [OF mid a, of cid] show ?thesis
        by (auto simp: without_conn_simps delete_conv' split: if_splits)
    next
      case False
      with b have b': "map_of (hub_accounts h) bid = Some b" by (simp add: without_conn_simps)
      from hub_mid_account(3) [OF mid b' cid] conn False show ?thesis
        by (auto simp: without_conn_simps delete_conv')
    qed
  next
    fix cid bid assume "map_of (hub_conn_account ?h) cid = Some bid"
    then have cid: "cid \<noteq> conn" "map_of (hub_conn_account h) cid = Some bid"
      by (auto simp: without_conn_simps delete_conv' split: if_splits)
    from hub_mid_conn [OF mid cid(2)] obtain b c0 where b: "map_of (hub_accounts h) bid = Some b"
      "map_of (a_conns b) cid = Some c0" by blast
    have "\<exists>b. map_of (hub_accounts ?h) bid = Some b \<and> map_of (a_conns b) cid \<noteq> None"
    proof (cases "bid = aid")
      case True
      with a b cid(1) have "map_of (a_conns ?a) cid = Some c0" unfolding conns by (simp add: delete_conv')
      moreover from this have "a_conns ?a \<noteq> []" by auto
      ultimately show ?thesis using True by (auto simp: without_conn_simps)
    next
      case False
      with b show ?thesis by (auto simp: without_conn_simps)
    qed
    with hub_mid_structure(4) [OF mid cid(2)] show "cid < hub_next_conn ?h
        \<and> (\<exists>b. map_of (hub_accounts ?h) bid = Some b \<and> map_of (a_conns b) cid \<noteq> None)"
      by (simp add: without_conn_simps)
  qed
qed

lemma forget_mid:
  assumes mid: "hub_mid W (h, fx)" and le: "closing fx \<subseteq> insert conn (closing fx')" "fx_wakes fx' = fx_wakes fx"
  shows "hub_mid W (forget pe conn (h, fx')) \<and> fx_le fx' (snd (forget pe conn (h, fx')))"
proof (cases "map_of (hub_conn_account h) conn")
  case None
  then show ?thesis using hub_mid_unexempt [OF mid None le] by (simp add: forget_def)
next
  case (Some aid)
  from hub_mid_conn [OF mid Some] obtain a c where a: "map_of (hub_accounts h) aid = Some a"
    and c: "map_of (a_conns a) conn = Some c" by blast
  from forget_eq [OF Some a c] without_conn_mid [OF mid Some a c le] show ?thesis
    using enqueue_all_mid by (metis snd_conv)
qed

text \<open>Every close is applied: the loop ends with nothing left to close and everyone closed forgotten.\<close>

lemma finish_loop_mid:
  assumes "hub_mid W hf" and "\<forall>c \<in> fst ` set closed. map_of (hub_conn_account (fst hf)) c = None"
    and "finish_loop pe closed hf = (closed', hf')"
  shows "hub_mid W hf' \<and> fx_close (snd hf') = []
    \<and> (\<forall>c \<in> fst ` set closed'. map_of (hub_conn_account (fst hf')) c = None)"
  using assms
proof (induction pe closed hf rule: finish_loop.induct)
  case (1 pe closed hf)
  obtain h fx where hf: "hf = (h, fx)" by fastforce
  show ?case
  proof (cases "fx_close fx = []")
    case True
    with "1.prems"(3) have "closed' = closed" "hf' = (h, fx)"
      by (simp_all add: hf finish_loop.simps [of pe closed "(h, fx)"])
    with "1.prems" True show ?thesis by (simp add: hf)
  next
    case False
    obtain conn f where cf: "last (fx_close fx) = (conn, f)" by fastforce
    let ?fx = "fx\<lparr>fx_close := butlast (fx_close fx)\<rparr>"
    have split: "fx_close fx = butlast (fx_close fx) @ [(conn, f)]"
      using append_butlast_last_id [OF False] cf by simp
    then have "set (fx_close fx) = set (butlast (fx_close fx) @ [(conn, f)])" by (rule arg_cong)
    then have le: "closing fx \<subseteq> insert conn (closing ?fx)" by simp
    show ?thesis
    proof (cases "conn \<in> set (map fst closed) \<or> map_of (hub_conn_account h) conn = None")
      case True
      then have "map_of (hub_conn_account h) conn = None" using "1.prems"(2) by (auto simp: hf)
      from hub_mid_unexempt [OF "1.prems"(1) [unfolded hf] this le] have "hub_mid W (h, ?fx)" by simp
      moreover have "finish_loop pe closed (h, ?fx) = (closed', hf')"
        using "1.prems"(3) True False cf by (simp add: hf finish_loop.simps [of pe closed "(h, fx)"])
      ultimately show ?thesis using "1.IH"(1) "1.prems"(2) False cf True by (simp add: hf)
    next
      case skip: False
      have "hub_mid W (forget pe conn (h, ?fx))"
        using forget_mid [OF "1.prems"(1) [unfolded hf] le] by simp
      moreover have "finish_loop pe (closed @ [(conn, f)]) (forget pe conn (h, ?fx)) = (closed', hf')"
        using "1.prems"(3) skip False cf by (auto simp: hf finish_loop.simps [of pe closed "(h, fx)"] Let_def)
      moreover have "\<forall>c \<in> fst ` set (closed @ [(conn, f)]). map_of (hub_conn_account (fst (forget pe conn (h, ?fx)))) c = None"
        using "1.prems"(2) by (auto simp: forget_conn_account delete_conv' hf)
      ultimately show ?thesis using "1.IH"(2) False cf skip by (simp add: hf)
    qed
  qed
qed


definition after_actions :: "action list \<Rightarrow> conn_id set \<Rightarrow> conn_id set" where
  "after_actions acts W = (W \<union> {c. Wake c \<in> set acts}) - {c. \<exists>f. Close c f \<in> set acts}"

lemma acct_sound_woken:
  assumes "acct_sound l X W a" and "\<And>cid. map_of (a_conns a) cid \<noteq> None \<Longrightarrow> cid \<in> W \<Longrightarrow> cid \<in> W'"
  shows "acct_sound l X W' a"
proof -
  have "conn_local l X W' cid c" if "map_of (a_conns a) cid = Some c" for cid c
  proof -
    have "conn_local l X W cid c" using assms(1) that unfolding acct_sound_def by (blast intro: acct_core_conn)
    with assms(2) [of cid] that show ?thesis by (auto simp: conn_local_def)
  qed
  with assms(1) show ?thesis by (simp add: acct_sound_def acct_core_def)
qed

lemma hub_mid_woken:
  assumes mid: "hub_mid W (h, fx)" and fx: "closing fx \<subseteq> closing fx'"
    and woken: "\<And>cid. map_of (hub_conn_account h) cid \<noteq> None \<Longrightarrow> cid \<in> W \<union> set (fx_wakes fx) \<Longrightarrow>
      cid \<in> W' \<union> set (fx_wakes fx')"
  shows "hub_mid W' (h, fx')"
proof -
  have "acct_sound (hub_limits h) (closing fx') (W' \<union> set (fx_wakes fx')) a"
    if a: "map_of (hub_accounts h) aid = Some a" for aid a
  proof -
    have "cid \<in> W' \<union> set (fx_wakes fx')"
      if "map_of (a_conns a) cid \<noteq> None" "cid \<in> W \<union> set (fx_wakes fx)" for cid
      using woken [OF _ that(2)] hub_mid_account(3) [OF mid a that(1)] by simp
    from acct_sound_woken [OF hub_mid_account(1) [OF mid a] this] fx show ?thesis
      by (meson acct_sound_mono order_refl)
  qed
  with mid show ?thesis by (simp add: hub_mid_def)
qed

lemma finish_inv:
  assumes "hub_mid W hf" and "finish pe hf = (h', acts)"
  shows "hub_inv (after_actions acts W) h' \<and> (\<forall>c f. Close c f \<in> set acts \<longrightarrow> map_of (hub_conn_account h') c = None)"
proof -
  obtain closed h fx where loop: "finish_loop pe [] hf = (closed, h, fx)" by (metis prod_cases3)
  from finish_loop_mid [OF assms(1) _ loop]
  have mid: "hub_mid W (h, fx)" and fx: "fx_close fx = []"
    and closed: "\<And>c. c \<in> fst ` set closed \<Longrightarrow> map_of (hub_conn_account h) c = None" by auto
  have h': "h' = h" and acts: "acts = map Wake (filter (\<lambda>c. c \<notin> set (map fst closed)) (fx_wakes fx))
      @ map (\<lambda>(conn, f). Close conn f) closed"
    using assms(2) loop by (simp_all add: finish_def)
  have "after_actions acts W = (W \<union> set (fx_wakes fx)) - fst ` set closed"
    unfolding after_actions_def acts by force
  moreover have "hub_mid ((W \<union> set (fx_wakes fx)) - fst ` set closed) (h, effects_default)"
  proof (rule hub_mid_woken [OF mid])
    fix cid assume known: "map_of (hub_conn_account h) cid \<noteq> None" and cid: "cid \<in> W \<union> set (fx_wakes fx)"
    have "cid \<notin> fst ` set closed" using known by (rule contrapos_nn) (rule closed)
    with cid show "cid \<in> (W \<union> set (fx_wakes fx)) - fst ` set closed \<union> set (fx_wakes effects_default)" by blast
  qed (simp add: fx)
  moreover have "\<forall>c f. Close c f \<in> set acts \<longrightarrow> map_of (hub_conn_account h') c = None"
    unfolding acts h' using closed by force
  ultimately show ?thesis by (simp add: hub_inv_def h')
qed

section \<open>Streams of an account\<close>

lemma acct_core_streams:
  assumes core: "acct_core l X W a"
    and ss: "keys_distinct ss" "length ss \<le> max_streams_per_account l" "ring_total ss = n"
    and kept: "\<And>key s. map_of (a_streams a) key = Some s \<Longrightarrow> s_subscribers s \<noteq> [] \<Longrightarrow>
      \<exists>s'. map_of ss key = Some s' \<and> set (s_subscribers s) \<subseteq> set (s_subscribers s')
         \<and> (\<forall>r. s_ring s = Some r \<longrightarrow> (\<exists>r'. s_ring s' = Some r' \<and> r_epoch r' = r_epoch r \<and> r_seq r \<le> r_seq r'))"
    and sound: "\<And>key s. map_of ss key = Some s \<Longrightarrow> stream_sound l (a_conns a) key s"
  shows "acct_core l X W (a\<lparr>a_streams := ss, a_ring_bytes := n\<rparr>)"
proof -
  have "conn_links ss (a_online a) cid c" if c: "map_of (a_conns a) cid = Some c" for cid c
  proof -
    note L = acct_core_conn(2) [OF core c]
    have sub: "\<exists>s s'. map_of (a_streams a) key = Some s \<and> map_of ss key = Some s' \<and> cid \<in> set (s_subscribers s')
        \<and> (\<forall>r. s_ring s = Some r \<longrightarrow> (\<exists>r'. s_ring s' = Some r' \<and> r_epoch r' = r_epoch r \<and> r_seq r \<le> r_seq r'))"
      if "key \<in> set (c_subs c)" for key
    proof -
      from L that obtain s where s: "map_of (a_streams a) key = Some s" "cid \<in> set (s_subscribers s)"
        by (auto simp: conn_links_def)
      then have "s_subscribers s \<noteq> []" by auto
      from kept [OF s(1) this] s show ?thesis by blast
    qed
    have "item_link ss (c_subs c) it" if it: "it \<in> set (o_items (c_out c))" for it
      unfolding item_link_def
    proof (intro allI impI)
      fix key assume key: "it_stream it = Some key"
      from L it have "item_link (a_streams a) (c_subs c) it" by (simp add: conn_links_def)
      with key obtain s r where s: "key \<in> set (c_subs c)" "map_of (a_streams a) key = Some s" "s_ring s = Some r"
        "it_epoch it = r_epoch r" "it_seq it \<le> r_seq r" by (auto simp: item_link_def)
      from sub [OF s(1)] s obtain s' r' where "map_of ss key = Some s'" "s_ring s' = Some r'" "r_epoch r' = r_epoch r"
        "r_seq r \<le> r_seq r'" by auto
      with s show "key \<in> set (c_subs c) \<and> (\<exists>s r. map_of ss key = Some s \<and> s_ring s = Some r \<and> it_epoch it = r_epoch r
          \<and> it_seq it \<le> r_seq r)" by (metis order_trans)
    qed
    moreover have "\<forall>key \<in> set (c_subs c). \<exists>s. map_of ss key = Some s \<and> cid \<in> set (s_subscribers s)"
      using sub by blast
    ultimately show ?thesis using L by (simp add: conn_links_def)
  qed
  with core ss sound show ?thesis by (simp add: acct_core_def)
qed


lemma min_by_key_SomeD: "min_by_key f xs = Some x \<Longrightarrow> x \<in> set xs"
  by (induction xs arbitrary: x) (auto split: option.splits if_splits)

lemma min_by_key_None: "min_by_key f xs = None \<Longrightarrow> xs = []"
  by (cases xs) (auto split: option.splits if_splits)

lemma min_by_key_least: "min_by_key f xs = Some x \<Longrightarrow> y \<in> set xs \<Longrightarrow> f x \<le> f y"
proof (induction xs arbitrary: x)
  case (Cons z zs)
  show ?case
  proof (cases "min_by_key f zs")
    case None
    with Cons.prems min_by_key_None [OF None] show ?thesis by simp
  next
    case (Some w)
    with Cons.IH [OF Some] Cons.prems show ?thesis by (auto split: if_splits)
  qed
qed simp

lemma stream_sound_fresh [simp]: "stream_sound l conns key \<lparr>s_key = key, s_ring = None, s_subscribers = []\<rparr>"
  by (simp add: stream_sound_def)

lemma ensure_stream_in_sound:
  assumes sound: "acct_sound l X W a" and ens: "ensure_stream_in (max_streams_per_account l) key a = (ok, a')"
  shows "acct_sound l X W a' \<and> a_conns a' = a_conns a \<and> (ok \<longrightarrow> map_of (a_streams a') key \<noteq> None)
    \<and> (\<not> ok \<longrightarrow> a' = a)"
proof -
  let ?fresh = "\<lparr>s_key = key, s_ring = None, s_subscribers = []\<rparr>"
  have core: "acct_core l X W a" and budget: "a_ring_bytes a \<le> account_ring_bytes l"
    using sound by (simp_all add: acct_sound_def)
  have dist: "keys_distinct (a_streams a)" and len: "length (a_streams a) \<le> max_streams_per_account l"
    and total: "ring_total (a_streams a) = a_ring_bytes a" using core by (simp_all add: acct_core_def)
  have zero: "stream_bytes ?fresh = 0" by (simp add: stream_bytes_def)
  show ?thesis
  proof (cases "map_of (a_streams a) key \<noteq> None")
    case True
    with ens sound show ?thesis by (auto simp: ensure_stream_in_def)
  next
    case new: False
    then have none: "map_of (a_streams a) key = None" by simp
    show ?thesis
    proof (cases "length (a_streams a) \<ge> max_streams_per_account l")
      case False
      let ?ss = "AList.update key ?fresh (a_streams a)"
      have "ring_total ?ss = a_ring_bytes a" using sum_list_update [of stream_bytes key ?fresh "a_streams a"] total none zero by simp
      with none dist False have "acct_core l X W (a\<lparr>a_streams := ?ss, a_ring_bytes := a_ring_bytes a\<rparr>)"
        by (intro acct_core_streams [OF core])
          (auto simp: distinct_update length_update update_conv' intro: acct_core_stream [OF core] split: if_splits)
      then have "acct_sound l X W (a\<lparr>a_streams := ?ss\<rparr>)" using budget by (simp add: acct_sound_def)
      with ens none False show ?thesis by (auto simp: ensure_stream_in_def Let_def update_conv')
    next
      case full: True
      show ?thesis
      proof (cases "min_by_key (stream_touched \<circ> snd) (filter (\<lambda>(k, s). s_subscribers s = []) (a_streams a))")
        case None
        with ens none full sound show ?thesis by (simp add: ensure_stream_in_def)
      next
        case (Some v)
        obtain victim s where v: "v = (victim, s)" by fastforce
        with min_by_key_SomeD [OF Some] have vs: "map_of (a_streams a) victim = Some s" "s_subscribers s = []"
          using dist by (auto simp: map_of_eq_Some_iff)
        let ?ss = "AList.update key ?fresh (AList.delete victim (a_streams a))"
        let ?n = "a_ring_bytes a - stream_bytes s"
        have "map_of (AList.delete victim (a_streams a)) key = None" using none by (simp add: delete_conv')
        then have "ring_total ?ss = ?n"
          using sum_list_update [of stream_bytes key ?fresh "AList.delete victim (a_streams a)"]
            sum_list_delete [OF dist, of stream_bytes victim] vs total zero by simp
        moreover have "length ?ss \<le> max_streams_per_account l"
        proof -
          have "length (AList.delete victim (a_streams a)) = length (a_streams a) - 1" "0 < length (a_streams a)"
            using vs(1) by (auto simp: length_delete [OF dist])
          with len \<open>map_of (AList.delete victim (a_streams a)) key = None\<close> show ?thesis by (simp add: length_update)
        qed
        moreover have "stream_sound l (a_conns a) k t" if "map_of ?ss k = Some t" for k t
          using that acct_core_stream [OF core] by (auto simp: update_conv' delete_conv' split: if_splits)
        ultimately have "acct_core l X W (a\<lparr>a_streams := ?ss, a_ring_bytes := ?n\<rparr>)"
          using none vs dist
          by (intro acct_core_streams [OF core]) (auto simp: distinct_update distinct_delete update_conv' delete_conv')
        then have "acct_sound l X W (a\<lparr>a_streams := ?ss, a_ring_bytes := ?n\<rparr>)"
          using budget by (simp add: acct_sound_def)
        with ens none full Some v show ?thesis by (auto simp: ensure_stream_in_def Let_def update_conv')
      qed
    qed
  qed
qed

section \<open>The ring budget\<close>

lemma evict_at_core:
  assumes core: "acct_core l X W a" and i: "i < length (a_streams a)" "s_ring (snd (a_streams a ! i)) = Some r"
  shows "acct_core l X W (evict_at i r a)"
proof -
  obtain n r' where ev: "ring_evict_oldest r = (n, r')" by fastforce
  let ?k = "fst (a_streams a ! i)" and ?s = "snd (a_streams a ! i)"
  let ?s' = "?s\<lparr>s_ring := Some r'\<rparr>"
  let ?ss = "(a_streams a)[i := (?k, ?s')]"
  have dist: "keys_distinct (a_streams a)" using core by (simp add: acct_core_def)
  have at: "map_of (a_streams a) ?k = Some ?s" using dist i by (simp add: map_of_eq_Some_iff)
  have upd: "map_of ?ss = (map_of (a_streams a))(?k \<mapsto> ?s')" by (rule map_of_list_update [OF dist i(1)])
  have rs: "ring_sound l r" using acct_core_stream [OF core at] i by (simp add: stream_sound_def)
  then have R: "ring_ok r' \<and> r_bytes r = r_bytes r' + n \<and> r_entries r' = tl (r_entries r)
    \<and> r_seq r' = r_seq r \<and> r_kind r' = r_kind r \<and> r_epoch r' = r_epoch r"
    using ring_evict_oldest_ok [OF _ ev] by (simp add: ring_sound_def)
  have "ring_total ?ss + r_bytes r = ring_total (a_streams a) + r_bytes r'"
    using sum_list_list_update [OF i(1), of "stream_bytes \<circ> snd" "(?k, ?s')"] i by (simp add: stream_bytes_def)
  then have total: "ring_total ?ss = a_ring_bytes a - n" using R core by (simp add: acct_core_def)
  have sound: "stream_sound l (a_conns a) k t" if "map_of ?ss k = Some t" for k t
    using that acct_core_stream [OF core at] acct_core_stream [OF core, of k t] R rs
    by (auto simp: upd stream_sound_def ring_sound_def split: if_splits)
  have eq: "evict_at i r a = a\<lparr>a_streams := ?ss, a_ring_bytes := a_ring_bytes a - n\<rparr>"
    by (simp add: evict_at_def ev)
  have shape: "length ?ss \<le> max_streams_per_account l" "keys_distinct ?ss"
    using core dist by (simp_all add: acct_core_def)
  have kept: "\<exists>s'. map_of ?ss key = Some s' \<and> set (s_subscribers s) \<subseteq> set (s_subscribers s')
      \<and> (\<forall>r. s_ring s = Some r \<longrightarrow> (\<exists>r'. s_ring s' = Some r' \<and> r_epoch r' = r_epoch r \<and> r_seq r \<le> r_seq r'))"
    if s: "map_of (a_streams a) key = Some s" for key s
  proof (cases "key = ?k")
    case True
    with s at have "s = ?s" by simp
    with True R i(2) show ?thesis unfolding upd by simp
  next
    case False
    with s show ?thesis unfolding upd by simp
  qed
  show ?thesis unfolding eq
    by (rule acct_core_streams [OF core shape(2,1) total]) (erule kept, erule sound)
qed

lemma enforce_ring_budget_sound:
  "acct_core l X W a \<Longrightarrow>
   acct_sound l X W (enforce_ring_budget (account_ring_bytes l) a)
   \<and> a_conns (enforce_ring_budget (account_ring_bytes l) a) = a_conns a"
proof (induction "account_ring_bytes l" a rule: enforce_ring_budget.induct)
  case (1 a)
  show ?case
  proof (cases "a_ring_bytes a > account_ring_bytes l")
    case False
    with 1 show ?thesis by (simp add: enforce_ring_budget.simps [of _ a] acct_sound_def)
  next
    case over: True
    then have pos: "0 < ring_total (a_streams a)" using 1 by (simp add: acct_core_def)
    have "\<exists>x \<in> set (a_streams a). 0 < stream_bytes (snd x)"
    proof (rule ccontr)
      assume "\<not> (\<exists>x \<in> set (a_streams a). 0 < stream_bytes (snd x))"
      then have "\<forall>n \<in> set (map (stream_bytes \<circ> snd) (a_streams a)). n = 0" by auto
      then have "ring_total (a_streams a) = 0" by (simp only: sum_list_eq_0_iff)
      with pos show False by simp
    qed
    then obtain x where x: "x \<in> set (a_streams a)" "0 < stream_bytes (snd x)" by blast
    show ?thesis
    proof (cases "largest_ring (a_streams a)")
      case None
      with x largest_ring_NoneD [OF None, of "fst x" "snd x"] show ?thesis by (simp add: stream_bytes_def)
    next
      case (Some ir)
      obtain i r where ir: "ir = (i, r)" by fastforce
      with largest_ring_SomeD Some have i: "i < length (a_streams a)" "s_ring (snd (a_streams a ! i)) = Some r"
        and big: "stream_bytes (snd x) \<le> r_bytes r" using x by blast+
      have "map_of (a_streams a) (fst (a_streams a ! i)) = Some (snd (a_streams a ! i))"
        using 1 i by (simp add: map_of_eq_Some_iff acct_core_def)
      from acct_core_stream [OF "1.prems" this] i have "ring_ok r" by (simp add: stream_sound_def ring_sound_def)
      then have full: "\<not> ring_is_empty r" using x big by (auto simp: ring_ok_def ring_is_empty_def)
      from "1.hyps" [OF over Some ir [symmetric] full] evict_at_core [OF "1.prems" i]
      show ?thesis using over Some ir full
        by (simp add: enforce_ring_budget.simps [of _ a]) (simp add: evict_at_def split: prod.split)
    qed
  qed
qed


section \<open>Publishing\<close>

definition conns_sound ::
    "limits \<Rightarrow> conn_id set \<Rightarrow> conn_id set \<Rightarrow> (stream_key \<times> stream) list \<Rightarrow> (bytes \<times> (conn_id \<times> role)) list
     \<Rightarrow> (conn_id \<times> conn) list \<Rightarrow> bool" where
  "conns_sound l X W ss online conns \<longleftrightarrow>
     (\<forall>cid c. map_of conns cid = Some c \<longrightarrow> conn_local l X W cid c \<and> conn_links ss online cid c)"

text \<open>Same connections, with the same principals and subscriptions.\<close>

definition conns_alike :: "(conn_id \<times> conn) list \<Rightarrow> (conn_id \<times> conn) list \<Rightarrow> bool" where
  "conns_alike conns conns' \<longleftrightarrow>
     keys conns' = keys conns
     \<and> (\<forall>cid c c'. map_of conns cid = Some c \<longrightarrow> map_of conns' cid = Some c' \<longrightarrow>
          c_principal c' = c_principal c \<and> c_subs c' = c_subs c)"

lemma conns_alike_refl [simp]: "conns_alike conns conns"
  by (simp add: conns_alike_def)

lemma conns_alike_lookup:
  assumes "conns_alike conns conns'" and "map_of conns cid = Some c"
  obtains c' where "map_of conns' cid = Some c'" "c_principal c' = c_principal c" "c_subs c' = c_subs c"
proof -
  have "cid \<in> set (keys conns')" using assms map_of_SomeD_keys [of conns cid c] by (simp add: conns_alike_def)
  then obtain c' where c': "map_of conns' cid = Some c'" by (metis map_of_eq_None_iff not_Some_eq set_map)
  from assms c' have "c_principal c' = c_principal c \<and> c_subs c' = c_subs c" unfolding conns_alike_def by blast
  with that c' show ?thesis by blast
qed

lemma conns_alike_None: "conns_alike conns conns' \<Longrightarrow> map_of conns' cid = None \<longleftrightarrow> map_of conns cid = None"
  by (metis conns_alike_def map_of_eq_None_iff set_map)

lemma conns_alike_update:
  assumes "map_of conns cid = Some c" and "c_principal c' = c_principal c" "c_subs c' = c_subs c"
  shows "conns_alike conns (AList.update cid c' conns)"
proof -
  have "cid \<in> set (keys conns)" using assms(1) by (rule map_of_SomeD_keys)
  then have "keys (AList.update cid c' conns) = keys conns" by (simp add: update_keys)
  with assms show ?thesis by (auto simp: conns_alike_def update_conv')
qed

lemma conns_alike_trans:
  assumes "conns_alike a b" and "conns_alike b c"
  shows "conns_alike a c"
  unfolding conns_alike_def
proof (intro conjI allI impI)
  show "keys c = keys a" using assms by (simp add: conns_alike_def)
  fix cid x z assume x: "map_of a cid = Some x" and z: "map_of c cid = Some z"
  from conns_alike_lookup [OF assms(1) x] obtain y where y: "map_of b cid = Some y"
    "c_principal y = c_principal x" "c_subs y = c_subs x" by blast
  with assms(2) z show "c_principal z = c_principal x" "c_subs z = c_subs x"
    unfolding conns_alike_def by metis+
qed

lemma acct_core_conns:
  assumes core: "acct_core l X W a" and alike: "conns_alike (a_conns a) conns"
    and sound: "conns_sound l X' W' (a_streams a) (a_online a) conns"
  shows "acct_core l X' W' (a\<lparr>a_conns := conns\<rparr>)"
proof -
  have "\<exists>c. map_of conns cid = Some c \<and> c_principal c = p" if "map_of (a_online a) p = Some (cid, r)" for p cid r
  proof -
    from core that obtain c0 where "map_of (a_conns a) cid = Some c0" "c_principal c0 = p"
      unfolding acct_core_def by blast
    with conns_alike_lookup [OF alike] show ?thesis by metis
  qed
  moreover have "stream_sound l conns key s" if s: "map_of (a_streams a) key = Some s" for key s
    using acct_core_stream [OF core s] conns_alike_lookup [OF alike] unfolding stream_sound_def by metis
  moreover have "length conns = length (a_conns a)" using alike by (metis conns_alike_def length_map)
  ultimately show ?thesis
    using core alike sound by (simp add: acct_core_def conns_sound_def conns_alike_def)
qed

lemma conns_sound_mono:
  "conns_sound l X W ss online conns \<Longrightarrow> X \<subseteq> X' \<Longrightarrow> W \<subseteq> W' \<Longrightarrow> conns_sound l X' W' ss online conns"
  unfolding conns_sound_def by (meson conn_local_mono)

text \<open>One subscriber's turn of the fan-out.\<close>

lemma fan_out_step:
  assumes sound: "conns_sound l (closing fx) (W \<union> set (fx_wakes fx)) ss online conns"
    and c: "map_of conns sub = Some c" and subs: "key \<in> set (c_subs c)"
    and stream: "map_of ss key = Some s" "s_ring s = Some r" "epoch = r_epoch r" "en_seq e \<le> r_seq r"
    and newest: "\<And>it. it \<in> set (o_items (c_out c)) \<Longrightarrow> it_stream it = Some key \<Longrightarrow> it_seq it < en_seq e"
    and push: "pushed_or_closed sub c (push_published l key k epoch e (c_out c)) fx = (c', fx')"
  shows "conns_sound l (closing fx') (W \<union> set (fx_wakes fx')) ss online (AList.update sub c' conns)
    \<and> fx_le fx fx' \<and> conns_alike conns (AList.update sub c' conns)"
proof -
  let ?it = "published_item key k epoch e"
  have L: "conn_local l (closing fx) (W \<union> set (fx_wakes fx)) sub c" "conn_links ss online sub c"
    using sound c by (simp_all add: conns_sound_def)
  obtain q' res where qr: "push_published l key k epoch e (c_out c) = (q', res)" by fastforce
  have good: "push_good l (c_out c) ?it (q', res)"
    using push_published_good [of "c_out c" l key k epoch e] L(1) qr by (simp add: conn_local_def)
  have new: "newest_of_its_stream (c_out c) ?it"
    using newest by (auto simp: newest_of_its_stream_def published_item_def)
  have "pushed_or_closed sub c (q', res) fx = (c', fx')" using push qr by (simp only:)
  note P = pushed_or_closed_local [OF L(1) good new this]
  have "item_link ss (c_subs c) ?it" using subs stream by (simp add: item_link_def published_item_def)
  then have "conn_links ss online sub c'"
    using P L(2) push_good_items [OF good] by (auto simp: conn_links_def)
  moreover have "conns_sound l (closing fx') (W \<union> set (fx_wakes fx')) ss online conns"
    using sound P by (elim conns_sound_mono) (auto simp: fx_le_def)
  ultimately have "conns_sound l (closing fx') (W \<union> set (fx_wakes fx')) ss online (AList.update sub c' conns)"
    using P by (simp add: conns_sound_def update_conv')
  with P conns_alike_update [OF c, of c'] show ?thesis by blast
qed

lemma fan_out_sound:
  assumes "conns_sound l (closing fx) (W \<union> set (fx_wakes fx)) ss online conns" and "distinct subs"
    and "\<And>sub. sub \<in> set subs \<Longrightarrow> \<exists>c. map_of conns sub = Some c \<and> key \<in> set (c_subs c)
      \<and> (\<forall>it \<in> set (o_items (c_out c)). it_stream it = Some key \<longrightarrow> it_seq it < en_seq e)"
    and stream: "map_of ss key = Some s" "s_ring s = Some r" "epoch = r_epoch r" "en_seq e \<le> r_seq r"
    and "fan_out l key k epoch e subs (conns, fx) = (conns', fx')"
  shows "conns_sound l (closing fx') (W \<union> set (fx_wakes fx')) ss online conns' \<and> fx_le fx fx'
    \<and> conns_alike conns conns'"
  using assms(1-3,8)
proof (induction subs arbitrary: conns fx)
  case Nil
  then show ?case by simp
next
  case (Cons sub subs)
  from Cons.prems(3) [of sub] obtain c where c: "map_of conns sub = Some c" "key \<in> set (c_subs c)"
    and new: "\<And>it. it \<in> set (o_items (c_out c)) \<Longrightarrow> it_stream it = Some key \<Longrightarrow> it_seq it < en_seq e" by auto
  obtain c' fx1 where push: "pushed_or_closed sub c (push_published l key k epoch e (c_out c)) fx = (c', fx1)"
    by fastforce
  note S = fan_out_step [OF Cons.prems(1) c stream new push]
  have fan: "fan_out l key k epoch e subs (AList.update sub c' conns, fx1) = (conns', fx')"
    using Cons.prems(4) c(1) push by simp
  have "\<exists>c. map_of (AList.update sub c' conns) s2 = Some c \<and> key \<in> set (c_subs c)
      \<and> (\<forall>it \<in> set (o_items (c_out c)). it_stream it = Some key \<longrightarrow> it_seq it < en_seq e)" if "s2 \<in> set subs" for s2
    using Cons.prems(2,3) that by (auto simp: update_conv')
  from Cons.IH [OF _ _ this fan] S Cons.prems(2) show ?case
    by (auto intro: fx_le_trans conns_alike_trans)
qed

end
