(* ===== verification/Relay_Calls.thy ===== *)
theory Relay_Calls
  imports Relay_Inv
begin

text \<open>
  The routing handlers and the server's calls keep the invariant of \<open>Relay_Inv\<close>.
\<close>

section \<open>Publishing\<close>

lemma ring_published_sound:
  assumes "ring_ok r" and "length (r_entries r) \<le> ring_capacity l k" and "r_kind r = k"
    and "k = SessionEvents \<or> k = Telemetry" and "ring_publish pe env (ring_capacity l k) clock r = (p, r')"
  shows "ring_sound l r' \<and> r_epoch r' = r_epoch r \<and> r_seq r' = Suc (r_seq r) \<and> en_seq (pub_entry p) = r_seq r'
    \<and> r_bytes r' + pub_freed p = r_bytes r + pub_added p"
  using ring_publish_ok [OF assms(1,2,5)] assms(3,4) by (simp add: ring_sound_def)

lemma publish_in_sound:
  assumes sound: "acct_sound l (closing fx) (W \<union> set (fx_wakes fx)) a" and s: "map_of (a_streams a) key = Some s"
    and kind: "k = SessionEvents \<or> k = Telemetry" "\<And>r. s_ring s = Some r \<Longrightarrow> r_kind r = k"
    and pub: "publish_in pe l fresh clock key k env s (a, fx) = (a', fx')"
  shows "acct_sound l (closing fx') (W \<union> set (fx_wakes fx')) a' \<and> fx_le fx fx' \<and> conns_alike (a_conns a) (a_conns a')"
proof -
  have core: "acct_core l (closing fx) (W \<union> set (fx_wakes fx)) a" using sound by (simp add: acct_sound_def)
  define r where "r = (case s_ring s of Some r \<Rightarrow> r | None \<Rightarrow> ring_new k fresh clock)"
  obtain p r' where pr: "ring_publish pe env (ring_capacity l k) clock r = (p, r')" by fastforce
  obtain conns fx1 where fan: "fan_out l key k (r_epoch r) (pub_entry p) (s_subscribers s) (a_conns a, fx) = (conns, fx1)"
    by fastforce
  have S: "stream_sound l (a_conns a) key s" by (rule acct_core_stream [OF core s])
  have "ring_ok r \<and> length (r_entries r) \<le> ring_capacity l k \<and> r_kind r = k" and bytes: "r_bytes r = stream_bytes s"
    using S kind(2) by (auto simp: r_def stream_sound_def ring_sound_def stream_bytes_def ring_new_def ring_ok_def
        split: option.splits)
  then have R: "ring_sound l r' \<and> r_epoch r' = r_epoch r \<and> r_seq r' = Suc (r_seq r) \<and> en_seq (pub_entry p) = r_seq r'
    \<and> r_bytes r' + pub_freed p = r_bytes r + pub_added p"
    using ring_published_sound [OF _ _ _ kind(1) pr] by blast
  have old: "r_epoch r = r_epoch q \<and> r_seq r = r_seq q" if "s_ring s = Some q" for q using that by (simp add: r_def)
  let ?s = "s\<lparr>s_ring := Some r'\<rparr>"
  let ?ss = "AList.update key ?s (a_streams a)"
  let ?n = "a_ring_bytes a + pub_added p - pub_freed p"
  let ?a1 = "a\<lparr>a_streams := ?ss, a_ring_bytes := ?n\<rparr>"
  have "stream_bytes ?s = r_bytes r'" by (simp add: stream_bytes_def)
  then have "ring_total ?ss + r_bytes r = a_ring_bytes a + r_bytes r'"
    using sum_list_update [of stream_bytes key ?s "a_streams a"] s bytes core by (simp add: acct_core_def)
  then have total: "ring_total ?ss = ?n" using R by linarith
  have core1: "acct_core l (closing fx) (W \<union> set (fx_wakes fx)) ?a1"
  proof (rule acct_core_streams [OF core _ _ total])
    show "keys_distinct ?ss" "length ?ss \<le> max_streams_per_account l"
      using core s by (simp_all add: acct_core_def distinct_update length_update)
    show "stream_sound l (a_conns a) key' t" if "map_of ?ss key' = Some t" for key' t
      using that S R acct_core_stream [OF core] by (auto simp: update_conv' stream_sound_def split: if_splits)
    show "\<exists>t'. map_of ?ss key' = Some t' \<and> set (s_subscribers t) \<subseteq> set (s_subscribers t')
        \<and> (\<forall>q. s_ring t = Some q \<longrightarrow> (\<exists>q'. s_ring t' = Some q' \<and> r_epoch q' = r_epoch q \<and> r_seq q \<le> r_seq q'))"
      if t: "map_of (a_streams a) key' = Some t" for key' t
    proof (cases "key' = key")
      case True
      with t s have "t = s" by simp
      with True R old show ?thesis by (auto simp: update_conv')
    next
      case False
      with t show ?thesis by (simp add: update_conv')
    qed
  qed
  have subs: "\<exists>c. map_of (a_conns a) sub = Some c \<and> key \<in> set (c_subs c)
      \<and> (\<forall>it \<in> set (o_items (c_out c)). it_stream it = Some key \<longrightarrow> it_seq it < en_seq (pub_entry p))"
    if sub: "sub \<in> set (s_subscribers s)" for sub
  proof -
    from S sub obtain c where c: "map_of (a_conns a) sub = Some c" "key \<in> set (c_subs c)" by (auto simp: stream_sound_def)
    have "it_seq it < en_seq (pub_entry p)" if "it \<in> set (o_items (c_out c))" "it_stream it = Some key" for it
    proof -
      from acct_core_conn(2) [OF core c(1)] that have "item_link (a_streams a) (c_subs c) it" by (simp add: conn_links_def)
      with s that obtain q where "s_ring s = Some q" "it_seq it \<le> r_seq q" by (auto simp: item_link_def)
      with old R show ?thesis by fastforce
    qed
    with c show ?thesis by blast
  qed
  have "conns_sound l (closing fx) (W \<union> set (fx_wakes fx)) ?ss (a_online a) (a_conns a)"
    using core1 by (simp add: acct_core_def conns_sound_def)
  from fan_out_sound [OF this _ subs _ _ _ _ fan, of ?s r'] S R
  have F: "conns_sound l (closing fx1) (W \<union> set (fx_wakes fx1)) ?ss (a_online a) conns \<and> fx_le fx fx1
      \<and> conns_alike (a_conns a) conns"
    by (auto simp: stream_sound_def update_conv')
  have "acct_core l (closing fx1) (W \<union> set (fx_wakes fx1)) (?a1\<lparr>a_conns := conns\<rparr>)"
    using acct_core_conns [OF core1] F by simp
  note E = enforce_ring_budget_sound [OF this]
  have "s_key s = key" using S by (simp add: stream_sound_def)
  then have "a' = enforce_ring_budget (account_ring_bytes l) (?a1\<lparr>a_conns := conns\<rparr>)" "fx' = fx1"
    using pub pr fan by (simp_all add: publish_in_def r_def [symmetric])
  with E F show ?thesis by simp
qed

section \<open>Handlers\<close>

lemma hub_mid_put_alike:
  assumes "hub_mid W (h, fx)" and "map_of (hub_accounts h) aid = Some a"
    and "acct_sound (hub_limits h) (closing fx') (W \<union> set (fx_wakes fx')) a'" and "fx_le fx fx'"
    and "conns_alike (a_conns a) (a_conns a')" and "a_conns a \<noteq> []"
  shows "hub_mid W (put_account aid a' h, fx')"
proof (rule hub_mid_put_account [OF assms(1-4)])
  show "map_of (a_conns a') cid = None \<longleftrightarrow> map_of (a_conns a) cid = None" for cid
    using assms(5) by (rule conns_alike_None)
  show "a_conns a' \<noteq> [] \<or> a_streams a' \<noteq> []" using assms(5,6) by (auto simp: conns_alike_def)
qed

lemma hub_mid_ignores:
  "hub_mid W (h\<lparr>hub_epoch_state := e\<rparr>, fx) = hub_mid W (h, fx)"
  "hub_mid W (h\<lparr>hub_clock := t\<rparr>, fx) = hub_mid W (h, fx)"
  by (simp_all add: hub_mid_def)

lemma ensure_stream_mid:
  assumes mid: "hub_mid W (h, fx)" and conn: "map_of (hub_conn_account h) conn = Some aid"
    and ens: "ensure_stream aid key h = (ok, h1)"
  shows "hub_mid W (h1, fx) \<and> hub_limits h1 = hub_limits h \<and> hub_conn_account h1 = hub_conn_account h
    \<and> (\<exists>a c. map_of (hub_accounts h1) aid = Some a \<and> map_of (a_conns a) conn = Some c
        \<and> (ok \<longrightarrow> map_of (a_streams a) key \<noteq> None)
        \<and> (\<exists>a0. map_of (hub_accounts h) aid = Some a0 \<and> map_of (a_conns a0) conn = Some c))"
proof -
  from hub_mid_conn [OF mid conn] obtain a0 c where a0: "map_of (hub_accounts h) aid = Some a0"
    and c: "map_of (a_conns a0) conn = Some c" by blast
  obtain ok' a where e: "ensure_stream_in (max_streams_per_account (hub_limits h)) key a0 = (ok', a)" by fastforce
  note E = ensure_stream_in_sound [OF hub_mid_account(1) [OF mid a0] e]
  have h1: "h1 = put_account aid a h" "ok' = ok" using ens a0 e by (simp_all add: ensure_stream_def)
  have "a_conns a0 \<noteq> []" using c by auto
  moreover have "acct_sound (hub_limits h) (closing fx) (W \<union> set (fx_wakes fx)) a" "conns_alike (a_conns a0) (a_conns a)"
    using E by simp_all
  ultimately have "hub_mid W (h1, fx)"
    unfolding h1(1) using hub_mid_put_alike [OF mid a0] fx_le_refl by blast
  moreover have "map_of (hub_accounts h1) aid = Some a" by (simp add: h1 put_account_def update_conv')
  ultimately show ?thesis using E c a0 h1 by (auto simp: put_account_def)
qed

lemma publish_mid:
  assumes mid: "hub_mid W (h, fx)" and conn: "map_of (hub_conn_account h) conn = Some aid"
    and kind: "k = SessionEvents \<or> k = Telemetry"
  shows "hub_mid W (publish pe aid conn key k env (h, fx))"
proof -
  obtain ok h1 where ens: "ensure_stream aid key h = (ok, h1)" by fastforce
  note E = ensure_stream_mid [OF mid conn ens]
  then have mid1: "hub_mid W (h1, fx)" and l: "hub_limits h1 = hub_limits h" by blast+
  from E obtain a c where a: "map_of (hub_accounts h1) aid = Some a" and c: "map_of (a_conns a) conn = Some c"
    and key: "ok \<longrightarrow> map_of (a_streams a) key \<noteq> None" by blast
  show ?thesis
  proof (cases ok)
    case False
    with ens mid1 show ?thesis by (simp add: publish_def hub_mid_push_close)
  next
    case True
    with key obtain s where s: "map_of (a_streams a) key = Some s" by blast
    show ?thesis
    proof (cases "\<exists>r. s_ring s = Some r \<and> r_kind r \<noteq> k")
      case True
      with ens \<open>ok\<close> a s enqueue_mid [OF mid1] show ?thesis by (auto simp: publish_def)
    next
      case same: False
      define eh where "eh = (if map_option r_kind (s_ring s) = None
        then let (z, st) = next_epoch (hub_epoch_state h1) in (z, h1\<lparr>hub_epoch_state := st\<rparr>) else (0, h1))"
      define h3 where "h3 = (snd eh)\<lparr>hub_clock := hub_clock (snd eh) + 1\<rparr>"
      have mid3: "hub_mid W (h3, fx)"
        using mid1 by (auto simp: h3_def eh_def hub_mid_ignores split: prod.split)
      have h3: "hub_accounts h3 = hub_accounts h1" "hub_limits h3 = hub_limits h"
        using l by (auto simp: h3_def eh_def split: prod.split)
      obtain a' fx' where pub: "publish_in pe (hub_limits h) (fst eh) (hub_clock h3) key k env s (a, fx) = (a', fx')"
        by fastforce
      have a3: "map_of (hub_accounts h3) aid = Some a" using a h3 by simp
      note P = publish_in_sound [OF hub_mid_account(1) [OF mid3 a3, unfolded h3(2)] s kind _ pub]
      have "acct_sound (hub_limits h3) (closing fx') (W \<union> set (fx_wakes fx')) a' \<and> fx_le fx fx'
          \<and> conns_alike (a_conns a) (a_conns a')"
        using P same h3 by auto
      moreover have "a_conns a \<noteq> []" using c by auto
      ultimately have "hub_mid W (put_account aid a' h3, fx')" using hub_mid_put_alike [OF mid3 a3] by blast
      moreover have "publish pe aid conn key k env (h, fx) = (put_account aid a' h3, fx')"
        using ens \<open>ok\<close> a s same pub
        by (auto simp: publish_def eh_def h3_def Let_def split: option.splits prod.splits)
      ultimately show ?thesis by simp
    qed
  qed
qed

lemma direct_mid:
  assumes mid: "hub_mid W (h, fx)"
  shows "hub_mid W (direct pe aid conn target env (h, fx))"
proof (cases "\<exists>a tc r c. map_of (hub_accounts h) aid = Some a \<and> map_of (a_online a) target = Some (tc, r)
    \<and> map_of (a_conns a) tc = Some c")
  case False
  then have "direct pe aid conn target env (h, fx)
      = enqueue pe aid conn (error Unavailable (e_ref env) ''recipient is not online'') (h, fx)"
    by (auto simp: direct_def split: option.splits prod.splits)
  with enqueue_mid [OF mid] show ?thesis by simp
next
  case True
  then obtain a tc r c where a: "map_of (hub_accounts h) aid = Some a" and t: "map_of (a_online a) target = Some (tc, r)"
    and c: "map_of (a_conns a) tc = Some c" by blast
  let ?f = "Frame (Some (BEnvelope (env\<lparr>e_to := Some (ToPrincipal target)\<rparr>)))"
  obtain out res where qr: "push_frame pe (hub_limits h) ?f (c_out c) = (out, res)" by fastforce
  obtain c' fx' where push: "pushed_or_closed tc c (out, res) fx = (c', fx')" by fastforce
  have "pushed_or_closed tc c (push_frame pe (hub_limits h) ?f (c_out c)) fx = (c', fx')" using push qr by (simp only:)
  note P = acct_sound_push_frame [OF hub_mid_account(1) [OF mid a] c refl refl refl refl this]
  have "map_of (a_conns (put_conn tc c' a)) cid = None \<longleftrightarrow> map_of (a_conns a) cid = None" for cid
    using c by (auto simp: put_conn_def update_conv')
  with P have "hub_mid W (put_account aid (put_conn tc c' a) h, fx')"
    using hub_mid_put_account [OF mid a] by (simp add: put_conn_def update_nonempty)
  with enqueue_mid [OF this] a t c qr push show ?thesis by (cases res) (simp_all add: direct_def)
qed

lemma on_envelope_mid:
  assumes "hub_mid W (h, fx)" and "map_of (hub_conn_account h) conn = Some aid"
  shows "hub_mid W (on_envelope pe aid conn env (h, fx))"
  using assms publish_mid [OF assms] direct_mid [OF assms(1)] enqueue_mid [OF assms(1)] hub_mid_push_close [OF assms(1)]
  by (auto simp: on_envelope_def Let_def split: option.splits kind.splits address.splits)


section \<open>Subscribing\<close>

lemma push_backfill_good:
  assumes "push_backfill l key k epoch es (q, n) = (q', n', r)" and "outbound_ok q" and "queue_in_order q"
    and "sorted_wrt (<) (map en_seq es)"
    and "\<And>it e. it \<in> set (o_items q) \<Longrightarrow> it_stream it = Some key \<Longrightarrow> e \<in> set es \<Longrightarrow> it_seq it < en_seq e"
  shows "outbound_ok q' \<and> queue_in_order q' \<and> (outbound_within l q \<and> r = Pushed \<longrightarrow> outbound_within l q')
    \<and> set (o_items q') \<subseteq> set (o_items q) \<union> published_item key k epoch ` set es"
  using assms
proof (induction es arbitrary: q n)
  case (Cons e es)
  obtain q1 r1 where p: "push_published l key k epoch e q = (q1, r1)" by fastforce
  have good: "push_good l q (published_item key k epoch e) (q1, r1)"
    using push_published_good [OF Cons.prems(2)] p by metis
  have new: "newest_of_its_stream q (published_item key k epoch e)"
    using Cons.prems(5) by (auto simp: newest_of_its_stream_def published_item_def)
  have ok1: "outbound_ok q1" "queue_in_order q1" "outbound_within l q \<Longrightarrow> r1 = Pushed \<Longrightarrow> outbound_within l q1"
    using good push_good_order [OF good Cons.prems(3) new] by (auto simp: push_good_def)
  have items: "set (o_items q1) \<subseteq> insert (published_item key k epoch e) (set (o_items q))"
    by (rule push_good_items [OF good])
  show ?case
  proof (cases r1)
    case SlowConsumer
    with Cons.prems(1) p have "q' = q1" "r = SlowConsumer" by auto
    with ok1 items show ?thesis by auto
  next
    case Pushed
    have order: "it_seq it < en_seq e'" if "it \<in> set (o_items q1)" "it_stream it = Some key" "e' \<in> set es" for it e'
      using that items Cons.prems(4,5) by (auto simp: published_item_def)
    have "push_backfill l key k epoch es (q1, n + 1) = (q', n', r)" using Cons.prems(1) p Pushed by simp
    from Cons.IH [OF this ok1(1,2) _ order] Cons.prems(4) ok1(3) [OF _ Pushed] items
    show ?thesis by auto
  qed
qed auto

lemma subscribe_fill_entries:
  assumes "stream_sound l conns key s" and "subscribe_fill since s = (es, k, epoch, seq, tr)"
  shows "sorted_wrt (<) (map en_seq es) \<and> s_ring s \<noteq> None \<or> es = []"
    and "e \<in> set es \<Longrightarrow> \<exists>r. s_ring s = Some r \<and> epoch = r_epoch r \<and> en_seq e \<le> r_seq r"
proof -
  have "sorted_wrt (<) (map en_seq es) \<and> epoch = r_epoch r \<and> (\<forall>e \<in> set es. en_seq e \<le> r_seq r)" if r: "s_ring s = Some r" for r
  proof -
    have ok: "ring_ok r" using assms(1) r by (simp add: stream_sound_def ring_sound_def)
    define af where "af = (case since of Some p \<Rightarrow> if p_epoch p = r_epoch r then p_seq p else 0 | None \<Rightarrow> 0)"
    have es: "es = filter (\<lambda>e. en_seq e > af) (r_entries r)" "epoch = r_epoch r"
      using assms(2) r by (auto simp: subscribe_fill_def ring_backfill_def af_def Let_def)
    have seqs: "map en_seq es = [max (r_seq r - length (r_entries r)) af + 1 ..< r_seq r + 1]"
      unfolding es by (rule ring_backfill_seqs [OF ok])
    then have "en_seq ` set es = {max (r_seq r - length (r_entries r)) af + 1 ..< r_seq r + 1}" by (metis set_map set_upt)
    then have "en_seq e \<le> r_seq r" if "e \<in> set es" for e using imageI [OF that, of en_seq] by simp
    moreover have "sorted_wrt (<) (map en_seq es)" unfolding seqs by (rule sorted_wrt_upt)
    ultimately show ?thesis using es(2) by blast
  qed
  moreover have "es = []" if "s_ring s = None" using assms(2) that by (simp add: subscribe_fill_def)
  ultimately show "sorted_wrt (<) (map en_seq es) \<and> s_ring s \<noteq> None \<or> es = []"
    and "e \<in> set es \<Longrightarrow> \<exists>r. s_ring s = Some r \<and> epoch = r_epoch r \<and> en_seq e \<le> r_seq r"
    by (cases "s_ring s"; fastforce)+
qed

lemma acct_core_subscribe:
  assumes core: "acct_core l X W a" and c: "map_of (a_conns a) conn = Some c" and s: "map_of (a_streams a) key = Some s"
    and c': "c_principal c' = c_principal c" "c_subs c' = List.insert key (c_subs c)"
    and local: "conn_local l X' W' conn c'" and mono: "X \<subseteq> X'" "W \<subseteq> W'"
    and items: "\<And>it. it \<in> set (o_items (c_out c')) \<Longrightarrow> item_link (a_streams a) (c_subs c') it"
  shows "acct_core l X' W' (put_conn conn c' (a\<lparr>a_streams :=
    AList.update key (s\<lparr>s_subscribers := List.insert conn (s_subscribers s)\<rparr>) (a_streams a)\<rparr>))"
proof -
  let ?s = "s\<lparr>s_subscribers := List.insert conn (s_subscribers s)\<rparr>"
  let ?ss = "AList.update key ?s (a_streams a)" and ?conns = "AList.update conn c' (a_conns a)"
  have link: "item_link ?ss subs it" if "item_link (a_streams a) subs it" for subs it
    using that s by (auto simp: item_link_def update_conv')
  have subs: "\<exists>t. map_of ?ss key' = Some t \<and> cid \<in> set (s_subscribers t)"
    if "\<exists>t. map_of (a_streams a) key' = Some t \<and> cid \<in> set (s_subscribers t)" for key' cid
    using that s by (auto simp: update_conv')
  have "conn_local l X' W' cid d \<and> conn_links ?ss (a_online a) cid d" if d: "map_of ?conns cid = Some d" for cid d
  proof (cases "cid = conn")
    case True
    with d have "d = c'" by (simp add: update_conv')
    with True local items link c' acct_core_conn(2) [OF core c] show ?thesis
      by (auto simp: conn_links_def update_conv' intro: subs)
  next
    case False
    with d have d': "map_of (a_conns a) cid = Some d" by (simp add: update_conv')
    from acct_core_conn [OF core d'] mono show ?thesis
      by (auto simp: conn_links_def intro: conn_local_mono link subs)
  qed
  moreover have "stream_sound l ?conns key' t" if t: "map_of ?ss key' = Some t" for key' t
  proof (cases "key' = key")
    case True
    with t have "t = ?s" by (simp add: update_conv')
    with True acct_core_stream [OF core s] c' c show ?thesis
      by (auto simp: stream_sound_def update_conv' distinct_insert)
  next
    case False
    with t have "map_of (a_streams a) key' = Some t" by (simp add: update_conv')
    from acct_core_stream [OF core this] c' c show ?thesis
      by (fastforce simp: stream_sound_def update_conv')
  qed
  moreover have "\<exists>d. map_of ?conns cid = Some d \<and> c_principal d = p" if "map_of (a_online a) p = Some (cid, r)" for p cid r
  proof -
    from core that obtain d where "map_of (a_conns a) cid = Some d" "c_principal d = p" unfolding acct_core_def by blast
    with c c'(1) show ?thesis by (auto simp: update_conv')
  qed
  moreover have "ring_total ?ss = a_ring_bytes a"
    using sum_list_update [of stream_bytes key ?s "a_streams a"] s core by (simp add: acct_core_def stream_bytes_def)
  ultimately show ?thesis
    using core c s by (simp add: acct_core_def put_conn_def distinct_update length_update)
qed


lemma purge_stream_order:
  assumes "outbound_ok q" and "queue_in_order q"
  shows "queue_in_order (purge_stream key q)" "it \<in> set (o_items (purge_stream key q)) \<Longrightarrow> it_stream it \<noteq> Some key"
proof -
  show "queue_in_order (purge_stream key q)"
    unfolding queue_in_order_def
  proof
    fix key'
    have "subseq (map it_seq (filter (\<lambda>it. it_stream it = Some key') (o_items (purge_stream key q))))
        (map it_seq (filter (\<lambda>it. it_stream it = Some key') (o_items q)))"
      by (intro subseq_map subseq_filter) simp
    with assms(2) show "sorted_wrt (<) (map it_seq (filter (\<lambda>it. it_stream it = Some key') (o_items (purge_stream key q))))"
      unfolding queue_in_order_def by (blast intro: sorted_wrt_subseq)
  qed
qed simp

text \<open>The backfill leaves a prepared connection: everything but the wake.\<close>

lemma backfill_prepared:
  assumes core: "acct_core l X W a" and c: "map_of (a_conns a) conn = Some c" and s: "map_of (a_streams a) key = Some s"
    and room: "key \<in> set (c_subs c) \<or> length (c_subs c) < max_subscriptions_per_connection l"
    and fill: "subscribe_fill since s = (es, k, epoch, seq, tr)"
    and push: "push_backfill l key k epoch es (purge_stream key (c_out c), n) = (out, n', r)"
  defines "c' \<equiv> c\<lparr>c_subs := List.insert key (c_subs c), c_out := out\<rparr>"
  shows "conn_prepared l (if r = SlowConsumer then insert conn X else X) W conn c'
    \<and> (\<forall>it \<in> set (o_items out). item_link (a_streams a) (c_subs c') it)"
proof -
  note S = acct_core_stream [OF core s]
  have local: "outbound_ok (c_out c)" "queue_in_order (c_out c)" "distinct (c_subs c)"
    "length (c_subs c) \<le> max_subscriptions_per_connection l"
    "conn \<in> X \<or> outbound_within l (c_out c) \<and> (c_armed c \<longrightarrow> conn \<in> W)"
    using acct_core_conn(1) [OF core c] by (auto simp: conn_local_def)
  note Q = purge_stream_ok [OF local(1), of key] purge_stream_order(1) [OF local(1,2), of key]
  have sorted: "sorted_wrt (<) (map en_seq es)" using subscribe_fill_entries(1) [OF S fill] by auto
  have B: "outbound_ok out \<and> queue_in_order out
    \<and> (outbound_within l (purge_stream key (c_out c)) \<and> r = Pushed \<longrightarrow> outbound_within l out)
    \<and> set (o_items out) \<subseteq> set (o_items (purge_stream key (c_out c))) \<union> published_item key k epoch ` set es"
    by (rule push_backfill_good [OF push Q sorted]) simp
  have "distinct (List.insert key (c_subs c))" "length (List.insert key (c_subs c)) \<le> max_subscriptions_per_connection l"
    using local(3,4) room by (auto simp: List.insert_def)
  moreover have "outbound_within l out" if "r \<noteq> SlowConsumer" "outbound_within l (c_out c)"
    using that purge_stream_within [OF that(2), of key] B by (cases r) simp_all
  ultimately have "conn_prepared l (if r = SlowConsumer then insert conn X else X) W conn c'"
    using conjunct1 [OF B] conjunct1 [OF conjunct2 [OF B]] local(5) by (simp add: conn_prepared_def c'_def) blast
  moreover have "item_link (a_streams a) (c_subs c') it" if "it \<in> set (o_items out)" for it
  proof (cases "it \<in> set (o_items (c_out c))")
    case True
    with acct_core_conn(2) [OF core c] show ?thesis by (auto simp: conn_links_def item_link_def c'_def)
  next
    case False
    with B that have "it \<in> published_item key k epoch ` set es" by auto
    with subscribe_fill_entries(2) [OF S fill] s show ?thesis
      by (auto simp: item_link_def published_item_def c'_def)
  qed
  ultimately show ?thesis by blast
qed


lemma prepared_exempt: "conn_prepared l X W cid c \<Longrightarrow> cid \<in> X \<Longrightarrow> conn_local l X W cid c"
  by (simp add: conn_local_def conn_prepared_def)

text \<open>The account after a subscription, with whatever connection \<open>d\<close> the call ends with.\<close>

definition subscribed :: "conn_id \<Rightarrow> stream_key \<Rightarrow> stream \<Rightarrow> conn \<Rightarrow> account \<Rightarrow> account" where
  "subscribed conn key s d a = put_conn conn d
     (a\<lparr>a_streams := AList.update key (s\<lparr>s_subscribers := List.insert conn (s_subscribers s)\<rparr>) (a_streams a)\<rparr>)"

lemma subscribed_mid:
  assumes mid: "hub_mid W (h, fx)" and a: "map_of (hub_accounts h) aid = Some a" and c: "map_of (a_conns a) conn = Some c"
    and s: "map_of (a_streams a) key = Some s"
    and d: "c_principal d = c_principal c" "c_subs d = List.insert key (c_subs c)"
    and local: "conn_local (hub_limits h) (closing fx') (W \<union> set (fx_wakes fx')) conn d" and le: "fx_le fx fx'"
    and items: "\<And>it. it \<in> set (o_items (c_out d)) \<Longrightarrow> item_link (a_streams a) (c_subs d) it"
  shows "hub_mid W (put_account aid (subscribed conn key s d a) h, fx')"
proof -
  note sound = hub_mid_account(1) [OF mid a]
  have "acct_core (hub_limits h) (closing fx') (W \<union> set (fx_wakes fx')) (subscribed conn key s d a)"
    unfolding subscribed_def
  proof (rule acct_core_subscribe [OF _ c s d local])
    show "acct_core (hub_limits h) (closing fx) (W \<union> set (fx_wakes fx)) a" using sound by (simp add: acct_sound_def)
  qed (use le items in \<open>auto simp: fx_le_def\<close>)
  then have "acct_sound (hub_limits h) (closing fx') (W \<union> set (fx_wakes fx')) (subscribed conn key s d a)"
    using sound by (simp add: acct_sound_def subscribed_def put_conn_def)
  moreover have "map_of (a_conns (subscribed conn key s d a)) cid = None \<longleftrightarrow> map_of (a_conns a) cid = None" for cid
    using c by (auto simp: subscribed_def put_conn_def update_conv')
  ultimately show ?thesis
    using hub_mid_put_account [OF mid a _ le] by (simp add: subscribed_def put_conn_def update_nonempty)
qed

lemma subscribe_fill_cong: "s_ring s = s_ring t \<Longrightarrow> subscribe_fill since s = subscribe_fill since t"
  by (simp add: subscribe_fill_def)

lemma subscribe_tail_mid:
  assumes mid: "hub_mid W (h, fx)" and a: "map_of (hub_accounts h) aid = Some a" and c: "map_of (a_conns a) conn = Some c"
    and s: "map_of (a_streams a) key = Some s"
    and room: "key \<in> set (c_subs c) \<or> length (c_subs c) < max_subscriptions_per_connection (hub_limits h)"
    and fill: "subscribe_fill since s = (es, k, epoch, seq, tr)"
    and push: "push_backfill (hub_limits h) key k epoch es (purge_stream key (c_out c), n) = (out, n', r)"
  defines "d \<equiv> c\<lparr>c_subs := List.insert key (c_subs c), c_out := out\<rparr>"
    and "fx1 \<equiv> fx\<lparr>fx_queued := n'\<rparr>"
  shows "r = SlowConsumer \<Longrightarrow> hub_mid W (put_account aid (subscribed conn key s d a) h, fx_push_close conn e fx1)"
    and "r = Pushed \<Longrightarrow> hub_mid W (enqueue pe aid conn f (put_account aid (subscribed conn key s d a) h, fx1))"
proof -
  have core: "acct_core (hub_limits h) (closing fx) (W \<union> set (fx_wakes fx)) a"
    using hub_mid_account(1) [OF mid a] by (simp add: acct_sound_def)
  note B = backfill_prepared [OF core c s room fill push, folded d_def]
  have fx1: "closing fx1 = closing fx" "fx_wakes fx1 = fx_wakes fx" by (simp_all add: fx1_def)
  have same: "c_principal d = c_principal c" "c_subs d = List.insert key (c_subs c)" "c_out d = out" by (simp_all add: d_def)
  {
    assume "r = SlowConsumer"
    then have "conn_local (hub_limits h) (insert conn (closing fx)) (W \<union> set (fx_wakes fx)) conn d"
      using B prepared_exempt by auto
    then show "hub_mid W (put_account aid (subscribed conn key s d a) h, fx_push_close conn e fx1)"
      using B same fx1 by (intro subscribed_mid [OF mid a c s same(1,2)]) (auto simp: fx_le_def)
  next
    assume "r = Pushed"
    then have prep: "conn_prepared (hub_limits h) (closing fx1) (W \<union> set (fx_wakes fx1)) conn d" using B fx1 by simp
    obtain q' res where qr: "push_frame pe (hub_limits h) f (c_out d) = (q', res)" by fastforce
    obtain d' fx2 where po: "pushed_or_closed conn d (q', res) fx1 = (d', fx2)" by fastforce
    have good: "push_good (hub_limits h) (c_out d) (frame_item pe f) (q', res)"
      using push_frame_good [of "c_out d" "hub_limits h" pe f] prep qr by (simp add: conn_prepared_def)
    note P = pushed_or_closed_prepared [OF prep good frame_item_newest po]
    have "hub_mid W (put_account aid (subscribed conn key s d' a) h, fx2)"
    proof (rule subscribed_mid [OF mid a c s])
      show "fx_le fx fx2" using P fx1 by (simp add: fx_le_def)
      show "item_link (a_streams a) (c_subs d') it" if "it \<in> set (o_items (c_out d'))" for it
        using that B P same push_good_items [OF good] by auto
    qed (use P same in simp_all)
    moreover have "enqueue pe aid conn f (put_account aid (subscribed conn key s d a) h, fx1)
        = (put_account aid (subscribed conn key s d' a) h, fx2)"
      using qr po by (simp add: enqueue_def put_account_def subscribed_def put_conn_def update_conv' update_update)
    ultimately show "hub_mid W (enqueue pe aid conn f (put_account aid (subscribed conn key s d a) h, fx1))" by simp
  }
qed

lemma on_subscribe_mid:
  assumes mid: "hub_mid W (h, fx)" and conn: "map_of (hub_conn_account h) conn = Some aid"
  shows "hub_mid W (on_subscribe pe aid conn sub (h, fx))"
proof (cases "sub_stream sub")
  case None
  with enqueue_mid [OF mid] show ?thesis by (simp add: on_subscribe_def Let_def)
next
  case (Some st)
  let ?l = "hub_limits h"
  let ?bad = "sr_publisher st = [] \<or> length (sr_publisher st) > max_id_bytes ?l
      \<or> sr_channel st = [] \<or> length (sr_channel st) > max_id_bytes ?l"
  define key where "key = \<lparr>sk_publisher = sr_publisher st, sk_channel = sr_channel st\<rparr>"
  from hub_mid_conn [OF mid conn] obtain a0 c where a0: "map_of (hub_accounts h) aid = Some a0"
    and c0: "map_of (a_conns a0) conn = Some c" by blast
  show ?thesis
  proof (cases ?bad)
    case True
    with enqueue_mid [OF mid] Some show ?thesis by (simp add: on_subscribe_def Let_def)
  next
    case fine: False
    show ?thesis
    proof (cases "key \<notin> set (c_subs c) \<and> length (c_subs c) \<ge> max_subscriptions_per_connection ?l")
      case True
      with fine Some a0 c0 hub_mid_push_close [OF mid] show ?thesis by (simp add: on_subscribe_def key_def Let_def)
    next
      case room: False
      obtain ok h1 where ens: "ensure_stream aid key h = (ok, h1)" by fastforce
      note E = ensure_stream_mid [OF mid conn ens]
      then have mid1: "hub_mid W (h1, fx)" and l: "hub_limits h1 = ?l" by blast+
      from E a0 c0 obtain a where a: "map_of (hub_accounts h1) aid = Some a" and c: "map_of (a_conns a) conn = Some c"
        and found: "ok \<longrightarrow> map_of (a_streams a) key \<noteq> None" by auto
      show ?thesis
      proof (cases ok)
        case False
        with fine Some a0 c0 room ens hub_mid_push_close [OF mid1] show ?thesis
          by (auto simp: on_subscribe_def key_def [symmetric] Let_def)
      next
        case True
        with found obtain s where s: "map_of (a_streams a) key = Some s" by blast
        have "acct_core ?l (closing fx) (W \<union> set (fx_wakes fx)) a"
          using hub_mid_account(1) [OF mid1 a] l by (simp add: acct_sound_def)
        then have sk: "s_key s = key" using acct_core_stream s by (metis stream_sound_def)
        obtain es k epoch seq tr where fill: "subscribe_fill (sub_since sub) s = (es, k, epoch, seq, tr)"
          by (metis prod_cases5)
        obtain out n' r where push: "push_backfill (hub_limits h1) key k epoch es (purge_stream key (c_out c), fx_queued fx)
            = (out, n', r)" by (metis prod_cases3)
        have fill': "subscribe_fill (sub_since sub) (s\<lparr>s_subscribers := x\<rparr>) = (es, k, epoch, seq, tr)" for x
          using fill subscribe_fill_cong [of "s\<lparr>s_subscribers := x\<rparr>" s] by simp
        have "key \<in> set (c_subs c) \<or> length (c_subs c) < max_subscriptions_per_connection (hub_limits h1)"
          using room l by auto
        note T = subscribe_tail_mid [OF mid1 a c s this fill push]
        show ?thesis
        proof (cases r)
          case Pushed
          with T(2) fine Some a0 c0 room ens True a c s sk fill' push l show ?thesis
            by (auto simp: on_subscribe_def key_def [symmetric] subscribed_def Let_def)
        next
          case SlowConsumer
          with T(1) fine Some a0 c0 room ens True a c s sk fill' push l show ?thesis
            by (auto simp: on_subscribe_def key_def [symmetric] subscribed_def Let_def)
        qed
      qed
    qed
  qed
qed


section \<open>Unsubscribing\<close>

lemma acct_core_unsubscribe:
  fixes key :: stream_key
  assumes core: "acct_core l X W a" and c: "map_of (a_conns a) conn = Some c"
  defines "c' \<equiv> c\<lparr>c_subs := removeAll key (c_subs c), c_out := purge_stream key (c_out c)\<rparr>"
  shows "acct_core l X W ((put_conn conn c' a)\<lparr>a_streams := drop_subscriber conn key (a_streams a)\<rparr>)"
proof -
  let ?ss = "drop_subscriber conn key (a_streams a)" and ?conns = "AList.update conn c' (a_conns a)"
  have dist: "keys_distinct (a_streams a)" using core by (simp add: acct_core_def)
  note shape = drop_subscriber_shape [OF dist, of conn key]
  have away: "map_of ?ss key' = map_of (a_streams a) key'" if "key' \<noteq> key" for key'
    using that by (simp add: map_of_drop_subscriber)
  have kept: "\<exists>s'. map_of ?ss key' = Some s' \<and> s_ring s' = s_ring s \<and> cid \<in> set (s_subscribers s')"
    if "map_of (a_streams a) key' = Some s" "cid \<in> set (s_subscribers s)" "cid \<noteq> conn" for key' s cid
  proof (cases "key' = key")
    case True
    from left_stream_kept [of cid s conn] that obtain s' where "left_stream conn s = Some s'" by blast
    with True that left_stream_SomeD [OF this] show ?thesis by (auto simp: map_of_drop_subscriber)
  next
    case False
    with that away show ?thesis by simp
  qed
  have mine: "conn_local l X W conn c' \<and> conn_links ?ss (a_online a) conn c'"
  proof -
    note L = acct_core_conn [OF core c]
    have q: "outbound_ok (purge_stream key (c_out c))" "queue_in_order (purge_stream key (c_out c))"
      using L(1) by (auto simp: conn_local_def purge_stream_ok purge_stream_order)
    have "length (removeAll key (c_subs c)) \<le> max_subscriptions_per_connection l"
      using L(1) by (intro order_trans [OF length_removeAll_less_eq]) (simp add: conn_local_def)
    with L(1) q have "conn_local l X W conn c'"
      by (auto simp: conn_local_def c'_def distinct_removeAll purge_stream_within)
    moreover have "conn_links ?ss (a_online a) conn c'"
      using L(2) away by (auto simp: conn_links_def item_link_def c'_def)
    ultimately show ?thesis ..
  qed
  have others: "conn_local l X W cid d \<and> conn_links ?ss (a_online a) cid d"
    if d: "map_of (a_conns a) cid = Some d" and ne: "cid \<noteq> conn" for cid d
  proof -
    note L = acct_core_conn [OF core d]
    have sub: "\<exists>s s'. map_of (a_streams a) key' = Some s \<and> map_of ?ss key' = Some s' \<and> s_ring s' = s_ring s
        \<and> cid \<in> set (s_subscribers s')" if "key' \<in> set (c_subs d)" for key'
      using L(2) that kept ne unfolding conn_links_def by metis
    have "item_link ?ss (c_subs d) it" if it: "it \<in> set (o_items (c_out d))" for it
    proof -
      have "item_link (a_streams a) (c_subs d) it" using L(2) it by (simp add: conn_links_def)
      then show ?thesis using sub unfolding item_link_def by (metis option.inject)
    qed
    moreover have "\<forall>key' \<in> set (c_subs d). \<exists>s. map_of ?ss key' = Some s \<and> cid \<in> set (s_subscribers s)"
      using sub by blast
    ultimately show ?thesis using L by (simp add: conn_links_def)
  qed
  have streams: "stream_sound l ?conns key' t" if t: "map_of ?ss key' = Some t" for key' t
  proof (cases "key' = key")
    case True
    with t obtain s where s: "map_of (a_streams a) key = Some s" "left_stream conn s = Some t"
      by (auto simp: map_of_drop_subscriber bind_eq_Some_conv)
    from acct_core_stream [OF core s(1)] left_stream_SomeD [OF s(2)] True show ?thesis
      by (auto simp: stream_sound_def update_conv' distinct_removeAll)
  next
    case False
    with t away have "map_of (a_streams a) key' = Some t" by simp
    from acct_core_stream [OF core this] False c show ?thesis
      by (fastforce simp: stream_sound_def update_conv' c'_def)
  qed
  have online: "\<exists>d. map_of ?conns cid = Some d \<and> c_principal d = p" if "map_of (a_online a) p = Some (cid, r)" for p cid r
  proof -
    from core that obtain d where "map_of (a_conns a) cid = Some d" "c_principal d = p" unfolding acct_core_def by blast
    with c show ?thesis by (auto simp: update_conv' c'_def)
  qed
  have conns: "conn_local l X W cid d \<and> conn_links ?ss (a_online a) cid d" if "map_of ?conns cid = Some d" for cid d
    using that mine others by (auto simp: update_conv' split: if_splits)
  show ?thesis
    using core c shape conns streams online
    by (auto simp add: acct_core_def put_conn_def distinct_update length_update)
qed

lemma unsubscribe_mid:
  assumes mid: "hub_mid W (h, fx)" and conn: "map_of (hub_conn_account h) conn = Some aid"
  shows "hub_mid W (unsubscribe aid conn key h, fx)"
proof -
  from hub_mid_conn [OF mid conn] obtain a c where a: "map_of (hub_accounts h) aid = Some a"
    and c: "map_of (a_conns a) conn = Some c" by blast
  let ?c = "c\<lparr>c_subs := removeAll key (c_subs c), c_out := purge_stream key (c_out c)\<rparr>"
  let ?a = "(put_conn conn ?c a)\<lparr>a_streams := drop_subscriber conn key (a_streams a)\<rparr>"
  note sound = hub_mid_account(1) [OF mid a]
  then have "acct_core (hub_limits h) (closing fx) (W \<union> set (fx_wakes fx)) ?a"
    using acct_core_unsubscribe [OF _ c, of _ _ _ key] by (simp add: acct_sound_def)
  then have "acct_sound (hub_limits h) (closing fx) (W \<union> set (fx_wakes fx)) ?a"
    using sound by (simp add: acct_sound_def put_conn_def)
  moreover have "map_of (a_conns ?a) cid = None \<longleftrightarrow> map_of (a_conns a) cid = None" for cid
    using c by (auto simp: put_conn_def update_conv')
  ultimately have "hub_mid W (put_account aid ?a h, fx)"
    using hub_mid_put_account [OF mid a _ fx_le_refl] by (simp add: put_conn_def update_nonempty)
  moreover have "unsubscribe aid conn key h = put_account aid ?a h"
    using a c by (simp add: unsubscribe_def put_conn_def)
  ultimately show ?thesis by simp
qed

lemma route_mid:
  assumes "hub_mid W (h, fx)" and "map_of (hub_conn_account h) conn = Some aid"
  shows "hub_mid W (route pe aid conn f (h, fx))"
  using assms on_envelope_mid [OF assms] on_subscribe_mid [OF assms] unsubscribe_mid [OF assms] enqueue_mid [OF assms(1)]
    hub_mid_push_close [OF assms(1)]
  by (auto simp: route_def split: option.splits body.splits)


section \<open>The server's calls\<close>

lemma hub_mid_rate:
  assumes mid: "hub_mid W (h, fx)" and a: "map_of (hub_accounts h) aid = Some a"
    and b: "bucket_ok (account_burst_bytes (hub_limits h)) b"
  shows "hub_mid W (put_account aid (a\<lparr>a_rate := b\<rparr>) h, fx)"
  using hub_mid_put_account [OF mid a acct_sound_rate [OF hub_mid_account(1) [OF mid a] b] fx_le_refl]
    hub_mid_account(2) [OF mid a] by simp

lemma spend_queued_mid: "hub_mid W (h, fx) \<Longrightarrow> hub_mid W (spend_queued aid (h, fx))"
  by (auto simp: spend_queued_def split: option.split
      intro!: hub_mid_rate bucket_spend_ok acct_sound_bucket hub_mid_account(1))

lemma receive_inv:
  assumes "hub_inv W h" and "receive pe conn f h = (h', acts)"
  shows "hub_inv (after_actions acts W) h' \<and> (\<forall>c g. Close c g \<in> set acts \<longrightarrow> map_of (hub_conn_account h') c = None)"
proof (cases "map_of (hub_conn_account h) conn")
  case None
  with assms show ?thesis by (simp add: receive_def after_actions_def)
next
  case (Some aid)
  obtain h1 fx1 where r: "route pe aid conn f (h, effects_default) = (h1, fx1)" by fastforce
  have "hub_mid W (h1, fx1)" using route_mid [OF assms(1) [unfolded hub_inv_def] Some, of pe f] r by simp
  then have "hub_mid W (spend_queued aid (h1, fx1))" by (rule spend_queued_mid)
  with finish_inv [OF this] assms(2) Some r show ?thesis by (simp add: receive_def)
qed

lemma deliver_inv:
  assumes "hub_inv W h" and "deliver pe conn f h = (h', acts)"
  shows "hub_inv (after_actions acts W) h' \<and> (\<forall>c g. Close c g \<in> set acts \<longrightarrow> map_of (hub_conn_account h') c = None)"
proof (cases "map_of (hub_conn_account h) conn")
  case None
  with assms show ?thesis by (simp add: deliver_def after_actions_def)
next
  case (Some aid)
  have "hub_mid W (enqueue pe aid conn f (h, effects_default))"
    using enqueue_mid assms(1) unfolding hub_inv_def by blast
  with finish_inv [OF this] assms(2) Some show ?thesis by (simp add: deliver_def)
qed

lemma close_conn_inv:
  assumes "hub_inv W h" and "close_conn pe conn frm h = (h', acts)"
  shows "hub_inv (after_actions acts W) h' \<and> (\<forall>c g. Close c g \<in> set acts \<longrightarrow> map_of (hub_conn_account h') c = None)"
proof (cases frm)
  case None
  have "hub_mid W (forget pe conn (h, effects_default))"
    using forget_mid [OF assms(1) [unfolded hub_inv_def], of conn effects_default pe] by (simp add: effects_default_def)
  with finish_inv [OF this] assms(2) None show ?thesis by (simp add: close_conn_def)
next
  case (Some f)
  have "hub_mid W (h, fx_push_close conn f effects_default)"
    using assms(1) hub_mid_push_close unfolding hub_inv_def by blast
  with finish_inv [OF this] assms(2) Some show ?thesis by (simp add: close_conn_def)
qed

lemma throttle_notice_sound:
  assumes sound: "acct_sound l (closing fx) (W \<union> set (fx_wakes fx)) a"
    and notice: "throttle_notice pe l conn wait now (a, fx) = (a', fx')"
  shows "acct_sound l (closing fx') (W \<union> set (fx_wakes fx')) a' \<and> fx_le fx fx' \<and> conns_alike (a_conns a) (a_conns a')"
proof (cases "wait \<ge> THROTTLE_NOTICE_MIN_WAIT_MS \<and> (\<exists>c. map_of (a_conns a) conn = Some c \<and> notice_due now c)")
  case False
  then have "a' = a" "fx' = fx" using notice by (auto simp: throttle_notice_def split: option.splits if_splits)
  with sound show ?thesis by simp
next
  case True
  then obtain c where c: "map_of (a_conns a) conn = Some c" and due: "notice_due now c" by blast
  let ?c = "c\<lparr>c_throttle_notice_ms := Some now\<rparr>"
  let ?f = "error Throttled 0 ''account over its work rate; reading slowed''"
  obtain out r where qr: "push_frame pe l ?f (c_out c) = (out, r)" by fastforce
  obtain c' fx1 where po: "pushed_or_closed conn ?c (out, r) fx = (c', fx1)" by fastforce
  have eq: "a' = put_conn conn c' a" "fx' = fx1" using notice True c due qr po by (simp_all add: throttle_notice_def)
  have po': "pushed_or_closed conn ?c (push_frame pe l ?f (c_out c)) fx = (c', fx1)" using po qr by (simp only:)
  have "acct_sound l (closing fx1) (W \<union> set (fx_wakes fx1)) (put_conn conn c' a) \<and> fx_le fx fx1"
    by (rule acct_sound_push_frame [OF sound c _ _ _ _ po']) simp_all
  moreover have "c_principal c' = c_principal c" "c_subs c' = c_subs c"
    using po by (auto simp: pushed_or_closed_def conn_arm_def Let_def split: push_result.splits if_splits)
  then have "conns_alike (a_conns a) (a_conns (put_conn conn c' a))"
    using conns_alike_update [OF c] by (simp add: put_conn_def)
  ultimately show ?thesis using eq by simp
qed

definition charge_noticed ::
    "(frame \<Rightarrow> bytes) \<Rightarrow> conn_id \<Rightarrow> nat \<Rightarrow> nat \<Rightarrow> hub \<Rightarrow> account \<Rightarrow> account \<times> effects" where
  "charge_noticed pe conn n now h a =
     (let l = hub_limits h;
          b = bucket_spend n (bucket_refill now (account_bytes_per_second l) (account_burst_bytes l) (a_rate a))
      in throttle_notice pe l conn (bucket_wait_ms (account_bytes_per_second l) b) now (a\<lparr>a_rate := b\<rparr>, effects_default))"

lemma charge_noticed_mid:
  assumes mid: "hub_mid W (h, effects_default)" and conn: "map_of (hub_conn_account h) conn = Some aid"
    and a: "map_of (hub_accounts h) aid = Some a" and t: "charge_noticed pe conn n now h a = (a', fx)"
  shows "hub_mid W (put_account aid a' h, fx)"
    and "\<exists>w b. throttle_notice pe (hub_limits h) conn w now (a\<lparr>a_rate := b\<rparr>, effects_default) = (a', fx)"
    and "charge pe conn n now h = (h', wait, acts) \<Longrightarrow> finish pe (put_account aid a' h, fx) = (h', acts)"
proof -
  from hub_mid_conn [OF mid conn] a obtain c where c: "map_of (a_conns a) conn = Some c" by auto
  let ?l = "hub_limits h"
  let ?b = "bucket_spend n (bucket_refill now (account_bytes_per_second ?l) (account_burst_bytes ?l) (a_rate a))"
  have t': "throttle_notice pe ?l conn (bucket_wait_ms (account_bytes_per_second ?l) ?b) now
      (a\<lparr>a_rate := ?b\<rparr>, effects_default) = (a', fx)" using t by (simp add: charge_noticed_def Let_def)
  then show "\<exists>w b. throttle_notice pe ?l conn w now (a\<lparr>a_rate := b\<rparr>, effects_default) = (a', fx)" by blast
  note sound = hub_mid_account(1) [OF mid a]
  have "bucket_ok (account_burst_bytes ?l) ?b"
    using acct_sound_bucket [OF sound] by (intro bucket_spend_ok bucket_refill_ok)
  from throttle_notice_sound [OF acct_sound_rate [OF sound this] t']
  have T: "acct_sound ?l (closing fx) (W \<union> set (fx_wakes fx)) a'" "fx_le effects_default fx"
    "conns_alike (a_conns a) (a_conns a')" by simp_all
  have "a_conns a \<noteq> []" using c by auto
  from hub_mid_put_alike [OF mid a T this] show "hub_mid W (put_account aid a' h, fx)" .
  show "finish pe (put_account aid a' h, fx) = (h', acts)" if "charge pe conn n now h = (h', wait, acts)"
    using that conn a t' by (auto simp: charge_def Let_def split: prod.splits)
qed

lemma charge_inv:
  assumes inv: "hub_inv W h" and ch: "charge pe conn n now h = (h', wait, acts)"
  shows "hub_inv (after_actions acts W) h' \<and> (\<forall>c g. Close c g \<in> set acts \<longrightarrow> map_of (hub_conn_account h') c = None)"
proof (cases "map_of (hub_conn_account h) conn")
  case None
  with assms show ?thesis by (simp add: charge_def after_actions_def Let_def)
next
  case (Some aid)
  note mid = inv [unfolded hub_inv_def]
  from hub_mid_conn [OF mid Some] obtain a where a: "map_of (hub_accounts h) aid = Some a" by blast
  obtain a' fx where t: "charge_noticed pe conn n now h a = (a', fx)" by fastforce
  from finish_inv [OF charge_noticed_mid(1) [OF mid Some a t] charge_noticed_mid(3) [OF mid Some a t ch]]
  show ?thesis .
qed

lemma queue_in_order_pops: "queue_in_order q \<Longrightarrow> queue_in_order (snd (outbound_take pe b q))"
proof (rule outbound_take_pops [of pe b q])
  fix n
  assume q: "queue_in_order q" and take: "outbound_take pe b q = (handed_over pe (fst (pops n q)), snd (pops n q))"
  have "o_items (snd (outbound_take pe b q)) = drop n (o_items q)" using take pops_items [of n q] by simp
  moreover have "sorted_wrt (<) (map it_seq (filter (\<lambda>it. it_stream it = Some key) (drop n (o_items q))))" for key
  proof -
    have "subseq (drop n (o_items q)) (o_items q)" by (metis append_take_drop_id list_emb_append2 subseq_order.refl)
    then have "subseq (map it_seq (filter (\<lambda>it. it_stream it = Some key) (drop n (o_items q))))
        (map it_seq (filter (\<lambda>it. it_stream it = Some key) (o_items q)))"
      by (intro subseq_map subseq_filter)
    with q show ?thesis unfolding queue_in_order_def by (blast intro: sorted_wrt_subseq)
  qed
  ultimately show ?thesis by (simp add: queue_in_order_def)
qed

lemma outbound_take_subset: "set (o_items (snd (outbound_take pe b q))) \<subseteq> set (o_items q)"
  by (rule outbound_take_pops [of pe b q]) (use pops_items [of _ q] set_drop_subset in fastforce)

lemma hub_mid_disarmed:
  assumes mid: "hub_mid W (h, fx)"
    and disarmed: "\<And>aid a c. map_of (hub_accounts h) aid = Some a \<Longrightarrow> map_of (a_conns a) conn = Some c \<Longrightarrow> \<not> c_armed c"
  shows "hub_mid (W - {conn}) (h, fx)"
proof -
  have "acct_sound (hub_limits h) (closing fx) (W - {conn} \<union> set (fx_wakes fx)) a"
    if a: "map_of (hub_accounts h) aid = Some a" for aid a
  proof -
    note sound = hub_mid_account(1) [OF mid a]
    have "conn_local (hub_limits h) (closing fx) (W - {conn} \<union> set (fx_wakes fx)) cid c"
      if c: "map_of (a_conns a) cid = Some c" for cid c
    proof -
      have "conn_local (hub_limits h) (closing fx) (W \<union> set (fx_wakes fx)) cid c"
        using sound c unfolding acct_sound_def by (blast intro: acct_core_conn)
      with disarmed [OF a, of c] c show ?thesis by (auto simp: conn_local_def)
    qed
    with sound show ?thesis by (simp add: acct_sound_def acct_core_def)
  qed
  with mid show ?thesis by (simp add: hub_mid_def)
qed

lemma take_outbound_inv:
  assumes inv: "hub_inv W h" and tk: "take_outbound pe conn b h = (h', t)"
  shows "hub_inv (if tk_more t then W else W - {conn}) h'"
proof (cases "map_of (hub_conn_account h) conn")
  case None
  note mid = inv [unfolded hub_inv_def]
  have "hub_mid (W - {conn}) (h, effects_default)"
    by (rule hub_mid_disarmed [OF mid]) (use hub_mid_elsewhere [OF mid] None in fastforce)
  with tk None show ?thesis by (auto simp: take_outbound_def hub_inv_def)
next
  case (Some aid)
  note mid = inv [unfolded hub_inv_def]
  from hub_mid_conn [OF mid Some] obtain a c where a: "map_of (hub_accounts h) aid = Some a"
    and c: "map_of (a_conns a) conn = Some c" by blast
  let ?out = "snd (outbound_take pe b (c_out c))"
  let ?more = "\<not> outbound_is_empty ?out"
  let ?W = "if ?more then W else W - {conn}"
  let ?c = "c\<lparr>c_out := ?out, c_armed := ?more\<rparr>"
  have eq: "h' = put_account aid (put_conn conn ?c a) h" "tk_more t = ?more"
    using tk Some a c by (auto simp: take_outbound_def Let_def split: prod.splits)
  note sound = hub_mid_account(1) [OF mid a]
  have core: "acct_core (hub_limits h) {} W a" using sound by (simp add: acct_sound_def effects_default_def)
  note L = acct_core_conn [OF core c]
  have local: "conn_local (hub_limits h) {} W conn ?c"
    using L(1) outbound_take_ok [of "c_out c" pe b] outbound_take_within [of "hub_limits h" "c_out c" pe b]
      queue_in_order_pops [of "c_out c" pe b] outbound_take_subset [of pe b "c_out c"]
    by (auto simp: conn_local_def outbound_is_empty_def)
  have "acct_sound (hub_limits h) {} W (put_conn conn ?c a)"
  proof (rule acct_sound_put_conn [OF _ c _ _ local])
    show "acct_sound (hub_limits h) {} W a" using sound by (simp add: effects_default_def)
    show "item_link (a_streams a) (c_subs c) it" if "it \<in> set (o_items (c_out ?c))" for it
      using that outbound_take_subset [of pe b "c_out c"] L(2) by (auto simp: conn_links_def)
  qed simp_all
  moreover have "map_of (a_conns (put_conn conn ?c a)) cid = None \<longleftrightarrow> map_of (a_conns a) cid = None" for cid
    using c by (auto simp: put_conn_def update_conv')
  ultimately have mid': "hub_mid W (h', effects_default)"
    unfolding eq(1) using hub_mid_put_account [OF mid a _ fx_le_refl]
    by (simp add: effects_default_def put_conn_def update_nonempty)
  have "hub_mid (W - {conn}) (h', effects_default)" if "\<not> ?more"
  proof (rule hub_mid_disarmed [OF mid'])
    fix bid a1 d assume b: "map_of (hub_accounts h') bid = Some a1" and d: "map_of (a_conns a1) conn = Some d"
    have "map_of (hub_conn_account h') conn = Some aid" using Some by (simp add: eq put_account_def)
    then have "bid = aid" using hub_mid_account(3) [OF mid' b, of conn] d by simp
    with b d that show "\<not> c_armed d" by (auto simp: eq put_account_def put_conn_def update_conv')
  qed
  with mid' show ?thesis by (simp add: eq(2) hub_inv_def)
qed


section \<open>Admission\<close>

text \<open>What a newcomer is sent before anything else: the welcome, and the presence of everyone online.\<close>

definition greeting :: "limits \<Rightarrow> nat \<Rightarrow> revoker \<Rightarrow> account \<Rightarrow> frame list" where
  "greeting l now rvk a = welcome_of l now rvk # map (presence_of a) (a_online a)"

definition greeting_fits :: "(frame \<Rightarrow> bytes) \<Rightarrow> account_id \<Rightarrow> nat \<Rightarrow> revoker \<Rightarrow> hub \<Rightarrow> bool" where
  "greeting_fits pe aid now rvk h \<longleftrightarrow>
     sum_list (map (length \<circ> encode_frame pe)
       (greeting (hub_limits h) now rvk (case map_of (hub_accounts h) aid of Some a \<Rightarrow> a | None \<Rightarrow> account_new)))
     \<le> queue_bytes (hub_limits h)"

lemma greet_queue:
  "o_items (fold (\<lambda>f q. fst (push_frame pe l f q)) fs q) = o_items q @ map (frame_item pe) fs
   \<and> o_bytes (fold (\<lambda>f q. fst (push_frame pe l f q)) fs q) = o_bytes q + sum_list (map (length \<circ> encode_frame pe) fs)
   \<and> o_session_events (fold (\<lambda>f q. fst (push_frame pe l f q)) fs q) = o_session_events q
   \<and> o_telemetry (fold (\<lambda>f q. fst (push_frame pe l f q)) fs q) = o_telemetry q
   \<and> (outbound_ok q \<longrightarrow> outbound_ok (fold (\<lambda>f q. fst (push_frame pe l f q)) fs q))"
proof (induction fs arbitrary: q)
  case (Cons f fs)
  have "o_items (fst (push_frame pe l f q)) = o_items q @ [frame_item pe f]
      \<and> o_bytes (fst (push_frame pe l f q)) = o_bytes q + length (encode_frame pe f)
      \<and> o_session_events (fst (push_frame pe l f q)) = o_session_events q
      \<and> o_telemetry (fst (push_frame pe l f q)) = o_telemetry q"
    by (simp add: push_frame_def outbound_push_def frame_item_def Let_def)
  moreover have "outbound_ok q \<longrightarrow> outbound_ok (fst (push_frame pe l f q))"
    using push_frame_ok [of q pe l f] by (metis prod.collapse)
  ultimately show ?case using Cons [of "fst (push_frame pe l f q)"] by simp
qed simp

lemma greeted_conn:
  assumes c: "c = \<lparr>c_principal = p, c_chain = ch, c_out = fold (\<lambda>f q. fst (push_frame pe l f q)) fs outbound_default,
      c_subs = [], c_armed = False, c_throttle_notice_ms = None\<rparr>"
    and fits: "sum_list (map (length \<circ> encode_frame pe) fs) \<le> queue_bytes l"
    and arm: "conn_arm cid (c, effects_default) = (c', fx)"
  shows "conn_local l (closing fx) (W \<union> set (fx_wakes fx)) cid c' \<and> c_subs c' = [] \<and> c_principal c' = p
    \<and> (\<forall>it \<in> set (o_items (c_out c')). it_stream it = None) \<and> fx_close fx = [] \<and> cid \<in> set (fx_wakes fx)"
proof -
  let ?q = "fold (\<lambda>f q. fst (push_frame pe l f q)) fs outbound_default"
  note G = greet_queue [of pe l fs outbound_default]
  have "outbound_within l ?q" using G fits by (simp add: outbound_within_def outbound_default_def)
  moreover have none: "\<forall>it \<in> set (o_items ?q). it_stream it = None"
    using G by (auto simp: outbound_default_def frame_item_def)
  then have "queue_in_order ?q" by (auto simp: queue_in_order_def filter_empty_conv)
  moreover have "c' = c\<lparr>c_armed := True\<rparr>" "fx = \<lparr>fx_wakes = [cid], fx_close = [], fx_queued = 1\<rparr>"
    using arm c by (simp_all add: conn_arm_def effects_default_def effects_wake_def Let_def)
  ultimately show ?thesis using G none c by (simp add: conn_local_def)
qed

lemma acct_core_join:
  assumes core: "acct_core l X W a" and new: "map_of (a_conns a) cid = None" "map_of (a_online a) p = None"
    and room: "length (a_conns a) < max_connections_per_account l"
    and c: "conn_local l X' W' cid c" "c_subs c = []" "c_principal c = p" "\<forall>it \<in> set (o_items (c_out c)). it_stream it = None"
    and mono: "X \<subseteq> X'" "W \<subseteq> W'"
  shows "acct_core l X' W' (a\<lparr>a_conns := AList.update cid c (a_conns a), a_online := AList.update p (cid, role) (a_online a)\<rparr>)"
proof -
  let ?conns = "AList.update cid c (a_conns a)" and ?online = "AList.update p (cid, role) (a_online a)"
  have "conn_local l X' W' i d \<and> conn_links (a_streams a) ?online i d" if d: "map_of ?conns i = Some d" for i d
  proof (cases "i = cid")
    case True
    with d c show ?thesis by (auto simp: conn_links_def item_link_def update_conv')
  next
    case False
    with d have d': "map_of (a_conns a) i = Some d" by (simp add: update_conv')
    from acct_core_conn [OF core d'] have "conn_links (a_streams a) (a_online a) i d" by simp
    with new(2) have "conn_links (a_streams a) ?online i d" by (auto simp: conn_links_def update_conv')
    with acct_core_conn(1) [OF core d'] mono show ?thesis by (auto intro: conn_local_mono)
  qed
  moreover have "stream_sound l ?conns key s" if s: "map_of (a_streams a) key = Some s" for key s
    using acct_core_stream [OF core s] new(1) by (fastforce simp: stream_sound_def update_conv')
  moreover have "\<exists>d. map_of ?conns i = Some d \<and> c_principal d = q" if o: "map_of ?online q = Some (i, r)" for q i r
  proof (cases "q = p")
    case True
    with o c show ?thesis by (auto simp: update_conv')
  next
    case False
    with o have "map_of (a_online a) q = Some (i, r)" by (simp add: update_conv')
    with core obtain d where "map_of (a_conns a) i = Some d" "c_principal d = q" unfolding acct_core_def by blast
    with new(1) show ?thesis by (auto simp: update_conv')
  qed
  ultimately show ?thesis
    using core new room by (auto simp: acct_core_def distinct_update length_update)
qed

lemma account_new_sound: "acct_sound l X W account_new"
  by (simp add: acct_sound_def acct_core_def account_new_def bucket_new_ok)


lemma hub_mid_fresh:
  assumes mid: "hub_mid W (h, fx)"
  shows "map_of (hub_conn_account h) (hub_next_conn h) = None"
    and "map_of (hub_accounts h) aid = Some a \<Longrightarrow> map_of (a_conns a) (hub_next_conn h) = None"
proof -
  show none: "map_of (hub_conn_account h) (hub_next_conn h) = None"
    using hub_mid_structure(4) [OF mid, of "hub_next_conn h"] by (cases "map_of (hub_conn_account h) (hub_next_conn h)") auto
  show "map_of (hub_accounts h) aid = Some a \<Longrightarrow> map_of (a_conns a) (hub_next_conn h) = None"
    using hub_mid_elsewhere [OF mid] none by simp
qed

lemma hub_mid_join:
  assumes mid: "hub_mid W (h, effects_default)"
    and a0: "a0 = (case map_of (hub_accounts h) aid of Some a \<Rightarrow> a | None \<Rightarrow> account_new)"
    and room: "map_of (hub_accounts h) aid = None \<Longrightarrow> length (hub_accounts h) < max_accounts (hub_limits h)"
    and sound: "acct_sound (hub_limits h) (closing fx) (W \<union> set (fx_wakes fx)) a'"
    and conns: "a_conns a' = AList.update (hub_next_conn h) c (a_conns a0)"
  shows "hub_mid W ((put_account aid a' h)\<lparr>hub_next_conn := hub_next_conn h + 1,
    hub_conn_account := AList.update (hub_next_conn h) aid (hub_conn_account h)\<rparr>, fx)"
proof -
  let ?cid = "hub_next_conn h"
  let ?h = "(put_account aid a' h)\<lparr>hub_next_conn := ?cid + 1, hub_conn_account := AList.update ?cid aid (hub_conn_account h)\<rparr>"
  note mid' = hub_mid_fx [OF mid, of fx]
  have le: "fx_le effects_default fx" by (simp add: fx_le_def effects_default_def)
  note fresh = hub_mid_fresh [OF mid]
  have a0_conns: "map_of (a_conns a0) cid \<noteq> None \<Longrightarrow> map_of (hub_conn_account h) cid = Some aid" for cid
    using hub_mid_account(3) [OF mid, of aid a0 cid] a0 by (auto simp: account_new_def split: option.splits)
  show ?thesis
  proof (rule hub_midI)
    fix bid b assume b: "map_of (hub_accounts ?h) bid = Some b"
    show "acct_sound (hub_limits ?h) (closing fx) (W \<union> set (fx_wakes fx)) b \<and> (a_conns b \<noteq> [] \<or> a_streams b \<noteq> [])"
    proof (cases "bid = aid")
      case True
      with b sound conns show ?thesis by (auto simp: put_account_def update_conv' update_nonempty)
    next
      case False
      with b have b': "map_of (hub_accounts h) bid = Some b" by (simp add: put_account_def update_conv')
      from hub_mid_account(1,2) [OF mid' [OF le] b'] show ?thesis by (simp add: put_account_def)
    qed
    fix cid assume cid: "map_of (a_conns b) cid \<noteq> None"
    show "map_of (hub_conn_account ?h) cid = Some bid"
    proof (cases "bid = aid")
      case True
      with b cid conns a0_conns show ?thesis by (auto simp: put_account_def update_conv' split: if_splits)
    next
      case False
      with b have b': "map_of (hub_accounts h) bid = Some b" by (simp add: put_account_def update_conv')
      from hub_mid_account(3) [OF mid b' cid] fresh(1) show ?thesis by (auto simp: update_conv')
    qed
  next
    fix cid bid assume k: "map_of (hub_conn_account ?h) cid = Some bid"
    show "cid < hub_next_conn ?h \<and> (\<exists>b. map_of (hub_accounts ?h) bid = Some b \<and> map_of (a_conns b) cid \<noteq> None)"
    proof (cases "cid = ?cid")
      case True
      with k conns show ?thesis by (auto simp: put_account_def update_conv')
    next
      case False
      with k have k': "map_of (hub_conn_account h) cid = Some bid" by (simp add: update_conv')
      from hub_mid_conn [OF mid k'] obtain b d where b: "map_of (hub_accounts h) bid = Some b" "map_of (a_conns b) cid = Some d" .
      then have "\<exists>b. map_of (hub_accounts ?h) bid = Some b \<and> map_of (a_conns b) cid \<noteq> None"
        using a0 conns False by (auto simp: put_account_def update_conv')
      with hub_mid_structure(4) [OF mid k'] show ?thesis by simp
    qed
  qed (use hub_mid_structure [OF mid] room in \<open>auto simp: put_account_def distinct_update length_update\<close>)
qed

lemma presence_of_rate [simp]: "presence_of (a\<lparr>a_rate := b\<rparr>) = presence_of a"
  by (simp add: presence_of_def fun_eq_iff)

lemma connect_debt_mid:
  assumes mid: "hub_mid W (h, effects_default)" and debt: "connect_debt aid now h = (h1, wait)"
  shows "hub_mid W (h1, effects_default) \<and> hub_limits h1 = hub_limits h \<and> hub_next_conn h1 = hub_next_conn h
    \<and> hub_conn_account h1 = hub_conn_account h \<and> map fst (hub_accounts h1) = map fst (hub_accounts h)
    \<and> rel_option (\<lambda>a b. \<exists>r. b = a\<lparr>a_rate := r\<rparr>) (map_of (hub_accounts h) aid) (map_of (hub_accounts h1) aid)"
proof (cases "map_of (hub_accounts h) aid")
  case None
  with mid debt show ?thesis by (simp add: connect_debt_def Let_def)
next
  case (Some a)
  let ?l = "hub_limits h"
  let ?b = "bucket_refill now (account_bytes_per_second ?l) (account_burst_bytes ?l) (a_rate a)"
  have h1: "h1 = put_account aid (a\<lparr>a_rate := ?b\<rparr>) h" using debt Some by (simp add: connect_debt_def Let_def)
  have "bucket_ok (account_burst_bytes ?l) ?b"
    using acct_sound_bucket [OF hub_mid_account(1) [OF mid Some]] by (rule bucket_refill_ok)
  from hub_mid_rate [OF mid Some this] have "hub_mid W (h1, effects_default)" by (simp add: h1)
  moreover have "aid \<in> set (keys (hub_accounts h))" using Some by (rule map_of_SomeD_keys)
  ultimately show ?thesis using Some by (auto simp: h1 put_account_def update_conv' update_keys)
qed

text \<open>The hub with the newcomer in it, before the others are told.\<close>

definition joined ::
    "(frame \<Rightarrow> bytes) \<Rightarrow> account_id \<Rightarrow> hello \<Rightarrow> nat \<Rightarrow> nat \<Rightarrow> revoker \<Rightarrow> hub \<Rightarrow> hub \<times> effects" where
  "joined pe aid hello now mno rvk h =
     (let l = hub_limits h; cid = hub_next_conn h;
          a0 = (case map_of (hub_accounts h) aid of Some a \<Rightarrow> a | None \<Rightarrow> account_new);
          a = a0\<lparr>a_rate := bucket_spend CONNECT_COST_BYTES
                (bucket_refill mno (account_bytes_per_second l) (account_burst_bytes l) (a_rate a0))\<rparr>;
          (c, fx) = conn_arm cid (greeted pe l hello now rvk a, effects_default)
      in ((put_account aid (a\<lparr>a_conns := AList.update cid c (a_conns a),
             a_online := AList.update (h_principal hello) (cid, role_of_i32 (h_role hello)) (a_online a)\<rparr>) h)
            \<lparr>hub_next_conn := cid + 1, hub_conn_account := AList.update cid aid (hub_conn_account h)\<rparr>, fx))"

lemma admit_joined:
  assumes "admit pe aid hello now mno rvk h = (h', cid, acts)"
  shows "cid = hub_next_conn h
    \<and> (\<exists>here others. finish pe (enqueue_all pe aid here others (joined pe aid hello now mno rvk h)) = (h', acts))"
  using assms by (auto simp: admit_def joined_def Let_def split: prod.splits)

lemma joined_mid:
  assumes mid: "hub_mid W (h, effects_default)"
    and a0: "a0 = (case map_of (hub_accounts h) aid of Some a \<Rightarrow> a | None \<Rightarrow> account_new)"
    and new: "map_of (a_online a0) (h_principal hello) = None"
    and room: "length (a_conns a0) < max_connections_per_account (hub_limits h)"
      "map_of (hub_accounts h) aid = None \<Longrightarrow> length (hub_accounts h) < max_accounts (hub_limits h)"
    and fits: "sum_list (map (length \<circ> encode_frame pe) (greeting (hub_limits h) now rvk a0)) \<le> queue_bytes (hub_limits h)"
  shows "hub_mid W (joined pe aid hello now mno rvk h)"
proof -
  let ?l = "hub_limits h" and ?cid = "hub_next_conn h"
  let ?b = "bucket_spend CONNECT_COST_BYTES
      (bucket_refill mno (account_bytes_per_second ?l) (account_burst_bytes ?l) (a_rate a0))"
  let ?a = "a0\<lparr>a_rate := ?b\<rparr>"
  have sound0: "acct_sound ?l {} W a0"
    using hub_mid_account(1) [OF mid, of aid a0] account_new_sound
    by (auto simp: a0 effects_default_def split: option.splits)
  then have sound: "acct_sound ?l {} W ?a"
    by (intro acct_sound_rate bucket_spend_ok bucket_refill_ok acct_sound_bucket)
  obtain c fx where arm: "conn_arm ?cid (greeted pe ?l hello now rvk ?a, effects_default) = (c, fx)" by fastforce
  have "greeted pe ?l hello now rvk ?a = \<lparr>c_principal = h_principal hello, c_chain = presentable (h_chain hello),
      c_out = fold (\<lambda>f q. fst (push_frame pe ?l f q)) (greeting ?l now rvk a0) outbound_default,
      c_subs = [], c_armed = False, c_throttle_notice_ms = None\<rparr>"
    by (simp add: greeted_def greeting_def)
  note C = greeted_conn [OF this fits arm, of W]
  let ?a' = "?a\<lparr>a_conns := AList.update ?cid c (a_conns ?a), a_online := AList.update (h_principal hello)
      (?cid, role_of_i32 (h_role hello)) (a_online ?a)\<rparr>"
  have fresh: "map_of (a_conns ?a) ?cid = None"
    using hub_mid_fresh(2) [OF mid, of aid a0] by (auto simp: a0 account_new_def split: option.splits)
  have "acct_core ?l (closing fx) (W \<union> set (fx_wakes fx)) ?a'"
  proof (rule acct_core_join)
    show "acct_core ?l {} W ?a" using sound by (simp add: acct_sound_def)
  qed (use fresh new room(1) C in \<open>auto\<close>)
  then have "acct_sound ?l (closing fx) (W \<union> set (fx_wakes fx)) ?a'" using sound by (simp add: acct_sound_def)
  from hub_mid_join [OF mid a0 room(2) this, of c]
  have "hub_mid W ((put_account aid ?a' h)\<lparr>hub_next_conn := ?cid + 1,
      hub_conn_account := AList.update ?cid aid (hub_conn_account h)\<rparr>, fx)" by simp
  with arm show ?thesis by (simp add: joined_def a0 [symmetric] Let_def)
qed

text \<open>An admitted hello: its account has room, its principal is new there, and its debt is small.\<close>

lemma connect_admitted:
  assumes inv: "hub_inv W h" and pos: "0 < max_connections_per_account (hub_limits h)"
    and fits: "greeting_fits pe aid now rvk h" and con: "connect pe aid hello now mno rvk h = (h', Inr (cid, acts))"
  obtains h1 where "connect_debt aid mno h = (h1, snd (connect_debt aid mno h))"
    and "admit pe aid hello now mno rvk h1 = (h', cid, acts)" and "hub_next_conn h1 = hub_next_conn h"
    and "hub_mid W (h1, effects_default)" and "hub_mid W (joined pe aid hello now mno rvk h1)"
proof -
  have None: "connect_refusal aid hello h = None" using con by (auto simp: connect_def split: option.splits)
  obtain h1 wait where debt: "connect_debt aid mno h = (h1, wait)" by fastforce
  note D = connect_debt_mid [OF inv [unfolded hub_inv_def] debt]
  have adm: "admit pe aid hello now mno rvk h1 = (h', cid, acts)"
    using con None debt by (auto simp: connect_def split: if_splits prod.splits)
  let ?a = "case map_of (hub_accounts h) aid of Some a \<Rightarrow> a | None \<Rightarrow> account_new"
  let ?a1 = "case map_of (hub_accounts h1) aid of Some a \<Rightarrow> a | None \<Rightarrow> account_new"
  have same: "a_conns ?a1 = a_conns ?a \<and> a_online ?a1 = a_online ?a \<and> presence_of ?a1 = presence_of ?a"
    using D by (cases "map_of (hub_accounts h) aid"; cases "map_of (hub_accounts h1) aid") auto
  have "length (hub_accounts h1) = length (hub_accounts h)" using D by (metis length_map)
  moreover have "map_of (hub_accounts h1) aid = None \<longleftrightarrow> map_of (hub_accounts h) aid = None"
    using D by (cases "map_of (hub_accounts h) aid"; cases "map_of (hub_accounts h1) aid") auto
  moreover have "map_of (hub_accounts h) aid = None \<Longrightarrow> length (hub_accounts h) < max_accounts (hub_limits h)"
    "map_of (a_online ?a) (h_principal hello) = None" "length (a_conns ?a) < max_connections_per_account (hub_limits h)"
    using None pos
    by (auto simp: connect_refusal_def account_new_def Let_def simp del: not_None_eq split: option.splits if_splits)
  moreover have "greeting (hub_limits h) now rvk ?a1 = greeting (hub_limits h) now rvk ?a"
    using same by (simp add: greeting_def)
  ultimately have "hub_mid W (joined pe aid hello now mno rvk h1)"
    using D same fits by (intro joined_mid [OF _ refl]) (simp_all add: greeting_fits_def)
  with D debt adm that show thesis by simp
qed

lemma connect_inv:
  assumes inv: "hub_inv W h" and pos: "0 < max_connections_per_account (hub_limits h)"
    and fits: "greeting_fits pe aid now rvk h" and con: "connect pe aid hello now mno rvk h = (h', Inr (cid, acts))"
  shows "hub_inv (after_actions acts W) h' \<and> cid = hub_next_conn h
    \<and> (\<forall>c g. Close c g \<in> set acts \<longrightarrow> map_of (hub_conn_account h') c = None)"
proof -
  from connect_admitted [OF assms] obtain h1 where adm: "admit pe aid hello now mno rvk h1 = (h', cid, acts)"
    and n: "hub_next_conn h1 = hub_next_conn h" and mid: "hub_mid W (joined pe aid hello now mno rvk h1)" by blast
  from admit_joined [OF adm] obtain here others where cid: "cid = hub_next_conn h1"
    and fin: "finish pe (enqueue_all pe aid here others (joined pe aid hello now mno rvk h1)) = (h', acts)" by blast
  have "hub_mid W (enqueue_all pe aid here others (joined pe aid hello now mno rvk h1))" using enqueue_all_mid [OF mid] by blast
  from finish_inv [OF this fin] cid n show ?thesis by simp
qed

lemma connect_refused_inv:
  assumes inv: "hub_inv W h" and con: "connect pe aid hello now mno rvk h = (h', Inl e)"
  shows "hub_inv W h'"
proof (cases "connect_refusal aid hello h")
  case None
  obtain h1 wait where debt: "connect_debt aid mno h = (h1, wait)" by fastforce
  with con None have "h' = h1" by (auto simp: connect_def split: if_splits prod.splits)
  with connect_debt_mid [OF inv [unfolded hub_inv_def] debt] show ?thesis by (simp add: hub_inv_def)
qed (use inv con in \<open>simp add: connect_def\<close>)

end
