(* ===== verification/Relay_Isolation.thy ===== *)
theory Relay_Isolation
  imports Relay_Calls
begin

text \<open>
  Isolation: what a call on behalf of one account leaves alone. Every handler changes only its own
  account, and every connection it wakes or closes is one of that account's.
\<close>

section \<open>What a call may touch\<close>

abbreviation conns_of :: "account_id \<Rightarrow> hub \<Rightarrow> conn_id set" where
  "conns_of aid h \<equiv> {cid. map_of (hub_conn_account h) cid = Some aid}"

definition hub_touches :: "account_id \<Rightarrow> hub \<Rightarrow> hub \<Rightarrow> bool" where
  "hub_touches aid h h' \<longleftrightarrow>
     hub_limits h' = hub_limits h \<and> hub_next_conn h' = hub_next_conn h
     \<and> (\<forall>bid. bid \<noteq> aid \<longrightarrow> map_of (hub_accounts h') bid = map_of (hub_accounts h) bid)
     \<and> (\<forall>cid. cid \<notin> conns_of aid h \<longrightarrow> map_of (hub_conn_account h') cid = map_of (hub_conn_account h) cid)
     \<and> map_of (hub_conn_account h') \<subseteq>\<^sub>m map_of (hub_conn_account h)"

lemma hub_touches_conns: "hub_touches aid h h' \<Longrightarrow> conns_of bid h' \<subseteq> conns_of bid h"
  by (auto simp: hub_touches_def map_le_def dom_def)

definition touches :: "account_id \<Rightarrow> hub \<times> effects \<Rightarrow> hub \<times> effects \<Rightarrow> bool" where
  "touches aid hf hf' \<longleftrightarrow>
     hub_touches aid (fst hf) (fst hf')
     \<and> closing (snd hf') \<subseteq> closing (snd hf) \<union> conns_of aid (fst hf)
     \<and> set (fx_wakes (snd hf')) \<subseteq> set (fx_wakes (snd hf)) \<union> conns_of aid (fst hf)"

lemma hub_touches_refl [simp]: "hub_touches aid h h"
  by (simp add: hub_touches_def)

lemma hub_touches_trans:
  assumes "hub_touches aid a b" and "hub_touches aid b c"
  shows "hub_touches aid a c"
proof -
  have "map_of (hub_conn_account c) cid = map_of (hub_conn_account a) cid" if "cid \<notin> conns_of aid a" for cid
  proof -
    have "map_of (hub_conn_account b) cid = map_of (hub_conn_account a) cid" using assms(1) that by (simp add: hub_touches_def)
    moreover have "cid \<notin> conns_of aid b" using hub_touches_conns [OF assms(1)] that by blast
    ultimately show ?thesis using assms(2) by (simp add: hub_touches_def)
  qed
  moreover have "map_of (hub_conn_account c) \<subseteq>\<^sub>m map_of (hub_conn_account a)"
    using assms unfolding hub_touches_def by (blast intro: map_le_trans)
  ultimately show ?thesis using assms by (simp add: hub_touches_def)
qed

lemma touches_refl [simp]: "touches aid hf hf"
  by (auto simp: touches_def)

lemma union_chain: "C \<subseteq> B \<union> Y \<Longrightarrow> B \<subseteq> A \<union> X \<Longrightarrow> Y \<subseteq> X \<Longrightarrow> C \<subseteq> A \<union> X"
  by blast

lemma union_insert_chain: "C \<subseteq> B \<union> S \<Longrightarrow> B \<subseteq> insert x A \<Longrightarrow> C \<subseteq> A \<union> insert x S"
  by blast

lemma touches_trans:
  assumes "touches aid a b" and "touches aid b c"
  shows "touches aid a c"
proof -
  have "conns_of aid (fst b) \<subseteq> conns_of aid (fst a)" using assms(1) by (intro hub_touches_conns [of aid]) (simp add: touches_def)
  with assms show ?thesis
    unfolding touches_def by (elim conjE, intro conjI) (erule (1) hub_touches_trans, (erule (2) union_chain)+)
qed

lemma touches_put_account:
  "touches aid (h, fx) (put_account aid a h, fx)"
  by (auto simp add: touches_def hub_touches_def put_account_def update_conv')

lemma touches_fx:
  assumes "closing fx' \<subseteq> closing fx \<union> conns_of aid h" and "set (fx_wakes fx') \<subseteq> set (fx_wakes fx) \<union> conns_of aid h"
  shows "touches aid (h, fx) (put_account aid a h, fx')"
  using assms by (simp add: touches_def hub_touches_def put_account_def update_conv')

lemma touches_push_close: "map_of (hub_conn_account h) conn = Some aid \<Longrightarrow> touches aid (h, fx) (h, fx_push_close conn f fx)"
  by (auto simp: touches_def)

lemma pushed_or_closed_effects:
  "pushed_or_closed cid c p fx = (c', fx') \<Longrightarrow>
   closing fx' \<subseteq> insert cid (closing fx) \<and> set (fx_wakes fx') \<subseteq> insert cid (set (fx_wakes fx))"
  by (auto simp: pushed_or_closed_def conn_arm_def effects_wake_def fx_push_close_def Let_def
      split: prod.splits push_result.splits if_splits)

lemma enqueue_touches:
  assumes mid: "hub_mid W (h, fx)"
  shows "touches aid (h, fx) (enqueue pe aid conn f (h, fx))"
proof (cases "\<exists>a c. map_of (hub_accounts h) aid = Some a \<and> map_of (a_conns a) conn = Some c")
  case False
  then have "enqueue pe aid conn f (h, fx) = (h, fx)" by (auto simp: enqueue_def split: option.splits)
  then show ?thesis by simp
next
  case True
  then obtain a c where a: "map_of (hub_accounts h) aid = Some a" and c: "map_of (a_conns a) conn = Some c" by blast
  obtain c' fx' where po: "pushed_or_closed conn c (push_frame pe (hub_limits h) f (c_out c)) fx = (c', fx')" by fastforce
  have "map_of (hub_conn_account h) conn = Some aid" using hub_mid_account(3) [OF mid a, of conn] c by simp
  with pushed_or_closed_effects [OF po] have "touches aid (h, fx) (put_account aid (put_conn conn c' a) h, fx')"
    by (intro touches_fx) auto
  with a c po show ?thesis by (simp add: enqueue_def)
qed

lemma enqueue_touches': "hub_mid W hf \<Longrightarrow> touches aid hf (enqueue pe aid conn f hf)"
  using enqueue_touches by (cases hf) simp

lemma enqueue_all_touches: "hub_mid W hf \<Longrightarrow> touches aid hf (enqueue_all pe aid f others hf)"
proof (induction others arbitrary: hf)
  case (Cons x xs)
  have "hub_mid W (enqueue pe aid x f hf)" using enqueue_mid [OF Cons.prems] by blast
  from touches_trans [OF enqueue_touches' [OF Cons.prems] Cons.IH [OF this]] show ?case by simp
qed simp


section \<open>Handlers\<close>

lemma fan_out_effects:
  "fan_out l key k epoch e subs (conns, fx) = (conns', fx') \<Longrightarrow>
   closing fx' \<subseteq> closing fx \<union> set subs \<and> set (fx_wakes fx') \<subseteq> set (fx_wakes fx) \<union> set subs"
proof (induction subs arbitrary: conns fx)
  case (Cons sub subs)
  show ?case
  proof (cases "map_of conns sub")
    case None
    with Cons.prems have "fan_out l key k epoch e subs (conns, fx) = (conns', fx')" by simp
    from Cons.IH [OF this] show ?thesis by auto
  next
    case (Some c)
    obtain c' fx1 where po: "pushed_or_closed sub c (push_published l key k epoch e (c_out c)) fx = (c', fx1)" by fastforce
    with Cons.prems Some have "fan_out l key k epoch e subs (AList.update sub c' conns, fx1) = (conns', fx')" by simp
    from Cons.IH [OF this] pushed_or_closed_effects [OF po] show ?thesis
      by (simp only: list.set) (blast intro: union_insert_chain)
  qed
qed simp

lemma hub_touches_put: "hub_touches aid h (put_account aid a h)"
  by (simp add: hub_touches_def put_account_def update_conv')

lemma ensure_stream_touches: "hub_touches aid h (snd (ensure_stream aid key h))"
  by (simp add: ensure_stream_def Let_def hub_touches_put split: option.split prod.split)

lemma hub_touches_counters [simp]:
  "hub_touches aid h (h'\<lparr>hub_epoch_state := e\<rparr>) = hub_touches aid h h'"
  "hub_touches aid h (h'\<lparr>hub_clock := t\<rparr>) = hub_touches aid h h'"
  by (simp_all add: hub_touches_def)

lemma touches_hub: "hub_touches aid h h' \<Longrightarrow> touches aid (h, fx) (h', fx)"
  by (simp add: touches_def)

text \<open>The subscribers of a stream are connections of its account.\<close>

lemma subscribers_of_account:
  assumes mid: "hub_mid W (h, fx)" and a: "map_of (hub_accounts h) aid = Some a" and s: "map_of (a_streams a) key = Some s"
  shows "set (s_subscribers s) \<subseteq> conns_of aid h"
proof
  fix sub assume "sub \<in> set (s_subscribers s)"
  moreover have "stream_sound (hub_limits h) (a_conns a) key s"
    using hub_mid_account(1) [OF mid a] s unfolding acct_sound_def by (blast intro: acct_core_stream)
  ultimately have "map_of (a_conns a) sub \<noteq> None" by (auto simp: stream_sound_def)
  with hub_mid_account(3) [OF mid a] show "sub \<in> conns_of aid h" by simp
qed

lemma publish_touches:
  assumes mid: "hub_mid W (h, fx)" and conn: "map_of (hub_conn_account h) conn = Some aid"
  shows "touches aid (h, fx) (publish pe aid conn key k env (h, fx))"
proof -
  obtain ok h1 where ens: "ensure_stream aid key h = (ok, h1)" by fastforce
  note E = ensure_stream_mid [OF mid conn ens]
  then have mid1: "hub_mid W (h1, fx)" and conn1: "map_of (hub_conn_account h1) conn = Some aid" using conn by auto
  have t1: "touches aid (h, fx) (h1, fx)" using ensure_stream_touches [of aid h key] ens by (intro touches_hub) simp
  have "touches aid (h1, fx) (publish pe aid conn key k env (h, fx))"
  proof (cases "ok \<and> (\<exists>a s. map_of (hub_accounts h1) aid = Some a \<and> map_of (a_streams a) key = Some s)")
    case False
    with ens E touches_push_close [OF conn1] show ?thesis by (auto simp: publish_def split: option.splits)
  next
    case True
    then obtain a s where a: "map_of (hub_accounts h1) aid = Some a" and s: "map_of (a_streams a) key = Some s" by blast
    show ?thesis
    proof (cases "\<exists>r. s_ring s = Some r \<and> r_kind r \<noteq> k")
      case mism: True
      with True ens a s enqueue_touches [OF mid1] show ?thesis by (auto simp: publish_def)
    next
      case same: False
      define eh where "eh = (if map_option r_kind (s_ring s) = None
        then let (z, st) = next_epoch (hub_epoch_state h1) in (z, h1\<lparr>hub_epoch_state := st\<rparr>) else (0, h1))"
      define h3 where "h3 = (snd eh)\<lparr>hub_clock := hub_clock (snd eh) + 1\<rparr>"
      obtain a' fx' where pub: "publish_in pe (hub_limits h) (fst eh) (hub_clock h3) key k env s (a, fx) = (a', fx')"
        by fastforce
      have "closing fx' \<subseteq> closing fx \<union> set (s_subscribers s)
          \<and> set (fx_wakes fx') \<subseteq> set (fx_wakes fx) \<union> set (s_subscribers s)"
        using pub fan_out_effects unfolding publish_in_def by (auto simp: Let_def split: prod.splits)
      with subscribers_of_account [OF mid1 a s] have fx: "closing fx' \<subseteq> closing fx \<union> conns_of aid h1"
        "set (fx_wakes fx') \<subseteq> set (fx_wakes fx) \<union> conns_of aid h1" by blast+
      have "hub_touches aid h1 h3" by (auto simp: h3_def eh_def split: prod.split)
      then have "hub_touches aid h1 (put_account aid a' h3)" using hub_touches_put hub_touches_trans by blast
      with fx have "touches aid (h1, fx) (put_account aid a' h3, fx')" by (simp add: touches_def)
      moreover have "publish pe aid conn key k env (h, fx) = (put_account aid a' h3, fx')"
        using ens True a s same pub
        by (auto simp: publish_def eh_def h3_def Let_def split: option.splits prod.splits)
      ultimately show ?thesis by simp
    qed
  qed
  with t1 show ?thesis by (rule touches_trans)
qed


lemma direct_touches:
  assumes mid: "hub_mid W (h, fx)"
  shows "touches aid (h, fx) (direct pe aid conn target env (h, fx))"
proof (cases "\<exists>a tc r c. map_of (hub_accounts h) aid = Some a \<and> map_of (a_online a) target = Some (tc, r)
    \<and> map_of (a_conns a) tc = Some c")
  case False
  then have "direct pe aid conn target env (h, fx)
      = enqueue pe aid conn (error Unavailable (e_ref env) ''recipient is not online'') (h, fx)"
    by (auto simp: direct_def split: option.splits prod.splits)
  with enqueue_touches [OF mid] show ?thesis by simp
next
  case True
  then obtain a tc r c where a: "map_of (hub_accounts h) aid = Some a" and t: "map_of (a_online a) target = Some (tc, r)"
    and c: "map_of (a_conns a) tc = Some c" by blast
  let ?f = "Frame (Some (BEnvelope (env\<lparr>e_to := Some (ToPrincipal target)\<rparr>)))"
  let ?e = "error Unavailable (e_ref env) ''recipient fell behind''"
  obtain out res where qr: "push_frame pe (hub_limits h) ?f (c_out c) = (out, res)" by fastforce
  obtain c' fx' where po: "pushed_or_closed tc c (out, res) fx = (c', fx')" by fastforce
  let ?hf = "(put_account aid (put_conn tc c' a) h, fx')"
  have "enqueue pe aid tc ?f (h, fx) = ?hf" using a c qr po by (simp add: enqueue_def)
  then have t1: "touches aid (h, fx) ?hf" and mid1: "hub_mid W ?hf"
    using enqueue_touches [OF mid, of aid pe tc ?f] enqueue_mid [OF mid, of pe aid tc ?f] by simp_all
  have "direct pe aid conn target env (h, fx) = (if res = Pushed then ?hf else enqueue pe aid conn ?e ?hf)"
    using a t c qr po by (cases res) (simp_all add: direct_def)
  with t1 touches_trans [OF t1 enqueue_touches [OF mid1]] show ?thesis by simp
qed

lemma on_envelope_touches:
  assumes "hub_mid W (h, fx)" and "map_of (hub_conn_account h) conn = Some aid"
  shows "touches aid (h, fx) (on_envelope pe aid conn env (h, fx))"
  using assms publish_touches [OF assms] direct_touches [OF assms(1)] enqueue_touches [OF assms(1)]
    touches_push_close [OF assms(2)]
  by (auto simp: on_envelope_def Let_def split: option.splits kind.splits address.splits)

lemma enqueue_touches_conn:
  assumes "map_of (hub_conn_account h) conn = Some aid"
  shows "touches aid (h, fx) (enqueue pe aid conn f (h, fx))"
proof (cases "\<exists>a c. map_of (hub_accounts h) aid = Some a \<and> map_of (a_conns a) conn = Some c")
  case False
  then have "enqueue pe aid conn f (h, fx) = (h, fx)" by (auto simp: enqueue_def split: option.splits)
  then show ?thesis by simp
next
  case True
  then obtain a c where a: "map_of (hub_accounts h) aid = Some a" and c: "map_of (a_conns a) conn = Some c" by blast
  obtain c' fx' where po: "pushed_or_closed conn c (push_frame pe (hub_limits h) f (c_out c)) fx = (c', fx')" by fastforce
  from assms pushed_or_closed_effects [OF po] have "touches aid (h, fx) (put_account aid (put_conn conn c' a) h, fx')"
    by (intro touches_fx) auto
  with a c po show ?thesis by (simp add: enqueue_def)
qed

lemma touches_queued: "touches aid hf (h, fx) \<Longrightarrow> touches aid hf (h, fx\<lparr>fx_queued := n\<rparr>)"
  by (simp add: touches_def)

lemma on_subscribe_touches:
  assumes conn: "map_of (hub_conn_account h) conn = Some aid"
  shows "touches aid (h, fx) (on_subscribe pe aid conn sub (h, fx))"
proof -
  have refuse: "touches aid (h, fx) (enqueue pe aid conn f (h, fx))" for f by (rule enqueue_touches_conn [OF conn])
  have close: "touches aid (h, fx) (h, fx_push_close conn f fx)" for f by (rule touches_push_close [OF conn])
  have tail: "touches aid (h, fx) (enqueue pe aid conn f (put_account aid b h1, fx\<lparr>fx_queued := n\<rparr>))
      \<and> touches aid (h, fx) (put_account aid b h1, fx_push_close conn f (fx\<lparr>fx_queued := n\<rparr>))
      \<and> touches aid (h, fx) (h1, fx_push_close conn f fx) \<and> touches aid (h, fx) (h1, fx)"
    if "h1 = snd (ensure_stream aid key h)" for h1 key b n f
  proof -
    have t: "hub_touches aid h h1" using ensure_stream_touches that by simp
    have same: "hub_conn_account h1 = hub_conn_account h"
      unfolding that by (auto simp: ensure_stream_def put_account_def Let_def split: option.split prod.split)
    have h2: "touches aid (h, fx) (put_account aid b h1, fx\<lparr>fx_queued := n\<rparr>)"
      using hub_touches_trans [OF t hub_touches_put] by (intro touches_queued touches_hub)
    have "map_of (hub_conn_account (put_account aid b h1)) conn = Some aid" using conn same by (simp add: put_account_def)
    with h2 t conn same show ?thesis
      using touches_trans [OF h2 enqueue_touches_conn] touches_trans [OF h2 touches_push_close]
        touches_trans [OF touches_hub [OF t] touches_push_close] touches_hub [OF t] by simp
  qed
  show ?thesis
  proof (cases "sub_stream sub")
    case None
    with refuse show ?thesis by (simp add: on_subscribe_def Let_def)
  next
    case (Some st)
    obtain ok h1 where e: "ensure_stream aid \<lparr>sk_publisher = sr_publisher st, sk_channel = sr_channel st\<rparr> h = (ok, h1)"
      by fastforce
    then have h1: "h1 = snd (ensure_stream aid \<lparr>sk_publisher = sr_publisher st, sk_channel = sr_channel st\<rparr> h)" by simp
    have "touches aid (h, fx) (enqueue pe aid conn f (put_account aid b h1, fx\<lparr>fx_queued := n\<rparr>))"
      "touches aid (h, fx) (put_account aid b h1, fx_push_close conn f (fx\<lparr>fx_queued := n\<rparr>))"
      "touches aid (h, fx) (h1, fx_push_close conn f fx)" "touches aid (h, fx) (h1, fx)" for b n f
      using tail [OF h1] by blast+
    with refuse close e Some show ?thesis
      by (simp add: on_subscribe_def Let_def split: option.split prod.split push_result.split)
  qed
qed

lemma route_touches:
  assumes "hub_mid W (h, fx)" and "map_of (hub_conn_account h) conn = Some aid"
  shows "touches aid (h, fx) (route pe aid conn f (h, fx))"
proof -
  have "hub_touches aid h (unsubscribe aid conn key h)" for key
    by (auto simp: unsubscribe_def Let_def hub_touches_put split: option.split)
  then show ?thesis
    using assms on_envelope_touches [OF assms] on_subscribe_touches [OF assms(2)] enqueue_touches [OF assms(1)]
      touches_push_close [OF assms(2)] touches_hub
    by (auto simp: route_def split: option.splits body.splits)
qed

section \<open>Finishing\<close>

lemma forget_touches:
  assumes mid: "hub_mid W (h, fx0)" and conn: "map_of (hub_conn_account h) conn = Some aid"
    and le: "closing fx0 \<subseteq> insert conn (closing fx)" "fx_wakes fx = fx_wakes fx0"
  shows "touches aid (h, fx) (forget pe conn (h, fx))"
proof -
  from hub_mid_conn [OF mid conn] obtain a c where a: "map_of (hub_accounts h) aid = Some a"
    and c: "map_of (a_conns a) conn = Some c" by blast
  let ?h = "without_conn conn aid (snd (leave_account conn c a)) h"
  from forget_eq [OF conn a c] obtain gone where
    f: "forget pe conn (h, fx) = enqueue_all pe aid gone (keys (a_conns (snd (leave_account conn c a)))) (?h, fx)" by blast
  have "hub_touches aid h ?h"
    using conn by (auto simp: hub_touches_def without_conn_simps delete_conv' map_le_def)
  moreover have "hub_mid W (?h, fx)" by (rule without_conn_mid [OF mid conn a c le])
  ultimately show ?thesis unfolding f by (blast intro: touches_trans [OF touches_hub] enqueue_all_touches)
qed


text \<open>
  The loop only forgets connections that were on the list or are of the account, and reports only
  connections of the account it was started for.
\<close>

lemma finish_loop_touches:
  assumes "hub_mid W hf" and "\<forall>c \<in> fst ` set closed. map_of (hub_conn_account (fst hf)) c = None"
    and "closing (snd hf) \<inter> dom (map_of (hub_conn_account (fst hf))) \<subseteq> conns_of aid (fst hf)"
    and "finish_loop pe closed hf = (closed', hf')"
  shows "hub_touches aid (fst hf) (fst hf') \<and> set (fx_wakes (snd hf')) \<subseteq> set (fx_wakes (snd hf)) \<union> conns_of aid (fst hf)
    \<and> fst ` set closed' \<subseteq> fst ` set closed \<union> conns_of aid (fst hf)"
  using assms
proof (induction pe closed hf rule: finish_loop.induct)
  case (1 pe closed hf)
  obtain h fx where hf: "hf = (h, fx)" by fastforce
  show ?case
  proof (cases "fx_close fx = []")
    case True
    with "1.prems"(4) have "closed' = closed" "hf' = (h, fx)"
      by (simp_all add: hf finish_loop.simps [of pe closed "(h, fx)"])
    then show ?thesis by (simp add: hf)
  next
    case False
    obtain conn f where cf: "last (fx_close fx) = (conn, f)" by fastforce
    let ?fx = "fx\<lparr>fx_close := butlast (fx_close fx)\<rparr>"
    have "set (fx_close fx) = set (butlast (fx_close fx) @ [(conn, f)])"
      using append_butlast_last_id [OF False] cf by simp
    then have le: "closing fx \<subseteq> insert conn (closing ?fx)" "closing ?fx \<subseteq> closing fx" "conn \<in> closing fx" by auto
    show ?thesis
    proof (cases "conn \<in> set (map fst closed) \<or> map_of (hub_conn_account h) conn = None")
      case True
      then have "map_of (hub_conn_account h) conn = None" using "1.prems"(2) by (auto simp: hf)
      from hub_mid_unexempt [OF "1.prems"(1) [unfolded hf] this le(1)] have "hub_mid W (h, ?fx)" by simp
      moreover have "finish_loop pe closed (h, ?fx) = (closed', hf')"
        using "1.prems"(4) True False cf by (simp add: hf finish_loop.simps [of pe closed "(h, fx)"])
      moreover have "closing ?fx \<inter> dom (map_of (hub_conn_account h)) \<subseteq> conns_of aid h"
        using "1.prems"(3) le(2) by (simp only: hf fst_conv snd_conv) blast
      ultimately show ?thesis using "1.IH"(1) "1.prems"(2) False cf True by (simp add: hf)
    next
      case skip: False
      then have conn: "map_of (hub_conn_account h) conn = Some aid"
        using "1.prems"(3) le(3) by (simp only: hf fst_conv snd_conv) blast
      let ?hf = "forget pe conn (h, ?fx)"
      have mid: "hub_mid W ?hf" using forget_mid [OF "1.prems"(1) [unfolded hf] le(1)] by simp
      have t: "touches aid (h, ?fx) ?hf" using forget_touches [OF "1.prems"(1) [unfolded hf] conn le(1)] by simp
      have "closing (snd ?hf) \<inter> dom (map_of (hub_conn_account (fst ?hf))) \<subseteq> conns_of aid (fst ?hf)"
      proof
        fix c assume c: "c \<in> closing (snd ?hf) \<inter> dom (map_of (hub_conn_account (fst ?hf)))"
        then have "map_of (hub_conn_account h) c \<noteq> None" "map_of (hub_conn_account (fst ?hf)) c = map_of (hub_conn_account h) c"
          by (auto simp: forget_conn_account delete_conv' split: if_splits)
        moreover have "c \<in> closing fx \<or> c \<in> conns_of aid h"
        proof -
          have "closing (snd ?hf) \<subseteq> closing ?fx \<union> conns_of aid h" using t by (simp add: touches_def)
          with c le(2) show ?thesis by blast
        qed
        moreover have "closing fx \<inter> dom (map_of (hub_conn_account h)) \<subseteq> conns_of aid h" using "1.prems"(3) by (simp add: hf)
        ultimately show "c \<in> conns_of aid (fst ?hf)" by auto
      qed
      moreover have "finish_loop pe (closed @ [(conn, f)]) ?hf = (closed', hf')"
        using "1.prems"(4) skip False cf by (auto simp: hf finish_loop.simps [of pe closed "(h, fx)"] Let_def)
      moreover have "\<forall>c \<in> fst ` set (closed @ [(conn, f)]). map_of (hub_conn_account (fst ?hf)) c = None"
        using "1.prems"(2) by (auto simp: forget_conn_account delete_conv' hf)
      ultimately have IH: "hub_touches aid (fst ?hf) (fst hf') \<and> set (fx_wakes (snd hf')) \<subseteq> set (fx_wakes (snd ?hf)) \<union> conns_of aid (fst ?hf)
          \<and> fst ` set closed' \<subseteq> fst ` set (closed @ [(conn, f)]) \<union> conns_of aid (fst ?hf)"
        using "1.IH"(2) mid False cf skip by (simp add: hf)
      have sub: "conns_of aid (fst ?hf) \<subseteq> conns_of aid h"
        using t by (intro hub_touches_conns [of aid]) (simp add: touches_def)
      have wakes: "set (fx_wakes (snd ?hf)) \<subseteq> set (fx_wakes fx) \<union> conns_of aid h"
        and ht: "hub_touches aid h (fst ?hf)"
        using t by (simp_all add: touches_def)
      from IH have hub: "hub_touches aid h (fst hf')" using hub_touches_trans [OF ht] by blast
      from IH have w: "set (fx_wakes (snd hf')) \<subseteq> set (fx_wakes (snd ?hf)) \<union> conns_of aid (fst ?hf)"
        and cl: "fst ` set closed' \<subseteq> insert conn (fst ` set closed) \<union> conns_of aid (fst ?hf)" by simp_all
      have "fst ` set closed' \<subseteq> fst ` set closed \<union> conns_of aid h" using cl sub conn by blast
      with hub union_chain [OF w wakes sub] show ?thesis by (simp add: hf)
    qed
  qed
qed

text \<open>The connections an action list names.\<close>

definition action_conns :: "action list \<Rightarrow> conn_id set" where
  "action_conns acts = {c. Wake c \<in> set acts \<or> (\<exists>f. Close c f \<in> set acts)}"

lemma finish_touches_from:
  assumes mid: "hub_mid W hf" and t: "touches aid (h, fx0) hf" and fin: "finish pe hf = (h', acts)"
    and fx0: "closing fx0 = {}" "set (fx_wakes fx0) \<subseteq> conns_of aid h"
  shows "hub_touches aid h h' \<and> action_conns acts \<subseteq> conns_of aid h"
proof -
  obtain closed h1 fx where loop: "finish_loop pe [] hf = (closed, h1, fx)" by (metis prod_cases3)
  from t have hub: "hub_touches aid h (fst hf)" and cl: "closing (snd hf) \<subseteq> conns_of aid h"
    and wk: "set (fx_wakes (snd hf)) \<subseteq> conns_of aid h"
    using fx0 by (simp_all only: touches_def fst_conv snd_conv Un_empty_left) blast
  have "closing (snd hf) \<inter> dom (map_of (hub_conn_account (fst hf))) \<subseteq> conns_of aid (fst hf)"
  proof
    fix c assume c: "c \<in> closing (snd hf) \<inter> dom (map_of (hub_conn_account (fst hf)))"
    with cl have "c \<in> conns_of aid h" by blast
    moreover have "map_of (hub_conn_account (fst hf)) c = map_of (hub_conn_account h) c"
      using c hub by (simp add: hub_touches_def map_le_def)
    ultimately show "c \<in> conns_of aid (fst hf)" by simp
  qed
  from finish_loop_touches [OF mid _ this loop]
  have L: "hub_touches aid (fst hf) h1" "set (fx_wakes fx) \<subseteq> set (fx_wakes (snd hf)) \<union> conns_of aid (fst hf)"
    "fst ` set closed \<subseteq> conns_of aid (fst hf)" by simp_all
  have "action_conns acts \<subseteq> set (fx_wakes fx) \<union> fst ` set closed"
    using fin loop by (force simp: finish_def action_conns_def)
  also have "\<dots> \<subseteq> conns_of aid h" using L wk hub_touches_conns [OF hub, of aid] by blast
  finally show ?thesis using hub_touches_trans [OF hub L(1)] fin loop by (simp add: finish_def)
qed

lemma finish_touches:
  "hub_mid W hf \<Longrightarrow> touches aid (h, effects_default) hf \<Longrightarrow> finish pe hf = (h', acts) \<Longrightarrow>
   hub_touches aid h h' \<and> action_conns acts \<subseteq> conns_of aid h"
  by (rule finish_touches_from [of W hf aid h effects_default pe h' acts]) (assumption | simp add: effects_default_def)+

section \<open>Calls\<close>

lemma receive_touches:
  assumes inv: "hub_inv W h" and conn: "map_of (hub_conn_account h) conn = Some aid" and r: "receive pe conn f h = (h', acts)"
  shows "hub_touches aid h h' \<and> action_conns acts \<subseteq> conns_of aid h"
proof (rule finish_touches)
  let ?hf = "route pe aid conn f (h, effects_default)"
  note mid = inv [unfolded hub_inv_def]
  have m: "hub_mid W ?hf" by (rule route_mid [OF mid conn])
  then show "hub_mid W (spend_queued aid ?hf)" using spend_queued_mid by (cases ?hf) simp
  have "touches aid ?hf (spend_queued aid ?hf)"
    using touches_put_account by (cases ?hf) (simp add: spend_queued_def split: option.split)
  with route_touches [OF mid conn] show "touches aid (h, effects_default) (spend_queued aid ?hf)" by (rule touches_trans)
  show "finish pe (spend_queued aid ?hf) = (h', acts)" using r conn by (simp add: receive_def)
qed

lemma deliver_touches:
  assumes inv: "hub_inv W h" and conn: "map_of (hub_conn_account h) conn = Some aid" and r: "deliver pe conn f h = (h', acts)"
  shows "hub_touches aid h h' \<and> action_conns acts \<subseteq> conns_of aid h"
proof (rule finish_touches)
  note mid = inv [unfolded hub_inv_def]
  show "hub_mid W (enqueue pe aid conn f (h, effects_default))" using enqueue_mid [OF mid] by blast
  show "touches aid (h, effects_default) (enqueue pe aid conn f (h, effects_default))" by (rule enqueue_touches [OF mid])
  show "finish pe (enqueue pe aid conn f (h, effects_default)) = (h', acts)" using r conn by (simp add: deliver_def)
qed

lemma close_conn_touches:
  assumes inv: "hub_inv W h" and conn: "map_of (hub_conn_account h) conn = Some aid" and r: "close_conn pe conn frm h = (h', acts)"
  shows "hub_touches aid h h' \<and> action_conns acts \<subseteq> conns_of aid h"
proof (cases frm)
  case (Some f)
  show ?thesis
  proof (rule finish_touches)
    show "hub_mid W (h, fx_push_close conn f effects_default)" using inv hub_mid_push_close unfolding hub_inv_def by blast
    show "touches aid (h, effects_default) (h, fx_push_close conn f effects_default)" by (rule touches_push_close [OF conn])
  qed (use r Some in \<open>simp add: close_conn_def\<close>)
next
  case None
  note mid = inv [unfolded hub_inv_def]
  show ?thesis
  proof (rule finish_touches)
    show "hub_mid W (forget pe conn (h, effects_default))"
      using forget_mid [OF mid, of conn effects_default pe] by (simp add: effects_default_def)
    show "touches aid (h, effects_default) (forget pe conn (h, effects_default))"
      by (rule forget_touches [OF mid conn]) auto
  qed (use r None in \<open>simp add: close_conn_def\<close>)
qed

lemma throttle_notice_effects:
  "throttle_notice pe l conn w now (a, fx) = (a', fx') \<Longrightarrow>
   closing fx' \<subseteq> insert conn (closing fx) \<and> set (fx_wakes fx') \<subseteq> insert conn (set (fx_wakes fx))"
  by (auto simp: throttle_notice_def Let_def split: if_splits option.splits prod.splits dest!: pushed_or_closed_effects)

lemma charge_touches:
  assumes inv: "hub_inv W h" and conn: "map_of (hub_conn_account h) conn = Some aid"
    and ch: "charge pe conn n now h = (h', wait, acts)"
  shows "hub_touches aid h h' \<and> action_conns acts \<subseteq> conns_of aid h"
proof -
  note mid = inv [unfolded hub_inv_def]
  from hub_mid_conn [OF mid conn] obtain a where a: "map_of (hub_accounts h) aid = Some a" by blast
  obtain a' fx where "charge_noticed pe conn n now h a = (a', fx)" by fastforce
  note N = charge_noticed_mid [OF mid conn a this]
  show ?thesis
  proof (rule finish_touches [OF N(1)])
    have "closing fx \<subseteq> insert conn (closing effects_default) \<and> set (fx_wakes fx) \<subseteq> insert conn (set (fx_wakes effects_default))"
      using N(2) by (blast dest: throttle_notice_effects)
    with conn show "touches aid (h, effects_default) (put_account aid a' h, fx)" by (intro touches_fx) auto
    show "finish pe (put_account aid a' h, fx) = (h', acts)" using N(3) ch by simp
  qed
qed

lemma take_outbound_touches:
  assumes conn: "map_of (hub_conn_account h) conn = Some aid" and tk: "take_outbound pe conn b h = (h', t)"
  shows "hub_touches aid h h'"
  using assms hub_touches_put by (auto simp: take_outbound_def Let_def split: option.splits prod.splits)

lemma joined_hub:
  fixes h :: hub
  defines "cid \<equiv> hub_next_conn h"
  assumes j: "joined pe aid hello now mno rvk h = (h1, fx)"
  shows "hub_limits h1 = hub_limits h" "\<forall>bid. bid \<noteq> aid \<longrightarrow> map_of (hub_accounts h1) bid = map_of (hub_accounts h) bid"
    "conns_of aid h1 = insert cid (conns_of aid h)" "closing fx = {}" "set (fx_wakes fx) = {cid}"
    "hub_next_conn h1 = cid + 1" "dom (map_of (hub_conn_account h1)) = insert cid (dom (map_of (hub_conn_account h)))"
  using j unfolding cid_def
  by (auto simp: joined_def greeted_def conn_arm_def effects_wake_def effects_default_def put_account_def update_conv' Let_def
      split: if_splits)

lemma connect_debt_touches: "hub_touches aid h (fst (connect_debt aid mno h))"
  by (simp add: connect_debt_def Let_def hub_touches_put split: option.split)

lemma connect_isolated:
  assumes "hub_inv W h" and "0 < max_connections_per_account (hub_limits h)"
    and "greeting_fits pe aid now rvk h" and "connect pe aid hello now mno rvk h = (h', Inr (cid, acts))"
  shows "hub_limits h' = hub_limits h \<and> (\<forall>bid. bid \<noteq> aid \<longrightarrow> map_of (hub_accounts h') bid = map_of (hub_accounts h) bid)
    \<and> action_conns acts \<subseteq> insert cid (conns_of aid h)
    \<and> cid = hub_next_conn h \<and> hub_next_conn h' = hub_next_conn h + 1
    \<and> dom (map_of (hub_conn_account h')) \<subseteq> insert cid (dom (map_of (hub_conn_account h)))"
proof -
  from connect_admitted [OF assms] obtain h1 where debt: "connect_debt aid mno h = (h1, snd (connect_debt aid mno h))"
    and adm: "admit pe aid hello now mno rvk h1 = (h', cid, acts)" and mid: "hub_mid W (joined pe aid hello now mno rvk h1)" .
  have t: "hub_touches aid h h1" using connect_debt_touches [of aid h mno] debt by (metis fst_conv)
  obtain h2 fx where j: "joined pe aid hello now mno rvk h1 = (h2, fx)" by fastforce
  from admit_joined [OF adm] obtain here others where cid: "cid = hub_next_conn h1"
    and fin: "finish pe (enqueue_all pe aid here others (h2, fx)) = (h', acts)" unfolding j by blast
  note J = joined_hub [OF j, folded cid]
  have mid': "hub_mid W (enqueue_all pe aid here others (h2, fx))" using enqueue_all_mid mid unfolding j by blast
  have "touches aid (h2, fx) (enqueue_all pe aid here others (h2, fx))" using enqueue_all_touches mid unfolding j by blast
  from finish_touches_from [OF mid' this fin J(4)] J(3,5)
  have "hub_touches aid h2 h'" "action_conns acts \<subseteq> insert cid (conns_of aid h1)" by simp_all
  moreover have "dom (map_of (hub_conn_account h')) \<subseteq> dom (map_of (hub_conn_account h2))"
    "dom (map_of (hub_conn_account h1)) \<subseteq> dom (map_of (hub_conn_account h))"
    using calculation(1) t by (simp_all add: hub_touches_def map_le_implies_dom_le)
  then have "dom (map_of (hub_conn_account h')) \<subseteq> insert cid (dom (map_of (hub_conn_account h)))" using J(7) by blast
  ultimately show ?thesis
    using J(1,2,6) t cid hub_touches_conns [OF t, of aid] by (auto simp: hub_touches_def)
qed

lemma connect_refused_limits: "connect pe aid hello now mno rvk h = (h', Inl e) \<Longrightarrow> hub_touches aid h h'"
  using connect_debt_touches [of aid h mno] by (auto simp: connect_def split: option.splits prod.splits if_splits)

end
