(* ===== verification/Relay_Run.thy ===== *)
theory Relay_Run
  imports Relay_Isolation "HOL-Library.Multiset"
begin

text \<open>
  Runs of the relay: every sequence of the server's calls, in any order and with any arguments. A state
  is the hub with the set of connections that have a wake outstanding, as a server waiting on wakes
  would keep it. The invariant of \<open>Relay_Inv\<close> holds in every reachable state, and it gives the test of
  the model checker.
\<close>

section \<open>The invariant is stronger than the model checker's test\<close>

lemma check_conn_sound:
  assumes "acct_core l {} W a" and "map_of (a_conns a) cid = Some c"
    and "map_of (hub_conn_account h) cid = Some aid"
  shows "check_conn l h aid a W (cid, c)"
  using acct_core_conn [OF assms(1,2)] assms(3)
  by (auto simp: check_conn_def conn_local_def conn_links_def list_all_iff outbound_check_iff outbound_is_empty_def
      split: option.splits)

lemma check_stream_sound:
  assumes "stream_sound l (a_conns a) key s"
  shows "check_stream l a (key, s)"
proof -
  have "ring_check (if r_kind r = SessionEvents then ring_session_events l else ring_telemetry l) r" if "s_ring s = Some r" for r
    using assms that by (intro ring_ok_check) (auto simp: stream_sound_def ring_sound_def ring_capacity_def split: kind.splits)
  with assms show ?thesis
    by (fastforce simp: check_stream_def stream_sound_def list_all_iff split: option.split)
qed

lemma bucket_ok_tokens: "bucket_ok burst b \<Longrightarrow> \<not> bucket_tokens b > int burst"
proof -
  assume "bucket_ok burst b"
  then have "b_balance b div MILLI \<le> int burst"
    by (auto simp: bucket_ok_def bucket_cap_def MILLI_def split: if_splits)
  then show ?thesis by (auto simp: bucket_tokens_def sat_i64_def I64_MIN_def max_def)
qed

lemma map_of_member: "keys_distinct xs \<Longrightarrow> x \<in> set xs \<Longrightarrow> map_of xs (fst x) = Some (snd x)"
  by (simp add: map_of_eq_Some_iff)

lemma check_account_sound:
  assumes inv: "hub_inv W h" and a: "map_of (hub_accounts h) aid = Some a"
  shows "check_account (hub_limits h) h W (aid, a)"
proof -
  note mid = inv [unfolded hub_inv_def]
  have sound: "acct_sound (hub_limits h) {} W a" using hub_mid_account(1) [OF mid a] by (simp add: effects_default_def)
  then have core: "acct_core (hub_limits h) {} W a" by (simp add: acct_sound_def)
  then have distinct: "keys_distinct (a_conns a)" "keys_distinct (a_streams a)" by (simp_all add: acct_core_def)
  have "check_conn (hub_limits h) h aid a W x" if "x \<in> set (a_conns a)" for x
    using check_conn_sound [OF core map_of_member [OF distinct(1) that]]
      hub_mid_account(3) [OF mid a, of "fst x"] map_of_member [OF distinct(1) that] by simp
  moreover have "check_stream (hub_limits h) a x" if "x \<in> set (a_streams a)" for x
    using check_stream_sound [OF acct_core_stream [OF core map_of_member [OF distinct(2) that]]] by simp
  ultimately show ?thesis
    using sound core hub_mid_account(2) [OF mid a] bucket_ok_tokens [OF acct_sound_bucket [OF sound]]
    by (auto simp: check_account_def list_all_iff acct_sound_def acct_core_def)
qed

lemma hub_inv_check:
  assumes inv: "hub_inv W h"
  shows "hub_check (hub_limits h) h W"
proof -
  note mid = inv [unfolded hub_inv_def]
  have "keys_distinct (hub_accounts h)" "keys_distinct (hub_conn_account h)" using mid by (simp_all add: hub_mid_def)
  note acc = map_of_member [OF this(1)] and con = map_of_member [OF this(2)]
  have "check_account (hub_limits h) h W x" if "x \<in> set (hub_accounts h)" for x
    using check_account_sound [OF inv acc [OF that]] by simp
  moreover have "case map_of (hub_accounts h) (snd x) of Some a \<Rightarrow> map_of (a_conns a) (fst x) \<noteq> None | None \<Rightarrow> False"
    if x: "x \<in> set (hub_conn_account h)" for x
  proof -
    from hub_mid_conn [OF mid con [OF x]] obtain a c where "map_of (hub_accounts h) (snd x) = Some a"
      and "map_of (a_conns a) (fst x) = Some c" by blast
    then show ?thesis by simp
  qed
  moreover have "length (hub_accounts h) \<le> max_accounts (hub_limits h)" using mid by (simp add: hub_mid_def)
  ultimately show ?thesis unfolding hub_check_def list_all_iff case_prod_beta by simp
qed

section \<open>Runs\<close>

type_synonym run_state = "hub \<times> conn_id set"

text \<open>
  A \<open>HashMap\<close> promises no order of iteration: between two calls the entries of an account's tables may be
  found in another order. The step \<open>reordered\<close> permutes them.

  Two things are asked of a run that the code does not check. A newcomer is let in when its greeting, the welcome and the presence of
  everyone online, fits its queue: the relay queues it without looking. And the limits let an account have a connection: with none allowed, the relay
  still admits the first connection of an account it does not know. \<open>Relay_Room\<close> drops the first condition for limits that leave room for the
  longest greeting.
\<close>

definition account_reordered :: "account \<Rightarrow> account \<Rightarrow> bool" where
  "account_reordered a b \<longleftrightarrow>
     mset (a_conns b) = mset (a_conns a) \<and> mset (a_online b) = mset (a_online a) \<and> mset (a_streams b) = mset (a_streams a)
     \<and> a_ring_bytes b = a_ring_bytes a \<and> a_rate b = a_rate a"

inductive hub_step :: "(frame \<Rightarrow> bytes) \<Rightarrow> run_state \<Rightarrow> run_state \<Rightarrow> bool" for pe where
  connected: "greeting_fits pe aid now rvk h \<Longrightarrow> connect pe aid hello now mono_ms rvk h = (h', Inr (cid, acts)) \<Longrightarrow>
    hub_step pe (h, W) (h', after_actions acts W)"
| refused: "connect pe aid hello now mono_ms rvk h = (h', Inl e) \<Longrightarrow> hub_step pe (h, W) (h', W)"
| received: "receive pe conn f h = (h', acts) \<Longrightarrow> hub_step pe (h, W) (h', after_actions acts W)"
| delivered: "deliver pe conn f h = (h', acts) \<Longrightarrow> hub_step pe (h, W) (h', after_actions acts W)"
| closed: "close_conn pe conn frm h = (h', acts) \<Longrightarrow> hub_step pe (h, W) (h', after_actions acts W)"
| charged: "charge pe conn n now h = (h', wait, acts) \<Longrightarrow> hub_step pe (h, W) (h', after_actions acts W)"
| taken: "take_outbound pe conn b h = (h', t) \<Longrightarrow> hub_step pe (h, W) (h', if tk_more t then W else W - {conn})"
| reordered: "map_of (hub_accounts h) aid = Some a \<Longrightarrow> account_reordered a a' \<Longrightarrow> hub_step pe (h, W) (put_account aid a' h, W)"

inductive_cases hub_stepE: "hub_step pe s t"

definition hub_start :: "run_state \<Rightarrow> bool" where
  "hub_start s \<longleftrightarrow> (\<exists>l seed shard. with_id_space l seed shard = Inr (fst s) \<and> 0 < max_connections_per_account l \<and> snd s = {})"

definition run_inv :: "run_state \<Rightarrow> bool" where
  "run_inv s \<longleftrightarrow> hub_inv (snd s) (fst s) \<and> 0 < max_connections_per_account (hub_limits (fst s))"

lemma map_of_mset:
  assumes "mset ys = mset xs" and "keys_distinct xs"
  shows "map_of ys = map_of xs \<and> keys_distinct ys \<and> length ys = length xs"
proof -
  have "image_mset fst (mset ys) = image_mset fst (mset xs)" using assms(1) by (rule arg_cong)
  then have "mset (map fst ys) = mset (map fst xs)" by simp
  from mset_eq_imp_distinct_iff [OF this] assms(2) have "keys_distinct ys" by simp
  with assms(2) have "map_of ys = map_of xs \<longleftrightarrow> set ys = set xs" by (intro map_of_inject_set)
  with \<open>keys_distinct ys\<close> mset_eq_setD [OF assms(1)] mset_eq_length [OF assms(1)] show ?thesis by simp
qed

lemma account_reordered_sound:
  assumes "account_reordered a b" and "acct_sound l X W a"
  shows "acct_sound l X W b \<and> map_of (a_conns b) = map_of (a_conns a)
    \<and> (a_conns b = [] \<longleftrightarrow> a_conns a = []) \<and> (a_streams b = [] \<longleftrightarrow> a_streams a = [])"
proof -
  note r = assms(1) [unfolded account_reordered_def]
  have d: "keys_distinct (a_conns a)" "keys_distinct (a_online a)" "keys_distinct (a_streams a)"
    using assms(2) by (simp_all add: acct_sound_def acct_core_def)
  have m: "map_of (a_conns b) = map_of (a_conns a) \<and> keys_distinct (a_conns b) \<and> length (a_conns b) = length (a_conns a)"
    "map_of (a_online b) = map_of (a_online a) \<and> keys_distinct (a_online b) \<and> length (a_online b) = length (a_online a)"
    "map_of (a_streams b) = map_of (a_streams a) \<and> keys_distinct (a_streams b) \<and> length (a_streams b) = length (a_streams a)"
    using r d map_of_mset [of "a_conns b" "a_conns a"] map_of_mset [of "a_online b" "a_online a"]
      map_of_mset [of "a_streams b" "a_streams a"] by blast+
  have maps: "map_of (a_conns b) = map_of (a_conns a)" "map_of (a_online b) = map_of (a_online a)"
    "map_of (a_streams b) = map_of (a_streams a)" using m by blast+
  have stream: "stream_sound l (a_conns b) = stream_sound l (a_conns a)"
    by (intro ext) (simp only: stream_sound_def maps)
  have links: "conn_links (a_streams b) (a_online b) = conn_links (a_streams a) (a_online a)"
    by (intro ext) (simp only: conn_links_def item_link_def maps)
  have "sum_mset (image_mset (stream_bytes \<circ> snd) (mset (a_streams b)))
      = sum_mset (image_mset (stream_bytes \<circ> snd) (mset (a_streams a)))" using r by (simp only:)
  then have total: "ring_total (a_streams b) = ring_total (a_streams a)"
    by (simp only: mset_map [symmetric] sum_mset_sum_list)
  have nil: "a_conns b = [] \<longleftrightarrow> a_conns a = []" "a_streams b = [] \<longleftrightarrow> a_streams a = []"
    using r by (metis mset_zero_iff)+
  have core: "acct_core l X W b"
    using assms(2) m r unfolding acct_sound_def acct_core_def maps stream links total by (simp only:) blast
  with assms(2) maps(1) nil r show ?thesis unfolding acct_sound_def by (simp only:)
qed

lemma reordered_inv:
  assumes inv: "hub_inv W h" and a: "map_of (hub_accounts h) aid = Some a" and r: "account_reordered a a'"
  shows "hub_inv W (put_account aid a' h)"
proof -
  note mid = inv [unfolded hub_inv_def]
  note R = account_reordered_sound [OF r hub_mid_account(1) [OF mid a]]
  from hub_mid_put_account [OF mid a] R hub_mid_account(2) [OF mid a] show ?thesis
    by (simp add: hub_inv_def)
qed

lemma finish_nothing:
  assumes "\<forall>c \<in> closing fx. map_of (hub_conn_account h) c = None"
  shows "finish pe (h, fx) = (h, map Wake (fx_wakes fx))"
proof -
  have "finish_loop pe [] (h, fx) = ([], h, fx\<lparr>fx_close := []\<rparr>)" using assms
  proof (induction "fx_close fx" arbitrary: fx rule: rev_induct)
    case Nil
    then show ?case by (cases fx) (simp add: finish_loop.simps [of pe "[]"])
  next
    case (snoc x xs)
    let ?fx = "fx\<lparr>fx_close := xs\<rparr>"
    have x: "map_of (hub_conn_account h) (fst x) = None" "\<forall>c \<in> closing ?fx. map_of (hub_conn_account h) c = None"
      using snoc(2)[symmetric] snoc.prems by auto
    from snoc(1) [of ?fx] x have "finish_loop pe [] (h, ?fx) = ([], h, ?fx\<lparr>fx_close := []\<rparr>)" by simp
    then show ?case using snoc(2)[symmetric] x
      by (cases x) (simp add: finish_loop.simps [of pe "[]" "(h, fx)"])
  qed
  then show ?thesis by (simp add: finish_def)
qed

lemma close_unknown: "map_of (hub_conn_account h) conn = None \<Longrightarrow> close_conn pe conn frm h = (h, [])"
  by (cases frm) (simp_all add: close_conn_def forget_def finish_nothing fx_push_close_def effects_default_def)

text \<open>Every call is on behalf of one account.\<close>

lemma call_touches:
  assumes inv: "hub_inv W h"
  shows "receive pe conn f h = (h', acts) \<Longrightarrow> \<exists>aid. hub_touches aid h h'"
    and "deliver pe conn f h = (h', acts) \<Longrightarrow> \<exists>aid. hub_touches aid h h'"
    and "close_conn pe conn frm h = (h', acts) \<Longrightarrow> \<exists>aid. hub_touches aid h h'"
    and "charge pe conn n now h = (h', wait, acts) \<Longrightarrow> \<exists>aid. hub_touches aid h h'"
    and "take_outbound pe conn b h = (h', t) \<Longrightarrow> \<exists>aid. hub_touches aid h h'"
proof -
  have "map_of (hub_conn_account h) conn = None \<or> (\<exists>aid. map_of (hub_conn_account h) conn = Some aid)" by auto
  then consider "map_of (hub_conn_account h) conn = None" | aid where "map_of (hub_conn_account h) conn = Some aid" by blast
  note conn = this
  show "\<exists>aid. hub_touches aid h h'" if r: "receive pe conn f h = (h', acts)"
    using conn by cases (use r receive_touches [OF inv _ r] in \<open>auto simp: receive_def\<close>)
  show "\<exists>aid. hub_touches aid h h'" if r: "deliver pe conn f h = (h', acts)"
    using conn by cases (use r deliver_touches [OF inv _ r] in \<open>auto simp: deliver_def\<close>)
  show "\<exists>aid. hub_touches aid h h'" if r: "close_conn pe conn frm h = (h', acts)"
    using conn by cases (use r close_conn_touches [OF inv _ r] in \<open>auto simp: close_unknown\<close>)
  show "\<exists>aid. hub_touches aid h h'" if r: "charge pe conn n now h = (h', wait, acts)"
    using conn by cases (use r charge_touches [OF inv _ r] in \<open>auto simp: charge_def Let_def\<close>)
  show "\<exists>aid. hub_touches aid h h'" if r: "take_outbound pe conn b h = (h', t)"
    using conn by cases (use r take_outbound_touches [OF _ r] in \<open>auto simp: take_outbound_def\<close>)
qed

lemma hub_touches_limits: "\<exists>aid. hub_touches aid h h' \<Longrightarrow> hub_limits h' = hub_limits h"
  by (auto simp: hub_touches_def)

lemma hub_step_inv:
  assumes "hub_step pe s t" and "run_inv s"
  shows "run_inv t"
proof (cases rule: hub_step.cases [OF assms(1)])
  case (1 aid now rvk h hello mono_ms h' cid acts W)
  with assms(2) connect_inv [OF _ _ 1(3,4), of W] connect_isolated [OF _ _ 1(3,4), of W] show ?thesis
    by (simp add: run_inv_def)
next
  case (2 aid hello now mono_ms rvk h h' e W)
  with assms(2) connect_refused_inv [OF _ 2(3), of W] connect_refused_limits [OF 2(3)] show ?thesis
    by (simp add: run_inv_def hub_touches_def)
next
  case (3 conn f h h' acts W)
  with assms(2) receive_inv [OF _ 3(3), of W] hub_touches_limits [OF call_touches(1) [OF _ 3(3), of W]] show ?thesis by (simp add: run_inv_def)
next
  case (4 conn f h h' acts W)
  with assms(2) deliver_inv [OF _ 4(3), of W] hub_touches_limits [OF call_touches(2) [OF _ 4(3), of W]] show ?thesis by (simp add: run_inv_def)
next
  case (5 conn frm h h' acts W)
  with assms(2) close_conn_inv [OF _ 5(3), of W] hub_touches_limits [OF call_touches(3) [OF _ 5(3), of W]] show ?thesis by (simp add: run_inv_def)
next
  case (6 conn n now h h' wait acts W)
  with assms(2) charge_inv [OF _ 6(3), of W] hub_touches_limits [OF call_touches(4) [OF _ 6(3), of W]] show ?thesis by (simp add: run_inv_def)
next
  case (7 conn b h h' t W)
  with assms(2) take_outbound_inv [OF _ 7(3), of W] hub_touches_limits [OF call_touches(5) [OF _ 7(3), of W]] show ?thesis by (simp add: run_inv_def)
next
  case (8 h aid a a' W)
  with assms(2) reordered_inv [OF _ 8(3,4), of W] show ?thesis by (simp add: run_inv_def put_account_def)
qed

lemma hub_start_inv: "hub_start s \<Longrightarrow> run_inv s"
  by (cases s) (auto simp: hub_start_def run_inv_def hub_inv_def hub_mid_def with_id_space_def split: if_splits)

interpretation hub_runs: invariant_machine hub_start "hub_step pe" run_inv
  by unfold_locales (auto intro: hub_start_inv hub_step_inv)

text \<open>A first run: a client of a tiny relay is admitted, and its welcome is waiting with a wake outstanding.\<close>

definition first_hello :: hello where
  "first_hello = \<lparr>h_protocol = 1, h_principal = [1], h_role = 2, h_account_credential = [], h_account_root = [],
     h_chain = [], h_signature = [], h_invite = []\<rparr>"

definition first_hub :: hub where
  "first_hub = \<lparr>hub_limits = tiny_limits, hub_accounts = [], hub_conn_account = [], hub_next_conn = 1,
     hub_epoch_state = 5, hub_clock = 0\<rparr>"

definition first_joined :: hub where
  "first_joined = fst (connect (\<lambda>_. [1]) [9] first_hello 0 0 RevokerUnknown first_hub)"

lemma first_hub_start: "hub_start (first_hub, {})"
  unfolding hub_start_def
  by (rule exI [of _ tiny_limits], rule exI [of _ 5], rule exI [of _ 0]) (simp add: with_id_space_def first_hub_def tiny_limits_def)

lemmas first_defs = connect_def connect_refusal_def first_hello_def first_hub_def tiny_limits_def PROTOCOL_def role_of_i32_def
  connect_debt_def CONNECT_REFUSED_ABOVE_MS_def admit_def account_new_def greeted_def welcome_of_def conn_arm_def
  effects_wake_def effects_default_def finish_nothing put_account_def presentable_def MAX_PRESENCE_CHAIN_BYTES_def
  revoker_fields_def Let_def

lemma first_connect:
  "connect (\<lambda>_. [1]) [9] first_hello 0 0 RevokerUnknown first_hub = (first_joined, Inr (1, [Wake 1]))"
  by (simp add: first_joined_def first_defs)

lemma first_greeting_fits: "greeting_fits (\<lambda>_. [1]) [9] 0 RevokerUnknown first_hub"
  by (simp add: greeting_fits_def greeting_def first_defs encode_frame_def write_frame_def write_varint.simps [of 1] word_le_nat_alt)

lemma first_reachable: "reach hub_start (hub_step (\<lambda>_. [1])) (first_joined, {1})"
proof (rule reach_step [OF reach_start [where start = hub_start, OF first_hub_start]])
  show "hub_step (\<lambda>_. [1]) (first_hub, {}) (first_joined, {1})"
    using connected [OF first_greeting_fits first_connect, of "{}"] by (simp add: after_actions_def)
qed

section \<open>Properties\<close>

lemma reachable_hub_check: "reach hub_start (hub_step pe) (h, W) \<Longrightarrow> hub_check (hub_limits h) h W"
  using hub_runs.reach_inv [where s = "(h, W)"] by (simp add: run_inv_def hub_inv_check)

text \<open>A connection the relay tells the server to close is one it has already forgotten, whichever call
  closed it.\<close>

theorem closed_connections_are_forgotten:
  assumes "reach hub_start (hub_step pe) (h, W)" and "Close cid g \<in> set acts"
    and "receive pe conn f h = (h', acts) \<or> deliver pe conn f h = (h', acts) \<or> close_conn pe conn frm h = (h', acts)
      \<or> (\<exists>wait. charge pe conn n now h = (h', wait, acts))"
  shows "map_of (hub_conn_account h') cid = None"
proof -
  have inv: "hub_inv W h" using hub_runs.reach_inv [OF assms(1)] by (simp add: run_inv_def)
  from assms(3) show ?thesis
    using receive_inv [OF inv] deliver_inv [OF inv] close_conn_inv [OF inv] charge_inv [OF inv] assms(2) by metis
qed

lemma first_closed:
  "\<exists>h. close_conn (\<lambda>_. [1]) 1 (Some (Frame None)) first_joined = (h, [Close 1 (Frame None)])"
  by (simp add: close_conn_def first_joined_def first_defs fx_push_close_def finish_def forget_def leave_account_def
      go_offline_def finish_loop.simps [of _ "[]"] finish_loop.simps [of _ "[(Suc 0, Frame None)]"])

theorem closed_connections_are_forgotten_witness:
  "map_of (hub_conn_account (fst (close_conn (\<lambda>_. [1]) 1 (Some (Frame None)) first_joined))) 1 = None"
proof -
  from first_closed obtain h where h: "close_conn (\<lambda>_. [1]) 1 (Some (Frame None)) first_joined = (h, [Close 1 (Frame None)])" ..
  from closed_connections_are_forgotten [OF first_reachable, of 1 "Frame None" "[Close 1 (Frame None)]" 1 "Frame None" h "Some (Frame None)"] h
  show ?thesis by simp
qed

text \<open>C3. Accounts are isolated. Whatever a connection of one account sends, however it is closed or charged, the state of
  every other account is exactly what it was, no connection of another account is lost or moved, and every
  connection the server is told to wake or close belongs to the account of the caller.\<close>

theorem accounts_are_isolated:
  assumes "reach hub_start (hub_step pe) (h, W)" and "map_of (hub_conn_account h) conn = Some aid"
    and "receive pe conn f h = (h', acts) \<or> deliver pe conn f h = (h', acts) \<or> close_conn pe conn frm h = (h', acts)
      \<or> (\<exists>wait. charge pe conn n now h = (h', wait, acts))"
    and "bid \<noteq> aid"
  shows "map_of (hub_accounts h') bid = map_of (hub_accounts h) bid \<and> conns_of bid h' = conns_of bid h
    \<and> action_conns acts \<subseteq> conns_of aid h"
proof -
  have inv: "hub_inv W h" using hub_runs.reach_inv [OF assms(1)] by (simp add: run_inv_def)
  from assms(3) have t: "hub_touches aid h h' \<and> action_conns acts \<subseteq> conns_of aid h"
    using receive_touches [OF inv assms(2)] deliver_touches [OF inv assms(2)] close_conn_touches [OF inv assms(2)]
      charge_touches [OF inv assms(2)] by metis
  moreover have "conns_of bid h' = conns_of bid h"
  proof
    show "conns_of bid h' \<subseteq> conns_of bid h" using t hub_touches_conns by blast
    show "conns_of bid h \<subseteq> conns_of bid h'" using t assms(4) by (auto simp: hub_touches_def)
  qed
  ultimately show ?thesis using assms(4) by (simp add: hub_touches_def)
qed

theorem accounts_are_isolated_witness:
  "map_of (hub_accounts (fst (receive (\<lambda>_. [1]) 1 (Frame (Some (BPing 7))) first_joined))) [8] = None
    \<and> action_conns (snd (receive (\<lambda>_. [1]) 1 (Frame (Some (BPing 7))) first_joined)) \<subseteq> {1}"
proof -
  obtain h acts where r: "receive (\<lambda>_. [1]) 1 (Frame (Some (BPing 7))) first_joined = (h, acts)" by fastforce
  have "map_of (hub_conn_account first_joined) 1 = Some [9]" "map_of (hub_accounts first_joined) [8] = None"
    "conns_of [9] first_joined = {1}"
    by (auto simp: first_joined_def first_defs)
  with accounts_are_isolated [OF first_reachable, of 1 "[9]" "Frame (Some (BPing 7))" h acts _ _ _ "[8]"] r show ?thesis by simp
qed

end
