(* ===== verification/Relay_Presence.thy ===== *)
theory Relay_Presence
  imports Relay_Run
begin

text \<open>
  What the relay promises about who is connected: an abstract roster of connections, which the
  relay's tables refine. A connection is admitted with its account, its principal and the chain it presents to
  others, keeps all three for life, and is gone exactly when it is closed.
\<close>

section \<open>The abstract roster\<close>

type_synonym roster = "conn_id \<rightharpoonup> account_id \<times> bytes \<times> certificate list"

definition badge :: "conn \<Rightarrow> bytes \<times> certificate list" where
  "badge c = (c_principal c, c_chain c)"

definition who :: "account \<Rightarrow> conn_id \<rightharpoonup> bytes \<times> certificate list" where
  "who a = (\<lambda>cid. map_option badge (map_of (a_conns a) cid))"

definition roster :: "hub \<Rightarrow> roster" where
  "roster h cid =
     (case map_of (hub_conn_account h) cid of
        None \<Rightarrow> None
      | Some aid \<Rightarrow> Option.bind (map_of (hub_accounts h) aid) (\<lambda>a. map_option (Pair aid) (who a cid)))"

abbreviation closed_by :: "action list \<Rightarrow> conn_id set" where
  "closed_by acts \<equiv> {c. \<exists>f. Close c f \<in> set acts}"

lemma badge_simps [simp]:
  "badge (c\<lparr>c_out := q\<rparr>) = badge c" "badge (c\<lparr>c_armed := b\<rparr>) = badge c" "badge (c\<lparr>c_throttle_notice_ms := t\<rparr>) = badge c"
  "badge (c\<lparr>c_subs := subs\<rparr>) = badge c"
  by (simp_all add: badge_def)

lemma roster_put_account:
  assumes "map_of (hub_accounts h) aid = Some a" and "who b = who a"
  shows "roster (put_account aid b h) = roster h"
  using assms by (auto simp: roster_def put_account_def update_conv' fun_eq_iff split: option.split)

lemma roster_cong:
  "hub_accounts h' = hub_accounts h \<Longrightarrow> hub_conn_account h' = hub_conn_account h \<Longrightarrow> roster h' = roster h"
  by (simp add: roster_def fun_eq_iff split: option.split)

lemma who_put_conn: "map_of (a_conns a) cid = Some c \<Longrightarrow> badge d = badge c \<Longrightarrow> who (put_conn cid d a) = who a"
  by (auto simp: who_def put_conn_def update_conv' fun_eq_iff)

lemma who_conns: "a_conns b = a_conns a \<Longrightarrow> who b = who a"
  by (simp add: who_def)

lemma pushed_or_closed_badge: "pushed_or_closed cid c p fx = (c', fx') \<Longrightarrow> badge c' = badge c"
  by (auto simp: badge_def pushed_or_closed_def conn_arm_def Let_def split: prod.splits push_result.splits if_splits)

lemma enqueue_roster [simp]: "roster (fst (enqueue pe aid conn f hf)) = roster (fst hf)"
  by (cases hf) (auto simp: enqueue_def Let_def split: option.split prod.split
      intro!: roster_put_account who_put_conn dest: pushed_or_closed_badge)

lemma enqueue_all_roster [simp]: "roster (fst (enqueue_all pe aid f others hf)) = roster (fst hf)"
  by (induction others arbitrary: hf) simp_all

section \<open>Handlers leave it alone\<close>

lemma ensure_stream_roster: "ensure_stream aid key h = (ok, h1) \<Longrightarrow> roster h1 = roster h"
  by (auto simp: ensure_stream_def ensure_stream_in_def Let_def split: option.splits prod.splits if_splits
      intro!: roster_put_account who_conns)

lemma fan_out_badge:
  "fan_out l key k epoch e subs (conns, fx) = (conns', fx') \<Longrightarrow>
   map_option badge (map_of conns' cid) = map_option badge (map_of conns cid)"
proof (induction subs arbitrary: conns fx)
  case (Cons sub subs)
  show ?case
  proof (cases "map_of conns sub")
    case (Some c)
    obtain c' fx1 where po: "pushed_or_closed sub c (push_published l key k epoch e (c_out c)) fx = (c', fx1)" by fastforce
    with Cons.prems Some have "fan_out l key k epoch e subs (AList.update sub c' conns, fx1) = (conns', fx')" by simp
    from Cons.IH [OF this] Some pushed_or_closed_badge [OF po] show ?thesis by (simp add: update_conv')
  qed (use Cons in simp)
qed simp

lemma enforce_ring_budget_conns [simp]: "a_conns (enforce_ring_budget b a) = a_conns a"
  by (induction b a rule: enforce_ring_budget.induct)
    (simp add: enforce_ring_budget.simps [of b a for b a] evict_at_def split: option.split prod.split)

lemma publish_in_who: "publish_in pe l z t key k env s (a, fx) = (a', fx') \<Longrightarrow> who a' = who a"
  using fan_out_badge by (fastforce simp: publish_in_def who_def fun_eq_iff Let_def split: prod.splits)

lemma publish_roster: "roster (fst (publish pe aid conn key k env hf)) = roster (fst hf)"
proof -
  obtain h fx where hf: "hf = (h, fx)" by fastforce
  obtain ok h1 where ens: "ensure_stream aid key h = (ok, h1)" by fastforce
  have "roster (put_account aid a' (h2\<lparr>hub_clock := t\<rparr>)) = roster h1"
    if "map_of (hub_accounts h1) aid = Some a" "publish_in pe l z t' key k env s (a, fx) = (a', fx')"
      "hub_accounts h2 = hub_accounts h1" "hub_conn_account h2 = hub_conn_account h1" for a a' h2 t t' l z s fx'
    using roster_put_account [of "h2\<lparr>hub_clock := t\<rparr>" aid a a'] publish_in_who [OF that(2)] that
      roster_cong [of "h2\<lparr>hub_clock := t\<rparr>" h1] by simp
  with ensure_stream_roster [OF ens] show ?thesis
    by (auto simp: hf publish_def ens Let_def split: option.splits prod.splits if_splits)
qed

lemma direct_roster: "roster (fst (direct pe aid conn target env hf)) = roster (fst hf)"
  by (cases hf) (auto simp: direct_def Let_def split: option.split prod.split push_result.split
      intro!: roster_put_account who_put_conn dest: pushed_or_closed_badge)

lemma on_envelope_roster: "roster (fst (on_envelope pe aid conn env hf)) = roster (fst hf)"
  by (cases hf) (simp add: on_envelope_def Let_def publish_roster direct_roster
      split: option.split kind.split address.split)

lemma roster_put_streams:
  assumes "map_of (hub_accounts h) aid = Some a" and "map_option badge (map_of (a_conns a) conn) = Some (badge d)"
  shows "roster (put_account aid (put_conn conn d (a\<lparr>a_streams := ss\<rparr>)) h) = roster h"
    and "roster (put_account aid ((put_conn conn d a)\<lparr>a_streams := ss\<rparr>) h) = roster h"
proof -
  have "who (put_conn conn d (a\<lparr>a_streams := ss\<rparr>)) = who a" "who ((put_conn conn d a)\<lparr>a_streams := ss\<rparr>) = who a"
    using assms(2) by (auto simp: who_def put_conn_def update_conv' fun_eq_iff)
  then show "roster (put_account aid (put_conn conn d (a\<lparr>a_streams := ss\<rparr>)) h) = roster h"
    and "roster (put_account aid ((put_conn conn d a)\<lparr>a_streams := ss\<rparr>) h) = roster h"
    by (simp_all add: roster_put_account [OF assms(1)])
qed

lemma on_subscribe_roster: "roster (fst (on_subscribe pe aid conn sub hf)) = roster (fst hf)"
proof -
  obtain h fx where hf: "hf = (h, fx)" by fastforce
  show ?thesis
  proof (cases "sub_stream sub")
    case (Some st)
    obtain ok h1 where e: "ensure_stream aid \<lparr>sk_publisher = sr_publisher st, sk_channel = sr_channel st\<rparr> h = (ok, h1)"
      by fastforce
    with Some show ?thesis
      by (simp add: hf on_subscribe_def Let_def ensure_stream_roster [OF e] roster_put_streams
          split: option.split prod.split push_result.split)
  qed (simp add: hf on_subscribe_def Let_def)
qed

lemma unsubscribe_roster: "roster (unsubscribe aid conn key h) = roster h"
  by (auto simp: unsubscribe_def Let_def roster_put_streams split: option.split intro!: roster_put_account who_conns)

lemma route_roster: "roster (fst (route pe aid conn f hf)) = roster (fst hf)"
  by (cases hf) (simp add: route_def on_envelope_roster on_subscribe_roster unsubscribe_roster split: option.split body.split)

lemma spend_queued_roster: "roster (fst (spend_queued aid hf)) = roster (fst hf)"
  by (cases hf) (auto simp: spend_queued_def split: option.split intro!: roster_put_account who_conns)

section \<open>Leaving\<close>

lemma leave_account_conns: "a_conns (snd (leave_account conn c a)) = AList.delete conn (a_conns a)"
  by (simp add: leave_account_def go_offline_def split: option.split prod.split)

lemma forget_roster: "roster (fst (forget pe conn hf)) = (roster (fst hf))(conn := None)"
proof -
  obtain h fx where hf: "hf = (h, fx)" by fastforce
  let ?h1 = "h\<lparr>hub_conn_account := AList.delete conn (hub_conn_account h)\<rparr>"
  have h1: "roster ?h1 = (roster h)(conn := None)"
    by (auto simp: roster_def delete_conv' fun_eq_iff split: option.split)
  show ?thesis
  proof (cases "\<exists>aid a c. map_of (hub_conn_account h) conn = Some aid \<and> map_of (hub_accounts h) aid = Some a
      \<and> map_of (a_conns a) conn = Some c")
    case False
    then have "roster h conn = None" by (auto simp: roster_def who_def split: option.split bind_splits)
    with h1 False show ?thesis by (auto simp: hf forget_def Let_def fun_upd_idem split: option.split)
  next
    case True
    then obtain aid a c where aid: "map_of (hub_conn_account h) conn = Some aid"
      and a: "map_of (hub_accounts h) aid = Some a" and c: "map_of (a_conns a) conn = Some c" by blast
    let ?h2 = "without_conn conn aid (snd (leave_account conn c a)) h"
    have "roster ?h2 = (roster h)(conn := None)"
    proof
      fix x
      have "map_of (a_conns a) x = None" if "AList.delete conn (a_conns a) = []" "x \<noteq> conn"
        using that by (metis delete_conv' fun_upd_other map_of.simps(1))
      then show "roster ?h2 x = ((roster h)(conn := None)) x"
        using a by (auto simp: roster_def who_def without_conn_simps leave_account_conns delete_conv'
            split: option.split)
    qed
    with forget_eq [OF aid a c, of pe fx] show ?thesis by (auto simp: hf)
  qed
qed

lemma finish_loop_closed: "finish_loop pe closed hf = (closed', hf') \<Longrightarrow> set closed \<subseteq> set closed'"
proof (induction pe closed hf rule: finish_loop.induct)
  case (1 pe closed hf)
  show ?case
  proof (cases "fx_close (snd hf) = []")
    case False
    obtain conn f where cf: "last (fx_close (snd hf)) = (conn, f)" by fastforce
    let ?hf = "(fst hf, (snd hf)\<lparr>fx_close := butlast (fx_close (snd hf))\<rparr>)"
    show ?thesis
    proof (cases "conn \<in> set (map fst closed) \<or> map_of (hub_conn_account (fst hf)) conn = None")
      case True
      with "1.prems" False cf have "finish_loop pe closed ?hf = (closed', hf')" by (simp add: finish_loop.simps [of pe closed hf])
      with "1.IH"(1) [OF False cf [symmetric] refl refl] True show ?thesis by simp
    next
      case skip: False
      with "1.prems" False cf have "finish_loop pe (closed @ [(conn, f)]) (forget pe conn ?hf) = (closed', hf')"
        by (auto simp: finish_loop.simps [of pe closed hf] Let_def)
      with "1.IH"(2) [OF False cf [symmetric] refl refl] skip show ?thesis by simp
    qed
  qed (use "1.prems" in \<open>simp add: finish_loop.simps [of pe closed hf]\<close>)
qed

lemma finish_loop_roster:
  assumes "\<forall>c \<in> fst ` set closed. roster (fst hf) c = None" and "finish_loop pe closed hf = (closed', hf')"
  shows "roster (fst hf') = roster (fst hf) |` (- fst ` set closed')"
  using assms
proof (induction pe closed hf rule: finish_loop.induct)
  case (1 pe closed hf)
  obtain h fx where hf: "hf = (h, fx)" by fastforce
  show ?case
  proof (cases "fx_close fx = []")
    case True
    with "1.prems"(2) have "closed' = closed" "hf' = (h, fx)"
      by (simp_all add: hf finish_loop.simps [of pe closed "(h, fx)"])
    with "1.prems"(1) show ?thesis by (auto simp: hf restrict_map_def fun_eq_iff)
  next
    case False
    obtain conn f where cf: "last (fx_close fx) = (conn, f)" by fastforce
    let ?fx = "fx\<lparr>fx_close := butlast (fx_close fx)\<rparr>"
    show ?thesis
    proof (cases "conn \<in> set (map fst closed) \<or> map_of (hub_conn_account h) conn = None")
      case True
      then have "finish_loop pe closed (h, ?fx) = (closed', hf')"
        using "1.prems"(2) False cf by (simp add: hf finish_loop.simps [of pe closed "(h, fx)"])
      then show ?thesis using "1.IH"(1) "1.prems"(1) False cf True by (simp add: hf)
    next
      case skip: False
      have next_loop: "finish_loop pe (closed @ [(conn, f)]) (forget pe conn (h, ?fx)) = (closed', hf')"
        using "1.prems"(2) skip False cf by (auto simp: hf finish_loop.simps [of pe closed "(h, fx)"] Let_def)
      have "\<forall>c \<in> fst ` set (closed @ [(conn, f)]). roster (fst (forget pe conn (h, ?fx))) c = None"
        using "1.prems"(1) by (simp add: forget_roster hf)
      with next_loop have "roster (fst hf') = roster (fst (forget pe conn (h, ?fx))) |` (- fst ` set closed')"
        using "1.IH"(2) [of "(conn, f)" conn f "(h, ?fx)"] False cf skip by (simp add: hf)
      then have "roster (fst hf') = (roster h)(conn := None) |` (- fst ` set closed')" by (simp only: forget_roster fst_conv)
      moreover have "conn \<in> fst ` set closed'"
      proof -
        have "(conn, f) \<in> set closed'" using finish_loop_closed [OF next_loop] by simp
        then show ?thesis by force
      qed
      ultimately show ?thesis by (auto simp: hf fun_eq_iff restrict_map_def)
    qed
  qed
qed

lemma finish_roster:
  assumes "finish pe hf = (h', acts)"
  shows "roster h' = roster (fst hf) |` (- closed_by acts)"
proof -
  obtain closed h fx where loop: "finish_loop pe [] hf = (closed, h, fx)" by (metis prod_cases3)
  then have "closed_by acts = fst ` set closed" using assms by (force simp: finish_def)
  with finish_loop_roster [OF _ loop] assms loop show ?thesis by (simp add: finish_def)
qed

section \<open>Calls\<close>

lemma receive_roster:
  assumes "receive pe conn f h = (h', acts)"
  shows "roster h' = roster h |` (- closed_by acts)"
proof (cases "map_of (hub_conn_account h) conn")
  case None
  with assms show ?thesis by (auto simp: receive_def)
next
  case (Some aid)
  with assms have "finish pe (spend_queued aid (route pe aid conn f (h, effects_default))) = (h', acts)" by (simp add: receive_def)
  from finish_roster [OF this] show ?thesis by (simp add: spend_queued_roster route_roster)
qed

lemma deliver_roster:
  assumes "deliver pe conn f h = (h', acts)"
  shows "roster h' = roster h |` (- closed_by acts)"
proof (cases "map_of (hub_conn_account h) conn")
  case None
  with assms show ?thesis by (auto simp: deliver_def)
next
  case (Some aid)
  with assms have "finish pe (enqueue pe aid conn f (h, effects_default)) = (h', acts)" by (simp add: deliver_def)
  from finish_roster [OF this] show ?thesis by simp
qed

lemma close_conn_roster:
  assumes "close_conn pe conn frm h = (h', acts)"
  shows "roster h' = roster h |` (- insert conn (closed_by acts))"
proof (cases frm)
  case None
  with assms have "finish pe (forget pe conn (h, effects_default)) = (h', acts)" by (simp add: close_conn_def)
  from finish_roster [OF this] show ?thesis by (auto simp: forget_roster restrict_map_def fun_eq_iff)
next
  case (Some f)
  with assms have fin: "finish pe (h, fx_push_close conn f effects_default) = (h', acts)" by (simp add: close_conn_def)
  have "roster h conn = None" if "conn \<notin> closed_by acts"
  proof (rule ccontr)
    assume "roster h conn \<noteq> None"
    then have known: "map_of (hub_conn_account h) conn \<noteq> None" by (auto simp: roster_def split: option.splits)
    obtain closed h1 fx where loop: "finish_loop pe [] (h, fx_push_close conn f effects_default) = (closed, h1, fx)" by (metis prod_cases3)
    have "finish_loop pe [(conn, f)] (forget pe conn (h, effects_default)) = (closed, h1, fx)"
      using loop known by (simp add: finish_loop.simps [of pe "[]"] fx_push_close_def effects_default_def)
    from finish_loop_closed [OF this] have "(conn, f) \<in> set closed" by simp
    with that fin loop show False by (force simp: finish_def)
  qed
  with finish_roster [OF fin] show ?thesis by (auto simp: restrict_map_def fun_eq_iff)
qed

lemma throttle_notice_who:
  assumes "throttle_notice pe l conn w now (a, fx) = (a', fx')"
  shows "who a' = who a"
proof (cases "w \<ge> THROTTLE_NOTICE_MIN_WAIT_MS \<and> (\<exists>c. map_of (a_conns a) conn = Some c \<and> notice_due now c)")
  case False
  with assms have "a' = a" by (auto simp: throttle_notice_def split: if_splits option.splits)
  then show ?thesis by simp
next
  case True
  then obtain c where c: "map_of (a_conns a) conn = Some c" "notice_due now c" by blast
  let ?c = "c\<lparr>c_throttle_notice_ms := Some now\<rparr>"
  obtain c' fx1 where po: "pushed_or_closed conn ?c
      (push_frame pe l (error Throttled 0 ''account over its work rate; reading slowed'') (c_out ?c)) fx = (c', fx1)" by fastforce
  with assms True c have "a' = put_conn conn c' a" by (simp add: throttle_notice_def)
  with pushed_or_closed_badge [OF po] who_put_conn [OF c(1)] show ?thesis by simp
qed

lemma charge_roster:
  assumes "charge pe conn n now h = (h', wait, acts)"
  shows "roster h' = roster h |` (- closed_by acts)"
proof (cases "\<exists>aid a. map_of (hub_conn_account h) conn = Some aid \<and> map_of (hub_accounts h) aid = Some a")
  case False
  with assms show ?thesis by (auto simp: charge_def Let_def split: option.splits)
next
  case True
  then obtain aid a where aid: "map_of (hub_conn_account h) conn = Some aid" and a: "map_of (hub_accounts h) aid = Some a" by blast
  obtain a' fx where n: "charge_noticed pe conn n now h a = (a', fx)" by fastforce
  then have fin: "finish pe (put_account aid a' h, fx) = (h', acts)"
    using assms aid a by (auto simp: charge_def charge_noticed_def Let_def split: prod.splits)
  have "who a' = who a"
    using n unfolding charge_noticed_def Let_def by (auto dest!: throttle_notice_who intro: trans [OF _ who_conns])
  with finish_roster [OF fin] roster_put_account [OF a] show ?thesis by simp
qed

lemma take_outbound_roster:
  assumes "take_outbound pe conn b h = (h', t)"
  shows "roster h' = roster h"
  using assms by (auto simp: take_outbound_def Let_def split: option.splits prod.splits intro!: roster_put_account who_put_conn)

lemma connect_debt_roster: "roster (fst (connect_debt aid mno h)) = roster h"
  by (auto simp: connect_debt_def Let_def split: option.split intro!: roster_put_account who_conns)

lemma joined_roster:
  "roster (fst (joined pe aid hello now mno rvk h)) = (roster h)(hub_next_conn h \<mapsto> (aid, h_principal hello, presentable (h_chain hello)))"
  by (auto simp: joined_def conn_arm_def greeted_def badge_def roster_def who_def put_account_def update_conv'
      account_new_def fun_eq_iff Let_def split: option.split)

lemma connect_roster:
  assumes "connect pe aid hello now mno rvk h = (h', Inr (cid, acts))"
  shows "roster h' = ((roster h)(cid \<mapsto> (aid, h_principal hello, presentable (h_chain hello)))) |` (- closed_by acts)"
proof -
  obtain h1 wait where debt: "connect_debt aid mno h = (h1, wait)" by fastforce
  have adm: "admit pe aid hello now mno rvk h1 = (h', cid, acts)"
    using assms debt by (auto simp: connect_def split: option.splits if_splits prod.splits)
  from admit_joined [OF adm] obtain here others where cid: "cid = hub_next_conn h1"
    and fin: "finish pe (enqueue_all pe aid here others (joined pe aid hello now mno rvk h1)) = (h', acts)" by blast
  have "roster h1 = roster h" using connect_debt_roster [of aid mno h] debt by simp
  with finish_roster [OF fin] cid show ?thesis by (simp add: joined_roster)
qed

section \<open>Refinement\<close>

text \<open>A call of the server with its arguments, and what it answers.\<close>

datatype relay_call =
    CallConnect account_id hello nat nat revoker
  | CallReceive conn_id frame
  | CallDeliver conn_id frame
  | CallClose conn_id "frame option"
  | CallCharge conn_id nat nat
  | CallTake conn_id nat

datatype relay_answer =
    Admitted conn_id "action list"
  | Refused frame
  | Acts "action list"
  | Waits nat "action list"
  | Took taken

fun relay_run :: "(frame \<Rightarrow> bytes) \<Rightarrow> relay_call \<Rightarrow> hub \<Rightarrow> hub \<times> relay_answer" where
  "relay_run pe (CallConnect aid hello now_ms mono_ms rvk) h =
     (case connect pe aid hello now_ms mono_ms rvk h of (h', Inl f) \<Rightarrow> (h', Refused f) | (h', Inr (cid, acts)) \<Rightarrow> (h', Admitted cid acts))"
| "relay_run pe (CallReceive conn f) h = apsnd Acts (receive pe conn f h)"
| "relay_run pe (CallDeliver conn f) h = apsnd Acts (deliver pe conn f h)"
| "relay_run pe (CallClose conn frm) h = apsnd Acts (close_conn pe conn frm h)"
| "relay_run pe (CallCharge conn n now_ms) h = (case charge pe conn n now_ms h of (h', wait, acts) \<Rightarrow> (h', Waits wait acts))"
| "relay_run pe (CallTake conn b) h = apsnd Took (take_outbound pe conn b h)"

text \<open>
  The abstract machine: who is connected, as which principal of which account, with which chain. What a call does to it is a function of the call
  and its answer: an admission adds the newcomer, the connections reported closed are removed, and with them the one the server itself closes,
  for which there is no report when it gives no frame to send.
\<close>

datatype presence_event =
    Joined conn_id account_id bytes "certificate list" "conn_id set"
  | Left "conn_id set"

fun presence_step :: "presence_event \<Rightarrow> roster \<Rightarrow> roster" where
  "presence_step (Joined cid aid p chain gone) r = (r(cid \<mapsto> (aid, p, chain))) |` (- gone)"
| "presence_step (Left gone) r = r |` (- gone)"

fun presence_of_call :: "relay_call \<Rightarrow> relay_answer \<Rightarrow> presence_event" where
  "presence_of_call (CallConnect aid hello now_ms mono_ms rvk) (Admitted cid acts) =
     Joined cid aid (h_principal hello) (presentable (h_chain hello)) (closed_by acts)"
| "presence_of_call (CallClose conn frm) (Acts acts) = Left (insert conn (closed_by acts))"
| "presence_of_call _ (Acts acts) = Left (closed_by acts)"
| "presence_of_call _ (Waits wait acts) = Left (closed_by acts)"
| "presence_of_call _ _ = Left {}"

text \<open>What the abstract machine asks of an admission: an id that is new, and a principal not yet connected to that account.\<close>

fun presence_guard :: "presence_event \<Rightarrow> roster \<Rightarrow> bool" where
  "presence_guard (Joined cid aid p chain gone) r \<longleftrightarrow> r cid = None \<and> (\<forall>x q c. r x = Some (aid, q, c) \<longrightarrow> q \<noteq> p)"
| "presence_guard (Left gone) r \<longleftrightarrow> True"

definition presence_spec :: "roster \<Rightarrow> roster \<Rightarrow> bool" where
  "presence_spec r r' \<longleftrightarrow> (\<exists>e. presence_guard e r \<and> r' = presence_step e r)"

lemma restrict_UNIV [simp]: "r |` UNIV = r"
  by (simp add: restrict_map_def)

text \<open>A newcomer's id is new, and so is its principal in its account.\<close>

lemma admitted_is_new:
  assumes inv: "hub_inv W h" and con: "connect pe aid hello now mno rvk h = (h', Inr (cid, acts))"
  shows "roster h cid = None \<and> (\<forall>x q ch. roster h x = Some (aid, q, ch) \<longrightarrow> q \<noteq> h_principal hello)"
proof -
  note mid = inv [unfolded hub_inv_def]
  obtain h1 wait where debt: "connect_debt aid mno h = (h1, wait)" by fastforce
  have adm: "admit pe aid hello now mno rvk h1 = (h', cid, acts)" and ref: "connect_refusal aid hello h = None"
    using con debt by (auto simp: connect_def split: option.splits if_splits prod.splits)
  have cid: "cid = hub_next_conn h" using admit_joined [OF adm] connect_debt_mid [OF mid debt] by simp
  have "map_of (hub_conn_account h) cid = None"
    using hub_mid_fresh(1) [OF mid] cid by simp
  then have "roster h cid = None" by (simp add: roster_def)
  moreover have "q \<noteq> h_principal hello" if x: "roster h x = Some (aid, q, ch)" for x q ch
  proof
    assume q: "q = h_principal hello"
    from x obtain a c where a: "map_of (hub_accounts h) aid = Some a" and c: "map_of (a_conns a) x = Some c"
      and p: "c_principal c = q" by (auto simp: roster_def who_def badge_def bind_eq_Some_conv split: option.splits)
    have "acct_core (hub_limits h) {} W a" using hub_mid_account(1) [OF mid a] by (simp add: acct_sound_def effects_default_def)
    from acct_core_conn(2) [OF this c] have "map_of (a_online a) (c_principal c) \<noteq> None" by (auto simp: conn_links_def)
    with ref a p q show False by (auto simp: connect_refusal_def Let_def split: if_splits)
  qed
  ultimately show ?thesis by blast
qed

lemma reordered_roster:
  assumes inv: "hub_inv W h" and a: "map_of (hub_accounts h) aid = Some a" and r: "account_reordered a a'"
  shows "roster (put_account aid a' h) = roster h"
proof (rule roster_put_account [OF a])
  have "map_of (a_conns a') = map_of (a_conns a)"
    using account_reordered_sound [OF r hub_mid_account(1) [OF inv [unfolded hub_inv_def] a]] by blast
  then show "who a' = who a" by (simp add: who_def)
qed

lemma connect_refused_roster: "connect pe aid hello now mono_ms rvk h = (h', Inl e) \<Longrightarrow> roster h' = roster h"
  using connect_debt_roster [of aid mono_ms h] by (auto simp: connect_def split: option.splits if_splits prod.splits)

lemma relay_run_presence:
  assumes inv: "hub_inv W h" and run: "relay_run pe call h = (h', ans)"
  shows "presence_guard (presence_of_call call ans) (roster h) \<and> roster h' = presence_step (presence_of_call call ans) (roster h)"
proof (cases call)
  case (CallConnect aid hello now_ms mono_ms rvk)
  obtain h1 res where con: "connect pe aid hello now_ms mono_ms rvk h = (h1, res)" by fastforce
  show ?thesis
  proof (cases res)
    case (Inl e)
    with con run CallConnect connect_refused_roster show ?thesis by auto
  next
    case (Inr r)
    obtain cid acts where r: "r = (cid, acts)" by fastforce
    note con = con [unfolded Inr r]
    have "h' = h1" "ans = Admitted cid acts" using run CallConnect con by auto
    with CallConnect admitted_is_new [OF inv con] connect_roster [OF con] show ?thesis by simp
  qed
next
  case (CallTake conn b)
  with run take_outbound_roster [of pe conn b h] show ?thesis by (cases "take_outbound pe conn b h") auto
next
  case (CallReceive conn f)
  with run receive_roster [of pe conn f h] show ?thesis by (cases "receive pe conn f h") auto
next
  case (CallDeliver conn f)
  with run deliver_roster [of pe conn f h] show ?thesis by (cases "deliver pe conn f h") auto
next
  case (CallClose conn frm)
  with run close_conn_roster [of pe conn frm h] show ?thesis by (cases "close_conn pe conn frm h") auto
next
  case (CallCharge conn n now_ms)
  with run charge_roster [of pe conn n now_ms h] show ?thesis by (cases "charge pe conn n now_ms h") auto
qed

lemma presence_specI: "hub_inv W h \<Longrightarrow> relay_run pe call h = (h', ans) \<Longrightarrow> presence_spec (roster h) (roster h')"
  unfolding presence_spec_def using relay_run_presence by blast

lemma hub_step_presence:
  assumes step: "hub_step pe s t" and inv: "run_inv s"
  shows "presence_spec (roster (fst s)) (roster (fst t))"
proof (cases rule: hub_step.cases [OF step])
  case (1 aid now rvk h hello mono_ms h' cid acts W)
  with inv presence_specI [of W h pe "CallConnect aid hello now mono_ms rvk"] show ?thesis by (simp add: run_inv_def)
next
  case (2 aid hello now mono_ms rvk h h' e W)
  with inv presence_specI [of W h pe "CallConnect aid hello now mono_ms rvk"] show ?thesis by (simp add: run_inv_def)
next
  case (3 conn f h h' acts W)
  with inv presence_specI [of W h pe "CallReceive conn f"] show ?thesis by (simp add: run_inv_def)
next
  case (4 conn f h h' acts W)
  with inv presence_specI [of W h pe "CallDeliver conn f"] show ?thesis by (simp add: run_inv_def)
next
  case (5 conn frm h h' acts W)
  with inv presence_specI [of W h pe "CallClose conn frm"] show ?thesis by (simp add: run_inv_def)
next
  case (6 conn n now h h' wait acts W)
  with inv presence_specI [of W h pe "CallCharge conn n now"] show ?thesis by (simp add: run_inv_def)
next
  case (7 conn b h h' t W)
  with inv presence_specI [of W h pe "CallTake conn b"] show ?thesis by (simp add: run_inv_def)
next
  case (8 h aid a a' W)
  with inv have "hub_inv W h" by (simp add: run_inv_def)
  from reordered_roster [OF this 8(3,4)] 8 show ?thesis
    unfolding presence_spec_def by (intro exI [of _ "Left {}"]) simp
qed

text \<open>In the abstract machine a principal of an account is connected at most once.\<close>

definition connected_once :: "roster \<Rightarrow> bool" where
  "connected_once r \<longleftrightarrow> (\<forall>x y aid p c d. r x = Some (aid, p, c) \<longrightarrow> r y = Some (aid, p, d) \<longrightarrow> x = y)"

lemma presence_spec_once:
  assumes "presence_spec r r'" and "connected_once r"
  shows "connected_once r'"
proof -
  from assms(1) obtain e where e: "presence_guard e r" "r' = presence_step e r" by (auto simp: presence_spec_def)
  show ?thesis using e assms(2) unfolding connected_once_def
    by (cases e) (auto simp: restrict_map_def split: if_splits; metis)+
qed

text \<open>C8. The relay refines a roster of connections. In a reachable state, what a call does to who is connected is exactly the
  step of the abstract machine that the call and its answer name. An admission adds the newcomer under a fresh id, as its principal of its
  account, which was not connected to that account, with the chain it presents; a refused connect and a take change nobody; every call that reports
  connections closed removes those and no others, except that a close the server asks for also removes the connection it names,
  of which nothing is reported when it comes without a frame to send. A reachable state is one of a run in which greetings
  fit and an account may have a connection, as \<open>Relay_Run\<close> says.\<close>

theorem relay_refines_the_roster:
  assumes "reach hub_start (hub_step pe) (h, W)" and "relay_run pe call h = (h', ans)"
  shows "presence_guard (presence_of_call call ans) (roster h) \<and> roster h' = presence_step (presence_of_call call ans) (roster h)"
proof (rule relay_run_presence [OF _ assms(2)])
  show "hub_inv W h" using hub_runs.reach_inv [OF assms(1)] by (simp add: run_inv_def)
qed

theorem relay_refines_the_roster_witness:
  "roster (fst (close_conn (\<lambda>_. [1]) 1 (Some (Frame None)) first_joined)) = roster first_joined |` (- {1})"
proof -
  from first_closed obtain h where h: "close_conn (\<lambda>_. [1]) 1 (Some (Frame None)) first_joined = (h, [Close 1 (Frame None)])" ..
  then have "relay_run (\<lambda>_. [1]) (CallClose 1 (Some (Frame None))) first_joined = (h, Acts [Close 1 (Frame None)])" by simp
  from relay_refines_the_roster [OF first_reachable this] h show ?thesis by simp
qed

text \<open>A principal is connected to its account at most once, in every reachable state.\<close>

theorem principals_connect_once:
  assumes "reach hub_start (hub_step pe) s"
  shows "connected_once (roster (fst s))"
  using assms
proof (induction rule: reach.induct)
  case (reach_start s)
  then show ?case by (cases s) (auto simp: hub_start_def with_id_space_def connected_once_def roster_def split: if_splits)
next
  case (reach_step s t)
  then show ?case using presence_spec_once hub_step_presence hub_runs.reach_inv by blast
qed

theorem principals_connect_once_witness: "connected_once (roster first_joined)"
  using principals_connect_once [OF first_reachable] by simp

end
