(* ===== verification/Relay_Promises.thy ===== *)
theory Relay_Promises
  imports Relay_Presence
begin

text \<open>
  Further promises of the relay: ids that never collide between shards, epochs a double can carry,
  drains that end, refusals that leave nothing behind, and what a full account may evict.
\<close>

section \<open>Connection ids\<close>

definition shard_start :: "nat \<Rightarrow> run_state \<Rightarrow> bool" where
  "shard_start shard s \<longleftrightarrow> (\<exists>l seed. with_id_space l seed shard = Inr (fst s) \<and> 0 < max_connections_per_account l \<and> snd s = {})"

definition shard_inv :: "nat \<Rightarrow> run_state \<Rightarrow> bool" where
  "shard_inv shard s \<longleftrightarrow>
     run_inv s \<and> shard * 2 ^ 48 < hub_next_conn (fst s)
     \<and> (\<forall>cid \<in> dom (map_of (hub_conn_account (fst s))). shard * 2 ^ 48 < cid)"

lemma hub_touches_ids:
  "\<exists>aid. hub_touches aid h h' \<Longrightarrow>
   hub_next_conn h' = hub_next_conn h \<and> dom (map_of (hub_conn_account h')) \<subseteq> dom (map_of (hub_conn_account h))"
  by (auto simp: hub_touches_def map_le_implies_dom_le)

lemma hub_step_ids:
  assumes step: "hub_step pe s t" and inv: "run_inv s"
  shows "hub_next_conn (fst s) \<le> hub_next_conn (fst t)
    \<and> dom (map_of (hub_conn_account (fst t))) \<subseteq> insert (hub_next_conn (fst s)) (dom (map_of (hub_conn_account (fst s))))"
proof -
  have same: "hub_next_conn (fst s) \<le> hub_next_conn (fst t)
      \<and> dom (map_of (hub_conn_account (fst t))) \<subseteq> insert (hub_next_conn (fst s)) (dom (map_of (hub_conn_account (fst s))))"
    if "\<exists>aid. hub_touches aid (fst s) (fst t)"
    using hub_touches_ids [OF that] by auto
  show ?thesis
  proof (cases rule: hub_step.cases [OF step])
    case (1 aid now rvk h hello mono_ms h' cid acts W)
    with inv connect_isolated [OF _ _ 1(3,4), of W] show ?thesis by (simp add: run_inv_def) blast
  next
    case (2 aid hello now mono_ms rvk h h' e W)
    with connect_refused_limits [OF 2(3)] show ?thesis by (intro same) auto
  next
    case (3 conn f h h' acts W)
    with inv call_touches(1) [OF _ 3(3), of W] show ?thesis by (intro same) (simp add: run_inv_def)
  next
    case (4 conn f h h' acts W)
    with inv call_touches(2) [OF _ 4(3), of W] show ?thesis by (intro same) (simp add: run_inv_def)
  next
    case (5 conn frm h h' acts W)
    with inv call_touches(3) [OF _ 5(3), of W] show ?thesis by (intro same) (simp add: run_inv_def)
  next
    case (6 conn n now h h' wait acts W)
    with inv call_touches(4) [OF _ 6(3), of W] show ?thesis by (intro same) (simp add: run_inv_def)
  next
    case (7 conn b h h' t W)
    with inv call_touches(5) [OF _ 7(3), of W] show ?thesis by (intro same) (simp add: run_inv_def)
  next
    case (8 h aid a a' W)
    then show ?thesis by (intro same) (auto intro: hub_touches_put)
  qed
qed

interpretation shard_runs: invariant_machine "shard_start shard" "hub_step pe" "shard_inv shard"
proof
  fix s assume "shard_start shard s"
  then show "shard_inv shard s"
    by (cases s) (auto simp: shard_inv_def shard_start_def run_inv_def hub_inv_def hub_mid_def with_id_space_def split: if_splits)
next
  fix s t assume inv: "shard_inv shard s" and step: "hub_step pe s t"
  then have "run_inv s" by (simp add: shard_inv_def)
  from hub_step_ids [OF step this] hub_step_inv [OF step this] inv show "shard_inv shard t"
    unfolding shard_inv_def by (auto dest!: subsetD)
qed

text \<open>Connection ids never collide between shards: two relays of one process, started on different id spaces,
  share no connection id as long as neither has handed out more ids than its space holds.\<close>

theorem shards_share_no_connection_id:
  assumes "reach (shard_start i) (hub_step pe) (h, W)" and "reach (shard_start j) (hub_step pe) (g, V)"
    and "i \<noteq> j" and "hub_next_conn h \<le> (i + 1) * 2 ^ 48" and "hub_next_conn g \<le> (j + 1) * 2 ^ 48"
  shows "dom (map_of (hub_conn_account h)) \<inter> dom (map_of (hub_conn_account g)) = {}"
proof -
  have range: "k * 2 ^ 48 < cid \<and> cid < (k + 1) * 2 ^ 48"
    if "reach (shard_start k) (hub_step pe) (f, U)" "hub_next_conn f \<le> (k + 1) * 2 ^ 48"
      "cid \<in> dom (map_of (hub_conn_account f))" for k f U cid
  proof -
    have inv: "shard_inv k (f, U)" by (rule shard_runs.reach_inv [OF that(1)])
    then have "hub_mid U (f, effects_default)" by (simp add: shard_inv_def run_inv_def hub_inv_def)
    then have "cid < hub_next_conn f" using that(3) by (auto simp: hub_mid_def)
    moreover have "k * 2 ^ 48 < cid" using inv that(3) by (simp add: shard_inv_def)
    ultimately show ?thesis using that(2) by simp
  qed
  have "i = j" if "cid \<in> dom (map_of (hub_conn_account h))" "cid \<in> dom (map_of (hub_conn_account g))" for cid
  proof -
    have "cid div 2 ^ 48 = k" if "k * 2 ^ 48 < cid" "cid < (k + 1) * 2 ^ 48" for k
      using that by (simp add: div_nat_eqI)
    then show ?thesis using range [OF assms(1,4) that(1)] range [OF assms(2,5) that(2)] by blast
  qed
  with assms(3) show ?thesis by blast
qed

definition second_hub :: hub where
  "second_hub = \<lparr>hub_limits = tiny_limits, hub_accounts = [], hub_conn_account = [], hub_next_conn = 2 ^ 48 + 1,
     hub_epoch_state = 5, hub_clock = 0\<rparr>"

definition second_joined :: hub where
  "second_joined = fst (connect (\<lambda>_. [1]) [9] first_hello 0 0 RevokerUnknown second_hub)"

lemma second_connect:
  "connect (\<lambda>_. [1]) [9] first_hello 0 0 RevokerUnknown second_hub = (second_joined, Inr (2 ^ 48 + 1, [Wake (2 ^ 48 + 1)]))"
  by (simp add: second_joined_def second_hub_def first_defs)

lemma second_greeting_fits: "greeting_fits (\<lambda>_. [1]) [9] 0 RevokerUnknown second_hub"
  using first_greeting_fits by (simp add: greeting_fits_def second_hub_def first_hub_def)

lemma shard_reachable:
  "reach (shard_start 0) (hub_step (\<lambda>_. [1])) (first_joined, {1})"
  "reach (shard_start 1) (hub_step (\<lambda>_. [1])) (second_joined, {2 ^ 48 + 1})"
proof -
  have "shard_start 0 (first_hub, {})" "shard_start 1 (second_hub, {})"
    unfolding shard_start_def
    by (rule exI [of _ tiny_limits], rule exI [of _ 5], simp add: with_id_space_def first_hub_def second_hub_def tiny_limits_def)+
  then show "reach (shard_start 0) (hub_step (\<lambda>_. [1])) (first_joined, {1})"
    "reach (shard_start 1) (hub_step (\<lambda>_. [1])) (second_joined, {2 ^ 48 + 1})"
    using connected [OF first_greeting_fits first_connect, of "{}"] connected [OF second_greeting_fits second_connect, of "{}"]
    by (auto simp: after_actions_def intro: reach_step [OF reach_start])
qed

theorem shards_share_no_connection_id_witness:
  "dom (map_of (hub_conn_account first_joined)) \<inter> dom (map_of (hub_conn_account second_joined)) = {}"
  by (rule shards_share_no_connection_id [OF shard_reachable])
    (simp_all add: first_joined_def second_joined_def second_hub_def first_defs)

section \<open>Epochs\<close>

text \<open>C37. The search for an epoch ends: it returns the first candidate of its counter sequence that is not zero, a number
  between one and the largest integer a double holds exactly.\<close>

theorem epoch_search_ends:
  "\<exists>n. next_epoch s = (splitmix (s + of_nat (Suc n) * GOLDEN) AND MAX_EXACT_IN_A_DOUBLE, s + of_nat (Suc n) * GOLDEN)
     \<and> fst (next_epoch s) \<noteq> 0 \<and> fst (next_epoch s) \<le> 2 ^ 53 - 1
     \<and> (\<forall>m < n. splitmix (s + of_nat (Suc m) * GOLDEN) AND MAX_EXACT_IN_A_DOUBLE = 0)"
proof (induction s rule: next_epoch.induct)
  case (1 s)
  let ?z = "splitmix (s + GOLDEN) AND MAX_EXACT_IN_A_DOUBLE"
  show ?case
  proof (cases "?z = 0")
    case False
    moreover have "?z \<le> MAX_EXACT_IN_A_DOUBLE" by (rule word_and_le1)
    ultimately show ?thesis
      by (intro exI [of _ 0]) (simp add: next_epoch.simps [of s] Let_def MAX_EXACT_IN_A_DOUBLE_def push_bit_eq_mult)
  next
    case True
    then have eq: "next_epoch s = next_epoch (s + GOLDEN)" by (simp add: next_epoch.simps [of s] Let_def)
    have shift: "s + GOLDEN + of_nat (Suc m) * GOLDEN = s + of_nat (Suc (Suc m)) * GOLDEN" for m
      by (simp add: algebra_simps)
    have "\<not> ?z \<noteq> 0" using True by simp
    from 1 [OF refl refl this] obtain n where n:
      "next_epoch (s + GOLDEN) = (splitmix (s + of_nat (Suc (Suc n)) * GOLDEN) AND MAX_EXACT_IN_A_DOUBLE, s + of_nat (Suc (Suc n)) * GOLDEN)"
      "fst (next_epoch (s + GOLDEN)) \<noteq> 0" "fst (next_epoch (s + GOLDEN)) \<le> 2 ^ 53 - 1"
      "\<forall>m < n. splitmix (s + of_nat (Suc (Suc m)) * GOLDEN) AND MAX_EXACT_IN_A_DOUBLE = 0"
      using True unfolding shift by blast
    have "splitmix (s + of_nat (Suc m) * GOLDEN) AND MAX_EXACT_IN_A_DOUBLE = 0" if "m < Suc n" for m
      using that n(4) True by (cases m) simp_all
    with n show ?thesis unfolding eq by (intro exI [of _ "Suc n"]) blast
  qed
qed

theorem epoch_search_ends_witness: "fst (next_epoch 5) \<noteq> 0 \<and> fst (next_epoch 5) \<le> 2 ^ 53 - 1"
  using epoch_search_ends [of 5] by auto

section \<open>Drains\<close>

text \<open>A server takes until nothing more is queued: \<open>n\<close> takes at most.\<close>

fun drain_conn :: "(frame \<Rightarrow> bytes) \<Rightarrow> conn_id \<Rightarrow> nat \<Rightarrow> nat \<Rightarrow> hub \<Rightarrow> hub \<times> bytes list \<times> bool" where
  "drain_conn pe conn b 0 h = (h, [], True)"
| "drain_conn pe conn b (Suc n) h =
     (let (h1, t) = take_outbound pe conn b h
      in if tk_more t then let (h2, fs, m) = drain_conn pe conn b n h1 in (h2, tk_frames t @ fs, m)
         else (h1, tk_frames t, False))"

definition queued :: "conn_id \<Rightarrow> hub \<Rightarrow> nat" where
  "queued conn h =
     (case map_of (hub_conn_account h) conn of
        None \<Rightarrow> 0
      | Some aid \<Rightarrow> (case map_of (hub_accounts h) aid of
                      None \<Rightarrow> 0
                    | Some a \<Rightarrow> (case map_of (a_conns a) conn of None \<Rightarrow> 0 | Some c \<Rightarrow> length (o_items (c_out c)))))"

lemma outbound_take_length:
  "length (o_items (snd (outbound_take pe b q))) < length (o_items q) \<or> o_items q = [] \<and> o_items (snd (outbound_take pe b q)) = []"
proof (rule outbound_take_pops [of pe b q])
  fix n
  assume "outbound_take pe b q = (handed_over pe (fst (pops n q)), snd (pops n q))" "n \<le> length (o_items q)"
    "o_items q \<noteq> [] \<Longrightarrow> 0 < n"
  then show ?thesis using pops_items [of n q] by (cases "o_items q = []") auto
qed

lemma take_outbound_queued:
  assumes "take_outbound pe conn b h = (h', t)"
  shows "tk_more t \<longleftrightarrow> queued conn h' \<noteq> 0" and "queued conn h' < queued conn h \<or> queued conn h = 0 \<and> queued conn h' = 0"
  using assms outbound_take_length [of pe b]
  by (auto simp: take_outbound_def queued_def Let_def outbound_is_empty_def put_account_def put_conn_def update_conv'
      split: option.splits prod.splits) (metis snd_conv)+

text \<open>C32. A drain ends: taking with any budget, even none, empties a connection's queue after at most as many takes as
  frames were queued, and then reports that nothing more is left.\<close>

theorem drain_empties_the_queue:
  assumes "queued conn h \<le> n" and "0 < n"
  shows "\<exists>h' fs. drain_conn pe conn b n h = (h', fs, False) \<and> queued conn h' = 0"
  using assms
proof (induction n arbitrary: h)
  case (Suc n)
  obtain h1 t where t: "take_outbound pe conn b h = (h1, t)" by fastforce
  note T = take_outbound_queued [OF t]
  show ?case
  proof (cases "tk_more t")
    case False
    with T t show ?thesis by simp
  next
    case True
    with T Suc.prems have "queued conn h1 \<le> n" "0 < n" by auto
    from Suc.IH [OF this] True t show ?thesis by auto
  qed
qed simp

lemma push_default_length: "length (o_items (fst (push_frame pe l f outbound_default))) \<le> Suc 0"
  by (simp add: push_frame_def outbound_push_def outbound_default_def split: prod.split)

theorem drain_empties_the_queue_witness:
  "\<exists>h' fs. drain_conn (\<lambda>_. [1]) 1 0 7 first_joined = (h', fs, False) \<and> queued 1 h' = 0"
proof (rule drain_empties_the_queue)
  have "queued 1 first_joined \<le> Suc 0"
    by (simp add: queued_def first_joined_def first_defs push_default_length)
  then show "queued 1 first_joined \<le> 7" by simp
qed simp

section \<open>Refusals\<close>

text \<open>A refused hello leaves nothing behind: no connection, no account, no id is used up, and the accounts there
  are keep everything but, at most, a budget brought up to date.\<close>

theorem refused_hello_leaves_nothing:
  assumes "connect pe aid hello now mono_ms rvk h = (h', Inl e)"
  shows "hub_conn_account h' = hub_conn_account h \<and> hub_next_conn h' = hub_next_conn h
    \<and> hub_epoch_state h' = hub_epoch_state h \<and> hub_clock h' = hub_clock h \<and> keys (hub_accounts h') = keys (hub_accounts h)
    \<and> (\<forall>bid. map_of (hub_accounts h') bid = map_of (hub_accounts h) bid
         \<or> bid = aid \<and> (\<exists>a. map_of (hub_accounts h) aid = Some a
              \<and> map_of (hub_accounts h') aid = Some (a\<lparr>a_rate := bucket_refill mono_ms (account_bytes_per_second (hub_limits h))
                  (account_burst_bytes (hub_limits h)) (a_rate a)\<rparr>)))"
proof (cases "connect_refusal aid hello h")
  case (Some e)
  with assms show ?thesis by (simp add: connect_def)
next
  case None
  obtain h1 wait where d: "connect_debt aid mono_ms h = (h1, wait)" by fastforce
  with None assms have "h' = h1" by (auto simp: connect_def split: if_splits prod.splits)
  show ?thesis
  proof (cases "map_of (hub_accounts h) aid")
    case None
    with d \<open>h' = h1\<close> show ?thesis by (auto simp: connect_debt_def Let_def)
  next
    case (Some a)
    let ?a = "a\<lparr>a_rate := bucket_refill mono_ms (account_bytes_per_second (hub_limits h))
      (account_burst_bytes (hub_limits h)) (a_rate a)\<rparr>"
    have h': "h' = put_account aid ?a h" using Some d \<open>h' = h1\<close> by (simp add: connect_debt_def Let_def)
    have "aid \<in> set (keys (hub_accounts h))" using Some by (rule map_of_SomeD_keys)
    then have "keys (hub_accounts h') = keys (hub_accounts h)" by (simp add: h' put_account_def update_keys)
    with Some show ?thesis by (auto simp: h' put_account_def update_conv')
  qed
qed

theorem refused_hello_leaves_nothing_witness:
  "hub_conn_account (fst (connect (\<lambda>_. [1]) [9] first_hello 0 0 RevokerUnknown first_joined)) = [(1, [9])]"
proof -
  have "connect (\<lambda>_. [1]) [9] first_hello 0 0 RevokerUnknown first_joined
      = (first_joined, Inl (error Unauthenticated 0 ''principal already connected''))"
    by (simp add: first_joined_def first_defs)
  from refused_hello_leaves_nothing [OF this] show ?thesis
    by (simp only: \<open>connect (\<lambda>_. [1]) [9] first_hello 0 0 RevokerUnknown first_joined = _\<close> fst_conv)
      (simp add: first_joined_def first_defs)
qed

text \<open>A full account makes room only at the expense of streams nobody is subscribed to: ensuring a stream never touches
  a stream with a subscriber, and the one it evicts was published to least recently among those without.\<close>

theorem subscribed_streams_are_never_evicted:
  assumes "ensure_stream_in lim key a = (ok, a')" and "keys_distinct (a_streams a)" and "map_of (a_streams a) k = Some s"
  shows "map_of (a_streams a') k = Some s
    \<or> s_subscribers s = [] \<and> (\<forall>k' s'. map_of (a_streams a) k' = Some s' \<and> s_subscribers s' = [] \<longrightarrow> stream_touched s \<le> stream_touched s')"
proof -
  let ?free = "filter (\<lambda>(k, s). s_subscribers s = []) (a_streams a)"
  show ?thesis
  proof (cases "map_of (a_streams a) key \<noteq> None \<or> \<not> lim \<le> length (a_streams a)")
    case True
    with assms show ?thesis by (auto simp: ensure_stream_in_def Let_def update_conv' split: if_splits)
  next
    case full: False
    show ?thesis
    proof (cases "min_by_key (stream_touched \<circ> snd) ?free")
      case None
      with full assms show ?thesis by (auto simp: ensure_stream_in_def Let_def)
    next
      case (Some v)
      obtain victim vs where v: "v = (victim, vs)" by fastforce
      have vf: "(victim, vs) \<in> set (a_streams a)" "s_subscribers vs = []" using min_by_key_SomeD [OF Some] v by auto
      have least: "stream_touched vs \<le> stream_touched s'" if "map_of (a_streams a) k' = Some s'" "s_subscribers s' = []" for k' s'
        using min_by_key_least [OF Some, of "(k', s')"] that v by (auto dest: map_of_SomeD)
      have "map_of (a_streams a') k = (if k = key then Some \<lparr>s_key = key, s_ring = None, s_subscribers = []\<rparr>
          else if k = victim then None else map_of (a_streams a) k)"
        using assms(1) full Some v by (auto simp: ensure_stream_in_def Let_def update_conv' delete_conv')
      moreover have "map_of (a_streams a) victim = Some vs" using map_of_member [OF assms(2) vf(1)] by simp
      moreover have "k \<noteq> key" using full assms(3) by auto
      ultimately show ?thesis using vf(2) least assms(3) by auto
    qed
  qed
qed

definition crowded :: account where
  "crowded = account_new\<lparr>a_streams :=
     [(\<lparr>sk_publisher = [1], sk_channel = [1]\<rparr>, \<lparr>s_key = \<lparr>sk_publisher = [1], sk_channel = [1]\<rparr>, s_ring = None, s_subscribers = [4]\<rparr>),
      (\<lparr>sk_publisher = [1], sk_channel = [2]\<rparr>, \<lparr>s_key = \<lparr>sk_publisher = [1], sk_channel = [2]\<rparr>, s_ring = None, s_subscribers = []\<rparr>)]\<rparr>"

theorem subscribed_streams_are_never_evicted_witness:
  "map_of (a_streams (snd (ensure_stream_in 2 \<lparr>sk_publisher = [1], sk_channel = [3]\<rparr> crowded))) \<lparr>sk_publisher = [1], sk_channel = [1]\<rparr>
   = Some \<lparr>s_key = \<lparr>sk_publisher = [1], sk_channel = [1]\<rparr>, s_ring = None, s_subscribers = [4]\<rparr>"
proof -
  obtain ok a' where e: "ensure_stream_in 2 \<lparr>sk_publisher = [1], sk_channel = [3]\<rparr> crowded = (ok, a')" by fastforce
  from subscribed_streams_are_never_evicted [OF e, of "\<lparr>sk_publisher = [1], sk_channel = [1]\<rparr>"
      "\<lparr>s_key = \<lparr>sk_publisher = [1], sk_channel = [1]\<rparr>, s_ring = None, s_subscribers = [4]\<rparr>"] e
  show ?thesis by (simp add: crowded_def)
qed

section \<open>What a lone connection leaves\<close>

lemma finish_woken: "fx_close fx = [] \<Longrightarrow> finish pe (h, fx) = (h, map Wake (fx_wakes fx))"
  by (rule finish_nothing) simp

lemma connect_fresh_account:
  assumes "map_of (hub_accounts h) aid = None" and "connect pe aid hello now mono_ms rvk h = (h', Inr (cid, acts))"
  obtains a c where "hub_accounts h' = AList.update aid a (hub_accounts h)" and "a_conns a = [(cid, c)]" and "a_streams a = []"
    and "c_subs c = []" and "map_of (hub_conn_account h') cid = Some aid"
proof -
  have "connect_debt aid mono_ms h = (h, 0)" using assms(1) by (simp add: connect_debt_def Let_def)
  then have adm: "admit pe aid hello now mono_ms rvk h = (h', cid, acts)"
    using assms(2) by (auto simp: connect_def split: option.splits if_splits prod.splits)
  obtain c fx where arm: "conn_arm (hub_next_conn h)
      (greeted pe (hub_limits h) hello now rvk (account_new\<lparr>a_rate := bucket_spend CONNECT_COST_BYTES (bucket_refill mono_ms
        (account_bytes_per_second (hub_limits h)) (account_burst_bytes (hub_limits h)) (a_rate account_new))\<rparr>), effects_default)
      = (c, fx)" by fastforce
  then have "c_subs c = []" "fx_close fx = []"
    by (auto simp: conn_arm_def greeted_def effects_wake_def effects_default_def Let_def split: if_splits)
  with adm assms(1) arm that show thesis
    by (auto simp: admit_def account_new_def put_account_def update_conv' finish_woken Let_def)
qed

text \<open>An account with nothing retained is forgotten with its last connection, and with it what it owes: after a first
  connect and a close the relay has no record of the account, so however often it comes back the next connect starts
  again from an empty debt.\<close>

theorem reconnecting_clears_the_debt:
  assumes "map_of (hub_accounts h) aid = None" and "connect pe aid hello now mono_ms rvk h = (h1, Inr (cid, acts))"
    and "close_conn pe cid None h1 = (h2, acts2)"
  shows "map_of (hub_accounts h2) aid = None
    \<and> snd (connect_debt aid mono_ms' h2) = 0"
proof -
  from connect_fresh_account [OF assms(1,2)] obtain a c where h1: "hub_accounts h1 = AList.update aid a (hub_accounts h)"
    and a: "a_conns a = [(cid, c)]" "a_streams a = []" "c_subs c = []" and conn: "map_of (hub_conn_account h1) cid = Some aid" .
  have lone: "a_conns (snd (leave_account cid c a)) = []" "a_streams (snd (leave_account cid c a)) = []"
    using a by (simp_all add: leave_account_def go_offline_def split: option.split prod.split)
  have at: "map_of (hub_accounts h1) aid = Some a" "map_of (a_conns a) cid = Some c" using h1 a by (simp_all add: update_conv')
  have "map_of (hub_accounts (fst (forget pe cid (h1, effects_default)))) aid = None"
    using forget_eq [OF conn at, of pe effects_default] lone by (auto simp: without_conn_simps)
  moreover have "snd (forget pe cid (h1, effects_default)) = effects_default"
    using forget_eq [OF conn at, of pe effects_default] lone by auto
  ultimately have "map_of (hub_accounts h2) aid = None"
    using assms(3) finish_woken [of effects_default pe "fst (forget pe cid (h1, effects_default))"]
    by (simp add: close_conn_def effects_default_def) (metis fst_conv prod.collapse)
  then show ?thesis by (simp add: connect_debt_def Let_def)
qed

theorem reconnecting_clears_the_debt_witness:
  "map_of (hub_accounts (fst (close_conn (\<lambda>_. [1]) 1 None first_joined))) [9] = None
    \<and> snd (connect_debt [9] 0 (fst (close_conn (\<lambda>_. [1]) 1 None first_joined))) = 0"
proof -
  obtain h2 acts where "close_conn (\<lambda>_. [1]) 1 None first_joined = (h2, acts)" by fastforce
  with reconnecting_clears_the_debt [OF _ first_connect this, of 0] show ?thesis by (simp add: first_hub_def)
qed

end
