(* ===== verification/Slots.thy ===== *)
theory Slots
  imports Prelude
begin

text \<open>
  Pairing slots, \<open>crates/hub/src/pairing.rs\<close>: the hub's only unauthenticated write. A slot holds an
  offer and at most one answer under the hash of a code, for ten minutes. An \<open>Instant\<close> is its nanoseconds.
\<close>

section \<open>Slots\<close>

definition SLOT_LIFETIME :: nat where "SLOT_LIFETIME = 10 * 60 * 1000000000"
definition MAX_SLOTS :: nat where "MAX_SLOTS = 1024"
definition MAX_OFFER_BYTES :: nat where "MAX_OFFER_BYTES = 512"
definition MAX_ANSWER_BYTES :: nat where "MAX_ANSWER_BYTES = 4 * 1024"

datatype slot_error = Unknown | Taken | TooLarge | Full | Answered

record slot =
  sl_offer :: bytes
  sl_answer :: "bytes option"
  sl_expires :: nat

type_synonym slots = "(bytes \<times> slot) list"

definition slots_default :: slots where "slots_default = []"

definition slots_key :: "bytes \<Rightarrow> slot_error + bytes" where
  "slots_key code_hash = (if length code_hash = 32 then Inr code_hash else Inl TooLarge)"

definition forget_expired :: "nat \<Rightarrow> slots \<Rightarrow> slots" where
  "forget_expired now s = filter (\<lambda>(k, slot). sl_expires slot > now) s"

definition slots_offer :: "bytes \<Rightarrow> bytes \<Rightarrow> nat \<Rightarrow> slots \<Rightarrow> slots \<times> (slot_error + unit)" where
  "slots_offer code_hash offer now s =
     (case slots_key code_hash of
        Inl e \<Rightarrow> (s, Inl e)
      | Inr key \<Rightarrow>
          if length offer > MAX_OFFER_BYTES then (s, Inl TooLarge)
          else let s1 = forget_expired now s in
               if map_of s1 key \<noteq> None then (s1, Inl Taken)
               else if length s1 \<ge> MAX_SLOTS then (s1, Inl Full)
               else (AList.update key \<lparr>sl_offer = offer, sl_answer = None, sl_expires = now + SLOT_LIFETIME\<rparr> s1, Inr ()))"

definition slots_offered :: "bytes \<Rightarrow> nat \<Rightarrow> slots \<Rightarrow> slots \<times> (slot_error + bytes)" where
  "slots_offered code_hash now s =
     (case slots_key code_hash of
        Inl e \<Rightarrow> (s, Inl e)
      | Inr key \<Rightarrow>
          let s1 = forget_expired now s
          in (s1, case map_of s1 key of Some slot \<Rightarrow> Inr (sl_offer slot) | None \<Rightarrow> Inl Unknown))"

definition slots_answer :: "bytes \<Rightarrow> bytes \<Rightarrow> nat \<Rightarrow> slots \<Rightarrow> slots \<times> (slot_error + unit)" where
  "slots_answer code_hash answer now s =
     (case slots_key code_hash of
        Inl e \<Rightarrow> (s, Inl e)
      | Inr key \<Rightarrow>
          if length answer > MAX_ANSWER_BYTES then (s, Inl TooLarge)
          else let s1 = forget_expired now s in
               case map_of s1 key of
                 None \<Rightarrow> (s1, Inl Unknown)
               | Some slot \<Rightarrow>
                   if sl_answer slot \<noteq> None then (s1, Inl Answered)
                   else (AList.update key (slot\<lparr>sl_answer := Some answer\<rparr>) s1, Inr ()))"

definition slots_collect :: "bytes \<Rightarrow> nat \<Rightarrow> slots \<Rightarrow> slots \<times> (slot_error + bytes)" where
  "slots_collect code_hash now s =
     (case slots_key code_hash of
        Inl e \<Rightarrow> (s, Inl e)
      | Inr key \<Rightarrow>
          let s1 = forget_expired now s in
          case map_of s1 key of
            None \<Rightarrow> (s1, Inl Unknown)
          | Some slot \<Rightarrow> (case sl_answer slot of
                            None \<Rightarrow> (s1, Inl Unknown)
                          | Some a \<Rightarrow> (AList.delete key s1, Inr a)))"

definition slots_forget :: "bytes \<Rightarrow> slots \<Rightarrow> slots" where
  "slots_forget code_hash s = (case slots_key code_hash of Inr key \<Rightarrow> AList.delete key s | Inl _ \<Rightarrow> s)"

definition slots_held :: "slots \<Rightarrow> nat" where "slots_held s = length s"

section \<open>Calls\<close>

datatype slot_call = Offer bytes bytes nat | Offered bytes nat | Answer bytes bytes nat | Collect bytes nat | Forget bytes

datatype slot_reply = Done | Blob bytes | Refused slot_error

definition reply_unit :: "slot_error + unit \<Rightarrow> slot_reply" where
  "reply_unit r = (case r of Inl e \<Rightarrow> Refused e | Inr _ \<Rightarrow> Done)"

definition reply_blob :: "slot_error + bytes \<Rightarrow> slot_reply" where
  "reply_blob r = (case r of Inl e \<Rightarrow> Refused e | Inr b \<Rightarrow> Blob b)"

fun slot_step :: "slot_call \<Rightarrow> slots \<Rightarrow> slots \<times> slot_reply" where
  "slot_step (Offer c b t) s = apsnd reply_unit (slots_offer c b t s)"
| "slot_step (Offered c t) s = apsnd reply_blob (slots_offered c t s)"
| "slot_step (Answer c b t) s = apsnd reply_unit (slots_answer c b t s)"
| "slot_step (Collect c t) s = apsnd reply_blob (slots_collect c t s)"
| "slot_step (Forget c) s = (slots_forget c s, Done)"

fun slot_run :: "slot_call list \<Rightarrow> slots \<Rightarrow> slots \<times> (slot_call \<times> slot_reply) list" where
  "slot_run [] s = (s, [])"
| "slot_run (c # cs) s = (let (s1, r) = slot_step c s; (s2, rs) = slot_run cs s1 in (s2, (c, r) # rs))"

section \<open>Bounds\<close>

definition slot_ok :: "bytes \<times> slot \<Rightarrow> bool" where
  "slot_ok ks \<longleftrightarrow> length (fst ks) = 32 \<and> length (sl_offer (snd ks)) \<le> MAX_OFFER_BYTES
     \<and> (case sl_answer (snd ks) of None \<Rightarrow> True | Some a \<Rightarrow> length a \<le> MAX_ANSWER_BYTES)"

definition slots_ok :: "slots \<Rightarrow> bool" where
  "slots_ok s \<longleftrightarrow> keys_distinct s \<and> length s \<le> MAX_SLOTS \<and> (\<forall>x \<in> set s. slot_ok x)"

lemma forget_expired_ok: "slots_ok s \<Longrightarrow> slots_ok (forget_expired now s)"
  by (auto simp: slots_ok_def forget_expired_def distinct_map_filter intro: order_trans [OF length_filter_le])

lemma slots_ok_update:
  assumes "slots_ok s" and "slot_ok (k, v)" and "map_of s k = None \<Longrightarrow> length s < MAX_SLOTS"
  shows "slots_ok (AList.update k v s)"
  using assms set_alist_update [of k v s] by (auto simp: slots_ok_def length_update distinct_update)

lemma slots_ok_delete: "slots_ok s \<Longrightarrow> slots_ok (AList.delete k s)"
  by (auto simp: slots_ok_def AList.delete_eq distinct_map_filter intro: order_trans [OF length_filter_le])

lemma slots_ok_lookup: "slots_ok s \<Longrightarrow> map_of s k = Some v \<Longrightarrow> slot_ok (k, v)"
  by (auto simp: slots_ok_def dest: map_of_SomeD)

lemma slots_offer_ok: "slots_ok s \<Longrightarrow> slots_ok (fst (slots_offer c b t s))"
  by (auto simp: slots_offer_def slots_key_def Let_def forget_expired_ok slot_ok_def
      intro!: slots_ok_update forget_expired_ok split: sum.splits if_splits)

lemma slots_answer_ok:
  assumes "slots_ok s"
  shows "slots_ok (fst (slots_answer c b t s))"
proof -
  note ok = forget_expired_ok [OF assms, of t]
  have "slots_ok (AList.update c (v\<lparr>sl_answer := Some b\<rparr>) (forget_expired t s))"
    if "map_of (forget_expired t s) c = Some v" "length b \<le> MAX_ANSWER_BYTES" for v
    using slots_ok_lookup [OF ok that(1)] that by (intro slots_ok_update [OF ok]) (auto simp: slot_ok_def)
  with ok assms show ?thesis
    by (auto simp: slots_answer_def slots_key_def Let_def split: sum.splits option.splits if_splits)
qed

lemma slot_step_ok: "slots_ok s \<Longrightarrow> slots_ok (fst (slot_step c s))"
  by (cases c)
    (auto simp: slots_offer_ok slots_answer_ok slots_offered_def slots_collect_def slots_forget_def Let_def
      forget_expired_ok slots_ok_delete split: sum.split option.split)

text \<open>The hub holds only so much for strangers: after any calls it holds at most as many slots as its cap, each under a
  32-byte key, with an offer and an answer within their size limits.\<close>

theorem slots_stay_bounded: "slots_ok (fst (slot_run cs slots_default))"
proof -
  have "slots_ok (fst (slot_run cs s))" if "slots_ok s" for s
    using that
  proof (induction cs arbitrary: s)
    case (Cons c cs)
    from slot_step_ok [OF Cons.prems, of c] Cons.IH show ?case by (simp add: split_beta Let_def)
  qed simp
  moreover have "slots_ok slots_default" by (simp add: slots_ok_def slots_default_def)
  ultimately show ?thesis by blast
qed

section \<open>One answer, once\<close>

fun call_time :: "slot_call \<Rightarrow> nat option" where
  "call_time (Offer c b t) = Some t"
| "call_time (Offered c t) = Some t"
| "call_time (Answer c b t) = Some t"
| "call_time (Collect c t) = Some t"
| "call_time (Forget c) = None"

definition before :: "nat \<Rightarrow> slot_call \<Rightarrow> bool" where
  "before t c \<longleftrightarrow> (case call_time c of None \<Rightarrow> True | Some u \<Rightarrow> u < t)"

definition ends :: "bytes \<Rightarrow> slot_call \<Rightarrow> bool" where
  "ends code c \<longleftrightarrow> (case c of Collect d t \<Rightarrow> d = code | Forget d \<Rightarrow> d = code | _ \<Rightarrow> False)"

lemma forget_expired_lookup:
  assumes "keys_distinct s"
  shows "map_of (forget_expired t s) k = (case map_of s k of Some v \<Rightarrow> if sl_expires v > t then Some v else None | None \<Rightarrow> None)"
  using assms
proof (induction s)
  case (Cons x s)
  then show ?case by (cases x) (auto simp: forget_expired_def map_of_eq_None_iff split: option.splits)
qed (simp add: forget_expired_def)

lemma answered_slot_stays:
  assumes ok: "slots_ok s" and v: "map_of s code = Some v" "sl_answer v \<noteq> None"
    and c: "before (sl_expires v) c" "\<not> ends code c"
  shows "map_of (fst (slot_step c s)) code = Some v"
proof -
  have d: "keys_distinct s" using ok by (simp add: slots_ok_def)
  have live: "map_of (forget_expired t s) code = Some v" if "t < sl_expires v" for t
    using v that by (simp add: forget_expired_lookup [OF d])
  show ?thesis
  proof (cases c)
    case (Offer d b t)
    with live [of t] c v(1) show ?thesis
      by (auto simp: slots_offer_def before_def update_conv' Let_def slots_key_def split: if_splits)
  next
    case (Answer d b t)
    with live [of t] c v show ?thesis
      by (auto simp: slots_answer_def before_def update_conv' Let_def slots_key_def split: if_splits option.split)
  next
    case (Offered d t)
    with live [of t] c v show ?thesis
      by (auto simp: slots_offered_def before_def Let_def slots_key_def)
  next
    case (Collect d t)
    with live [of t] c v show ?thesis
      by (auto simp: slots_collect_def before_def ends_def delete_conv' Let_def slots_key_def split: option.split)
  next
    case (Forget d)
    with c v show ?thesis by (auto simp: slots_forget_def ends_def slots_key_def delete_conv')
  qed
qed

text \<open>The first answer is the answer. Once a slot has been answered, whatever else is called before it expires, short of
  collecting or dropping the slot, the next collection under its code gets that first answer, and the collection after that
  gets nothing.\<close>

theorem first_answer_is_collected_once:
  assumes "slots_ok s" and "slots_answer code answer t s = (s1, Inr ())"
    and "\<forall>c \<in> set cs. (\<forall>v. map_of s1 code = Some v \<longrightarrow> before (sl_expires v) c) \<and> \<not> ends code c"
    and "\<forall>v. map_of s1 code = Some v \<longrightarrow> u < sl_expires v"
  shows "snd (slots_collect code u (fst (slot_run cs s1))) = Inr answer
    \<and> snd (slots_collect code w (fst (slots_collect code u (fst (slot_run cs s1))))) = Inl Unknown"
proof -
  have s1: "slots_ok s1" using slots_answer_ok [OF assms(1), of code answer t] assms(2) by simp
  obtain v where v: "map_of s1 code = Some v" "sl_answer v = Some answer" and len: "length code = 32"
    using assms(2) by (auto simp: slots_answer_def slots_key_def update_conv' Let_def split: if_splits option.splits)
  have run: "slots_ok (fst (slot_run es r)) \<and> map_of (fst (slot_run es r)) code = Some v"
    if "slots_ok r" "map_of r code = Some v" "\<forall>c \<in> set es. before (sl_expires v) c \<and> \<not> ends code c" for es r
    using that
  proof (induction es arbitrary: r)
    case (Cons c es)
    then have "slots_ok (fst (slot_step c r))" "map_of (fst (slot_step c r)) code = Some v"
      using slot_step_ok answered_slot_stays [OF Cons.prems(1,2)] v(2) by simp_all
    from Cons.IH [OF this] Cons.prems(3) show ?case by (simp add: split_beta Let_def)
  qed simp
  have R: "slots_ok (fst (slot_run cs s1))" "map_of (fst (slot_run cs s1)) code = Some v" and u: "u < sl_expires v"
    using run [OF s1 v(1)] assms(3,4) v(1) by auto
  then have d: "keys_distinct (fst (slot_run cs s1))" by (simp add: slots_ok_def)
  have "slots_collect code u (fst (slot_run cs s1)) = (AList.delete code (forget_expired u (fst (slot_run cs s1))), Inr answer)"
    using R u v(2) len by (simp add: slots_collect_def slots_key_def forget_expired_lookup [OF d])
  moreover have "keys_distinct (AList.delete code (forget_expired u (fst (slot_run cs s1))))"
    using slots_ok_delete [OF forget_expired_ok [OF R(1)]] by (simp add: slots_ok_def)
  ultimately show ?thesis
    using len by (simp add: slots_collect_def slots_key_def forget_expired_lookup delete_conv' Let_def)
qed

theorem first_answer_is_collected_once_witness:
  "snd (slots_collect (replicate 32 7) 9
      (fst (slot_run [Answer (replicate 32 7) [2] 6, Offer (replicate 32 7) [3] 7, Collect (replicate 32 8) 8]
        (fst (slots_answer (replicate 32 7) [1] 5 (fst (slots_offer (replicate 32 7) [4] 0 slots_default))))))) = Inr [1]"
proof -
  let ?code = "replicate 32 7 :: bytes"
  let ?s = "[(?code, \<lparr>sl_offer = [4], sl_answer = None, sl_expires = SLOT_LIFETIME\<rparr>)] :: slots"
  let ?s1 = "[(?code, \<lparr>sl_offer = [4], sl_answer = Some [1], sl_expires = SLOT_LIFETIME\<rparr>)] :: slots"
  have o: "slots_offer ?code [4] 0 slots_default = (?s, Inr ())"
    by (simp add: slots_offer_def slots_key_def slots_default_def forget_expired_def MAX_SLOTS_def MAX_OFFER_BYTES_def Let_def)
  have a: "slots_answer ?code [1] 5 ?s = (?s1, Inr ())"
    by (simp add: slots_answer_def slots_key_def forget_expired_def MAX_ANSWER_BYTES_def SLOT_LIFETIME_def Let_def)
  have "slots_ok ?s" using slots_offer_ok [of slots_default ?code "[4]" 0] o by (simp add: slots_ok_def slots_default_def)
  from first_answer_is_collected_once [OF this a, of "[Answer ?code [2] 6, Offer ?code [3] 7, Collect (replicate 32 8) 8]" 9 9] o a
  show ?thesis by (simp add: before_def ends_def SLOT_LIFETIME_def)
qed

end
