(* ===== verification/Strangers.thy ===== *)
theory Strangers
  imports Budget
begin

text \<open>
  What strangers may cost, \<open>crates/hub/src/strangers.rs\<close>: one budget of hub time for the connections that
  never authenticate. An \<open>Instant\<close> is its nanoseconds since the process started, a \<open>Duration\<close> a number of
  microseconds.
\<close>

definition NO_HELLO_US :: nat where "NO_HELLO_US = 50"
definition REFUSED_HELLO_US :: nat where "REFUSED_HELLO_US = 190"

record budget =
  us_per_second :: nat
  burst_us :: nat

definition DEFAULT_BUDGET :: budget where
  "DEFAULT_BUDGET = \<lparr>us_per_second = 250000, burst_us = 250000\<rparr>"

record strangers =
  st_budget :: budget
  st_balance_us :: int
  st_at :: nat

definition clamp :: "nat \<Rightarrow> int" where
  "clamp us = (if us \<le> 2 ^ 63 - 1 then int us else I64_MAX)"

definition strangers_new :: "budget \<Rightarrow> nat \<Rightarrow> strangers" where
  "strangers_new b now = \<lparr>st_budget = b, st_balance_us = clamp (burst_us b), st_at = now\<rparr>"

text \<open>Microseconds earned since a time: \<open>as_micros\<close> truncates, and the product saturates at 128 bits.\<close>

definition earned_us :: "nat \<Rightarrow> nat \<Rightarrow> int" where
  "earned_us elapsed_ns rate =
     min (int (min (elapsed_ns div 1000 * rate) (2 ^ 128 - 1) div 1000000)) I64_MAX"

definition strangers_refill :: "nat \<Rightarrow> strangers \<Rightarrow> strangers" where
  "strangers_refill now s =
     (let earned = earned_us (now - st_at s) (us_per_second (st_budget s))
      in s\<lparr>st_at := now,
           st_balance_us := min (sat_i64 (st_balance_us s + earned)) (clamp (burst_us (st_budget s)))\<rparr>)"

definition strangers_spend :: "nat \<Rightarrow> strangers \<Rightarrow> strangers" where
  "strangers_spend cost_us s = s\<lparr>st_balance_us := sat_i64 (st_balance_us s - clamp cost_us)\<rparr>"

definition strangers_charge :: "nat \<Rightarrow> nat \<Rightarrow> strangers \<Rightarrow> strangers" where
  "strangers_charge cost_us now s = strangers_spend cost_us (strangers_refill now s)"

definition strangers_wait :: "nat \<Rightarrow> strangers \<Rightarrow> strangers \<times> nat option" where
  "strangers_wait now s =
     (let rate = us_per_second (st_budget s) in
      if rate = 0 then (s, None)
      else let s' = strangers_refill now s in
           if st_balance_us s' \<ge> 0 then (s', None)
           else let debt = nat (- st_balance_us s');
                    micros = div_ceil (min (debt * 1000000) U64_MAX) rate
                in (s', Some micros))"

section \<open>The budget of strangers is a work budget\<close>

definition strangers_ok :: "budget \<Rightarrow> strangers \<Rightarrow> bool" where
  "strangers_ok b s \<longleftrightarrow> st_budget s = b \<and> I64_MIN \<le> st_balance_us s \<and> st_balance_us s \<le> clamp (burst_us b)"

lemma i64_order: "I64_MIN < 0" "0 < I64_MAX"
  by (simp_all add: I64_MAX_def I64_MIN_def)

lemma clamp_range: "0 \<le> clamp n" "clamp n \<le> I64_MAX"
proof -
  have "int n \<le> I64_MAX" if "n \<le> 2 ^ 63 - 1"
  proof -
    have "int n \<le> int (2 ^ 63 - 1)" using that by (simp only: of_nat_le_iff)
    then show ?thesis by (simp add: I64_MAX_def)
  qed
  then show "0 \<le> clamp n" "clamp n \<le> I64_MAX" using i64_order by (auto simp: clamp_def)
qed

lemma earned_range: "0 \<le> earned_us e r" "earned_us e r \<le> I64_MAX"
  using i64_order by (auto simp: earned_us_def)

lemma earned_gain: "1000000000 * earned_us e r \<le> int r * int e"
proof -
  let ?m = "min (e div 1000 * r) (2 ^ 128 - 1)"
  have "?m div 1000000 * 1000000 \<le> e div 1000 * r"
    by (rule order_trans [OF div_times_less_eq_dividend]) simp
  moreover have "e div 1000 * r * 1000 \<le> e * r"
    by (metis div_times_less_eq_dividend mult.assoc mult.commute mult_le_mono1)
  ultimately have "?m div 1000000 * 1000000000 \<le> e * r" by linarith
  then have "int (?m div 1000000) * 1000000000 \<le> int r * int e"
    by (metis (no_types, lifting) mult.commute of_nat_le_iff of_nat_mult of_nat_numeral)
  then show ?thesis by (simp add: earned_us_def min_le_iff_disj)
qed

lemma refill_balance:
  assumes "strangers_ok b s"
  shows "st_balance_us (strangers_refill t s)
    = min (st_balance_us s + earned_us (t - st_at s) (us_per_second b)) (clamp (burst_us b))"
proof -
  let ?e = "earned_us (t - st_at s) (us_per_second b)"
  have "I64_MIN \<le> st_balance_us s + ?e" using assms earned_range [of "t - st_at s" "us_per_second b"] by (simp add: strangers_ok_def)
  then have "sat_i64 (st_balance_us s + ?e) = min I64_MAX (st_balance_us s + ?e)"
    using i64_order by (auto simp: sat_i64_def max_def min_def)
  with assms clamp_range(2) [of "burst_us b"] show ?thesis
    by (simp add: strangers_refill_def strangers_ok_def Let_def)
qed

lemma refill_ok: "strangers_ok b s \<Longrightarrow> strangers_ok b (strangers_refill t s)"
  using refill_balance [of b s t] earned_range [of "t - st_at s" "us_per_second b"] clamp_range(1) [of "burst_us b"] i64_order
  by (auto simp: strangers_ok_def strangers_refill_def Let_def)

lemma spend_ok: "strangers_ok b s \<Longrightarrow> strangers_ok b (strangers_spend c s)"
  using clamp_range(1) [of "burst_us b"] clamp_range(1) [of c] i64_order
  by (auto simp: strangers_ok_def strangers_spend_def sat_i64_def)

interpretation stranger_budget: work_budget
  "strangers_ok b" st_balance_us "\<lambda>s. Some (st_at s)" strangers_refill strangers_spend clamp
  I64_MIN "clamp (burst_us b)" 1000000000 "int (us_per_second b)" for b
proof
  fix s :: strangers and t r c :: nat
  show "strangers_ok b s \<Longrightarrow> st_balance_us s \<le> clamp (burst_us b)" by (simp add: strangers_ok_def)
  show "strangers_ok b s \<Longrightarrow> st_balance_us s \<le> st_balance_us (strangers_refill t s)"
    using refill_balance [of b s t] earned_range [of "t - st_at s" "us_per_second b"] by (simp add: strangers_ok_def)
  show "1000000000 * st_balance_us (strangers_refill t s) \<le> 1000000000 * st_balance_us s + int (us_per_second b) * int (t - r)"
    if "strangers_ok b s" "Some (st_at s) = Some r" "r \<le> t"
    using refill_balance [OF that(1), of t] earned_gain [of "t - r" "us_per_second b"] that(2) by (simp add: min_def)
  show "st_balance_us (strangers_spend c s) = st_balance_us s - clamp c"
    if "strangers_ok b s" "I64_MIN \<le> st_balance_us s - clamp c"
    using that clamp_range(1) [of c] clamp_range(2) [of "burst_us b"]
    by (simp add: strangers_spend_def sat_i64_def strangers_ok_def)
qed (auto simp: clamp_range refill_ok spend_ok, simp_all add: strangers_refill_def strangers_spend_def Let_def)

lemma strangers_new_ok: "strangers_ok b (strangers_new b now)"
  using clamp_range(1) [of "burst_us b"] i64_order by (simp add: strangers_ok_def strangers_new_def)

section \<open>What pacing guarantees\<close>

text \<open>Strangers cost at most their budget. Over any schedule of failures and refills, while the accept loop admits a
  stranger only with a balance that is not negative, all that failed connections were charged is at most the burst plus
  what the rate earned in the time that passed.\<close>

theorem strangers_stay_within_their_budget:
  assumes "orderly (Some start) es" and "total_spent clamp es \<le> 2 ^ 62"
    and "0 \<le> st_balance_us (run_budget strangers_refill strangers_spend es (strangers_new b start))"
  shows "1000000000 * total_spent clamp es \<le> 1000000000 * clamp (burst_us b) + int (us_per_second b) * int (elapsed (Some start) es)"
proof -
  have "I64_MIN \<le> st_balance_us (strangers_new b start) - total_spent clamp es"
    using assms(2) clamp_range(1) [of "burst_us b"] by (simp add: strangers_new_def I64_MIN_def)
  from stranger_budget.paced_within_rate [OF strangers_new_ok this] assms(1,3) show ?thesis
    by (simp add: strangers_new_def)
qed

theorem strangers_stay_within_their_budget_witness:
  "1000000000 * total_spent clamp [Spend REFUSED_HELLO_US, Earn 2000, Spend NO_HELLO_US]
   \<le> 1000000000 * clamp (burst_us DEFAULT_BUDGET)
     + int (us_per_second DEFAULT_BUDGET) * int (elapsed (Some 0) [Spend REFUSED_HELLO_US, Earn 2000, Spend NO_HELLO_US])"
  by (rule strangers_stay_within_their_budget)
    (simp_all add: strangers_new_def strangers_spend_def strangers_refill_def earned_us_def DEFAULT_BUDGET_def clamp_def
      sat_i64_def I64_MAX_def I64_MIN_def REFUSED_HELLO_US_def NO_HELLO_US_def Let_def)

text \<open>The accept loop waits exactly as long as it must, to the microsecond: after the wait the debt is repaid, and a
  microsecond less would have found it owing.\<close>

theorem accept_wait_is_exact:
  assumes ok: "strangers_ok b s" and w: "strangers_wait now s = (s', Some micros)"
    and debt: "nat (- st_balance_us s') * 1000000 \<le> U64_MAX" and rate: "us_per_second b \<le> 2 ^ 62"
  shows "0 \<le> st_balance_us (strangers_refill (now + micros * 1000) s')
    \<and> (\<forall>d < micros. st_balance_us (strangers_refill (now + d * 1000) s') < 0)"
proof -
  let ?r = "us_per_second b" and ?debt = "nat (- st_balance_us s')"
  have s': "s' = strangers_refill now s" and neg: "st_balance_us s' < 0" and pos: "0 < ?r"
    and micros: "micros = div_ceil (?debt * 1000000) ?r"
    using w ok debt by (auto simp: strangers_wait_def strangers_ok_def Let_def split: if_splits)
  have ok': "strangers_ok b s'" and at: "st_at s' = now" using ok s' refill_ok by (auto simp: strangers_refill_def Let_def)
  have enough: "micros \<le> d \<longleftrightarrow> ?debt * 1000000 \<le> d * ?r" for d unfolding micros by (rule div_ceil_le_iff [OF pos])
  have earned: "earned_us (d * 1000) ?r = int (d * ?r div 1000000)" if "d \<le> micros" for d
  proof -
    have "micros * ?r \<le> ?debt * 1000000 + ?r"
    proof (cases micros)
      case (Suc m)
      then have "\<not> micros \<le> m" by simp
      then have "m * ?r < ?debt * 1000000" using enough [of m] by simp
      with Suc show ?thesis by simp
    qed simp
    moreover have "d * ?r \<le> micros * ?r" using that by simp
    ultimately have le: "d * ?r \<le> U64_MAX + 2 ^ 62" using debt rate by linarith
    then have "d * ?r \<le> 2 ^ 128 - 1" by (simp add: U64_MAX_def)
    moreover have "int (d * ?r div 1000000) \<le> I64_MAX"
    proof -
      have "d * ?r div 1000000 \<le> (U64_MAX + 2 ^ 62) div 1000000" using le by (rule div_le_mono)
      also have "\<dots> \<le> 2 ^ 63 - 1" by (simp add: U64_MAX_def)
      finally have "int (d * ?r div 1000000) \<le> int (2 ^ 63 - 1)" by (simp only: of_nat_le_iff)
      then show ?thesis by (simp add: I64_MAX_def)
    qed
    ultimately show ?thesis by (simp add: earned_us_def)
  qed
  have repaid: "0 \<le> st_balance_us (strangers_refill (now + d * 1000) s') \<longleftrightarrow> micros \<le> d" if "d \<le> micros" for d
  proof -
    have "0 \<le> st_balance_us (strangers_refill (now + d * 1000) s') \<longleftrightarrow> 0 \<le> st_balance_us s' + int (d * ?r div 1000000)"
      using refill_balance [OF ok', of "now + d * 1000"] at earned [OF that] clamp_range(1) [of "burst_us b"] by auto
    also have "\<dots> \<longleftrightarrow> ?debt \<le> d * ?r div 1000000" using neg by (simp add: nat_le_iff) linarith
    also have "\<dots> \<longleftrightarrow> ?debt * 1000000 \<le> d * ?r" by (simp add: less_eq_div_iff_mult_less_eq)
    finally show ?thesis using enough by simp
  qed
  from repaid show ?thesis by (metis less_imp_le not_le order_refl)
qed

theorem accept_wait_is_exact_witness:
  "0 \<le> st_balance_us (strangers_refill 333334000 \<lparr>st_budget = \<lparr>us_per_second = 3, burst_us = 0\<rparr>, st_balance_us = - 1, st_at = 0\<rparr>)
   \<and> st_balance_us (strangers_refill 333333000 \<lparr>st_budget = \<lparr>us_per_second = 3, burst_us = 0\<rparr>, st_balance_us = - 1, st_at = 0\<rparr>) < 0"
proof -
  let ?s = "\<lparr>st_budget = \<lparr>us_per_second = 3, burst_us = 0\<rparr>, st_balance_us = - 1, st_at = 0\<rparr> :: strangers"
  have "strangers_ok \<lparr>us_per_second = 3, burst_us = 0\<rparr> ?s" by (simp add: strangers_ok_def I64_MIN_def clamp_def)
  moreover have "strangers_wait 0 ?s = (?s, Some 333334)"
    by (simp add: strangers_wait_def strangers_refill_def earned_us_def sat_i64_def I64_MIN_def I64_MAX_def clamp_def div_ceil_def
        U64_MAX_def)
  ultimately show ?thesis using accept_wait_is_exact [of "\<lparr>us_per_second = 3, burst_us = 0\<rparr>" ?s 0 ?s 333334]
    by (simp add: U64_MAX_def) (elim conjE allE [of _ 333333], simp)
qed

end
