(* ===== verification/Forwarded.thy ===== *)
theory Forwarded
  imports Text
begin

text \<open>
  Which address a connection came from, \<open>crates/hub/src/forwarded.rs\<close>: CIDR blocks the operator names
  as proxies, and the hop of an \<open>X-Forwarded-For\<close> header that is held responsible. The text form of an
  address is parsed as \<open>core::net\<close> of the standard library does; headers and lists are ASCII.
\<close>

section \<open>Addresses\<close>

datatype ip_addr = V4 bytes | V6 bytes

text \<open>\<open>Parser::read_number\<close>: digits of a radix, at most \<open>maxd\<close> of them, within the type's maximum.\<close>

definition read_number :: "nat \<Rightarrow> nat \<Rightarrow> nat \<Rightarrow> bool \<Rightarrow> string \<Rightarrow> (nat \<times> string) option" where
  "read_number radix maxd lim zero_prefix s =
     (case read_digits radix maxd lim 0 0 s of
        None \<Rightarrow> None
      | Some (n, acc, rest) \<Rightarrow>
          if n = 0 then None
          else if \<not> zero_prefix \<and> take 1 s = ''0'' \<and> n > 1 then None
          else Some (acc, rest))"

definition read_separated :: "char \<Rightarrow> nat \<Rightarrow> (string \<Rightarrow> ('a \<times> string) option) \<Rightarrow> string \<Rightarrow> ('a \<times> string) option" where
  "read_separated sep i inner s =
     (if i = 0 then inner s
      else case s of [] \<Rightarrow> None | c # cs \<Rightarrow> if c = sep then inner cs else None)"

fun read_octets :: "nat \<Rightarrow> nat \<Rightarrow> string \<Rightarrow> (bytes \<times> string) option" where
  "read_octets i 0 s = Some ([], s)"
| "read_octets i (Suc k) s =
     (case read_separated CHR ''.'' i (read_number 10 3 255 False) s of
        None \<Rightarrow> None
      | Some (n, s') \<Rightarrow> map_option (\<lambda>(bs, r). (of_nat n # bs, r)) (read_octets (i + 1) k s'))"

definition read_ipv4 :: "string \<Rightarrow> (bytes \<times> string) option" where
  "read_ipv4 s = read_octets 0 4 s"

text \<open>\<open>read_groups\<close>: up to \<open>limit\<close> groups as their octets, an embedded IPv4 address for the last two; \<open>left\<close> counts down.\<close>

fun read_groups :: "nat \<Rightarrow> nat \<Rightarrow> string \<Rightarrow> bytes \<times> nat \<times> bool \<times> string" where
  "read_groups i 0 s = ([], i, False, s)"
| "read_groups i (Suc left) s =
     (case (if left > 0 then read_separated CHR '':'' i read_ipv4 s else None) of
        Some (v4, s') \<Rightarrow> (v4, i + 2, True, s')
      | None \<Rightarrow>
          (case read_separated CHR '':'' i (read_number 16 4 65535 True) s of
             None \<Rightarrow> ([], i, False, s)
           | Some (g, s') \<Rightarrow>
               (let (bs, n, v4, r) = read_groups (i + 1) left s'
                in (of_nat (g div 256) # of_nat (g mod 256) # bs, n, v4, r))))"

definition read_ipv6 :: "string \<Rightarrow> (bytes \<times> string) option" where
  "read_ipv6 s =
     (let (head, n, v4, r) = read_groups 0 8 s in
      if n = 8 then Some (head, r)
      else if v4 then None
      else if take 2 r \<noteq> ''::'' then None
      else let (tail, m, _, r') = read_groups 0 (8 - (n + 1)) (drop 2 r)
           in Some (head @ replicate (2 * (8 - n - m)) 0 @ tail, r'))"

definition parse_ip :: "string \<Rightarrow> ip_addr option" where
  "parse_ip s =
     (case read_ipv4 s of
        Some (v4, r) \<Rightarrow> if r = [] then Some (V4 v4) else None
      | None \<Rightarrow> (case read_ipv6 s of
                  Some (v6, r) \<Rightarrow> if r = [] then Some (V6 v6) else None
                | None \<Rightarrow> None))"

definition to_ipv4_mapped :: "bytes \<Rightarrow> bytes option" where
  "to_ipv4_mapped v6 = (if take 12 v6 = replicate 10 0 @ [255, 255] then Some (drop 12 v6) else None)"

section \<open>Blocks\<close>

record block =
  blk_network :: ip_addr
  blk_bits :: nat

definition prefix_eq :: "bytes \<Rightarrow> bytes \<Rightarrow> nat \<Rightarrow> bool" where
  "prefix_eq a b bits =
     (let whole = bits div 8; rest = bits mod 8 in
      if take whole a \<noteq> take whole b then False
      else if rest = 0 then True
      else let mask = push_bit (8 - rest) (255 :: u8) in (a ! whole) AND mask = (b ! whole) AND mask)"

datatype proxies_error = NotAnAddress string | NotAPrefixLength string | PrefixTooLong string nat

definition block_parse :: "string \<Rightarrow> proxies_error + block" where
  "block_parse entry =
     (let (address, bits) = (case split_once CHR ''/'' entry of Some (a, b) \<Rightarrow> (a, Some b) | None \<Rightarrow> (entry, None)) in
      case parse_ip address of
        None \<Rightarrow> Inl (NotAnAddress entry)
      | Some network \<Rightarrow>
          let full = (case network of V4 _ \<Rightarrow> 32 | V6 _ \<Rightarrow> 128) in
          (case bits of
             None \<Rightarrow> Inr \<lparr>blk_network = network, blk_bits = full\<rparr>
           | Some b \<Rightarrow>
               (case parse_nat 255 b of
                  None \<Rightarrow> Inl (NotAPrefixLength entry)
                | Some n \<Rightarrow> if n > full then Inl (PrefixTooLong entry n)
                            else Inr \<lparr>blk_network = network, blk_bits = n\<rparr>)))"

definition block_contains :: "block \<Rightarrow> ip_addr \<Rightarrow> bool" where
  "block_contains blk address =
     (case (blk_network blk, address) of
        (V4 net, V4 a) \<Rightarrow> prefix_eq net a (blk_bits blk)
      | (V6 net, V6 a) \<Rightarrow> prefix_eq net a (blk_bits blk)
      | (V4 net, V6 a) \<Rightarrow> (case to_ipv4_mapped a of Some a4 \<Rightarrow> prefix_eq net a4 (blk_bits blk) | None \<Rightarrow> False)
      | (V6 net, V4 a) \<Rightarrow> (case to_ipv4_mapped net of Some n4 \<Rightarrow> prefix_eq n4 a (blk_bits blk - 96) | None \<Rightarrow> False))"

type_synonym proxies = "block list"

fun parse_blocks :: "string list \<Rightarrow> proxies_error + proxies" where
  "parse_blocks [] = Inr []"
| "parse_blocks (e # es) =
     (case block_parse e of
        Inl err \<Rightarrow> Inl err
      | Inr b \<Rightarrow> (case parse_blocks es of Inl err \<Rightarrow> Inl err | Inr bs \<Rightarrow> Inr (b # bs)))"

definition proxies_parse :: "string \<Rightarrow> proxies_error + proxies" where
  "proxies_parse lst = parse_blocks (filter (\<lambda>e. e \<noteq> []) (map trim (split_on CHR '','' lst)))"

definition proxies_contains :: "proxies \<Rightarrow> ip_addr \<Rightarrow> bool" where
  "proxies_contains ps address = list_ex (\<lambda>b. block_contains b address) ps"

section \<open>The client's address\<close>

definition MAX_FORWARDED_BYTES :: nat where "MAX_FORWARDED_BYTES = 512"
definition MAX_HOPS :: nat where "MAX_HOPS = 16"

definition parse_hop :: "string \<Rightarrow> ip_addr option" where
  "parse_hop hop =
     (case parse_ip hop of
        Some a \<Rightarrow> Some a
      | None \<Rightarrow>
          if take 1 hop = ''['' then
            (case split_once CHR '']'' (drop 1 hop) of None \<Rightarrow> None | Some (inside, _) \<Rightarrow> parse_ip inside)
          else (case rsplit_once CHR '':'' hop of None \<Rightarrow> None | Some (address, _) \<Rightarrow> parse_ip address))"

definition hops_of :: "string \<Rightarrow> ip_addr list" where
  "hops_of header = List.map_filter (\<lambda>hop. parse_hop (trim hop)) (take MAX_HOPS (split_on CHR '','' header))"

definition responsible :: "proxies \<Rightarrow> ip_addr \<Rightarrow> ip_addr list \<Rightarrow> ip_addr" where
  "responsible ps peer hops =
     (case find (\<lambda>a. \<not> proxies_contains ps a) (rev hops) of
        Some a \<Rightarrow> a
      | None \<Rightarrow> (case hops of h # _ \<Rightarrow> h | [] \<Rightarrow> peer))"

definition client_address :: "ip_addr \<Rightarrow> string option \<Rightarrow> proxies \<Rightarrow> ip_addr" where
  "client_address peer header ps =
     (if ps = [] \<or> \<not> proxies_contains ps peer then peer
      else case header of
             None \<Rightarrow> peer
           | Some h \<Rightarrow> if length h > MAX_FORWARDED_BYTES then peer else responsible ps peer (hops_of h))"

section \<open>Prefixes, bit by bit\<close>

text \<open>The bits of an address, most significant first.\<close>

definition byte_bits :: "u8 \<Rightarrow> bool list" where
  "byte_bits b = map (\<lambda>i. bit b (7 - i)) [0..<8]"

definition addr_bits :: "bytes \<Rightarrow> bool list" where
  "addr_bits bs = concat (map byte_bits bs)"

lemma length_byte_bits [simp]: "length (byte_bits b) = 8"
  by (simp add: byte_bits_def)

lemma addr_bits_simps [simp]: "addr_bits [] = []" "addr_bits (b # bs) = byte_bits b @ addr_bits bs"
  by (simp_all add: addr_bits_def)

lemma byte_bits_take_eq: "r \<le> 8 \<Longrightarrow> take r (byte_bits a) = take r (byte_bits b) \<longleftrightarrow> (\<forall>i < r. bit a (7 - i) = bit b (7 - i))"
  by (simp add: byte_bits_def list_eq_iff_nth_eq)

lemma masked_eq:
  assumes "0 < r" and "r < 8"
  shows "a AND push_bit (8 - r) (255 :: u8) = b AND push_bit (8 - r) 255 \<longleftrightarrow> take r (byte_bits a) = take r (byte_bits b)"
proof -
  have ones: "bit (push_bit (8 - r) (255 :: u8)) n \<longleftrightarrow> 8 - r \<le> n \<and> n < 8" for n
  proof -
    have "(255 :: u8) = mask 8" by (simp add: mask_eq_exp_minus_1)
    show ?thesis unfolding \<open>(255 :: u8) = mask 8\<close> by (auto simp: bit_push_bit_iff bit_mask_iff)
  qed
  have "a AND push_bit (8 - r) (255 :: u8) = b AND push_bit (8 - r) 255 \<longleftrightarrow> (\<forall>n. 8 - r \<le> n \<and> n < 8 \<longrightarrow> bit a n = bit b n)"
    by (auto simp: bit_eq_iff bit_and_iff ones)
  also have "\<dots> \<longleftrightarrow> (\<forall>i < r. bit a (7 - i) = bit b (7 - i))"
  proof
    assume *: "\<forall>i < r. bit a (7 - i) = bit b (7 - i)"
    show "\<forall>n. 8 - r \<le> n \<and> n < 8 \<longrightarrow> bit a n = bit b n"
    proof (intro allI impI)
      fix n assume "8 - r \<le> n \<and> n < 8"
      then have "7 - n < r" "7 - (7 - n) = n" using assms by auto
      with * show "bit a n = bit b n" by metis
    qed
  next
    assume *: "\<forall>n. 8 - r \<le> n \<and> n < 8 \<longrightarrow> bit a n = bit b n"
    show "\<forall>i < r. bit a (7 - i) = bit b (7 - i)"
    proof (intro allI impI)
      fix i assume "i < r"
      then have "8 - r \<le> 7 - i \<and> 7 - i < 8" using assms by auto
      with * show "bit a (7 - i) = bit b (7 - i)" by blast
    qed
  qed
  finally show ?thesis using assms by (simp add: byte_bits_take_eq)
qed

lemma byte_bits_inject: "byte_bits a = byte_bits b \<longleftrightarrow> a = b"
proof
  assume "byte_bits a = byte_bits b"
  then have *: "\<forall>i < 8. bit a (7 - i) = bit b (7 - i)" using byte_bits_take_eq [of 8 a b] by simp
  have "bit a n = bit b n" if "n < 8" for n
    using * [rule_format, of "7 - n"] that by (simp add: diff_diff_right)
  then show "a = b" by (intro bit_eqI) simp
qed simp

lemma addr_bits_take_Cons:
  "take (8 + n) (addr_bits (a # as)) = take (8 + n) (addr_bits (b # bs)) \<longleftrightarrow> a = b \<and> take n (addr_bits as) = take n (addr_bits bs)"
  by (simp add: byte_bits_inject)


lemma prefix_eq_Cons:
  "prefix_eq (a # as) (b # bs) (8 + n) \<longleftrightarrow> a = b \<and> prefix_eq as bs n"
  by (simp add: prefix_eq_def Let_def div_add1_eq)

lemma prefix_eq_short:
  assumes "n < 8"
  shows "prefix_eq (a # as) (b # bs) n \<longleftrightarrow> take n (byte_bits a) = take n (byte_bits b)"
  using assms masked_eq [of n a b] by (cases "n = 0") (simp_all add: prefix_eq_def Let_def)

text \<open>Comparing prefixes a byte at a time with a mask is comparing them bit by bit.\<close>

theorem prefixes_compare_bit_by_bit:
  assumes "length a = length b" and "bits \<le> 8 * length a"
  shows "prefix_eq a b bits \<longleftrightarrow> take bits (addr_bits a) = take bits (addr_bits b)"
  using assms
proof (induction a b arbitrary: bits rule: list_induct2)
  case Nil
  then show ?case by (simp add: prefix_eq_def)
next
  case (Cons x xs y ys)
  show ?case
  proof (cases "bits < 8")
    case True
    then show ?thesis by (simp add: prefix_eq_short)
  next
    case False
    then obtain n where n: "bits = 8 + n" using le_Suc_ex by (metis not_less)
    with Cons show ?thesis by (simp only: n prefix_eq_Cons addr_bits_take_Cons) simp
  qed
qed

theorem prefixes_compare_bit_by_bit_witness:
  "prefix_eq [192, 168, 16, 0] [192, 168, 31, 255] 20
   \<longleftrightarrow> take 20 (addr_bits [192, 168, 16, 0]) = take 20 (addr_bits [192, 168, 31, 255])"
  by (rule prefixes_compare_bit_by_bit) simp_all

section \<open>Who is held responsible\<close>

lemma map_filter_append: "List.map_filter f (xs @ ys) = List.map_filter f xs @ List.map_filter f ys"
  by (simp add: List.map_filter_def)

lemma find_append: "find P (us @ vs) = (case find P us of Some y \<Rightarrow> Some y | None \<Rightarrow> find P vs)"
  by (induction us) simp_all

text \<open>A header counts only from a named proxy: whoever connects from any other address is held responsible for that address,
  whatever it sends.\<close>

theorem strangers_cannot_forward:
  assumes "\<not> proxies_contains ps peer"
  shows "client_address peer header ps = peer"
  using assms by (simp add: client_address_def)

theorem strangers_cannot_forward_witness:
  "client_address (V4 [203, 0, 113, 9]) (Some ''198.51.100.7'') [\<lparr>blk_network = V4 [10, 0, 0, 0], blk_bits = 8\<rparr>] = V4 [203, 0, 113, 9]"
  by (rule strangers_cannot_forward) (simp add: proxies_contains_def block_contains_def prefix_eq_def)

text \<open>Behind a proxy, within the header the hub reads, a client cannot choose its address: the entry the first proxy appended
  decides, followed by nothing but proxies, whatever the client put before it.\<close>

theorem appended_hop_decides:
  assumes "proxies_contains ps peer" and "length header \<le> MAX_FORWARDED_BYTES"
    and "split_on CHR '','' header = claimed @ [real] @ chain" and "length (claimed @ [real] @ chain) \<le> MAX_HOPS"
    and "parse_hop (trim real) = Some client" and "\<not> proxies_contains ps client"
    and "\<forall>hop \<in> set chain. \<forall>a. parse_hop (trim hop) = Some a \<longrightarrow> proxies_contains ps a"
  shows "client_address peer (Some header) ps = client"
proof -
  let ?f = "\<lambda>hop. parse_hop (trim hop)"
  have "ps \<noteq> []" using assms(1) by (auto simp: proxies_contains_def)
  moreover have "hops_of header = List.map_filter ?f claimed @ (client # List.map_filter ?f chain)"
    using assms(3-5) by (simp add: hops_of_def map_filter_append)
  moreover have "find (\<lambda>a. \<not> proxies_contains ps a) (rev (List.map_filter ?f chain)) = None"
  proof -
    have "proxies_contains ps a" if "a \<in> set (List.map_filter ?f chain)" for a
      using that assms(7) by (auto simp: List.map_filter_def)
    then show ?thesis by (auto simp: find_None_iff)
  qed
  ultimately have "responsible ps peer (hops_of header) = client"
    using assms(6) by (simp add: responsible_def find_append)
  with assms(1,2) \<open>ps \<noteq> []\<close> show ?thesis by (simp add: client_address_def)
qed

text \<open>C40. Only the leftmost sixteen entries are read. A client that prepends sixteen of them hides what the proxy appended: the
  last of its own claims is taken for its address.\<close>

theorem sixteen_claims_choose_the_address:
  assumes "proxies_contains ps peer" and "length header \<le> MAX_FORWARDED_BYTES"
    and "split_on CHR '','' header = claimed @ [lie] @ appended" and "length (claimed @ [lie]) = MAX_HOPS"
    and "parse_hop (trim lie) = Some chosen" and "\<not> proxies_contains ps chosen"
  shows "client_address peer (Some header) ps = chosen"
proof -
  let ?f = "\<lambda>hop. parse_hop (trim hop)"
  have "ps \<noteq> []" using assms(1) by (auto simp: proxies_contains_def)
  moreover have "take MAX_HOPS (claimed @ [lie] @ appended) = claimed @ [lie]"
    using assms(4) by (metis append_assoc append_eq_conv_conj)
  then have "hops_of header = List.map_filter ?f claimed @ [chosen]"
    using assms(3,5) by (simp only: hops_of_def map_filter_append) (simp add: List.map_filter_def)
  then have "responsible ps peer (hops_of header) = chosen" using assms(6) by (simp add: responsible_def)
  with assms(1,2) \<open>ps \<noteq> []\<close> show ?thesis by (simp add: client_address_def)
qed


text \<open>Sixteen claims, then the address the proxy saw.\<close>

definition claims :: string where "claims = concat (replicate 16 ''1.1.1.1,'') @ ''9.9.9.9''"

lemma claims_split: "split_on CHR '','' claims = replicate 15 ''1.1.1.1'' @ [''1.1.1.1''] @ [''9.9.9.9'']"
  by (simp add: claims_def numeral_eq_Suc)

lemma length_claims: "length claims = 135"
  by (simp add: claims_def length_concat sum_list_replicate)

lemma parse_claim: "parse_hop (trim ''1.1.1.1'') = Some (V4 [1, 1, 1, 1])" "parse_hop (trim ''9.9.9.9'') = Some (V4 [9, 9, 9, 9])"
  by (simp_all add: parse_hop_def trim_def is_space_def parse_ip_def read_ipv4_def numeral_eq_Suc read_separated_def read_number_def
      to_digit_def Let_def)

theorem sixteen_claims_choose_the_address_witness:
  "client_address (V4 [10, 0, 0, 1]) (Some claims) [\<lparr>blk_network = V4 [10, 0, 0, 0], blk_bits = 8\<rparr>] = V4 [1, 1, 1, 1]"
  by (rule sixteen_claims_choose_the_address [OF _ _ claims_split])
    (simp_all add: parse_claim proxies_contains_def block_contains_def prefix_eq_def MAX_HOPS_def MAX_FORWARDED_BYTES_def
      length_claims)

theorem appended_hop_decides_witness:
  "client_address (V4 [10, 0, 0, 1]) (Some ''1.1.1.1,9.9.9.9'') [\<lparr>blk_network = V4 [10, 0, 0, 0], blk_bits = 8\<rparr>] = V4 [9, 9, 9, 9]"
proof (rule appended_hop_decides [of _ _ _ "[''1.1.1.1'']" "''9.9.9.9''" "[]"])
  show "split_on CHR '','' ''1.1.1.1,9.9.9.9'' = [''1.1.1.1''] @ [''9.9.9.9''] @ []" by simp
qed (simp_all add: parse_claim proxies_contains_def block_contains_def prefix_eq_def MAX_HOPS_def MAX_FORWARDED_BYTES_def)

end
