(* ===== verification/Arrivals.thy ===== *)
theory Arrivals
  imports Prelude Budget Forwarded
begin

text \<open>
  How often one address may open a connection, \<open>crates/hub/src/arrivals.rs\<close>. An \<open>Instant\<close> is its nanoseconds.
  The source accrues in double precision, \<open>(elapsed * per_ms * 1000.0) as i64\<close>; that product is the parameter
  \<open>accrue\<close> of the definitions, a function of the rate per minute and the elapsed milliseconds.
\<close>

definition MAX_TRACKED :: nat where "MAX_TRACKED = 8192"

record arrivals =
  per_minute :: nat
  burst :: nat

definition arrivals_default :: arrivals where
  "arrivals_default = \<lparr>per_minute = 0, burst = 0\<rparr>"

record allowance =
  al_milli :: int
  al_at :: nat

record gate =
  g_limits :: arrivals
  g_seen :: "(ip_addr \<times> allowance) list"

type_synonym accrual = "nat \<Rightarrow> nat \<Rightarrow> int"

definition gate_new :: "arrivals \<Rightarrow> gate" where
  "gate_new l = \<lparr>g_limits = l, g_seen = []\<rparr>"

definition gate_burst :: "arrivals \<Rightarrow> int" where
  "gate_burst l = int (max (burst l) 1) * 1000"

definition elapsed_ms :: "nat \<Rightarrow> nat \<Rightarrow> nat" where
  "elapsed_ms now at = min ((now - at) div 1000000) (2 ^ 32 - 1)"

text \<open>The addition is a plain 64-bit one; with \<open>burst\<close> a 32-bit number the model keeps it unbounded.\<close>

definition accrued :: "accrual \<Rightarrow> arrivals \<Rightarrow> nat \<Rightarrow> allowance \<Rightarrow> int" where
  "accrued accrue l now a = al_milli a + accrue (per_minute l) (elapsed_ms now (al_at a))"

definition forget_idle :: "accrual \<Rightarrow> nat \<Rightarrow> gate \<Rightarrow> gate" where
  "forget_idle accrue now g =
     (if length (g_seen g) \<le> MAX_TRACKED then g
      else let seen = filter (\<lambda>(ip, a). accrued accrue (g_limits g) now a < gate_burst (g_limits g)) (g_seen g) in
           if length seen > MAX_TRACKED
           then let times = sort (map (al_at \<circ> snd) seen); cutoff = times ! (length times div 2)
                in g\<lparr>g_seen := filter (\<lambda>(ip, a). al_at a > cutoff) seen\<rparr>
           else g\<lparr>g_seen := seen\<rparr>)"

definition gate_admit :: "accrual \<Rightarrow> ip_addr \<Rightarrow> nat \<Rightarrow> gate \<Rightarrow> gate \<times> bool" where
  "gate_admit accrue address now g =
     (let l = g_limits g in
      if per_minute l = 0 then (g, True)
      else let entry = (case map_of (g_seen g) address of Some a \<Rightarrow> a | None \<Rightarrow> \<lparr>al_milli = gate_burst l, al_at = now\<rparr>);
               milli = min (accrued accrue l now entry) (gate_burst l)
           in if milli < 1000
              then (g\<lparr>g_seen := AList.update address \<lparr>al_milli = milli, al_at = now\<rparr> (g_seen g)\<rparr>, False)
              else (forget_idle accrue now
                      (g\<lparr>g_seen := AList.update address \<lparr>al_milli = milli - 1000, al_at = now\<rparr> (g_seen g)\<rparr>), True))"

definition gate_tracked :: "gate \<Rightarrow> nat" where
  "gate_tracked g = length (g_seen g)"

section \<open>The map stays bounded\<close>

lemma filter_gt_nth_sorted:
  fixes xs :: "nat list"
  assumes "sorted xs" and "i < length xs"
  shows "length (filter (\<lambda>x. x > xs ! i) xs) < length xs - i"
proof -
  have split: "xs = take (Suc i) xs @ drop (Suc i) xs" by simp
  have "filter (\<lambda>x. x > xs ! i) (take (Suc i) xs) = []"
  proof (rule filter_False, rule ballI)
    fix x assume "x \<in> set (take (Suc i) xs)"
    then obtain j where "j \<le> i" "x = xs ! j" using assms(2) by (auto simp: in_set_conv_nth less_Suc_eq_le)
    then have "x \<le> xs ! i" using assms by (simp add: sorted_nth_mono)
    then show "\<not> xs ! i < x" by simp
  qed
  then have "filter (\<lambda>x. x > xs ! i) xs = filter (\<lambda>x. x > xs ! i) (drop (Suc i) xs)"
    by (subst split) (simp only: filter_append append_Nil)
  then have "length (filter (\<lambda>x. x > xs ! i) xs) \<le> length (drop (Suc i) xs)"
    using length_filter_le by metis
  with assms(2) show ?thesis by simp
qed

lemma length_filter_sort: "length (filter P (sort xs)) = length (filter P xs)"
  by (simp add: filter_sort)

lemma forget_idle_bounded:
  assumes "length (g_seen g) \<le> MAX_TRACKED + 1"
  shows "length (g_seen (forget_idle accrue now g)) \<le> MAX_TRACKED"
proof -
  let ?seen = "filter (\<lambda>(ip, a). accrued accrue (g_limits g) now a < gate_burst (g_limits g)) (g_seen g)"
  let ?times = "sort (map (al_at \<circ> snd) ?seen)"
  let ?cut = "?times ! (length ?times div 2)"
  have "length (filter (\<lambda>(ip, a). al_at a > ?cut) ?seen) \<le> MAX_TRACKED" if big: "length ?seen > MAX_TRACKED"
  proof -
    have "length (filter (\<lambda>(ip, a). al_at a > ?cut) ?seen) = length (filter (\<lambda>t. t > ?cut) (map (al_at \<circ> snd) ?seen))"
      by (simp add: filter_map comp_def case_prod_beta)
    also have "\<dots> = length (filter (\<lambda>t. t > ?cut) ?times)"
      by (rule length_filter_sort [symmetric])
    also have "\<dots> < length ?times - length ?times div 2"
    proof (rule filter_gt_nth_sorted)
      have "length ?times = length ?seen" by simp
      then have "length ?times > 0" using big by linarith
      then show "length ?times div 2 < length ?times" by simp
    qed simp
    also have "\<dots> \<le> MAX_TRACKED"
    proof -
      have "n - n div 2 \<le> 8192" if "n \<le> 8193" for n :: nat using that by arith
      moreover have "length ?times \<le> 8193"
        using order_trans [OF length_filter_le assms] by (simp add: MAX_TRACKED_def)
      ultimately show ?thesis by (simp add: MAX_TRACKED_def)
    qed
    finally show ?thesis by simp
  qed
  then show ?thesis by (simp add: forget_idle_def Let_def)
qed

fun gate_run :: "accrual \<Rightarrow> (ip_addr \<times> nat) list \<Rightarrow> gate \<Rightarrow> gate" where
  "gate_run accrue [] g = g"
| "gate_run accrue ((ip, now) # es) g = gate_run accrue es (fst (gate_admit accrue ip now g))"

text \<open>However many addresses arrive, the gate tracks at most its cap: an arrival that would pass it drops the
  addresses that are back to full, and past that all but the more recently seen.\<close>

theorem gate_tracks_a_bounded_map:
  assumes "\<forall>r. 0 \<le> accrue r 0"
  shows "gate_tracked (gate_run accrue es (gate_new l)) \<le> MAX_TRACKED"
proof -
  have step: "length (g_seen (fst (gate_admit accrue ip now g))) \<le> MAX_TRACKED" if "length (g_seen g) \<le> MAX_TRACKED" for ip now g
  proof (cases "map_of (g_seen g) ip")
    case None
    have "1000 \<le> gate_burst (g_limits g)" by (simp add: gate_burst_def)
    then have "\<not> min (accrued accrue (g_limits g) now \<lparr>al_milli = gate_burst (g_limits g), al_at = now\<rparr>) (gate_burst (g_limits g)) < 1000"
      using assms [rule_format, of "per_minute (g_limits g)"] by (simp add: accrued_def elapsed_ms_def)
    then show ?thesis
      using that None by (simp add: gate_admit_def Let_def forget_idle_bounded length_update)
  next
    case (Some a)
    then show ?thesis
      using that by (simp add: gate_admit_def Let_def forget_idle_bounded length_update)
  qed
  have "length (g_seen (gate_run accrue es g)) \<le> MAX_TRACKED" if "length (g_seen g) \<le> MAX_TRACKED" for g
    using that by (induction es arbitrary: g) (auto simp: step)
  then show ?thesis by (simp add: gate_tracked_def gate_new_def)
qed

theorem gate_tracks_a_bounded_map_witness:
  "gate_tracked (gate_run (\<lambda>r e. int (r * e div 60)) [(V4 [10, 0, 0, 1], 0), (V4 [10, 0, 0, 2], 5)]
     (gate_new \<lparr>per_minute = 60, burst = 3\<rparr>)) \<le> MAX_TRACKED"
  by (rule gate_tracks_a_bounded_map) simp

section \<open>Pacing\<close>

text \<open>What one address may still open: its allowance, or a full burst when it is not tracked.\<close>

definition credit :: "accrual \<Rightarrow> ip_addr \<Rightarrow> nat \<Rightarrow> gate \<Rightarrow> int" where
  "credit accrue ip now g =
     (case map_of (g_seen g) ip of
        None \<Rightarrow> gate_burst (g_limits g)
      | Some a \<Rightarrow> min (accrued accrue (g_limits g) now a) (gate_burst (g_limits g)))"

text \<open>An arrival is admitted exactly when its address has a whole connection left, and then costs it one; it changes no other
  address's allowance while the gate has room for one more.\<close>

theorem arrivals_are_paced_per_address:
  assumes "per_minute (g_limits g) \<noteq> 0" and "\<forall>r. accrue r 0 = 0" and "gate_tracked g < MAX_TRACKED"
    and "gate_admit accrue ip now g = (g', ok)"
  shows "(ok \<longleftrightarrow> 1000 \<le> credit accrue ip now g)
    \<and> credit accrue ip now g' = credit accrue ip now g - (if ok then 1000 else 0)
    \<and> (\<forall>other. other \<noteq> ip \<longrightarrow> map_of (g_seen g') other = map_of (g_seen g) other)"
proof -
  have room: "forget_idle accrue now (g\<lparr>g_seen := AList.update ip x (g_seen g)\<rparr>) = g\<lparr>g_seen := AList.update ip x (g_seen g)\<rparr>" for x
    using assms(3) by (simp add: forget_idle_def gate_tracked_def length_update)
  show ?thesis
    using assms(1,2,4)
    by (cases "map_of (g_seen g) ip")
      (auto simp: gate_admit_def credit_def room accrued_def elapsed_ms_def update_conv' Let_def min_def split: if_splits)
qed

theorem arrivals_are_paced_per_address_witness:
  "snd (gate_admit (\<lambda>r e. int (r * e div 60)) (V4 [10, 0, 0, 1]) 0 (gate_new \<lparr>per_minute = 60, burst = 3\<rparr>)) = True
   \<and> credit (\<lambda>r e. int (r * e div 60)) (V4 [10, 0, 0, 1]) 0
       (fst (gate_admit (\<lambda>r e. int (r * e div 60)) (V4 [10, 0, 0, 1]) 0 (gate_new \<lparr>per_minute = 60, burst = 3\<rparr>))) = 2000"
proof -
  let ?acc = "\<lambda>r e. int (r * e div 60)" and ?g = "gate_new \<lparr>per_minute = 60, burst = 3\<rparr>" and ?ip = "V4 [10, 0, 0, 1]"
  obtain g' ok where "gate_admit ?acc ?ip 0 ?g = (g', ok)" by fastforce
  with arrivals_are_paced_per_address [OF _ _ _ this] show ?thesis
    by (simp add: gate_new_def gate_tracked_def MAX_TRACKED_def credit_def gate_burst_def)
qed

text \<open>The default limits admit every arrival and track nothing, however many addresses arrive.\<close>

theorem default_gate_never_tracks: "gate_run accrue es (gate_new arrivals_default) = gate_new arrivals_default"
proof (induction es)
  case (Cons e es)
  then show ?case by (cases e) (simp add: gate_admit_def gate_new_def arrivals_default_def)
qed simp

end
