(* ===== verification/Server.thy ===== *)
theory Server
  imports Relay_Presence Relay_Promises Slots Strangers Arrivals
begin

text \<open>
  The hub's server around the relay, \<open>crates/hub/src/lib.rs\<close>, but for the checking of a hello, which is \<open>Admission\<close>: the shards and the
  account limit across them, what is done with the actions a relay asks for, the bill of connections that never authenticate,
  the first message of a socket, the frames of a message charged and handed over in chunks, the writer, and pairing sockets.
  Tasks are the steps of a machine that may interleave in any order; a lock makes what is done under it one step. What a task does after it has
  released a lock is a step of its own: the wake-ups that a call asks for are owed from the moment the lock is released until they are given.
  A wake-up handle remembers one notification, as \<open>tokio::sync::Notify\<close> does, and one that a writer did not get to see because its ping
  timer went first stays. The writer of a connection is a state of its handle, with every way its loop ends. Whether a write
  to the socket succeeds is an argument, as are the clock readings and which shard an account is hashed to.
\<close>

section \<open>Configuration and state\<close>

definition RECEIVE_CHUNK :: nat where "RECEIVE_CHUNK = 16"

record config =
  cg_limits :: limits
  cg_hello_timeout_ms :: nat
  cg_ping_interval_ms :: nat
  cg_idle_timeout_ms :: nat
  cg_write_budget :: nat
  cg_max_sockets :: nat
  cg_max_pending_sockets :: nat
  cg_max_hello_bytes :: nat
  cg_arrivals :: arrivals
  cg_trusted_proxies :: proxies
  cg_max_pairing_sockets :: nat
  cg_shards :: nat
  cg_strangers :: budget

definition config_default :: config where
  "config_default =
     \<lparr>cg_limits = limits_default, cg_hello_timeout_ms = 10000, cg_ping_interval_ms = 20000, cg_idle_timeout_ms = 60000,
      cg_write_budget = 256 * 2 ^ 10, cg_max_sockets = 10000, cg_max_pending_sockets = 256, cg_max_hello_bytes = 64 * 2 ^ 10,
      cg_arrivals = arrivals_default, cg_trusted_proxies = [], cg_max_pairing_sockets = 64, cg_shards = 0, cg_strangers = DEFAULT_BUDGET\<rparr>"

text \<open>
  Where a connection's writer is: waiting for its notification or its ping timer, taking frames (having fed some to the socket or none yet),
  flushing what it fed, about to look for a closing frame, ended by a socket that failed, or finished, having sent the closing
  frame or been aborted by the reader.
\<close>

datatype writer = Waiting | Draining bool | Flushing | Settling | Failed | Finished

record handle =
  hn_notified :: bool
  hn_closing :: "frame option"
  hn_writer :: writer

definition handle_default :: handle where
  "handle_default = \<lparr>hn_notified = False, hn_closing = None, hn_writer = Waiting\<rparr>"

type_synonym handles = "(conn_id \<times> handle) list"

record shard_state =
  ss_hub :: hub
  ss_handles :: handles
  ss_accounts :: nat

record shared =
  sh_shards :: "shard_state list"
  sh_accounts :: nat
  sh_max_accounts :: nat

definition error_frame :: "error_code \<Rightarrow> string \<Rightarrow> frame" where
  "error_frame code message = Frame (Some (BError \<lparr>er_code = i32_of_code code, er_ref = 0, er_message = message\<rparr>))"

section \<open>Shards\<close>

text \<open>What \<open>serve\<close> starts with: \<open>cores\<close> is what the operating system says of its parallelism.\<close>

definition shard_count :: "nat option \<Rightarrow> config \<Rightarrow> nat" where
  "shard_count cores cfg =
     (let n = (if cg_shards cfg = 0 then (case cores of None \<Rightarrow> 4 | Some n \<Rightarrow> n * 4) else cg_shards cfg) in min (max n 1) 1024)"

definition shard_new :: "limits \<Rightarrow> u64 \<Rightarrow> nat \<Rightarrow> string + shard_state" where
  "shard_new l epoch_seed i =
     (case with_id_space l (epoch_seed + of_nat i) i of
        Inl (ConfigError e) \<Rightarrow> Inl e
      | Inr h \<Rightarrow> Inr \<lparr>ss_hub = h, ss_handles = [], ss_accounts = 0\<rparr>)"

definition shared_new :: "config \<Rightarrow> nat option \<Rightarrow> u64 \<Rightarrow> string + shared" where
  "shared_new cfg cores epoch_seed =
     (let shard_limits = (cg_limits cfg)\<lparr>max_accounts := 2 ^ 64 - 1\<rparr> in
      and_then (collect_ok (shard_new shard_limits epoch_seed) [0..<shard_count cores cfg]) (\<lambda>shards.
      Inr \<lparr>sh_shards = shards, sh_accounts = 0, sh_max_accounts = max_accounts (cg_limits cfg)\<rparr>))"

definition shard_of :: "(account_id \<Rightarrow> nat) \<Rightarrow> shared \<Rightarrow> account_id \<Rightarrow> nat" where
  "shard_of hash sh account = hash account mod length (sh_shards sh)"

text \<open>The actions of a relay, in order: handles to wake, and the frame a closed connection is to send.\<close>

fun act :: "action \<Rightarrow> handles \<times> conn_id list \<Rightarrow> handles \<times> conn_id list" where
  "act (Wake conn) (hs, wake) = (hs, if map_of hs conn = None then wake else wake @ [conn])"
| "act (Close conn f) (hs, wake) =
     (case map_of hs conn of
        None \<Rightarrow> (hs, wake)
      | Some h \<Rightarrow> (AList.update conn (h\<lparr>hn_closing := Some f\<rparr>) hs, wake @ [conn]))"

definition notify_one :: "conn_id \<Rightarrow> handles \<Rightarrow> handles" where
  "notify_one conn hs = (case map_of hs conn of None \<Rightarrow> hs | Some h \<Rightarrow> AList.update conn (h\<lparr>hn_notified := True\<rparr>) hs)"

definition notify_conn :: "nat \<Rightarrow> shared \<Rightarrow> conn_id \<Rightarrow> shared" where
  "notify_conn i sh conn =
     (let st = sh_shards sh ! i in sh\<lparr>sh_shards := (sh_shards sh)[i := st\<lparr>ss_handles := notify_one conn (ss_handles st)\<rparr>]\<rparr>)"

text \<open>\<open>fetch_add\<close> and \<open>fetch_sub\<close> wrap at the width of a \<open>usize\<close>.\<close>

definition reconcile_accounts :: "shard_state \<Rightarrow> nat \<Rightarrow> nat \<Rightarrow> shard_state \<times> nat" where
  "reconcile_accounts st reserved accounts =
     (let now = account_count (ss_hub st);
          change = int now - int (ss_accounts st) - int reserved
      in (st\<lparr>ss_accounts := now\<rparr>, nat ((int accounts + change) mod 2 ^ 64)))"

text \<open>
  \<open>on_shard\<close> up to the release of the lock, with the handles to wake after it, and the whole of it, which is what the task does
  when no other comes between.
\<close>

definition on_shard_locked :: "nat \<Rightarrow> (hub \<Rightarrow> hub \<times> 'r \<times> action list) \<Rightarrow> shared \<Rightarrow> shared \<times> 'r \<times> conn_id list" where
  "on_shard_locked i f sh =
     (let st = sh_shards sh ! i;
          (h, r, acts) = f (ss_hub st);
          (hs, wake) = fold act acts (ss_handles st, []);
          (st1, accounts) = reconcile_accounts (st\<lparr>ss_hub := h, ss_handles := hs\<rparr>) 0 (sh_accounts sh)
      in (sh\<lparr>sh_shards := (sh_shards sh)[i := st1], sh_accounts := accounts\<rparr>, r, wake))"

definition on_shard :: "nat \<Rightarrow> (hub \<Rightarrow> hub \<times> 'r \<times> action list) \<Rightarrow> shared \<Rightarrow> shared \<times> 'r" where
  "on_shard i f sh = (case on_shard_locked i f sh of (sh1, r, wake) \<Rightarrow> (foldl (notify_conn i) sh1 wake, r))"

text \<open>
  \<open>connect\<close> in the steps that others can come between: the reservation of a place, which is one atomic update of the count, the
  admission, under the shard's lock all along, and the wake-ups after it. The reservation is 0 where the account is there already.
\<close>

definition connect_reserve :: "nat \<Rightarrow> account_id \<Rightarrow> shared \<Rightarrow> shared \<times> nat option" where
  "connect_reserve i account sh =
     (if has_account account (ss_hub (sh_shards sh ! i)) then (sh, Some 0)
      else if sh_accounts sh < sh_max_accounts sh then (sh\<lparr>sh_accounts := sh_accounts sh + 1\<rparr>, Some 1)
      else (sh, None))"

fun wakes :: "action list \<Rightarrow> conn_id list" where
  "wakes [] = []"
| "wakes (Wake c # acts) = c # wakes acts"
| "wakes (Close c f # acts) = wakes acts"

definition connect_locked ::
    "(frame \<Rightarrow> bytes) \<Rightarrow> nat \<Rightarrow> nat \<Rightarrow> account_id \<Rightarrow> hello \<Rightarrow> nat \<Rightarrow> nat \<Rightarrow> revoker \<Rightarrow> shared \<Rightarrow> shared \<times> (frame + conn_id) \<times> conn_id list" where
  "connect_locked pe i reserved account hello now_ms clock_ms rvk sh =
     (let st = sh_shards sh ! i;
          (h, res) = connect pe account hello now_ms clock_ms rvk (ss_hub st);
          (st1, accounts) = reconcile_accounts (st\<lparr>ss_hub := h\<rparr>) reserved (sh_accounts sh);
          hs = (case res of Inl _ \<Rightarrow> ss_handles st1 | Inr (cid, _) \<Rightarrow> AList.update cid handle_default (ss_handles st1));
          wake = (case res of Inl _ \<Rightarrow> [] | Inr (_, acts) \<Rightarrow> filter (\<lambda>c. map_of hs c \<noteq> None) (wakes acts))
      in (sh\<lparr>sh_shards := (sh_shards sh)[i := st1\<lparr>ss_handles := hs\<rparr>], sh_accounts := accounts\<rparr>,
          case res of Inl f \<Rightarrow> Inl f | Inr (cid, _) \<Rightarrow> Inr cid, wake))"

definition connect_admit ::
    "(frame \<Rightarrow> bytes) \<Rightarrow> nat \<Rightarrow> nat \<Rightarrow> account_id \<Rightarrow> hello \<Rightarrow> nat \<Rightarrow> nat \<Rightarrow> revoker \<Rightarrow> shared \<Rightarrow> shared \<times> (frame + conn_id)" where
  "connect_admit pe i reserved account hello now_ms clock_ms rvk sh =
     (case connect_locked pe i reserved account hello now_ms clock_ms rvk sh of (sh1, res, wake) \<Rightarrow> (foldl (notify_conn i) sh1 wake, res))"

definition shared_connect ::
    "(frame \<Rightarrow> bytes) \<Rightarrow> nat \<Rightarrow> account_id \<Rightarrow> hello \<Rightarrow> nat \<Rightarrow> nat \<Rightarrow> revoker \<Rightarrow> shared \<Rightarrow> shared \<times> (frame + conn_id)" where
  "shared_connect pe i account hello now_ms clock_ms rvk sh =
     (case connect_reserve i account sh of
        (sh1, None) \<Rightarrow> (sh1, Inl (error_frame Limit ''relay is full''))
      | (sh1, Some reserved) \<Rightarrow> connect_admit pe i reserved account hello now_ms clock_ms rvk sh1)"

section \<open>Sockets that have not said who they are\<close>

record stranger =
  sr_cost_us :: nat

definition stranger_new :: stranger where "stranger_new = \<lparr>sr_cost_us = NO_HELLO_US\<rparr>"
definition sent_hello :: "stranger \<Rightarrow> stranger" where "sent_hello s = s\<lparr>sr_cost_us := REFUSED_HELLO_US\<rparr>"
definition settle :: "stranger \<Rightarrow> stranger" where "settle s = s\<lparr>sr_cost_us := 0\<rparr>"

definition stranger_drop :: "nat \<Rightarrow> stranger \<Rightarrow> strangers \<Rightarrow> strangers" where
  "stranger_drop now s st = (if sr_cost_us s > 0 then strangers_charge (sr_cost_us s) now st else st)"

text \<open>What the accept loop does with one socket, given whether a permit of each kind is free.\<close>

datatype accepted = NoSocket | TooOften | NoPending | Serve bool

definition accept_socket ::
    "accrual \<Rightarrow> config \<Rightarrow> ip_addr \<Rightarrow> nat \<Rightarrow> nat \<Rightarrow> bool \<Rightarrow> bool \<Rightarrow> strangers \<times> gate \<Rightarrow> (strangers \<times> gate) \<times> nat option \<times> accepted" where
  "accept_socket accrue cfg peer now later socket_free pending_free = (\<lambda>(st, g).
     let (st1, owed) = strangers_wait now st; proxied = proxies_contains (cg_trusted_proxies cfg) peer in
     if \<not> socket_free then ((st1, g), owed, NoSocket)
     else let (g1, ok) = (if proxied then (g, True) else gate_admit accrue peer later g) in
          if \<not> ok then ((st1, g1), owed, TooOften)
          else if \<not> pending_free then ((st1, g1), owed, NoPending)
          else ((st1, g1), owed, Serve proxied))"

definition handshake_gate ::
    "accrual \<Rightarrow> config \<Rightarrow> ip_addr \<Rightarrow> bool \<Rightarrow> string option \<Rightarrow> nat \<Rightarrow> gate \<Rightarrow> gate \<times> ip_addr \<times> bool" where
  "handshake_gate accrue cfg peer proxied header now g =
     (if \<not> proxied then (g, peer, True)
      else let address = client_address peer header (cg_trusted_proxies cfg); (g1, ok) = gate_admit accrue address now g
           in (g1, address, ok))"

text \<open>The first message: none in time, or its bytes.\<close>

datatype first = HangUp | Refuse frame | Pairs pair_offer | Says hello "frame list" nat

definition first_message :: "(bytes \<Rightarrow> 'p + frame) \<Rightarrow> config \<Rightarrow> bytes option \<Rightarrow> first" where
  "first_message pd cfg msg =
     (case msg of
        None \<Rightarrow> HangUp
      | Some bs \<Rightarrow>
          if length bs > cg_max_hello_bytes cfg then Refuse (error_frame Limit ''hello too large'')
          else (case decode_frames_shared pd bs (max_frame_bytes (cg_limits cfg)) of
                  Inl _ \<Rightarrow> Refuse (error_frame Invalid ''malformed frame'')
                | Inr (Frame (Some (BHello hello)) # frames) \<Rightarrow> Says hello frames (length bs)
                | Inr (Frame (Some (BPairOffer offer)) # _) \<Rightarrow> Pairs offer
                | Inr _ \<Rightarrow> Refuse (error_frame Invalid ''the first frame must be hello'')))"

section \<open>A message, chunk by chunk\<close>

text \<open>The pairing frames of a chunk, answered by the server; \<open>now n\<close> is the clock when the n-th frame is looked at.\<close>

definition slot_refusal :: "slot_error \<Rightarrow> string" where
  "slot_refusal e = (if e = Full then ''the hub is holding as many pairings as it will'' else ''that pairing cannot be held'')"

fun take_pairing ::
    "(frame \<Rightarrow> bytes) \<Rightarrow> nat \<Rightarrow> conn_id \<Rightarrow> (nat \<Rightarrow> nat) \<Rightarrow> nat \<Rightarrow> frame list \<Rightarrow> slots \<times> shared \<Rightarrow> (slots \<times> shared) \<times> frame list" where
  "take_pairing pe i cid now n [] s = (s, [])"
| "take_pairing pe i cid now n (f # fs) (slots, sh) =
     (case frame_body f of
        Some (BPairFetch code_hash) \<Rightarrow>
          (case slots_offered code_hash (now n) slots of
             (slots1, r) \<Rightarrow>
               let answer = (case r of Inr offer \<Rightarrow> Frame (Some (BPaired \<lparr>pd_offer = offer, pd_answer = []\<rparr>))
                                     | Inl _ \<Rightarrow> error_frame Unavailable ''no pairing is waiting under that code'')
               in take_pairing pe i cid now (n + 1) fs
                    (slots1, fst (on_shard i (\<lambda>h. case deliver pe cid answer h of (h1, acts) \<Rightarrow> (h1, (), acts)) sh)))
      | Some (BPairAnswer a) \<Rightarrow>
          (case slots_answer (pa_code_hash a) (pa_answer a) (now n) slots of
             (slots1, r) \<Rightarrow>
               let reply = (case r of Inr _ \<Rightarrow> Frame (Some (BPaired \<lparr>pd_offer = [], pd_answer = []\<rparr>))
                                    | Inl e \<Rightarrow> error_frame Unavailable (slot_refusal e))
               in take_pairing pe i cid now (n + 1) fs
                    (slots1, fst (on_shard i (\<lambda>h. case deliver pe cid reply h of (h1, acts) \<Rightarrow> (h1, (), acts)) sh)))
      | _ \<Rightarrow> apsnd ((#) f) (take_pairing pe i cid now (n + 1) fs (slots, sh)))"

fun receive_all :: "(frame \<Rightarrow> bytes) \<Rightarrow> conn_id \<Rightarrow> frame list \<Rightarrow> hub \<Rightarrow> hub \<times> action list" where
  "receive_all pe cid [] h = (h, [])"
| "receive_all pe cid (f # fs) h =
     (case receive pe cid f h of (h1, acts) \<Rightarrow> (case receive_all pe cid fs h1 of (h2, acts2) \<Rightarrow> (h2, acts @ acts2)))"

definition charge_chunk ::
    "(frame \<Rightarrow> bytes) \<Rightarrow> conn_id \<Rightarrow> nat \<Rightarrow> nat \<Rightarrow> frame list \<Rightarrow> hub \<Rightarrow> hub \<times> (nat \<times> frame list) \<times> action list" where
  "charge_chunk pe cid cost now chunk h =
     (case charge pe cid cost now h of
        (h1, wait, acts) \<Rightarrow>
          if wait > 0 then (h1, (wait, chunk), acts)
          else (case receive_all pe cid chunk h1 of (h2, acts2) \<Rightarrow> (h2, (0, []), acts @ acts2)))"

definition share_of :: "nat \<Rightarrow> nat \<Rightarrow> nat \<Rightarrow> nat \<Rightarrow> nat \<Rightarrow> nat" where
  "share_of pending_bytes frames bytes_left chunk rest =
     (if rest = 0 then bytes_left else pending_bytes div frames * chunk)"

definition chunk_cost :: "nat \<Rightarrow> nat \<Rightarrow> nat" where
  "chunk_cost share chunk = min (share + min (chunk * FRAME_COST_BYTES) (2 ^ 64 - 1)) (2 ^ 64 - 1)"

text \<open>
  One chunk: its price and the frames of it, the pairing frames answered, the account charged, the rest handed over or kept until the wait is
  over. The clock readings of the chunk are its \<open>tick\<close>; \<open>tk_ended\<close> says that the writer ended while it waited.
\<close>

record tick =
  tk_slots :: "nat \<Rightarrow> nat"
  tk_clock :: nat
  tk_ended :: bool

definition take_chunk ::
    "(frame \<Rightarrow> bytes) \<Rightarrow> nat \<Rightarrow> conn_id \<Rightarrow> tick \<Rightarrow> nat \<Rightarrow> frame list \<Rightarrow> slots \<times> shared \<Rightarrow> (slots \<times> shared) \<times> nat \<times> bool" where
  "take_chunk pe i cid t cost chunk s =
     (let ((slots, sh), keep) = take_pairing pe i cid (tk_slots t) 0 chunk s;
          (sh1, wait, unsent) = on_shard i (charge_chunk pe cid cost (tk_clock t) keep) sh
      in if wait > 0 then
           (if tk_ended t then ((slots, sh1), wait, True)
            else ((slots, fst (on_shard i (\<lambda>h. case receive_all pe cid unsent h of (h1, acts) \<Rightarrow> (h1, (), acts)) sh1)), wait, False))
         else ((slots, sh1), 0, False))"

text \<open>The loop over a message: \<open>chunk_prices\<close> is what each chunk of it costs, and \<open>take_message\<close> hands them over.\<close>

function chunk_prices :: "nat \<Rightarrow> nat \<Rightarrow> nat \<Rightarrow> nat \<Rightarrow> (nat \<times> nat) list" where
  "chunk_prices pending_bytes frames bytes_left rest =
     (if rest = 0 then []
      else let chunk = min RECEIVE_CHUNK rest; share = share_of pending_bytes frames bytes_left chunk (rest - chunk)
           in (chunk, share) # chunk_prices pending_bytes frames (bytes_left - share) (rest - chunk))"
  by pat_completeness auto
termination by (relation "measure (\<lambda>(p, f, b, r). r)") (auto simp: RECEIVE_CHUNK_def)

declare chunk_prices.simps [simp del]

fun take_message ::
    "(frame \<Rightarrow> bytes) \<Rightarrow> nat \<Rightarrow> conn_id \<Rightarrow> (nat \<times> nat) list \<Rightarrow> tick list \<Rightarrow> frame list \<Rightarrow> slots \<times> shared \<Rightarrow> (slots \<times> shared) \<times> bool" where
  "take_message pe i cid ((n, share) # prices) (t # ts) frames s =
     (case take_chunk pe i cid t (chunk_cost share n) (take n frames) s of
        (s1, wait, ended) \<Rightarrow> if ended then (s1, True) else take_message pe i cid prices ts (drop n frames) s1)"
| "take_message pe i cid prices ts frames s = (s, False)"

section \<open>The reader and the writer\<close>

text \<open>What the read loop makes of what it reads next: frames to take, an error to close with, nothing, or the end.\<close>

datatype incoming = InBinary bytes | InPing | InText | InIdle | InEnded | WriterEnded

datatype next_read = Take "frame list" nat | Again | CloseWith frame | Stop

definition read_next :: "(bytes \<Rightarrow> 'p + frame) \<Rightarrow> config \<Rightarrow> incoming \<Rightarrow> next_read" where
  "read_next pd cfg m =
     (case m of
        InBinary bs \<Rightarrow>
          (case decode_frames_shared pd bs (max_frame_bytes (cg_limits cfg)) of
             Inl _ \<Rightarrow> CloseWith (error_frame Invalid ''malformed frame'')
           | Inr fs \<Rightarrow> Take fs (length bs))
      | InPing \<Rightarrow> Again
      | InText \<Rightarrow> CloseWith (error_frame Invalid ''binary frames only'')
      | InIdle \<Rightarrow> CloseWith (error_frame Limit ''idle'')
      | InEnded \<Rightarrow> Stop
      | WriterEnded \<Rightarrow> Stop)"

definition close_shared :: "(frame \<Rightarrow> bytes) \<Rightarrow> nat \<Rightarrow> conn_id \<Rightarrow> frame option \<Rightarrow> shared \<Rightarrow> shared" where
  "close_shared pe i cid frm sh = fst (on_shard i (\<lambda>h. case close_conn pe cid frm h of (h1, acts) \<Rightarrow> (h1, (), acts)) sh)"

definition remove_handle :: "nat \<Rightarrow> conn_id \<Rightarrow> shared \<Rightarrow> shared" where
  "remove_handle i cid sh =
     (let st = sh_shards sh ! i in sh\<lparr>sh_shards := (sh_shards sh)[i := st\<lparr>ss_handles := AList.delete cid (ss_handles st)\<rparr>]\<rparr>)"

definition put_handle :: "nat \<Rightarrow> conn_id \<Rightarrow> handle \<Rightarrow> shared \<Rightarrow> shared" where
  "put_handle i cid hn sh =
     (let st = sh_shards sh ! i in sh\<lparr>sh_shards := (sh_shards sh)[i := st\<lparr>ss_handles := AList.update cid hn (ss_handles st)\<rparr>]\<rparr>)"

definition writer_aborts :: "nat \<Rightarrow> conn_id \<Rightarrow> shared \<Rightarrow> shared" where
  "writer_aborts i cid sh =
     (case map_of (ss_handles (sh_shards sh ! i)) cid of None \<Rightarrow> sh | Some hn \<Rightarrow> put_handle i cid (hn\<lparr>hn_writer := Finished\<rparr>) sh)"

text \<open>
  The end of a connection, after an error of its own or none. A writer still there is aborted, at once or, after an error, two
  seconds later; \<open>over\<close> says that it had ended, or did within them.
\<close>

definition reader_ends :: "(frame \<Rightarrow> bytes) \<Rightarrow> nat \<Rightarrow> conn_id \<Rightarrow> frame option \<Rightarrow> bool \<Rightarrow> shared \<Rightarrow> shared" where
  "reader_ends pe i cid close_with over sh =
     (let sh1 = (case close_with of None \<Rightarrow> sh | Some f \<Rightarrow> close_shared pe i cid (Some f) sh);
          sh2 = close_shared pe i cid None sh1
      in remove_handle i cid (if over then sh2 else writer_aborts i cid sh2))"

text \<open>
  The writer. It is woken by its notification (\<open>None\<close>) or by the ping timer, and then ends if its ping does not get out; it takes until the relay
  says that nothing is left, each take under the lock, and ends if the socket will not take what it feeds; it flushes, if it fed anything;
  it looks for a closing frame, and having sent one it ends.
\<close>

definition writer_wakes :: "nat \<Rightarrow> conn_id \<Rightarrow> bool option \<Rightarrow> shared \<Rightarrow> shared" where
  "writer_wakes i cid ping sh =
     (case map_of (ss_handles (sh_shards sh ! i)) cid of
        None \<Rightarrow> sh
      | Some hn \<Rightarrow>
          if hn_writer hn \<noteq> Waiting then sh
          else (case ping of
                  Some ok \<Rightarrow> put_handle i cid (hn\<lparr>hn_writer := if ok then Draining False else Failed\<rparr>) sh
                | None \<Rightarrow> if hn_notified hn then put_handle i cid (hn\<lparr>hn_notified := False, hn_writer := Draining False\<rparr>) sh else sh))"

definition writer_after_take :: "bool \<Rightarrow> bool \<Rightarrow> taken \<Rightarrow> writer" where
  "writer_after_take fed ok t =
     (if tk_frames t \<noteq> [] \<and> \<not> ok then Failed
      else if tk_more t then Draining (fed \<or> tk_frames t \<noteq> [])
      else if fed \<or> tk_frames t \<noteq> [] then Flushing else Settling)"

definition writer_takes :: "(frame \<Rightarrow> bytes) \<Rightarrow> nat \<Rightarrow> conn_id \<Rightarrow> nat \<Rightarrow> bool \<Rightarrow> shared \<Rightarrow> shared \<times> bytes option" where
  "writer_takes pe i cid budget ok sh =
     (let st = sh_shards sh ! i in
      case map_of (ss_handles st) cid of
        None \<Rightarrow> (sh, None)
      | Some hn \<Rightarrow>
          (case hn_writer hn of
             Draining fed \<Rightarrow>
               (case take_outbound pe cid budget (ss_hub st) of
                  (h1, t) \<Rightarrow>
                    (sh\<lparr>sh_shards := (sh_shards sh)[i := st\<lparr>ss_hub := h1,
                       ss_handles := AList.update cid (hn\<lparr>hn_writer := writer_after_take fed ok t\<rparr>) (ss_handles st)\<rparr>]\<rparr>,
                     if tk_frames t = [] then None else Some (join_frames (tk_frames t))))
           | _ \<Rightarrow> (sh, None)))"

definition writer_flushes :: "nat \<Rightarrow> conn_id \<Rightarrow> bool \<Rightarrow> shared \<Rightarrow> shared" where
  "writer_flushes i cid ok sh =
     (case map_of (ss_handles (sh_shards sh ! i)) cid of
        None \<Rightarrow> sh
      | Some hn \<Rightarrow> if hn_writer hn = Flushing then put_handle i cid (hn\<lparr>hn_writer := if ok then Settling else Failed\<rparr>) sh else sh)"

definition writer_closing :: "nat \<Rightarrow> conn_id \<Rightarrow> shared \<Rightarrow> shared \<times> frame option" where
  "writer_closing i cid sh =
     (case map_of (ss_handles (sh_shards sh ! i)) cid of
        None \<Rightarrow> (sh, None)
      | Some hn \<Rightarrow>
          if hn_writer hn = Settling
          then (put_handle i cid (hn\<lparr>hn_closing := None, hn_writer := if hn_closing hn = None then Waiting else Finished\<rparr>) sh, hn_closing hn)
          else (sh, None))"

section \<open>Pairing sockets\<close>

text \<open>A socket that offered a pairing: it is told that its offer is held, then polls until an answer, the end of the slot's life, or a word from the peer.\<close>

datatype paired_end = PairRefused frame | PairUntold | PairAnswered frame | PairLeft | PairExpired frame

record poll =
  pl_before :: nat
  pl_at :: nat
  pl_spoke :: bool

fun pairing_polls :: "bytes \<Rightarrow> nat \<Rightarrow> poll list \<Rightarrow> slots \<Rightarrow> slots \<times> paired_end option" where
  "pairing_polls code_hash deadline [] slots = (slots, None)"
| "pairing_polls code_hash deadline (p # ps) slots =
     (if pl_before p \<ge> deadline
      then (slots_forget code_hash slots, Some (PairExpired (error_frame Limit ''the pairing expired'')))
      else case slots_collect code_hash (pl_at p) slots of
        (slots1, Inr answer) \<Rightarrow> (slots1, Some (PairAnswered (Frame (Some (BPaired \<lparr>pd_offer = [], pd_answer = answer\<rparr>)))))
      | (slots1, Inl _) \<Rightarrow>
          if pl_spoke p then (slots_forget code_hash slots1, Some PairLeft) else pairing_polls code_hash deadline ps slots1)"

definition pairing_socket :: "pair_offer \<Rightarrow> nat \<Rightarrow> bool \<Rightarrow> nat \<Rightarrow> poll list \<Rightarrow> slots \<Rightarrow> slots \<times> paired_end option" where
  "pairing_socket offer now told started ps slots =
     (case slots_offer (po_code_hash offer) (po_offer offer) now slots of
        (slots1, Inl e) \<Rightarrow> (slots1, Some (PairRefused (error_frame Limit (slot_refusal e))))
      | (slots1, Inr _) \<Rightarrow>
          if \<not> told then (slots_forget (po_code_hash offer) slots1, Some PairUntold)
          else pairing_polls (po_code_hash offer) (started + SLOT_LIFETIME) ps slots1)"

section \<open>The server as a machine\<close>

text \<open>
  What is done under one shard's lock in one go: frames received, a reply delivered, a connection closed, or a chunk charged and received.
\<close>

datatype shard_call = DoReceive conn_id "frame list" | DoDeliver conn_id frame | DoClose conn_id "frame option" | DoCharge conn_id nat nat "frame list"

fun do_call :: "(frame \<Rightarrow> bytes) \<Rightarrow> shard_call \<Rightarrow> hub \<Rightarrow> hub \<times> (nat \<times> frame list) \<times> action list" where
  "do_call pe (DoReceive cid fs) h = (case receive_all pe cid fs h of (h1, acts) \<Rightarrow> (h1, (0, []), acts))"
| "do_call pe (DoDeliver cid f) h = (case deliver pe cid f h of (h1, acts) \<Rightarrow> (h1, (0, []), acts))"
| "do_call pe (DoClose cid frm) h = (case close_conn pe cid frm h of (h1, acts) \<Rightarrow> (h1, (0, []), acts))"
| "do_call pe (DoCharge cid cost now fs) h = charge_chunk pe cid cost now fs h"

text \<open>
  A shard whose lock a connect holds remembers for which account, and what it reserved. The third part of the state is the wake-ups
  owed: the handles that some task collected under a shard's lock, has released the lock since, and has not notified yet.
  As in \<open>Relay_Run\<close> a newcomer is let in when its greeting fits its queue, which \<open>Relay_Room\<close> shows of every admission when the limits leave room for it,
  and the configuration lets an account have a connection; a refused connect is a step without condition.
\<close>

type_synonym server = "shared \<times> (account_id \<times> nat) option list \<times> (nat \<times> conn_id) list"

inductive server_step :: "(frame \<Rightarrow> bytes) \<Rightarrow> server \<Rightarrow> server \<Rightarrow> bool" for pe where
  reserved: "i < length lk \<Longrightarrow> lk ! i = None \<Longrightarrow> connect_reserve i aid sh = (sh', Some r) \<Longrightarrow>
    server_step pe (sh, lk, nt) (sh', lk[i := Some (aid, r)], nt)"
| admitted: "i < length lk \<Longrightarrow> lk ! i = Some (aid, r) \<Longrightarrow> greeting_fits pe aid now rvk (ss_hub (sh_shards sh ! i)) \<or> isl res \<Longrightarrow>
    connect_locked pe i r aid hello now clock rvk sh = (sh', res, wake) \<Longrightarrow>
    server_step pe (sh, lk, nt) (sh', lk[i := None], nt @ map (Pair i) wake)"
| called: "i < length lk \<Longrightarrow> lk ! i = None \<Longrightarrow> on_shard_locked i (do_call pe call) sh = (sh', r, wake) \<Longrightarrow>
    server_step pe (sh, lk, nt) (sh', lk, nt @ map (Pair i) wake)"
| notified: "i < length lk \<Longrightarrow> (i, cid) \<in> set nt \<Longrightarrow> server_step pe (sh, lk, nt) (notify_conn i sh cid, lk, remove1 (i, cid) nt)"
| woken: "i < length lk \<Longrightarrow> server_step pe (sh, lk, nt) (writer_wakes i cid ping sh, lk, nt)"
| taken: "i < length lk \<Longrightarrow> lk ! i = None \<Longrightarrow> writer_takes pe i cid budget ok sh = (sh', m) \<Longrightarrow> server_step pe (sh, lk, nt) (sh', lk, nt)"
| flushed: "i < length lk \<Longrightarrow> server_step pe (sh, lk, nt) (writer_flushes i cid ok sh, lk, nt)"
| told: "i < length lk \<Longrightarrow> writer_closing i cid sh = (sh', m) \<Longrightarrow> server_step pe (sh, lk, nt) (sh', lk, nt)"
| aborted: "i < length lk \<Longrightarrow> map_of (hub_conn_account (ss_hub (sh_shards sh ! i))) cid = None \<Longrightarrow>
    server_step pe (sh, lk, nt) (writer_aborts i cid sh, lk, nt)"
| removed: "i < length lk \<Longrightarrow> lk ! i = None \<Longrightarrow> map_of (hub_conn_account (ss_hub (sh_shards sh ! i))) cid = None \<Longrightarrow>
    server_step pe (sh, lk, nt) (remove_handle i cid sh, lk, nt)"

definition server_start :: "server \<Rightarrow> bool" where
  "server_start s \<longleftrightarrow>
     (\<exists>cfg cores seed. shared_new cfg cores seed = Inr (fst s) \<and> max_accounts (cg_limits cfg) < 2 ^ 64
        \<and> 0 < max_connections_per_account (cg_limits cfg) \<and> snd s = (replicate (length (sh_shards (fst s))) None, []))"

definition held :: "(account_id \<times> nat) option \<Rightarrow> nat" where
  "held l = (case l of None \<Rightarrow> 0 | Some (aid, r) \<Rightarrow> r)"

text \<open>
  Every connection the relay knows has a handle, with no closing frame and a writer that has not finished; and where a wake is outstanding a
  notification is owed or given, the writer is taking, or its socket has failed. Wherever a closing frame is left, a notification is
  owed or given, or the writer is past its wait.
\<close>

definition has_writer :: "conn_id set \<Rightarrow> conn_id \<Rightarrow> handle \<Rightarrow> bool" where
  "has_writer P c hn \<longleftrightarrow> c \<in> P \<or> hn_notified hn \<or> (\<exists>fed. hn_writer hn = Draining fed) \<or> hn_writer hn = Failed"

definition handles_ok :: "hub \<Rightarrow> conn_id set \<Rightarrow> conn_id set \<Rightarrow> handles \<Rightarrow> bool" where
  "handles_ok h W P hs \<longleftrightarrow>
     (\<forall>c. map_of (hub_conn_account h) c \<noteq> None \<longrightarrow>
        (\<exists>hn. map_of hs c = Some hn \<and> hn_closing hn = None \<and> hn_writer hn \<noteq> Finished \<and> (c \<in> W \<longrightarrow> has_writer P c hn)))
     \<and> (\<forall>c hn. map_of hs c = Some hn \<longrightarrow> hn_closing hn \<noteq> None \<longrightarrow> c \<in> P \<or> hn_notified hn \<or> hn_writer hn \<noteq> Waiting)"

definition owed :: "nat \<Rightarrow> (nat \<times> conn_id) list \<Rightarrow> conn_id set" where
  "owed i nt = {c. (i, c) \<in> set nt}"

definition shard_ok :: "shard_state \<Rightarrow> conn_id set \<Rightarrow> bool" where
  "shard_ok st P \<longleftrightarrow>
     ss_accounts st = account_count (ss_hub st) \<and> (\<exists>W. run_inv (ss_hub st, W) \<and> handles_ok (ss_hub st) W P (ss_handles st))"

definition lock_ok :: "shard_state \<Rightarrow> (account_id \<times> nat) option \<Rightarrow> bool" where
  "lock_ok st l \<longleftrightarrow> (\<forall>aid r. l = Some (aid, r) \<longrightarrow> r = (if has_account aid (ss_hub st) then 0 else 1))"

definition server_inv :: "server \<Rightarrow> bool" where
  "server_inv s \<longleftrightarrow>
     (let (sh, lk, nt) = s in
      length lk = length (sh_shards sh)
      \<and> (\<forall>i < length lk. shard_ok (sh_shards sh ! i) (owed i nt) \<and> lock_ok (sh_shards sh ! i) (lk ! i))
      \<and> sh_accounts sh = sum_list (map ss_accounts (sh_shards sh)) + sum_list (map held lk)
      \<and> sh_accounts sh \<le> sh_max_accounts sh \<and> sh_max_accounts sh < 2 ^ 64)"

subsection \<open>Handles\<close>

lemma notify_one_lookup:
  "map_of (notify_one c hs) x = (if x = c then map_option (\<lambda>hn. hn\<lparr>hn_notified := True\<rparr>) (map_of hs x) else map_of hs x)"
  by (auto simp: notify_one_def update_conv' split: option.split)

lemma notify_conn_shards [simp]:
  "length (sh_shards (notify_conn i sh c)) = length (sh_shards sh)"
  by (simp add: notify_conn_def Let_def)

lemma notify_conn_hub [simp]: "ss_hub (sh_shards (notify_conn i sh c) ! i) = ss_hub (sh_shards sh ! i)"
proof (cases "i < length (sh_shards sh)")
  case False
  then have "sh_shards (notify_conn i sh c) = sh_shards sh" by (simp add: notify_conn_def Let_def list_update_beyond)
  then show ?thesis by simp
qed (simp add: notify_conn_def Let_def)

lemma notify_all_lookup:
  assumes "i < length (sh_shards sh)"
  shows "map_of (ss_handles (sh_shards (foldl (notify_conn i) sh cs) ! i)) x =
    (if x \<in> set cs then map_option (\<lambda>hn. hn\<lparr>hn_notified := True\<rparr>) (map_of (ss_handles (sh_shards sh ! i)) x)
     else map_of (ss_handles (sh_shards sh ! i)) x)"
  using assms
proof (induction cs arbitrary: sh)
  case (Cons c cs)
  from Cons.IH [of "notify_conn i sh c"] Cons.prems show ?case
    by (auto simp: notify_conn_def Let_def notify_one_lookup option.map_comp comp_def)
qed simp

lemma notify_all_hub: "ss_hub (sh_shards (foldl (notify_conn i) sh cs) ! i) = ss_hub (sh_shards sh ! i)"
  by (induction cs arbitrary: sh) simp_all

lemma fold_act:
  assumes "fold act acts (hs, wake) = (hs', wake')"
  shows "(map_of hs' x = None \<longleftrightarrow> map_of hs x = None)
    \<and> (\<forall>hn. map_of hs x = Some hn \<longrightarrow> (\<exists>hn'. map_of hs' x = Some hn' \<and> hn_notified hn' = hn_notified hn \<and> hn_writer hn' = hn_writer hn
           \<and> (x \<notin> closed_by acts \<longrightarrow> hn_closing hn' = hn_closing hn))
         \<and> (x \<in> set wake' \<longleftrightarrow> x \<in> set wake \<or> Wake x \<in> set acts \<or> x \<in> closed_by acts))"
  using assms
proof (induction acts arbitrary: hs wake)
  case (Cons a acts)
  show ?case
  proof (cases a)
    case (Wake c)
    with Cons.prems Cons.IH [of hs "if map_of hs c = None then wake else wake @ [c]"] show ?thesis by (auto split: if_splits)
  next
    case (Close c f)
    show ?thesis
    proof (cases "map_of hs c")
      case None
      with Close Cons.prems Cons.IH [of hs wake] show ?thesis by auto
    next
      case (Some hn)
      let ?hs = "AList.update c (hn\<lparr>hn_closing := Some f\<rparr>) hs"
      have "fold act acts (?hs, wake @ [c]) = (hs', wake')" using Cons.prems Close Some by simp
      from Cons.IH [OF this] Close Some show ?thesis by (auto simp: update_conv')
    qed
  qed
qed auto

lemma wakes_set: "set (wakes acts) = {c. Wake c \<in> set acts}"
  by (induction acts rule: wakes.induct) auto

subsection \<open>What a call does to a relay\<close>

text \<open>
  A call keeps the relay's invariant, has forgotten every connection it reports closed, adds no connection and no account, and leaves a wake
  outstanding only where one was or where it asks for one.
\<close>

definition moves :: "run_state \<Rightarrow> action list \<Rightarrow> run_state \<Rightarrow> bool" where
  "moves s acts t \<longleftrightarrow>
     (run_inv s \<longrightarrow> run_inv t \<and> (\<forall>c \<in> closed_by acts. map_of (hub_conn_account (fst t)) c = None))
     \<and> (\<forall>c \<in> snd t. c \<in> snd s \<or> Wake c \<in> set acts)
     \<and> dom (map_of (hub_conn_account (fst t))) \<subseteq> dom (map_of (hub_conn_account (fst s)))
     \<and> dom (map_of (hub_accounts (fst t))) \<subseteq> dom (map_of (hub_accounts (fst s)))"

lemma moves_refl: "moves s [] s"
  by (simp add: moves_def)

lemma moves_trans:
  assumes "moves s acts t" and "moves t acts' u"
  shows "moves s (acts @ acts') u"
proof -
  have "map_of (hub_conn_account (fst u)) c = None" if "map_of (hub_conn_account (fst t)) c = None" for c
    using assms(2) that unfolding moves_def by blast
  with assms show ?thesis unfolding moves_def by (auto; blast)
qed

lemma touches_moves:
  assumes step: "hub_step pe (h, W) (h', after_actions acts W)" and inv: "run_inv (h, W)"
    and gone: "\<forall>c f. Close c f \<in> set acts \<longrightarrow> map_of (hub_conn_account h') c = None"
    and t: "map_of (hub_conn_account h) conn = None \<and> h' = h \<or> (\<exists>aid. map_of (hub_conn_account h) conn = Some aid \<and> hub_touches aid h h')"
  shows "moves (h, W) acts (h', after_actions acts W)"
proof -
  have "dom (map_of (hub_accounts h')) \<subseteq> dom (map_of (hub_accounts h))"
    using t
  proof
    assume "\<exists>aid. map_of (hub_conn_account h) conn = Some aid \<and> hub_touches aid h h'"
    then obtain aid where aid: "map_of (hub_conn_account h) conn = Some aid" "hub_touches aid h h'" by blast
    have "hub_mid W (h, effects_default)" using inv by (simp add: run_inv_def hub_inv_def)
    from hub_mid_conn [OF this aid(1)] have "aid \<in> dom (map_of (hub_accounts h))" by blast
    moreover have "map_of (hub_accounts h') bid = map_of (hub_accounts h) bid" if "bid \<noteq> aid" for bid
      using aid(2) that by (simp add: hub_touches_def)
    ultimately show ?thesis by (metis domIff subsetI)
  qed simp
  moreover have "dom (map_of (hub_conn_account h')) \<subseteq> dom (map_of (hub_conn_account h))"
    using t by (auto simp: hub_touches_def dest!: map_le_implies_dom_le)
  ultimately show ?thesis using hub_step_inv [OF step inv] gone by (auto simp: moves_def after_actions_def)
qed

lemma call_moves:
  assumes inv: "run_inv (h, W)"
  shows "receive pe conn f h = (h', acts) \<Longrightarrow> moves (h, W) acts (h', after_actions acts W)"
    and "deliver pe conn f h = (h', acts) \<Longrightarrow> moves (h, W) acts (h', after_actions acts W)"
    and "close_conn pe conn frm h = (h', acts) \<Longrightarrow> moves (h, W) acts (h', after_actions acts W)"
    and "charge pe conn n now h = (h', wait, acts) \<Longrightarrow> moves (h, W) acts (h', after_actions acts W)"
proof -
  have hi: "hub_inv W h" using inv by (simp add: run_inv_def)
  show "moves (h, W) acts (h', after_actions acts W)" if r: "receive pe conn f h = (h', acts)"
    by (rule touches_moves [OF hub_step.received [OF r] inv receive_inv [OF hi r, THEN conjunct2], where conn = conn])
      (use r receive_touches [OF hi _ r] in \<open>cases "map_of (hub_conn_account h) conn"; auto simp: receive_def\<close>)
  show "moves (h, W) acts (h', after_actions acts W)" if r: "deliver pe conn f h = (h', acts)"
    by (rule touches_moves [OF hub_step.delivered [OF r] inv deliver_inv [OF hi r, THEN conjunct2], where conn = conn])
      (use r deliver_touches [OF hi _ r] in \<open>cases "map_of (hub_conn_account h) conn"; auto simp: deliver_def\<close>)
  show "moves (h, W) acts (h', after_actions acts W)" if r: "close_conn pe conn frm h = (h', acts)"
    by (rule touches_moves [OF hub_step.closed [OF r] inv close_conn_inv [OF hi r, THEN conjunct2], where conn = conn])
      (use r close_conn_touches [OF hi _ r] in \<open>cases "map_of (hub_conn_account h) conn"; auto simp: close_unknown\<close>)
  show "moves (h, W) acts (h', after_actions acts W)" if r: "charge pe conn n now h = (h', wait, acts)"
    by (rule touches_moves [OF hub_step.charged [OF r] inv charge_inv [OF hi r, THEN conjunct2], where conn = conn])
      (use r charge_touches [OF hi _ r] in \<open>cases "map_of (hub_conn_account h) conn"; auto simp: charge_def Let_def\<close>)
qed

lemma moves_inv: "moves s acts t \<Longrightarrow> run_inv s \<Longrightarrow> run_inv t"
  by (simp add: moves_def)

lemma receive_all_moves:
  "run_inv (h, W) \<Longrightarrow> receive_all pe cid fs h = (h', acts) \<Longrightarrow> \<exists>W'. moves (h, W) acts (h', W')"
proof (induction fs arbitrary: h W acts)
  case Nil
  then show ?case using moves_refl by auto
next
  case (Cons f fs)
  obtain h1 a1 where r: "receive pe cid f h = (h1, a1)" by fastforce
  obtain a2 where r2: "receive_all pe cid fs h1 = (h', a2)" "acts = a1 @ a2" using Cons.prems(2) r by (auto split: prod.splits)
  note m = call_moves(1) [OF Cons.prems(1) r]
  from Cons.IH [OF moves_inv [OF m Cons.prems(1)] r2(1)] moves_trans [OF m] r2(2) show ?case by blast
qed

lemma do_call_moves:
  assumes inv: "run_inv (h, W)" and call: "do_call pe c h = (h', r, acts)"
  shows "\<exists>W'. moves (h, W) acts (h', W')"
proof (cases c)
  case (DoReceive cid fs)
  then show ?thesis using call receive_all_moves [OF inv] by (auto split: prod.splits)
next
  case (DoDeliver cid f)
  then show ?thesis using call call_moves(2) [OF inv] by (auto split: prod.splits intro!: exI)
next
  case (DoClose cid frm)
  then show ?thesis using call call_moves(3) [OF inv] by (auto split: prod.splits intro!: exI)
next
  case (DoCharge cid cost now fs)
  obtain h1 wait a1 where ch: "charge pe cid cost now h = (h1, wait, a1)" by (metis prod_cases3)
  note m = call_moves(4) [OF inv ch]
  show ?thesis
  proof (cases "wait > 0")
    case True
    then show ?thesis using call DoCharge ch m by (auto simp: charge_chunk_def)
  next
    case False
    obtain h2 a2 where r: "receive_all pe cid fs h1 = (h2, a2)" by fastforce
    from receive_all_moves [OF moves_inv [OF m inv] r] moves_trans [OF m] False call DoCharge ch r show ?thesis
      by (auto simp: charge_chunk_def)
  qed
qed

lemma account_count_dom: "run_inv (h, W) \<Longrightarrow> account_count h = card (dom (map_of (hub_accounts h)))"
  by (simp add: run_inv_def hub_inv_def hub_mid_def account_count_def dom_map_of_conv_image_fst card_image distinct_map)
    (metis card_image distinct_card distinct_map length_map list.set_map)

lemma account_count_shrinks:
  assumes "run_inv (h, W)" "run_inv (h', W')" "dom (map_of (hub_accounts h')) \<subseteq> dom (map_of (hub_accounts h))"
  shows "account_count h' \<le> account_count h"
  using assms by (simp add: account_count_dom card_mono finite_dom_map_of)

lemma has_writer_mono: "has_writer P c hn \<Longrightarrow> P \<subseteq> Q \<Longrightarrow> has_writer Q c hn"
  by (auto simp: has_writer_def)

lemma handles_moved:
  assumes ok: "handles_ok h W P hs" and m: "moves (h, W) acts (h', W')" and inv: "run_inv (h, W)" and f: "fold act acts (hs, []) = (hs', wake)"
  shows "handles_ok h' W' (P \<union> set wake) hs'"
  unfolding handles_ok_def
proof (intro conjI allI impI)
  fix c assume k: "map_of (hub_conn_account h') c \<noteq> None"
  then have "map_of (hub_conn_account h) c \<noteq> None" and open': "c \<notin> closed_by acts" using m inv by (auto simp: moves_def)
  then obtain hn where hn: "map_of hs c = Some hn" "hn_closing hn = None" "hn_writer hn \<noteq> Finished" "c \<in> W \<longrightarrow> has_writer P c hn"
    using ok by (auto simp: handles_ok_def)
  from fold_act [OF f, of c] hn(1) obtain hn' where hn': "map_of hs' c = Some hn'" "hn_notified hn' = hn_notified hn" "hn_writer hn' = hn_writer hn"
    "hn_closing hn' = hn_closing hn" "Wake c \<in> set acts \<longrightarrow> c \<in> set wake" using open' by auto
  moreover have "has_writer (P \<union> set wake) c hn'" if "c \<in> W'"
    using that m hn(4) hn'(2,3,5) by (auto simp: moves_def has_writer_def)
  ultimately show "\<exists>hn. map_of hs' c = Some hn \<and> hn_closing hn = None \<and> hn_writer hn \<noteq> Finished \<and> (c \<in> W' \<longrightarrow> has_writer (P \<union> set wake) c hn)"
    using hn by auto
next
  fix c hn' assume c: "map_of hs' c = Some hn'" "hn_closing hn' \<noteq> None"
  with fold_act [OF f, of c] obtain hn where hn: "map_of hs c = Some hn" "hn_notified hn' = hn_notified hn" "hn_writer hn' = hn_writer hn"
    "c \<notin> closed_by acts \<longrightarrow> hn_closing hn' = hn_closing hn" "c \<in> closed_by acts \<longrightarrow> c \<in> set wake" by (cases "map_of hs c") auto
  show "c \<in> P \<union> set wake \<or> hn_notified hn' \<or> hn_writer hn' \<noteq> Waiting"
  proof (cases "c \<in> closed_by acts")
    case False
    with hn c(2) ok show ?thesis by (fastforce simp: handles_ok_def)
  qed (use hn(5) in blast)
qed

subsection \<open>Every step keeps the invariant\<close>

lemma held_simps [simp]: "held None = 0" "held (Some (aid, r)) = r"
  by (simp_all add: held_def)

lemma sum_swap:
  fixes f :: "'a \<Rightarrow> nat"
  assumes "i < length xs"
  shows "sum_list (map f (xs[i := y])) + f (xs ! i) = sum_list (map f xs) + f y"
  using assms by (induction xs arbitrary: i) (auto simp: nth_Cons split: nat.splits)

lemma sum_part:
  fixes f :: "'a \<Rightarrow> nat"
  assumes "i < length xs"
  shows "f (xs ! i) \<le> sum_list (map f xs)"
  using assms by (induction xs arbitrary: i) (auto simp: nth_Cons trans_le_add2 split: nat.splits)

text \<open>A shard replaced: what the new one and the new count have to satisfy.\<close>

lemma owed_simps [simp]:
  "owed i (nt @ map (Pair i) wake) = owed i nt \<union> set wake" "j \<noteq> i \<Longrightarrow> owed j (nt @ map (Pair i) wake) = owed j nt"
  "j \<noteq> i \<Longrightarrow> owed j (remove1 (i, c) nt) = owed j nt" "owed i [] = {}"
  by (auto simp: owed_def in_set_remove1)

lemma owed_remove: "owed i nt \<subseteq> insert c (owed i (remove1 (i, c) nt))"
  by (auto simp: owed_def in_set_remove1)

lemma server_inv_update:
  assumes inv: "server_inv (sh, lk, nt)" and i: "i < length lk" and st: "shard_ok st (owed i nt')" "lock_ok st l"
    and n: "n + ss_accounts (sh_shards sh ! i) + held (lk ! i) = sh_accounts sh + ss_accounts st + held l" "n \<le> sh_max_accounts sh"
    and nt: "\<And>j. j \<noteq> i \<Longrightarrow> owed j nt' = owed j nt"
  shows "server_inv (sh\<lparr>sh_shards := (sh_shards sh)[i := st], sh_accounts := n\<rparr>, lk[i := l], nt')"
proof -
  have len: "length lk = length (sh_shards sh)" using inv by (simp add: server_inv_def)
  have "n = sum_list (map ss_accounts ((sh_shards sh)[i := st])) + sum_list (map held (lk[i := l]))"
    using inv n(1) sum_swap [of i "sh_shards sh" ss_accounts st] sum_swap [OF i, of held l] i len by (simp add: server_inv_def)
  then show ?thesis using inv n(2) st i len nt by (auto simp: server_inv_def nth_list_update)
qed

lemma reconcile_exact:
  assumes "reconcile_accounts st r n = (st', n')" and "ss_accounts st + r \<le> n" and "n < 2 ^ 64"
    and "account_count (ss_hub st) \<le> ss_accounts st + r"
  shows "ss_accounts st' = account_count (ss_hub st)" "ss_hub st' = ss_hub st" "ss_handles st' = ss_handles st"
    "n' + ss_accounts st + r = n + account_count (ss_hub st)" "n' \<le> n"
proof -
  have "int n' = (int n + (int (account_count (ss_hub st)) - int (ss_accounts st) - int r)) mod 2 ^ 64"
    using assms(1) by (auto simp: reconcile_accounts_def Let_def)
  also have "\<dots> = int n + (int (account_count (ss_hub st)) - int (ss_accounts st) - int r)"
    using assms(2-4) by (intro mod_pos_pos_trivial) auto
  finally show "n' + ss_accounts st + r = n + account_count (ss_hub st)" "n' \<le> n" using assms(4) by linarith+
  show "ss_accounts st' = account_count (ss_hub st)" "ss_hub st' = ss_hub st" "ss_handles st' = ss_handles st"
    using assms(1) by (auto simp: reconcile_accounts_def Let_def)
qed

lemma shard_part:
  assumes "server_inv (sh, lk, nt)" and "i < length lk"
  shows "ss_accounts (sh_shards sh ! i) + held (lk ! i) \<le> sh_accounts sh" "sh_accounts sh < 2 ^ 64" "shard_ok (sh_shards sh ! i) (owed i nt)"
    "lock_ok (sh_shards sh ! i) (lk ! i)" "sh_accounts sh \<le> sh_max_accounts sh"
  using assms sum_part [of i "sh_shards sh" ss_accounts] sum_part [of i lk held] by (auto simp: server_inv_def)

lemma called_inv:
  assumes inv: "server_inv (sh, lk, nt)" and i: "i < length lk" "lk ! i = None"
    and call: "on_shard_locked i (do_call pe c) sh = (sh', r, wake)"
  shows "server_inv (sh', lk, nt @ map (Pair i) wake)"
proof -
  let ?st = "sh_shards sh ! i"
  let ?nt = "nt @ map (Pair i) wake"
  note P = shard_part [OF inv i(1)]
  obtain h q acts where dc: "do_call pe c (ss_hub ?st) = (h, q, acts)" by (metis prod_cases3)
  obtain hs wake' where f: "fold act acts (ss_handles ?st, []) = (hs, wake')" by fastforce
  obtain st2 n where rc: "reconcile_accounts (?st\<lparr>ss_hub := h, ss_handles := hs\<rparr>) 0 (sh_accounts sh) = (st2, n)" by fastforce
  have sh': "sh' = sh\<lparr>sh_shards := (sh_shards sh)[i := st2], sh_accounts := n\<rparr>" "wake' = wake"
    using call dc rc f by (simp_all add: on_shard_locked_def)
  obtain W where W: "run_inv (ss_hub ?st, W)" "handles_ok (ss_hub ?st) W (owed i nt) (ss_handles ?st)" "ss_accounts ?st = account_count (ss_hub ?st)"
    using P(3) by (auto simp: shard_ok_def)
  obtain W' where m: "moves (ss_hub ?st, W) acts (h, W')" using do_call_moves [OF W(1) dc] by blast
  have h: "run_inv (h, W')" "account_count h \<le> account_count (ss_hub ?st)"
    using moves_inv [OF m W(1)] account_count_shrinks [OF W(1), of h W'] m by (auto simp: moves_def)
  note R = reconcile_exact [OF rc]
  have "shard_ok st2 (owed i ?nt)" using R P(1,2) h W(3) handles_moved [OF W(2) m W(1) f] sh'(2) by (auto simp: shard_ok_def)
  then have "server_inv (sh', lk[i := None], ?nt)" unfolding sh'(1)
    by (rule server_inv_update [OF inv i(1)]) (use R P h W(3) i(2) in \<open>auto simp: lock_ok_def\<close>)
  then show ?thesis using i(2) by (metis list_update_id)
qed

lemma reserved_inv:
  assumes inv: "server_inv (sh, lk, nt)" and i: "i < length lk" "lk ! i = None" and c: "connect_reserve i aid sh = (sh', Some r)"
  shows "server_inv (sh', lk[i := Some (aid, r)], nt)"
proof -
  let ?st = "sh_shards sh ! i"
  note P = shard_part [OF inv i(1)]
  have sh': "sh' = sh\<lparr>sh_shards := (sh_shards sh)[i := ?st], sh_accounts := sh_accounts sh + r\<rparr>"
    and r: "r = (if has_account aid (ss_hub ?st) then 0 else 1)" "sh_accounts sh + r \<le> sh_max_accounts sh"
    using c P(5) by (auto simp: connect_reserve_def split: if_splits)
  show ?thesis unfolding sh' by (rule server_inv_update [OF inv i(1) P(3)]) (use r i(2) in \<open>auto simp: lock_ok_def\<close>)
qed

lemma run_inv_known: "run_inv (h, W) \<Longrightarrow> run_inv (h, W \<inter> dom (map_of (hub_conn_account h)))"
  by (auto simp: run_inv_def hub_inv_def intro: hub_mid_woken [of W h effects_default effects_default])

lemma connect_refused_moves:
  assumes "run_inv (h, W)" and "connect pe aid hello now mno rvk h = (h', Inl e)"
  shows "moves (h, W) [] (h', W)"
proof -
  have "dom (map_of (hub_accounts h')) \<subseteq> dom (map_of (hub_accounts h))"
    using assms(2) by (auto simp: connect_def connect_debt_def put_account_def update_conv' Let_def split: option.splits if_splits prod.splits)
  moreover have "dom (map_of (hub_conn_account h')) \<subseteq> dom (map_of (hub_conn_account h))"
    using connect_refused_limits [OF assms(2)] by (auto simp: hub_touches_def dest!: map_le_implies_dom_le)
  ultimately show ?thesis using hub_step_inv [OF hub_step.refused [OF assms(2)]] by (auto simp: moves_def)
qed

text \<open>An admission: the relay stays sound with a wake outstanding for the newcomer, and there is at most one account more, the newcomer's.\<close>

lemma connect_joined:
  assumes inv: "run_inv (h, W)" and fits: "greeting_fits pe aid now rvk h" and con: "connect pe aid hello now mno rvk h = (h', Inr (cid, acts))"
    and hs: "handles_ok h W P hs" and hs': "hs' = AList.update cid handle_default hs" and wake: "wake = filter (\<lambda>c. map_of hs' c \<noteq> None) (wakes acts)"
  obtains W' where "run_inv (h', W')" "account_count h' \<le> account_count h + (if has_account aid h then 0 else 1)"
    "handles_ok h' W' (P \<union> set wake) hs'"
proof
  let ?W = "W \<inter> dom (map_of (hub_conn_account h))"
  have inv1: "run_inv (h, ?W)" by (rule run_inv_known [OF inv])
  then have hi: "hub_inv ?W h" "0 < max_connections_per_account (hub_limits h)" by (simp_all add: run_inv_def)
  note I = connect_isolated [OF hi fits con]
  show inv2: "run_inv (h', after_actions acts ?W)" by (rule hub_step_inv [OF hub_step.connected [OF fits con] inv1])
  have sub: "dom (map_of (hub_accounts h')) \<subseteq> insert aid (dom (map_of (hub_accounts h)))"
    using I by (metis domIff insertCI subsetI)
  have "account_count h' \<le> card (insert aid (dom (map_of (hub_accounts h))))"
    using account_count_dom [OF inv2] card_mono [OF _ sub] by (simp add: finite_dom_map_of)
  also have "\<dots> = account_count h + (if has_account aid h then 0 else 1)"
    using account_count_dom [OF inv] by (auto simp: has_account_def insert_absorb domIff finite_dom_map_of card_insert_if)
  finally show "account_count h' \<le> account_count h + (if has_account aid h then 0 else 1)" .
  have cid: "cid \<notin> dom (map_of (hub_conn_account h))"
    using hi(1) I by (auto simp: hub_inv_def hub_mid_def)
  show "handles_ok h' (after_actions acts ?W) (P \<union> set wake) hs'"
    unfolding handles_ok_def
  proof (intro conjI allI impI)
    fix c assume c: "map_of (hub_conn_account h') c \<noteq> None"
    have woken: "c \<in> set wake" if "Wake c \<in> set acts" "map_of hs' c \<noteq> None" using that by (simp add: wake wakes_set)
    show "\<exists>hn. map_of hs' c = Some hn \<and> hn_closing hn = None \<and> hn_writer hn \<noteq> Finished
      \<and> (c \<in> after_actions acts ?W \<longrightarrow> has_writer (P \<union> set wake) c hn)"
    proof (cases "c = cid")
      case True
      with cid woken show ?thesis by (auto simp: hs' update_conv' after_actions_def handle_default_def has_writer_def)
    next
      case False
      then have "map_of (hub_conn_account h) c \<noteq> None" using c I by (metis domIff insertE subsetD)
      then obtain hn where "map_of hs c = Some hn" "hn_closing hn = None" "hn_writer hn \<noteq> Finished" "c \<in> W \<longrightarrow> has_writer P c hn"
        using hs by (auto simp: handles_ok_def)
      with False woken show ?thesis by (auto simp: hs' update_conv' after_actions_def has_writer_def)
    qed
  next
    fix c hn assume "map_of hs' c = Some hn" "hn_closing hn \<noteq> None"
    then have "map_of hs c = Some hn" "hn_closing hn \<noteq> None" by (auto simp: hs' update_conv' handle_default_def split: if_splits)
    with hs show "c \<in> P \<union> set wake \<or> hn_notified hn \<or> hn_writer hn \<noteq> Waiting" unfolding handles_ok_def by blast
  qed
qed

lemma admitted_inv:
  assumes inv: "server_inv (sh, lk, nt)" and i: "i < length lk" "lk ! i = Some (aid, r)"
    and fits: "greeting_fits pe aid now rvk (ss_hub (sh_shards sh ! i)) \<or> isl res"
    and c: "connect_locked pe i r aid hello now clock rvk sh = (sh', res, wake)"
  shows "server_inv (sh', lk[i := None], nt @ map (Pair i) wake)"
proof -
  let ?st = "sh_shards sh ! i"
  let ?nt = "nt @ map (Pair i) wake"
  note P = shard_part [OF inv i(1)]
  have r: "r = (if has_account aid (ss_hub ?st) then 0 else 1)" using P(4) i(2) by (auto simp: lock_ok_def)
  obtain W where W: "run_inv (ss_hub ?st, W)" "handles_ok (ss_hub ?st) W (owed i nt) (ss_handles ?st)" "ss_accounts ?st = account_count (ss_hub ?st)"
    using P(3) by (auto simp: shard_ok_def)
  obtain h q where con: "connect pe aid hello now clock rvk (ss_hub ?st) = (h, q)" by fastforce
  obtain st1 n where rc: "reconcile_accounts (?st\<lparr>ss_hub := h\<rparr>) r (sh_accounts sh) = (st1, n)" by fastforce
  then have hs1: "ss_handles st1 = ss_handles ?st" by (auto simp: reconcile_accounts_def Let_def)
  define hs where "hs = (case q of Inl _ \<Rightarrow> ss_handles ?st | Inr (cid, acts) \<Rightarrow> AList.update cid handle_default (ss_handles ?st))"
  have sh': "sh' = sh\<lparr>sh_shards := (sh_shards sh)[i := st1\<lparr>ss_handles := hs\<rparr>], sh_accounts := n\<rparr>"
    and wake: "wake = (case q of Inl _ \<Rightarrow> [] | Inr (cid, acts) \<Rightarrow> filter (\<lambda>c. map_of hs c \<noteq> None) (wakes acts))"
    using c con rc hs1 by (cases q; auto simp: connect_locked_def Let_def hs_def)+
  obtain W' where h: "run_inv (h, W')" "account_count h \<le> account_count (ss_hub ?st) + r" "handles_ok h W' (owed i nt \<union> set wake) hs"
  proof (cases q)
    case (Inl e)
    note m = connect_refused_moves [OF W(1) con [unfolded Inl]]
    have "account_count h \<le> account_count (ss_hub ?st)"
      using account_count_shrinks [OF W(1) moves_inv [OF m W(1)]] m by (simp add: moves_def)
    with that [OF moves_inv [OF m W(1)]] handles_moved [OF W(2) m W(1)] show thesis by (simp add: hs_def wake Inl)
  next
    case (Inr p)
    obtain cid acts where p: "p = (cid, acts)" by fastforce
    have "res = Inr cid" using c con rc by (auto simp: connect_locked_def Let_def Inr p)
    with fits have g: "greeting_fits pe aid now rvk (ss_hub ?st)" by simp
    show thesis
      by (rule connect_joined [OF W(1) g con [unfolded Inr p] W(2), of hs wake]) (use that r in \<open>simp_all add: hs_def wake Inr p\<close>)
  qed
  note R = reconcile_exact [OF rc]
  have st1: "ss_accounts st1 = account_count h" "ss_hub st1 = h"
    "n + ss_accounts ?st + r = sh_accounts sh + account_count h" "n \<le> sh_accounts sh"
    using R P(1,2) h(2) W(3) i(2) by simp_all
  then have "shard_ok (st1\<lparr>ss_handles := hs\<rparr>) (owed i ?nt)" using h by (auto simp: shard_ok_def)
  then show ?thesis unfolding sh'
    by (rule server_inv_update [OF inv i(1)]) (use P(5) st1 i(2) W(3) in \<open>auto simp: lock_ok_def\<close>)
qed

text \<open>The writer's steps and a notification touch one handle, and a take empties the queue or leaves the writer taking.\<close>

lemma handle_step_inv:
  assumes inv: "server_inv (sh, lk, nt)" and i: "i < length lk" and st: "ss_accounts st = ss_accounts (sh_shards sh ! i)"
    "ss_hub st = ss_hub (sh_shards sh ! i)" and nt: "\<And>j. j \<noteq> i \<Longrightarrow> owed j nt' = owed j nt"
    and hs: "\<And>W. handles_ok (ss_hub st) W (owed i nt) (ss_handles (sh_shards sh ! i)) \<Longrightarrow> handles_ok (ss_hub st) W (owed i nt') (ss_handles st)"
  shows "server_inv (sh\<lparr>sh_shards := (sh_shards sh)[i := st]\<rparr>, lk, nt')"
proof -
  note P = shard_part [OF inv i]
  have "shard_ok st (owed i nt')" using P(3) st hs by (auto simp: shard_ok_def)
  then have "server_inv (sh\<lparr>sh_shards := (sh_shards sh)[i := st], sh_accounts := sh_accounts sh\<rparr>, lk[i := lk ! i], nt')"
    by (rule server_inv_update [OF inv i]) (use P st nt in \<open>auto simp: lock_ok_def\<close>)
  then show ?thesis by simp
qed

text \<open>A handle put back: what its new state must keep of the old, for a connection the relay knows and for its closing frame.\<close>

lemma put_handle_inv:
  assumes "server_inv (sh, lk, nt)" and "i < length lk" and hn: "map_of (ss_handles (sh_shards sh ! i)) cid = Some hn"
    and known: "map_of (hub_conn_account (ss_hub (sh_shards sh ! i))) cid \<noteq> None \<Longrightarrow> hn_closing hn = None \<Longrightarrow> hn_writer hn \<noteq> Finished \<Longrightarrow>
      hn_closing hn' = None \<and> hn_writer hn' \<noteq> Finished \<and> (has_writer P cid hn \<longrightarrow> has_writer P cid hn')"
    and closing: "hn_closing hn' = None \<or> hn_writer hn' \<noteq> Waiting"
    and P: "P = owed i nt"
  shows "server_inv (put_handle i cid hn' sh, lk, nt)"
  unfolding put_handle_def Let_def
proof (rule handle_step_inv [OF assms(1,2)])
  fix W assume "handles_ok (ss_hub ((sh_shards sh ! i)\<lparr>ss_handles := AList.update cid hn' (ss_handles (sh_shards sh ! i))\<rparr>)) W (owed i nt)
    (ss_handles (sh_shards sh ! i))"
  with hn known closing show "handles_ok (ss_hub ((sh_shards sh ! i)\<lparr>ss_handles := AList.update cid hn' (ss_handles (sh_shards sh ! i))\<rparr>)) W (owed i nt)
    (ss_handles ((sh_shards sh ! i)\<lparr>ss_handles := AList.update cid hn' (ss_handles (sh_shards sh ! i))\<rparr>))"
    unfolding handles_ok_def P by (auto simp: update_conv')
qed simp_all

lemma woken_inv: "server_inv (sh, lk, nt) \<Longrightarrow> i < length lk \<Longrightarrow> server_inv (writer_wakes i cid ping sh, lk, nt)"
  by (auto simp: writer_wakes_def has_writer_def split: option.split intro!: put_handle_inv [OF _ _ _ _ _ refl])

lemma flushed_inv: "server_inv (sh, lk, nt) \<Longrightarrow> i < length lk \<Longrightarrow> server_inv (writer_flushes i cid ok sh, lk, nt)"
  by (auto simp: writer_flushes_def has_writer_def split: option.split intro!: put_handle_inv [OF _ _ _ _ _ refl])

lemma told_inv: "server_inv (sh, lk, nt) \<Longrightarrow> i < length lk \<Longrightarrow> writer_closing i cid sh = (sh', m) \<Longrightarrow> server_inv (sh', lk, nt)"
  by (auto simp: writer_closing_def has_writer_def split: option.splits if_splits intro!: put_handle_inv [OF _ _ _ _ _ refl])

lemma aborted_inv:
  "server_inv (sh, lk, nt) \<Longrightarrow> i < length lk \<Longrightarrow> map_of (hub_conn_account (ss_hub (sh_shards sh ! i))) cid = None \<Longrightarrow>
   server_inv (writer_aborts i cid sh, lk, nt)"
  by (auto simp: writer_aborts_def split: option.split intro!: put_handle_inv [OF _ _ _ _ _ refl])

lemma removed_inv:
  assumes "server_inv (sh, lk, nt)" and "i < length lk" and "map_of (hub_conn_account (ss_hub (sh_shards sh ! i))) cid = None"
  shows "server_inv (remove_handle i cid sh, lk, nt)"
  unfolding remove_handle_def Let_def
  by (rule handle_step_inv [OF assms(1,2)]) (use assms(3) in \<open>auto simp: handles_ok_def delete_conv'\<close>)

lemma handles_notified:
  assumes "handles_ok h W P hs" and "P \<subseteq> insert c P'"
  shows "handles_ok h W P' (notify_one c hs)"
  unfolding handles_ok_def
proof (intro conjI allI impI)
  fix x assume "map_of (hub_conn_account h) x \<noteq> None"
  with assms(1) obtain hn where "map_of hs x = Some hn" "hn_closing hn = None" "hn_writer hn \<noteq> Finished" "x \<in> W \<longrightarrow> has_writer P x hn"
    unfolding handles_ok_def by blast
  with assms(2) show "\<exists>hn. map_of (notify_one c hs) x = Some hn \<and> hn_closing hn = None \<and> hn_writer hn \<noteq> Finished \<and> (x \<in> W \<longrightarrow> has_writer P' x hn)"
    by (auto simp: notify_one_lookup has_writer_def)
next
  fix x hn' assume "map_of (notify_one c hs) x = Some hn'" "hn_closing hn' \<noteq> None"
  then obtain hn where hn: "map_of hs x = Some hn" "hn_closing hn \<noteq> None" "hn_writer hn' = hn_writer hn" "hn_notified hn' = (hn_notified hn \<or> x = c)"
    by (auto simp: notify_one_lookup split: if_splits)
  then have "x \<in> P \<or> hn_notified hn \<or> hn_writer hn \<noteq> Waiting" using assms(1) unfolding handles_ok_def by blast
  with assms(2) hn show "x \<in> P' \<or> hn_notified hn' \<or> hn_writer hn' \<noteq> Waiting" by auto
qed

lemma notified_inv:
  assumes "server_inv (sh, lk, nt)" and "i < length lk"
  shows "server_inv (notify_conn i sh cid, lk, remove1 (i, cid) nt)"
  unfolding notify_conn_def Let_def
  by (rule handle_step_inv [OF assms]) (use owed_remove handles_notified in \<open>simp_all\<close>)

lemma take_outbound_accounts:
  "take_outbound pe cid b h = (h', t) \<Longrightarrow> dom (map_of (hub_accounts h')) = dom (map_of (hub_accounts h)) \<and> hub_conn_account h' = hub_conn_account h"
  by (auto simp: take_outbound_def put_account_def update_conv' Let_def split: option.splits prod.splits if_splits)

lemma writer_after_take_facts:
  "writer_after_take fed ok t \<noteq> Finished" "writer_after_take fed ok t \<noteq> Waiting"
  "tk_more t \<Longrightarrow> (\<exists>f. writer_after_take fed ok t = Draining f) \<or> writer_after_take fed ok t = Failed"
  by (auto simp: writer_after_take_def)

lemma taken_inv:
  assumes inv: "server_inv (sh, lk, nt)" and i: "i < length lk" "lk ! i = None" and c: "writer_takes pe i cid b ok sh = (sh', m)"
  shows "server_inv (sh', lk, nt)"
proof (cases "\<exists>hn fed. map_of (ss_handles (sh_shards sh ! i)) cid = Some hn \<and> hn_writer hn = Draining fed")
  case False
  with c have "sh' = sh" by (auto simp: writer_takes_def Let_def split: option.splits writer.splits)
  with inv show ?thesis by simp
next
  case True
  then obtain hn fed where Some: "map_of (ss_handles (sh_shards sh ! i)) cid = Some hn" and fed: "hn_writer hn = Draining fed" by blast
  let ?st = "sh_shards sh ! i"
  note P = shard_part [OF inv i(1)]
  obtain W where W: "run_inv (ss_hub ?st, W)" "handles_ok (ss_hub ?st) W (owed i nt) (ss_handles ?st)" "ss_accounts ?st = account_count (ss_hub ?st)"
    using P(3) by (auto simp: shard_ok_def)
  obtain h t where t: "take_outbound pe cid b (ss_hub ?st) = (h, t)" by fastforce
  let ?hn = "hn\<lparr>hn_writer := writer_after_take fed ok t\<rparr>"
  define st where "st = ?st\<lparr>ss_hub := h, ss_handles := AList.update cid ?hn (ss_handles ?st)\<rparr>"
  have sh': "sh' = sh\<lparr>sh_shards := (sh_shards sh)[i := st], sh_accounts := sh_accounts sh\<rparr>"
    using c Some fed t by (auto simp: writer_takes_def Let_def st_def)
  note A = take_outbound_accounts [OF t]
  let ?W = "if tk_more t then W else W - {cid}"
  have inv': "run_inv (h, ?W)" by (rule hub_step_inv [OF hub_step.taken [OF t] W(1)])
  have "account_count h = account_count (ss_hub ?st)"
    using account_count_dom [OF inv'] account_count_dom [OF W(1)] A by simp
  moreover have "handles_ok h ?W (owed i nt) (ss_handles st)"
    using W(2) A Some writer_after_take_facts [where fed = fed and ok = ok and t = t] unfolding handles_ok_def st_def
    by (auto simp: update_conv' has_writer_def)
  ultimately have st: "shard_ok st (owed i nt)" "ss_accounts st = ss_accounts ?st" using inv' W(3) by (auto simp: shard_ok_def st_def)
  have "server_inv (sh', lk[i := None], nt)" unfolding sh'
    by (rule server_inv_update [OF inv i(1) st(1)]) (use st(2) i(2) P(5) in \<open>auto simp: lock_ok_def\<close>)
  then show ?thesis using i(2) by (metis list_update_id)
qed

lemma server_step_inv: "server_step pe s t \<Longrightarrow> server_inv s \<Longrightarrow> server_inv t"
  by (induction rule: server_step.induct)
    (auto intro: reserved_inv admitted_inv called_inv notified_inv woken_inv taken_inv flushed_inv told_inv aborted_inv removed_inv)

lemma server_start_inv:
  assumes "server_start s"
  shows "server_inv s"
proof -
  obtain cfg cores seed where n: "shared_new cfg cores seed = Inr (fst s)" "max_accounts (cg_limits cfg) < 2 ^ 64"
    "0 < max_connections_per_account (cg_limits cfg)" "snd s = (replicate (length (sh_shards (fst s))) None, [])"
    using assms by (auto simp: server_start_def)
  let ?l = "(cg_limits cfg)\<lparr>max_accounts := 2 ^ 64 - 1\<rparr>"
  obtain shards where sh: "map (shard_new ?l seed) [0..<shard_count cores cfg] = map Inr shards"
    "fst s = \<lparr>sh_shards = shards, sh_accounts = 0, sh_max_accounts = max_accounts (cg_limits cfg)\<rparr>"
    using n(1) by (auto simp: shared_new_def Let_def result_ok collect_ok_map)
  have "shard_ok st {} \<and> ss_accounts st = 0" if "st \<in> set shards" for st
  proof -
    have "Inr st \<in> set (map (shard_new ?l seed) [0..<shard_count cores cfg])" unfolding sh(1) using that by simp
    then obtain j where "shard_new ?l seed j = Inr st" by force
    then obtain h where h: "with_id_space ?l (seed + of_nat j) j = Inr h" "st = \<lparr>ss_hub = h, ss_handles = [], ss_accounts = 0\<rparr>"
      by (auto simp: shard_new_def split: sum.splits config_error.splits)
    have "run_inv (h, {})" using hub_start_inv [of "(h, {})"] h(1) n(3) by (force simp: hub_start_def)
    moreover have "hub_accounts h = []" "hub_conn_account h = []" using h(1) by (auto simp: with_id_space_def split: if_splits)
    ultimately show ?thesis using h(2) by (auto simp: shard_ok_def handles_ok_def account_count_def)
  qed
  moreover from this have "sum_list (map ss_accounts shards) = 0" by simp
  ultimately show ?thesis using sh(2) n(2,4)
    by (cases s) (auto simp: server_inv_def lock_ok_def map_replicate_const sum_list_replicate)
qed

interpretation server_runs: invariant_machine server_start "server_step pe" server_inv
  by unfold_locales (auto intro: server_start_inv server_step_inv)

section \<open>What the server promises\<close>

text \<open>C6. The account limit holds across shards. However connects, frames and departures on any number of shards interleave, also between a
  reservation and the admission it is for, the relays together never hold more accounts than the configured limit; and while no
  connect is under way the shared counter is exactly their number, so no place is lost and none is given twice.\<close>

theorem the_account_limit_holds_across_shards:
  assumes "reach server_start (server_step pe) (sh, lk, nt)"
  shows "sum_list (map (account_count \<circ> ss_hub) (sh_shards sh)) \<le> sh_max_accounts sh
    \<and> (list_all (\<lambda>l. l = None) lk \<longrightarrow> sh_accounts sh = sum_list (map (account_count \<circ> ss_hub) (sh_shards sh)))"
proof -
  note inv = server_runs.reach_inv [OF assms]
  have "map ss_accounts (sh_shards sh) = map (account_count \<circ> ss_hub) (sh_shards sh)"
    using inv by (intro nth_equalityI) (auto simp: server_inv_def shard_ok_def)
  then have "sh_accounts sh = sum_list (map (account_count \<circ> ss_hub) (sh_shards sh)) + sum_list (map held lk)"
    using inv by (simp only: server_inv_def Let_def prod.case)
  moreover have "sum_list (map held lk) = 0" if "list_all (\<lambda>l. l = None) lk" using that by (induction lk) simp_all
  moreover have "sh_accounts sh \<le> sh_max_accounts sh" using inv by (simp add: server_inv_def)
  ultimately show ?thesis by linarith
qed

lemma run_inv_queued:
  assumes "run_inv (h, W)" and "queued c h \<noteq> 0"
  shows "c \<in> W" "map_of (hub_conn_account h) c \<noteq> None"
proof -
  from assms(2) obtain aid a cn where c: "map_of (hub_conn_account h) c = Some aid" "map_of (hub_accounts h) aid = Some a"
    "map_of (a_conns a) c = Some cn" "o_items (c_out cn) \<noteq> []"
    by (auto simp: queued_def split: option.splits)
  have "hub_check (hub_limits h) h W" using hub_inv_check assms(1) by (simp add: run_inv_def)
  then have "check_account (hub_limits h) h W (aid, a)" using map_of_SomeD [OF c(2)] by (auto simp: hub_check_def list_all_iff)
  then have "check_conn (hub_limits h) h aid a W (c, cn)" using map_of_SomeD [OF c(3)] by (auto simp: check_account_def list_all_iff)
  then show "c \<in> W" using c(4) by (auto simp: check_conn_def outbound_is_empty_def)
  show "map_of (hub_conn_account h) c \<noteq> None" using c(1) by simp
qed

text \<open>C7. Nothing queued is stranded, and no closing frame is. Whatever the order of calls, wake-ups, takes, failures and departures, also between the
  release of a shard's lock and the wake-ups a task then gives: a connection with frames in its queue has a handle with no closing frame in it, and
  for its writer a notification is owed by some task or waiting, or it is taking frames and has not been told that nothing is left, or it has
  ended because the socket failed, never because it thought itself done. And a connection left a closing frame has a notification owed or waiting, or
  a writer that is past its wait and will come to look for it or has ended.\<close>

theorem queued_frames_have_a_writer:
  assumes "reach server_start (server_step pe) (sh, lk, nt)" and "i < length (sh_shards sh)"
  shows "(queued c (ss_hub (sh_shards sh ! i)) \<noteq> 0 \<longrightarrow>
      (\<exists>hn. map_of (ss_handles (sh_shards sh ! i)) c = Some hn \<and> hn_closing hn = None
         \<and> ((i, c) \<in> set nt \<or> hn_notified hn \<or> (\<exists>fed. hn_writer hn = Draining fed) \<or> hn_writer hn = Failed)))
    \<and> (\<forall>hn f. map_of (ss_handles (sh_shards sh ! i)) c = Some hn \<longrightarrow> hn_closing hn = Some f \<longrightarrow>
         (i, c) \<in> set nt \<or> hn_notified hn \<or> hn_writer hn \<noteq> Waiting)"
proof -
  let ?st = "sh_shards sh ! i"
  have "shard_ok ?st (owed i nt)" using server_runs.reach_inv [OF assms(1)] assms(2) by (simp add: server_inv_def)
  then obtain W where W: "run_inv (ss_hub ?st, W)" "handles_ok (ss_hub ?st) W (owed i nt) (ss_handles ?st)"
    by (auto simp: shard_ok_def)
  show ?thesis
  proof (intro conjI impI allI)
    assume "queued c (ss_hub ?st) \<noteq> 0"
    from run_inv_queued [OF W(1) this] W(2) obtain hn where "map_of (ss_handles ?st) c = Some hn" "hn_closing hn = None" "has_writer (owed i nt) c hn"
      by (auto simp: handles_ok_def)
    then show "\<exists>hn. map_of (ss_handles ?st) c = Some hn \<and> hn_closing hn = None
      \<and> ((i, c) \<in> set nt \<or> hn_notified hn \<or> (\<exists>fed. hn_writer hn = Draining fed) \<or> hn_writer hn = Failed)"
      by (auto simp: has_writer_def owed_def)
  next
    fix hn f assume "map_of (ss_handles ?st) c = Some hn" "hn_closing hn = Some f"
    with W(2) show "(i, c) \<in> set nt \<or> hn_notified hn \<or> hn_writer hn \<noteq> Waiting" by (auto simp: handles_ok_def owed_def)
  qed
qed

text \<open>A connection a relay closes is never woken in the same call.\<close>

lemma finish_closed_not_woken: "finish pe hf = (h', acts) \<Longrightarrow> Close c f \<in> set acts \<Longrightarrow> Wake c \<notin> set acts"
  by (force simp: finish_def split: prod.splits)

lemma connect_closed_not_woken:
  assumes "connect pe aid hello now mno rvk h = (h', Inr (cid, acts))" and "Close c f \<in> set acts"
  shows "Wake c \<notin> set acts"
proof -
  obtain h1 where "admit pe aid hello now mno rvk h1 = (h', cid, acts)"
    using assms(1) by (auto simp: connect_def split: option.splits if_splits prod.splits)
  from admit_joined [OF this] assms(2) show ?thesis using finish_closed_not_woken by blast
qed

text \<open>C39. A connection that a newcomer's presence pushes past its queue bound is closed by the relay and never told. Any other call that closes a
  connection leaves it the closing frame and wakes its writer; this one does neither: its handle stays exactly as it was, the relay no
  longer knows it and ignores everything it sends, and its socket stays open, kept alive by the answers to its pings.\<close>

theorem a_connection_closed_by_a_newcomer_is_not_told:
  assumes "reach server_start (server_step pe) (sh, lk, nt)" and "i < length lk" and "lk ! i = Some (aid, r)"
    and "greeting_fits pe aid now rvk (ss_hub (sh_shards sh ! i))"
    and "connect pe aid hello now clock rvk (ss_hub (sh_shards sh ! i)) = (h, Inr (cid, acts))"
    and "Close c f \<in> set acts" and "c \<noteq> cid" and "map_of (ss_handles (sh_shards sh ! i)) c = Some hn"
  shows "\<exists>sh'. connect_admit pe i r aid hello now clock rvk sh = (sh', Inr cid)
    \<and> map_of (ss_handles (sh_shards sh' ! i)) c = Some hn
    \<and> map_of (hub_conn_account (ss_hub (sh_shards sh' ! i))) c = None
    \<and> receive pe c g (ss_hub (sh_shards sh' ! i)) = (ss_hub (sh_shards sh' ! i), [])"
proof -
  let ?st = "sh_shards sh ! i"
  have i: "i < length (sh_shards sh)" and ok: "shard_ok ?st (owed i nt)"
    using server_runs.reach_inv [OF assms(1)] assms(2) by (auto simp: server_inv_def)
  from ok obtain W where "run_inv (ss_hub ?st, W)" by (auto simp: shard_ok_def)
  then have gone: "map_of (hub_conn_account h) c = None"
    using connect_inv [OF _ _ assms(4,5)] assms(6) by (auto simp: run_inv_def)
  obtain st1 n where rc: "reconcile_accounts (?st\<lparr>ss_hub := h\<rparr>) r (sh_accounts sh) = (st1, n)" by fastforce
  then have st1: "ss_hub st1 = h" "ss_handles st1 = ss_handles ?st" by (auto simp: reconcile_accounts_def Let_def)
  show ?thesis
    using connect_closed_not_woken [OF assms(5,6)] assms(5,7,8) i rc st1 gone
    by (auto simp: connect_admit_def connect_locked_def Let_def notify_all_lookup notify_all_hub wakes_set update_conv' receive_def)
qed

text \<open>The prices of a message, from the middle of it.\<close>

lemma chunk_prices_sum:
  assumes "rest * (p div f) \<le> left" and "0 < rest"
  shows "sum_list (map snd (chunk_prices p f left rest)) = left \<and> sum_list (map fst (chunk_prices p f left rest)) = rest
    \<and> (\<forall>x \<in> set (chunk_prices p f left rest). 0 < fst x \<and> fst x \<le> RECEIVE_CHUNK)"
  using assms
proof (induction p f left rest rule: chunk_prices.induct)
  case (1 p f left rest)
  define n where "n = min RECEIVE_CHUNK rest"
  define share where "share = share_of p f left n (rest - n)"
  have n: "0 < n" "n \<le> rest" "n \<le> RECEIVE_CHUNK" using 1(3) by (auto simp: n_def RECEIVE_CHUNK_def)
  have unfold: "chunk_prices p f left rest = (n, share) # chunk_prices p f (left - share) (rest - n)"
    using 1(3) by (subst chunk_prices.simps) (simp add: n_def share_def Let_def)
  show ?case
  proof (cases "rest - n = 0")
    case True
    then show ?thesis using n unfold by (simp add: share_def share_of_def chunk_prices.simps [of _ _ _ 0])
  next
    case False
    then have share: "share = p div f * n" by (simp add: share_def share_of_def)
    have "rest * (p div f) = n * (p div f) + (rest - n) * (p div f)" using n(2) by (metis add_mult_distrib le_add_diff_inverse)
    then have le: "share \<le> left" "(rest - n) * (p div f) \<le> left - share" using 1(2) share by (simp_all add: mult.commute)
    from 1(1) [OF _ n_def share_def le(2)] 1(3) False unfold n le show ?thesis by auto
  qed
qed

text \<open>A message is charged exactly once. However many frames it carries, they are taken in chunks of one to sixteen, in order, and the shares
  its chunks are charged add up to the bytes of the message, with no remainder lost to the division and none charged twice; every
  subtraction from what is left stays above zero.\<close>

theorem a_message_is_charged_once:
  assumes "0 < frames"
  shows "sum_list (map snd (chunk_prices pending frames pending frames)) = pending
    \<and> sum_list (map fst (chunk_prices pending frames pending frames)) = frames
    \<and> (\<forall>x \<in> set (chunk_prices pending frames pending frames). 0 < fst x \<and> fst x \<le> RECEIVE_CHUNK)"
  by (rule chunk_prices_sum) (use assms in simp_all)

section \<open>An example\<close>

text \<open>Two connections of one account on a hub of one shard, whose first has a welcome and a reply waiting when the second connects.\<close>

definition room_enc :: "frame \<Rightarrow> bytes" where
  "room_enc f = replicate (case frame_body f of Some (BWelcome _) \<Rightarrow> 20 | _ \<Rightarrow> 12) 0"

definition room_config :: config where
  "room_config = config_default\<lparr>cg_limits := tiny_limits, cg_shards := 1\<rparr>"

definition room_hub :: hub where
  "room_hub = \<lparr>hub_limits = tiny_limits\<lparr>max_accounts := 2 ^ 64 - 1\<rparr>, hub_accounts = [], hub_conn_account = [], hub_next_conn = 1,
     hub_epoch_state = 5, hub_clock = 0\<rparr>"

definition room_reply :: frame where "room_reply = Frame (Some (BPaired \<lparr>pd_offer = [], pd_answer = []\<rparr>))"

definition room_joined :: hub where "room_joined = fst (connect room_enc [9] first_hello 0 0 RevokerUnknown room_hub)"
definition room_full :: hub where "room_full = fst (deliver room_enc 1 room_reply room_joined)"

definition second_hello :: hello where "second_hello = first_hello\<lparr>h_principal := [2]\<rparr>"

lemma room_frames: "length (encode_frame room_enc f) = (case frame_body f of Some (BWelcome _) \<Rightarrow> 21 | _ \<Rightarrow> 13)"
proof -
  have "varint 20 = [20]" "varint 12 = [12]" by (simp_all add: varint_last)
  then show ?thesis by (simp add: encode_frame_def write_varint_eq room_enc_def split: option.split body.split)
qed

lemmas room_defs = second_hello_def room_full_def room_joined_def deliver_def room_hub_def room_reply_def enqueue_def pushed_or_closed_def
  put_conn_def push_frame_def outbound_push_def frame_item_def room_frames outbound_default_def connect_def connect_refusal_def
  first_hello_def tiny_limits_def PROTOCOL_def role_of_i32_def connect_debt_def CONNECT_REFUSED_ABOVE_MS_def account_new_def greeted_def
  welcome_of_def conn_arm_def effects_wake_def effects_default_def put_account_def presentable_def MAX_PRESENCE_CHAIN_BYTES_def
  revoker_fields_def bucket_spend_def bucket_refill_def bucket_wait_ms_def CONNECT_COST_BYTES_def FRAME_COST_BYTES_def bucket_new_def
  sat_i128_def MILLI_def I128_MAX_def I128_MIN_def presence_of_def fx_push_close_def admit_def Let_def finish_nothing

lemma finish_closes:
  assumes "finish pe (h, fx) = (h', acts)" and "fx_close fx \<noteq> []" and "last (fx_close fx) = (c, f)" and "map_of (hub_conn_account h) c \<noteq> None"
  shows "Close c f \<in> set acts"
proof -
  obtain closed h1 fx1 where loop: "finish_loop pe [] (h, fx) = (closed, h1, fx1)" by (metis prod_cases3)
  then have "finish_loop pe [(c, f)] (forget pe c (h, fx\<lparr>fx_close := butlast (fx_close fx)\<rparr>)) = (closed, h1, fx1)"
    using assms(2-4) by (simp add: finish_loop.simps [of pe "[]"])
  from finish_loop_closed [OF this] have "(c, f) \<in> set closed" by simp
  with assms(1) loop show ?thesis by (force simp: finish_def)
qed

lemma room_connects: "connect room_enc [9] first_hello 0 0 RevokerUnknown room_hub = (room_joined, Inr (1, [Wake 1]))"
  by (simp add: room_defs)

lemma room_delivers: "deliver room_enc 1 room_reply room_joined = (room_full, [])"
  by (simp add: room_defs)

lemma room_closes:
  "\<exists>h' acts f. connect room_enc [9] second_hello 0 10000 RevokerUnknown room_full = (h', Inr (2, acts)) \<and> Close 1 f \<in> set acts"
  by (simp add: room_defs split: prod.split) (auto dest: finish_closes)

lemma room_fits: "greeting_fits room_enc [9] 0 RevokerUnknown room_hub" "greeting_fits room_enc [9] 0 RevokerUnknown room_full"
  by (simp_all add: greeting_fits_def greeting_def room_defs)

lemma room_counts: "account_count room_hub = 0" "account_count room_joined = 1" "account_count room_full = 1"
  "has_account [9] room_full" "\<not> has_account [9] room_hub" "queued 1 room_full \<noteq> 0"
  by (simp_all add: account_count_def has_account_def queued_def room_defs)

definition room :: "hub \<Rightarrow> handles \<Rightarrow> nat \<Rightarrow> shared" where
  "room h hs n = \<lparr>sh_shards = [\<lparr>ss_hub = h, ss_handles = hs, ss_accounts = account_count h\<rparr>], sh_accounts = n, sh_max_accounts = 2\<rparr>"

definition room_handles :: handles where
  "room_handles = [(1, handle_default)]"

lemma room_start: "server_start (room room_hub [] 0, [None], [])"
proof -
  have "with_id_space (tiny_limits\<lparr>max_accounts := 2 ^ 64 - 1\<rparr>) 5 0 = Inr room_hub"
    by (simp add: with_id_space_def room_hub_def tiny_limits_def)
  then have "shared_new room_config None 5 = Inr (room room_hub [] 0)"
    by (simp add: shared_new_def room_config_def config_default_def shard_count_def shard_new_def room_def room_counts)
      (simp add: tiny_limits_def)
  then show ?thesis unfolding server_start_def
    by (intro exI [of _ room_config] exI [of _ None] exI [of _ 5]) (simp add: room_config_def tiny_limits_def room_def)
qed

text \<open>The welcome's wake-up is still owed when the reply comes and the second connect has the lock.\<close>

lemma room_reachable: "reach server_start (server_step room_enc) (room room_full room_handles 1, [Some ([9], 0)], [(0, 1)])"
proof -
  let ?r = "reach server_start (server_step room_enc)"
  note go = reach_step [where start = server_start and step = "server_step room_enc"]
  have "connect_reserve 0 [9] (room room_hub [] 0) = (room room_hub [] 1, Some 1)"
    by (simp add: connect_reserve_def room_def room_counts)
  then have "server_step room_enc (room room_hub [] 0, [None], []) (room room_hub [] 1, [Some ([9], 1)], [])"
    using server_step.reserved [of 0 "[None]"] by simp
  from go [OF reach_start [where start = server_start, OF room_start] this]
  have a: "?r (room room_hub [] 1, [Some ([9], 1)], [])" .
  have "connect_locked room_enc 0 1 [9] first_hello 0 0 RevokerUnknown (room room_hub [] 1) = (room room_joined room_handles 1, Inr 1, [1])"
    using room_connects by (simp add: connect_locked_def room_def reconcile_accounts_def room_counts room_handles_def)
  then have "server_step room_enc (room room_hub [] 1, [Some ([9], 1)], []) (room room_joined room_handles 1, [None], [(0, 1)])"
    using server_step.admitted [of 0 "[Some ([9], 1)]" "[9]" 1 room_enc 0 RevokerUnknown "room room_hub [] 1" "Inr 1" first_hello 0
      "room room_joined room_handles 1" "[1]" "[]"] room_fits(1)
    by (simp add: room_def)
  from go [OF a this] have b: "?r (room room_joined room_handles 1, [None], [(0, 1)])" .
  have "on_shard_locked 0 (do_call room_enc (DoDeliver 1 room_reply)) (room room_joined room_handles 1) = (room room_full room_handles 1, (0, []), [])"
    using room_delivers by (simp add: on_shard_locked_def room_def reconcile_accounts_def room_counts)
  then have "server_step room_enc (room room_joined room_handles 1, [None], [(0, 1)]) (room room_full room_handles 1, [None], [(0, 1)])"
    using server_step.called [of 0 "[None]" room_enc _ _ _ _ "[]" "[(0, 1)]"] by simp
  from go [OF b this] have c: "?r (room room_full room_handles 1, [None], [(0, 1)])" .
  have "connect_reserve 0 [9] (room room_full room_handles 1) = (room room_full room_handles 1, Some 0)"
    by (simp add: connect_reserve_def room_def room_counts)
  then have "server_step room_enc (room room_full room_handles 1, [None], [(0, 1)]) (room room_full room_handles 1, [Some ([9], 0)], [(0, 1)])"
    using server_step.reserved [of 0 "[None]"] by simp
  from go [OF c this] show ?thesis .
qed

theorem the_account_limit_holds_across_shards_witness: "account_count room_full \<le> 2"
  using the_account_limit_holds_across_shards [OF room_reachable] by (simp add: room_def)

theorem queued_frames_have_a_writer_witness:
  "\<exists>hn. map_of (ss_handles (sh_shards (room room_full room_handles 1) ! 0)) 1 = Some hn \<and> hn_closing hn = None"
proof -
  have "queued 1 (ss_hub (sh_shards (room room_full room_handles 1) ! 0)) \<noteq> 0" using room_counts(6) by (simp add: room_def)
  with queued_frames_have_a_writer [OF room_reachable, of 0 1] show ?thesis by (auto simp: room_def)
qed

theorem a_connection_closed_by_a_newcomer_is_not_told_witness:
  "\<exists>sh'. connect_admit room_enc 0 0 [9] second_hello 0 10000 RevokerUnknown (room room_full room_handles 1) = (sh', Inr 2)
     \<and> map_of (ss_handles (sh_shards sh' ! 0)) 1 = Some handle_default
     \<and> map_of (hub_conn_account (ss_hub (sh_shards sh' ! 0))) 1 = None
     \<and> receive room_enc 1 room_reply (ss_hub (sh_shards sh' ! 0)) = (ss_hub (sh_shards sh' ! 0), [])"
proof -
  obtain h' acts f where c: "connect room_enc [9] second_hello 0 10000 RevokerUnknown room_full = (h', Inr (2, acts))" "Close 1 f \<in> set acts"
    using room_closes by blast
  show ?thesis
    by (rule a_connection_closed_by_a_newcomer_is_not_told [OF room_reachable _ _ _ _ c(2)])
      (use c(1) room_fits(2) in \<open>simp_all add: room_def room_handles_def\<close>)
qed

theorem a_message_is_charged_once_witness:
  "sum_list (map snd (chunk_prices 1000 37 1000 37)) = 1000 \<and> sum_list (map fst (chunk_prices 1000 37 1000 37)) = 37"
  using a_message_is_charged_once [of 37 1000] by simp

end
