(* ===== verification/Registry.thy ===== *)
theory Registry
  imports Forwarded "HOL-Library.List_Lexorder" "HOL-Library.Char_ord"
begin

text \<open>
  Which accounts a hub serves, \<open>crates/hub/src/registry.rs\<close>: the state directory as four maps from file
  names to contents, the in-memory window of open registrations, and every operation on them. The
  hash (\<open>sha\<close>) is a parameter, and so is the disk: \<open>fault\<close> says which operation on which file fails, and how.
\<close>

section \<open>State\<close>

datatype registration = Invite | Open

definition registration_from_str :: "string \<Rightarrow> string + registration" where
  "registration_from_str s =
     (if s = ''invite'' then Inr Invite else if s = ''open'' then Inr Open
      else Inl (''registration must be `invite` or `open`, not `'' @ s @ ''`''))"

record open_limits =
  per_address :: nat
  total :: nat
  window_ms :: nat

definition open_limits_default :: open_limits where
  "open_limits_default = \<lparr>per_address = 3, total = 60, window_ms = 3600 * 1000\<rparr>"

datatype refusal = InviteRequired | InviteInvalid | RateLimited | Storage string

datatype admission = Known | Registered

datatype revoker_claim = Held | Second string nat

record signer =
  sg_principal :: string
  sg_since_ms :: nat
  sg_until_ms :: nat
  sg_certificate :: bytes

record window =
  w_started_ms :: nat
  w_total :: nat
  w_by_address :: "(ip_addr \<times> nat) list"

definition window_default :: window where
  "window_default = \<lparr>w_started_ms = 0, w_total = 0, w_by_address = []\<rparr>"

type_synonym dir = "(string \<times> string) list"

text \<open>The state directory, one list of files a folder, and the registry a running hub opens over it.\<close>

record state_dir =
  rg_accounts :: dir
  rg_invites :: dir
  rg_used :: dir
  rg_revokers :: dir

record registry = state_dir +
  rg_mode :: registration
  rg_open :: open_limits
  rg_window :: window

datatype io_op = OpMkdir | OpList | OpStat | OpRead | OpCreateNew | OpCreate | OpWrite | OpRemove | OpRename

type_synonym disk = "io_op \<Rightarrow> string \<Rightarrow> string option"

abbreviation U64_LIM :: nat where "U64_LIM \<equiv> 2 ^ 64 - 1"

definition registry_new :: "registration \<Rightarrow> open_limits \<Rightarrow> dir \<Rightarrow> dir \<Rightarrow> dir \<Rightarrow> dir \<Rightarrow> registry" where
  "registry_new mode lims accounts invites used revokers =
     \<lparr>rg_accounts = accounts, rg_invites = invites, rg_used = used, rg_revokers = revokers,
      rg_mode = mode, rg_open = lims, rg_window = window_default\<rparr>"

text \<open>A folder that is not there reads as an empty one, so making the folders shows only where it fails.\<close>

definition registry_open :: "disk \<Rightarrow> registration \<Rightarrow> open_limits \<Rightarrow> state_dir \<Rightarrow> string + registry" where
  "registry_open fault mode lims d =
     (case List.map_filter (fault OpMkdir) [''accounts'', ''invites'', ''invites-used'', ''revokers''] of
        e # _ \<Rightarrow> Inl e
      | [] \<Rightarrow> Inr (registry_new mode lims (rg_accounts d) (rg_invites d) (rg_used d) (rg_revokers d)))"

section \<open>Admission\<close>

text \<open>
  \<open>create_new\<close> is exclusive: it fails on a file that is there, whoever created it. What was written
  comes after, and may fail with the file left behind.
\<close>

datatype created = Fresh | AlreadyExists | Failed string

definition create_new :: "disk \<Rightarrow> string \<Rightarrow> string \<Rightarrow> dir \<Rightarrow> created" where
  "create_new fault folder name d =
     (case fault OpCreateNew (folder @ name) of
        Some e \<Rightarrow> Failed e
      | None \<Rightarrow> if map_of d name = None then Fresh else AlreadyExists)"

definition take_open_slot :: "ip_addr \<Rightarrow> nat \<Rightarrow> registry \<Rightarrow> registry \<times> (refusal + unit)" where
  "take_open_slot address now_ms r =
     (let w0 = rg_window r; lims = rg_open r;
          w = (if now_ms - w_started_ms w0 \<ge> window_ms lims then window_default\<lparr>w_started_ms := now_ms\<rparr> else w0);
          mine = (case map_of (w_by_address w) address of Some n \<Rightarrow> n | None \<Rightarrow> 0)
      in if mine \<ge> per_address lims \<or> w_total w \<ge> total lims
         then (r\<lparr>rg_window := w\<rparr>, Inl RateLimited)
         else (r\<lparr>rg_window := w\<lparr>w_by_address := AList.update address (mine + 1) (w_by_address w),
                                 w_total := w_total w + 1\<rparr>\<rparr>, Inr ()))"

text \<open>The three steps of \<open>consume_invite\<close>: read the invite, claim it, tidy up and look at its expiry.\<close>

definition invite_expires :: "string \<Rightarrow> nat" where
  "invite_expires text = (case parse_nat U64_LIM (trim text) of Some n \<Rightarrow> n | None \<Rightarrow> 0)"

definition read_invite :: "disk \<Rightarrow> string \<Rightarrow> registry \<Rightarrow> refusal + nat" where
  "read_invite fault hash r =
     (case fault OpRead (''invites/'' @ hash) of
        Some e \<Rightarrow> Inl (Storage e)
      | None \<Rightarrow> (case map_of (rg_invites r) hash of
                  None \<Rightarrow> Inl InviteInvalid
                | Some text \<Rightarrow> Inr (invite_expires text)))"

definition claim_invite :: "disk \<Rightarrow> string \<Rightarrow> nat \<Rightarrow> registry \<Rightarrow> registry \<times> (refusal + unit)" where
  "claim_invite fault hash now_ms r =
     (case create_new fault ''invites-used/'' hash (rg_used r) of
        Fresh \<Rightarrow>
          (let text = (if fault OpWrite (''invites-used/'' @ hash) = None then ''claimed_ms='' @ show_nat now_ms @ [CHR 10] else [])
           in (r\<lparr>rg_used := AList.update hash text (rg_used r)\<rparr>, Inr ()))
      | AlreadyExists \<Rightarrow> (r, Inl InviteInvalid)
      | Failed e \<Rightarrow> (r, Inl (Storage e)))"

definition tidy_invite :: "disk \<Rightarrow> string \<Rightarrow> registry \<Rightarrow> registry" where
  "tidy_invite fault hash r =
     (if fault OpRemove (''invites/'' @ hash) = None then r\<lparr>rg_invites := AList.delete hash (rg_invites r)\<rparr> else r)"

definition consume_invite :: "disk \<Rightarrow> (bytes \<Rightarrow> bytes) \<Rightarrow> bytes \<Rightarrow> nat \<Rightarrow> registry \<Rightarrow> registry \<times> (refusal + unit)" where
  "consume_invite fault sha invite now_ms r =
     (let hash = hex (sha invite) in
      case read_invite fault hash r of
        Inl e \<Rightarrow> (r, Inl e)
      | Inr expires \<Rightarrow>
          (case claim_invite fault hash now_ms r of
             (r1, Inl e) \<Rightarrow> (r1, Inl e)
           | (r1, Inr _) \<Rightarrow>
               let r2 = tidy_invite fault hash r1
               in if now_ms > expires then (r2, Inl InviteInvalid) else (r2, Inr ())))"

definition how_text :: "registration \<Rightarrow> string" where
  "how_text mode = (case mode of Invite \<Rightarrow> ''invite'' | Open \<Rightarrow> ''open'')"

definition register_account :: "disk \<Rightarrow> bytes \<Rightarrow> nat \<Rightarrow> registry \<Rightarrow> registry \<times> (refusal + admission)" where
  "register_account fault account now_ms r =
     (let name = hex account; path = ''accounts/'' @ name in
      case create_new fault ''accounts/'' name (rg_accounts r) of
        Fresh \<Rightarrow>
          (case fault OpWrite path of
             None \<Rightarrow> (r\<lparr>rg_accounts := AList.update name (''registered_ms='' @ show_nat now_ms @ [CHR 10] @ ''via='' @ how_text (rg_mode r) @ [CHR 10])
                         (rg_accounts r)\<rparr>, Inr Registered)
           | Some e \<Rightarrow> (r\<lparr>rg_accounts := AList.update name [] (rg_accounts r)\<rparr>, Inl (Storage e)))
      | AlreadyExists \<Rightarrow> (r, Inr Known)
      | Failed e \<Rightarrow> (r, Inl (Storage e)))"

text \<open>\<open>Path::exists\<close> is false when the file cannot be looked at.\<close>

definition account_exists :: "disk \<Rightarrow> bytes \<Rightarrow> registry \<Rightarrow> bool" where
  "account_exists fault account r \<longleftrightarrow>
     fault OpStat (''accounts/'' @ hex account) = None \<and> map_of (rg_accounts r) (hex account) \<noteq> None"

definition registry_admit ::
    "disk \<Rightarrow> (bytes \<Rightarrow> bytes) \<Rightarrow> bytes \<Rightarrow> bytes \<Rightarrow> ip_addr \<Rightarrow> nat \<Rightarrow> registry \<Rightarrow> registry \<times> (refusal + admission)" where
  "registry_admit fault sha account invite address now_ms r =
     (if account_exists fault account r then (r, Inr Known)
      else case (case rg_mode r of
                   Invite \<Rightarrow> if invite = [] then (r, Inl InviteRequired) else consume_invite fault sha invite now_ms r
                 | Open \<Rightarrow> take_open_slot address now_ms r) of
             (r1, Inl e) \<Rightarrow> (r1, Inl e)
           | (r1, Inr _) \<Rightarrow> register_account fault account now_ms r1)"

section \<open>The signer of an account's revocations\<close>

fun read_line :: "string \<Rightarrow> string option \<times> nat option \<times> nat option \<times> bytes option
    \<Rightarrow> string option \<times> nat option \<times> nat option \<times> bytes option" where
  "read_line line (p, since, until, cert) =
     (case split_once CHR ''='' line of
        None \<Rightarrow> (p, since, until, cert)
      | Some (k, v) \<Rightarrow>
          if k = ''principal'' \<and> is_hex v 64 then (Some v, since, until, cert)
          else if k = ''since_ms'' then (p, parse_nat U64_LIM (trim v), until, cert)
          else if k = ''until_ms'' then (p, since, parse_nat U64_LIM (trim v), cert)
          else if k = ''certificate'' then (p, since, until, unhex v)
          else (p, since, until, cert))"

definition parse_revoker :: "string \<Rightarrow> signer option" where
  "parse_revoker text =
     (case fold read_line (text_lines text) (None, None, None, None) of
        (Some p, Some since, Some until, Some cert) \<Rightarrow>
          Some \<lparr>sg_principal = p, sg_since_ms = since, sg_until_ms = until, sg_certificate = cert\<rparr>
      | _ \<Rightarrow> None)"

definition read_revoker :: "disk \<Rightarrow> string \<Rightarrow> 'a state_dir_scheme \<Rightarrow> signer option" where
  "read_revoker fault name r =
     (if fault OpRead (''revokers/'' @ name) \<noteq> None then None
      else case map_of (rg_revokers r) name of None \<Rightarrow> None | Some text \<Rightarrow> parse_revoker text)"

definition revoker_text :: "signer \<Rightarrow> string" where
  "revoker_text s =
     ''principal='' @ sg_principal s @ [CHR 10] @ ''since_ms='' @ show_nat (sg_since_ms s) @ [CHR 10]
     @ ''until_ms='' @ show_nat (sg_until_ms s) @ [CHR 10] @ ''certificate='' @ hex (sg_certificate s) @ [CHR 10]"

definition write_revoker :: "disk \<Rightarrow> string \<Rightarrow> string \<Rightarrow> signer \<Rightarrow> registry \<Rightarrow> registry \<times> (refusal + unit)" where
  "write_revoker fault pid name s r =
     (let tmp = name @ ''.tmp.'' @ pid; put = (\<lambda>text. r\<lparr>rg_revokers := AList.update tmp text (rg_revokers r)\<rparr>) in
      case fault OpCreate (''revokers/'' @ tmp) of
        Some e \<Rightarrow> (r, Inl (Storage e))
      | None \<Rightarrow>
          (case fault OpWrite (''revokers/'' @ tmp) of
             Some e \<Rightarrow> (put [], Inl (Storage e))
           | None \<Rightarrow>
               (case fault OpRename (''revokers/'' @ tmp) of
                  Some e \<Rightarrow> (put (revoker_text s), Inl (Storage e))
                | None \<Rightarrow> (r\<lparr>rg_revokers := AList.update name (revoker_text s) (AList.delete tmp (rg_revokers r))\<rparr>, Inr ()))))"

definition live :: "nat \<Rightarrow> signer option \<Rightarrow> signer option" where
  "live now_ms held = (case held of Some s \<Rightarrow> if sg_until_ms s > now_ms then Some s else None | None \<Rightarrow> None)"

definition claim_revoker ::
    "disk \<Rightarrow> string \<Rightarrow> bytes \<Rightarrow> signer \<Rightarrow> nat \<Rightarrow> registry \<Rightarrow> registry \<times> (refusal + revoker_claim)" where
  "claim_revoker fault pid account signer now_ms r =
     (let name = hex account;
          written = (case write_revoker fault pid name signer r of
                       (r1, Inl e) \<Rightarrow> (r1, Inl e)
                     | (r1, Inr _) \<Rightarrow> (r1, Inr Held))
      in case live now_ms (read_revoker fault name r) of
           Some held \<Rightarrow>
             if sg_principal held = sg_principal signer
             then if sg_since_ms signer > sg_since_ms held then written else (r, Inr Held)
             else (r, Inr (Second (sg_principal held) (sg_since_ms held)))
         | None \<Rightarrow> written)"

definition registry_revoker :: "disk \<Rightarrow> bytes \<Rightarrow> nat \<Rightarrow> registry \<Rightarrow> signer option" where
  "registry_revoker fault account now_ms r = live now_ms (read_revoker fault (hex account) r)"

definition clear_revoker :: "disk \<Rightarrow> string \<Rightarrow> 'a state_dir_scheme \<Rightarrow> 'a state_dir_scheme \<times> (string + bool)" where
  "clear_revoker fault account r =
     (case fault OpRemove (''revokers/'' @ account) of
        Some e \<Rightarrow> (r, Inl e)
      | None \<Rightarrow> if map_of (rg_revokers r) account = None then (r, Inr False)
                else (r\<lparr>rg_revokers := AList.delete account (rg_revokers r)\<rparr>, Inr True))"

section \<open>The operator's commands\<close>

definition list_revokers :: "disk \<Rightarrow> 'a state_dir_scheme \<Rightarrow> string + (string \<times> signer) list" where
  "list_revokers fault d =
     (case fault OpList ''revokers'' of
        Some e \<Rightarrow> Inl e
      | None \<Rightarrow> Inr (List.map_filter (\<lambda>(name, _). map_option (Pair name) (read_revoker fault name d)) (rg_revokers d)))"

definition create_invite ::
    "disk \<Rightarrow> (bytes \<Rightarrow> bytes) \<Rightarrow> string + bytes \<Rightarrow> nat \<Rightarrow> nat \<Rightarrow> 'a state_dir_scheme \<Rightarrow> 'a state_dir_scheme \<times> (string + string)" where
  "create_invite fault sha random ttl_ms now_ms d =
     (case (fault OpMkdir ''invites'', random) of
        (Some e, _) \<Rightarrow> (d, Inl e)
      | (None, Inl e) \<Rightarrow> (d, Inl e)
      | (None, Inr raw) \<Rightarrow>
     let token = ''wmlhub-invite-'' @ hex raw;
         expires = min (now_ms + min ttl_ms U64_LIM) U64_LIM;
         hash = hex (sha (map of_char token)); path = ''invites/'' @ hash
     in case create_new fault ''invites/'' hash (rg_invites d) of
          Failed e \<Rightarrow> (d, Inl e)
        | AlreadyExists \<Rightarrow> (d, Inl ''File exists'')
        | Fresh \<Rightarrow>
            (case fault OpWrite path of
               Some e \<Rightarrow> (d\<lparr>rg_invites := AList.update hash [] (rg_invites d)\<rparr>, Inl e)
             | None \<Rightarrow> (d\<lparr>rg_invites := AList.update hash (show_nat expires @ [CHR 10]) (rg_invites d)\<rparr>, Inr token)))"

definition list_invites :: "disk \<Rightarrow> 'a state_dir_scheme \<Rightarrow> string + (string \<times> nat) list" where
  "list_invites fault d =
     (case fault OpList ''invites'' of
        Some e \<Rightarrow> Inl e
      | None \<Rightarrow>
          (case List.map_filter (\<lambda>(name, _). fault OpRead (''invites/'' @ name)) (rg_invites d) of
             e # _ \<Rightarrow> Inl e
           | [] \<Rightarrow> Inr (sort_key snd (map (\<lambda>(name, text). (take 12 name, invite_expires text)) (rg_invites d)))))"

definition list_accounts :: "disk \<Rightarrow> 'a state_dir_scheme \<Rightarrow> string + string list" where
  "list_accounts fault d =
     (case fault OpList ''accounts'' of Some e \<Rightarrow> Inl e | None \<Rightarrow> Inr (sort (keys (rg_accounts d))))"

section \<open>Racing for an invite\<close>

text \<open>
  Connections are admitted at once, and between two operations of one on the disk any other may run. An
  admission by invite as the sequence of its disk operations, one a step.
\<close>

datatype admit_pc =
    Look
  | ReadInvite
  | Claim nat
  | Tidy nat
  | Create
  | Finished "refusal + admission"

record joiner =
  j_account :: bytes
  j_invite :: bytes
  j_now :: nat
  j_pc :: admit_pc

definition joiner_hash :: "(bytes \<Rightarrow> bytes) \<Rightarrow> joiner \<Rightarrow> string" where
  "joiner_hash sha j = hex (sha (j_invite j))"

definition admit_step :: "disk \<Rightarrow> (bytes \<Rightarrow> bytes) \<Rightarrow> joiner \<Rightarrow> registry \<Rightarrow> registry \<times> joiner" where
  "admit_step fault sha j r =
     (let hash = joiner_hash sha j; at = (\<lambda>pc. j\<lparr>j_pc := pc\<rparr>) in
      case j_pc j of
        Look \<Rightarrow> (r, at (if account_exists fault (j_account j) r then Finished (Inr Known)
                       else if j_invite j = [] then Finished (Inl InviteRequired) else ReadInvite))
      | ReadInvite \<Rightarrow> (r, at (case read_invite fault hash r of Inl e \<Rightarrow> Finished (Inl e) | Inr expires \<Rightarrow> Claim expires))
      | Claim expires \<Rightarrow>
          (case claim_invite fault hash (j_now j) r of
             (r1, Inl e) \<Rightarrow> (r1, at (Finished (Inl e)))
           | (r1, Inr _) \<Rightarrow> (r1, at (Tidy expires)))
      | Tidy expires \<Rightarrow>
          (tidy_invite fault hash r, at (if j_now j > expires then Finished (Inl InviteInvalid) else Create))
      | Create \<Rightarrow> (case register_account fault (j_account j) (j_now j) r of (r1, res) \<Rightarrow> (r1, at (Finished res)))
      | Finished res \<Rightarrow> (r, j))"

fun admit_steps :: "nat \<Rightarrow> disk \<Rightarrow> (bytes \<Rightarrow> bytes) \<Rightarrow> joiner \<Rightarrow> registry \<Rightarrow> registry \<times> joiner" where
  "admit_steps 0 fault sha j r = (r, j)"
| "admit_steps (Suc n) fault sha j r = (let (r1, j1) = admit_step fault sha j r in admit_steps n fault sha j1 r1)"

inductive race :: "disk \<Rightarrow> (bytes \<Rightarrow> bytes) \<Rightarrow> registry \<times> joiner list \<Rightarrow> registry \<times> joiner list \<Rightarrow> bool" for fault sha where
  turn: "i < length js \<Longrightarrow> admit_step fault sha (js ! i) r = (r', j') \<Longrightarrow> race fault sha (r, js) (r', js[i := j'])"

definition race_start :: "registry \<times> joiner list \<Rightarrow> bool" where
  "race_start s \<longleftrightarrow> (\<forall>j \<in> set (snd s). j_pc j = Look)"

text \<open>The run in which the joiners take their turns as \<open>turns\<close> says.\<close>

fun race_run :: "disk \<Rightarrow> (bytes \<Rightarrow> bytes) \<Rightarrow> nat list \<Rightarrow> registry \<times> joiner list \<Rightarrow> registry \<times> joiner list" where
  "race_run fault sha [] s = s"
| "race_run fault sha (i # turns) (r, js) =
     (if i < length js
      then let (r', j') = admit_step fault sha (js ! i) r in race_run fault sha turns (r', js[i := j'])
      else race_run fault sha turns (r, js))"

lemma race_run_reach: "reach race_start (race fault sha) s \<Longrightarrow> reach race_start (race fault sha) (race_run fault sha turns s)"
proof (induction fault sha turns s rule: race_run.induct)
  case (2 fault sha i turns r js)
  obtain r' j' where a: "admit_step fault sha (js ! i) r = (r', j')" by fastforce
  show ?case
  proof (cases "i < length js")
    case True
    with 2 a reach_step [OF 2(3) race.turn [OF True a]] show ?thesis by simp
  qed (use 2 in simp)
qed simp

text \<open>A joiner past its claim: it has made the marker of its invite.\<close>

definition claimed :: "joiner \<Rightarrow> bool" where
  "claimed j \<longleftrightarrow> (case j_pc j of Tidy _ \<Rightarrow> True | Create \<Rightarrow> True | Finished (Inr Registered) \<Rightarrow> True | _ \<Rightarrow> False)"

definition race_inv :: "(bytes \<Rightarrow> bytes) \<Rightarrow> registry \<times> joiner list \<Rightarrow> bool" where
  "race_inv sha s \<longleftrightarrow>
     (\<forall>i < length (snd s). claimed (snd s ! i) \<longrightarrow> map_of (rg_used (fst s)) (joiner_hash sha (snd s ! i)) \<noteq> None)
     \<and> (\<forall>i < length (snd s). \<forall>k < length (snd s).
          claimed (snd s ! i) \<and> claimed (snd s ! k) \<and> joiner_hash sha (snd s ! i) = joiner_hash sha (snd s ! k) \<longrightarrow> i = k)"

lemma admit_step_joiner: "admit_step fault sha j r = (r', j') \<Longrightarrow> joiner_hash sha j' = joiner_hash sha j"
  by (auto simp: admit_step_def joiner_hash_def Let_def split: admit_pc.splits prod.splits sum.splits)

lemma register_account_used: "register_account fault a now r = (r', res) \<Longrightarrow> rg_used r' = rg_used r"
  by (auto simp: register_account_def Let_def split: created.splits option.splits)

lemma claim_invite_used:
  "claim_invite fault h now r = (r', Inl e) \<Longrightarrow> r' = r"
  "claim_invite fault h now r = (r', Inr u) \<Longrightarrow>
     map_of (rg_used r) h = None \<and> map_of (rg_used r') = (map_of (rg_used r))(h \<mapsto> the (map_of (rg_used r') h)) \<and> map_of (rg_used r') h \<noteq> None"
  by (auto simp: claim_invite_def create_new_def update_conv' Let_def split: created.splits option.splits if_splits)

text \<open>A step keeps every marker; a joiner becomes claimed only by making a marker that was not there.\<close>

lemma admit_step_markers:
  assumes "admit_step fault sha j r = (r', j')"
  shows "(\<forall>h. map_of (rg_used r) h \<noteq> None \<longrightarrow> map_of (rg_used r') h \<noteq> None)
    \<and> (claimed j' \<longrightarrow> claimed j \<or> map_of (rg_used r) (joiner_hash sha j) = None \<and> map_of (rg_used r') (joiner_hash sha j) \<noteq> None)"
proof (cases "j_pc j")
  case (Claim expires)
  show ?thesis
  proof (cases "claim_invite fault (joiner_hash sha j) (j_now j) r")
    case (Pair r1 res)
    with assms Claim claim_invite_used [of fault "joiner_hash sha j" "j_now j" r r1] show ?thesis
      by (cases res) (auto simp: admit_step_def claimed_def Let_def fun_upd_apply)
  qed
qed (use assms in \<open>auto simp: admit_step_def claimed_def tidy_invite_def Let_def register_account_used
      split: prod.splits sum.splits admission.splits if_splits\<close>)

interpretation races: invariant_machine race_start "race fault sha" "race_inv sha" for fault sha
proof
  fix s :: "registry \<times> joiner list"
  assume "race_start s"
  then have "\<not> claimed (snd s ! i)" if "i < length (snd s)" for i
    using nth_mem [OF that] by (simp add: race_start_def claimed_def)
  then show "race_inv sha s" by (simp add: race_inv_def)
next
  fix s t :: "registry \<times> joiner list"
  assume inv: "race_inv sha s" and "race fault sha s t"
  from this(2) show "race_inv sha t"
  proof cases
    case (turn i js r r' j')
    let ?hash = "joiner_hash sha"
    note M = admit_step_markers [OF turn(4)] and H = admit_step_joiner [OF turn(4)]
    have used: "map_of (rg_used r) (?hash (js ! k)) \<noteq> None" if "k < length js" "claimed (js ! k)" for k
      using inv that turn(1) by (simp add: race_inv_def)
    have once: "k = l" if "k < length js" "l < length js" "claimed (js ! k)" "claimed (js ! l)" "?hash (js ! k) = ?hash (js ! l)" for k l
      using inv that turn(1) by (simp add: race_inv_def)
    have fresh: "claimed (js ! i) \<or> map_of (rg_used r) (?hash (js ! i)) = None \<and> map_of (rg_used r') (?hash (js ! i)) \<noteq> None" if "claimed j'"
      using M that by simp
    have kept: "map_of (rg_used r') h \<noteq> None" if "map_of (rg_used r) h \<noteq> None" for h using M that by simp
    have alone: "k = i" if "claimed j'" "k < length js" "claimed (js ! k)" "?hash (js ! k) = ?hash (js ! i)" for k
      using fresh [OF that(1)] used [OF that(2,3)] once [OF that(2) turn(3) that(3)] that(4) by auto
    have "map_of (rg_used r') (?hash (js[i := j'] ! k)) \<noteq> None" if "k < length js" "claimed (js[i := j'] ! k)" for k
    proof (cases "k = i")
      case True
      with that turn(3) fresh kept [OF used [of i]] H show ?thesis by auto
    next
      case False
      with that kept [OF used [of k]] show ?thesis by simp
    qed
    moreover have "k = l" if "k < length js" "l < length js" "claimed (js[i := j'] ! k)" "claimed (js[i := j'] ! l)"
      "?hash (js[i := j'] ! k) = ?hash (js[i := j'] ! l)" for k l
    proof (cases "k = i \<or> l = i")
      case True
      with that H turn(3) alone [of k] alone [of l] show ?thesis by (cases "k = i"; cases "l = i") simp_all
    next
      case False
      with that once [of k l] show ?thesis by simp
    qed
    ultimately show ?thesis using turn(2) by (simp add: race_inv_def)
  qed
qed

text \<open>C15. An invite registers one account, however many connections race for it and however their disk operations
  interleave: two joiners that were both registered did not present the same invite.\<close>

theorem an_invite_registers_one_account:
  assumes "reach race_start (race fault sha) (r, js)" and "i < length js" and "k < length js"
    and "j_pc (js ! i) = Finished (Inr Registered)" and "j_pc (js ! k) = Finished (Inr Registered)"
    and "sha (j_invite (js ! i)) = sha (j_invite (js ! k))"
  shows "i = k"
  using races.reach_inv [OF assms(1)] assms(2-) by (auto simp: race_inv_def claimed_def joiner_hash_def)

text \<open>An admission that nothing interleaves with is the whole operation: five disk steps give exactly what \<open>admit\<close> gives.\<close>

theorem admission_is_its_steps:
  assumes "rg_mode r = Invite"
  shows "admit_steps 5 fault sha \<lparr>j_account = a, j_invite = tok, j_now = now, j_pc = Look\<rparr> r
    = (let (r', res) = registry_admit fault sha a tok ip now r
       in (r', \<lparr>j_account = a, j_invite = tok, j_now = now, j_pc = Finished res\<rparr>))"
proof -
  let ?h = "hex (sha tok)"
  note defs = numeral_eq_Suc admit_step_def registry_admit_def consume_invite_def joiner_hash_def Let_def assms
  show ?thesis
  proof (cases "account_exists fault a r \<or> tok = []")
    case True
    then show ?thesis by (cases "account_exists fault a r") (simp_all add: defs)
  next
    case False
    show ?thesis
    proof (cases "read_invite fault ?h r")
      case (Inl e)
      with False show ?thesis by (simp add: defs)
    next
      case (Inr expires)
      obtain r1 res where c: "claim_invite fault ?h now r = (r1, res)" by fastforce
      obtain r2 reg where g: "register_account fault a now (tidy_invite fault ?h r1) = (r2, reg)" by fastforce
      show ?thesis using False Inr c g by (cases res; cases "now > expires") (simp_all add: defs)
    qed
  qed
qed

section \<open>Open registration\<close>

definition window_ok :: "open_limits \<Rightarrow> window \<Rightarrow> bool" where
  "window_ok l w \<longleftrightarrow> w_total w \<le> total l \<and> (\<forall>ip n. map_of (w_by_address w) ip = Some n \<longrightarrow> n \<le> per_address l)"

fun open_run :: "(ip_addr \<times> nat) list \<Rightarrow> registry \<Rightarrow> registry \<times> (refusal + unit) list" where
  "open_run [] r = (r, [])"
| "open_run ((ip, now) # es) r = (let (r1, res) = take_open_slot ip now r; (r2, rs) = open_run es r1 in (r2, res # rs))"

definition granted :: "(refusal + unit) list \<Rightarrow> nat" where
  "granted rs = length (filter (\<lambda>x. x = Inr ()) rs)"

lemma take_open_slot_same:
  assumes "now - w_started_ms (rg_window r) < window_ms (rg_open r)" and "take_open_slot ip now r = (r1, res)"
  shows "w_started_ms (rg_window r1) = w_started_ms (rg_window r) \<and> rg_open r1 = rg_open r
    \<and> w_total (rg_window r1) = w_total (rg_window r) + granted [res]
    \<and> (res = Inr () \<longrightarrow> w_total (rg_window r) < total (rg_open r))"
  using assms by (auto simp: take_open_slot_def granted_def Let_def split: if_splits)

text \<open>Within one window an open hub admits at most its total of new accounts, whatever addresses ask and in whatever order.\<close>

theorem a_window_admits_at_most_its_total:
  assumes "\<forall>(ip, now) \<in> set es. now - w_started_ms (rg_window r) < window_ms (rg_open r)"
    and "open_run es r = (r', rs)" and "w_total (rg_window r) \<le> total (rg_open r)"
  shows "w_total (rg_window r) + granted rs \<le> total (rg_open r)"
  using assms
proof (induction es arbitrary: r r' rs)
  case Nil
  then show ?case by (simp add: granted_def)
next
  case (Cons e es)
  obtain ip now where e: "e = (ip, now)" by fastforce
  obtain r1 res where t: "take_open_slot ip now r = (r1, res)" by fastforce
  obtain r2 rs' where o: "open_run es r1 = (r2, rs')" by fastforce
  have T: "w_started_ms (rg_window r1) = w_started_ms (rg_window r)" "rg_open r1 = rg_open r"
    "w_total (rg_window r1) = w_total (rg_window r) + granted [res]" "res = Inr () \<longrightarrow> w_total (rg_window r) < total (rg_open r)"
    using take_open_slot_same [OF _ t] Cons.prems(1) e by auto
  have "w_total (rg_window r1) + granted rs' \<le> total (rg_open r1)"
    using Cons.IH [OF _ o] Cons.prems(1,3) T by (auto simp: granted_def split: if_splits)
  moreover have "rs = res # rs'" using Cons.prems(2) e t o by simp
  ultimately show ?case using T by (cases "res = Inr ()") (simp_all add: granted_def)
qed

section \<open>The signer on record\<close>

definition signer_ok :: "signer \<Rightarrow> bool" where
  "signer_ok s \<longleftrightarrow> is_hex (sg_principal s) 64 \<and> sg_since_ms s \<le> U64_LIM \<and> sg_until_ms s \<le> U64_LIM \<and> sg_certificate s \<noteq> []"

lemma is_hex_digits: "is_hex s n \<Longrightarrow> list_all is_ascii_hexdigit s \<and> length s = n"
  by (auto simp: is_hex_def list_all_iff)

lemma record_line:
  assumes "list_all is_ascii_hexdigit v" and "v \<noteq> []" and "CHR 10 \<notin> set k" and "CHR ''='' \<notin> set k"
  shows "text_lines ((k @ CHR ''='' # v) @ CHR 10 # t) = (k @ CHR ''='' # v) # text_lines t"
    and "split_once CHR ''='' (k @ CHR ''='' # v) = Some (k, v)"
proof -
  have v: "c \<noteq> CHR 10 \<and> c \<noteq> CHR 13" if "c \<in> set v" for c
    using hexdigit_not_special assms(1) that by (auto simp: list_all_iff)
  show "text_lines ((k @ CHR ''='' # v) @ CHR 10 # t) = (k @ CHR ''='' # v) # text_lines t"
    using assms(2,3) v [OF last_in_set [OF assms(2)]] v by (intro text_lines_cons) auto
  show "split_once CHR ''='' (k @ CHR ''='' # v) = Some (k, v)" by (rule split_once_append [OF assms(4)])
qed

lemma revoker_text_back:
  assumes "signer_ok s"
  shows "parse_revoker (revoker_text s) = Some s"
proof -
  have p: "list_all is_ascii_hexdigit (sg_principal s)" "sg_principal s \<noteq> []"
    using assms is_hex_digits [of "sg_principal s" 64] by (force simp: signer_ok_def)+
  have n: "show_nat n \<noteq> []" for n using show_nat_digit [of n] by force
  have c: "hex (sg_certificate s) \<noteq> []" using assms by (cases "sg_certificate s") (simp_all add: signer_ok_def)
  note lines = record_line(1) [OF p, of "''principal''"] record_line(1) [OF show_nat_hexdigits n, of "''since_ms''"]
    record_line(1) [OF show_nat_hexdigits n, of "''until_ms''"] record_line(1) [OF hex_hexdigits c, of "''certificate''"]
  note keys = record_line(2) [OF p, of "''principal''"] record_line(2) [OF show_nat_hexdigits n, of "''since_ms''"]
    record_line(2) [OF show_nat_hexdigits n, of "''until_ms''"] record_line(2) [OF hex_hexdigits c, of "''certificate''"]
  have lns: "text_lines (revoker_text s) =
      [''principal='' @ sg_principal s, ''since_ms='' @ show_nat (sg_since_ms s), ''until_ms='' @ show_nat (sg_until_ms s),
       ''certificate='' @ hex (sg_certificate s)]"
    using lines by (simp add: revoker_text_def text_lines_def [of "[]"])
  show ?thesis
    using assms keys parse_show_nat [of _ U64_LIM] unhex_hex [of "sg_certificate s"]
    by (simp add: parse_revoker_def lns trim_hexdigits show_nat_hexdigits signer_ok_def)
qed

lemma write_revoker_ok:
  assumes "write_revoker fault pid name s r = (r1, Inr u)"
  shows "map_of (rg_revokers r1) name = Some (revoker_text s)"
  using assms by (auto simp: write_revoker_def update_conv' Let_def split: option.splits)

text \<open>C16. An account has one signer. While a live record names one, a claim by any other principal is answered
  with who holds it and changes nothing; a claim by the holder never moves the record backwards; and whoever
  is told that it holds the record is the principal the hub names from then on.\<close>

theorem an_account_has_one_signer:
  assumes "signer_ok s" and "sg_until_ms s > now" and "fault OpRead (''revokers/'' @ hex account) = None"
    and "claim_revoker fault pid account s now r = (r1, res)"
  shows "(\<forall>h. registry_revoker fault account now r = Some h \<longrightarrow>
            (sg_principal h \<noteq> sg_principal s \<longrightarrow> r1 = r \<and> res = Inr (Second (sg_principal h) (sg_since_ms h)))
            \<and> (sg_since_ms s \<le> sg_since_ms h \<longrightarrow> r1 = r))
    \<and> (res = Inr Held \<longrightarrow> (\<exists>h. registry_revoker fault account now r1 = Some h \<and> sg_principal h = sg_principal s
            \<and> sg_since_ms s \<le> sg_since_ms h))"
proof -
  obtain r2 w where w: "write_revoker fault pid (hex account) s r = (r2, w)" by fastforce
  have now_s: "live now (read_revoker fault (hex account) r2) = Some s" if "w = Inr ()"
    using write_revoker_ok [of fault pid "hex account" s r r2] w that assms(2,3) revoker_text_back [OF assms(1)]
    by (simp add: read_revoker_def live_def)
  show ?thesis
  proof (cases "live now (read_revoker fault (hex account) r)")
    case (Some h)
    with assms(4) w now_s show ?thesis
      by (cases w; cases "sg_principal h = sg_principal s"; cases "sg_since_ms s > sg_since_ms h")
        (auto simp: claim_revoker_def registry_revoker_def Let_def)
  next
    case None
    with assms(4) w now_s show ?thesis by (cases w) (auto simp: claim_revoker_def registry_revoker_def Let_def)
  qed
qed


definition two_joiners :: "registry \<times> joiner list" where
  "two_joiners =
     (registry_new Invite open_limits_default [] [(''07'', ''9'' @ [CHR 10])] [] [],
      [\<lparr>j_account = [1], j_invite = [7], j_now = 5, j_pc = Look\<rparr>, \<lparr>j_account = [2], j_invite = [7], j_now = 6, j_pc = Look\<rparr>])"

definition no_fault :: disk where
  "no_fault op path = None"

lemma two_joiners_expiry: "invite_expires (''9'' @ [CHR 10]) = 9"
proof -
  have "trim (''9'' @ [CHR 10]) = ''9''" by (simp add: trim_def is_space_def)
  moreover have "show_nat 9 = ''9''" by (simp add: show_nat.simps [of 9] char_of_def bit_0)
  ultimately show ?thesis using parse_show_nat [of 9 U64_LIM] by (simp add: invite_expires_def)
qed

lemma two_joiners_run:
  "map j_pc (snd (race_run no_fault (\<lambda>b. b) [0, 1, 0, 1, 1, 0, 1, 1] two_joiners))
     = [Finished (Inl InviteInvalid), Finished (Inr Registered)]"
  by (simp add: two_joiners_def registry_new_def admit_step_def account_exists_def no_fault_def read_invite_def
      joiner_hash_def claim_invite_def create_new_def tidy_invite_def register_account_def hex_def hex_digit_def
      two_joiners_expiry [simplified] char_of_def bit_0 Let_def)

theorem an_invite_registers_one_account_witness:
  "map j_pc (snd (race_run no_fault (\<lambda>b. b) [0, 1, 0, 1, 1, 0, 1, 1] two_joiners))
     = [Finished (Inl InviteInvalid), Finished (Inr Registered)]
   \<and> {k. k < 2 \<and> j_pc (snd (race_run no_fault (\<lambda>b. b) [0, 1, 0, 1, 1, 0, 1, 1] two_joiners) ! k) = Finished (Inr Registered)
          \<and> j_invite (snd (race_run no_fault (\<lambda>b. b) [0, 1, 0, 1, 1, 0, 1, 1] two_joiners) ! k) = j_invite (snd (race_run no_fault (\<lambda>b. b) [0, 1, 0, 1, 1, 0, 1, 1] two_joiners) ! 1)} = {1}"
proof -
  let ?s = "race_run no_fault (\<lambda>b. b) [0, 1, 0, 1, 1, 0, 1, 1] two_joiners"
  obtain r js where s: "?s = (r, js)" by fastforce
  have "reach race_start (race no_fault (\<lambda>b. b)) ?s"
    by (intro race_run_reach reach_start) (simp add: race_start_def two_joiners_def)
  moreover have "length js = 2" using arg_cong [OF two_joiners_run, of length] s by simp
  moreover have "j_pc (js ! 1) = Finished (Inr Registered)"
    using arg_cong [OF two_joiners_run, of "\<lambda>xs. xs ! 1"] s \<open>length js = 2\<close> by simp
  ultimately have "k = 1" if "k < 2" "j_pc (js ! k) = Finished (Inr Registered)" "j_invite (js ! k) = j_invite (js ! 1)" for k
    using an_invite_registers_one_account [of no_fault "\<lambda>b. b" r js k 1] s that by simp
  moreover have "1 < (2 :: nat)" by simp
  ultimately show ?thesis using s two_joiners_run \<open>j_pc (js ! 1) = Finished (Inr Registered)\<close> by auto
qed

theorem admission_is_its_steps_witness:
  "let r = fst two_joiners
   in rg_mode r = Invite
     \<and> admit_steps 5 no_fault (\<lambda>b. b) \<lparr>j_account = [1], j_invite = [7], j_now = 5, j_pc = Look\<rparr> r
       = (let (r', res) = registry_admit no_fault (\<lambda>b. b) [1] [7] (V4 [127, 0, 0, 1]) 5 r
          in (r', \<lparr>j_account = [1], j_invite = [7], j_now = 5, j_pc = Finished res\<rparr>))"
  using admission_is_its_steps [of "fst two_joiners" no_fault "\<lambda>b. b" "[1]" "[7]" 5 "V4 [127, 0, 0, 1]"]
  by (simp add: two_joiners_def registry_new_def)

definition small_open_hub :: registry where
  "small_open_hub = registry_new Open \<lparr>per_address = 3, total = 1, window_ms = 100\<rparr> [] [] [] []"

lemma small_open_hub_run:
  "snd (open_run [(V4 [1, 2, 3, 4], 10), (V4 [1, 2, 3, 4], 20), (V4 [5, 6, 7, 8], 99)] small_open_hub)
     = [Inr (), Inl RateLimited, Inl RateLimited]"
  by (simp add: small_open_hub_def registry_new_def window_default_def take_open_slot_def Let_def)

theorem a_window_admits_at_most_its_total_witness:
  "let es = [(V4 [1, 2, 3, 4], 10), (V4 [1, 2, 3, 4], 20), (V4 [5, 6, 7, 8], 99)]
   in snd (open_run es small_open_hub) = [Inr (), Inl RateLimited, Inl RateLimited]
     \<and> w_total (rg_window small_open_hub) + granted (snd (open_run es small_open_hub)) \<le> total (rg_open small_open_hub)"
proof -
  let ?es = "[(V4 [1, 2, 3, 4], 10), (V4 [1, 2, 3, 4], 20), (V4 [5, 6, 7, 8], 99)]"
  obtain r' rs where o: "open_run ?es small_open_hub = (r', rs)" by fastforce
  have "w_total (rg_window small_open_hub) + granted rs \<le> total (rg_open small_open_hub)"
    by (rule a_window_admits_at_most_its_total [OF _ o])
      (simp_all add: small_open_hub_def registry_new_def window_default_def)
  with small_open_hub_run o show ?thesis by simp
qed

definition example_signer :: signer where
  "example_signer = \<lparr>sg_principal = replicate 64 CHR ''a'', sg_since_ms = 5, sg_until_ms = 100, sg_certificate = [1, 2]\<rparr>"

lemma example_signer_ok: "signer_ok example_signer"
  by (simp add: signer_ok_def example_signer_def is_hex_def list_all_iff is_ascii_hexdigit_def to_digit_def)

theorem an_account_has_one_signer_witness:
  "let r = registry_new Invite open_limits_default [] [] [] [];
       (r1, res) = claim_revoker no_fault ''1'' [9] example_signer 10 r
   in res = Inr Held \<and> (\<exists>h. registry_revoker no_fault [9] 10 r1 = Some h \<and> sg_principal h = sg_principal example_signer)"
proof -
  let ?r = "registry_new Invite open_limits_default [] [] [] []"
  obtain r1 res where c: "claim_revoker no_fault ''1'' [9] example_signer 10 ?r = (r1, res)" by fastforce
  then have "res = Inr Held"
    by (auto simp: claim_revoker_def write_revoker_def read_revoker_def registry_new_def live_def no_fault_def Let_def)
  with an_account_has_one_signer [OF example_signer_ok _ _ c] c show ?thesis
    by (auto simp: example_signer_def no_fault_def)
qed

end
