(* ===== verification/Keys.thy ===== *)
theory Keys
  imports Wire Text
begin

text \<open>
  Identities, certificate chains and the signed hello, \<open>crates/keys/src/lib.rs\<close>. The signature scheme, the hash and
  the generated codec of the certificate messages are third-party code: they are the fields of a \<open>suite\<close>, an
  argument of every definition that uses them. What an honest suite does (a signature verifies under the signer's
  public key) is the predicate \<open>honest\<close>, a hypothesis of the properties that need it, as is that decoding undoes
  encoding; the safety of verification needs neither.
\<close>

section \<open>Messages and the suite\<close>

type_synonym public_key = bytes

record certificate_body =
  cb_subject :: bytes
  cb_agreement_key :: bytes
  cb_issuer :: bytes
  cb_role :: int
  cb_scopes :: "string list"
  cb_may_pair :: bool
  cb_may_revoke :: bool
  cb_not_before_ms :: nat
  cb_not_after_ms :: nat
  cb_label :: string
  cb_renews :: "certificate option"

record suite =
  sha256 :: "bytes \<Rightarrow> bytes"
  public_of :: "bytes \<Rightarrow> public_key"
  ed_sign :: "bytes \<Rightarrow> bytes \<Rightarrow> bytes"
  ed_verify :: "public_key \<Rightarrow> bytes \<Rightarrow> bytes \<Rightarrow> bool"
  enc_body :: "certificate_body \<Rightarrow> bytes"
  dec_body :: "bytes \<Rightarrow> certificate_body option"

definition honest :: "'x suite_scheme \<Rightarrow> bool" where
  "honest cr \<longleftrightarrow> (\<forall>k m. ed_verify cr (public_of cr k) m (ed_sign cr k m)) \<and> (\<forall>k. length (public_of cr k) = 32)"

section \<open>Bounds and scopes\<close>

definition MAX_CHAIN :: nat where "MAX_CHAIN = 2"
definition MAX_CERTIFICATE_MS :: nat where "MAX_CERTIFICATE_MS = 90 * 24 * 60 * 60 * 1000"
definition MAX_CERT_BYTES :: nat where "MAX_CERT_BYTES = 1024"
definition MAX_RENEWING_CERT_BYTES :: nat where "MAX_RENEWING_CERT_BYTES = 2 * MAX_CERT_BYTES + 128"
definition MAX_SCOPES :: nat where "MAX_SCOPES = 16"
definition MAX_SCOPE_BYTES :: nat where "MAX_SCOPE_BYTES = 32"
definition MAX_LABEL_BYTES :: nat where "MAX_LABEL_BYTES = 64"

definition APPROVE :: string where "APPROVE = ''approve''"
definition INSTALL :: string where "INSTALL = ''install''"

definition BOX_CONNECTOR_FORBIDS :: "string list" where
  "BOX_CONNECTOR_FORBIDS = [APPROVE, ''control'']"

definition NEVER_DELEGABLE :: "string list" where
  "NEVER_DELEGABLE = [APPROVE, ''control'', ''admin'', INSTALL]"

text \<open>A label is its ASCII text closed by a zero byte.\<close>

definition label_bytes :: "string \<Rightarrow> bytes" where
  "label_bytes s = map of_char s @ [0]"

definition CERT_LABEL :: bytes where "CERT_LABEL = label_bytes ''wmlhub/cert/v1''"
definition HELLO_LABEL :: bytes where "HELLO_LABEL = label_bytes ''wmlhub/hello/v1''"
definition COMMAND_LABEL :: bytes where "COMMAND_LABEL = label_bytes ''wmlhub/command/v1''"
definition GRANT_LABEL :: bytes where "GRANT_LABEL = label_bytes ''wmlhub/grant/v1''"
definition STREAM_LABEL :: bytes where "STREAM_LABEL = label_bytes ''wmlhub/stream/v1''"

section \<open>Signing and verifying\<close>

text \<open>An identity is its 32-byte seed.\<close>

type_synonym identity = bytes

definition identity_public :: "'x suite_scheme \<Rightarrow> identity \<Rightarrow> public_key" where
  "identity_public cr k = public_of cr k"

definition identity_sign :: "'x suite_scheme \<Rightarrow> identity \<Rightarrow> bytes \<Rightarrow> bytes \<Rightarrow> bytes" where
  "identity_sign cr k label message = ed_sign cr k (label @ message)"

definition verify :: "'x suite_scheme \<Rightarrow> public_key \<Rightarrow> bytes \<Rightarrow> bytes \<Rightarrow> bytes \<Rightarrow> bool" where
  "verify cr key label message signature = ed_verify cr key (label @ message) signature"

definition principal_id :: "'x suite_scheme \<Rightarrow> public_key \<Rightarrow> bytes" where
  "principal_id cr key = sha256 cr key"

definition account_id :: "'x suite_scheme \<Rightarrow> public_key \<Rightarrow> bytes" where
  "account_id cr root = sha256 cr root"

definition sign_command :: "'x suite_scheme \<Rightarrow> identity \<Rightarrow> bytes \<Rightarrow> bytes" where
  "sign_command cr leaf body = identity_sign cr leaf COMMAND_LABEL body"

definition verify_command :: "'x suite_scheme \<Rightarrow> public_key \<Rightarrow> bytes \<Rightarrow> bytes \<Rightarrow> bool" where
  "verify_command cr leaf_key body signature = verify cr leaf_key COMMAND_LABEL body signature"

definition sign_grant :: "'x suite_scheme \<Rightarrow> identity \<Rightarrow> bytes \<Rightarrow> bytes" where
  "sign_grant cr leaf body = identity_sign cr leaf GRANT_LABEL body"

definition verify_grant :: "'x suite_scheme \<Rightarrow> public_key \<Rightarrow> bytes \<Rightarrow> bytes \<Rightarrow> bool" where
  "verify_grant cr leaf_key body signature = verify cr leaf_key GRANT_LABEL body signature"

definition sign_stream :: "'x suite_scheme \<Rightarrow> identity \<Rightarrow> bytes \<Rightarrow> bytes" where
  "sign_stream cr leaf signed_bytes = identity_sign cr leaf STREAM_LABEL signed_bytes"

definition verify_stream :: "'x suite_scheme \<Rightarrow> public_key \<Rightarrow> bytes \<Rightarrow> bytes \<Rightarrow> bool" where
  "verify_stream cr leaf_key signed_bytes signature = verify cr leaf_key STREAM_LABEL signed_bytes signature"

definition sign_hello :: "'x suite_scheme \<Rightarrow> identity \<Rightarrow> bytes \<Rightarrow> bytes" where
  "sign_hello cr leaf transcript = identity_sign cr leaf HELLO_LABEL transcript"

definition verify_hello :: "'x suite_scheme \<Rightarrow> public_key \<Rightarrow> bytes \<Rightarrow> bytes \<Rightarrow> bool" where
  "verify_hello cr leaf_key transcript signature = verify cr leaf_key HELLO_LABEL transcript signature"

section \<open>Transcripts\<close>

definition be32 :: "nat \<Rightarrow> bytes" where
  "be32 n = [of_nat (n div 2 ^ 24), of_nat (n div 2 ^ 16), of_nat (n div 2 ^ 8), of_nat n]"

definition len32 :: "nat \<Rightarrow> nat" where
  "len32 n = (if n < 2 ^ 32 then n else 2 ^ 32 - 1)"

definition hello_transcript :: "string \<Rightarrow> bytes \<Rightarrow> bytes \<Rightarrow> role \<Rightarrow> bytes \<Rightarrow> bytes" where
  "hello_transcript hub nonce who role account =
     be32 (len32 (length hub)) @ map of_char hub @ be32 (len32 (length nonce)) @ nonce
     @ be32 (len32 (length who)) @ who @ be32 (nat (i32_of_role role)) @ account"

section \<open>Issuing and renewing\<close>

datatype chain_error =
    Length | Malformed | Signature | Issuer | NotDelegated | Expired | OutlivesIssuer | ScopeWidened
  | RootAsSubject | Unbounded | TooLong | RoleNotPermitted | NotDelegable | BadRenewal

record cert_spec =
  cs_subject :: public_key
  cs_agreement_key :: bytes
  cs_role :: role
  cs_scopes :: "string list"
  cs_may_pair :: bool
  cs_may_revoke :: bool
  cs_not_before_ms :: nat
  cs_not_after_ms :: nat
  cs_label :: string

definition spec_body :: "'x suite_scheme \<Rightarrow> identity \<Rightarrow> cert_spec \<Rightarrow> certificate_body" where
  "spec_body cr issuer spec =
        \<lparr>cb_subject = cs_subject spec, cb_agreement_key = cs_agreement_key spec, cb_issuer = identity_public cr issuer,
         cb_role = i32_of_role (cs_role spec), cb_scopes = cs_scopes spec, cb_may_pair = cs_may_pair spec,
         cb_may_revoke = cs_may_revoke spec, cb_not_before_ms = cs_not_before_ms spec,
         cb_not_after_ms = cs_not_after_ms spec, cb_label = cs_label spec, cb_renews = None\<rparr>"

definition sign_certificate :: "'x suite_scheme \<Rightarrow> identity \<Rightarrow> cert_spec \<Rightarrow> certificate" where
  "sign_certificate cr issuer spec =
     (let body = enc_body cr (spec_body cr issuer spec)
      in \<lparr>cert_body = body, cert_signature = identity_sign cr issuer CERT_LABEL body\<rparr>)"

text \<open>The two checks of a validity window, shared by \<open>issue\<close>, \<open>renew\<close> and \<open>verify_chain\<close>.\<close>

definition check_window :: "nat \<Rightarrow> nat \<Rightarrow> chain_error + unit" where
  "check_window not_before not_after =
     (if not_before = 0 \<or> not_after = 0 then Inl Unbounded
      else if not_after \<le> not_before \<or> not_after - not_before > MAX_CERTIFICATE_MS then Inl TooLong else Inr ())"

definition issue :: "'x suite_scheme \<Rightarrow> identity \<Rightarrow> cert_spec \<Rightarrow> chain_error + certificate" where
  "issue cr issuer spec =
     and_then (check_window (cs_not_before_ms spec) (cs_not_after_ms spec)) (\<lambda>_.
       if cs_role spec = RoleBoxConnector
          \<and> (cs_may_pair spec \<or> cs_may_revoke spec \<or> list_ex (\<lambda>s. s \<in> set BOX_CONNECTOR_FORBIDS) (cs_scopes spec))
       then Inl RoleNotPermitted else Inr (sign_certificate cr issuer spec))"

definition name_ok :: "string \<Rightarrow> bool" where
  "name_ok s \<longleftrightarrow> 1 \<le> length s \<and> length s \<le> MAX_SCOPE_BYTES
     \<and> list_all (\<lambda>c. let n = of_char c :: nat in 97 \<le> n \<and> n \<le> 122 \<or> 48 \<le> n \<and> n \<le> 57 \<or> c \<in> {CHR ''.'', CHR ''_'', CHR ''-''}) s"

definition decode_body :: "'x suite_scheme \<Rightarrow> bytes \<Rightarrow> chain_error + certificate_body" where
  "decode_body cr bs =
     (if length bs > MAX_RENEWING_CERT_BYTES then Inl Malformed
      else and_then (or_err (dec_body cr bs) Malformed) (\<lambda>body.
        if cb_renews body = None \<and> length bs > MAX_CERT_BYTES then Inl Malformed
        else if length (cb_scopes body) > MAX_SCOPES \<or> \<not> list_all name_ok (cb_scopes body)
             \<or> length (cb_label body) > MAX_LABEL_BYTES then Inl Malformed
        else Inr body))"

definition renew :: "'x suite_scheme \<Rightarrow> identity \<Rightarrow> certificate \<Rightarrow> nat \<Rightarrow> nat \<Rightarrow> chain_error + certificate" where
  "renew cr issuer previous not_before not_after =
     and_then (decode_body cr (cert_body previous)) (\<lambda>before.
       if cb_renews before \<noteq> None then Inl BadRenewal
       else and_then (check_window not_before not_after) (\<lambda>_.
         let body = enc_body cr (before\<lparr>cb_issuer := identity_public cr issuer, cb_not_before_ms := not_before,
                      cb_not_after_ms := not_after, cb_renews := Some previous\<rparr>)
         in Inr \<lparr>cert_body = body, cert_signature = identity_sign cr issuer CERT_LABEL body\<rparr>))"

section \<open>Verifying a chain\<close>

definition key32 :: "bytes \<Rightarrow> chain_error + bytes" where
  "key32 bs = (if length bs = 32 then Inr bs else Inl Malformed)"

definition verify_renewal :: "'x suite_scheme \<Rightarrow> public_key \<Rightarrow> certificate_body \<Rightarrow> certificate \<Rightarrow> chain_error + unit" where
  "verify_renewal cr root body previous =
     and_then (decode_body cr (cert_body previous)) (\<lambda>before.
     and_then (ensure (cb_renews before = None) BadRenewal) (\<lambda>_.
     and_then (key32 (cb_issuer before)) (\<lambda>issuer.
     and_then (ensure (issuer = root) BadRenewal) (\<lambda>_.
     and_then (ensure (verify cr root CERT_LABEL (cert_body previous) (cert_signature previous)) BadRenewal) (\<lambda>_.
     ensure (before\<lparr>cb_issuer := cb_issuer body, cb_not_before_ms := cb_not_before_ms body,
               cb_not_after_ms := cb_not_after_ms body, cb_renews := cb_renews body\<rparr> = body) BadRenewal)))))"

text \<open>What a certificate with a delegate above it must keep to.\<close>

definition check_delegated :: "certificate_body \<Rightarrow> certificate_body \<Rightarrow> bool \<Rightarrow> chain_error + unit" where
  "check_delegated p body renewed =
     and_then (ensure (cb_may_pair p) NotDelegated) (\<lambda>_.
     and_then (ensure (cb_not_after_ms body \<le> cb_not_after_ms p) OutlivesIssuer) (\<lambda>_.
     and_then (ensure (\<not> cb_may_revoke body) NotDelegable) (\<lambda>_.
     if renewed then Inr ()
     else and_then (ensure (list_all (\<lambda>s. s \<in> set (cb_scopes p)) (cb_scopes body)) ScopeWidened) (\<lambda>_.
          ensure (list_all (\<lambda>s. s \<notin> set NEVER_DELEGABLE) (cb_scopes body)) NotDelegable))))"

definition check_link ::
    "'x suite_scheme \<Rightarrow> public_key \<Rightarrow> nat \<Rightarrow> certificate_body option \<Rightarrow> certificate \<Rightarrow> certificate_body \<Rightarrow> chain_error + unit" where
  "check_link cr root now_ms parent cert body =
     and_then (key32 (cb_subject body)) (\<lambda>subject.
     and_then (key32 (cb_issuer body)) (\<lambda>issuer.
     and_then (key32 (cb_agreement_key body)) (\<lambda>_.
     and_then (ensure (subject \<noteq> root) RootAsSubject) (\<lambda>_.
     and_then (case parent of Some p \<Rightarrow> key32 (cb_subject p) | None \<Rightarrow> Inr root) (\<lambda>expected_issuer.
     and_then (ensure (issuer = expected_issuer) Issuer) (\<lambda>_.
     and_then (ensure (verify cr issuer CERT_LABEL (cert_body cert) (cert_signature cert)) Signature) (\<lambda>_.
     and_then (check_window (cb_not_before_ms body) (cb_not_after_ms body)) (\<lambda>_.
     and_then (ensure (cb_not_before_ms body \<le> now_ms \<and> now_ms \<le> cb_not_after_ms body) Expired) (\<lambda>_.
     and_then (ensure (\<not> (role_of_i32 (cb_role body) = RoleBoxConnector
         \<and> (cb_may_pair body \<or> list_ex (\<lambda>s. s \<in> set BOX_CONNECTOR_FORBIDS) (cb_scopes body)))) RoleNotPermitted) (\<lambda>_.
     and_then (case cb_renews body of None \<Rightarrow> Inr False
               | Some previous \<Rightarrow> and_then (verify_renewal cr root body previous) (\<lambda>_. Inr True)) (\<lambda>renewed.
     case parent of None \<Rightarrow> Inr () | Some p \<Rightarrow> check_delegated p body renewed)))))))))))"

text \<open>The loop over the chain, leaf first; the parent of a certificate is the next one.\<close>

fun check_links :: "'x suite_scheme \<Rightarrow> public_key \<Rightarrow> nat \<Rightarrow> (certificate \<times> certificate_body) list \<Rightarrow> chain_error + unit" where
  "check_links cr root now_ms [] = Inr ()"
| "check_links cr root now_ms ((cert, body) # rest) =
     and_then (check_link cr root now_ms (case rest of [] \<Rightarrow> None | (_, p) # _ \<Rightarrow> Some p) cert body) (\<lambda>_.
     check_links cr root now_ms rest)"

record verified =
  v_account :: bytes
  v_principal :: bytes
  v_leaf_key :: public_key
  v_leaf :: certificate_body

definition verify_chain :: "'x suite_scheme \<Rightarrow> public_key \<Rightarrow> certificate list \<Rightarrow> nat \<Rightarrow> chain_error + verified" where
  "verify_chain cr root chain now_ms =
     (if chain = [] \<or> length chain > MAX_CHAIN then Inl Length
      else and_then (collect_ok (\<lambda>c. decode_body cr (cert_body c)) chain) (\<lambda>bodies.
           and_then (check_links cr root now_ms (zip chain bodies)) (\<lambda>_.
           and_then (key32 (cb_subject (hd bodies))) (\<lambda>leaf_key.
           Inr \<lparr>v_account = account_id cr root, v_principal = principal_id cr leaf_key, v_leaf_key = leaf_key, v_leaf = hd bodies\<rparr>))))"

section \<open>What the root said\<close>

text \<open>
  The certificates a chain presents: its own, and the predecessors its renewals carry. \<open>vouched\<close> says that one of
  them is signed by the root and decodes to these terms.
\<close>

definition presented :: "'x suite_scheme \<Rightarrow> certificate list \<Rightarrow> certificate list" where
  "presented cr chain = concat (map (\<lambda>c. c # (case decode_body cr (cert_body c) of
     Inr b \<Rightarrow> (case cb_renews b of Some previous \<Rightarrow> [previous] | None \<Rightarrow> []) | Inl _ \<Rightarrow> [])) chain)"

definition vouched :: "'x suite_scheme \<Rightarrow> public_key \<Rightarrow> certificate list \<Rightarrow> certificate_body \<Rightarrow> bool" where
  "vouched cr root chain b \<longleftrightarrow>
     (\<exists>c \<in> set (presented cr chain). decode_body cr (cert_body c) = Inr b
        \<and> verify cr root CERT_LABEL (cert_body c) (cert_signature c) \<and> cb_issuer b = root)"

lemma key32_ok [result_ok]: "key32 bs = Inr k \<longleftrightarrow> length bs = 32 \<and> k = bs"
  by (auto simp: key32_def)

lemma check_window_ok [result_ok]:
  "check_window a b = Inr u \<longleftrightarrow> 0 < a \<and> a < b \<and> b - a \<le> MAX_CERTIFICATE_MS"
  by (auto simp: check_window_def)

lemma check_link_ok:
  assumes "check_link cr root now parent cert body = Inr u"
  shows "length (cb_subject body) = 32" "cb_subject body \<noteq> root"
    "cb_issuer body = (case parent of Some p \<Rightarrow> cb_subject p | None \<Rightarrow> root)"
    "verify cr (cb_issuer body) CERT_LABEL (cert_body cert) (cert_signature cert)"
    "cb_not_before_ms body \<le> now" "now \<le> cb_not_after_ms body" "cb_not_after_ms body - cb_not_before_ms body \<le> MAX_CERTIFICATE_MS"
    "\<And>previous. cb_renews body = Some previous \<Longrightarrow> verify_renewal cr root body previous = Inr ()"
    "\<And>p. parent = Some p \<Longrightarrow> check_delegated p body (cb_renews body \<noteq> None) = Inr ()"
    "length (cb_issuer body) = 32" "length (cb_agreement_key body) = 32"
    "\<not> (role_of_i32 (cb_role body) = RoleBoxConnector
         \<and> (cb_may_pair body \<or> list_ex (\<lambda>s. s \<in> set BOX_CONNECTOR_FORBIDS) (cb_scopes body)))"
  using assms by (auto simp: check_link_def result_ok split: option.splits)

lemma check_delegated_ok:
  "check_delegated p body renewed = Inr u \<longleftrightarrow>
     cb_may_pair p \<and> cb_not_after_ms body \<le> cb_not_after_ms p \<and> \<not> cb_may_revoke body
     \<and> (renewed \<or> set (cb_scopes body) \<subseteq> set (cb_scopes p) \<and> set (cb_scopes body) \<inter> set NEVER_DELEGABLE = {})"
  by (auto simp: check_delegated_def result_ok list_all_iff)

text \<open>A verified renewal repeats terms the root signed.\<close>

lemma verify_renewal_ok:
  assumes "verify_renewal cr root body previous = Inr u"
  obtains before where "decode_body cr (cert_body previous) = Inr before" "cb_issuer before = root"
    "verify cr root CERT_LABEL (cert_body previous) (cert_signature previous)"
    "cb_subject before = cb_subject body" "cb_agreement_key before = cb_agreement_key body" "cb_scopes before = cb_scopes body"
    "cb_may_pair before = cb_may_pair body" "cb_may_revoke before = cb_may_revoke body" "cb_role before = cb_role body"
proof -
  from assms obtain before where b: "decode_body cr (cert_body previous) = Inr before" "cb_issuer before = root"
    "verify cr root CERT_LABEL (cert_body previous) (cert_signature previous)"
    and eq: "before\<lparr>cb_issuer := cb_issuer body, cb_not_before_ms := cb_not_before_ms body,
               cb_not_after_ms := cb_not_after_ms body, cb_renews := cb_renews body\<rparr> = body"
    by (auto simp: verify_renewal_def result_ok)
  show thesis by (rule that [OF b]) (subst eq [symmetric], simp)+
qed

text \<open>A chain that verifies has one certificate from the root, or two with the second from the root.\<close>

lemma verify_chain_cases:
  assumes "verify_chain cr root chain now = Inr v"
  obtains (direct) cert where "chain = [cert]" "decode_body cr (cert_body cert) = Inr (v_leaf v)"
      "check_link cr root now None cert (v_leaf v) = Inr ()" "v_leaf_key v = cb_subject (v_leaf v)"
  | (delegated) cert dcert p where "chain = [cert, dcert]" "decode_body cr (cert_body cert) = Inr (v_leaf v)"
      "decode_body cr (cert_body dcert) = Inr p" "check_link cr root now (Some p) cert (v_leaf v) = Inr ()"
      "check_link cr root now None dcert p = Inr ()" "v_leaf_key v = cb_subject (v_leaf v)"
proof -
  from assms have n: "chain \<noteq> []" "length chain \<le> 2" by (auto simp: verify_chain_def MAX_CHAIN_def split: if_splits)
  from assms n obtain bodies where b: "collect_ok (\<lambda>c. decode_body cr (cert_body c)) chain = Inr bodies"
    "check_links cr root now (zip chain bodies) = Inr ()" "v_leaf v = hd bodies" "v_leaf_key v = cb_subject (v_leaf v)"
    by (auto simp: verify_chain_def MAX_CHAIN_def result_ok)
  from n consider cert where "chain = [cert]" | cert dcert where "chain = [cert, dcert]"
    by (cases chain; cases "tl chain") auto
  then show thesis
  proof cases
    case 1
    with b direct show thesis by (auto simp: result_ok)
  next
    case 2
    with b delegated show thesis by (auto simp: result_ok)
  qed
qed

lemma vouched_in_chain:
  assumes "cert \<in> set chain" and "decode_body cr (cert_body cert) = Inr b"
    and "verify cr root CERT_LABEL (cert_body cert) (cert_signature cert)" and "cb_issuer b = root"
  shows "vouched cr root chain b"
  using assms by (auto simp: vouched_def presented_def)

lemma vouched_predecessor:
  assumes "cert \<in> set chain" and "decode_body cr (cert_body cert) = Inr b" and "cb_renews b = Some previous"
    and "decode_body cr (cert_body previous) = Inr before"
    and "verify cr root CERT_LABEL (cert_body previous) (cert_signature previous)" and "cb_issuer before = root"
  shows "vouched cr root chain before"
proof -
  have "previous \<in> set (presented cr chain)" using assms(1-3) by (auto simp: presented_def intro!: bexI [of _ cert])
  with assms(4-) show ?thesis by (auto simp: vouched_def)
qed

text \<open>The right to revoke comes from the root and nobody between.\<close>

lemma granted_to_revoke:
  assumes "verify_chain cr root chain now = Inr v" and "cb_may_revoke (v_leaf v)"
  shows "length chain = 1 \<and> vouched cr root chain (v_leaf v)"
  using assms(1)
proof (cases rule: verify_chain_cases)
  case (direct cert)
  note L = check_link_ok [OF direct(3)]
  have "vouched cr root chain (v_leaf v)" by (rule vouched_in_chain [of cert]) (use direct L in auto)
  with direct show ?thesis by simp
next
  case (delegated cert dcert p)
  with check_link_ok(9) [OF delegated(4)] assms(2) show ?thesis by (auto simp: check_delegated_ok)
qed

text \<open>C12. Authority comes from the root. Every scope of a chain that verifies stands in terms the root itself signed and
  the chain presents; a scope that is never delegated stands there for the very same subject and agreement key; and
  a principal that may sign revocations was given that by the root directly. No property of the signature scheme is
  assumed: this is what the checks check.\<close>

theorem powers_come_from_the_root:
  assumes "verify_chain cr root chain now = Inr v"
  shows "(\<forall>s \<in> set (cb_scopes (v_leaf v)). \<exists>b. vouched cr root chain b \<and> s \<in> set (cb_scopes b))
    \<and> (\<forall>s \<in> set (cb_scopes (v_leaf v)) \<inter> set NEVER_DELEGABLE.
         \<exists>b. vouched cr root chain b \<and> s \<in> set (cb_scopes b) \<and> cb_subject b = v_leaf_key v
           \<and> cb_agreement_key b = cb_agreement_key (v_leaf v))
    \<and> (cb_may_revoke (v_leaf v) \<longrightarrow> length chain = 1 \<and> vouched cr root chain (v_leaf v))"
  using assms
proof (cases rule: verify_chain_cases)
  case (direct cert)
  note L = check_link_ok [OF direct(3)]
  have "vouched cr root chain (v_leaf v)" by (rule vouched_in_chain [of cert]) (use direct L in auto)
  with direct show ?thesis by auto
next
  case (delegated cert dcert p)
  note L = check_link_ok [OF delegated(4)] and D = check_link_ok [OF delegated(5)]
  have p: "vouched cr root chain p" by (rule vouched_in_chain [of dcert]) (use delegated D in auto)
  show ?thesis
  proof (cases "cb_renews (v_leaf v)")
    case None
    with L(9) p show ?thesis by (auto simp: check_delegated_ok)
  next
    case (Some previous)
    obtain before where B: "decode_body cr (cert_body previous) = Inr before" "cb_issuer before = root"
      "verify cr root CERT_LABEL (cert_body previous) (cert_signature previous)" "cb_subject before = cb_subject (v_leaf v)"
      "cb_agreement_key before = cb_agreement_key (v_leaf v)" "cb_scopes before = cb_scopes (v_leaf v)"
      using verify_renewal_ok [OF L(8) [OF Some]] by blast
    have "vouched cr root chain before"
      by (rule vouched_predecessor [of cert _ _ "v_leaf v" previous]) (use delegated Some B in auto)
    with B L(9) delegated show ?thesis by (auto simp: check_delegated_ok)
  qed
qed

text \<open>Access ends on its own: a chain that verifies at two moments verifies at moments no further apart than the longest
  certificate, and never after its delegate's certificate has ended.\<close>

theorem access_ends_without_renewal:
  assumes "verify_chain cr root chain t1 = Inr v" and "verify_chain cr root chain t2 = Inr w"
  shows "t2 \<le> t1 + MAX_CERTIFICATE_MS \<and> v_leaf w = v_leaf v
    \<and> (\<forall>c \<in> set chain. \<forall>b. decode_body cr (cert_body c) = Inr b \<longrightarrow> t2 \<le> cb_not_after_ms b)"
  using assms(2)
proof (cases rule: verify_chain_cases)
  case (direct cert)
  from assms(1) direct(1) have "check_link cr root t1 None cert (v_leaf w) = Inr ()" "v_leaf v = v_leaf w"
    using direct(2) by (auto elim!: verify_chain_cases)
  with check_link_ok(5-7) [of cr root t1] check_link_ok(5-7) [OF direct(3)] direct show ?thesis by fastforce
next
  case (delegated cert dcert p)
  from assms(1) delegated(1) have "check_link cr root t1 (Some p) cert (v_leaf w) = Inr ()" "v_leaf v = v_leaf w"
    using delegated(2,3) by (auto elim!: verify_chain_cases)
  with check_link_ok(5-7) [of cr root t1] check_link_ok(5-7) [OF delegated(4)] check_link_ok(5-7) [OF delegated(5)] delegated
  show ?thesis by fastforce
qed

section \<open>Issued and renewed certificates verify\<close>

text \<open>What the caller of \<open>issue\<close> sees to: keys of the right length, names and label within their bounds.\<close>

definition spec_fits :: "cert_spec \<Rightarrow> bool" where
  "spec_fits spec \<longleftrightarrow> length (cs_subject spec) = 32 \<and> length (cs_agreement_key spec) = 32
     \<and> length (cs_scopes spec) \<le> MAX_SCOPES \<and> list_all name_ok (cs_scopes spec) \<and> length (cs_label spec) \<le> MAX_LABEL_BYTES"

lemma honest_verifies: "honest cr \<Longrightarrow> verify cr (identity_public cr k) label m (identity_sign cr k label m)"
  by (simp add: honest_def verify_def identity_public_def identity_sign_def)

lemma honest_key: "honest cr \<Longrightarrow> length (identity_public cr k) = 32"
  by (simp add: honest_def identity_public_def)

lemma issue_ok:
  assumes "issue cr k spec = Inr c"
  shows "c = sign_certificate cr k spec" "check_window (cs_not_before_ms spec) (cs_not_after_ms spec) = Inr ()"
    "\<not> (cs_role spec = RoleBoxConnector \<and> (cs_may_pair spec \<or> list_ex (\<lambda>s. s \<in> set BOX_CONNECTOR_FORBIDS) (cs_scopes spec)))"
  using assms by (auto simp: issue_def result_ok split: if_splits)

lemma issued_verify:
  assumes "honest cr" and "issue cr root spec = Inr c" and "spec_fits spec" and "cs_subject spec \<noteq> identity_public cr root"
    and "dec_body cr (enc_body cr (spec_body cr root spec)) = Some (spec_body cr root spec)"
    and "length (enc_body cr (spec_body cr root spec)) \<le> MAX_CERT_BYTES"
    and "cs_not_before_ms spec \<le> now" and "now \<le> cs_not_after_ms spec"
  shows "verify_chain cr (identity_public cr root) [c] now =
    Inr \<lparr>v_account = account_id cr (identity_public cr root), v_principal = principal_id cr (cs_subject spec),
      v_leaf_key = cs_subject spec, v_leaf = spec_body cr root spec\<rparr>"
proof -
  let ?b = "spec_body cr root spec"
  note I = issue_ok [OF assms(2)]
  have f: "cb_subject ?b = cs_subject spec" "cb_renews ?b = None" "cb_issuer ?b = identity_public cr root"
    "role_of_i32 (cb_role ?b) = cs_role spec" by (simp_all add: spec_body_def)
  have c: "cert_body c = enc_body cr ?b" "cert_signature c = identity_sign cr root CERT_LABEL (enc_body cr ?b)"
    by (simp_all add: I(1) sign_certificate_def Let_def)
  have d: "decode_body cr (cert_body c) = Inr ?b"
    using assms(3,5,6) by (simp add: decode_body_def c spec_fits_def MAX_RENEWING_CERT_BYTES_def, simp add: spec_body_def)
  have "check_link cr (identity_public cr root) now None c ?b = Inr ()"
    using assms(3,4,7,8) I(2,3) f c honest_verifies [OF assms(1)] honest_key [OF assms(1)]
    by (simp add: check_link_def key32_def spec_fits_def) (simp add: spec_body_def)
  with d f assms(3) show ?thesis by (simp add: verify_chain_def MAX_CHAIN_def key32_def spec_fits_def)
qed

text \<open>What the root issues verifies: a certificate \<open>issue\<close> returns, presented alone within its window, is accepted as
  exactly the terms it was issued for.\<close>

theorem issued_certificates_verify:
  assumes "honest cr" and "issue cr root spec = Inr c" and "spec_fits spec" and "cs_subject spec \<noteq> identity_public cr root"
    and "dec_body cr (enc_body cr (spec_body cr root spec)) = Some (spec_body cr root spec)"
    and "length (enc_body cr (spec_body cr root spec)) \<le> MAX_CERT_BYTES"
    and "cs_not_before_ms spec \<le> now" and "now \<le> cs_not_after_ms spec"
  shows "verify_chain cr (identity_public cr root) [c] now =
    Inr \<lparr>v_account = account_id cr (identity_public cr root), v_principal = principal_id cr (cs_subject spec),
      v_leaf_key = cs_subject spec, v_leaf = spec_body cr root spec\<rparr>"
  using assms by (rule issued_verify)

text \<open>A delegate can renew whatever the root granted. From a certificate the root once issued, even one that has
  expired, a delegate that may pair makes one that verifies under the delegate's own certificate, with the same
  subject, agreement key, scopes and role, also where it could not have granted those scopes itself.\<close>

theorem renewed_certificates_verify:
  assumes "honest cr" and "verify_chain cr root [previous] t0 = Inr v0" and "cb_renews (v_leaf v0) = None"
    and "\<not> cb_may_revoke (v_leaf v0)" and "verify_chain cr root [d] now = Inr dv" and "cb_may_pair (v_leaf dv)"
    and "v_leaf_key dv = identity_public cr k" and "renew cr k previous nb na = Inr c"
    and "nb \<le> now" and "now \<le> na" and "na \<le> cb_not_after_ms (v_leaf dv)"
    and "b = (v_leaf v0)\<lparr>cb_issuer := identity_public cr k, cb_not_before_ms := nb, cb_not_after_ms := na, cb_renews := Some previous\<rparr>"
    and "dec_body cr (enc_body cr b) = Some b" and "length (enc_body cr b) \<le> MAX_RENEWING_CERT_BYTES"
  shows "\<exists>w. verify_chain cr root [c, d] now = Inr w \<and> v_leaf w = b \<and> v_principal w = v_principal v0"
proof -
  have P: "decode_body cr (cert_body previous) = Inr (v_leaf v0)" "check_link cr root t0 None previous (v_leaf v0) = Inr ()"
    using assms(2) by (auto elim!: verify_chain_cases)
  have D: "decode_body cr (cert_body d) = Inr (v_leaf dv)" "check_link cr root now None d (v_leaf dv) = Inr ()"
    "v_leaf_key dv = cb_subject (v_leaf dv)"
    using assms(5) by (auto elim!: verify_chain_cases)
  note PL = check_link_ok [OF P(2)] and DL = check_link_ok [OF D(2)]
  from assms(8) P(1) have c: "cert_body c = enc_body cr b" "cert_signature c = identity_sign cr k CERT_LABEL (enc_body cr b)"
    and w: "check_window nb na = Inr ()" using assms(3,12) by (auto simp: renew_def result_ok Let_def)
  have names: "length (cb_scopes (v_leaf v0)) \<le> MAX_SCOPES" "list_all name_ok (cb_scopes (v_leaf v0))"
    "length (cb_label (v_leaf v0)) \<le> MAX_LABEL_BYTES"
    using P(1) by (auto simp: decode_body_def result_ok split: if_splits)
  have d: "decode_body cr (cert_body c) = Inr b"
    using assms(13,14) names by (simp add: decode_body_def c) (simp add: assms(12))
  have "verify_renewal cr root b previous = Inr ()"
    using P(1) PL(3,4,10) assms(3) by (simp add: verify_renewal_def key32_def assms(12))
  moreover have "check_delegated (v_leaf dv) b True = Inr ()"
    using assms(4,6,11) by (simp add: check_delegated_ok assms(12))
  moreover have "verify cr (cb_subject (v_leaf dv)) CERT_LABEL (cert_body c) (cert_signature c)"
    using honest_verifies [OF assms(1), of k CERT_LABEL "enc_body cr b"] assms(7) D(3) c by simp
  moreover have "cb_subject b = cb_subject (v_leaf v0)" "cb_issuer b = cb_subject (v_leaf dv)" "cb_renews b = Some previous"
    "cb_agreement_key b = cb_agreement_key (v_leaf v0)" "cb_not_before_ms b = nb" "cb_not_after_ms b = na"
    "cb_role b = cb_role (v_leaf v0)" "cb_may_pair b = cb_may_pair (v_leaf v0)" "cb_scopes b = cb_scopes (v_leaf v0)"
    using assms(7) D(3) by (simp_all add: assms(12))
  ultimately have "check_link cr root now (Some (v_leaf dv)) c b = Inr ()"
    using PL(1,2,11,12) DL(1) assms(9,10) w by (simp add: check_link_def key32_def)
  moreover have "v_principal v0 = principal_id cr (cb_subject (v_leaf v0))"
    using assms(2) by (auto simp: verify_chain_def result_ok split: if_splits)
  ultimately show ?thesis using d D PL(1) by (simp add: verify_chain_def MAX_CHAIN_def key32_def assms(12))
qed

section \<open>Signed bytes\<close>

lemma zero_closed:
  assumes "0 \<notin> set l" and "0 \<notin> set l'" and "(l @ [0 :: u8]) @ m = (l' @ [0]) @ m'"
  shows "l = l' \<and> m = m'"
proof -
  have "takeWhile (\<lambda>x. x \<noteq> 0) ((l @ [0]) @ m) = l" "takeWhile (\<lambda>x. x \<noteq> 0) ((l' @ [0]) @ m') = l'"
    using assms(1,2) by (auto simp: takeWhile_append)
  with assms(3) show ?thesis by simp
qed

definition LABELS :: "bytes list" where
  "LABELS = [CERT_LABEL, HELLO_LABEL, COMMAND_LABEL, GRANT_LABEL, STREAM_LABEL]"

lemma labels_closed: "l \<in> set LABELS \<Longrightarrow> \<exists>t. l = t @ [0] \<and> 0 \<notin> set t"
  by (auto simp: LABELS_def CERT_LABEL_def HELLO_LABEL_def COMMAND_LABEL_def GRANT_LABEL_def STREAM_LABEL_def label_bytes_def)

lemma length_be32 [simp]: "length (be32 n) = 4"
  by (simp add: be32_def)

lemma be32_inject: "n < 2 ^ 32 \<Longrightarrow> m < 2 ^ 32 \<Longrightarrow> be32 n = be32 m \<Longrightarrow> n = m"
proof -
  assume lt: "n < 2 ^ 32" "m < 2 ^ 32" and eq: "be32 n = be32 m"
  have q: "x div 65536 = x div 256 div 256" "x div 16777216 = x div 256 div 256 div 256" for x :: nat
    by (simp_all add: div_mult2_eq [symmetric])
  from eq have "n mod 256 = m mod 256" "n div 256 mod 256 = m div 256 mod 256"
    "n div 256 div 256 mod 256 = m div 256 div 256 mod 256" "n div 256 div 256 div 256 mod 256 = m div 256 div 256 div 256 mod 256"
    by (simp_all add: be32_def word_of_nat_eq_iff take_bit_eq_mod q)
  moreover have "n div 256 div 256 div 256 < 256" "m div 256 div 256 div 256 < 256"
    using lt by (simp_all add: div_mult2_eq [symmetric] div_less_iff_less_mult)
  ultimately show ?thesis by (metis mod_less div_mult_mod_eq)
qed

lemma of_char_u8_inj: "inj (of_char :: char \<Rightarrow> u8)"
proof (rule injI)
  fix c d :: char
  assume "of_char c = (of_char d :: u8)"
  then have "(of_nat (of_char c) :: u8) = of_nat (of_char d)" by (simp only: of_nat_of_char)
  then show "c = d" by (simp add: word_of_nat_eq_iff take_bit_eq_mod)
qed

text \<open>A field that is preceded by its length is read back, whatever follows.\<close>

lemma len32_field:
  assumes "length a < 2 ^ 32" and "length b < 2 ^ 32"
    and "be32 (len32 (length a)) @ a @ x = be32 (len32 (length b)) @ b @ y"
  shows "a = b \<and> x = y"
proof -
  have "be32 (length a) = be32 (length b)" "a @ x = b @ y" using assms by (simp_all add: len32_def append_eq_append_conv)
  then show ?thesis using be32_inject [of "length a" "length b"] assms(1,2) by simp
qed

text \<open>A signature answers one challenge for one purpose. Bytes signed under any label are those of a hello only if the label
  is the hello's; and two hello transcripts are equal only if the hub's name, the nonce, the principal, the role and
  the account all are.\<close>

theorem hello_signatures_name_one_login:
  assumes "l \<in> set LABELS" and "l @ m = HELLO_LABEL @ hello_transcript hub nonce who role account"
    and "length hub < 2 ^ 32" "length nonce < 2 ^ 32" "length who < 2 ^ 32"
  shows "l = HELLO_LABEL
    \<and> (\<forall>hub' nonce' who' role' account'. length hub' < 2 ^ 32 \<and> length nonce' < 2 ^ 32 \<and> length who' < 2 ^ 32
         \<and> m = hello_transcript hub' nonce' who' role' account'
       \<longrightarrow> hub' = hub \<and> nonce' = nonce \<and> who' = who \<and> role' = role \<and> account' = account)"
proof -
  have "HELLO_LABEL \<in> set LABELS" by (simp add: LABELS_def)
  with labels_closed [OF assms(1)] labels_closed [of HELLO_LABEL] zero_closed assms(2)
  have lm: "l = HELLO_LABEL" "m = hello_transcript hub nonce who role account" by metis+
  have "hub' = hub \<and> nonce' = nonce \<and> who' = who \<and> role' = role \<and> account' = account"
    if L: "length hub' < 2 ^ 32" "length nonce' < 2 ^ 32" "length who' < 2 ^ 32"
      and eq: "m = hello_transcript hub' nonce' who' role' account'" for hub' nonce' who' role' account'
  proof -
    let ?after_nonce = "\<lambda>who role account. be32 (len32 (length who)) @ who @ be32 (nat (i32_of_role role)) @ account"
    have "map of_char hub' = (map of_char hub :: bytes) \<and> be32 (len32 (length nonce')) @ nonce' @ ?after_nonce who' role' account'
        = be32 (len32 (length nonce)) @ nonce @ ?after_nonce who role account"
      using eq lm(2) assms(3) L(1) by (intro len32_field) (simp_all add: hello_transcript_def)
    moreover from this have n: "nonce' = nonce \<and> ?after_nonce who' role' account' = ?after_nonce who role account"
      using assms(4) L(2) by (intro len32_field) simp_all
    moreover from n have w: "who' = who \<and> be32 (nat (i32_of_role role')) @ account' = be32 (nat (i32_of_role role)) @ account"
      using assms(5) L(3) by (intro len32_field) simp_all
    moreover from w have "role' = role \<and> account' = account"
      using be32_inject [of "nat (i32_of_role role')" "nat (i32_of_role role)"]
      by (cases role; cases role') (simp_all add: i32_of_role_def be32_def)
    ultimately show ?thesis using inj_map_eq_map [OF of_char_u8_inj] by auto
  qed
  with lm show ?thesis by blast
qed

section \<open>An example account\<close>

text \<open>
  A concrete suite, for the examples: keys are padded seeds, a signature is the key followed by what it signs, and the
  codec knows the three bodies of the example.
\<close>

definition pad_key :: "bytes \<Rightarrow> bytes" where
  "pad_key k = take 32 (k @ replicate 32 0)"

definition phone_spec :: cert_spec where
  "phone_spec = \<lparr>cs_subject = pad_key [7], cs_agreement_key = pad_key [8], cs_role = RoleClient, cs_scopes = [''view'', ''approve''],
     cs_may_pair = False, cs_may_revoke = False, cs_not_before_ms = 10, cs_not_after_ms = 20, cs_label = ''phone''\<rparr>"

definition laptop_spec :: cert_spec where
  "laptop_spec = \<lparr>cs_subject = pad_key [2], cs_agreement_key = pad_key [3], cs_role = RoleRuntime, cs_scopes = [''view''],
     cs_may_pair = True, cs_may_revoke = False, cs_not_before_ms = 15, cs_not_after_ms = 90, cs_label = ''laptop''\<rparr>"

definition keyless :: suite where
  "keyless = \<lparr>sha256 = (\<lambda>b. b), public_of = pad_key, ed_sign = (\<lambda>k m. pad_key k @ m), ed_verify = (\<lambda>k m s. s = k @ m),
     enc_body = (\<lambda>_. []), dec_body = (\<lambda>_. None)\<rparr>"

definition phone_body :: certificate_body where "phone_body = spec_body keyless [1] phone_spec"
definition laptop_body :: certificate_body where "laptop_body = spec_body keyless [1] laptop_spec"

definition phone_cert :: certificate where
  "phone_cert = \<lparr>cert_body = [1], cert_signature = identity_sign keyless [1] CERT_LABEL [1]\<rparr>"

definition laptop_cert :: certificate where
  "laptop_cert = \<lparr>cert_body = [2], cert_signature = identity_sign keyless [1] CERT_LABEL [2]\<rparr>"

definition renewed_body :: certificate_body where
  "renewed_body = phone_body\<lparr>cb_issuer := pad_key [2], cb_not_before_ms := 30, cb_not_after_ms := 60, cb_renews := Some phone_cert\<rparr>"

definition desk :: suite where
  "desk = keyless\<lparr>enc_body := (\<lambda>b. if b = phone_body then [1] else if b = laptop_body then [2] else [3]),
     dec_body := (\<lambda>bs. if bs = [1] then Some phone_body else if bs = [2] then Some laptop_body
                       else if bs = [3] then Some renewed_body else None)\<rparr>"

lemma desk_simps [simp]:
  "identity_public desk k = pad_key k" "verify desk k l m s \<longleftrightarrow> s = k @ l @ m" "identity_sign desk k l m = pad_key k @ l @ m"
  "spec_body desk = spec_body keyless"
  by (simp_all add: desk_def keyless_def identity_public_def verify_def identity_sign_def spec_body_def fun_eq_iff)

lemma pad_key_length [simp]: "length (pad_key k) = 32"
  by (simp add: pad_key_def)

lemma desk_honest: "honest desk"
  by (simp add: honest_def desk_def keyless_def)

lemma desk_keys [simp]: "pad_key [7] \<noteq> pad_key [1]" "pad_key [2] \<noteq> pad_key [1]" "pad_key [2] \<noteq> pad_key [7]"
  by (simp_all add: pad_key_def)

lemma desk_bodies: "phone_body \<noteq> laptop_body" "renewed_body \<noteq> phone_body" "renewed_body \<noteq> laptop_body"
proof -
  have "cb_label phone_body \<noteq> cb_label laptop_body" "cb_renews renewed_body \<noteq> cb_renews phone_body" "cb_label renewed_body \<noteq> cb_label laptop_body"
    by (simp_all add: phone_body_def laptop_body_def renewed_body_def spec_body_def phone_spec_def laptop_spec_def)
  then show "phone_body \<noteq> laptop_body" "renewed_body \<noteq> phone_body" "renewed_body \<noteq> laptop_body" by auto
qed

lemma desk_codec [simp]:
  "enc_body desk phone_body = [1]" "enc_body desk laptop_body = [2]" "enc_body desk renewed_body = [3]"
  "dec_body desk [1] = Some phone_body" "dec_body desk [2] = Some laptop_body" "dec_body desk [3] = Some renewed_body"
  using desk_bodies by (simp_all add: desk_def)

lemma desk_specs: "spec_fits phone_spec" "spec_fits laptop_spec"
  by (simp_all add: spec_fits_def phone_spec_def laptop_spec_def name_ok_def MAX_SCOPES_def MAX_SCOPE_BYTES_def MAX_LABEL_BYTES_def)

lemma desk_issues: "issue desk [1] phone_spec = Inr phone_cert" "issue desk [1] laptop_spec = Inr laptop_cert"
proof -
  have "sign_certificate desk [1] phone_spec = phone_cert" "sign_certificate desk [1] laptop_spec = laptop_cert"
    by (simp_all add: sign_certificate_def Let_def phone_body_def [symmetric] laptop_body_def [symmetric] phone_cert_def laptop_cert_def)
      (simp_all add: identity_sign_def keyless_def)
  then show "issue desk [1] phone_spec = Inr phone_cert" "issue desk [1] laptop_spec = Inr laptop_cert"
    by (simp_all add: issue_def check_window_def MAX_CERTIFICATE_MS_def, simp_all add: phone_spec_def laptop_spec_def)
qed

theorem issued_certificates_verify_witness:
  "verify_chain desk (pad_key [1]) [phone_cert] 12 =
     Inr \<lparr>v_account = account_id desk (pad_key [1]), v_principal = principal_id desk (cs_subject phone_spec),
       v_leaf_key = cs_subject phone_spec, v_leaf = phone_body\<rparr>"
  using issued_certificates_verify [OF desk_honest desk_issues(1) desk_specs(1), of 12]
  by (simp add: phone_body_def [symmetric] MAX_CERT_BYTES_def) (simp add: phone_spec_def)

lemma desk_chains:
  "12 \<le> t \<Longrightarrow> t \<le> 20 \<Longrightarrow> verify_chain desk (pad_key [1]) [phone_cert] t =
     Inr \<lparr>v_account = pad_key [1], v_principal = pad_key [7], v_leaf_key = pad_key [7], v_leaf = phone_body\<rparr>"
  "15 \<le> t \<Longrightarrow> t \<le> 90 \<Longrightarrow> verify_chain desk (pad_key [1]) [laptop_cert] t =
     Inr \<lparr>v_account = pad_key [1], v_principal = pad_key [2], v_leaf_key = pad_key [2], v_leaf = laptop_body\<rparr>"
  using issued_verify [OF desk_honest desk_issues(1) desk_specs(1), of t] issued_verify [OF desk_honest desk_issues(2) desk_specs(2), of t]
  by (simp_all add: phone_body_def [symmetric] laptop_body_def [symmetric] MAX_CERT_BYTES_def)
    (simp_all add: phone_spec_def laptop_spec_def account_id_def principal_id_def desk_def keyless_def)

theorem access_ends_without_renewal_witness:
  "(20 :: nat) \<le> 12 + MAX_CERTIFICATE_MS \<and> isl (verify_chain desk (pad_key [1]) [phone_cert] 21)"
proof -
  have "\<not> isl (verify_chain desk (pad_key [1]) [phone_cert] t) \<longrightarrow> t \<le> 20" for t
  proof
    assume "\<not> isl (verify_chain desk (pad_key [1]) [phone_cert] t)"
    then obtain w where w: "verify_chain desk (pad_key [1]) [phone_cert] t = Inr w"
      by (cases "verify_chain desk (pad_key [1]) [phone_cert] t") auto
    have "cb_not_after_ms phone_body = 20" "decode_body desk (cert_body phone_cert) = Inr phone_body"
      using desk_chains(1) [of 12] by (auto simp: phone_body_def spec_body_def phone_spec_def elim!: verify_chain_cases)
    with access_ends_without_renewal [OF desk_chains(1) [of 12] w] show "t \<le> 20" by force
  qed
  from this [of 21] show ?thesis by (simp add: MAX_CERTIFICATE_MS_def)
qed

theorem powers_come_from_the_root_witness:
  "\<exists>b. vouched desk (pad_key [1]) [phone_cert] b \<and> ''approve'' \<in> set (cb_scopes b) \<and> cb_subject b = pad_key [7]"
proof -
  have "''approve'' \<in> set (cb_scopes phone_body) \<inter> set NEVER_DELEGABLE"
    by (simp add: phone_body_def spec_body_def phone_spec_def NEVER_DELEGABLE_def APPROVE_def)
  with powers_come_from_the_root [OF desk_chains(1) [of 12]] show ?thesis by fastforce
qed

definition renewed_cert :: certificate where
  "renewed_cert = \<lparr>cert_body = [3], cert_signature = identity_sign desk [2] CERT_LABEL [3]\<rparr>"

lemma desk_renews: "renew desk [2] phone_cert 30 60 = Inr renewed_cert"
proof -
  have "decode_body desk (cert_body phone_cert) = Inr phone_body" using desk_chains(1) [of 12] by (auto elim!: verify_chain_cases)
  moreover have "cb_renews phone_body = None" by (simp add: phone_body_def spec_body_def)
  ultimately show ?thesis
    by (simp add: renew_def check_window_def MAX_CERTIFICATE_MS_def Let_def renewed_body_def [symmetric] renewed_cert_def)
qed

theorem renewed_certificates_verify_witness:
  "\<exists>w. verify_chain desk (pad_key [1]) [renewed_cert, laptop_cert] 50 = Inr w \<and> v_leaf w = renewed_body \<and> v_principal w = pad_key [7]"
proof -
  have f: "cb_renews phone_body = None" "\<not> cb_may_revoke phone_body" "cb_may_pair laptop_body" "cb_not_after_ms laptop_body = 90"
    by (simp_all add: phone_body_def laptop_body_def spec_body_def phone_spec_def laptop_spec_def)
  show ?thesis
    using renewed_certificates_verify [OF desk_honest desk_chains(1) [of 12] _ _ desk_chains(2) [of 50] _ _ desk_renews, of renewed_body] f
    by (simp add: renewed_body_def [symmetric] MAX_RENEWING_CERT_BYTES_def)
qed

theorem hello_signatures_name_one_login_witness:
  "hello_transcript ''hub'' [1] [2] RoleClient [3] \<noteq> hello_transcript ''hub'' [1, 2] [] RoleClient [3]"
proof
  assume eq: "hello_transcript ''hub'' [1] [2] RoleClient [3] = hello_transcript ''hub'' [1, 2] [] RoleClient [3]"
  have "[1, 2] = [1 :: u8]"
    using hello_signatures_name_one_login [of HELLO_LABEL "hello_transcript ''hub'' [1, 2] [] RoleClient [3]" "''hub''" "[1]" "[2]" RoleClient "[3]",
        THEN conjunct2, THEN spec [of _ "''hub''"], THEN spec [of _ "[1, 2]"], THEN spec [of _ "[]"], THEN spec [of _ RoleClient],
        THEN spec [of _ "[3]"]] eq
    by (simp add: LABELS_def)
  then show False by simp
qed

end
