(* ===== verification/Revocation.thy ===== *)
theory Revocation
  imports Keys
begin

text \<open>
  Revocation lists and pairing codes, \<open>crates/keys/src/revocation.rs\<close> and \<open>crates/keys/src/pairing.rs\<close>: what an account has
  revoked, who may say so, and what a holder of a list does with the next one; and the code a person carries from
  one device to another.
\<close>

section \<open>Revocation lists\<close>

definition REVOCATION_LABEL :: bytes where "REVOCATION_LABEL = label_bytes ''wmlhub/revocation/v1''"
definition MAX_REVOKED :: nat where "MAX_REVOKED = 256"
definition MAX_REVOCATION_BYTES :: nat where "MAX_REVOCATION_BYTES = 16 * 2 ^ 10"
definition MAX_FUTURE_MS :: nat where "MAX_FUTURE_MS = 60000"

record revocation_body =
  rb_account :: bytes
  rb_version :: nat
  rb_principals :: "bytes list"
  rb_certificates :: "bytes list"

record revocation_list =
  rl_body :: bytes
  rl_signature :: bytes
  rl_chain :: "certificate list"

record list_suite = suite +
  enc_list :: "revocation_body \<Rightarrow> bytes"
  dec_list :: "bytes \<Rightarrow> revocation_body option"

datatype revocation_error =
    ListMalformed | WrongAccount | Chain chain_error | NotRevoker | SignerRevoked | ListSignature | FromTheFuture | Stale

record revoked =
  rv_version :: nat
  rv_signer :: bytes
  rv_principals :: "bytes set"
  rv_certificates :: "bytes set"

definition certificate_hash :: "'x suite_scheme \<Rightarrow> certificate \<Rightarrow> bytes" where
  "certificate_hash cr cert = sha256 cr (cert_body cert)"

definition revokes_cert :: "'x suite_scheme \<Rightarrow> revoked \<Rightarrow> certificate \<Rightarrow> bool" where
  "revokes_cert cr r cert =
     (case dec_body cr (cert_body cert) of
        None \<Rightarrow> True
      | Some body \<Rightarrow>
          if length (cb_subject body) \<noteq> 32 then True
          else principal_id cr (cb_subject body) \<in> rv_principals r
            \<or> certificate_hash cr cert \<in> rv_certificates r
            \<or> (case cb_renews body of Some previous \<Rightarrow> certificate_hash cr previous \<in> rv_certificates r | None \<Rightarrow> False))"

definition revokes :: "'x suite_scheme \<Rightarrow> revoked \<Rightarrow> certificate list \<Rightarrow> bool" where
  "revokes cr r chain = list_ex (revokes_cert cr r) chain"

definition revoked_len :: "revoked \<Rightarrow> nat" where
  "revoked_len r = card (rv_principals r) + card (rv_certificates r)"

definition revoked_is_empty :: "revoked \<Rightarrow> bool" where
  "revoked_is_empty r \<longleftrightarrow> revoked_len r = 0"

definition adds_to :: "revoked \<Rightarrow> revoked option \<Rightarrow> bool" where
  "adds_to r older =
     (case older of
        None \<Rightarrow> \<not> revoked_is_empty r
      | Some old \<Rightarrow> \<not> rv_principals r \<subseteq> rv_principals old \<or> \<not> rv_certificates r \<subseteq> rv_certificates old)"

definition sign_revocations ::
    "'x list_suite_scheme \<Rightarrow> identity \<Rightarrow> certificate list \<Rightarrow> bytes \<Rightarrow> nat \<Rightarrow> bytes list \<Rightarrow> bytes list \<Rightarrow> revocation_list" where
  "sign_revocations cr signer chain account version principals certificates =
     (let body = enc_list cr \<lparr>rb_account = account, rb_version = version, rb_principals = principals, rb_certificates = certificates\<rparr>
      in \<lparr>rl_body = body, rl_signature = identity_sign cr signer REVOCATION_LABEL body, rl_chain = chain\<rparr>)"

definition entry32 :: "bytes \<Rightarrow> revocation_error + bytes" where
  "entry32 bs = (if length bs = 32 then Inr bs else Inl ListMalformed)"

definition chain_err :: "chain_error + 'a \<Rightarrow> revocation_error + 'a" where
  "chain_err r = (case r of Inl e \<Rightarrow> Inl (Chain e) | Inr x \<Rightarrow> Inr x)"

definition verify_revocations ::
    "'x list_suite_scheme \<Rightarrow> public_key \<Rightarrow> revocation_list \<Rightarrow> nat \<Rightarrow> revoked option \<Rightarrow> revocation_error + revoked" where
  "verify_revocations cr root lst now_ms held =
     and_then (ensure (length (rl_body lst) \<le> MAX_REVOCATION_BYTES) ListMalformed) (\<lambda>_.
     and_then (or_err (dec_list cr (rl_body lst)) ListMalformed) (\<lambda>body.
     and_then (ensure (length (rb_principals body) + length (rb_certificates body) \<le> MAX_REVOKED) ListMalformed) (\<lambda>_.
     and_then (collect_ok entry32 (rb_principals body)) (\<lambda>principals.
     and_then (collect_ok entry32 (rb_certificates body)) (\<lambda>certificates.
     and_then (ensure (rb_account body = account_id cr root) WrongAccount) (\<lambda>_.
     and_then (ensure (rb_version body \<le> min (now_ms + MAX_FUTURE_MS) (2 ^ 64 - 1)) FromTheFuture) (\<lambda>_.
     and_then (ensure (\<not> (case held of Some h \<Rightarrow> rb_version body \<le> rv_version h | None \<Rightarrow> False)) Stale) (\<lambda>_.
     and_then (chain_err (verify_chain cr root (rl_chain lst) now_ms)) (\<lambda>v.
     and_then (ensure (cb_may_revoke (v_leaf v)) NotRevoker) (\<lambda>_.
     and_then (ensure (\<not> (case held of Some h \<Rightarrow> revokes cr h (rl_chain lst) | None \<Rightarrow> False)) SignerRevoked) (\<lambda>_.
     and_then (ensure (verify cr (v_leaf_key v) REVOCATION_LABEL (rl_body lst) (rl_signature lst)) ListSignature) (\<lambda>_.
     Inr \<lparr>rv_version = rb_version body, rv_signer = v_principal v, rv_principals = set principals, rv_certificates = set certificates\<rparr>))))))))))))"

section \<open>Holding a list\<close>

lemma chain_err_ok [result_ok]: "chain_err r = Inr x \<longleftrightarrow> r = Inr x"
  by (cases r) (simp_all add: chain_err_def)

lemma entry32_all: "collect_ok entry32 xs = Inr ys \<longleftrightarrow> ys = xs \<and> (\<forall>x \<in> set xs. length x = 32)"
  by (induction xs arbitrary: ys) (auto simp: result_ok entry32_def split: if_splits)

lemma verify_revocations_ok:
  assumes "verify_revocations cr root lst now held = Inr r"
  obtains body v where "dec_list cr (rl_body lst) = Some body" "rv_version r = rb_version body"
    "rv_principals r = set (rb_principals body)" "rv_certificates r = set (rb_certificates body)"
    "length (rb_principals body) + length (rb_certificates body) \<le> MAX_REVOKED"
    "rb_account body = account_id cr root" "rv_version r \<le> now + MAX_FUTURE_MS"
    "verify_chain cr root (rl_chain lst) now = Inr v" "cb_may_revoke (v_leaf v)" "rv_signer r = v_principal v"
    "verify cr (v_leaf_key v) REVOCATION_LABEL (rl_body lst) (rl_signature lst)"
    "\<forall>h. held = Some h \<longrightarrow> rv_version h < rv_version r \<and> \<not> revokes cr h (rl_chain lst)"
  using assms by (auto simp: verify_revocations_def result_ok entry32_all split: option.splits)

text \<open>What a publisher does with the lists it is sent: it keeps the last one that verified against the one before.\<close>

fun hold :: "'x list_suite_scheme \<Rightarrow> public_key \<Rightarrow> (revocation_list \<times> nat) list \<Rightarrow> revoked option \<Rightarrow> revoked option" where
  "hold cr root [] held = held"
| "hold cr root ((lst, now) # es) held =
     hold cr root es (case verify_revocations cr root lst now held of Inr r \<Rightarrow> Some r | Inl _ \<Rightarrow> held)"

definition version_of :: "revoked option \<Rightarrow> nat" where
  "version_of held = (case held of None \<Rightarrow> 0 | Some h \<Rightarrow> rv_version h)"

lemma hold_version: "version_of held \<le> version_of (hold cr root es held)"
proof (induction cr root es held rule: hold.induct)
  case (2 cr root lst now es held)
  show ?case
  proof (cases "verify_revocations cr root lst now held")
    case (Inr r)
    then have "version_of held \<le> version_of (Some r)"
      by (auto elim!: verify_revocations_ok simp: version_of_def split: option.split dest: less_imp_le)
    with 2 Inr show ?thesis by auto
  qed (use 2 in auto)
qed simp

text \<open>C18. A list that is accepted was signed by a principal the root itself allowed to revoke, for this account, and by one the
  list held so far does not revoke; it is newer than the one held and at most a minute ahead of the holder's clock, and
  it carries at most \<open>MAX_REVOKED\<close> entries.\<close>

theorem accepted_lists_are_the_revokers:
  assumes "verify_revocations cr root lst now held = Inr r"
  shows "(\<exists>leaf. vouched cr root (rl_chain lst) leaf \<and> length (rl_chain lst) = 1 \<and> cb_may_revoke leaf
            \<and> verify cr (cb_subject leaf) REVOCATION_LABEL (rl_body lst) (rl_signature lst)
            \<and> rv_signer r = principal_id cr (cb_subject leaf))
    \<and> (\<forall>h. held = Some h \<longrightarrow> rv_version h < rv_version r \<and> \<not> revokes cr h (rl_chain lst))
    \<and> rv_version r \<le> now + MAX_FUTURE_MS \<and> revoked_len r \<le> MAX_REVOKED"
proof -
  from assms obtain body :: revocation_body and v where B: "rv_principals r = set (rb_principals body)" "rv_certificates r = set (rb_certificates body)"
    "length (rb_principals body) + length (rb_certificates body) \<le> MAX_REVOKED" "rv_version r \<le> now + MAX_FUTURE_MS"
    and V: "verify_chain cr root (rl_chain lst) now = Inr v" "cb_may_revoke (v_leaf v)" "rv_signer r = v_principal v"
    "verify cr (v_leaf_key v) REVOCATION_LABEL (rl_body lst) (rl_signature lst)"
    and H: "\<forall>h. held = Some h \<longrightarrow> rv_version h < rv_version r \<and> \<not> revokes cr h (rl_chain lst)"
    by (rule verify_revocations_ok) (rule that; assumption)
  have "revoked_len r \<le> MAX_REVOKED"
    using B(3) card_length [of "rb_principals body"] card_length [of "rb_certificates body"] by (simp add: revoked_len_def B(1,2))
  moreover have "vouched cr root (rl_chain lst) (v_leaf v) \<and> length (rl_chain lst) = 1"
    using granted_to_revoke [OF V(1,2)] by simp
  moreover have "v_leaf_key v = cb_subject (v_leaf v)" "v_principal v = principal_id cr (v_leaf_key v)"
    using V(1) by (auto simp: verify_chain_def result_ok split: if_splits)
  ultimately show ?thesis using V B(4) H by auto
qed

text \<open>No list is applied twice and none goes backwards: once a list has been accepted, whatever lists and times follow, the
  very same list is refused as not newer.\<close>

theorem replayed_lists_are_refused:
  assumes "verify_revocations cr root lst t held = Inr r"
  shows "isl (verify_revocations cr root lst t' (hold cr root es (Some r)))"
proof (cases "verify_revocations cr root lst t' (hold cr root es (Some r))")
  case (Inr r')
  have "hold cr root es (Some r) \<noteq> None" by (induction cr root es "Some r" arbitrary: r rule: hold.induct) (auto split: sum.split)
  then obtain h where h: "hold cr root es (Some r) = Some h" by blast
  have "rv_version r \<le> rv_version h" using hold_version [of "Some r" cr root es] by (simp add: h version_of_def)
  moreover have "rv_version h < rv_version r'" using Inr h by (auto elim!: verify_revocations_ok)
  moreover have "rv_version r' = rv_version r" using assms Inr by (auto elim!: verify_revocations_ok)
  ultimately show ?thesis by simp
qed simp

definition readable :: "'x suite_scheme \<Rightarrow> certificate list \<Rightarrow> bool" where
  "readable cr chain \<longleftrightarrow> (\<forall>c \<in> set chain. \<exists>b. dec_body cr (cert_body c) = Some b \<and> length (cb_subject b) = 32)"

lemma revokes_cert_mono:
  assumes "rv_principals r \<subseteq> rv_principals r'" and "rv_certificates r \<subseteq> rv_certificates r'" and "revokes_cert cr r cert"
  shows "revokes_cert cr r' cert"
proof (cases "dec_body cr (cert_body cert)")
  case (Some body)
  with assms show ?thesis by (cases "cb_renews body") (auto simp: revokes_cert_def split: if_splits)
qed (simp add: revokes_cert_def)

lemma revokes_mono:
  assumes "rv_principals r \<subseteq> rv_principals r'" and "rv_certificates r \<subseteq> rv_certificates r'" and "revokes cr r chain"
  shows "revokes cr r' chain"
  using assms(3) revokes_cert_mono [OF assms(1,2)] by (auto simp: revokes_def list_ex_iff)

lemma empty_list_revokes_nothing_readable:
  assumes "rv_principals r = {}" and "rv_certificates r = {}" and "readable cr chain"
  shows "\<not> revokes cr r chain"
proof -
  have "\<not> revokes_cert cr r c" if c: "c \<in> set chain" for c
  proof -
    obtain b where "dec_body cr (cert_body c) = Some b" "length (cb_subject b) = 32" using assms(3) c by (auto simp: readable_def)
    with assms(1,2) show ?thesis by (cases "cb_renews b") (simp_all add: revokes_cert_def)
  qed
  then show ?thesis by (auto simp: revokes_def list_ex_iff)
qed

text \<open>Keeping the key is safe. When an accepted list adds nothing to the one held, every readable chain it revokes was
  revoked already, so a publisher that does not rotate its key excludes nobody the new list would.\<close>

theorem keeping_the_key_is_safe:
  assumes "verify_revocations cr root lst now held = Inr r" and "\<not> adds_to r held" and "readable cr chain"
    and "revokes cr r chain"
  shows "\<exists>h. held = Some h \<and> revokes cr h chain"
proof (cases held)
  case None
  have "finite (rv_principals r) \<and> finite (rv_certificates r)" using assms(1) by (auto elim!: verify_revocations_ok)
  with assms(2) None have "rv_principals r = {}" "rv_certificates r = {}"
    by (auto simp: adds_to_def revoked_is_empty_def revoked_len_def)
  with assms(3,4) empty_list_revokes_nothing_readable show ?thesis by blast
next
  case (Some h)
  with assms(2) revokes_mono [OF _ _ assms(4), of h] show ?thesis by (simp add: adds_to_def)
qed

section \<open>Pairing codes\<close>

definition CODE_LABEL :: bytes where "CODE_LABEL = label_bytes ''wmlhub/pairing-code/v1''"
definition FINGERPRINT_LABEL :: bytes where "FINGERPRINT_LABEL = label_bytes ''wmlhub/pairing/v1''"
definition ALPHABET :: string where "ALPHABET = ''0123456789ABCDEFGHJKMNPQRSTVWXYZ''"
definition CODE_CHARS :: nat where "CODE_CHARS = 8"
definition FINGERPRINT_CHARS :: nat where "FINGERPRINT_CHARS = 12"

text \<open>A code from the eight random bytes the operating system gave.\<close>

definition code_generate :: "bytes \<Rightarrow> string" where
  "code_generate rnd = map (\<lambda>b. ALPHABET ! (unat b mod 32)) rnd"

definition to_ascii_uppercase :: "char \<Rightarrow> char" where
  "to_ascii_uppercase c = (let n = of_char c :: nat in if 97 \<le> n \<and> n \<le> 122 then char_of (n - 32) else c)"

definition read_char :: "char \<Rightarrow> char" where
  "read_char c = (let u = to_ascii_uppercase c in
     if u = CHR ''I'' \<or> u = CHR ''L'' then CHR ''1'' else if u = CHR ''O'' then CHR ''0'' else u)"

definition code_parse :: "string \<Rightarrow> string option" where
  "code_parse typed =
     (let code = map read_char (filter (\<lambda>c. \<not> is_space c \<and> c \<noteq> CHR ''-'') typed)
      in if length code \<noteq> CODE_CHARS \<or> \<not> list_all (\<lambda>c. c \<in> set ALPHABET) code then None else Some code)"

definition code_hash :: "'x suite_scheme \<Rightarrow> string \<Rightarrow> bytes" where
  "code_hash cr code = sha256 cr (CODE_LABEL @ map of_char code)"

definition fingerprint :: "'x suite_scheme \<Rightarrow> bytes \<Rightarrow> bytes \<Rightarrow> bytes" where
  "fingerprint cr identity_key agreement_key = sha256 cr (FINGERPRINT_LABEL @ identity_key @ agreement_key)"

definition fingerprint_hex :: "'x suite_scheme \<Rightarrow> bytes \<Rightarrow> bytes \<Rightarrow> string" where
  "fingerprint_hex cr identity_key agreement_key =
     hex (take (FINGERPRINT_CHARS div 2) (fingerprint cr identity_key agreement_key))"

lemma alphabet_length: "length ALPHABET = 32"
  by (simp add: ALPHABET_def)

lemma alphabet_reads: "c \<in> set ALPHABET \<Longrightarrow> read_char c = c \<and> \<not> is_space c \<and> c \<noteq> CHR ''-''"
proof -
  have "list_all (\<lambda>c. read_char c = c \<and> \<not> is_space c \<and> c \<noteq> CHR ''-'') ALPHABET"
    by (simp add: ALPHABET_def read_char_def to_ascii_uppercase_def is_space_def)
  then show "c \<in> set ALPHABET \<Longrightarrow> ?thesis" by (simp add: list_all_iff)
qed

lemma alphabet_plain: "to_ascii_uppercase c \<in> set ALPHABET \<Longrightarrow> read_char c = to_ascii_uppercase c"
proof -
  have "list_all (\<lambda>u. u \<noteq> CHR ''I'' \<and> u \<noteq> CHR ''L'' \<and> u \<noteq> CHR ''O'') ALPHABET" by (simp add: ALPHABET_def)
  then show "to_ascii_uppercase c \<in> set ALPHABET \<Longrightarrow> ?thesis" by (auto simp: list_all_iff read_char_def Let_def)
qed

lemma code_generate_chars: "c \<in> set (code_generate rnd) \<Longrightarrow> c \<in> set ALPHABET"
  by (auto simp: code_generate_def alphabet_length intro!: nth_mem)

lemma code_reads: "set code \<subseteq> set ALPHABET \<Longrightarrow> length code = CODE_CHARS \<Longrightarrow> code_parse code = Some code"
proof -
  assume a: "set code \<subseteq> set ALPHABET" "length code = CODE_CHARS"
  have "filter (\<lambda>c. \<not> is_space c \<and> c \<noteq> CHR ''-'') code = code" using a alphabet_reads by (intro filter_True) blast
  moreover have "map read_char code = code" using a alphabet_reads by (intro map_idI) blast
  ultimately show ?thesis using a by (auto simp: code_parse_def list_all_iff)
qed

text \<open>A code survives being carried: what a device shows is read back as the same code, and also when it is typed with
  spaces and dashes anywhere or in lower case.\<close>

definition carried_as :: "string \<Rightarrow> string \<Rightarrow> bool" where
  "carried_as typed code \<longleftrightarrow> map to_ascii_uppercase (filter (\<lambda>c. \<not> is_space c \<and> c \<noteq> CHR ''-'') typed) = code"

theorem codes_survive_being_carried:
  assumes "length rnd = CODE_CHARS" and "carried_as typed (code_generate rnd)"
  shows "code_parse typed = Some (code_generate rnd)"
proof -
  let ?kept = "filter (\<lambda>c. \<not> is_space c \<and> c \<noteq> CHR ''-'') typed"
  have k: "map to_ascii_uppercase ?kept = code_generate rnd" using assms(2) by (simp add: carried_as_def)
  have "map read_char ?kept = map to_ascii_uppercase ?kept"
  proof (rule map_cong [OF refl])
    fix c assume "c \<in> set ?kept"
    then have "to_ascii_uppercase c \<in> set (code_generate rnd)" by (subst k [symmetric]) (simp only: set_map image_eqI)
    then show "read_char c = to_ascii_uppercase c" by (intro alphabet_plain code_generate_chars)
  qed
  then have "map read_char ?kept = code_generate rnd" using k by simp
  moreover have "length (code_generate rnd) = CODE_CHARS" using assms(1) by (simp add: code_generate_def)
  ultimately show ?thesis using code_generate_chars by (auto simp: code_parse_def list_all_iff)
qed

section \<open>An example\<close>

definition signer_spec :: cert_spec where
  "signer_spec = \<lparr>cs_subject = pad_key [2], cs_agreement_key = pad_key [3], cs_role = RoleRuntime, cs_scopes = [],
     cs_may_pair = True, cs_may_revoke = True, cs_not_before_ms = 10, cs_not_after_ms = 90, cs_label = ''laptop''\<rparr>"

definition signer_body :: certificate_body where "signer_body = spec_body keyless [1] signer_spec"

definition office_list :: "nat \<Rightarrow> revocation_body" where
  "office_list version = \<lparr>rb_account = pad_key [1], rb_version = version, rb_principals = [pad_key [7]], rb_certificates = []\<rparr>"

definition office :: list_suite where
  "office = \<lparr>sha256 = (\<lambda>b. b), public_of = pad_key, ed_sign = (\<lambda>k m. pad_key k @ m), ed_verify = (\<lambda>k m s. s = k @ m),
     enc_body = (\<lambda>_. [1]), dec_body = (\<lambda>bs. if bs = [1] then Some signer_body else if bs = [2] then Some phone_body else None),
     enc_list = (\<lambda>b. [of_nat (rb_version b)]), dec_list = (\<lambda>bs. if length bs = 1 then Some (office_list (unat (hd bs))) else None)\<rparr>"

definition signer_cert :: certificate where
  "signer_cert = sign_certificate office [1] signer_spec"

definition signed_list :: "nat \<Rightarrow> revocation_list" where
  "signed_list version = sign_revocations office [2] [signer_cert] (pad_key [1]) version [pad_key [7]] []"

definition office_revoked :: "nat \<Rightarrow> revoked" where
  "office_revoked version = \<lparr>rv_version = version, rv_signer = pad_key [2], rv_principals = {pad_key [7]}, rv_certificates = {}\<rparr>"

definition office_like :: "'x list_suite_scheme \<Rightarrow> bool" where
  "office_like cr \<longleftrightarrow> sha256 cr = sha256 office \<and> public_of cr = public_of office \<and> ed_sign cr = ed_sign office \<and> ed_verify cr = ed_verify office
     \<and> enc_body cr = enc_body office \<and> dec_body cr = dec_body office \<and> dec_list cr = dec_list office"

lemma office_is_like: "office_like office"
  by (simp add: office_like_def)

lemma office_simps:
  assumes "office_like cr"
  shows "sha256 cr = (\<lambda>b. b)" "public_of cr = pad_key" "ed_sign cr = (\<lambda>k m. pad_key k @ m)" "ed_verify cr = (\<lambda>k m s. s = k @ m)"
    "enc_body cr = (\<lambda>_. [1])" "dec_body cr [1] = Some signer_body" "dec_body cr [2] = Some phone_body"
    "length bs = 1 \<Longrightarrow> dec_list cr bs = Some (office_list (unat (hd bs)))"
  using assms by (simp_all add: office_like_def, simp_all add: office_def)

lemma office_chain:
  assumes "office_like cr" "10 \<le> t" "t \<le> 90"
  shows "verify_chain cr (pad_key [1]) [signer_cert] t =
     Inr \<lparr>v_account = pad_key [1], v_principal = pad_key [2], v_leaf_key = pad_key [2], v_leaf = signer_body\<rparr>"
proof -
  note o = office_simps [OF assms(1)] and O = office_simps [OF office_is_like]
  have body: "spec_body cr [1] signer_spec = signer_body" "spec_body office [1] signer_spec = signer_body"
    by (simp_all add: signer_body_def spec_body_def identity_public_def o O keyless_def)
  have "honest cr" by (simp add: honest_def o)
  moreover have "issue cr [1] signer_spec = Inr signer_cert"
    by (simp add: issue_def check_window_def signer_spec_def MAX_CERTIFICATE_MS_def signer_cert_def, simp add: sign_certificate_def spec_body_def Let_def identity_sign_def o O)
  moreover have "spec_fits signer_spec" by (simp add: spec_fits_def signer_spec_def MAX_SCOPES_def MAX_LABEL_BYTES_def)
  moreover have "identity_public cr [1] = pad_key [1]" by (simp add: identity_public_def o)
  moreover have "cs_subject signer_spec = pad_key [2]" "cs_not_before_ms signer_spec = 10" "cs_not_after_ms signer_spec = 90"
    by (simp_all add: signer_spec_def)
  ultimately show ?thesis
    using assms(2,3) issued_verify [of cr "[1]" signer_spec signer_cert t]
    by (simp add: body o MAX_CERT_BYTES_def account_id_def principal_id_def)
qed

lemma office_accepts:
  assumes "office_like cr" "0 < n" "n < 100" "10 \<le> t" "t \<le> 90" "\<And>h. held = Some h \<Longrightarrow> rv_version h < n \<and> \<not> revokes cr h [signer_cert]"
  shows "verify_revocations cr (pad_key [1]) (signed_list n) t held = Inr (office_revoked n)"
proof -
  note o = office_simps [OF assms(1)] and O = office_simps [OF office_is_like]
  have n: "unat (of_nat n :: u8) = n" using assms(3) by (simp add: unsigned_of_nat take_bit_nat_eq_self)
  have l: "rl_body (signed_list n) = [of_nat n]" "rl_chain (signed_list n) = [signer_cert]"
    "rl_signature (signed_list n) = identity_sign office [2] REVOCATION_LABEL [of_nat n]"
    by (simp_all add: signed_list_def sign_revocations_def Let_def, simp_all add: office_def)
  have v: "verify cr (pad_key [2]) REVOCATION_LABEL [of_nat n] (rl_signature (signed_list n))"
    by (simp add: l verify_def identity_sign_def o O)
  have d: "dec_list cr [of_nat n] = Some (office_list n)" by (simp add: o n)
  have "cb_may_revoke signer_body" by (simp add: signer_body_def spec_body_def signer_spec_def)
  moreover have "account_id cr (pad_key [1]) = pad_key [1]" by (simp add: account_id_def o)
  moreover have "n \<le> min (t + MAX_FUTURE_MS) (2 ^ 64 - 1)" using assms(3) by (simp add: MAX_FUTURE_MS_def)
  ultimately show ?thesis
    using assms(6) office_chain [OF assms(1,4,5)] v
    by (cases held) (simp_all add: verify_revocations_def l(1,2) d office_list_def MAX_REVOCATION_BYTES_def MAX_REVOKED_def entry32_def
        chain_err_def office_revoked_def not_le)
qed

theorem accepted_lists_are_the_revokers_witness:
  "verify_revocations office (pad_key [1]) (signed_list 5) 20 None = Inr (office_revoked 5)
   \<and> (\<exists>leaf. vouched office (pad_key [1]) [signer_cert] leaf \<and> cb_may_revoke leaf)"
  using accepted_lists_are_the_revokers [OF office_accepts [OF office_is_like, of 5 20 None]] office_accepts [OF office_is_like, of 5 20 None]
  by (auto simp: signed_list_def sign_revocations_def Let_def)

theorem replayed_lists_are_refused_witness:
  "isl (verify_revocations office (pad_key [1]) (signed_list 5) 40 (hold office (pad_key [1]) [(signed_list 7, 30)] (Some (office_revoked 5))))"
  by (rule replayed_lists_are_refused [OF office_accepts [OF office_is_like, of 5 20 None]]) simp_all

lemma office_rest: "revokes office h [signer_cert] \<longleftrightarrow> pad_key [2] \<in> rv_principals h \<or> [1] \<in> rv_certificates h"
proof -
  have "dec_body office (cert_body signer_cert) = Some signer_body" "certificate_hash office signer_cert = [1]"
    "principal_id office (cb_subject signer_body) = pad_key [2]" "length (cb_subject signer_body) = 32" "cb_renews signer_body = None"
    by (simp_all add: signer_cert_def sign_certificate_def certificate_hash_def principal_id_def office_def Let_def,
        simp_all add: signer_body_def spec_body_def signer_spec_def)
  then show ?thesis by (simp add: revokes_def revokes_cert_def)
qed

theorem keeping_the_key_is_safe_witness:
  "\<exists>h. Some (office_revoked 4) = Some h \<and> revokes office h [\<lparr>cert_body = [2], cert_signature = []\<rparr>]"
proof (rule keeping_the_key_is_safe [OF office_accepts [OF office_is_like, of 5 20 "Some (office_revoked 4)"]])
  have b: "dec_body office [2] = Some phone_body" by (simp add: office_def)
  have p: "length (cb_subject phone_body) = 32" "principal_id office (cb_subject phone_body) = pad_key [7]"
    by (simp_all add: phone_body_def spec_body_def phone_spec_def principal_id_def office_def)
  show "readable office [\<lparr>cert_body = [2], cert_signature = []\<rparr>]" by (simp add: readable_def b p)
  show "revokes office (office_revoked 5) [\<lparr>cert_body = [2], cert_signature = []\<rparr>]"
    by (simp add: revokes_def revokes_cert_def b p office_revoked_def)
  show "rv_version h < 5 \<and> \<not> revokes office h [signer_cert]" if "Some (office_revoked 4) = Some h" for h
    using that by (auto simp: office_rest office_revoked_def)
qed (simp_all add: adds_to_def office_revoked_def)

theorem codes_survive_being_carried_witness: "code_parse ''01 23-45 67'' = Some ''01234567''"
proof -
  have g: "code_generate [0, 1, 2, 3, 4, 5, 6, 7] = ''01234567''" by (simp add: code_generate_def ALPHABET_def)
  have "carried_as ''01 23-45 67'' ''01234567''" by (simp add: carried_as_def to_ascii_uppercase_def is_space_def)
  then show ?thesis using codes_survive_being_carried [of "[0, 1, 2, 3, 4, 5, 6, 7]" "''01 23-45 67''"] g by (simp add: CODE_CHARS_def)
qed

end
