(* ===== verification/Seal.thy ===== *)
theory Seal
  imports Keys
begin

text \<open>
  Sealed, signed commands and results, \<open>crates/seal/src/lib.rs\<close>, and the sealing of a pairing answer,
  \<open>crates/seal/src/pairing.rs\<close>. Public-key encryption, the ephemeral randomness and the codec of the messages are fields
  of a \<open>seal_suite\<close>; the random source is an argument, \<open>None\<close> where the operating system refuses. The replay window is
  modelled in full, with the clock reading of every call an argument, so that clocks that stand still, jump or run
  backwards are all covered.
\<close>

section \<open>Messages and the suite\<close>

definition MAX_SEALED_BYTES :: nat where "MAX_SEALED_BYTES = 2 ^ 20"
definition NONCE_BYTES :: nat where "NONCE_BYTES = 16"
definition CLOCK_WINDOW_MS :: nat where "CLOCK_WINDOW_MS = 60000"
definition MAX_REPLAY_ENTRIES :: nat where "MAX_REPLAY_ENTRIES = 65536"
definition MAX_REPLAY_PER_SENDER :: nat where "MAX_REPLAY_PER_SENDER = 4096"
definition SEAL_INFO_LABEL :: bytes where "SEAL_INFO_LABEL = label_bytes ''wmlhub/seal/v1''"
definition PAIRING_INFO_LABEL :: bytes where "PAIRING_INFO_LABEL = label_bytes ''wmlhub/pairing-answer/v1''"

record command_body =
  cm_from :: bytes
  cm_to :: bytes
  cm_scope :: string
  cm_nonce :: bytes
  cm_time_ms :: nat
  cm_body :: bytes
  cm_answers :: bytes

record signed_body =
  sd_body :: bytes
  sd_signature :: bytes
  sd_chain :: "certificate list"

record sealed =
  sl_enc :: bytes
  sl_ciphertext :: bytes

record paired_with =
  pw_chain :: "certificate list"
  pw_account_root :: bytes
  pw_channel_key :: bytes

record seal_suite = suite +
  agreement_public :: "bytes \<Rightarrow> bytes"
  single_shot_seal :: "bytes \<Rightarrow> bytes \<Rightarrow> bytes \<Rightarrow> bytes \<Rightarrow> (bytes \<times> bytes) option"
  enc_key_ok :: "bytes \<Rightarrow> bool"
  single_shot_open :: "bytes \<Rightarrow> bytes \<Rightarrow> bytes \<Rightarrow> bytes \<Rightarrow> bytes option"
  enc_command :: "command_body \<Rightarrow> bytes"
  dec_command :: "bytes \<Rightarrow> command_body option"
  enc_signed :: "signed_body \<Rightarrow> bytes"
  dec_signed :: "bytes \<Rightarrow> signed_body option"
  enc_sealed :: "sealed \<Rightarrow> bytes"
  dec_sealed :: "bytes \<Rightarrow> sealed option"
  enc_paired :: "paired_with \<Rightarrow> bytes"
  dec_paired :: "bytes \<Rightarrow> paired_with option"

record sender =
  sn_identity :: identity
  sn_chain :: "certificate list"

record recipient =
  rt_principal :: bytes
  rt_agreement_key :: bytes

datatype seal_error = Random | Hpke | Aead

text \<open>\<open>OpenError::Malformed\<close>, \<open>Chain\<close>, \<open>Signature\<close> and \<open>Scope\<close> are \<open>BadShape\<close>, \<open>BadChain\<close>, \<open>BadSignature\<close> and \<open>BadScope\<close> here.\<close>

datatype open_error =
    TooLarge | BadShape | Decrypt | BadChain chain_error | NotSender | BadSignature | NotForMe | Clock | BadScope | Replay | Busy

section \<open>Sealing\<close>

definition info :: "bytes \<Rightarrow> bytes \<Rightarrow> bytes \<Rightarrow> bytes" where
  "info label from_id to_id = label @ from_id @ to_id"

definition hpke_seal_raw :: "'x seal_suite_scheme \<Rightarrow> bytes \<Rightarrow> bytes \<Rightarrow> bytes \<Rightarrow> bytes \<Rightarrow> bytes option" where
  "hpke_seal_raw cr eph label to_key plaintext =
     (case single_shot_seal cr eph to_key label plaintext of
        None \<Rightarrow> None | Some (enc, ct) \<Rightarrow> Some (enc_sealed cr \<lparr>sl_enc = enc, sl_ciphertext = ct\<rparr>))"

definition hpke_seal :: "'x seal_suite_scheme \<Rightarrow> bytes \<Rightarrow> bytes \<Rightarrow> bytes \<Rightarrow> recipient \<Rightarrow> bytes \<Rightarrow> bytes option" where
  "hpke_seal cr eph label sender_id to plaintext =
     (case single_shot_seal cr eph (rt_agreement_key to) (info label sender_id (rt_principal to)) plaintext of
        None \<Rightarrow> None | Some (enc, ct) \<Rightarrow> Some (enc_sealed cr \<lparr>sl_enc = enc, sl_ciphertext = ct\<rparr>))"

definition seal ::
    "'x seal_suite_scheme \<Rightarrow> bytes option \<Rightarrow> bytes \<Rightarrow> sender \<Rightarrow> recipient \<Rightarrow> string \<Rightarrow> bytes \<Rightarrow> bytes \<Rightarrow> nat \<Rightarrow> seal_error + bytes \<times> bytes" where
  "seal cr rnd eph from to scope body answers now_ms =
     and_then (or_err rnd Random) (\<lambda>nonce.
       let sender_id = principal_id cr (identity_public cr (sn_identity from));
           command = enc_command cr \<lparr>cm_from = sender_id, cm_to = rt_principal to, cm_scope = scope, cm_nonce = nonce,
                       cm_time_ms = now_ms, cm_body = body, cm_answers = answers\<rparr>;
           sb = enc_signed cr \<lparr>sd_body = command, sd_signature = sign_command cr (sn_identity from) command, sd_chain = sn_chain from\<rparr>
       in and_then (or_err (hpke_seal cr eph SEAL_INFO_LABEL sender_id to sb) Hpke) (\<lambda>sealed. Inr (sealed, nonce)))"

definition seal_command ::
    "'x seal_suite_scheme \<Rightarrow> bytes option \<Rightarrow> bytes \<Rightarrow> sender \<Rightarrow> recipient \<Rightarrow> string \<Rightarrow> bytes \<Rightarrow> nat \<Rightarrow> seal_error + bytes \<times> bytes" where
  "seal_command cr rnd eph from to scope body now_ms = seal cr rnd eph from to scope body [] now_ms"

definition seal_result ::
    "'x seal_suite_scheme \<Rightarrow> bytes option \<Rightarrow> bytes \<Rightarrow> sender \<Rightarrow> recipient \<Rightarrow> bytes \<Rightarrow> bytes \<Rightarrow> nat \<Rightarrow> seal_error + bytes" where
  "seal_result cr rnd eph from to answers body now_ms =
     and_then (seal cr rnd eph from to '''' body answers now_ms) (\<lambda>(sealed, _). Inr sealed)"

section \<open>Pairing answers\<close>

definition seal_pairing_answer :: "'x seal_suite_scheme \<Rightarrow> bytes \<Rightarrow> bytes \<Rightarrow> paired_with \<Rightarrow> seal_error + bytes" where
  "seal_pairing_answer cr eph offered_key paired =
     or_err (hpke_seal_raw cr eph PAIRING_INFO_LABEL offered_key (enc_paired cr paired)) Hpke"

definition enc_of :: "'x seal_suite_scheme \<Rightarrow> sealed \<Rightarrow> open_error + bytes" where
  "enc_of cr s = (if enc_key_ok cr (sl_enc s) then Inr (sl_enc s) else Inl BadShape)"

text \<open>Opening under an info string, the steps \<open>hpke_open_raw\<close> and \<open>Receiver::unseal\<close> share.\<close>

definition hpke_open_raw :: "'x seal_suite_scheme \<Rightarrow> bytes \<Rightarrow> bytes \<Rightarrow> bytes \<Rightarrow> open_error + bytes" where
  "hpke_open_raw cr label agreement bs =
     and_then (ensure (length bs \<le> MAX_SEALED_BYTES) TooLarge) (\<lambda>_.
     and_then (or_err (dec_sealed cr bs) BadShape) (\<lambda>s.
     and_then (enc_of cr s) (\<lambda>enc.
     or_err (single_shot_open cr agreement enc label (sl_ciphertext s)) Decrypt)))"

definition open_pairing_answer :: "'x seal_suite_scheme \<Rightarrow> bytes \<Rightarrow> bytes \<Rightarrow> open_error + paired_with" where
  "open_pairing_answer cr agreement bs =
     and_then (hpke_open_raw cr PAIRING_INFO_LABEL agreement bs) (\<lambda>plaintext.
     and_then (or_err (dec_paired cr plaintext) BadShape) (\<lambda>paired.
     and_then (ensure (length (pw_account_root paired) = 32 \<and> length (pw_channel_key paired) = 32) BadShape) (\<lambda>_.
     and_then (ensure (pw_chain paired \<noteq> [] \<and> length (pw_chain paired) \<le> MAX_CHAIN) BadShape) (\<lambda>_.
     Inr paired))))"

section \<open>The replay window\<close>

type_synonym replay_key = "bytes \<times> bytes"

record replay_window =
  rw_capacity :: nat
  rw_per_sender :: nat
  rw_seen :: "replay_key set"
  rw_held :: "(bytes \<times> nat) list"
  rw_order :: "(nat \<times> replay_key) list"

definition with_capacity :: "nat \<Rightarrow> nat \<Rightarrow> replay_window" where
  "with_capacity capacity per_sender = \<lparr>rw_capacity = capacity, rw_per_sender = per_sender, rw_seen = {}, rw_held = [], rw_order = []\<rparr>"

definition replay_default :: replay_window where
  "replay_default = with_capacity MAX_REPLAY_ENTRIES MAX_REPLAY_PER_SENDER"

definition release :: "bytes \<Rightarrow> replay_window \<Rightarrow> replay_window" where
  "release from w =
     (case map_of (rw_held w) from of
        None \<Rightarrow> w
      | Some held \<Rightarrow> w\<lparr>rw_held := if held - 1 = 0 then AList.delete from (rw_held w) else AList.update from (held - 1) (rw_held w)\<rparr>)"

text \<open>The loop that forgets what is due, from the front of the queue.\<close>

fun forget_due :: "nat \<Rightarrow> (nat \<times> replay_key) list \<Rightarrow> replay_window \<Rightarrow> replay_window" where
  "forget_due now_ms [] w = w\<lparr>rw_order := []\<rparr>"
| "forget_due now_ms ((forget_at, key) # rest) w =
     (if forget_at > now_ms then w\<lparr>rw_order := (forget_at, key) # rest\<rparr>
      else forget_due now_ms rest (if key \<in> rw_seen w then release (fst key) (w\<lparr>rw_seen := rw_seen w - {key}\<rparr>) else w))"

definition replay_admit :: "bytes \<Rightarrow> bytes \<Rightarrow> nat \<Rightarrow> replay_window \<Rightarrow> replay_window \<times> (open_error + unit)" where
  "replay_admit from nonce now_ms w0 =
     (let w = forget_due now_ms (rw_order w0) w0; key = (from, nonce) in
      if key \<in> rw_seen w then (w, Inl Replay)
      else if (case map_of (rw_held w) from of Some held \<Rightarrow> held \<ge> rw_per_sender w | None \<Rightarrow> False) \<or> card (rw_seen w) \<ge> rw_capacity w
      then (w, Inl Busy)
      else (w\<lparr>rw_seen := insert key (rw_seen w),
              rw_held := AList.update from ((case map_of (rw_held w) from of Some h \<Rightarrow> h | None \<Rightarrow> 0) + 1) (rw_held w),
              rw_order := rw_order w @ [(min (now_ms + (2 * CLOCK_WINDOW_MS + 1)) (2 ^ 64 - 1), key)]\<rparr>, Inr ()))"

section \<open>The receiver\<close>

record receiver =
  rc_principal :: bytes
  rc_agreement :: bytes
  rc_account_root :: public_key
  rc_replay :: replay_window

record opened =
  op_from :: bytes
  op_scope :: string
  op_nonce :: bytes
  op_time_ms :: nat
  op_body :: bytes
  op_answers :: "bytes option"
  op_leaf :: certificate_body
  op_chain :: "certificate list"

definition receiver_new :: "'x seal_suite_scheme \<Rightarrow> public_key \<Rightarrow> bytes \<Rightarrow> public_key \<Rightarrow> receiver" where
  "receiver_new cr identity_key agreement account_root =
     \<lparr>rc_principal = principal_id cr identity_key, rc_agreement = agreement, rc_account_root = account_root, rc_replay = replay_default\<rparr>"

definition unseal :: "'x seal_suite_scheme \<Rightarrow> bytes \<Rightarrow> bytes \<Rightarrow> bytes \<Rightarrow> receiver \<Rightarrow> open_error + bytes" where
  "unseal cr label sender_id bs r = hpke_open_raw cr (info label sender_id (rc_principal r)) (rc_agreement r) bs"

definition check_chain :: "'x seal_suite_scheme \<Rightarrow> bytes \<Rightarrow> certificate list \<Rightarrow> nat \<Rightarrow> receiver \<Rightarrow> open_error + verified" where
  "check_chain cr sender_id chain now_ms r =
     (case verify_chain cr (rc_account_root r) chain now_ms of
        Inl e \<Rightarrow> Inl (BadChain e)
      | Inr v \<Rightarrow> if v_principal v \<noteq> sender_id then Inl NotSender else Inr v)"

definition abs_diff :: "nat \<Rightarrow> nat \<Rightarrow> nat" where
  "abs_diff a b = (if a \<le> b then b - a else a - b)"

definition check_addressing ::
    "bytes \<Rightarrow> bytes \<Rightarrow> bytes \<Rightarrow> bytes \<Rightarrow> nat \<Rightarrow> nat \<Rightarrow> receiver \<Rightarrow> receiver \<times> (open_error + bytes)" where
  "check_addressing sender_id from to nonce time_ms now_ms r =
     (if from \<noteq> sender_id then (r, Inl NotSender)
      else if to \<noteq> rc_principal r then (r, Inl NotForMe)
      else if length nonce \<noteq> NONCE_BYTES then (r, Inl BadShape)
      else if abs_diff time_ms now_ms > CLOCK_WINDOW_MS then (r, Inl Clock)
      else case replay_admit sender_id nonce now_ms (rc_replay r) of
             (w, Inl e) \<Rightarrow> (r\<lparr>rc_replay := w\<rparr>, Inl e)
           | (w, Inr _) \<Rightarrow> (r\<lparr>rc_replay := w\<rparr>, Inr nonce))"

text \<open>What \<open>open\<close> checks before it touches the replay window: everything that does not depend on it.\<close>

definition answers_of :: "verified \<Rightarrow> command_body \<Rightarrow> open_error + bytes option" where
  "answers_of v body =
     (if cm_answers body = [] \<and> cm_scope body \<noteq> '''' then
        (if cm_scope body \<in> set (cb_scopes (v_leaf v)) then Inr None else Inl BadScope)
      else if cm_answers body \<noteq> [] \<and> cm_scope body = '''' then
        (if length (cm_answers body) = NONCE_BYTES then Inr (Some (cm_answers body)) else Inl BadShape)
      else Inl BadShape)"

definition open_checks ::
    "'x seal_suite_scheme \<Rightarrow> bytes \<Rightarrow> bytes \<Rightarrow> nat \<Rightarrow> receiver \<Rightarrow> open_error + signed_body \<times> verified \<times> command_body \<times> bytes option" where
  "open_checks cr sender_id bs now_ms r =
     and_then (ensure (length sender_id = 32) NotSender) (\<lambda>_.
     and_then (unseal cr SEAL_INFO_LABEL sender_id bs r) (\<lambda>plaintext.
     and_then (or_err (dec_signed cr plaintext) BadShape) (\<lambda>sb.
     and_then (check_chain cr sender_id (sd_chain sb) now_ms r) (\<lambda>v.
     and_then (ensure (verify_command cr (v_leaf_key v) (sd_body sb) (sd_signature sb)) BadSignature) (\<lambda>_.
     and_then (or_err (dec_command cr (sd_body sb)) BadShape) (\<lambda>body.
     and_then (answers_of v body) (\<lambda>answers. Inr (sb, v, body, answers))))))))"

definition receiver_open :: "'x seal_suite_scheme \<Rightarrow> bytes \<Rightarrow> bytes \<Rightarrow> nat \<Rightarrow> receiver \<Rightarrow> receiver \<times> (open_error + opened)" where
  "receiver_open cr sender_id bs now_ms r =
     (case open_checks cr sender_id bs now_ms r of
        Inl e \<Rightarrow> (r, Inl e)
      | Inr (sb, v, body, answers) \<Rightarrow>
          (case check_addressing sender_id (cm_from body) (cm_to body) (cm_nonce body) (cm_time_ms body) now_ms r of
             (r1, Inl e) \<Rightarrow> (r1, Inl e)
           | (r1, Inr nonce) \<Rightarrow> (r1, Inr \<lparr>op_from = sender_id, op_scope = cm_scope body, op_nonce = nonce, op_time_ms = cm_time_ms body,
               op_body = cm_body body, op_answers = answers, op_leaf = v_leaf v, op_chain = sd_chain sb\<rparr>)))"

section \<open>The window is exact and bounded\<close>

definition held_of :: "bytes \<Rightarrow> (nat \<times> replay_key) list \<Rightarrow> nat" where
  "held_of from order = length (filter (\<lambda>(_, k). fst k = from) order)"

definition window_ok :: "replay_window \<Rightarrow> bool" where
  "window_ok w \<longleftrightarrow> distinct (map snd (rw_order w)) \<and> rw_seen w = set (map snd (rw_order w))
     \<and> (\<forall>s. map_of (rw_held w) s = (if held_of s (rw_order w) = 0 then None else Some (held_of s (rw_order w))))
     \<and> keys_distinct (rw_held w)
     \<and> length (rw_order w) \<le> rw_capacity w \<and> 0 < rw_per_sender w \<and> (\<forall>s. held_of s (rw_order w) \<le> rw_per_sender w)"

lemma held_of_simps [simp]:
  "held_of s [] = 0" "held_of s (e # es) = (if fst (snd e) = s then 1 else 0) + held_of s es"
  "held_of s (es @ [e]) = held_of s es + (if fst (snd e) = s then 1 else 0)"
  by (auto simp: held_of_def split: prod.splits)

lemma with_capacity_ok: "0 < m \<Longrightarrow> window_ok (with_capacity n m)"
  by (simp add: window_ok_def with_capacity_def)

lemma forget_due_ok:
  assumes "window_ok (w\<lparr>rw_order := es\<rparr>)"
  shows "window_ok (forget_due now es w) \<and> rw_order (forget_due now es w) = dropWhile (\<lambda>(at, _). at \<le> now) es
    \<and> rw_capacity (forget_due now es w) = rw_capacity w \<and> rw_per_sender (forget_due now es w) = rw_per_sender w"
  using assms
proof (induction now es w rule: forget_due.induct)
  case (2 now at key rest w)
  show ?case
  proof (cases "at > now")
    case False
    define w2 where "w2 = release (fst key) (w\<lparr>rw_seen := rw_seen w - {key}\<rparr>)"
    have seen: "key \<in> rw_seen w" using 2(2) by (simp add: window_ok_def)
    have h: "map_of (rw_held w) (fst key) = Some (1 + held_of (fst key) rest)" using 2(2) by (simp add: window_ok_def)
    have same: "rw_seen w2 = rw_seen w - {key}" "rw_capacity w2 = rw_capacity w" "rw_per_sender w2 = rw_per_sender w"
      by (simp_all add: w2_def release_def h)
    have held: "rw_held w2 = (if held_of (fst key) rest = 0 then AList.delete (fst key) (rw_held w)
        else AList.update (fst key) (held_of (fst key) rest) (rw_held w))"
      by (simp add: w2_def release_def h)
    have "\<forall>s. held_of s ((at, key) # rest) \<le> rw_per_sender w" using 2(2) by (simp add: window_ok_def del: held_of_simps)
    then have bound: "held_of s rest \<le> rw_per_sender w" for s by (cases "fst key = s") (auto dest: spec [of _ s])
    have m: "map_of (rw_held w) s = (if held_of s ((at, key) # rest) = 0 then None else Some (held_of s ((at, key) # rest)))" for s
      using 2(2) by (simp add: window_ok_def del: held_of_simps)
    have "map_of (rw_held w2) s = (if held_of s rest = 0 then None else Some (held_of s rest))" for s
      using m [of s] by (cases "fst key = s") (auto simp: held alist_simps)
    moreover have "keys_distinct (rw_held w)" using 2(2) by (simp add: window_ok_def)
    then have "keys_distinct (rw_held w2)" by (simp add: held alist_simps)
    moreover have "rw_seen w - {key} = set (map snd rest)" using 2(2) by (auto simp: window_ok_def)
    ultimately have "window_ok (w2\<lparr>rw_order := rest\<rparr>)"
      using 2(2) bound by (simp add: window_ok_def same)
    with 2(1) [OF False] seen same False show ?thesis by (simp add: w2_def)
  qed (use 2 in simp)
qed simp

lemma held_of_card:
  assumes "window_ok w"
  shows "card (rw_seen w) = length (rw_order w)"
  using assms distinct_card [of "map snd (rw_order w)"] by (simp add: window_ok_def)

lemma replay_admit_ok:
  assumes "window_ok w" and "replay_admit from nonce now w = (w', res)"
  shows "window_ok w' \<and> rw_capacity w' = rw_capacity w \<and> rw_per_sender w' = rw_per_sender w
    \<and> rw_order w' = dropWhile (\<lambda>(at, _). at \<le> now) (rw_order w)
        @ (if res = Inr () then [(min (now + (2 * CLOCK_WINDOW_MS + 1)) (2 ^ 64 - 1), (from, nonce))] else [])
    \<and> (res = Inl Replay \<longleftrightarrow> (from, nonce) \<in> snd ` set (dropWhile (\<lambda>(at, _). at \<le> now) (rw_order w)))
    \<and> (res = Inl Busy \<longrightarrow> rw_per_sender w \<le> held_of from (rw_order w') \<or> rw_capacity w \<le> length (rw_order w'))"
proof -
  let ?w = "forget_due now (rw_order w) w" and ?at = "min (now + (2 * CLOCK_WINDOW_MS + 1)) (2 ^ 64 - 1)"
  have F: "window_ok ?w" "rw_order ?w = dropWhile (\<lambda>(at, _). at \<le> now) (rw_order w)" "rw_capacity ?w = rw_capacity w"
    "rw_per_sender ?w = rw_per_sender w"
    using forget_due_ok [where w = w and es = "rw_order w" and now = now] assms(1) by simp_all
  have held: "map_of (rw_held ?w) from = (if held_of from (rw_order ?w) = 0 then None else Some (held_of from (rw_order ?w)))"
    and seen: "rw_seen ?w = set (map snd (rw_order ?w))" using F(1) by (simp_all add: window_ok_def)
  consider (replay) "(from, nonce) \<in> rw_seen ?w" | (busy) "(from, nonce) \<notin> rw_seen ?w" "w' = ?w" "res = Inl Busy"
      "rw_per_sender ?w \<le> held_of from (rw_order ?w) \<or> rw_capacity ?w \<le> length (rw_order ?w)"
    | (fresh) "(from, nonce) \<notin> rw_seen ?w" "res = Inr ()" "held_of from (rw_order ?w) < rw_per_sender ?w"
      "length (rw_order ?w) < rw_capacity ?w"
    using assms(2) held held_of_card [OF F(1)] F(1) by (auto simp: replay_admit_def window_ok_def Let_def split: if_splits)
  then show ?thesis
  proof cases
    case replay
    then have "w' = ?w" "res = Inl Replay" using assms(2) by (auto simp: replay_admit_def Let_def)
    with replay F seen show ?thesis by simp
  next
    case busy
    with F seen show ?thesis by simp
  next
    case fresh
    have w': "w' = ?w\<lparr>rw_seen := insert (from, nonce) (rw_seen ?w), rw_held := AList.update from (held_of from (rw_order ?w) + 1) (rw_held ?w),
        rw_order := rw_order ?w @ [(?at, (from, nonce))]\<rparr>"
      using assms(2) fresh held held_of_card [OF F(1)] by (auto simp: replay_admit_def Let_def split: if_splits)
    have m: "map_of (rw_held ?w) s = (if held_of s (rw_order ?w) = 0 then None else Some (held_of s (rw_order ?w)))" for s
      using F(1) by (simp add: window_ok_def)
    have "map_of (rw_held w') s = (if held_of s (rw_order w') = 0 then None else Some (held_of s (rw_order w')))" for s
      using m [of s] by (cases "s = from") (simp_all add: w' alist_simps)
    moreover have "held_of s (rw_order w') \<le> rw_per_sender w'" for s
      using F(1) fresh(3) by (cases "s = from") (simp_all add: w' window_ok_def)
    ultimately have "window_ok w'" using F(1) fresh by (simp add: window_ok_def w' alist_simps)
    then show ?thesis using fresh F seen by (simp add: w')
  qed
qed

text \<open>Any calls of the window, in order, with the clock reading of each.\<close>

fun replay_run :: "(bytes \<times> bytes \<times> nat) list \<Rightarrow> replay_window \<Rightarrow> replay_window" where
  "replay_run [] w = w"
| "replay_run ((from, nonce, now) # es) w = replay_run es (fst (replay_admit from nonce now w))"

lemma replay_run_ok:
  "window_ok w \<Longrightarrow> window_ok (replay_run es w) \<and> rw_capacity (replay_run es w) = rw_capacity w
     \<and> rw_per_sender (replay_run es w) = rw_per_sender w"
proof (induction es w rule: replay_run.induct)
  case (2 frm nonce now es w)
  obtain w' res where a: "replay_admit frm nonce now w = (w', res)" by fastforce
  show ?case using 2(1) replay_admit_ok [OF 2(2) a] a by simp
qed simp

text \<open>The window never holds more than its capacity, nor more than its share of one sender, and it refuses a nonce it does
  not hold only when the sender has filled its own share or the whole window is full: a flood from one device
  locks out that device.\<close>

theorem a_flood_locks_out_its_sender:
  assumes "w = replay_run es replay_default" and "replay_admit who nonce now w = (w', res)"
  shows "length (rw_order w') \<le> MAX_REPLAY_ENTRIES \<and> (\<forall>s. held_of s (rw_order w') \<le> MAX_REPLAY_PER_SENDER)
    \<and> (held_of who (rw_order w') < MAX_REPLAY_PER_SENDER \<and> length (rw_order w') < MAX_REPLAY_ENTRIES \<longrightarrow> res = Inr () \<or> res = Inl Replay)"
proof -
  have w: "window_ok w" "rw_capacity w = MAX_REPLAY_ENTRIES" "rw_per_sender w = MAX_REPLAY_PER_SENDER"
    using replay_run_ok [OF with_capacity_ok, of MAX_REPLAY_PER_SENDER es MAX_REPLAY_ENTRIES] assms(1)
    by (simp_all add: replay_default_def with_capacity_def MAX_REPLAY_PER_SENDER_def)
  note A = replay_admit_ok [OF w(1) assms(2)]
  have ok: "window_ok w'" "rw_capacity w' = MAX_REPLAY_ENTRIES" "rw_per_sender w' = MAX_REPLAY_PER_SENDER" using A w by simp_all
  have "res = Inr () \<or> res = Inl Replay \<or> res = Inl Busy" using assms(2) by (auto simp: replay_admit_def Let_def split: if_splits)
  moreover have "res \<noteq> Inl Busy" if "held_of who (rw_order w') < MAX_REPLAY_PER_SENDER" "length (rw_order w') < MAX_REPLAY_ENTRIES"
    using A that w(2,3) by (simp add: not_le [symmetric])
  ultimately show ?thesis using ok by (simp add: window_ok_def) blast
qed

text \<open>The window trusts the clock to have been right. A clock that jumps ahead by two windows while another command arrives, and is
  then set back, makes the window forget a nonce whose command is current again: the same nonce is admitted twice.\<close>

theorem a_clock_set_forward_and_back_readmits:
  assumes "n \<noteq> n'" and "t + 2 * CLOCK_WINDOW_MS + 1 < 2 ^ 64"
  shows "snd (replay_admit s n t replay_default) = Inr ()
    \<and> snd (replay_admit s n t (replay_run [(s, n, t), (s, n', t + 2 * CLOCK_WINDOW_MS + 1)] replay_default)) = Inr ()"
  using assms
  by (simp add: replay_default_def with_capacity_def replay_admit_def release_def Let_def MAX_REPLAY_ENTRIES_def MAX_REPLAY_PER_SENDER_def min_def)

section \<open>What is opened is authentic\<close>

lemma check_addressing_ok:
  assumes "check_addressing s from to nonce t now r = (r', Inr n)"
  shows "from = s" "to = rc_principal r" "n = nonce" "length nonce = NONCE_BYTES" "abs_diff t now \<le> CLOCK_WINDOW_MS"
    "\<exists>w. replay_admit s nonce now (rc_replay r) = (w, Inr ()) \<and> r' = r\<lparr>rc_replay := w\<rparr>"
  using assms by (auto simp: check_addressing_def split: if_splits prod.splits sum.splits)

lemma open_checks_ok:
  assumes "open_checks cr s bs now r = Inr (sb, v, body, answers)"
  shows "length s = 32" "verify_chain cr (rc_account_root r) (sd_chain sb) now = Inr v" "v_principal v = s"
    "verify_command cr (v_leaf_key v) (sd_body sb) (sd_signature sb)" "dec_command cr (sd_body sb) = Some body"
    "answers_of v body = Inr answers"
  using assms by (auto simp: open_checks_def check_chain_def result_ok split: sum.splits if_splits)

lemma receiver_open_ok:
  assumes "receiver_open cr s bs now r = (r', Inr opd)"
  obtains sb v body answers where "open_checks cr s bs now r = Inr (sb, v, body, answers)"
    "check_addressing s (cm_from body) (cm_to body) (cm_nonce body) (cm_time_ms body) now r = (r', Inr (op_nonce opd))"
    "opd = \<lparr>op_from = s, op_scope = cm_scope body, op_nonce = op_nonce opd, op_time_ms = cm_time_ms body,
       op_body = cm_body body, op_answers = answers, op_leaf = v_leaf v, op_chain = sd_chain sb\<rparr>"
  using assms by (auto simp: receiver_open_def split: sum.splits prod.splits)

text \<open>C13. Whatever opens is authentic. Its sender is the one the hub named, with a chain to the account root that verifies now;
  the bytes it was read from carry that sender's command signature, name this recipient and lie within the clock window;
  and a command's scope is one the sender's certificate grants.\<close>

theorem opened_commands_are_authentic:
  assumes "receiver_open cr s bs now r = (r', Inr opd)"
  shows "op_from opd = s \<and> (\<exists>v m signature body.
      verify_chain cr (rc_account_root r) (op_chain opd) now = Inr v \<and> v_principal v = s \<and> op_leaf opd = v_leaf v
      \<and> verify_command cr (v_leaf_key v) m signature \<and> dec_command cr m = Some body
      \<and> cm_from body = s \<and> cm_to body = rc_principal r \<and> cm_body body = op_body opd \<and> cm_nonce body = op_nonce opd
      \<and> abs_diff (cm_time_ms body) now \<le> CLOCK_WINDOW_MS
      \<and> (op_answers opd = None \<longrightarrow> op_scope opd \<noteq> [] \<and> op_scope opd \<in> set (cb_scopes (v_leaf v)))
      \<and> (\<forall>a. op_answers opd = Some a \<longrightarrow> op_scope opd = [] \<and> length a = NONCE_BYTES))"
proof -
  from assms obtain sb v body answers where o: "open_checks cr s bs now r = Inr (sb, v, body, answers)"
    "check_addressing s (cm_from body) (cm_to body) (cm_nonce body) (cm_time_ms body) now r = (r', Inr (op_nonce opd))"
    "opd = \<lparr>op_from = s, op_scope = cm_scope body, op_nonce = op_nonce opd, op_time_ms = cm_time_ms body,
       op_body = cm_body body, op_answers = answers, op_leaf = v_leaf v, op_chain = sd_chain sb\<rparr>"
    by (rule receiver_open_ok)
  note C = open_checks_ok [OF o(1)] and A = check_addressing_ok [OF o(2)]
  have f: "op_from opd = s" "op_scope opd = cm_scope body" "op_body opd = cm_body body" "op_answers opd = answers"
    "op_leaf opd = v_leaf v" "op_chain opd = sd_chain sb"
    by (subst o(3), simp)+
  have "(answers = None \<longrightarrow> cm_scope body \<noteq> [] \<and> cm_scope body \<in> set (cb_scopes (v_leaf v)))
      \<and> (\<forall>a. answers = Some a \<longrightarrow> cm_scope body = [] \<and> length a = NONCE_BYTES)"
    using C(6) by (auto simp: answers_of_def split: if_splits)
  with f C A show ?thesis by auto
qed

section \<open>What is sealed opens\<close>

text \<open>What public-key encryption does: what is sealed to a key opens with its secret, under the same info.\<close>

definition seals :: "'x seal_suite_scheme \<Rightarrow> bool" where
  "seals cr \<longleftrightarrow> (\<forall>eph secret inf pt enc ct. single_shot_seal cr eph (agreement_public cr secret) inf pt = Some (enc, ct) \<longrightarrow>
     enc_key_ok cr enc \<and> single_shot_open cr secret enc inf ct = Some pt)"

lemma hpke_seal_opens:
  assumes "seals cr" and "hpke_seal cr eph label s to pt = Some bs" and "rt_agreement_key to = agreement_public cr secret"
    and "\<forall>x. dec_sealed cr (enc_sealed cr x) = Some x" and "length bs \<le> MAX_SEALED_BYTES"
  shows "hpke_open_raw cr (info label s (rt_principal to)) secret bs = Inr pt"
  using assms by (auto simp: hpke_seal_def hpke_open_raw_def seals_def enc_of_def split: option.splits)

lemma seal_opens:
  assumes "honest cr" and "seals cr" and "\<forall>x. dec_sealed cr (enc_sealed cr x) = Some x"
    and "c = \<lparr>cm_from = s, cm_to = rt_principal to, cm_scope = scope, cm_nonce = nonce, cm_time_ms = sent, cm_body = body, cm_answers = []\<rparr>"
    and "sb = \<lparr>sd_body = enc_command cr c, sd_signature = sign_command cr (sn_identity from) (enc_command cr c), sd_chain = sn_chain from\<rparr>"
    and "dec_signed cr (enc_signed cr sb) = Some sb" and "dec_command cr (enc_command cr c) = Some c"
    and "s = principal_id cr (identity_public cr (sn_identity from))" and "length s = 32"
    and "verify_chain cr (rc_account_root r) (sn_chain from) now = Inr v" and "v_leaf_key v = identity_public cr (sn_identity from)"
    and "v_principal v = s"
    and "rt_principal to = rc_principal r" and "rt_agreement_key to = agreement_public cr (rc_agreement r)"
    and "scope \<noteq> []" and "scope \<in> set (cb_scopes (v_leaf v))"
    and "seal_command cr (Some nonce) eph from to scope body sent = Inr (bs, n)" and "length nonce = NONCE_BYTES"
    and "length bs \<le> MAX_SEALED_BYTES" and "abs_diff sent now \<le> CLOCK_WINDOW_MS"
    and "replay_admit s nonce now (rc_replay r) = (w, Inr ())"
  shows "receiver_open cr s bs now r = (r\<lparr>rc_replay := w\<rparr>, Inr \<lparr>op_from = s, op_scope = scope, op_nonce = n, op_time_ms = sent,
      op_body = body, op_answers = None, op_leaf = v_leaf v, op_chain = sn_chain from\<rparr>)"
proof -
  have b: "hpke_seal cr eph SEAL_INFO_LABEL s to (enc_signed cr sb) = Some bs" and n: "n = nonce"
    using assms(17) by (auto simp: seal_command_def seal_def Let_def result_ok assms(4,5) assms(8) [symmetric])
  have "unseal cr SEAL_INFO_LABEL s bs r = Inr (enc_signed cr sb)"
    using hpke_seal_opens [OF assms(2) b assms(14,3,19)] assms(13) by (simp add: unseal_def)
  moreover have "verify_command cr (v_leaf_key v) (sd_body sb) (sd_signature sb)"
    using honest_verifies [OF assms(1)] assms(11) by (simp add: verify_command_def sign_command_def assms(5))
  moreover have "answers_of v c = Inr None" using assms(15,16) by (simp add: answers_of_def assms(4))
  moreover have "sd_chain sb = sn_chain from" "sd_body sb = enc_command cr c" by (simp_all add: assms(5))
  ultimately have "open_checks cr s bs now r = Inr (sb, v, c, None)"
    using assms(6,7,9,10,12) by (simp add: open_checks_def check_chain_def)
  with assms(13,18,20,21) n show ?thesis by (simp add: receiver_open_def check_addressing_def assms(4)) (simp add: assms(5))
qed

lemma replay_admits:
  assumes "window_ok w" and "(s, nonce) \<notin> snd ` set (dropWhile (\<lambda>(due, _). due \<le> now) (rw_order w))"
    and "held_of s (dropWhile (\<lambda>(due, _). due \<le> now) (rw_order w)) < rw_per_sender w"
    and "length (dropWhile (\<lambda>(due, _). due \<le> now) (rw_order w)) < rw_capacity w"
  shows "\<exists>w'. replay_admit s nonce now w = (w', Inr ()) \<and> window_ok w'
    \<and> rw_order w' = dropWhile (\<lambda>(due, _). due \<le> now) (rw_order w) @ [(min (now + (2 * CLOCK_WINDOW_MS + 1)) (2 ^ 64 - 1), (s, nonce))]"
proof -
  obtain w' res where a: "replay_admit s nonce now w = (w', res)" by fastforce
  from replay_admit_ok [OF assms(1) this] have A: "window_ok w'"
    "rw_order w' = dropWhile (\<lambda>(due, _). due \<le> now) (rw_order w) @ (if res = Inr () then [(min (now + (2 * CLOCK_WINDOW_MS + 1)) (2 ^ 64 - 1), (s, nonce))] else [])"
    "res = Inl Replay \<longleftrightarrow> (s, nonce) \<in> snd ` set (dropWhile (\<lambda>(due, _). due \<le> now) (rw_order w))"
    "res = Inl Busy \<longrightarrow> rw_per_sender w \<le> held_of s (rw_order w') \<or> rw_capacity w \<le> length (rw_order w')" by blast+
  have "res = Inr () \<or> res = Inl Replay \<or> res = Inl Busy"
    using a by (auto simp: replay_admit_def Let_def split: if_splits)
  then have "res = Inr ()" using A(2-4) assms(2-4) by auto
  with a A(1,2) show ?thesis by auto
qed


section \<open>An example\<close>

text \<open>Suites that agree with the example account of \<open>Keys\<close>, whatever else they have.\<close>

definition desk_like :: "'x suite_scheme \<Rightarrow> bool" where
  "desk_like cr \<longleftrightarrow> sha256 cr = (\<lambda>b. b) \<and> public_of cr = pad_key \<and> ed_sign cr = (\<lambda>k m. pad_key k @ m)
     \<and> ed_verify cr = (\<lambda>k m s. s = k @ m) \<and> enc_body cr phone_body = [1] \<and> dec_body cr [1] = Some phone_body"

lemma desk_like_honest: "desk_like cr \<Longrightarrow> honest cr"
  by (simp add: honest_def desk_like_def)

lemma desk_like_chain:
  assumes "desk_like cr" and "10 \<le> t" and "t \<le> 20"
  shows "verify_chain cr (pad_key [1]) [phone_cert] t =
     Inr \<lparr>v_account = pad_key [1], v_principal = pad_key [7], v_leaf_key = pad_key [7], v_leaf = phone_body\<rparr>"
proof -
  have b: "spec_body cr [1] phone_spec = phone_body"
    using assms(1) by (simp add: desk_like_def phone_body_def spec_body_def identity_public_def keyless_def)
  have "sign_certificate cr [1] phone_spec = phone_cert"
    using assms(1) by (simp add: sign_certificate_def b phone_cert_def identity_sign_def Let_def desk_like_def keyless_def)
  then have "issue cr [1] phone_spec = Inr phone_cert"
    by (simp add: issue_def check_window_def MAX_CERTIFICATE_MS_def) (simp add: phone_spec_def)
  from issued_verify [OF desk_like_honest [OF assms(1)] this desk_specs(1), of t] assms show ?thesis
    by (simp add: b desk_like_def identity_public_def account_id_def principal_id_def MAX_CERT_BYTES_def) (simp add: phone_spec_def)
qed

definition note_command :: command_body where
  "note_command = \<lparr>cm_from = pad_key [7], cm_to = pad_key [2], cm_scope = ''view'', cm_nonce = replicate 16 9, cm_time_ms = 15, cm_body = [4, 2], cm_answers = []\<rparr>"

definition note_signed :: signed_body where
  "note_signed = \<lparr>sd_body = [5], sd_signature = pad_key [7] @ COMMAND_LABEL @ [5], sd_chain = [phone_cert]\<rparr>"

definition pack :: "sealed \<Rightarrow> bytes" where
  "pack x = replicate (length (sl_enc x)) 1 @ 0 # sl_enc x @ sl_ciphertext x"

definition unpack :: "bytes \<Rightarrow> sealed option" where
  "unpack bs = (let n = length (takeWhile (\<lambda>b. b = 1) bs); rest = drop (n + 1) bs
     in Some \<lparr>sl_enc = take n rest, sl_ciphertext = drop n rest\<rparr>)"

lemma unpack_pack: "unpack (pack x) = Some x"
  by (simp add: unpack_def pack_def takeWhile_append)

definition shot_seal :: "bytes \<Rightarrow> bytes \<Rightarrow> bytes \<Rightarrow> bytes \<Rightarrow> (bytes \<times> bytes) option" where
  "shot_seal eph pk ctx pt = Some (eph, pk @ ctx @ pt)"

definition shot_open :: "bytes \<Rightarrow> bytes \<Rightarrow> bytes \<Rightarrow> bytes \<Rightarrow> bytes option" where
  "shot_open secret enc ctx ct =
     (let head = pad_key secret @ ctx in if take (length head) ct = head then Some (drop (length head) ct) else None)"

definition mail_like :: "'x seal_suite_scheme \<Rightarrow> bool" where
  "mail_like cr \<longleftrightarrow> desk_like cr \<and> agreement_public cr = pad_key \<and> single_shot_seal cr = shot_seal \<and> enc_key_ok cr = (\<lambda>_. True)
     \<and> single_shot_open cr = shot_open \<and> enc_command cr = (\<lambda>_. [5]) \<and> dec_command cr = (\<lambda>_. Some note_command)
     \<and> enc_signed cr = (\<lambda>_. [6]) \<and> dec_signed cr = (\<lambda>_. Some note_signed) \<and> enc_sealed cr = pack \<and> dec_sealed cr = unpack"

definition mail :: seal_suite where
  "mail = \<lparr>sha256 = (\<lambda>b. b), public_of = pad_key, ed_sign = (\<lambda>k m. pad_key k @ m), ed_verify = (\<lambda>k m s. s = k @ m),
     enc_body = (\<lambda>_. [1]), dec_body = (\<lambda>_. Some phone_body), agreement_public = pad_key,
     single_shot_seal = shot_seal, enc_key_ok = (\<lambda>_. True), single_shot_open = shot_open,
     enc_command = (\<lambda>_. [5]), dec_command = (\<lambda>_. Some note_command), enc_signed = (\<lambda>_. [6]), dec_signed = (\<lambda>_. Some note_signed),
     enc_sealed = pack, dec_sealed = unpack, enc_paired = (\<lambda>_. []), dec_paired = (\<lambda>_. None)\<rparr>"

lemma mail_is_like: "mail_like mail"
  by (simp add: mail_like_def desk_like_def mail_def)

lemma mail_like_desk: "mail_like cr \<Longrightarrow> desk_like cr"
  by (simp add: mail_like_def)

lemma mail_seals: "mail_like cr \<Longrightarrow> seals cr"
  by (simp add: seals_def mail_like_def shot_seal_def shot_open_def Let_def)

definition mailbox :: receiver where
  "mailbox = \<lparr>rc_principal = pad_key [2], rc_agreement = [3], rc_account_root = pad_key [1], rc_replay = replay_default\<rparr>"

lemma mailbox_new: "mail_like cr \<Longrightarrow> receiver_new cr (pad_key [2]) [3] (pad_key [1]) = mailbox"
  by (simp add: receiver_new_def mailbox_def principal_id_def mail_like_def desk_like_def)

definition mailbox_after :: replay_window where
  "mailbox_after = fst (replay_admit (pad_key [7]) (replicate 16 9) 16 replay_default)"

definition phone_sender :: sender where
  "phone_sender = \<lparr>sn_identity = [7], sn_chain = [phone_cert]\<rparr>"

definition to_mailbox :: recipient where
  "to_mailbox = \<lparr>rt_principal = pad_key [2], rt_agreement_key = pad_key [3]\<rparr>"

definition note_sealed :: bytes where
  "note_sealed = pack \<lparr>sl_enc = [8], sl_ciphertext = pad_key [3] @ info SEAL_INFO_LABEL (pad_key [7]) (pad_key [2]) @ [6]\<rparr>"

lemma mailbox_admits: "replay_admit (pad_key [7]) (replicate 16 9) 16 (rc_replay mailbox) = (mailbox_after, Inr ())"
  by (simp add: mailbox_after_def mailbox_def replay_default_def with_capacity_def replay_admit_def Let_def MAX_REPLAY_ENTRIES_def)

lemma mailbox_fresh: "window_ok (rc_replay mailbox)" "rw_order (rc_replay mailbox) = []" "0 < rw_per_sender (rc_replay mailbox)" "0 < rw_capacity (rc_replay mailbox)"
  using with_capacity_ok [of MAX_REPLAY_PER_SENDER MAX_REPLAY_ENTRIES] by (simp_all add: mailbox_def replay_default_def with_capacity_def MAX_REPLAY_ENTRIES_def MAX_REPLAY_PER_SENDER_def)

lemma mail_facts:
  assumes "mail_like cr"
  shows "pad_key [7] = principal_id cr (identity_public cr (sn_identity phone_sender))" "sn_chain phone_sender = [phone_cert]"
    "identity_public cr (sn_identity phone_sender) = pad_key [7]"
    "rc_account_root mailbox = pad_key [1]" "rc_principal mailbox = pad_key [2]" "rt_principal to_mailbox = pad_key [2]"
    "rt_agreement_key to_mailbox = agreement_public cr (rc_agreement mailbox)"
    "seal_command cr (Some (replicate 16 9)) [8] phone_sender to_mailbox ''view'' [4, 2] 15 = Inr (note_sealed, replicate 16 9)"
    "length note_sealed \<le> MAX_SEALED_BYTES" "''view'' \<in> set (cb_scopes phone_body)"
  using assms
  by (simp_all add: principal_id_def identity_public_def phone_sender_def to_mailbox_def mailbox_def mail_like_def desk_like_def
      seal_command_def seal_def hpke_seal_def note_sealed_def shot_seal_def Let_def)
    (simp_all add: pack_def info_def SEAL_INFO_LABEL_def label_bytes_def MAX_SEALED_BYTES_def phone_body_def spec_body_def phone_spec_def)

lemma mail_codec:
  assumes "mail_like cr"
  shows "note_signed = \<lparr>sd_body = enc_command cr note_command, sd_signature = sign_command cr (sn_identity phone_sender) (enc_command cr note_command),
     sd_chain = sn_chain phone_sender\<rparr>"
    "dec_signed cr (enc_signed cr note_signed) = Some note_signed" "dec_command cr (enc_command cr note_command) = Some note_command"
    "\<forall>x. dec_sealed cr (enc_sealed cr x) = Some x"
  using assms
  by (simp_all add: mail_like_def desk_like_def note_signed_def phone_sender_def sign_command_def identity_sign_def unpack_pack)

definition note_opened :: opened where
  "note_opened = \<lparr>op_from = pad_key [7], op_scope = ''view'', op_nonce = replicate 16 9, op_time_ms = 15, op_body = [4, 2],
     op_answers = None, op_leaf = phone_body, op_chain = [phone_cert]\<rparr>"

lemma mail_command:
  "note_command = \<lparr>cm_from = pad_key [7], cm_to = rt_principal to_mailbox, cm_scope = ''view'', cm_nonce = replicate 16 9, cm_time_ms = 15,
     cm_body = [4, 2], cm_answers = []\<rparr>"
  by (simp add: note_command_def to_mailbox_def)

abbreviation phone_verified :: verified where
  "phone_verified \<equiv> \<lparr>v_account = pad_key [1], v_principal = pad_key [7], v_leaf_key = pad_key [7], v_leaf = phone_body\<rparr>"

lemma note_opens:
  assumes "mail_like cr"
  shows "receiver_open cr (pad_key [7]) note_sealed 16 mailbox = (mailbox\<lparr>rc_replay := mailbox_after\<rparr>, Inr note_opened)"
  using seal_opens [OF desk_like_honest [OF mail_like_desk [OF assms]] mail_seals [OF assms] mail_codec(4) [OF assms] mail_command
      mail_codec(1-3) [OF assms] mail_facts(1) [OF assms], of mailbox 16 phone_verified "[8]" note_sealed "replicate 16 9" mailbox_after]
    desk_like_chain [OF mail_like_desk [OF assms], of 16] mailbox_admits mail_facts(2-10) [OF assms]
  by (simp add: note_opened_def NONCE_BYTES_def CLOCK_WINDOW_MS_def abs_diff_def)


theorem opened_commands_are_authentic_witness:
  "\<exists>m signature. verify_command mail (pad_key [7]) m signature \<and> dec_command mail m = Some note_command"
proof -
  obtain v m signature body where "verify_chain mail (rc_account_root mailbox) [phone_cert] 16 = Inr v"
    "verify_command mail (v_leaf_key v) m signature" "dec_command mail m = Some body"
    using opened_commands_are_authentic [OF note_opens [OF mail_is_like]] by (auto simp: note_opened_def)
  then show ?thesis using desk_like_chain [OF mail_like_desk [OF mail_is_like], of 16] by (auto simp: mailbox_def mail_def)
qed

theorem a_flood_locks_out_its_sender_witness:
  "length (rw_order (fst (replay_admit [7] [9] 16 (replay_run [([7], [9], 15)] replay_default)))) \<le> MAX_REPLAY_ENTRIES"
  using a_flood_locks_out_its_sender [OF refl, where es = "[([7], [9], 15)]" and who = "[7]" and nonce = "[9]" and now = 16]
  by (metis prod.collapse)

theorem a_clock_set_forward_and_back_readmits_witness:
  "snd (replay_admit [7] [9] 15 (replay_run [([7], [9], 15), ([7], [8], 15 + 2 * CLOCK_WINDOW_MS + 1)] replay_default)) = Inr ()"
  using a_clock_set_forward_and_back_readmits [of "[9]" "[8]" 15 "[7]"] by (simp add: CLOCK_WINDOW_MS_def)

end
