(* ===== verification/Streams.thy ===== *)
theory Streams
  imports Seal
begin

text \<open>
  Published streams, \<open>crates/seal/src/stream.rs\<close>: the key of a stream, its grant to a device, the frames a publisher seals
  and the reader that opens them. Authenticated encryption and the keyed hash are further fields of the suite.
\<close>

section \<open>Keys and frames\<close>

definition MAX_STREAM_FRAME_BYTES :: nat where "MAX_STREAM_FRAME_BYTES = 2 ^ 20"
definition FRAME_NONCE_BYTES :: nat where "FRAME_NONCE_BYTES = 12"
definition KEY_ID_BYTES :: nat where "KEY_ID_BYTES = 8"
definition MAX_CHANNEL_BYTES :: nat where "MAX_CHANNEL_BYTES = 64"
definition CHANNEL_BYTES :: nat where "CHANNEL_BYTES = 16"
definition GRANT_INFO_LABEL :: bytes where "GRANT_INFO_LABEL = label_bytes ''wmlhub/keygrant/v1''"
definition KEY_ID_LABEL :: bytes where "KEY_ID_LABEL = label_bytes ''wmlhub/streamkey-id/v1''"
definition CHANNEL_LABEL :: bytes where "CHANNEL_LABEL = label_bytes ''wmlhub/channel/v1''"

record stream_frame =
  sf_key_id :: bytes
  sf_counter :: nat
  sf_nonce :: bytes
  sf_ciphertext :: bytes
  sf_signature :: bytes

record grant_body =
  gb_from :: bytes
  gb_to :: bytes
  gb_nonce :: bytes
  gb_time_ms :: nat
  gb_channel :: bytes
  gb_key_id :: bytes
  gb_key :: bytes
  gb_from_counter :: nat

record stream_suite = seal_suite +
  gcm_encrypt :: "bytes \<Rightarrow> bytes \<Rightarrow> bytes \<Rightarrow> bytes \<Rightarrow> bytes option"
  gcm_decrypt :: "bytes \<Rightarrow> bytes \<Rightarrow> bytes \<Rightarrow> bytes \<Rightarrow> bytes option"
  hmac_sha256 :: "bytes \<Rightarrow> bytes \<Rightarrow> bytes"
  enc_frame :: "stream_frame \<Rightarrow> bytes"
  dec_frame :: "bytes \<Rightarrow> stream_frame option"
  enc_grant :: "grant_body \<Rightarrow> bytes"
  dec_grant :: "bytes \<Rightarrow> grant_body option"

record stream_key =
  sk_key :: bytes
  sk_id :: bytes

definition stream_key_from_bytes :: "'x stream_suite_scheme \<Rightarrow> bytes \<Rightarrow> stream_key" where
  "stream_key_from_bytes cr key = \<lparr>sk_key = key, sk_id = take KEY_ID_BYTES (sha256 cr (KEY_ID_LABEL @ key))\<rparr>"

definition be16 :: "nat \<Rightarrow> bytes" where
  "be16 n = [of_nat (n div 2 ^ 8), of_nat n]"

definition be64 :: "nat \<Rightarrow> bytes" where
  "be64 n = be32 (n div 2 ^ 32) @ be32 (n mod 2 ^ 32)"

definition frame_header :: "bytes \<Rightarrow> bytes \<Rightarrow> bytes \<Rightarrow> nat \<Rightarrow> bytes \<Rightarrow> bytes" where
  "frame_header publisher channel key_id counter nonce =
     publisher @ be16 (if length channel < 2 ^ 16 then length channel else 2 ^ 16 - 1) @ channel @ key_id @ be64 counter @ nonce"

definition seal_frame ::
    "'x stream_suite_scheme \<Rightarrow> bytes option \<Rightarrow> sender \<Rightarrow> bytes \<Rightarrow> stream_key \<Rightarrow> nat \<Rightarrow> bytes \<Rightarrow> seal_error + bytes" where
  "seal_frame cr rnd publisher channel key counter batch =
     and_then (or_err rnd Random) (\<lambda>nonce.
       let me = principal_id cr (identity_public cr (sn_identity publisher));
           header = frame_header me channel (sk_id key) counter nonce
       in and_then (or_err (gcm_encrypt cr (sk_key key) nonce header batch) Aead) (\<lambda>ct.
            Inr (enc_frame cr \<lparr>sf_key_id = sk_id key, sf_counter = counter, sf_nonce = nonce, sf_ciphertext = ct,
                   sf_signature = sign_stream cr (sn_identity publisher) (header @ ct)\<rparr>)))"

section \<open>Grants\<close>

record grant =
  gr_publisher :: bytes
  gr_publisher_key :: public_key
  gr_channel :: bytes
  gr_key_id :: bytes
  gr_key :: bytes
  gr_from_counter :: nat

definition wrap_key ::
    "'x stream_suite_scheme \<Rightarrow> bytes option \<Rightarrow> bytes \<Rightarrow> sender \<Rightarrow> recipient \<Rightarrow> bytes \<Rightarrow> stream_key \<Rightarrow> nat \<Rightarrow> nat \<Rightarrow> seal_error + bytes" where
  "wrap_key cr rnd eph publisher to channel key from_counter now_ms =
     and_then (or_err rnd Random) (\<lambda>nonce.
       let me = principal_id cr (identity_public cr (sn_identity publisher));
           body = enc_grant cr \<lparr>gb_from = me, gb_to = rt_principal to, gb_nonce = nonce, gb_time_ms = now_ms, gb_channel = channel,
                    gb_key_id = sk_id key, gb_key = sk_key key, gb_from_counter = from_counter\<rparr>;
           sb = enc_signed cr \<lparr>sd_body = body, sd_signature = sign_grant cr (sn_identity publisher) body, sd_chain = sn_chain publisher\<rparr>
       in or_err (hpke_seal cr eph GRANT_INFO_LABEL me to sb) Hpke)"

text \<open>What \<open>open_grant\<close> checks before the addressing and the replay window.\<close>

definition grant_checks :: "'x stream_suite_scheme \<Rightarrow> bytes \<Rightarrow> bytes \<Rightarrow> nat \<Rightarrow> receiver \<Rightarrow> open_error + verified \<times> grant_body" where
  "grant_checks cr sender_id bs now_ms r =
     and_then (ensure (length sender_id = 32) NotSender) (\<lambda>_.
     and_then (unseal cr GRANT_INFO_LABEL sender_id bs r) (\<lambda>plaintext.
     and_then (or_err (dec_signed cr plaintext) BadShape) (\<lambda>sb.
     and_then (check_chain cr sender_id (sd_chain sb) now_ms r) (\<lambda>v.
     and_then (ensure (verify_grant cr (v_leaf_key v) (sd_body sb) (sd_signature sb)) BadSignature) (\<lambda>_.
     and_then (or_err (dec_grant cr (sd_body sb)) BadShape) (\<lambda>body.
     and_then (ensure (length (gb_key body) = 32) BadShape) (\<lambda>_.
     and_then (ensure (length (gb_key_id body) = KEY_ID_BYTES) BadShape) (\<lambda>_.
     and_then (ensure (gb_channel body \<noteq> [] \<and> length (gb_channel body) \<le> MAX_CHANNEL_BYTES) BadShape) (\<lambda>_.
     and_then (ensure (sk_id (stream_key_from_bytes cr (gb_key body)) = gb_key_id body) BadShape) (\<lambda>_.
     Inr (v, body)))))))))))"

definition open_grant :: "'x stream_suite_scheme \<Rightarrow> bytes \<Rightarrow> bytes \<Rightarrow> nat \<Rightarrow> receiver \<Rightarrow> receiver \<times> (open_error + grant)" where
  "open_grant cr sender_id bs now_ms r =
     (case grant_checks cr sender_id bs now_ms r of
        Inl e \<Rightarrow> (r, Inl e)
      | Inr (v, body) \<Rightarrow>
          (case check_addressing sender_id (gb_from body) (gb_to body) (gb_nonce body) (gb_time_ms body) now_ms r of
             (r1, Inl e) \<Rightarrow> (r1, Inl e)
           | (r1, Inr _) \<Rightarrow> (r1, Inr \<lparr>gr_publisher = sender_id, gr_publisher_key = v_leaf_key v, gr_channel = gb_channel body,
               gr_key_id = gb_key_id body, gr_key = gb_key body, gr_from_counter = gb_from_counter body\<rparr>)))"

definition channel_name :: "'x stream_suite_scheme \<Rightarrow> bytes \<Rightarrow> string \<Rightarrow> bytes \<Rightarrow> bytes" where
  "channel_name cr key purpose what = take CHANNEL_BYTES (hmac_sha256 cr key (CHANNEL_LABEL @ map of_char purpose @ [0] @ what))"

section \<open>Reading a stream\<close>

datatype stream_error =
    FrameTooLarge | FrameMalformed | UnknownKey | FrameSignature | FrameDecrypt | OutOfOrder nat nat | BeforeGrant nat nat

record published_batch =
  pb_counter :: nat
  pb_skipped :: nat
  pb_batch :: bytes

record stream_reader =
  rd_publisher :: bytes
  rd_publisher_key :: public_key
  rd_channel :: bytes
  rd_keys :: "(bytes \<times> bytes \<times> nat) list"
  rd_last :: nat

definition add_key :: "grant \<Rightarrow> stream_reader \<Rightarrow> stream_reader \<times> bool" where
  "add_key g r =
     (if gr_publisher g \<noteq> rd_publisher r \<or> gr_channel g \<noteq> rd_channel r then (r, False)
      else (r\<lparr>rd_keys := AList.update (gr_key_id g) (gr_key g, gr_from_counter g) (rd_keys r)\<rparr>, True))"

definition stream_reader_new :: "grant \<Rightarrow> stream_reader" where
  "stream_reader_new g =
     fst (add_key g \<lparr>rd_publisher = gr_publisher g, rd_publisher_key = gr_publisher_key g, rd_channel = gr_channel g, rd_keys = [], rd_last = 0\<rparr>)"

definition rewind_to :: "nat \<Rightarrow> stream_reader \<Rightarrow> stream_reader" where
  "rewind_to counter r = r\<lparr>rd_last := counter\<rparr>"

text \<open>What \<open>open\<close> checks and decrypts; only when all of it succeeds does the reader move.\<close>

definition frame_checks :: "'x stream_suite_scheme \<Rightarrow> bytes \<Rightarrow> stream_reader \<Rightarrow> stream_error + published_batch" where
  "frame_checks cr bs r =
     and_then (ensure (length bs \<le> MAX_STREAM_FRAME_BYTES) FrameTooLarge) (\<lambda>_.
     and_then (or_err (dec_frame cr bs) FrameMalformed) (\<lambda>frame.
     and_then (ensure (length (sf_key_id frame) = KEY_ID_BYTES) FrameMalformed) (\<lambda>_.
     and_then (ensure (length (sf_nonce frame) = FRAME_NONCE_BYTES) FrameMalformed) (\<lambda>_.
     and_then (or_err (map_of (rd_keys r) (sf_key_id frame)) UnknownKey) (\<lambda>(key, from_counter).
     let header = frame_header (rd_publisher r) (rd_channel r) (sf_key_id frame) (sf_counter frame) (sf_nonce frame) in
     and_then (ensure (verify_stream cr (rd_publisher_key r) (header @ sf_ciphertext frame) (sf_signature frame)) FrameSignature) (\<lambda>_.
     and_then (ensure (from_counter \<le> sf_counter frame) (BeforeGrant from_counter (sf_counter frame))) (\<lambda>_.
     and_then (ensure (rd_last r < sf_counter frame) (OutOfOrder (rd_last r) (sf_counter frame))) (\<lambda>_.
     and_then (or_err (gcm_decrypt cr key (sf_nonce frame) header (sf_ciphertext frame)) FrameDecrypt) (\<lambda>batch.
     Inr \<lparr>pb_counter = sf_counter frame, pb_skipped = sf_counter frame - rd_last r - 1, pb_batch = batch\<rparr>)))))))))"

definition stream_open :: "'x stream_suite_scheme \<Rightarrow> bytes \<Rightarrow> stream_reader \<Rightarrow> stream_reader \<times> (stream_error + published_batch)" where
  "stream_open cr bs r =
     (case frame_checks cr bs r of Inl e \<Rightarrow> (r, Inl e) | Inr p \<Rightarrow> (r\<lparr>rd_last := pb_counter p\<rparr>, Inr p))"

section \<open>A command is accepted at most once\<close>

text \<open>What reaches a receiver: sealed commands and sealed grants, each with the sender the hub stamped and the clock reading.\<close>

datatype letter = CommandLetter bytes bytes nat | GrantLetter bytes bytes nat

fun letter_time :: "letter \<Rightarrow> nat" where
  "letter_time (CommandLetter s bs t) = t"
| "letter_time (GrantLetter s bs t) = t"

fun inbox_step :: "'x stream_suite_scheme \<Rightarrow> letter \<Rightarrow> receiver \<Rightarrow> receiver" where
  "inbox_step cr (CommandLetter s bs t) r = fst (receiver_open cr s bs t r)"
| "inbox_step cr (GrantLetter s bs t) r = fst (open_grant cr s bs t r)"

fun inbox_run :: "'x stream_suite_scheme \<Rightarrow> letter list \<Rightarrow> receiver \<Rightarrow> receiver" where
  "inbox_run cr [] r = r"
| "inbox_run cr (l # ls) r = inbox_run cr ls (inbox_step cr l r)"

text \<open>A receiver changes only by what the replay window does.\<close>

lemma check_addressing_effect:
  assumes "check_addressing s from to nonce t now r = (r', res)"
  shows "r' = r \<or> r' = r\<lparr>rc_replay := fst (replay_admit s nonce now (rc_replay r))\<rparr>"
  using assms by (auto simp: check_addressing_def split: if_splits prod.splits sum.splits)

lemma inbox_step_effect:
  "inbox_step cr l r = r \<or> (\<exists>s n. inbox_step cr l r = r\<lparr>rc_replay := fst (replay_admit s n (letter_time l) (rc_replay r))\<rparr>)"
proof (cases l)
  case (CommandLetter s bs t)
  show ?thesis
  proof (cases "open_checks cr s bs t r")
    case (Inr x)
    obtain sb v body answers where x: "x = (sb, v, body, answers)" by (cases x) auto
    obtain r' res where c: "check_addressing s (cm_from body) (cm_to body) (cm_nonce body) (cm_time_ms body) t r = (r', res)" by fastforce
    have "inbox_step cr l r = r'" using Inr x c CommandLetter by (cases res) (simp_all add: receiver_open_def)
    with check_addressing_effect [OF c] CommandLetter show ?thesis by auto
  qed (simp add: CommandLetter receiver_open_def)
next
  case (GrantLetter s bs t)
  show ?thesis
  proof (cases "grant_checks cr s bs t r")
    case (Inr x)
    obtain v body where x: "x = (v, body)" by fastforce
    obtain r' res where c: "check_addressing s (gb_from body) (gb_to body) (gb_nonce body) (gb_time_ms body) t r = (r', res)" by fastforce
    have "inbox_step cr l r = r'" using Inr x c GrantLetter by (cases res) (simp_all add: open_grant_def)
    with check_addressing_effect [OF c] GrantLetter show ?thesis by auto
  qed (simp add: GrantLetter open_grant_def)
qed

lemma in_dropWhile: "x \<in> set xs \<Longrightarrow> \<not> P x \<Longrightarrow> x \<in> set (dropWhile P xs)"
  by (induction xs) auto

text \<open>A nonce the window holds stays there as long as no reading reaches the time it may be forgotten.\<close>

lemma inbox_step_keeps:
  assumes "window_ok (rc_replay r)" and "(at, key) \<in> set (rw_order (rc_replay r))" and "letter_time l < at"
  shows "window_ok (rc_replay (inbox_step cr l r)) \<and> (at, key) \<in> set (rw_order (rc_replay (inbox_step cr l r)))"
  using inbox_step_effect [of cr l r]
proof
  assume "\<exists>s n. inbox_step cr l r = r\<lparr>rc_replay := fst (replay_admit s n (letter_time l) (rc_replay r))\<rparr>"
  then obtain s n w res where e: "inbox_step cr l r = r\<lparr>rc_replay := w\<rparr>"
    and a: "replay_admit s n (letter_time l) (rc_replay r) = (w, res)" by (metis prod.collapse)
  from replay_admit_ok [OF assms(1) a] in_dropWhile [OF assms(2), of "\<lambda>(at, _). at \<le> letter_time l"] assms(3) e
  show ?thesis by auto
qed (use assms in simp)

lemma inbox_step_same: "rc_principal (inbox_step cr l r) = rc_principal r \<and> rc_agreement (inbox_step cr l r) = rc_agreement r"
  using inbox_step_effect [of cr l r] by auto

lemma inbox_run_keeps:
  assumes "window_ok (rc_replay r)" and "(at, key) \<in> set (rw_order (rc_replay r))" and "\<forall>l \<in> set ls. letter_time l < at"
  shows "window_ok (rc_replay (inbox_run cr ls r)) \<and> (at, key) \<in> set (rw_order (rc_replay (inbox_run cr ls r)))"
  using assms
proof (induction ls arbitrary: r)
  case (Cons l ls)
  with inbox_step_keeps [OF Cons.prems(1,2), of l cr] show ?case by simp
qed simp

lemma inbox_run_same: "rc_principal (inbox_run cr ls r) = rc_principal r \<and> rc_agreement (inbox_run cr ls r) = rc_agreement r"
  by (induction ls arbitrary: r) (simp_all add: inbox_step_same)

lemma inbox_run_ok: "window_ok (rc_replay r) \<Longrightarrow> window_ok (rc_replay (inbox_run cr ls r))"
proof (induction ls arbitrary: r)
  case (Cons l ls)
  have "window_ok (rc_replay (inbox_step cr l r))"
    using inbox_step_effect [of cr l r] replay_admit_ok [OF Cons.prems] Cons.prems by (auto simp: prod.collapse) (metis prod.collapse)
  with Cons.IH show ?case by simp
qed simp

text \<open>C14. A command is accepted at most once. Whatever a receiver was sent before, once it has accepted sealed bytes it refuses the
  very same bytes from the same sender, after any commands and grants in between, as long as the clock has not read
  anything later than it reads when they come again.\<close>

theorem no_command_runs_twice:
  assumes "r = inbox_run cr before (receiver_new cr identity_key agreement root)"
    and "receiver_open cr s bs t1 r = (r1, Inr opd)" and "\<forall>l \<in> set ls. letter_time l \<le> t2" and "t2 < 2 ^ 64 - 1"
  shows "isl (snd (receiver_open cr s bs t2 (inbox_run cr ls r1)))"
proof (rule ccontr)
  let ?r2 = "inbox_run cr ls r1" and ?at = "min (t1 + (2 * CLOCK_WINDOW_MS + 1)) (2 ^ 64 - 1)"
  assume "\<not> ?thesis"
  then obtain r3 opd2 where second: "receiver_open cr s bs t2 ?r2 = (r3, Inr opd2)"
    by (cases "receiver_open cr s bs t2 ?r2"; cases "snd (receiver_open cr s bs t2 ?r2)") auto
  obtain sb v body answers where o1: "open_checks cr s bs t1 r = Inr (sb, v, body, answers)"
    "check_addressing s (cm_from body) (cm_to body) (cm_nonce body) (cm_time_ms body) t1 r = (r1, Inr (op_nonce opd))"
    by (rule receiver_open_ok [OF assms(2)]) auto
  obtain sb2 v2 body2 answers2 where o2: "open_checks cr s bs t2 ?r2 = Inr (sb2, v2, body2, answers2)"
    "check_addressing s (cm_from body2) (cm_to body2) (cm_nonce body2) (cm_time_ms body2) t2 ?r2 = (r3, Inr (op_nonce opd2))"
    by (rule receiver_open_ok [OF second]) auto
  note A1 = check_addressing_ok [OF o1(2)] and A2 = check_addressing_ok [OF o2(2)]
  obtain w1 where w1: "replay_admit s (cm_nonce body) t1 (rc_replay r) = (w1, Inr ())" "r1 = r\<lparr>rc_replay := w1\<rparr>" using A1(6) by blast
  have ok: "window_ok (rc_replay r)"
    unfolding assms(1) by (rule inbox_run_ok) (simp add: receiver_new_def replay_default_def with_capacity_ok MAX_REPLAY_PER_SENDER_def)
  note W1 = replay_admit_ok [OF ok w1(1)]
  have "rc_principal ?r2 = rc_principal r \<and> rc_agreement ?r2 = rc_agreement r" using inbox_run_same [of cr ls r1] w1(2) by simp
  with o1(1) o2(1) have body: "body2 = body" by (auto simp: open_checks_def unseal_def result_ok)
  define at where "at = min (t1 + (2 * CLOCK_WINDOW_MS + 1)) (2 ^ 64 - 1 :: nat)"
  have "t2 \<le> t1 + 2 * CLOCK_WINDOW_MS" using A1(5) A2(5) body by (auto simp: abs_diff_def split: if_splits)
  then have t2: "t2 < at" using assms(4) by (simp add: at_def)
  have "(at, (s, cm_nonce body)) \<in> set (rw_order (rc_replay r1))" "window_ok (rc_replay r1)" using W1 w1(2) by (simp_all add: at_def)
  moreover have "\<forall>l \<in> set ls. letter_time l < at" using assms(3) t2 by (auto intro: le_less_trans)
  ultimately have "window_ok (rc_replay ?r2)" "(at, (s, cm_nonce body)) \<in> set (rw_order (rc_replay ?r2))"
    using inbox_run_keeps [of r1 at "(s, cm_nonce body)" ls cr] by simp_all
  moreover obtain w2 where "replay_admit s (cm_nonce body) t2 (rc_replay ?r2) = (w2, Inr ())" using A2(6) body by blast
  ultimately have "(s, cm_nonce body) \<notin> snd ` set (dropWhile (\<lambda>(at, _). at \<le> t2) (rw_order (rc_replay ?r2)))"
    and "(at, (s, cm_nonce body)) \<in> set (dropWhile (\<lambda>(at, _). at \<le> t2) (rw_order (rc_replay ?r2)))"
    using replay_admit_ok [of "rc_replay ?r2" s "cm_nonce body" t2 w2] t2 by (auto intro!: in_dropWhile)
  then show False by (metis image_eqI snd_conv)
qed

section \<open>A reader moves forward\<close>

lemma frame_checks_ok:
  assumes "frame_checks cr bs r = Inr p"
  shows "\<exists>frame key from_counter. dec_frame cr bs = Some frame \<and> map_of (rd_keys r) (sf_key_id frame) = Some (key, from_counter)
    \<and> verify_stream cr (rd_publisher_key r)
       (frame_header (rd_publisher r) (rd_channel r) (sf_key_id frame) (sf_counter frame) (sf_nonce frame) @ sf_ciphertext frame) (sf_signature frame)
    \<and> from_counter \<le> sf_counter frame \<and> rd_last r < sf_counter frame \<and> pb_counter p = sf_counter frame
    \<and> pb_skipped p = sf_counter frame - rd_last r - 1"
  using assms by (auto simp: frame_checks_def result_ok Let_def split: prod.splits)

lemma stream_open_moves:
  assumes "stream_open cr bs r = (r', Inr p)"
  shows "rd_last r < pb_counter p" "pb_skipped p = pb_counter p - rd_last r - 1" "r' = r\<lparr>rd_last := pb_counter p\<rparr>"
  using assms frame_checks_ok [of cr bs r p] by (auto simp: stream_open_def split: sum.splits)

lemma stream_open_err: "stream_open cr bs r = (r', Inl e) \<Longrightarrow> r' = r"
  by (auto simp: stream_open_def split: sum.splits)

fun read_all :: "'x stream_suite_scheme \<Rightarrow> bytes list \<Rightarrow> stream_reader \<Rightarrow> stream_reader \<times> published_batch list" where
  "read_all cr [] r = (r, [])"
| "read_all cr (bs # frames) r =
     (let (r1, res) = stream_open cr bs r; (r2, ps) = read_all cr frames r1
      in (r2, (case res of Inr p \<Rightarrow> p # ps | Inl _ \<Rightarrow> ps)))"

text \<open>A reader moves forward and accounts for what it missed. Over any frames in any order, whoever sends them, the batches it
  yields have strictly increasing counters, and the counters it moved by are exactly the batches it yielded and the
  ones it reported skipped.\<close>

theorem readers_move_forward:
  assumes "read_all cr frames r = (r', ps)"
  shows "sorted_wrt (<) (map pb_counter ps) \<and> (\<forall>p \<in> set ps. rd_last r < pb_counter p \<and> pb_counter p \<le> rd_last r')
    \<and> rd_last r' = rd_last r + sum_list (map (\<lambda>p. pb_skipped p + 1) ps)"
  using assms
proof (induction frames arbitrary: r r' ps)
  case (Cons bs frames)
  obtain r1 res where o: "stream_open cr bs r = (r1, res)" by fastforce
  obtain r2 qs where q: "read_all cr frames r1 = (r2, qs)" by fastforce
  note IH = Cons.IH [OF q]
  show ?case
  proof (cases res)
    case (Inl e)
    with Cons.prems o q IH stream_open_err [of cr bs r r1] show ?thesis by auto
  next
    case (Inr p)
    with o have "rd_last r < pb_counter p" "pb_skipped p = pb_counter p - rd_last r - 1" "r1 = r\<lparr>rd_last := pb_counter p\<rparr>"
      using stream_open_moves [of cr bs r r1 p] by simp_all
    moreover have "r' = r2" "ps = p # qs" using Cons.prems o q Inr by simp_all
    ultimately show ?thesis using IH by auto
  qed
qed simp

section \<open>A frame has one place\<close>

lemma be16_inject: "n < 2 ^ 16 \<Longrightarrow> m < 2 ^ 16 \<Longrightarrow> be16 n = be16 m \<Longrightarrow> n = m"
proof -
  assume lt: "n < 2 ^ 16" "m < 2 ^ 16" and "be16 n = be16 m"
  then have "n div 256 mod 256 = m div 256 mod 256" "n mod 256 = m mod 256"
    by (simp_all add: be16_def word_of_nat_eq_iff take_bit_eq_mod)
  moreover have "n div 256 < 256" "m div 256 < 256" using lt by (simp_all add: div_less_iff_less_mult)
  ultimately show ?thesis by (metis mod_less div_mult_mod_eq)
qed

lemma be64_inject: "n < 2 ^ 64 \<Longrightarrow> m < 2 ^ 64 \<Longrightarrow> be64 n = be64 m \<Longrightarrow> n = m"
proof -
  assume lt: "n < 2 ^ 64" "m < 2 ^ 64" and "be64 n = be64 m"
  then have "be32 (n div 2 ^ 32) = be32 (m div 2 ^ 32)" "be32 (n mod 2 ^ 32) = be32 (m mod 2 ^ 32)"
    by (simp_all add: be64_def)
  moreover have "n div 2 ^ 32 < 2 ^ 32" "m div 2 ^ 32 < 2 ^ 32" using lt by (simp_all add: div_less_iff_less_mult)
  ultimately have "n div 2 ^ 32 = m div 2 ^ 32" "n mod 2 ^ 32 = m mod 2 ^ 32" using be32_inject by simp_all
  then show ?thesis by (metis div_mult_mod_eq)
qed

lemma length_be64 [simp]: "length (be64 n) = 8"
  by (simp add: be64_def)

text \<open>A frame has one place in the world. The bytes a publisher signs determine its id, the channel, the key id, the counter, the
  nonce and the ciphertext, so a frame moved to another channel, renumbered or relabelled is not what was signed.\<close>

theorem signed_frames_have_one_place:
  assumes "frame_header p c k n x @ ct = frame_header p' c' k' n' x' @ ct'"
    and "length p = 32" "length p' = 32" and "length c < 2 ^ 16" "length c' < 2 ^ 16"
    and "length k = KEY_ID_BYTES" "length k' = KEY_ID_BYTES" and "n < 2 ^ 64" "n' < 2 ^ 64"
    and "length x = FRAME_NONCE_BYTES" "length x' = FRAME_NONCE_BYTES"
  shows "p = p' \<and> c = c' \<and> k = k' \<and> n = n' \<and> x = x' \<and> ct = ct'"
proof -
  let ?tail = "\<lambda>c k n x ct. c @ k @ be64 n @ x @ ct"
  from assms(1-3) have pp: "p = p'" and rest: "be16 (length c) @ ?tail c k n x ct = be16 (length c') @ ?tail c' k' n' x' ct'"
    using assms(4,5) by (simp_all add: frame_header_def)
  from rest have len: "length c = length c'" and tail: "?tail c k n x ct = ?tail c' k' n' x' ct'"
    using be16_inject [of "length c" "length c'"] assms(4,5) by (simp_all add: be16_def)
  from tail len have "c = c'" and "k @ be64 n @ x @ ct = k' @ be64 n' @ x' @ ct'" by simp_all
  with assms(6,7) have "k = k'" and "be64 n @ x @ ct = be64 n' @ x' @ ct'" by simp_all
  moreover from this have "be64 n = be64 n'" and "x @ ct = x' @ ct'" by (simp_all add: append_eq_append_conv)
  moreover from this(2) have "x = x' \<and> ct = ct'" using assms(10,11) by simp
  ultimately show ?thesis using pp \<open>c = c'\<close> be64_inject [OF assms(8,9)] by simp
qed

section \<open>What is published is read\<close>

text \<open>What authenticated encryption does: what is encrypted decrypts under the same key, nonce and associated data.\<close>

definition encrypts :: "'x stream_suite_scheme \<Rightarrow> bool" where
  "encrypts cr \<longleftrightarrow> (\<forall>key nonce aad m ct. gcm_encrypt cr key nonce aad m = Some ct \<longrightarrow> gcm_decrypt cr key nonce aad ct = Some m)"


section \<open>An example\<close>

definition news_key :: stream_key where "news_key = \<lparr>sk_key = replicate 32 6, sk_id = replicate 8 6\<rparr>"

definition news_header :: bytes where
  "news_header = frame_header (pad_key [7]) [1, 2] (replicate 8 6) 5 (replicate 12 3)"

definition news_frame :: stream_frame where
  "news_frame = \<lparr>sf_key_id = replicate 8 6, sf_counter = 5, sf_nonce = replicate 12 3, sf_ciphertext = [4, 2],
     sf_signature = pad_key [7] @ STREAM_LABEL @ news_header @ [4, 2]\<rparr>"

definition post :: stream_suite where
  "post = \<lparr>sha256 = (\<lambda>b. b), public_of = pad_key, ed_sign = (\<lambda>k m. pad_key k @ m), ed_verify = (\<lambda>k m s. s = k @ m),
     enc_body = (\<lambda>_. [1]), dec_body = (\<lambda>_. Some phone_body), agreement_public = pad_key,
     single_shot_seal = shot_seal, enc_key_ok = (\<lambda>_. True), single_shot_open = shot_open,
     enc_command = (\<lambda>_. [5]), dec_command = (\<lambda>_. Some note_command), enc_signed = (\<lambda>_. [6]), dec_signed = (\<lambda>_. Some note_signed),
     enc_sealed = pack, dec_sealed = unpack, enc_paired = (\<lambda>_. []), dec_paired = (\<lambda>_. None),
     gcm_encrypt = (\<lambda>key nonce aad m. Some m), gcm_decrypt = (\<lambda>key nonce aad ct. Some ct), hmac_sha256 = (\<lambda>k m. m),
     enc_frame = (\<lambda>_. [7]), dec_frame = (\<lambda>_. Some news_frame), enc_grant = (\<lambda>_. []), dec_grant = (\<lambda>_. None)\<rparr>"

lemma post_is_mail: "mail_like post"
  by (simp add: mail_like_def desk_like_def post_def)

definition news_reader :: stream_reader where
  "news_reader = \<lparr>rd_publisher = pad_key [7], rd_publisher_key = pad_key [7], rd_channel = [1, 2],
     rd_keys = [(replicate 8 6, replicate 32 6, 4)], rd_last = 2\<rparr>"

lemma news_sealed: "seal_frame post (Some (replicate 12 3)) phone_sender [1, 2] news_key 5 [4, 2] = Inr [7]"
  by (simp add: seal_frame_def Let_def post_def)


theorem readers_move_forward_witness:
  "rd_last (fst (read_all post [[7], [7]] news_reader)) =
     2 + sum_list (map (\<lambda>p. pb_skipped p + 1) (snd (read_all post [[7], [7]] news_reader)))"
proof -
  obtain r' ps where "read_all post [[7], [7]] news_reader = (r', ps)" by fastforce
  with readers_move_forward [OF this] show ?thesis by (simp add: news_reader_def)
qed

theorem signed_frames_have_one_place_witness:
  "frame_header (pad_key [7]) [1, 2] (replicate 8 6) 5 (replicate 12 3) @ [4, 2] \<noteq> frame_header (pad_key [7]) [1] (replicate 8 6) 5 (replicate 12 3) @ [4, 2]"
proof
  assume eq: "frame_header (pad_key [7]) [1, 2] (replicate 8 6) 5 (replicate 12 3) @ [4, 2] = frame_header (pad_key [7]) [1] (replicate 8 6) 5 (replicate 12 3) @ [4, 2]"
  from signed_frames_have_one_place [OF eq] show False by (simp add: KEY_ID_BYTES_def FRAME_NONCE_BYTES_def)
qed

theorem no_command_runs_twice_witness:
  "isl (snd (receiver_open post (pad_key [7]) note_sealed 18
     (inbox_run post [GrantLetter (pad_key [7]) [1] 17] (mailbox\<lparr>rc_replay := mailbox_after\<rparr>))))"
  by (rule no_command_runs_twice [of mailbox post "[]" "pad_key [2]" "[3]" "pad_key [1]", OF _ note_opens [OF post_is_mail]])
    (simp_all add: mailbox_new [OF post_is_mail])

end
