(* ===== verification/Revoked.thy ===== *)
theory Revoked
  imports Revocation Streams "HOL-Library.List_Lexorder"
begin

text \<open>
  What a box connector knows of its account's revocations, \<open>crates/connector/src/revoked.rs\<close>, and the one command it answers,
  \<open>crates/connector/src/grant.rs\<close>. The ordered set of revokers is a sorted list without repetitions.
\<close>

section \<open>What is known\<close>

definition FRESHNESS_FLOOR_MS :: nat where "FRESHNESS_FLOOR_MS = 7 * 24 * 60 * 60 * 1000"

datatype not_now = IsRevoked | IsStale nat

record applied =
  ap_rotate :: bool

record revocations =
  rs_root :: public_key
  rs_held :: "revoked option"
  rs_revokers :: "bytes list"
  rs_armed_at :: "nat option"

definition revocations_new :: "public_key \<Rightarrow> revoked option \<Rightarrow> bytes list \<Rightarrow> nat option \<Rightarrow> revocations" where
  "revocations_new root held revokers armed_at = \<lparr>rs_root = root, rs_held = held, rs_revokers = revokers, rs_armed_at = armed_at\<rparr>"

definition get_or_insert :: "nat option \<Rightarrow> nat \<Rightarrow> nat option" where
  "get_or_insert a now_ms = (case a of None \<Rightarrow> Some now_ms | Some t \<Rightarrow> Some t)"

definition saw_revoker :: "bytes \<Rightarrow> nat \<Rightarrow> revocations \<Rightarrow> revocations \<times> bool" where
  "saw_revoker p now_ms r =
     (let armed = (rs_armed_at r = None); fresh = (p \<notin> set (rs_revokers r)) in
      (r\<lparr>rs_armed_at := get_or_insert (rs_armed_at r) now_ms, rs_revokers := insort_insert p (rs_revokers r)\<rparr>, fresh \<or> armed))"

definition revocations_apply ::
    "'x list_suite_scheme \<Rightarrow> revocation_list \<Rightarrow> nat \<Rightarrow> revocations \<Rightarrow> revocations \<times> (revocation_error + applied)" where
  "revocations_apply cr lst now_ms r =
     (case verify_revocations cr (rs_root r) lst now_ms (rs_held r) of
        Inl e \<Rightarrow> (r, Inl e)
      | Inr revoked \<Rightarrow>
          let rotate = adds_to revoked (rs_held r) in
          (r\<lparr>rs_armed_at := get_or_insert (rs_armed_at r) now_ms, rs_revokers := insort_insert (rv_signer revoked) (rs_revokers r),
             rs_held := Some revoked\<rparr>, Inr \<lparr>ap_rotate = rotate\<rparr>))"

definition may_grant :: "'x suite_scheme \<Rightarrow> certificate list \<Rightarrow> nat \<Rightarrow> revocations \<Rightarrow> not_now + unit" where
  "may_grant cr chain now_ms r =
     (if (case rs_held r of Some held \<Rightarrow> revokes cr held chain | None \<Rightarrow> False) then Inl IsRevoked
      else case rs_armed_at r of
             None \<Rightarrow> Inr ()
           | Some armed_at \<Rightarrow>
               let fresh_since = (case rs_held r of None \<Rightarrow> armed_at | Some held \<Rightarrow> rv_version held) in
               if now_ms - fresh_since > FRESHNESS_FLOOR_MS then Inl (IsStale fresh_since) else Inr ())"

section \<open>The command\<close>

definition VIEW :: string where "VIEW = ''view''"

definition GRANT_COMMAND :: string where "GRANT_COMMAND = ''box.grant''"

definition grant_refusal :: "not_now \<Rightarrow> bytes" where
  "grant_refusal why = (case why of IsRevoked \<Rightarrow> ascii ''revoked'' | IsStale since_ms \<Rightarrow> ascii (''stale '' @ show_nat since_ms))"

definition is_grant :: "opened \<Rightarrow> bool" where
  "is_grant asked \<longleftrightarrow> op_body asked = ascii GRANT_COMMAND \<and> op_scope asked = VIEW"

datatype refused = NotTheCommand | WrongScope | NoAgreementKey

record channels =
  ch_edge :: bytes
  ch_sample :: bytes

record key_start =
  ks_edge :: nat
  ks_sample :: nat

definition wrap_for ::
    "'x stream_suite_scheme \<Rightarrow> (nat \<Rightarrow> bytes option) \<Rightarrow> (nat \<Rightarrow> bytes) \<Rightarrow> opened \<Rightarrow> sender \<Rightarrow> stream_key \<Rightarrow> channels \<Rightarrow> key_start \<Rightarrow> nat
     \<Rightarrow> seal_error + (refused + bytes list)" where
  "wrap_for cr rnd eph asked publisher key chans start now_ms =
     (if op_body asked \<noteq> ascii GRANT_COMMAND then Inr (Inl NotTheCommand)
      else if op_scope asked \<noteq> VIEW then Inr (Inl WrongScope)
      else if length (cb_agreement_key (op_leaf asked)) \<noteq> 32 then Inr (Inl NoAgreementKey)
      else let to = \<lparr>rt_principal = op_from asked, rt_agreement_key = cb_agreement_key (op_leaf asked)\<rparr> in
           and_then (wrap_key cr (rnd 0) (eph 0) publisher to (ch_edge chans) key (ks_edge start) now_ms) (\<lambda>edge.
           and_then (wrap_key cr (rnd 1) (eph 1) publisher to (ch_sample chans) key (ks_sample start) now_ms) (\<lambda>sample.
           Inr (Inr [edge, sample]))))"

section \<open>What the connector hears\<close>

datatype hearing = Saw bytes nat | Arrived revocation_list nat

fun heard_at :: "hearing \<Rightarrow> nat" where
  "heard_at (Saw p t) = t"
| "heard_at (Arrived lst t) = t"

fun hear_step :: "'x list_suite_scheme \<Rightarrow> hearing \<Rightarrow> revocations \<Rightarrow> revocations" where
  "hear_step cr (Saw p t) r = fst (saw_revoker p t r)"
| "hear_step cr (Arrived lst t) r = fst (revocations_apply cr lst t r)"

definition hear_all :: "'x list_suite_scheme \<Rightarrow> hearing list \<Rightarrow> revocations \<Rightarrow> revocations" where
  "hear_all cr hs r = fold (hear_step cr) hs r"

lemma hear_all_simps [simp]: "hear_all cr [] r = r" "hear_all cr (x # hs) r = hear_all cr hs (hear_step cr x r)"
  by (simp_all add: hear_all_def)

lemma hear_all_append: "hear_all cr (hs @ ks) r = hear_all cr ks (hear_all cr hs r)"
  by (simp add: hear_all_def)

lemma apply_cases:
  obtains (refused) e where "revocations_apply cr lst t r = (r, Inl e)"
  | (taken) h where "verify_revocations cr (rs_root r) lst t (rs_held r) = Inr h"
      "fst (revocations_apply cr lst t r) = r\<lparr>rs_armed_at := get_or_insert (rs_armed_at r) t,
         rs_revokers := insort_insert (rv_signer h) (rs_revokers r), rs_held := Some h\<rparr>"
  by (cases "verify_revocations cr (rs_root r) lst t (rs_held r)") (simp_all add: revocations_apply_def)

lemma hear_step_keeps:
  "rs_root (hear_step cr x r) = rs_root r"
  "rs_armed_at r = Some a \<Longrightarrow> rs_armed_at (hear_step cr x r) = Some a"
  "set (rs_revokers r) \<subseteq> set (rs_revokers (hear_step cr x r))"
  "sorted (rs_revokers r) \<and> distinct (rs_revokers r) \<Longrightarrow> sorted (rs_revokers (hear_step cr x r)) \<and> distinct (rs_revokers (hear_step cr x r))"
proof -
  have "rs_root (hear_step cr x r) = rs_root r
    \<and> (rs_armed_at r = Some a \<longrightarrow> rs_armed_at (hear_step cr x r) = Some a)
    \<and> set (rs_revokers r) \<subseteq> set (rs_revokers (hear_step cr x r))
    \<and> (sorted (rs_revokers r) \<and> distinct (rs_revokers r) \<longrightarrow> sorted (rs_revokers (hear_step cr x r)) \<and> distinct (rs_revokers (hear_step cr x r)))" for a
  proof (cases x)
    case (Saw p t)
    then show ?thesis
      by (auto simp: saw_revoker_def Let_def get_or_insert_def set_insort_insert sorted_insort_insert distinct_insort_insert)
  next
    case (Arrived lst t)
    show ?thesis
      by (rule apply_cases [of cr lst t r])
        (use Arrived in \<open>auto simp: get_or_insert_def set_insort_insert sorted_insort_insert distinct_insort_insert\<close>)
  qed
  then show "rs_root (hear_step cr x r) = rs_root r"
    "rs_armed_at r = Some a \<Longrightarrow> rs_armed_at (hear_step cr x r) = Some a"
    "set (rs_revokers r) \<subseteq> set (rs_revokers (hear_step cr x r))"
    "sorted (rs_revokers r) \<and> distinct (rs_revokers r) \<Longrightarrow> sorted (rs_revokers (hear_step cr x r)) \<and> distinct (rs_revokers (hear_step cr x r))"
    by blast+
qed

text \<open>The held list after one more thing heard: the same, or one that verified against it.\<close>

lemma hear_step_held:
  obtains (same) "rs_held (hear_step cr x r) = rs_held r"
  | (newer) lst t h where "x = Arrived lst t" "rs_held (hear_step cr x r) = Some h" "verify_revocations cr (rs_root r) lst t (rs_held r) = Inr h"
proof (cases x)
  case (Saw p t)
  then show thesis by (intro same) (simp add: saw_revoker_def Let_def)
next
  case (Arrived lst t)
  show thesis by (rule apply_cases [of cr lst t r]) (use Arrived in \<open>auto intro: same newer\<close>)
qed

lemma hear_all_armed: "rs_armed_at r = Some a \<Longrightarrow> rs_armed_at (hear_all cr hs r) = Some a"
  by (induction hs arbitrary: r) (auto intro: hear_step_keeps)

lemma hear_all_version:
  assumes "rs_held r = Some h"
  shows "rs_held (hear_all cr hs r) = Some h \<or> (\<exists>k. rs_held (hear_all cr hs r) = Some k \<and> rv_version h < rv_version k)"
  using assms
proof (induction hs arbitrary: r h)
  case (Cons x hs)
  show ?case
  proof (rule hear_step_held [of cr x r])
    assume "rs_held (hear_step cr x r) = rs_held r"
    with Cons show ?thesis by simp
  next
    fix lst t k assume k: "rs_held (hear_step cr x r) = Some k" "verify_revocations cr (rs_root r) lst t (rs_held r) = Inr k"
    from k(2) Cons.prems have "rv_version h < rv_version k" by (auto elim!: verify_revocations_ok)
    with Cons.IH [OF k(1)] show ?thesis by (auto intro: order.strict_trans)
  qed
qed simp

text \<open>C11. A device the held list names is refused the key, and goes on being refused whatever arrives, replays and reorderings
  included, until a list with a later version is held in its place.\<close>

theorem revoked_devices_stay_refused:
  assumes "may_grant cr chain now r = Inl IsRevoked"
  shows "may_grant cr chain t (hear_all cr hs r) = Inl IsRevoked
    \<or> (\<exists>h k. rs_held r = Some h \<and> rs_held (hear_all cr hs r) = Some k \<and> rv_version h < rv_version k)"
proof -
  obtain h where h: "rs_held r = Some h" "revokes cr h chain"
    using assms by (auto simp: may_grant_def Let_def split: option.splits if_splits)
  from hear_all_version [OF h(1), of cr hs] h show ?thesis by (auto simp: may_grant_def)
qed

lemma held_version_bound:
  assumes "list_all (\<lambda>x. heard_at x \<le> last_ms) hs" "version_of (rs_held r) \<le> last_ms + MAX_FUTURE_MS"
  shows "version_of (rs_held (hear_all cr hs r)) \<le> last_ms + MAX_FUTURE_MS"
  using assms
proof (induction hs arbitrary: r)
  case (Cons x hs)
  have "version_of (rs_held (hear_step cr x r)) \<le> last_ms + MAX_FUTURE_MS"
  proof (rule hear_step_held [of cr x r])
    fix lst t k assume k: "x = Arrived lst t" "rs_held (hear_step cr x r) = Some k" "verify_revocations cr (rs_root r) lst t (rs_held r) = Inr k"
    from k(3) have "rv_version k \<le> t + MAX_FUTURE_MS" by (auto elim!: verify_revocations_ok)
    with k Cons.prems(1) show ?thesis by (simp add: version_of_def)
  qed (use Cons.prems in simp)
  with Cons show ?case by simp
qed simp

text \<open>C30. A hub that goes silent cannot keep a connector granting. Once the floor is armed it stays armed; and if nothing has been heard
  since a moment, the connector stops granting its key to anybody a freshness floor and a clock allowance after that moment.\<close>

theorem silence_stops_new_grants:
  assumes "rs_armed_at r = Some a" "a \<le> last_ms" "version_of (rs_held r) \<le> last_ms + MAX_FUTURE_MS"
    and "list_all (\<lambda>x. heard_at x \<le> last_ms) hs"
    and "last_ms + MAX_FUTURE_MS + FRESHNESS_FLOOR_MS < now"
  shows "rs_armed_at (hear_all cr hs r) = Some a \<and> isl (may_grant cr chain now (hear_all cr hs r))"
proof -
  have armed: "rs_armed_at (hear_all cr hs r) = Some a" using assms(1) by (rule hear_all_armed)
  have "version_of (rs_held (hear_all cr hs r)) \<le> last_ms + MAX_FUTURE_MS" using assms(4,3) by (rule held_version_bound)
  with assms(2,5) armed show ?thesis
    by (auto simp: may_grant_def Let_def version_of_def split: option.splits)
qed

section \<open>An example\<close>

definition office_knows :: revocations where
  "office_knows = revocations_new (pad_key [1]) (Some (office_revoked 5)) [pad_key [2]] (Some 10)"

definition phone_chain :: "certificate list" where
  "phone_chain = [\<lparr>cert_body = [2], cert_signature = []\<rparr>]"

lemma office_revokes_phone: "revokes office (office_revoked n) phone_chain"
proof -
  have b: "dec_body office [2] = Some phone_body" by (simp add: office_def)
  have p: "length (cb_subject phone_body) = 32" "principal_id office (cb_subject phone_body) = pad_key [7]"
    by (simp_all add: phone_body_def spec_body_def phone_spec_def principal_id_def office_def)
  show ?thesis by (simp add: revokes_def revokes_cert_def b p office_revoked_def phone_chain_def)
qed

theorem revoked_devices_stay_refused_witness:
  "may_grant office phone_chain 40 (hear_all office [Saw (pad_key [3]) 20, Arrived (signed_list 4) 30] office_knows) = Inl IsRevoked
   \<or> (\<exists>h k. rs_held office_knows = Some h
        \<and> rs_held (hear_all office [Saw (pad_key [3]) 20, Arrived (signed_list 4) 30] office_knows) = Some k \<and> rv_version h < rv_version k)"
proof (rule revoked_devices_stay_refused)
  show "may_grant office phone_chain 20 office_knows = Inl IsRevoked"
    by (simp add: may_grant_def office_knows_def revocations_new_def office_revokes_phone)
qed

theorem silence_stops_new_grants_witness:
  "isl (may_grant office [signer_cert] 604860031 (hear_all office [Saw (pad_key [3]) 20, Arrived (signed_list 7) 30] office_knows))"
  using silence_stops_new_grants [of office_knows 10 30 "[Saw (pad_key [3]) 20, Arrived (signed_list 7) 30]" 604860031 office "[signer_cert]"]
  by (simp add: office_knows_def revocations_new_def version_of_def office_revoked_def MAX_FUTURE_MS_def FRESHNESS_FLOOR_MS_def)

end
