(* ===== verification/Box_State.thy ===== *)
theory Box_State
  imports Revoked
begin

text \<open>
  What a box connector keeps between runs, \<open>crates/connector/src/state.rs\<close>: its keys, what a pairing gave it, and who is revoked. The
  state directory is an association list from file names to a mode, contents, and whether the contents have been forced to the disk since they were
  last written. The file system may refuse any operation: \<open>fault\<close> says which, with how many bytes a failing write had written. The reason in brackets after
  \<open>no longer verifies\<close> is left out of that message.
\<close>

section \<open>Files\<close>

datatype io_kind = IoNotFound | IoAlreadyExists | IoInvalidData | IoPermissionDenied | IoOther

record io_error =
  ie_kind :: io_kind
  ie_message :: string

record disk_file =
  fl_mode :: nat
  fl_bytes :: bytes
  fl_synced :: bool

type_synonym files = "(string \<times> disk_file) list"

datatype file_op = FMkdir | FStat | FRead | FOpen | FWrite | FSync | FRename

type_synonym faults = "file_op \<Rightarrow> string \<Rightarrow> (nat \<times> io_error) option"

definition IDENTITY_FILE :: string where "IDENTITY_FILE = ''identity.key''"
definition AGREEMENT_FILE :: string where "AGREEMENT_FILE = ''agreement.key''"
definition PAIRED_FILE :: string where "PAIRED_FILE = ''paired''"
definition REVOCATIONS_FILE :: string where "REVOCATIONS_FILE = ''revocations''"
definition REVOKERS_FILE :: string where "REVOKERS_FILE = ''revokers''"

definition in_dir :: "string \<Rightarrow> string \<Rightarrow> string" where
  "in_dir dir name = dir @ ''/'' @ name"

fun show_oct :: "nat \<Rightarrow> string" where
  "show_oct n = (if n < 8 then [char_of (48 + n)] else show_oct (n div 8) @ [char_of (48 + n mod 8)])"

declare show_oct.simps [simp del]

text \<open>\<open>mode & 0o777\<close>, and of that \<open>mode & 0o077\<close>.\<close>

definition check_private :: "string \<Rightarrow> disk_file \<Rightarrow> io_error + unit" where
  "check_private path f =
     (let mode = fl_mode f mod 512 in
      ensure (mode mod 64 = 0)
        \<lparr>ie_kind = IoPermissionDenied,
         ie_message = path @ '' is readable by others (mode '' @ show_oct mode @ ''): chmod 600 it, or pair again''\<rparr>)"

definition state_read :: "faults \<Rightarrow> string \<Rightarrow> string \<Rightarrow> files \<Rightarrow> io_error + bytes option" where
  "state_read fault dir name fs =
     (case fault FStat (in_dir dir name) of
        Some (_, e) \<Rightarrow> if ie_kind e = IoNotFound then Inr None else Inl e
      | None \<Rightarrow>
          (case map_of fs name of
             None \<Rightarrow> Inr None
           | Some f \<Rightarrow> and_then (check_private (in_dir dir name) f) (\<lambda>_.
               case fault FRead (in_dir dir name) of Some (_, e) \<Rightarrow> Inl e | None \<Rightarrow> Inr (Some (fl_bytes f)))))"

text \<open>\<open>write_secret\<close>: opening creates the file private, or truncates it; writing and syncing come after.\<close>

definition opened_file :: "string \<Rightarrow> files \<Rightarrow> disk_file" where
  "opened_file name fs = (case map_of fs name of Some f \<Rightarrow> f\<lparr>fl_bytes := [], fl_synced := False\<rparr> | None \<Rightarrow> \<lparr>fl_mode = 384, fl_bytes = [], fl_synced = False\<rparr>)"

definition already :: "string \<Rightarrow> io_error" where
  "already path = \<lparr>ie_kind = IoAlreadyExists, ie_message = path @ '' already exists: this connector already has keys''\<rparr>"

definition write_secret :: "faults \<Rightarrow> string \<Rightarrow> string \<Rightarrow> bytes \<Rightarrow> bool \<Rightarrow> files \<Rightarrow> files \<times> (io_error + unit)" where
  "write_secret fault dir name bs replace fs =
     (let path = in_dir dir name; put = (\<lambda>n synced. AList.update name ((opened_file name fs)\<lparr>fl_bytes := take n bs, fl_synced := synced\<rparr>) fs) in
      case fault FOpen path of
        Some (_, e) \<Rightarrow> (fs, Inl (if \<not> replace \<and> ie_kind e = IoAlreadyExists then already path else e))
      | None \<Rightarrow>
          if \<not> replace \<and> map_of fs name \<noteq> None then (fs, Inl (already path))
          else (case fault FWrite path of
                  Some (n, e) \<Rightarrow> (put n False, Inl e)
                | None \<Rightarrow>
                    (case fault FSync path of
                       Some (_, e) \<Rightarrow> (put (length bs) False, Inl e)
                     | None \<Rightarrow> (put (length bs) True, Inr ()))))"

definition make_dir :: "faults \<Rightarrow> string \<Rightarrow> io_error + unit" where
  "make_dir fault dir = (case fault FMkdir dir of Some (_, e) \<Rightarrow> Inl e | None \<Rightarrow> Inr ())"

definition replace_atomically :: "faults \<Rightarrow> string \<Rightarrow> string \<Rightarrow> bytes \<Rightarrow> files \<Rightarrow> files \<times> (io_error + unit)" where
  "replace_atomically fault dir name bs fs =
     (let aside = name @ ''.new'' in
      case write_secret fault dir aside bs True fs of
        (fs1, Inl e) \<Rightarrow> (fs1, Inl e)
      | (fs1, Inr _) \<Rightarrow>
          (case fault FRename (in_dir dir aside) of
             Some (_, e) \<Rightarrow> (fs1, Inl e)
           | None \<Rightarrow> (AList.update name (the (map_of fs1 aside)) (AList.delete aside fs1), Inr ())))"

section \<open>Keys\<close>

definition nibble :: "char \<Rightarrow> nat option" where
  "nibble c =
     (let n = of_char c in
      if 48 \<le> n \<and> n \<le> 57 then Some (n - 48) else if 97 \<le> n \<and> n \<le> 102 then Some (n - 97 + 10)
      else if 65 \<le> n \<and> n \<le> 70 then Some (n - 65 + 10) else None)"

fun nibble_pairs :: "string \<Rightarrow> bytes option" where
  "nibble_pairs (a # b # s) =
     (case nibble a of None \<Rightarrow> None | Some h \<Rightarrow>
       (case nibble b of None \<Rightarrow> None | Some l \<Rightarrow> map_option ((#) (of_nat (h * 16 + l))) (nibble_pairs s)))"
| "nibble_pairs _ = Some []"

definition unhex32 :: "string \<Rightarrow> bytes option" where
  "unhex32 s = (if length s \<noteq> 64 then None else nibble_pairs s)"

definition malformed :: "string \<Rightarrow> string \<Rightarrow> io_error" where
  "malformed dir name =
     \<lparr>ie_kind = IoInvalidData, ie_message = in_dir dir name @ '' is not 32 bytes of hex; delete it to pair again''\<rparr>"

definition garbled :: "string \<Rightarrow> string \<Rightarrow> io_error" where
  "garbled dir name = \<lparr>ie_kind = IoInvalidData, ie_message = in_dir dir name @ '' is not what a connector wrote''\<rparr>"

definition state_seed :: "faults \<Rightarrow> string \<Rightarrow> string \<Rightarrow> files \<Rightarrow> io_error + bytes option" where
  "state_seed fault dir name fs =
     and_then (state_read fault dir name fs) (\<lambda>found.
     case found of
       None \<Rightarrow> Inr None
     | Some bs \<Rightarrow>
         and_then (or_err (from_utf8 bs) (malformed dir name)) (\<lambda>s.
         and_then (or_err (unhex32 (trim s)) (malformed dir name)) (\<lambda>seed. Inr (Some seed))))"

text \<open>Both keys, each named by the seed it is derived from.\<close>

record box_keys =
  bk_identity :: identity
  bk_agreement :: bytes

definition state_keys :: "faults \<Rightarrow> string \<Rightarrow> files \<Rightarrow> io_error + box_keys option" where
  "state_keys fault dir fs =
     and_then (state_seed fault dir IDENTITY_FILE fs) (\<lambda>identity.
     and_then (state_seed fault dir AGREEMENT_FILE fs) (\<lambda>agreement.
     Inr (case (identity, agreement) of (Some i, Some a) \<Rightarrow> Some \<lparr>bk_identity = i, bk_agreement = a\<rparr> | _ \<Rightarrow> None)))"

definition seed_line :: "bytes \<Rightarrow> bytes" where
  "seed_line seed = ascii (hex seed @ [CHR 10])"

definition generate_keys :: "faults \<Rightarrow> string \<Rightarrow> io_error + bytes \<Rightarrow> io_error + bytes \<Rightarrow> files \<Rightarrow> files \<times> (io_error + box_keys)" where
  "generate_keys fault dir rnd1 rnd2 fs =
     (case and_then rnd1 (\<lambda>i. and_then rnd2 (\<lambda>a. and_then (make_dir fault dir) (\<lambda>_. Inr (i, a)))) of
        Inl e \<Rightarrow> (fs, Inl e)
      | Inr (i, a) \<Rightarrow>
          (case write_secret fault dir IDENTITY_FILE (seed_line i) False fs of
             (fs1, Inl e) \<Rightarrow> (fs1, Inl e)
           | (fs1, Inr _) \<Rightarrow>
               (case write_secret fault dir AGREEMENT_FILE (seed_line a) False fs1 of
                  (fs2, Inl e) \<Rightarrow> (fs2, Inl e)
                | (fs2, Inr _) \<Rightarrow> (fs2, Inr \<lparr>bk_identity = i, bk_agreement = a\<rparr>))))"

section \<open>What a pairing gave\<close>

definition state_paired :: "'x seal_suite_scheme \<Rightarrow> faults \<Rightarrow> string \<Rightarrow> files \<Rightarrow> io_error + paired_with option" where
  "state_paired cr fault dir fs =
     and_then (state_read fault dir PAIRED_FILE fs) (\<lambda>found.
     case found of
       None \<Rightarrow> Inr None
     | Some bs \<Rightarrow> and_then (or_err (dec_paired cr bs)
         \<lparr>ie_kind = IoInvalidData, ie_message = PAIRED_FILE @ '' is not what a pairing wrote''\<rparr>) (\<lambda>p. Inr (Some p)))"

definition write_paired :: "'x seal_suite_scheme \<Rightarrow> faults \<Rightarrow> string \<Rightarrow> paired_with \<Rightarrow> files \<Rightarrow> files \<times> (io_error + unit)" where
  "write_paired cr fault dir p fs =
     (case make_dir fault dir of Inl e \<Rightarrow> (fs, Inl e) | Inr _ \<Rightarrow> write_secret fault dir PAIRED_FILE (enc_paired cr p) True fs)"

section \<open>Who is revoked\<close>

record state_suite = list_suite +
  enc_rlist :: "revocation_list \<Rightarrow> bytes"
  dec_rlist :: "bytes \<Rightarrow> revocation_list option"

definition bad_list :: "string \<Rightarrow> string \<Rightarrow> io_error" where
  "bad_list dir why = \<lparr>ie_kind = IoInvalidData, ie_message = in_dir dir REVOCATIONS_FILE @ '' '' @ why\<rparr>"

definition held_list :: "'x state_suite_scheme \<Rightarrow> faults \<Rightarrow> string \<Rightarrow> public_key \<Rightarrow> files \<Rightarrow> io_error + revoked option" where
  "held_list cr fault dir root fs =
     and_then (state_read fault dir REVOCATIONS_FILE fs) (\<lambda>found.
     case found of
       None \<Rightarrow> Inr None
     | Some bs \<Rightarrow>
         and_then (or_err (dec_rlist cr bs) (bad_list dir ''is not a revocation list'')) (\<lambda>lst.
         and_then (or_err (dec_list cr (rl_body lst)) (bad_list dir ''is not a revocation list'')) (\<lambda>body.
         case verify_revocations cr root lst (rb_version body) None of
           Inl _ \<Rightarrow> Inl (bad_list dir ''no longer verifies'')
         | Inr h \<Rightarrow> Inr (Some h))))"

fun revoker_lines :: "string list \<Rightarrow> bytes list \<times> nat option \<Rightarrow> (bytes list \<times> nat option) option" where
  "revoker_lines [] acc = Some acc"
| "revoker_lines (line # lines) (revokers, armed_at) =
     (case strip_prefix ''armed '' line of
        Some ms \<Rightarrow> (case parse_nat (2 ^ 64 - 1) ms of None \<Rightarrow> None | Some t \<Rightarrow> revoker_lines lines (revokers, Some t))
      | None \<Rightarrow> (case unhex32 line of None \<Rightarrow> None | Some p \<Rightarrow> revoker_lines lines (insort_insert p revokers, armed_at)))"

definition read_revokers :: "faults \<Rightarrow> string \<Rightarrow> files \<Rightarrow> io_error + bytes list \<times> nat option" where
  "read_revokers fault dir fs =
     and_then (state_read fault dir REVOKERS_FILE fs) (\<lambda>found.
     case found of
       None \<Rightarrow> Inr ([], None)
     | Some bs \<Rightarrow>
         and_then (or_err (from_utf8 bs) (garbled dir REVOKERS_FILE)) (\<lambda>s.
         or_err (revoker_lines (filter (\<lambda>l. l \<noteq> []) (map trim (text_lines s))) ([], None)) (garbled dir REVOKERS_FILE)))"

definition state_revocations :: "'x state_suite_scheme \<Rightarrow> faults \<Rightarrow> string \<Rightarrow> public_key \<Rightarrow> files \<Rightarrow> io_error + revocations" where
  "state_revocations cr fault dir root fs =
     and_then (held_list cr fault dir root fs) (\<lambda>held.
     and_then (read_revokers fault dir fs) (\<lambda>(revokers, armed_at).
     Inr (revocations_new root held revokers armed_at)))"

definition write_revocation_list ::
    "'x state_suite_scheme \<Rightarrow> faults \<Rightarrow> string \<Rightarrow> revocation_list \<Rightarrow> files \<Rightarrow> files \<times> (io_error + unit)" where
  "write_revocation_list cr fault dir lst fs =
     (case make_dir fault dir of Inl e \<Rightarrow> (fs, Inl e) | Inr _ \<Rightarrow> replace_atomically fault dir REVOCATIONS_FILE (enc_rlist cr lst) fs)"

definition revokers_text :: "revocations \<Rightarrow> string" where
  "revokers_text r =
     (case rs_armed_at r of Some ms \<Rightarrow> ''armed '' @ show_nat ms @ [CHR 10] | None \<Rightarrow> [])
     @ concat (map (\<lambda>p. hex p @ [CHR 10]) (rs_revokers r))"

definition write_revokers :: "faults \<Rightarrow> string \<Rightarrow> revocations \<Rightarrow> files \<Rightarrow> files \<times> (io_error + unit)" where
  "write_revokers fault dir r fs =
     (case make_dir fault dir of Inl e \<Rightarrow> (fs, Inl e) | Inr _ \<Rightarrow> replace_atomically fault dir REVOKERS_FILE (ascii (revokers_text r)) fs)"

section \<open>Reading back what was written\<close>

abbreviation sound_disk :: faults where "sound_disk \<equiv> \<lambda>_ _. None"

definition private_file :: "disk_file \<Rightarrow> bool" where
  "private_file f \<longleftrightarrow> fl_mode f mod 64 = 0"

definition all_private :: "files \<Rightarrow> bool" where
  "all_private fs \<longleftrightarrow> (\<forall>name f. map_of fs name = Some f \<longrightarrow> private_file f)"

lemma check_private_ok: "check_private path f = Inr () \<longleftrightarrow> private_file f"
proof -
  have "fl_mode f mod 512 mod 64 = fl_mode f mod 64" by (rule mod_mod_cancel) simp
  then show ?thesis by (simp add: check_private_def ensure_def private_file_def Let_def)
qed

lemma state_read_private:
  "map_of fs name = Some f \<Longrightarrow> private_file f \<Longrightarrow> state_read sound_disk dir name fs = Inr (Some (fl_bytes f))"
  using check_private_ok [of "in_dir dir name" f] by (simp add: state_read_def)

lemma state_read_none: "map_of fs name = None \<Longrightarrow> state_read sound_disk dir name fs = Inr None"
  by (simp add: state_read_def)

lemma write_secret_files:
  "write_secret fault dir name bs replace fs = (fs', r) \<Longrightarrow> x \<noteq> name \<Longrightarrow> map_of fs' x = map_of fs x"
  by (auto simp: write_secret_def Let_def update_conv' split: option.splits if_splits prod.splits)

lemma write_secret_done:
  assumes "write_secret fault dir name bs replace fs = (fs', Inr u)"
  shows "fs' = AList.update name ((opened_file name fs)\<lparr>fl_bytes := bs, fl_synced := True\<rparr>) fs" "replace \<or> map_of fs name = None"
  using assms by (auto simp: write_secret_def Let_def split: option.splits if_splits prod.splits)

lemma opened_file_private: "all_private fs \<Longrightarrow> private_file ((opened_file name fs)\<lparr>fl_bytes := bs, fl_synced := b\<rparr>)"
  by (auto simp: opened_file_def all_private_def private_file_def split: option.splits)

lemma write_secret_private:
  "write_secret fault dir name bs replace fs = (fs', r) \<Longrightarrow> all_private fs \<Longrightarrow> all_private fs'"
  using opened_file_private [where fs = fs and name = name]
  by (auto simp: write_secret_def Let_def all_private_def update_conv' split: option.splits if_splits prod.splits)

lemma replace_atomically_done:
  assumes "replace_atomically fault dir name bs fs = (fs', Inr u)"
  shows "map_of fs' = (map_of fs)(name := Some ((opened_file (name @ ''.new'') fs)\<lparr>fl_bytes := bs, fl_synced := True\<rparr>), name @ ''.new'' := None)"
proof -
  from assms obtain fs1 v where w: "write_secret fault dir (name @ ''.new'') bs True fs = (fs1, Inr v)"
    and f: "fs' = AList.update name (the (map_of fs1 (name @ ''.new''))) (AList.delete (name @ ''.new'') fs1)"
    by (auto simp: replace_atomically_def Let_def split: option.splits prod.splits sum.splits)
  show ?thesis unfolding f write_secret_done(1) [OF w] by (rule ext) (simp add: update_conv' delete_conv')
qed

lemma replace_atomically_private:
  assumes "replace_atomically fault dir name bs fs = (fs', Inr u)" "all_private fs"
  shows "all_private fs'"
  using assms(2) opened_file_private [OF assms(2)] unfolding all_private_def replace_atomically_done [OF assms(1)] by (auto split: if_splits)

lemma nibble_to_digit: "nibble c = to_digit 16 c"
  by (auto simp: nibble_def to_digit_def Let_def)

lemma nibble_pairs_hex: "nibble_pairs (hex bs) = Some bs"
  by (induction bs) (simp_all add: nibble_to_digit to_digit_hex byte_nibbles)

lemma unhex32_hex: "length p = 32 \<Longrightarrow> unhex32 (hex p) = Some p"
  by (simp add: unhex32_def length_hex nibble_pairs_hex)

lemma hex_nonempty: "length p = 32 \<Longrightarrow> hex p \<noteq> []"
  using length_hex [of p] by auto

text \<open>The lines of the revokers file, one by one.\<close>

lemma hex_line: "length p = 32 \<Longrightarrow> text_lines (hex p @ CHR 10 # t) = hex p # text_lines t"
  using hexdigit_not_special hex_hexdigits [of p] hex_nonempty [of p] last_in_set [of "hex p"]
  by (intro text_lines_cons) (auto simp: list_all_iff)

lemma show_nat_nonempty: "show_nat n \<noteq> []"
  by (subst show_nat.simps) simp

lemma armed_line: "text_lines (''armed '' @ show_nat n @ CHR 10 # t) = (''armed '' @ show_nat n) # text_lines t"
  using text_lines_cons [of "''armed '' @ show_nat n" t] hexdigit_not_special show_nat_hexdigits [of n]
    last_in_set [OF show_nat_nonempty [of n]] show_nat_nonempty [of n]
  by (auto simp: list_all_iff)

lemma trim_armed: "trim (''armed '' @ show_nat n) = ''armed '' @ show_nat n"
  using show_nat_hexdigits [of n] hexdigit_not_space last_in_set [OF show_nat_nonempty [of n]] show_nat_nonempty [of n]
  by (intro trim_id) (auto simp: list_all_iff is_space_def)

lemma hex_not_armed: "strip_prefix ''armed '' (hex p) = None"
proof -
  have "c \<noteq> CHR ''r''" if "c \<in> set (hex p)" for c
    using hex_hexdigits [of p] that by (auto simp: list_all_iff is_ascii_hexdigit_def to_digit_def)
  then have "take n (hex p) \<noteq> ''armed ''" for n by (metis in_set_takeD list.set_intros(1,2))
  then show ?thesis by (simp add: strip_prefix_def)
qed

definition insert_all :: "bytes list \<Rightarrow> bytes list \<Rightarrow> bytes list" where
  "insert_all ps acc = fold insort_insert ps acc"

lemma insert_all_sorted: "sorted ps \<and> distinct ps \<Longrightarrow> insert_all ps [] = ps"
proof (induction ps rule: rev_induct)
  case (snoc p ps)
  then have "insert_all ps [] = ps" "p \<notin> set ps" "\<forall>q \<in> set ps. q \<le> p" by (auto simp: sorted_append)
  moreover have "insort p ps = ps @ [p]" if "\<forall>q \<in> set ps. q \<le> p" "p \<notin> set ps" for ps
    using that by (induction ps) auto
  ultimately show ?case by (simp add: insert_all_def insort_insert_key_def)
qed (simp add: insert_all_def)

lemma revoker_lines_hex:
  "list_all (\<lambda>p. length p = 32) ps \<Longrightarrow>
     revoker_lines (filter (\<lambda>l. l \<noteq> []) (map trim (text_lines (concat (map (\<lambda>p. hex p @ [CHR 10]) ps))))) (acc, a) = Some (insert_all ps acc, a)"
proof (induction ps arbitrary: acc)
  case (Cons p ps)
  then show ?case
    by (simp add: hex_line trim_hexdigits hex_hexdigits hex_nonempty hex_not_armed unhex32_hex insert_all_def)
qed (simp add: text_lines_def insert_all_def)

definition revocations_typed :: "revocations \<Rightarrow> bool" where
  "revocations_typed r \<longleftrightarrow> sorted (rs_revokers r) \<and> distinct (rs_revokers r) \<and> list_all (\<lambda>p. length p = 32) (rs_revokers r)
     \<and> (\<forall>t. rs_armed_at r = Some t \<longrightarrow> t < 2 ^ 64)"

lemma revokers_text_back:
  assumes "revocations_typed r"
  shows "revoker_lines (filter (\<lambda>l. l \<noteq> []) (map trim (text_lines (revokers_text r)))) ([], None) = Some (rs_revokers r, rs_armed_at r)"
proof (cases "rs_armed_at r")
  case None
  with assms show ?thesis by (simp add: revokers_text_def revocations_typed_def revoker_lines_hex insert_all_sorted)
next
  case (Some t)
  with assms have "parse_nat (2 ^ 64 - 1) (show_nat t) = Some t" by (auto simp: revocations_typed_def intro: parse_show_nat)
  moreover have "strip_prefix ''armed '' (''armed '' @ show_nat t) = Some (show_nat t)" by (simp add: strip_prefix_def)
  moreover define tail where "tail = concat (map (\<lambda>p. hex p @ [CHR 10]) (rs_revokers r))"
  moreover have "revokers_text r = ''armed '' @ show_nat t @ CHR 10 # tail" using Some by (simp add: revokers_text_def tail_def)
  moreover have "revoker_lines (filter (\<lambda>l. l \<noteq> []) (map trim (text_lines tail))) ([], Some t) = Some (rs_revokers r, Some t)"
    using assms revoker_lines_hex [of "rs_revokers r" "[]" "Some t"] by (simp add: tail_def revocations_typed_def insert_all_sorted)
  ultimately show ?thesis
    using Some armed_line [of t tail] trim_armed [of t] by (simp del: append_Cons append.simps)
qed

lemma revokers_text_utf8: "from_utf8 (ascii (revokers_text r)) = Some (revokers_text r)"
  using hexdigit_char show_nat_hexdigits hex_hexdigits
  by (intro from_utf8_text) (auto simp: revokers_text_def list_all_iff split: option.splits)

section \<open>A restart remembers\<close>

lemma file_names: "REVOCATIONS_FILE \<noteq> REVOKERS_FILE" "REVOCATIONS_FILE \<noteq> REVOKERS_FILE @ ''.new''" "REVOKERS_FILE \<noteq> REVOCATIONS_FILE @ ''.new''"
  "REVOCATIONS_FILE \<noteq> PAIRED_FILE" "IDENTITY_FILE \<noteq> AGREEMENT_FILE"
  by (simp_all add: REVOCATIONS_FILE_def REVOKERS_FILE_def PAIRED_FILE_def IDENTITY_FILE_def AGREEMENT_FILE_def)

lemma write_revocation_list_done:
  "write_revocation_list cr fault dir lst fs = (fs', Inr u) \<Longrightarrow> replace_atomically fault dir REVOCATIONS_FILE (enc_rlist cr lst) fs = (fs', Inr u)"
  by (auto simp: write_revocation_list_def split: sum.splits)

lemma write_revokers_done:
  "write_revokers fault dir r fs = (fs', Inr u) \<Longrightarrow> replace_atomically fault dir REVOKERS_FILE (ascii (revokers_text r)) fs = (fs', Inr u)"
  by (auto simp: write_revokers_def split: sum.splits)

lemma held_list_reads:
  assumes "map_of fs REVOCATIONS_FILE = Some f" "private_file f" "dec_rlist cr (fl_bytes f) = Some lst" "dec_list cr (rl_body lst) = Some body"
  shows "held_list cr sound_disk dir root fs =
    (case verify_revocations cr root lst (rb_version body) None of Inl _ \<Rightarrow> Inl (bad_list dir ''no longer verifies'') | Inr h \<Rightarrow> Inr (Some h))"
  using state_read_private [OF assms(1,2), of dir] assms(3,4) by (simp add: held_list_def)

text \<open>
  A list accepted at one time verifies as of its version, against nothing held, when the version lies within its signer's certificate. A file that replaces another has the mode of the one written
  aside, which is that of a leftover of an earlier attempt where there is one.
\<close>

lemma check_link_timeless:
  "check_link cr root t parent cert b = Inr () \<Longrightarrow> cb_not_before_ms b \<le> t' \<Longrightarrow> t' \<le> cb_not_after_ms b \<Longrightarrow> check_link cr root t' parent cert b = Inr ()"
  by (simp add: check_link_def result_ok split: option.splits)

text \<open>Only the root makes a revoker, so the chain of one that verifies at one time verifies at every other time within its one certificate.\<close>

lemma revoker_timeless:
  assumes "verify_chain cr root chain t = Inr v" and "cb_may_revoke (v_leaf v)"
    and "cb_not_before_ms (v_leaf v) \<le> t'" "t' \<le> cb_not_after_ms (v_leaf v)"
  shows "verify_chain cr root chain t' = Inr v"
  using assms(1)
proof (cases rule: verify_chain_cases)
  case (direct cert)
  from check_link_timeless [OF direct(3) assms(3,4)] assms(1) direct show ?thesis by (auto simp: verify_chain_def result_ok split: if_splits)
next
  case (delegated cert dcert p)
  from check_link_ok(9) [OF delegated(4) refl] assms(2) show ?thesis by (simp add: check_delegated_def result_ok)
qed

lemma verifies_as_of_itself:
  assumes "verify_revocations cr root lst now held = Inr h" and "dec_list cr (rl_body lst) = Some body"
    and "decode_body cr (cert_body (hd (rl_chain lst))) = Inr b" "cb_not_before_ms b \<le> rb_version body" "rb_version body \<le> cb_not_after_ms b"
  shows "verify_revocations cr root lst (rb_version body) None = Inr h"
proof -
  from assms(1,2) obtain v' where A: "length (rl_body lst) \<le> MAX_REVOCATION_BYTES" "length (rb_principals body) + length (rb_certificates body) \<le> MAX_REVOKED"
    "collect_ok entry32 (rb_principals body) = Inr (rb_principals body)" "collect_ok entry32 (rb_certificates body) = Inr (rb_certificates body)"
    "rb_account body = account_id cr root" "rb_version body \<le> 2 ^ 64 - 1" and v': "verify_chain cr root (rl_chain lst) now = Inr v'"
    and B: "cb_may_revoke (v_leaf v')" "verify cr (v_leaf_key v') REVOCATION_LABEL (rl_body lst) (rl_signature lst)"
    and h: "h = \<lparr>rv_version = rb_version body, rv_signer = v_principal v', rv_principals = set (rb_principals body), rv_certificates = set (rb_certificates body)\<rparr>"
    unfolding verify_revocations_def result_ok by (auto simp: entry32_all)
  have "v_leaf v' = b" using v' assms(3) by (auto elim!: verify_chain_cases)
  then have v: "verify_chain cr root (rl_chain lst) (rb_version body) = Inr v'" using revoker_timeless [OF v' B(1)] assms(4,5) by simp
  have "rb_version body \<le> min (rb_version body + MAX_FUTURE_MS) (2 ^ 64 - 1)" using A(6) by simp
  with A B v assms(2) show ?thesis unfolding verify_revocations_def h by (simp add: ensure_def chain_err_def del: min.bounded_iff)
qed

definition private_leftover :: "string \<Rightarrow> files \<Rightarrow> bool" where
  "private_leftover name fs \<longleftrightarrow> (case map_of fs (name @ ''.new'') of None \<Rightarrow> True | Some f \<Rightarrow> private_file f)"

lemma leftover_opened: "private_leftover name fs \<Longrightarrow> private_file ((opened_file (name @ ''.new'') fs)\<lparr>fl_bytes := bs, fl_synced := b\<rparr>)"
  by (auto simp: private_leftover_def opened_file_def private_file_def split: option.splits)

text \<open>C28. What a connector wrote down about revocations it knows again after a restart. When it accepted a list and wrote the list and then what it follows,
  and both writes succeeded, reading the directory gives exactly the state it had: the list held, the revokers followed and when the floor armed. Two conditions are
  the code's own: the list's version, the time as of which it is read back, has to lie within its signer's certificate, which accepting it at another time does not look at; and no leftover
  of an interrupted write of either file is readable by others. The revokers are distinct names of 32 bytes in order and the arming time a 64-bit number, as their types have it; that the codec of
  a list round-trips is asked of the library.\<close>

theorem a_restart_remembers:
  assumes "revocations_apply cr lst now r0 = (r, Inr ap)"
    and "write_revocation_list cr fault dir lst fs = (fs1, Inr u)" "write_revokers fault dir r fs1 = (fs2, Inr v)"
    and "private_leftover REVOCATIONS_FILE fs" "private_leftover REVOKERS_FILE fs" "revocations_typed r"
    and "dec_rlist cr (enc_rlist cr lst) = Some lst" "dec_list cr (rl_body lst) = Some body"
    and "decode_body cr (cert_body (hd (rl_chain lst))) = Inr b" "cb_not_before_ms b \<le> rb_version body" "rb_version body \<le> cb_not_after_ms b"
  shows "state_revocations cr sound_disk dir (rs_root r0) fs2 = Inr r"
proof -
  from assms(1) obtain h where acc: "verify_revocations cr (rs_root r0) lst now (rs_held r0) = Inr h" and r: "rs_held r = Some h" "rs_root r = rs_root r0"
    by (auto simp: revocations_apply_def Let_def split: sum.splits)
  note again = verifies_as_of_itself [OF acc assms(8-11)]
  note w1 = write_revocation_list_done [OF assms(2)] and w2 = write_revokers_done [OF assms(3)]
  note m1 = replace_atomically_done [OF w1] and m2 = replace_atomically_done [OF w2]
  obtain f where f: "map_of fs2 REVOCATIONS_FILE = Some f" "fl_bytes f = enc_rlist cr lst" "private_file f"
    using m1 m2 file_names leftover_opened [OF assms(4)] by simp
  have "private_leftover REVOKERS_FILE fs1"
    using assms(5) m1 by (simp add: private_leftover_def REVOKERS_FILE_def REVOCATIONS_FILE_def)
  then obtain g where g: "map_of fs2 REVOKERS_FILE = Some g" "fl_bytes g = ascii (revokers_text r)" "private_file g"
    using m2 leftover_opened by simp
  have "held_list cr sound_disk dir (rs_root r0) fs2 = Inr (Some h)"
    using held_list_reads [OF f(1,3), of cr lst body dir "rs_root r0"] f(2) assms(7,8) again by simp
  moreover have "read_revokers sound_disk dir fs2 = Inr (rs_revokers r, rs_armed_at r)"
    using state_read_private [OF g(1,3), of dir] g(2) revokers_text_utf8 revokers_text_back [OF assms(6)]
    by (simp add: read_revokers_def)
  ultimately show ?thesis using r by (simp add: state_revocations_def revocations_new_def)
qed

text \<open>Pairing again with another account leaves the list of the account before in place, and the connector then refuses to start:
  whatever was written for the pairing, the old list is for another account, and reading it for the new root is an error.\<close>

theorem pairing_elsewhere_keeps_the_old_list:
  assumes "write_paired ps fault dir p fs = (fs', u)"
    and "map_of fs REVOCATIONS_FILE = Some f" "private_file f" "dec_rlist cr (fl_bytes f) = Some lst" "dec_list cr (rl_body lst) = Some body"
    and "rb_account body \<noteq> account_id cr root"
  shows "state_revocations cr sound_disk dir root fs' = Inl (bad_list dir ''no longer verifies'')"
proof -
  have "map_of fs' REVOCATIONS_FILE = Some f"
    using assms(1,2) file_names(4) by (auto simp: write_paired_def split: sum.splits dest: write_secret_files)
  then have "held_list cr sound_disk dir root fs' =
      (case verify_revocations cr root lst (rb_version body) None of Inl _ \<Rightarrow> Inl (bad_list dir ''no longer verifies'') | Inr h \<Rightarrow> Inr (Some h))"
    using assms(3-5) by (rule held_list_reads)
  moreover have "isl (verify_revocations cr root lst (rb_version body) None)"
    using assms(5,6) by (cases "verify_revocations cr root lst (rb_version body) None") (auto elim: verify_revocations_ok)
  ultimately show ?thesis by (auto simp: state_revocations_def isl_def)
qed

text \<open>A list is accepted at the connector's clock and read back at its own version. One whose version is a moment before its signer's
  certificate begins, as a slow clock makes it, is accepted, and the connector that wrote it down cannot start again.\<close>

theorem a_list_older_than_its_signer_does_not_reload:
  assumes "write_revocation_list cr fault dir lst fs = (fs', Inr u)" "all_private fs"
    and "dec_rlist cr (enc_rlist cr lst) = Some lst" "dec_list cr (rl_body lst) = Some body"
    and "isl (verify_chain cr root (rl_chain lst) (rb_version body))"
  shows "state_revocations cr sound_disk dir root fs' = Inl (bad_list dir ''no longer verifies'')"
proof -
  note w = write_revocation_list_done [OF assms(1)]
  obtain f where f: "map_of fs' REVOCATIONS_FILE = Some f" "fl_bytes f = enc_rlist cr lst" using replace_atomically_done [OF w] by simp
  have "private_file f" using replace_atomically_private [OF w assms(2)] f by (auto simp: all_private_def)
  moreover have "isl (verify_revocations cr root lst (rb_version body) None)"
    using assms(4,5) by (cases "verify_revocations cr root lst (rb_version body) None") (auto elim: verify_revocations_ok)
  ultimately show ?thesis
    using held_list_reads [OF f(1), of cr lst body dir root] f(2) assms(3,4) by (auto simp: state_revocations_def isl_def)
qed

section \<open>A crash leaves the old file or the new\<close>

text \<open>
  What a power failure may leave. A change of the directory, a file created or renamed, is on the disk or is not; the contents of a file that
  were not forced to the disk may be anything. \<open>survives fs0 fs name x\<close>: where the files were \<open>fs0\<close>, all on the disk, and are \<open>fs\<close> now, a failure now may leave \<open>x\<close>
  under the name. The places at which a failure may come are those at which an operation may fail: before a file is opened, after any part of its contents,
  before they are forced to the disk, before the rename, and after everything.
\<close>

definition after_failure :: "disk_file \<Rightarrow> disk_file \<Rightarrow> bool" where
  "after_failure f g \<longleftrightarrow> fl_mode g = fl_mode f \<and> (fl_synced f \<longrightarrow> fl_bytes g = fl_bytes f)"

definition survives :: "files \<Rightarrow> files \<Rightarrow> string \<Rightarrow> disk_file option \<Rightarrow> bool" where
  "survives fs0 fs name x \<longleftrightarrow> (\<exists>entry \<in> {map_of fs0 name, map_of fs name}. rel_option after_failure entry x)"

lemma replace_atomically_states:
  assumes "replace_atomically fault dir name bs fs = (fs', r)"
  shows "map_of fs' name = map_of fs name
    \<or> r = Inr () \<and> map_of fs' name = Some ((opened_file (name @ ''.new'') fs)\<lparr>fl_bytes := bs, fl_synced := True\<rparr>)"
proof (cases r)
  case (Inr u)
  with replace_atomically_done [of fault dir name bs fs fs' u] assms show ?thesis by simp
next
  case (Inl e)
  with assms have "\<exists>q. write_secret fault dir (name @ ''.new'') bs True fs = (fs', q)"
    by (auto simp: replace_atomically_def Let_def split: prod.splits sum.splits option.splits)
  then show ?thesis using write_secret_files [of fault dir "name @ ''.new''" bs True fs fs' _ name] by auto
qed

text \<open>C29. Replacing a file survives a crash. Wherever the file system stops \<open>replace_atomically\<close>, with an error or with the power, and whatever then becomes of contents that
  were not forced to the disk and of directory changes, what is found under the name afterwards is the old contents, or that there is no file if there was none, or all of the
  new contents; and once it has returned without an error, the name reads as the new contents. The old file is taken to be on the disk when it starts.\<close>

theorem a_crash_leaves_the_old_or_the_new:
  assumes "replace_atomically fault dir name bs fs = (fs', r)" and "survives fs fs' name x"
    and "map_of fs name = None \<or> (\<exists>f. map_of fs name = Some f \<and> fl_synced f)"
  shows "map_option fl_bytes x \<in> {map_option fl_bytes (map_of fs name), Some bs}
    \<and> (r = Inr () \<longrightarrow> map_option fl_bytes (map_of fs' name) = Some bs)"
proof
  have old: "map_option fl_bytes x = map_option fl_bytes (map_of fs name)" if "rel_option after_failure (map_of fs name) x"
    using that assms(3) by (auto simp: after_failure_def option_rel_Some1)
  show "map_option fl_bytes x \<in> {map_option fl_bytes (map_of fs name), Some bs}"
    using assms(2) old replace_atomically_states [OF assms(1)]
    by (auto simp: survives_def after_failure_def option_rel_Some1)
  show "r = Inr () \<longrightarrow> map_option fl_bytes (map_of fs' name) = Some bs"
    using replace_atomically_done [of fault dir name bs fs fs' "()"] assms(1) by auto
qed

section \<open>Keys are made once\<close>

lemma trim_line:
  assumes "list_all is_ascii_hexdigit h" "h \<noteq> []"
  shows "trim (h @ [CHR 10]) = h"
proof -
  obtain c cs where h: "h = c # cs" using assms(2) by (cases h) auto
  then have c: "\<not> is_space c" using assms(1) hexdigit_not_space by simp
  moreover have "is_space CHR 10" by (simp add: is_space_def)
  ultimately show ?thesis using trim_hexdigits [OF assms(1)] by (simp add: trim_def h)
qed

lemma seed_line_utf8: "from_utf8 (seed_line i) = Some (hex i @ [CHR 10])"
  unfolding seed_line_def using hexdigit_char hex_hexdigits [of i] by (intro from_utf8_text) (auto simp: list_all_iff)

lemma state_seed_reads:
  assumes "map_of fs name = Some f" "private_file f" "fl_bytes f = seed_line i" "length i = 32"
  shows "state_seed sound_disk dir name fs = Inr (Some i)"
  using state_read_private [OF assms(1,2), of dir] assms(3,4) hex_hexdigits hex_nonempty
  by (simp add: state_seed_def seed_line_utf8 trim_line unhex32_hex)

lemma state_seed_none: "map_of fs name = None \<Longrightarrow> state_seed sound_disk dir name fs = Inr None"
  by (simp add: state_seed_def state_read_none)

lemma generate_keys_again:
  assumes "map_of fs IDENTITY_FILE \<noteq> None"
  shows "generate_keys sound_disk dir (Inr i) (Inr a) fs = (fs, Inl (already (in_dir dir IDENTITY_FILE)))"
  using assms by (simp add: generate_keys_def make_dir_def write_secret_def Let_def)

lemma generated_keys_read:
  assumes "generate_keys fault dir (Inr i) (Inr a) fs = (fs', Inr k)" "length i = 32" "length a = 32" "all_private fs"
  shows "k = \<lparr>bk_identity = i, bk_agreement = a\<rparr>" "state_keys sound_disk dir fs' = Inr (Some k)" "all_private fs'"
    "map_of fs' IDENTITY_FILE \<noteq> None"
proof -
  from assms(1) obtain fs1 u v where w: "write_secret fault dir IDENTITY_FILE (seed_line i) False fs = (fs1, Inr u)"
    "write_secret fault dir AGREEMENT_FILE (seed_line a) False fs1 = (fs', Inr v)" and k: "k = \<lparr>bk_identity = i, bk_agreement = a\<rparr>"
    by (auto simp: generate_keys_def result_ok split: sum.splits prod.splits)
  have p: "all_private fs1" "all_private fs'" using write_secret_private w assms(4) by blast+
  obtain f where f: "map_of fs' IDENTITY_FILE = Some f" "fl_bytes f = seed_line i"
    using write_secret_done(1) [OF w(1)] write_secret_files [OF w(2) file_names(5)] by (simp add: update_conv')
  obtain g where g: "map_of fs' AGREEMENT_FILE = Some g" "fl_bytes g = seed_line a"
    using write_secret_done(1) [OF w(2)] by (simp add: update_conv')
  show "state_keys sound_disk dir fs' = Inr (Some k)"
    using state_seed_reads [OF f(1) _ f(2) assms(2), of dir] state_seed_reads [OF g(1) _ g(2) assms(3), of dir] p(2) f g
    by (auto simp: state_keys_def k all_private_def)
  show "k = \<lparr>bk_identity = i, bk_agreement = a\<rparr>" "all_private fs'" "map_of fs' IDENTITY_FILE \<noteq> None" using k p(2) f(1) by simp_all
qed

text \<open>The keys a connector generates are the keys it has after a restart, and generating again refuses and changes nothing: a
  connector does not silently become another principal.\<close>

theorem keys_are_made_once:
  assumes "generate_keys fault dir (Inr i) (Inr a) fs = (fs', Inr k)" "length i = 32" "length a = 32" "all_private fs"
  shows "k = \<lparr>bk_identity = i, bk_agreement = a\<rparr> \<and> state_keys sound_disk dir fs' = Inr (Some k)
    \<and> generate_keys sound_disk dir (Inr i') (Inr a') fs' = (fs', Inl (already (in_dir dir IDENTITY_FILE)))"
  using generated_keys_read [OF assms] generate_keys_again [of fs' dir] by simp

text \<open>Two key files are written one after the other. When the second is not written, the connector has no keys, and can never make
  any: reading says that it was never paired, and generating refuses because a key is there.\<close>

theorem half_made_keys_are_stuck:
  assumes "map_of fs IDENTITY_FILE = None" "map_of fs AGREEMENT_FILE = None" "length i = 32"
    and "fault FMkdir dir = None" "\<And>op. fault op (in_dir dir IDENTITY_FILE) = None" "fault FOpen (in_dir dir AGREEMENT_FILE) = Some (n, e)"
    and "ie_kind e \<noteq> IoAlreadyExists"
  shows "\<exists>fs'. generate_keys fault dir (Inr i) (Inr a) fs = (fs', Inl e) \<and> state_keys sound_disk dir fs' = Inr None
    \<and> generate_keys sound_disk dir (Inr i') (Inr a') fs' = (fs', Inl (already (in_dir dir IDENTITY_FILE)))"
proof -
  define fs' where "fs' = AList.update IDENTITY_FILE \<lparr>fl_mode = 384, fl_bytes = seed_line i, fl_synced = True\<rparr> fs"
  have f: "map_of fs' IDENTITY_FILE = Some \<lparr>fl_mode = 384, fl_bytes = seed_line i, fl_synced = True\<rparr>" "map_of fs' AGREEMENT_FILE = None"
    using assms(2) file_names(5) by (auto simp: fs'_def update_conv')
  have "write_secret fault dir IDENTITY_FILE (seed_line i) False fs = (fs', Inr ())"
    using assms(1,5) by (simp add: write_secret_def Let_def fs'_def opened_file_def)
  moreover have "write_secret fault dir AGREEMENT_FILE (seed_line a) False fs' = (fs', Inl e)"
    using assms(6,7) by (simp add: write_secret_def Let_def)
  ultimately have "generate_keys fault dir (Inr i) (Inr a) fs = (fs', Inl e)" using assms(4) by (simp add: generate_keys_def make_dir_def)
  moreover have "state_keys sound_disk dir fs' = Inr None"
    using state_seed_reads [OF f(1) _ _ assms(3), of dir] state_seed_none [OF f(2), of dir] by (simp add: state_keys_def private_file_def)
  ultimately show ?thesis using generate_keys_again [of fs' dir] f(1) by auto
qed

section \<open>An example\<close>

definition bureau :: state_suite where
  "bureau = \<lparr>sha256 = sha256 office, public_of = public_of office, ed_sign = ed_sign office, ed_verify = ed_verify office,
     enc_body = enc_body office, dec_body = dec_body office, enc_list = enc_list office, dec_list = dec_list office,
     enc_rlist = rl_body, dec_rlist = (\<lambda>bs. if length bs = 1 then Some (signed_list (unat (hd bs))) else None)\<rparr>"

lemma bureau_like: "office_like bureau"
  by (simp add: office_like_def bureau_def)

lemma bureau_codec: "n < 100 \<Longrightarrow> dec_rlist bureau (enc_rlist bureau (signed_list n)) = Some (signed_list n)"
  "n < 100 \<Longrightarrow> dec_list bureau (rl_body (signed_list n)) = Some (office_list n)"
  "enc_rlist bureau (signed_list n) = [of_nat n]" "rl_chain (signed_list n) = [signer_cert]"
proof -
  have b: "rl_body (signed_list n) = [of_nat n]" by (simp add: signed_list_def sign_revocations_def Let_def, simp add: office_def)
  have n: "unat (of_nat n :: u8) = n" if "n < 100" using that by (simp add: unsigned_of_nat take_bit_nat_eq_self)
  show "n < 100 \<Longrightarrow> dec_rlist bureau (enc_rlist bureau (signed_list n)) = Some (signed_list n)"
    "n < 100 \<Longrightarrow> dec_list bureau (rl_body (signed_list n)) = Some (office_list n)"
    "enc_rlist bureau (signed_list n) = [of_nat n]" "rl_chain (signed_list n) = [signer_cert]"
    using b n office_simps(8) [OF bureau_like, of "[of_nat n]"]
    by (simp_all add: bureau_def signed_list_def sign_revocations_def Let_def)
qed

lemma office_not_yet:
  assumes "office_like cr" "t < 10"
  shows "isl (verify_chain cr (pad_key [1]) [signer_cert] t)"
proof (cases "verify_chain cr (pad_key [1]) [signer_cert] t")
  case (Inr v)
  have "decode_body cr (cert_body signer_cert) = Inr signer_body"
    using verify_chain_cases [OF office_chain [OF assms(1), of 20]] by auto
  with Inr have "cb_not_before_ms signer_body \<le> t" by (auto elim!: verify_chain_cases dest: check_link_ok(5))
  with assms(2) show ?thesis by (simp add: signer_body_def spec_body_def signer_spec_def)
qed simp

definition kept :: "nat \<Rightarrow> files" where
  "kept n = fst (write_revocation_list bureau sound_disk ''box'' (signed_list n) [])"

lemma kept_written: "write_revocation_list bureau sound_disk ''box'' (signed_list n) [] = (kept n, Inr ())"
  by (simp add: kept_def write_revocation_list_def make_dir_def replace_atomically_def write_secret_def Let_def)

lemma kept_files: "kept n = [(REVOCATIONS_FILE, \<lparr>fl_mode = 384, fl_bytes = [of_nat n], fl_synced = True\<rparr>)]"
  by (simp add: kept_def write_revocation_list_def make_dir_def replace_atomically_def write_secret_def Let_def opened_file_def bureau_codec(3))

definition bureau_knows :: revocations where
  "bureau_knows = \<lparr>rs_root = pad_key [1], rs_held = Some (office_revoked 20), rs_revokers = [pad_key [2]], rs_armed_at = Some 20\<rparr>"

definition bureau_before :: revocations where
  "bureau_before = \<lparr>rs_root = pad_key [1], rs_held = None, rs_revokers = [pad_key [2]], rs_armed_at = Some 20\<rparr>"

lemma bureau_applies: "\<exists>ap. revocations_apply bureau (signed_list 20) 20 bureau_before = (bureau_knows, Inr ap)"
  using office_accepts [OF bureau_like, of 20 20 None]
  by (simp add: revocations_apply_def bureau_before_def bureau_knows_def office_revoked_def get_or_insert_def insort_insert_key_def)

theorem a_restart_remembers_witness:
  "state_revocations bureau sound_disk ''box'' (pad_key [1]) (fst (write_revokers sound_disk ''box'' bureau_knows (kept 20))) = Inr bureau_knows"
proof -
  obtain fs2 where w: "write_revokers sound_disk ''box'' bureau_knows (kept 20) = (fs2, Inr ())"
    by (auto simp: write_revokers_def make_dir_def replace_atomically_def write_secret_def Let_def)
  obtain ap where ap: "revocations_apply bureau (signed_list 20) 20 bureau_before = (bureau_knows, Inr ap)" using bureau_applies by blast
  have v: "decode_body bureau (cert_body signer_cert) = Inr signer_body"
    using verify_chain_cases [OF office_chain [OF bureau_like, of 20]] by auto
  have "state_revocations bureau sound_disk ''box'' (rs_root bureau_before) fs2 = Inr bureau_knows"
    by (rule a_restart_remembers [OF ap kept_written w _ _ _ bureau_codec(1,2), of signer_body])
      (use v in \<open>simp_all add: bureau_codec(4) signer_body_def spec_body_def signer_spec_def bureau_before_def office_list_def private_leftover_def revocations_typed_def bureau_knows_def\<close>)
  with w show ?thesis by (simp add: bureau_before_def)
qed

text \<open>A list replaced, and the power failing when the new contents are written and not yet forced to the disk.\<close>

definition unsynced :: faults where
  "unsynced op path = (if op = FSync then Some (0, \<lparr>ie_kind = IoOther, ie_message = ''power''\<rparr>) else None)"

theorem a_crash_leaves_the_old_or_the_new_witness:
  "map_option fl_bytes (map_of (fst (replace_atomically unsynced ''box'' REVOCATIONS_FILE [21] (kept 20))) REVOCATIONS_FILE) \<in> {Some [20], Some [21]}"
proof -
  obtain fs' r where w: "replace_atomically unsynced ''box'' REVOCATIONS_FILE [21] (kept 20) = (fs', r)" by fastforce
  have "survives (kept 20) fs' REVOCATIONS_FILE (map_of fs' REVOCATIONS_FILE)"
    by (auto simp: survives_def after_failure_def intro: option.rel_refl)
  from a_crash_leaves_the_old_or_the_new [OF w this] w show ?thesis by (simp add: kept_files)
qed

theorem pairing_elsewhere_keeps_the_old_list_witness:
  "state_revocations bureau sound_disk ''box'' (pad_key [5])
     (fst (write_paired mail sound_disk ''box'' \<lparr>pw_chain = [], pw_account_root = pad_key [5], pw_channel_key = []\<rparr> (kept 20)))
   = Inl (bad_list ''box'' ''no longer verifies'')"
proof -
  obtain fs u where w: "write_paired mail sound_disk ''box'' \<lparr>pw_chain = [], pw_account_root = pad_key [5], pw_channel_key = []\<rparr> (kept 20) = (fs, u)"
    by fastforce
  have "pad_key [1] \<noteq> pad_key [5]" by (simp add: pad_key_def)
  then have "state_revocations bureau sound_disk ''box'' (pad_key [5]) fs = Inl (bad_list ''box'' ''no longer verifies'')"
    using bureau_codec(1-3) [of 20] office_simps(1) [OF bureau_like]
    by (intro pairing_elsewhere_keeps_the_old_list [OF w, of "\<lparr>fl_mode = 384, fl_bytes = [20], fl_synced = True\<rparr>" bureau "signed_list 20" "office_list 20"])
      (simp_all add: kept_files private_file_def office_list_def account_id_def)
  with w show ?thesis by simp
qed

theorem a_list_older_than_its_signer_does_not_reload_witness:
  "verify_revocations bureau (pad_key [1]) (signed_list 5) 20 None = Inr (office_revoked 5)
   \<and> state_revocations bureau sound_disk ''box'' (pad_key [1]) (kept 5) = Inl (bad_list ''box'' ''no longer verifies'')"
proof
  show "verify_revocations bureau (pad_key [1]) (signed_list 5) 20 None = Inr (office_revoked 5)"
    by (rule office_accepts [OF bureau_like]) simp_all
  have "isl (verify_chain bureau (pad_key [1]) (rl_chain (signed_list 5)) (rb_version (office_list 5)))"
    using office_not_yet [OF bureau_like] by (simp add: bureau_codec(4) office_list_def)
  then show "state_revocations bureau sound_disk ''box'' (pad_key [1]) (kept 5) = Inl (bad_list ''box'' ''no longer verifies'')"
    by (intro a_list_older_than_its_signer_does_not_reload [OF kept_written _ bureau_codec(1,2)]) (simp_all add: all_private_def)
qed

theorem keys_are_made_once_witness:
  "generate_keys sound_disk ''box'' (Inr (pad_key [3])) (Inr (pad_key [4]))
     (fst (generate_keys sound_disk ''box'' (Inr (pad_key [1])) (Inr (pad_key [2])) []))
   = (fst (generate_keys sound_disk ''box'' (Inr (pad_key [1])) (Inr (pad_key [2])) []), Inl (already (in_dir ''box'' IDENTITY_FILE)))"
proof -
  obtain fs k where g: "generate_keys sound_disk ''box'' (Inr (pad_key [1])) (Inr (pad_key [2])) [] = (fs, Inr k)"
    using file_names(5) by (auto simp: generate_keys_def make_dir_def write_secret_def Let_def)
  from keys_are_made_once [OF g, of "pad_key [3]" "pad_key [4]"] g show ?thesis by (simp add: all_private_def)
qed

theorem half_made_keys_are_stuck_witness:
  "\<exists>fs'. generate_keys (\<lambda>op path. if op = FOpen \<and> path = in_dir ''box'' AGREEMENT_FILE then Some (0, \<lparr>ie_kind = IoOther, ie_message = ''disk full''\<rparr>) else None)
       ''box'' (Inr (pad_key [1])) (Inr (pad_key [2])) [] = (fs', Inl \<lparr>ie_kind = IoOther, ie_message = ''disk full''\<rparr>)
     \<and> state_keys sound_disk ''box'' fs' = Inr None
     \<and> generate_keys sound_disk ''box'' (Inr (pad_key [3])) (Inr (pad_key [4])) fs' = (fs', Inl (already (in_dir ''box'' IDENTITY_FILE)))"
  by (rule half_made_keys_are_stuck [where n = 0]) (simp_all add: in_dir_def file_names(5))

end
