(* ===== verification/Client.thy ===== *)
theory Client
  imports Streams
begin

text \<open>
  The hub's client library, \<open>crates/client/src/lib.rs\<close>: the authenticated handshake, what a client sends, and the loop that turns what
  the hub says into events. The websocket is a third-party crate: a socket is the list of what it will yield, the list
  of what was sent on it, and the function that says which sends fail. \<open>pe\<close> and \<open>pd\<close> are the protobuf codec,
  \<open>rnd\<close> and \<open>eph\<close> what the random source gave.
\<close>

section \<open>The socket\<close>

datatype ws_message = WsBinary bytes | WsPing | WsPong | WsClose | WsOther

record socket =
  ws_in :: "(string + ws_message) list"
  ws_out :: "bytes list"
  ws_fault :: "bytes \<Rightarrow> string option"

datatype client_error =
    Transport string | Protocol string | WrongHub string string | ClientRefused error_frame | SealFailed seal_error | NotGranted string

definition client_send :: "(frame \<Rightarrow> bytes) \<Rightarrow> frame list \<Rightarrow> nat \<Rightarrow> socket \<Rightarrow> socket \<times> (client_error + unit)" where
  "client_send pe frames max_frame s =
     (case encode_frames pe frames max_frame of
        Inl _ \<Rightarrow> (s, Inl (Protocol ''frame too large to send''))
      | Inr bs \<Rightarrow>
          (case ws_fault s bs of
             Some e \<Rightarrow> (s, Inl (Transport e))
           | None \<Rightarrow> (s\<lparr>ws_out := ws_out s @ [bs]\<rparr>, Inr ())))"

text \<open>The loop that \<open>first_frame\<close> and \<open>read_message\<close> share: the next binary message, past the websocket's own pings.\<close>

fun next_binary :: "(string + ws_message) list \<Rightarrow> (string + ws_message) list \<times> (client_error + bytes)" where
  "next_binary [] = ([], Inl (Transport ''the hub closed the connection''))"
| "next_binary (Inl e # ms) = (ms, Inl (Transport e))"
| "next_binary (Inr (WsBinary bs) # ms) = (ms, Inr bs)"
| "next_binary (Inr WsPing # ms) = next_binary ms"
| "next_binary (Inr WsPong # ms) = next_binary ms"
| "next_binary (Inr WsClose # ms) = (ms, Inl (Transport ''the hub closed the connection''))"
| "next_binary (Inr WsOther # ms) = (ms, Inl (Protocol ''the hub sent a non-binary message''))"

definition first_frame :: "(bytes \<Rightarrow> 'p + frame) \<Rightarrow> nat \<Rightarrow> socket \<Rightarrow> socket \<times> (client_error + body)" where
  "first_frame pd mx s =
     (case next_binary (ws_in s) of
        (ms, Inl e) \<Rightarrow> (s\<lparr>ws_in := ms\<rparr>, Inl e)
      | (ms, Inr bs) \<Rightarrow>
          (s\<lparr>ws_in := ms\<rparr>,
           case decode_frames_shared pd bs mx of
             Inl _ \<Rightarrow> Inl (Protocol ''the hub sent a malformed frame'')
           | Inr [] \<Rightarrow> Inl (Protocol ''the hub sent an empty frame'')
           | Inr (f # _) \<Rightarrow> or_err (frame_body f) (Protocol ''the hub sent an empty frame'')))"

section \<open>Offering a pairing\<close>

abbreviation CLIENT_MAX :: nat where "CLIENT_MAX \<equiv> 4 * 2 ^ 20"

definition pairing_offer ::
    "(frame \<Rightarrow> bytes) \<Rightarrow> (bytes \<Rightarrow> 'p + frame) \<Rightarrow> bytes \<Rightarrow> bytes \<Rightarrow> socket \<Rightarrow> socket \<times> (client_error + unit)" where
  "pairing_offer pe pd code_hash offer s =
     (case first_frame pd CLIENT_MAX s of
        (s1, Inl e) \<Rightarrow> (s1, Inl e)
      | (s1, Inr (BError e)) \<Rightarrow> (s1, Inl (ClientRefused e))
      | (s1, Inr (BChallenge _)) \<Rightarrow>
          (case client_send pe [Frame (Some (BPairOffer \<lparr>po_code_hash = code_hash, po_offer = offer\<rparr>))] CLIENT_MAX s1 of
             (s2, Inl e) \<Rightarrow> (s2, Inl e)
           | (s2, Inr _) \<Rightarrow>
               (case first_frame pd CLIENT_MAX s2 of
                  (s3, Inl e) \<Rightarrow> (s3, Inl e)
                | (s3, Inr (BPaired _)) \<Rightarrow> (s3, Inr ())
                | (s3, Inr (BError e)) \<Rightarrow> (s3, Inl (ClientRefused e))
                | (s3, Inr _) \<Rightarrow> (s3, Inl (Protocol ''the hub must answer an offer''))))
      | (s1, Inr _) \<Rightarrow> (s1, Inl (Protocol ''the hub's first frame must be a challenge'')))"

lemma next_binary_shorter: "next_binary ms = (ms', Inr bs) \<Longrightarrow> length ms' < length ms"
  by (induction ms rule: next_binary.induct) auto

lemma first_frame_shorter: "first_frame pd mx s = (s', Inr b) \<Longrightarrow> length (ws_in s') < length (ws_in s)"
  by (auto simp: first_frame_def split: prod.splits sum.splits dest: next_binary_shorter)

function pairing_answer_wait :: "(bytes \<Rightarrow> 'p + frame) \<Rightarrow> socket \<Rightarrow> socket \<times> (client_error + bytes)" where
  "pairing_answer_wait pd s =
     (case first_frame pd CLIENT_MAX s of
        (s1, Inl e) \<Rightarrow> (s1, Inl e)
      | (s1, Inr (BPaired p)) \<Rightarrow> if pd_answer p \<noteq> [] then (s1, Inr (pd_answer p)) else pairing_answer_wait pd s1
      | (s1, Inr (BError e)) \<Rightarrow> (s1, Inl (ClientRefused e))
      | (s1, Inr _) \<Rightarrow> (s1, Inl (Protocol ''the hub sent something else while pairing'')))"
  by pat_completeness auto
termination
  by (relation "measure (\<lambda>(pd, s). length (ws_in s))") (auto dest: first_frame_shorter [OF sym])

declare pairing_answer_wait.simps [simp del]

section \<open>Logging in\<close>

record client_config =
  cf_hub_name :: string
  cf_identity :: identity
  cf_agreement :: bytes
  cf_chain :: "certificate list"
  cf_account_root :: public_key
  cf_role :: role
  cf_invite :: bytes

record client =
  cl_ws :: socket
  cl_identity :: identity
  cl_chain :: "certificate list"
  cl_principal :: bytes
  cl_account :: bytes
  cl_limits :: wire_limits
  cl_receiver :: receiver
  cl_pending :: "frame list"
  cl_max_frame :: nat
  cl_grants :: "string list"

definition CLIENT_PROTOCOL :: nat where "CLIENT_PROTOCOL = 1"

definition wire_limits_default :: wire_limits where
  "wire_limits_default = \<lparr>wl_max_frame_bytes = 0, wl_max_payload_bytes = 0, wl_ring_session_events = 0, wl_ring_telemetry = 0,
     wl_account_bytes_per_second = 0, wl_account_burst_bytes = 0\<rparr>"

definition hello_of :: "'x stream_suite_scheme \<Rightarrow> client_config \<Rightarrow> bytes \<Rightarrow> hello" where
  "hello_of cr cfg nonce =
     (let me = principal_id cr (identity_public cr (cf_identity cfg)); account = account_id cr (cf_account_root cfg) in
      \<lparr>h_protocol = CLIENT_PROTOCOL, h_principal = me, h_role = i32_of_role (cf_role cfg), h_account_credential = [],
       h_account_root = cf_account_root cfg, h_chain = cf_chain cfg,
       h_signature = sign_hello cr (cf_identity cfg) (hello_transcript (cf_hub_name cfg) nonce me (cf_role cfg) account),
       h_invite = cf_invite cfg\<rparr>)"

definition own_grants :: "'x stream_suite_scheme \<Rightarrow> certificate list \<Rightarrow> string list" where
  "own_grants cr chain =
     (case chain of
        [] \<Rightarrow> []
      | leaf # _ \<Rightarrow> (case dec_body cr (cert_body leaf) of None \<Rightarrow> [] | Some body \<Rightarrow> cb_scopes body))"

definition client_of :: "'x stream_suite_scheme \<Rightarrow> client_config \<Rightarrow> welcome_frame \<Rightarrow> socket \<Rightarrow> client" where
  "client_of cr cfg w s =
     (let lims = (case w_limits w of None \<Rightarrow> wire_limits_default | Some l \<Rightarrow> l) in
      \<lparr>cl_ws = s, cl_identity = cf_identity cfg, cl_chain = cf_chain cfg,
       cl_principal = principal_id cr (identity_public cr (cf_identity cfg)),
       cl_account = account_id cr (cf_account_root cfg), cl_limits = lims,
       cl_receiver = receiver_new cr (identity_public cr (cf_identity cfg)) (cf_agreement cfg) (cf_account_root cfg),
       cl_pending = [], cl_max_frame = max (wl_max_frame_bytes lims) (2 ^ 16), cl_grants = own_grants cr (cf_chain cfg)\<rparr>)"

definition client_connect ::
    "'x stream_suite_scheme \<Rightarrow> (frame \<Rightarrow> bytes) \<Rightarrow> (bytes \<Rightarrow> 'p + frame) \<Rightarrow> client_config \<Rightarrow> socket \<Rightarrow> socket \<times> (client_error + client)" where
  "client_connect cr pe pd cfg s =
     (case first_frame pd CLIENT_MAX s of
        (s1, Inl e) \<Rightarrow> (s1, Inl e)
      | (s1, Inr (BChallenge c)) \<Rightarrow>
          if ch_hub c \<noteq> cf_hub_name cfg then (s1, Inl (WrongHub (cf_hub_name cfg) (ch_hub c)))
          else (case client_send pe [Frame (Some (BHello (hello_of cr cfg (ch_nonce c))))] CLIENT_MAX s1 of
                  (s2, Inl e) \<Rightarrow> (s2, Inl e)
                | (s2, Inr _) \<Rightarrow>
                    (case first_frame pd CLIENT_MAX s2 of
                       (s3, Inl e) \<Rightarrow> (s3, Inl e)
                     | (s3, Inr (BWelcome w)) \<Rightarrow> (s3, Inr (client_of cr cfg w s3))
                     | (s3, Inr (BError e)) \<Rightarrow> (s3, Inl (ClientRefused e))
                     | (s3, Inr _) \<Rightarrow> (s3, Inl (Protocol ''the hub must answer a hello with a welcome or an error''))))
      | (s1, Inr _) \<Rightarrow> (s1, Inl (Protocol ''the hub's first frame must be a challenge'')))"

section \<open>What a client sends\<close>

definition send_frames :: "(frame \<Rightarrow> bytes) \<Rightarrow> frame list \<Rightarrow> client \<Rightarrow> client \<times> (client_error + unit)" where
  "send_frames pe frames c =
     (case client_send pe frames (cl_max_frame c) (cl_ws c) of (s, r) \<Rightarrow> (c\<lparr>cl_ws := s\<rparr>, r))"

definition envelope_default :: envelope where
  "envelope_default = \<lparr>e_to = None, e_kind = 0, e_sender = [], e_seq = 0, e_epoch = 0, e_coalesce = [], e_ref = 0, e_payload = []\<rparr>"

definition client_publish_coalesced ::
    "(frame \<Rightarrow> bytes) \<Rightarrow> bytes \<Rightarrow> kind \<Rightarrow> bytes \<Rightarrow> bytes \<Rightarrow> client \<Rightarrow> client \<times> (client_error + unit)" where
  "client_publish_coalesced pe channel k payload coalesce c =
     send_frames pe [Frame (Some (BEnvelope (envelope_default
       \<lparr>e_to := Some (ToChannel channel), e_kind := i32_of_kind k, e_payload := payload, e_coalesce := coalesce\<rparr>)))] c"

definition client_publish :: "(frame \<Rightarrow> bytes) \<Rightarrow> bytes \<Rightarrow> kind \<Rightarrow> bytes \<Rightarrow> client \<Rightarrow> client \<times> (client_error + unit)" where
  "client_publish pe channel k payload c = client_publish_coalesced pe channel k payload [] c"

definition client_subscribe ::
    "(frame \<Rightarrow> bytes) \<Rightarrow> bytes \<Rightarrow> bytes \<Rightarrow> position option \<Rightarrow> client \<Rightarrow> client \<times> (client_error + unit)" where
  "client_subscribe pe publisher channel since c =
     send_frames pe [Frame (Some (BSubscribe \<lparr>sub_stream = Some \<lparr>sr_publisher = publisher, sr_channel = channel\<rparr>, sub_since = since\<rparr>))] c"

definition client_unsubscribe :: "(frame \<Rightarrow> bytes) \<Rightarrow> bytes \<Rightarrow> bytes \<Rightarrow> client \<Rightarrow> client \<times> (client_error + unit)" where
  "client_unsubscribe pe publisher channel c =
     send_frames pe [Frame (Some (BUnsubscribe \<lparr>unsub_stream = Some \<lparr>sr_publisher = publisher, sr_channel = channel\<rparr>\<rparr>))] c"

definition client_direct :: "(frame \<Rightarrow> bytes) \<Rightarrow> bytes \<Rightarrow> kind \<Rightarrow> bytes \<Rightarrow> client \<Rightarrow> client \<times> (client_error + unit)" where
  "client_direct pe to k payload c =
     send_frames pe [Frame (Some (BEnvelope (envelope_default
       \<lparr>e_to := Some (ToPrincipal to), e_kind := i32_of_kind k, e_payload := payload\<rparr>)))] c"

definition client_sender :: "client \<Rightarrow> sender" where
  "client_sender c = \<lparr>sn_identity = cl_identity c, sn_chain = cl_chain c\<rparr>"

definition client_command ::
    "'x stream_suite_scheme \<Rightarrow> (frame \<Rightarrow> bytes) \<Rightarrow> bytes option \<Rightarrow> bytes \<Rightarrow> recipient \<Rightarrow> string \<Rightarrow> bytes \<Rightarrow> nat \<Rightarrow> client
     \<Rightarrow> client \<times> (client_error + bytes)" where
  "client_command cr pe rnd eph to scope body now_ms c =
     (if scope \<notin> set (cl_grants c) then (c, Inl (NotGranted scope))
      else case seal_command cr rnd eph (client_sender c) to scope body now_ms of
             Inl e \<Rightarrow> (c, Inl (SealFailed e))
           | Inr (sealed, nonce) \<Rightarrow>
               (case client_direct pe (rt_principal to) Command sealed c of
                  (c1, Inl e) \<Rightarrow> (c1, Inl e)
                | (c1, Inr _) \<Rightarrow> (c1, Inr nonce)))"

definition client_result ::
    "'x stream_suite_scheme \<Rightarrow> (frame \<Rightarrow> bytes) \<Rightarrow> bytes option \<Rightarrow> bytes \<Rightarrow> recipient \<Rightarrow> bytes \<Rightarrow> bytes \<Rightarrow> nat \<Rightarrow> client
     \<Rightarrow> client \<times> (client_error + unit)" where
  "client_result cr pe rnd eph to answers body now_ms c =
     (case seal_result cr rnd eph (client_sender c) to answers body now_ms of
        Inl e \<Rightarrow> (c, Inl (SealFailed e))
      | Inr sealed \<Rightarrow> client_direct pe (rt_principal to) CommandResult sealed c)"

definition client_open_grant :: "'x stream_suite_scheme \<Rightarrow> bytes \<Rightarrow> bytes \<Rightarrow> nat \<Rightarrow> client \<Rightarrow> client \<times> (open_error + grant)" where
  "client_open_grant cr sender_id payload now_ms c =
     (case open_grant cr sender_id payload now_ms (cl_receiver c) of (r, res) \<Rightarrow> (c\<lparr>cl_receiver := r\<rparr>, res))"

section \<open>What a client hears\<close>

datatype event =
    EvPublished stream_ref kind bytes nat u64 bytes
  | EvCommand opened | EvResult opened | EvUnopened bytes kind bytes open_error
  | EvPresence presence | EvBackfilled backfilled | EvGap gap | EvError error_frame | EvPaired paired

definition client_on_envelope :: "'x stream_suite_scheme \<Rightarrow> nat \<Rightarrow> envelope \<Rightarrow> client \<Rightarrow> client \<times> event option" where
  "client_on_envelope cr now_ms e c =
     (let k = kind_of_i32 (e_kind e);
          opening = (case receiver_open cr (e_sender e) (e_payload e) now_ms (cl_receiver c) of (r, res) \<Rightarrow>
            (c\<lparr>cl_receiver := r\<rparr>,
             Some (case res of
                     Inl err \<Rightarrow> EvUnopened (e_sender e) k (e_payload e) err
                   | Inr o' \<Rightarrow> if op_answers o' \<noteq> None then EvResult o' else EvCommand o')));
          publishing = (c, case e_to e of
                             Some (ToChannel channel) \<Rightarrow>
                               Some (EvPublished \<lparr>sr_publisher = e_sender e, sr_channel = channel\<rparr> k (e_sender e) (e_seq e) (e_epoch e) (e_payload e))
                           | _ \<Rightarrow> None)
      in case k of
           Command \<Rightarrow> opening
         | CommandResult \<Rightarrow> opening
         | SessionEvents \<Rightarrow> publishing
         | Telemetry \<Rightarrow> publishing
         | Bulk \<Rightarrow> (c, Some (EvPublished \<lparr>sr_publisher = [], sr_channel = []\<rparr> k (e_sender e) (e_seq e) (e_epoch e) (e_payload e)))
         | KindUnspecified \<Rightarrow> (c, None))"

text \<open>One turn of the loop in \<open>Client::next\<close>: what a frame makes it return, or nothing when it goes on.\<close>

definition on_frame ::
    "'x stream_suite_scheme \<Rightarrow> (frame \<Rightarrow> bytes) \<Rightarrow> nat \<Rightarrow> frame \<Rightarrow> client \<Rightarrow> client \<times> (client_error + event) option" where
  "on_frame cr pe now_ms f c =
     (case frame_body f of
        Some (BEnvelope e) \<Rightarrow> (case client_on_envelope cr now_ms e c of (c1, ev) \<Rightarrow> (c1, map_option Inr ev))
      | Some (BPresence p) \<Rightarrow> (c, Some (Inr (EvPresence p)))
      | Some (BBackfilled b) \<Rightarrow> (c, Some (Inr (EvBackfilled b)))
      | Some (BGap g) \<Rightarrow> (c, Some (Inr (EvGap g)))
      | Some (BError e) \<Rightarrow> (c, Some (Inr (EvError e)))
      | Some (BPing n) \<Rightarrow> (case send_frames pe [Frame (Some (BPong n))] c of (c1, Inl e) \<Rightarrow> (c1, Some (Inl e)) | (c1, Inr _) \<Rightarrow> (c1, None))
      | Some (BPong _) \<Rightarrow> (c, None)
      | Some (BWelcome _) \<Rightarrow> (c, None)
      | Some (BChallenge _) \<Rightarrow> (c, None)
      | Some (BPaired p) \<Rightarrow> (c, Some (Inr (EvPaired p)))
      | _ \<Rightarrow> (c, Some (Inl (Protocol ''the hub sent a client-to-hub frame''))))"

definition read_message :: "(bytes \<Rightarrow> 'p + frame) \<Rightarrow> client \<Rightarrow> client \<times> (client_error + unit)" where
  "read_message pd c =
     (case next_binary (ws_in (cl_ws c)) of
        (ms, Inl e) \<Rightarrow> (c\<lparr>cl_ws := (cl_ws c)\<lparr>ws_in := ms\<rparr>\<rparr>, Inl e)
      | (ms, Inr bs) \<Rightarrow>
          let c1 = c\<lparr>cl_ws := (cl_ws c)\<lparr>ws_in := ms\<rparr>\<rparr> in
          (case decode_frames_shared pd bs (cl_max_frame c) of
             Inl _ \<Rightarrow> (c1, Inl (Protocol ''the hub sent a malformed frame''))
           | Inr frames \<Rightarrow> (c1\<lparr>cl_pending := frames\<rparr>, Inr ())))"

lemma client_send_keeps: "client_send pe fs mx s = (s', r) \<Longrightarrow> ws_in s' = ws_in s \<and> ws_fault s' = ws_fault s"
  by (auto simp: client_send_def split: sum.splits option.splits)

lemma send_frames_keeps:
  "send_frames pe fs c = (c', r) \<Longrightarrow> ws_in (cl_ws c') = ws_in (cl_ws c) \<and> cl_pending c' = cl_pending c \<and> cl_receiver c' = cl_receiver c
     \<and> cl_max_frame c' = cl_max_frame c"
  by (auto simp: send_frames_def split: prod.splits dest: client_send_keeps)

lemma client_on_envelope_keeps:
  "client_on_envelope cr now e c = (c', r) \<Longrightarrow> cl_ws c' = cl_ws c \<and> cl_pending c' = cl_pending c \<and> cl_max_frame c' = cl_max_frame c"
  by (auto simp: client_on_envelope_def Let_def split: prod.splits kind.splits)

lemma on_frame_keeps:
  "on_frame cr pe now f c = (c', r) \<Longrightarrow> ws_in (cl_ws c') = ws_in (cl_ws c) \<and> cl_pending c' = cl_pending c \<and> cl_max_frame c' = cl_max_frame c"
  by (auto simp: on_frame_def split: option.splits body.splits prod.splits sum.splits dest: client_on_envelope_keeps send_frames_keeps)

lemma read_message_shorter: "read_message pd c = (c', Inr u) \<Longrightarrow> length (ws_in (cl_ws c')) < length (ws_in (cl_ws c))"
  by (auto simp: read_message_def Let_def split: prod.splits sum.splits dest: next_binary_shorter)

function client_next ::
    "'x stream_suite_scheme \<Rightarrow> (frame \<Rightarrow> bytes) \<Rightarrow> (bytes \<Rightarrow> 'p + frame) \<Rightarrow> nat \<Rightarrow> client \<Rightarrow> client \<times> (client_error + event)" where
  "client_next cr pe pd now_ms c =
     (case cl_pending c of
        [] \<Rightarrow> (case read_message pd c of (c1, Inl e) \<Rightarrow> (c1, Inl e) | (c1, Inr _) \<Rightarrow> client_next cr pe pd now_ms c1)
      | f # rest \<Rightarrow>
          (case on_frame cr pe now_ms f (c\<lparr>cl_pending := rest\<rparr>) of
             (c1, Some r) \<Rightarrow> (c1, r)
           | (c1, None) \<Rightarrow> client_next cr pe pd now_ms c1))"
  by pat_completeness auto
termination
  by (relation "measures [\<lambda>(cr, pe, pd, now, c). length (ws_in (cl_ws c)), \<lambda>(cr, pe, pd, now, c). length (cl_pending c)]")
    (auto dest!: read_message_shorter [OF sym] on_frame_keeps [OF sym])

declare client_next.simps [simp del]

definition pairing_offered ::
    "'x stream_suite_scheme \<Rightarrow> (frame \<Rightarrow> bytes) \<Rightarrow> (bytes \<Rightarrow> 'p + frame) \<Rightarrow> bytes \<Rightarrow> nat \<Rightarrow> client \<Rightarrow> client \<times> (client_error + bytes)" where
  "pairing_offered cr pe pd code_hash now_ms c =
     (case send_frames pe [Frame (Some (BPairFetch code_hash))] c of
        (c1, Inl e) \<Rightarrow> (c1, Inl e)
      | (c1, Inr _) \<Rightarrow>
          (case client_next cr pe pd now_ms c1 of
             (c2, Inl e) \<Rightarrow> (c2, Inl e)
           | (c2, Inr (EvPaired p)) \<Rightarrow> (c2, Inr (pd_offer p))
           | (c2, Inr (EvError e)) \<Rightarrow> (c2, Inl (ClientRefused e))
           | (c2, Inr _) \<Rightarrow> (c2, Inl (Protocol ''the hub answered a pairing fetch with something else''))))"

definition client_pairing_answer ::
    "'x stream_suite_scheme \<Rightarrow> (frame \<Rightarrow> bytes) \<Rightarrow> (bytes \<Rightarrow> 'p + frame) \<Rightarrow> bytes \<Rightarrow> bytes \<Rightarrow> nat \<Rightarrow> client \<Rightarrow> client \<times> (client_error + unit)" where
  "client_pairing_answer cr pe pd code_hash answer now_ms c =
     (case send_frames pe [Frame (Some (BPairAnswer \<lparr>pa_code_hash = code_hash, pa_answer = answer\<rparr>))] c of
        (c1, Inl e) \<Rightarrow> (c1, Inl e)
      | (c1, Inr _) \<Rightarrow>
          (case client_next cr pe pd now_ms c1 of
             (c2, Inl e) \<Rightarrow> (c2, Inl e)
           | (c2, Inr (EvPaired p)) \<Rightarrow> (c2, Inr ())
           | (c2, Inr (EvError e)) \<Rightarrow> (c2, Inl (ClientRefused e))
           | (c2, Inr _) \<Rightarrow> (c2, Inl (Protocol ''the hub answered a pairing answer with something else''))))"

section \<open>Logging in only where it was meant\<close>

lemma first_frame_keeps: "first_frame pd mx s = (s', r) \<Longrightarrow> ws_out s' = ws_out s \<and> ws_fault s' = ws_fault s"
  by (auto simp: first_frame_def split: prod.splits sum.splits)

lemma client_send_out:
  "client_send pe fs mx s = (s', r) \<Longrightarrow> ws_out s' = ws_out s \<or> (\<exists>bs. encode_frames pe fs mx = Inr bs \<and> ws_out s' = ws_out s @ [bs])"
  by (auto simp: client_send_def split: sum.splits option.splits)

text \<open>C24. A client sends at most one message while it logs in, and only to a hub that has named itself as the client expects: its hello,
  with the signature over that name and the nonce of this challenge. A hub that names itself otherwise is sent nothing.\<close>

theorem a_hello_is_only_for_the_named_hub:
  assumes "client_connect cr pe pd cfg s = (s', r)"
  shows "(ws_out s' = ws_out s \<or>
      (\<exists>s1 c bs. first_frame pd CLIENT_MAX s = (s1, Inr (BChallenge c)) \<and> ch_hub c = cf_hub_name cfg
         \<and> encode_frames pe [Frame (Some (BHello (hello_of cr cfg (ch_nonce c))))] CLIENT_MAX = Inr bs \<and> ws_out s' = ws_out s @ [bs]))
    \<and> (\<forall>s1 c. first_frame pd CLIENT_MAX s = (s1, Inr (BChallenge c)) \<longrightarrow> ch_hub c \<noteq> cf_hub_name cfg
         \<longrightarrow> r = Inl (WrongHub (cf_hub_name cfg) (ch_hub c)) \<and> ws_out s' = ws_out s)"
proof -
  obtain s1 q where first: "first_frame pd CLIENT_MAX s = (s1, q)" by (cases "first_frame pd CLIENT_MAX s")
  then have out: "ws_out s1 = ws_out s" by (simp add: first_frame_keeps)
  consider (challenge) c where "q = Inr (BChallenge c)" | (other) "s' = s1" "\<nexists>c. q = Inr (BChallenge c)"
    using assms first by (cases q) (auto simp: client_connect_def split: body.splits)
  then show ?thesis
  proof cases
    case (challenge c)
    show ?thesis
    proof (cases "ch_hub c = cf_hub_name cfg")
      case False
      with assms first challenge out show ?thesis by (simp add: client_connect_def)
    next
      case True
      obtain s2 u where sent: "client_send pe [Frame (Some (BHello (hello_of cr cfg (ch_nonce c))))] CLIENT_MAX s1 = (s2, u)"
        by (cases "client_send pe [Frame (Some (BHello (hello_of cr cfg (ch_nonce c))))] CLIENT_MAX s1")
      have "ws_out s' = ws_out s2"
      proof (cases u)
        case (Inr x)
        obtain s3 w where "first_frame pd CLIENT_MAX s2 = (s3, w)" by (cases "first_frame pd CLIENT_MAX s2")
        with assms first challenge True sent Inr first_frame_keeps [OF this] show ?thesis
          by (cases w) (auto simp: client_connect_def split: body.splits)
      qed (use assms first challenge True sent in \<open>simp add: client_connect_def\<close>)
      with True first challenge client_send_out [OF sent] out show ?thesis by auto
    qed
  qed (use first out in auto)
qed

section \<open>How frames are batched does not matter\<close>

text \<open>What a client has still to hear, whatever messages it is in: the frames, and the error that follows them.\<close>

fun upcoming :: "(bytes \<Rightarrow> 'p + frame) \<Rightarrow> nat \<Rightarrow> (string + ws_message) list \<Rightarrow> frame list \<times> client_error" where
  "upcoming pd mx [] = ([], Transport ''the hub closed the connection'')"
| "upcoming pd mx (Inl e # ms) = ([], Transport e)"
| "upcoming pd mx (Inr (WsBinary bs) # ms) =
     (case decode_frames_shared pd bs mx of
        Inl _ \<Rightarrow> ([], Protocol ''the hub sent a malformed frame'')
      | Inr fs \<Rightarrow> apfst ((@) fs) (upcoming pd mx ms))"
| "upcoming pd mx (Inr WsPing # ms) = upcoming pd mx ms"
| "upcoming pd mx (Inr WsPong # ms) = upcoming pd mx ms"
| "upcoming pd mx (Inr WsClose # ms) = ([], Transport ''the hub closed the connection'')"
| "upcoming pd mx (Inr WsOther # ms) = ([], Protocol ''the hub sent a non-binary message'')"

definition still_to_hear :: "(bytes \<Rightarrow> 'p + frame) \<Rightarrow> client \<Rightarrow> frame list \<times> client_error" where
  "still_to_hear pd c = apfst ((@) (cl_pending c)) (upcoming pd (cl_max_frame c) (ws_in (cl_ws c)))"

definition core :: "client \<Rightarrow> client" where
  "core c = c\<lparr>cl_pending := [], cl_ws := (cl_ws c)\<lparr>ws_in := []\<rparr>\<rparr>"

fun hear :: "'x stream_suite_scheme \<Rightarrow> (frame \<Rightarrow> bytes) \<Rightarrow> nat \<Rightarrow> client \<Rightarrow> frame list \<times> client_error
    \<Rightarrow> (client \<times> frame list \<times> client_error) \<times> (client_error + event)" where
  "hear cr pe now c ([], e) = ((c, [], e), Inl e)"
| "hear cr pe now c (f # fs, e) =
     (case on_frame cr pe now f c of (c1, Some r) \<Rightarrow> ((c1, fs, e), r) | (c1, None) \<Rightarrow> hear cr pe now c1 (fs, e))"

lemma client_send_core:
  "client_send pe fs mx s = (s', r) \<Longrightarrow> client_send pe fs mx (s\<lparr>ws_in := ms\<rparr>) = (s'\<lparr>ws_in := ms\<rparr>, r)"
  by (auto simp: client_send_def split: sum.splits option.splits)

lemma send_frames_core:
  assumes "send_frames pe fs c = (c', r)"
  shows "send_frames pe fs (core c) = (core c', r)"
proof -
  obtain s q where "client_send pe fs (cl_max_frame c) (cl_ws c) = (s, q)" by fastforce
  with assms client_send_core [OF this, of "[]"] show ?thesis by (auto simp: send_frames_def core_def)
qed

lemma client_on_envelope_core:
  assumes "client_on_envelope cr now e c = (c', r)"
  shows "client_on_envelope cr now e (core c) = (core c', r)"
proof -
  obtain rc res where "receiver_open cr (e_sender e) (e_payload e) now (cl_receiver c) = (rc, res)" by fastforce
  moreover have "cl_receiver (core c) = cl_receiver c" "\<And>rc. (core c)\<lparr>cl_receiver := rc\<rparr> = core (c\<lparr>cl_receiver := rc\<rparr>)"
    by (simp_all add: core_def)
  ultimately show ?thesis
    using assms by (cases "kind_of_i32 (e_kind e)") (auto simp: client_on_envelope_def)
qed

lemma on_frame_core:
  assumes "on_frame cr pe now f c = (c', r)"
  shows "on_frame cr pe now f (core c) = (core c', r)"
proof (cases "frame_body f")
  case (Some b)
  show ?thesis
  proof (cases b)
    case (BEnvelope e)
    obtain c1 ev where "client_on_envelope cr now e c = (c1, ev)" by fastforce
    with assms Some BEnvelope client_on_envelope_core [OF this] show ?thesis by (simp add: on_frame_def)
  next
    case (BPing n)
    obtain c1 q where "send_frames pe [Frame (Some (BPong n))] c = (c1, q)" by fastforce
    with assms Some BPing send_frames_core [OF this] show ?thesis by (cases q) (simp_all add: on_frame_def)
  qed (use assms Some in \<open>simp_all add: on_frame_def\<close>)
qed (use assms in \<open>simp add: on_frame_def\<close>)

lemma upcoming_next:
  "next_binary ms = (ms', q) \<Longrightarrow> upcoming pd mx ms =
     (case q of Inl e \<Rightarrow> ([], e)
      | Inr bs \<Rightarrow> (case decode_frames_shared pd bs mx of Inl _ \<Rightarrow> ([], Protocol ''the hub sent a malformed frame'')
                  | Inr fs \<Rightarrow> apfst ((@) fs) (upcoming pd mx ms')))"
  by (induction ms rule: next_binary.induct) (auto split: sum.splits)

lemma read_message_hears:
  assumes "read_message pd c = (c', q)" "cl_pending c = []"
  shows "case q of Inl e \<Rightarrow> still_to_hear pd c = ([], e) | Inr _ \<Rightarrow> still_to_hear pd c' = still_to_hear pd c \<and> core c' = core c"
  using assms
  by (auto simp: read_message_def still_to_hear_def core_def Let_def upcoming_next prod_eq_iff [of "apfst _ _"] split: prod.splits sum.splits)

text \<open>Each call of \<open>next\<close> is one step on the frames still to hear: it returns what the first frame that means something to the caller
  means, and leaves the frames after it.\<close>

lemma next_hears:
  assumes "client_next cr pe pd now c = (c', r)"
  shows "\<exists>rest. hear cr pe now (core c) (still_to_hear pd c) = (rest, r) \<and> (\<forall>ev. r = Inr ev \<longrightarrow> rest = (core c', still_to_hear pd c'))"
  using assms
proof (induction cr pe pd now c arbitrary: c' r rule: client_next.induct)
  case (1 cr pe pd now c)
  show ?case
  proof (cases "cl_pending c")
    case Nil
    obtain c1 q where q: "read_message pd c = (c1, q)" by (cases "read_message pd c")
    show ?thesis
    proof (cases q)
      case (Inl e)
      with 1 Nil q read_message_hears [OF q Nil] show ?thesis by (auto simp: client_next.simps)
    next
      case (Inr u)
      with 1 Nil q have "client_next cr pe pd now c1 = (c', r)" by (simp add: client_next.simps [of cr pe pd now c])
      with 1(1) [OF Nil q [symmetric] Inr] read_message_hears [OF q Nil] Inr show ?thesis by simp
    qed
  next
    case (Cons f fs)
    obtain c1 q where q: "on_frame cr pe now f (c\<lparr>cl_pending := fs\<rparr>) = (c1, q)"
      by (cases "on_frame cr pe now f (c\<lparr>cl_pending := fs\<rparr>)")
    have keep: "ws_in (cl_ws c1) = ws_in (cl_ws c)" "cl_pending c1 = fs" "cl_max_frame c1 = cl_max_frame c"
      using on_frame_keeps [OF q] by auto
    have core: "on_frame cr pe now f (core c) = (core c1, q)" using on_frame_core [OF q] by (simp add: core_def)
    have still: "still_to_hear pd c = (f # fst (still_to_hear pd c1), snd (still_to_hear pd c1))"
      using keep Cons by (cases "upcoming pd (cl_max_frame c) (ws_in (cl_ws c))") (simp add: still_to_hear_def)
    show ?thesis
    proof (cases q)
      case None
      with 1 Cons q have "client_next cr pe pd now c1 = (c', r)" by (simp add: client_next.simps [of cr pe pd now c])
      with 1(2) [OF Cons q [symmetric] None] None core show ?thesis unfolding still by simp
    next
      case (Some x)
      with 1 Cons q core show ?thesis unfolding still by (simp add: client_next.simps)
    qed
  qed
qed

fun client_run ::
    "'x stream_suite_scheme \<Rightarrow> (frame \<Rightarrow> bytes) \<Rightarrow> (bytes \<Rightarrow> 'p + frame) \<Rightarrow> nat list \<Rightarrow> client \<Rightarrow> event list \<times> client_error option" where
  "client_run cr pe pd [] c = ([], None)"
| "client_run cr pe pd (now # nows) c =
     (case client_next cr pe pd now c of
        (c1, Inl e) \<Rightarrow> ([], Some e)
      | (c1, Inr ev) \<Rightarrow> apfst ((#) ev) (client_run cr pe pd nows c1))"

text \<open>C23. What a client hears does not depend on how the hub put its frames into messages: two clients that differ only in how the
  same frames reach them return the same events, call by call, and end with the same error.\<close>

theorem batching_does_not_matter:
  assumes "core c = core d" "still_to_hear pd c = still_to_hear pd d"
  shows "client_run cr pe pd nows c = client_run cr pe pd nows d"
  using assms
proof (induction nows arbitrary: c d)
  case (Cons now nows)
  obtain c1 q where c: "client_next cr pe pd now c = (c1, q)" by (cases "client_next cr pe pd now c")
  obtain d1 p where d: "client_next cr pe pd now d = (d1, p)" by (cases "client_next cr pe pd now d")
  from next_hears [OF c] next_hears [OF d] Cons.prems have same: "p = q"
    and left: "\<forall>ev. q = Inr ev \<longrightarrow> core c1 = core d1 \<and> still_to_hear pd c1 = still_to_hear pd d1" by auto
  show ?case
  proof (cases q)
    case (Inr ev)
    with Cons.IH left have "client_run cr pe pd nows c1 = client_run cr pe pd nows d1" by blast
    with c d same Inr show ?thesis by simp
  qed (use c d same in simp)
qed simp

section \<open>The shapes of what is heard\<close>

text \<open>Principal ids and nonces are fixed-size arrays in the code and byte lists here. A command answers nothing and names a scope; a
  result answers a nonce and names none.\<close>

definition opened_typed :: "opened \<Rightarrow> bool" where
  "opened_typed o' \<longleftrightarrow> length (op_from o') = 32 \<and> length (op_nonce o') = NONCE_BYTES"

fun event_typed :: "event \<Rightarrow> bool" where
  "event_typed (EvCommand o') \<longleftrightarrow> opened_typed o' \<and> op_answers o' = None \<and> op_scope o' \<noteq> []"
| "event_typed (EvResult o') \<longleftrightarrow> opened_typed o' \<and> (\<exists>a. op_answers o' = Some a \<and> length a = NONCE_BYTES) \<and> op_scope o' = []"
| "event_typed (EvUnopened s k bs e) \<longleftrightarrow> k \<in> {Command, CommandResult}"
| "event_typed (EvPublished stream k s seq ep bs) \<longleftrightarrow> k \<in> {SessionEvents, Telemetry, Bulk} \<and> (k \<noteq> Bulk \<longrightarrow> sr_publisher stream = s)"
| "event_typed _ \<longleftrightarrow> True"

lemma answers_of_ok:
  "answers_of v body = Inr a \<Longrightarrow>
     (a = None \<longrightarrow> cm_scope body \<noteq> []) \<and> (\<forall>n. a = Some n \<longrightarrow> length n = NONCE_BYTES \<and> cm_scope body = [])"
  by (auto simp: answers_of_def split: if_splits)

lemma receiver_open_typed:
  assumes "receiver_open cr s bs now r = (r', Inr opd)"
  shows "event_typed (if op_answers opd \<noteq> None then EvResult opd else EvCommand opd)"
proof -
  from assms obtain sb v body answers where o: "open_checks cr s bs now r = Inr (sb, v, body, answers)"
    "check_addressing s (cm_from body) (cm_to body) (cm_nonce body) (cm_time_ms body) now r = (r', Inr (op_nonce opd))"
    "opd = \<lparr>op_from = s, op_scope = cm_scope body, op_nonce = op_nonce opd, op_time_ms = cm_time_ms body,
       op_body = cm_body body, op_answers = answers, op_leaf = v_leaf v, op_chain = sd_chain sb\<rparr>"
    by (rule receiver_open_ok)
  have "op_from opd = s" "op_scope opd = cm_scope body" "op_answers opd = answers" by (subst o(3), simp)+
  with open_checks_ok(1,6) [OF o(1)] check_addressing_ok(3,4) [OF o(2)] answers_of_ok show ?thesis
    by (auto simp: opened_typed_def)
qed

lemma client_on_envelope_typed:
  assumes "client_on_envelope cr now e c = (c', Some ev)"
  shows "event_typed ev"
proof -
  obtain rc res where res: "receiver_open cr (e_sender e) (e_payload e) now (cl_receiver c) = (rc, res)" by fastforce
  with assms receiver_open_typed [of cr "e_sender e" "e_payload e" now "cl_receiver c" rc] show ?thesis
    by (cases "kind_of_i32 (e_kind e)") (auto simp: client_on_envelope_def split: sum.splits option.splits address.splits if_splits)
qed

lemma on_frame_typed:
  assumes "on_frame cr pe now f c = (c', Some (Inr ev))"
  shows "event_typed ev"
proof (cases "frame_body f")
  case (Some b)
  show ?thesis
  proof (cases b)
    case (BEnvelope e)
    obtain c1 q where "client_on_envelope cr now e c = (c1, q)" by fastforce
    with assms Some BEnvelope client_on_envelope_typed [of cr now e c c1] show ?thesis by (auto simp: on_frame_def)
  next
    case (BPing n)
    obtain c1 q where "send_frames pe [Frame (Some (BPong n))] c = (c1, q)" by fastforce
    with assms Some BPing show ?thesis by (cases q) (simp_all add: on_frame_def)
  qed (use assms Some in \<open>auto simp: on_frame_def\<close>)
qed (use assms in \<open>simp add: on_frame_def\<close>)

text \<open>C22. Every event a client returns has the shape its type promises: a command or result names its sender by 32 bytes and itself by a
  16-byte nonce, a command answers nothing and names a scope, a result answers a 16-byte nonce and names none, what could not
  be opened was a command or a result, and a published envelope carries a published kind and its sender's stream.\<close>

theorem events_have_their_types:
  assumes "client_next cr pe pd now c = (c', Inr ev)"
  shows "event_typed ev"
  using assms
proof (induction cr pe pd now c rule: client_next.induct)
  case (1 cr pe pd now c)
  show ?case
  proof (cases "cl_pending c")
    case Nil
    obtain c1 q where q: "read_message pd c = (c1, q)" by fastforce
    with 1 Nil show ?thesis by (cases q) (simp_all add: client_next.simps [of cr pe pd now c])
  next
    case (Cons f fs)
    obtain c1 q where q: "on_frame cr pe now f (c\<lparr>cl_pending := fs\<rparr>) = (c1, q)" by fastforce
    with 1 Cons on_frame_typed [of cr pe now f _ c1 ev] show ?thesis
      by (cases q) (auto simp: client_next.simps [of cr pe pd now c])
  qed
qed

section \<open>What came with the welcome\<close>

text \<open>The handshake reads a whole message for the welcome and keeps its first frame only: whatever other frames the hub put into
  that message are gone, and the client goes on with the messages after it.\<close>

theorem what_comes_with_the_welcome_is_lost:
  assumes "first_frame pd CLIENT_MAX s = (s1, Inr (BChallenge ch))" "ch_hub ch = cf_hub_name cfg"
    and "client_send pe [Frame (Some (BHello (hello_of cr cfg (ch_nonce ch))))] CLIENT_MAX s1 = (s2, Inr ())"
    and "next_binary (ws_in s2) = (ms, Inr bs)"
    and "decode_frames_shared pd bs CLIENT_MAX = Inr (Frame (Some (BWelcome w)) # others)"
  shows "\<exists>c. client_connect cr pe pd cfg s = (s2\<lparr>ws_in := ms\<rparr>, Inr c) \<and> still_to_hear pd c = upcoming pd (cl_max_frame c) ms"
proof -
  have "first_frame pd CLIENT_MAX s2 = (s2\<lparr>ws_in := ms\<rparr>, Inr (BWelcome w))" using assms(4,5) by (simp add: first_frame_def)
  moreover have "still_to_hear pd (client_of cr cfg w (s2\<lparr>ws_in := ms\<rparr>)) = upcoming pd (cl_max_frame (client_of cr cfg w (s2\<lparr>ws_in := ms\<rparr>))) ms"
    by (simp add: still_to_hear_def client_of_def Let_def prod_eq_iff)
  ultimately show ?thesis using assms(1-3) by (simp add: client_connect_def)
qed

section \<open>Examples\<close>

text \<open>A codec of four frames, one byte each, and a hub that speaks it.\<close>

definition the_challenge :: challenge where "the_challenge = \<lparr>ch_nonce = [9], ch_hub = ''hub'', ch_server_time_ms = 0\<rparr>"

definition the_welcome :: welcome_frame where
  "the_welcome = \<lparr>w_protocol = 1, w_server_time_ms = 0, w_limits = None, w_revoker = None, w_features = []\<rparr>"

definition the_presence :: presence where
  "the_presence = \<lparr>pr_principal = [4], pr_role = 2, pr_online = True, pr_chain = []\<rparr>"

definition talk_enc :: "frame \<Rightarrow> bytes" where
  "talk_enc f = (case frame_body f of Some (BChallenge _) \<Rightarrow> [1] | Some (BWelcome _) \<Rightarrow> [2] | Some (BPresence _) \<Rightarrow> [3] | _ \<Rightarrow> [4])"

definition talk_dec :: "bytes \<Rightarrow> unit + frame" where
  "talk_dec b =
     (if b = [1] then Inr (Frame (Some (BChallenge the_challenge))) else if b = [2] then Inr (Frame (Some (BWelcome the_welcome)))
      else if b = [3] then Inr (Frame (Some (BPresence the_presence))) else Inl ())"

definition hub_says :: "bytes list \<Rightarrow> socket" where
  "hub_says ms = \<lparr>ws_in = map (\<lambda>m. Inr (WsBinary m)) ms, ws_out = [], ws_fault = (\<lambda>_. None)\<rparr>"

definition visitor :: "string \<Rightarrow> client_config" where
  "visitor hub = \<lparr>cf_hub_name = hub, cf_identity = [7], cf_agreement = [2], cf_chain = [], cf_account_root = pad_key [1],
     cf_role = RoleClient, cf_invite = []\<rparr>"

lemma talk_decodes:
  assumes "set fs \<subseteq> {Frame (Some (BChallenge the_challenge)), Frame (Some (BWelcome the_welcome)), Frame (Some (BPresence the_presence))}"
    and "length fs \<le> 2" "0 < mx" "mx < 2 ^ 64"
  shows "decode_frames_shared talk_dec (concat (map (\<lambda>f. 1 # talk_enc f) fs)) mx = Inr fs"
proof -
  have len: "length (talk_enc f) = 1" for f by (simp add: talk_enc_def split: option.split body.split)
  then have d: "delimit (talk_enc f) = 1 # talk_enc f" for f by (simp add: delimit_def varint_def write_varint.simps word_le_nat_alt)
  have "encode_frames talk_enc fs mx = Inr (concat (map (\<lambda>f. 1 # talk_enc f) fs))"
    using len assms(3) by (auto simp: encode_frames_def encode_frames_from_write write_frames_delimit d comp_def Suc_le_eq)
  moreover have "\<forall>f \<in> set fs. talk_dec (talk_enc f) = Inr f" using assms(1) by (auto simp: talk_enc_def talk_dec_def)
  moreover have "length (concat (map (\<lambda>f. 1 # talk_enc f) fs)) < 2 ^ 64"
    using assms(2) len by (simp add: length_concat comp_def sum_list_triv)
  ultimately show ?thesis using batch_round_trips assms(4) by blast
qed

lemma talk_challenge: "decode_frames_shared talk_dec [1, 1] CLIENT_MAX = Inr [Frame (Some (BChallenge the_challenge))]"
  using talk_decodes [of "[Frame (Some (BChallenge the_challenge))]" CLIENT_MAX] by (simp add: talk_enc_def)

lemma talk_welcome:
  "0 < mx \<Longrightarrow> mx < 2 ^ 64 \<Longrightarrow> decode_frames_shared talk_dec [1, 2, 1, 3] mx = Inr [Frame (Some (BWelcome the_welcome)), Frame (Some (BPresence the_presence))]"
  using talk_decodes [of "[Frame (Some (BWelcome the_welcome)), Frame (Some (BPresence the_presence))]" mx] by (simp add: talk_enc_def)

lemma talk_presence: "0 < mx \<Longrightarrow> mx < 2 ^ 64 \<Longrightarrow> decode_frames_shared talk_dec [1, 3] mx = Inr [Frame (Some (BPresence the_presence))]"
  using talk_decodes [of "[Frame (Some (BPresence the_presence))]" mx] by (simp add: talk_enc_def)

lemma hub_challenges: "first_frame talk_dec CLIENT_MAX (hub_says ([1, 1] # ms)) = (hub_says ms, Inr (BChallenge the_challenge))"
  using talk_challenge by (simp add: first_frame_def hub_says_def)

theorem a_hello_is_only_for_the_named_hub_witness:
  "snd (client_connect post talk_enc talk_dec (visitor ''other'') (hub_says [[1, 1]])) = Inl (WrongHub ''other'' ''hub'')"
proof -
  obtain s' r where r: "client_connect post talk_enc talk_dec (visitor ''other'') (hub_says [[1, 1]]) = (s', r)" by fastforce
  from a_hello_is_only_for_the_named_hub [OF r] hub_challenges [of "[]"] have "r = Inl (WrongHub ''other'' ''hub'')"
    by (simp add: visitor_def the_challenge_def)
  with r show ?thesis by simp
qed

lemma visitor_sends:
  "client_send talk_enc [Frame (Some (BHello h))] CLIENT_MAX (hub_says ms) = ((hub_says ms)\<lparr>ws_out := [[1, 4]]\<rparr>, Inr ())"
  by (simp add: client_send_def hub_says_def encode_frames_def talk_enc_def write_frame_def write_varint.simps word_le_nat_alt)

theorem what_comes_with_the_welcome_is_lost_witness:
  "\<exists>c. client_connect post talk_enc talk_dec (visitor ''hub'') (hub_says [[1, 1], [1, 2, 1, 3]])
       = (\<lparr>ws_in = [], ws_out = [[1, 4]], ws_fault = (\<lambda>_. None)\<rparr>, Inr c)
     \<and> still_to_hear talk_dec c = ([], Transport ''the hub closed the connection'')"
proof -
  have "\<exists>c. client_connect post talk_enc talk_dec (visitor ''hub'') (hub_says [[1, 1], [1, 2, 1, 3]])
       = ((hub_says [[1, 2, 1, 3]])\<lparr>ws_out := [[1, 4]], ws_in := []\<rparr>, Inr c)
     \<and> still_to_hear talk_dec c = upcoming talk_dec (cl_max_frame c) []"
    by (rule what_comes_with_the_welcome_is_lost [OF hub_challenges _ visitor_sends _ talk_welcome])
      (simp_all add: hub_says_def visitor_def the_challenge_def)
  then show ?thesis by (simp add: hub_says_def)
qed

definition listener :: "receiver \<Rightarrow> bytes list \<Rightarrow> frame list \<Rightarrow> client" where
  "listener r ms fs = \<lparr>cl_ws = hub_says ms, cl_identity = [7], cl_chain = [], cl_principal = [], cl_account = [], cl_limits = wire_limits_default,
     cl_receiver = r, cl_pending = fs, cl_max_frame = 2 ^ 16, cl_grants = []\<rparr>"

theorem batching_does_not_matter_witness:
  "client_run post talk_enc talk_dec [0, 0] (listener mailbox [[1, 2, 1, 3]] []) =
   client_run post talk_enc talk_dec [0, 0] (listener mailbox [[1, 3]] [Frame (Some (BWelcome the_welcome))])"
  by (rule batching_does_not_matter)
    (simp_all add: core_def still_to_hear_def listener_def hub_says_def talk_welcome talk_presence)

definition note_envelope :: envelope where
  "note_envelope = \<lparr>e_to = None, e_kind = 3, e_sender = pad_key [7], e_seq = 0, e_epoch = 0, e_coalesce = [], e_ref = 0, e_payload = note_sealed\<rparr>"

theorem events_have_their_types_witness: "event_typed (EvCommand note_opened)"
proof -
  have "op_answers note_opened = None" by (simp add: note_opened_def)
  then have "client_next post talk_enc talk_dec 16 (listener mailbox [] [Frame (Some (BEnvelope note_envelope))])
      = ((listener mailbox [] [])\<lparr>cl_receiver := mailbox\<lparr>rc_replay := mailbox_after\<rparr>\<rparr>, Inr (EvCommand note_opened))"
    using note_opens [OF post_is_mail]
    by (simp add: client_next.simps on_frame_def client_on_envelope_def note_envelope_def kind_of_i32_def listener_def Let_def)
  then show ?thesis by (rule events_have_their_types)
qed

end
