(* ===== verification/Box.thy ===== *)
theory Box
  imports Framing Text
begin

text \<open>
  Which channel a frame of a box belongs on, \<open>crates/box/src/lib.rs\<close>: the walk over the top-level tags of a protobuf message that
  reads three fields and skips the rest, and the routing decision. The frame itself is never decoded.
\<close>

section \<open>Reading the tags\<close>

definition MAX_BOX_FRAME_BYTES :: nat where "MAX_BOX_FRAME_BYTES = 2 ^ 20"
definition FIELD_KIND :: u64 where "FIELD_KIND = 2"
definition FIELD_INFO :: u64 where "FIELD_INFO = 28"
definition FIELD_AT_MS :: u64 where "FIELD_AT_MS = 30"
definition SAMPLE_COALESCE :: string where "SAMPLE_COALESCE = ''s''"
definition HEARTBEAT_COALESCE :: string where "HEARTBEAT_COALESCE = ''h''"

datatype route = Consume | Edge | Sample string

record box_read =
  br_kind :: "string option"
  br_has_info :: bool
  br_at_ms :: "u64 option"
  br_readable :: bool

text \<open>The loop of \<open>varint\<close>, over at most ten bytes.\<close>

fun varint_loop :: "bytes \<Rightarrow> nat \<Rightarrow> u64 \<Rightarrow> nat \<Rightarrow> (u64 \<times> nat) option" where
  "varint_loop [] shift acc i = None"
| "varint_loop (b # bs) shift acc i =
     (let v = acc OR push_bit (shift * 7) (ucast (b AND 0x7f))
      in if b AND 0x80 = 0 then Some (v, i + 1) else varint_loop bs (shift + 1) v (i + 1))"

definition box_varint :: "bytes \<Rightarrow> nat \<Rightarrow> (u64 \<times> nat) option" where
  "box_varint bs at = varint_loop (take 10 (drop at bs)) 0 0 at"

definition unreadable :: "string option \<Rightarrow> bool \<Rightarrow> u64 option \<Rightarrow> box_read" where
  "unreadable kind has_info at_ms = \<lparr>br_kind = kind, br_has_info = has_info, br_at_ms = at_ms, br_readable = False\<rparr>"

lemma varint_loop_end: "varint_loop bs shift v i = Some (w, k) \<Longrightarrow> i < k \<and> k \<le> i + length bs"
  by (induction bs shift v i rule: varint_loop.induct) (auto simp: Let_def split: if_splits)

lemma box_varint_end: "box_varint bs at = Some (w, k) \<Longrightarrow> at < k \<and> k \<le> length bs"
  by (auto simp: box_varint_def dest!: varint_loop_end split: if_splits)

text \<open>The walk: a key, then a value by its wire type. The position moves with every field, so it ends.\<close>

function read_from :: "bytes \<Rightarrow> nat \<Rightarrow> string option \<Rightarrow> bool \<Rightarrow> u64 option \<Rightarrow> box_read" where
  "read_from frame at kind has_info at_ms =
     (if at \<ge> length frame then \<lparr>br_kind = kind, br_has_info = has_info, br_at_ms = at_ms, br_readable = True\<rparr>
      else case box_varint frame at of
        None \<Rightarrow> unreadable kind has_info at_ms
      | Some (key, next) \<Rightarrow>
          let field = drop_bit 3 key; wire = key AND 7 in
          if wire = 0 then
            (case box_varint frame next of
               None \<Rightarrow> unreadable kind has_info at_ms
             | Some (v, stop) \<Rightarrow> read_from frame stop kind has_info (if field = FIELD_AT_MS then Some v else at_ms))
          else if wire = 1 then
            (if next + 8 > length frame then unreadable kind has_info at_ms else read_from frame (next + 8) kind has_info at_ms)
          else if wire = 2 then
            (case box_varint frame next of
               None \<Rightarrow> unreadable kind has_info at_ms
             | Some (len, start) \<Rightarrow>
                 let stop = start + unat len in
                 if stop > length frame then unreadable kind has_info at_ms
                 else read_from frame stop
                   (if field = FIELD_KIND then from_utf8 (take (unat len) (drop start frame)) else kind)
                   (has_info \<or> field = FIELD_INFO) at_ms)
          else if wire = 5 then
            (if next + 4 > length frame then unreadable kind has_info at_ms else read_from frame (next + 4) kind has_info at_ms)
          else unreadable kind has_info at_ms)"
  by pat_completeness auto
termination
proof (relation "measure (\<lambda>(frame, at, _). length frame - at)", goal_cases)
  case 1
  show ?case by simp
qed (auto dest!: box_varint_end)

declare read_from.simps [simp del]

definition box_read_frame :: "bytes \<Rightarrow> box_read" where
  "box_read_frame frame = read_from frame 0 None False None"

definition box_route :: "bytes \<Rightarrow> route \<times> box_read" where
  "box_route frame =
     (let r = box_read_frame frame;
          way = (if br_readable r \<and> br_kind r = Some ''hello'' then Consume
                 else if br_readable r \<and> br_kind r = Some ''heartbeat'' then Sample HEARTBEAT_COALESCE
                 else if br_readable r \<and> br_kind r = Some ''sample'' then Sample (if br_has_info r then [] else SAMPLE_COALESCE)
                 else Edge)
      in (way, r))"

section \<open>Well-formed frames are read exactly\<close>

text \<open>The fields of a message as the wire has them.\<close>

datatype wire_field = FVarint u64 u64 | F64 u64 bytes | FLen u64 bytes | F32 u64 bytes

fun field_ok :: "wire_field \<Rightarrow> bool" where
  "field_ok (FVarint n v) \<longleftrightarrow> n < 2 ^ 29"
| "field_ok (F64 n bs) \<longleftrightarrow> n < 2 ^ 29 \<and> length bs = 8"
| "field_ok (FLen n bs) \<longleftrightarrow> n < 2 ^ 29 \<and> length bs < 2 ^ 31"
| "field_ok (F32 n bs) \<longleftrightarrow> n < 2 ^ 29 \<and> length bs = 4"

definition tag :: "u64 \<Rightarrow> u64 \<Rightarrow> u64" where
  "tag n wire = push_bit 3 n OR wire"

fun field_bytes :: "wire_field \<Rightarrow> bytes" where
  "field_bytes (FVarint n v) = varint (tag n 0) @ varint v"
| "field_bytes (F64 n bs) = varint (tag n 1) @ bs"
| "field_bytes (FLen n bs) = varint (tag n 2) @ varint (of_nat (length bs)) @ bs"
| "field_bytes (F32 n bs) = varint (tag n 5) @ bs"

text \<open>What the fields say, one after the other: of a repeated kind or time the last counts, as protobuf has it.\<close>

fun see_field :: "wire_field \<Rightarrow> box_read \<Rightarrow> box_read" where
  "see_field (FVarint n v) r = (if n = FIELD_AT_MS then r\<lparr>br_at_ms := Some v\<rparr> else r)"
| "see_field (FLen n bs) r =
     (if n = FIELD_KIND then r\<lparr>br_kind := from_utf8 bs\<rparr> else if n = FIELD_INFO then r\<lparr>br_has_info := True\<rparr> else r)"
| "see_field (F64 n bs) r = r"
| "see_field (F32 n bs) r = r"

text \<open>Where the frame codec's varint reader succeeds, this one gives the same.\<close>

lemma varint_loop_reads:
  assumes "read_varint_from n i acc buf = Inr (Some (v, k))" and "i \<le> 10"
  shows "varint_loop (take (10 - i) buf) i acc (at + i) = Some (v, at + k)"
  using assms
proof (induction n i acc buf arbitrary: at rule: read_varint_from.induct)
  case (2 n i acc b bs)
  then have i: "i < 10" by (auto simp: MAX_VARINT_BYTES_def split: if_splits)
  then obtain m where m: "10 - i = Suc m" "10 - Suc i = m" by (cases "10 - i") auto
  show ?case
  proof (cases "b AND 0x80 = 0")
    case True
    with 2(2) i m show ?thesis by (auto simp: Let_def mult.commute split: if_splits)
  next
    case False
    with 2(2) i have "read_varint_from n (i + 1) (acc OR push_bit (7 * i) (ucast (b AND 0x7f))) bs = Inr (Some (v, k))"
      by (auto simp: Let_def split: if_splits)
    with 2 False i m show ?thesis by (auto simp: Let_def mult.commute split: if_splits)
  qed
qed (auto split: if_splits)

lemma box_varint_reads: "box_varint (pre @ varint v @ post) (length pre) = Some (v, length pre + length (varint v))"
  using varint_loop_reads [of _ 0 0 "varint v @ post" v "length (varint v)" "length pre"] read_varint_varint [of v post]
  by (simp add: box_varint_def read_varint_def)

lemma bits_below:
  assumes "unat (v :: u64) < 2 ^ m" and "bit v n"
  shows "n < m"
proof (rule ccontr)
  assume "\<not> n < m"
  with assms(1) have "\<not> bit (unat v) n" by (metis bit_take_bit_iff take_bit_nat_eq_self)
  with assms(2) show False by (simp add: bit_unsigned_iff)
qed

lemma tag_parts:
  assumes "n < 2 ^ 29" and "w < 8"
  shows "drop_bit 3 (tag n w) = n" and "tag n w AND 7 = w"
proof -
  have n: "k < 29" if "bit n k" for k using bits_below [of n 29 k] assms(1) that by (simp add: word_less_nat_alt)
  have w: "k < 3" if "bit w k" for k using bits_below [of w 3 k] assms(2) that by (simp add: word_less_nat_alt)
  have m: "(7 :: u64) = mask 3" by (simp add: mask_eq_exp_minus_1)
  show "drop_bit 3 (tag n w) = n"
  proof (rule bit_word_eqI)
    fix k assume "k < LENGTH(64)"
    show "bit (drop_bit 3 (tag n w)) k = bit n k" using n [of k] w [of "3 + k"] by (auto simp: tag_def bit_simps)
  qed
  show "tag n w AND 7 = w"
  proof (rule bit_word_eqI)
    fix k assume "k < LENGTH(64)"
    show "bit (tag n w AND 7) k = bit w k" using w [of k] by (auto simp: tag_def m bit_simps)
  qed
qed

lemma box_varint_at:
  "frame = pre @ varint v @ post \<Longrightarrow> at = length pre \<Longrightarrow> box_varint frame at = Some (v, at + length (varint v))"
  using box_varint_reads by blast

lemma read_from_field:
  assumes "field_ok f" and "frame = pre @ field_bytes f @ post"
  shows "read_from frame (length pre) (br_kind r) (br_has_info r) (br_at_ms r)
    = read_from frame (length pre + length (field_bytes f)) (br_kind (see_field f r)) (br_has_info (see_field f r)) (br_at_ms (see_field f r))"
proof (cases f)
  case (FVarint n v)
  have "box_varint frame (length pre) = Some (tag n 0, length pre + length (varint (tag n 0)))"
    by (rule box_varint_at) (simp_all add: assms(2) FVarint)
  moreover have "box_varint frame (length pre + length (varint (tag n 0))) = Some (v, length pre + length (varint (tag n 0)) + length (varint v))"
    by (rule box_varint_at [of _ "pre @ varint (tag n 0)"]) (simp_all add: assms(2) FVarint)
  ultimately show ?thesis
    using assms tag_parts [of n 0] FVarint by (subst read_from.simps) (auto simp: Let_def add.assoc)
next
  case (F64 n bs)
  have "box_varint frame (length pre) = Some (tag n 1, length pre + length (varint (tag n 1)))"
    by (rule box_varint_at) (simp_all add: assms(2) F64)
  then show ?thesis using assms tag_parts [of n 1] F64 by (subst read_from.simps) (auto simp: Let_def add.assoc)
next
  case (F32 n bs)
  have "box_varint frame (length pre) = Some (tag n 5, length pre + length (varint (tag n 5)))"
    by (rule box_varint_at) (simp_all add: assms(2) F32)
  then show ?thesis using assms tag_parts [of n 5] F32 by (subst read_from.simps) (auto simp: Let_def add.assoc)
next
  case (FLen n bs)
  let ?start = "length pre + length (varint (tag n 2)) + length (varint (of_nat (length bs)))"
  have "box_varint frame (length pre) = Some (tag n 2, length pre + length (varint (tag n 2)))"
    by (rule box_varint_at) (simp_all add: assms(2) FLen)
  moreover have "box_varint frame (length pre + length (varint (tag n 2))) = Some (of_nat (length bs), ?start)"
    by (rule box_varint_at [of _ "pre @ varint (tag n 2)"]) (simp_all add: assms(2) FLen)
  moreover have "unat (of_nat (length bs) :: u64) = length bs" using assms(1) FLen by (simp add: unsigned_of_nat take_bit_nat_eq_self)
  moreover have "take (length bs) (drop ?start frame) = bs" by (simp add: assms(2) FLen)
  ultimately show ?thesis
    using assms tag_parts [of n 2] FLen by (subst read_from.simps) (auto simp: Let_def add.assoc FIELD_KIND_def FIELD_INFO_def)
qed

text \<open>A well-formed frame is read exactly: whatever fields it has, of every wire type and in any order, the walk reads the last
  kind, the last time and whether there was an info, and reports the frame readable.\<close>

theorem wellformed_frames_are_read_exactly:
  assumes "list_all field_ok fs"
  shows "box_read_frame (concat (map field_bytes fs))
    = fold see_field fs \<lparr>br_kind = None, br_has_info = False, br_at_ms = None, br_readable = True\<rparr>"
proof -
  have readable: "br_readable (see_field f r) = br_readable r" for f r by (cases f) simp_all
  have "read_from frame (length pre) (br_kind r) (br_has_info r) (br_at_ms r) = fold see_field fs r"
    if "frame = pre @ concat (map field_bytes fs)" "list_all field_ok fs" "br_readable r" for frame pre r fs
    using that
  proof (induction fs arbitrary: pre r)
    case Nil
    then show ?case by (subst read_from.simps) simp
  next
    case (Cons f fs)
    then show ?case
      using read_from_field [of f frame pre "concat (map field_bytes fs)" r] Cons.IH [of "pre @ field_bytes f" "see_field f r"]
      by (simp add: readable)
  qed
  from this [of "concat (map field_bytes fs)" "[]" fs "\<lparr>br_kind = None, br_has_info = False, br_at_ms = None, br_readable = True\<rparr>"] assms
  show ?thesis by (simp add: box_read_frame_def)
qed

text \<open>What is not understood is not lost: a frame is consumed only when it reads as a hello, and may be superseded or dropped only
  when it reads as a heartbeat or a sample; of those a sample that carries info is never superseded. Everything else,
  also what does not parse, is relayed on the lossless channel.\<close>

theorem unread_frames_are_never_lost:
  "(fst (box_route frame) = Consume \<longleftrightarrow> br_readable (box_read_frame frame) \<and> br_kind (box_read_frame frame) = Some ''hello'')
   \<and> (fst (box_route frame) = Sample SAMPLE_COALESCE \<longleftrightarrow> br_readable (box_read_frame frame)
        \<and> br_kind (box_read_frame frame) = Some ''sample'' \<and> \<not> br_has_info (box_read_frame frame))
   \<and> (\<not> br_readable (box_read_frame frame) \<longrightarrow> fst (box_route frame) = Edge)"
  by (auto simp: box_route_def Let_def SAMPLE_COALESCE_def HEARTBEAT_COALESCE_def)

end
