(* ===== verification/Http.thy ===== *)
theory Http
  imports Box
begin

text \<open>
  Just enough HTTP to read one streaming response, \<open>crates/connector/src/http.rs\<close>, and how \<open>crates/connector/src/events.rs\<close> feeds what it
  reads through the chunked decoder into the frame reader. Reads from the socket are arguments. After an error
  the connection is dropped, so the state a failed push leaves behind is not modelled.
\<close>

section \<open>Heads\<close>

definition MAX_HEAD_BYTES :: nat where "MAX_HEAD_BYTES = 16 * 2 ^ 10"
definition MAX_HEADERS :: nat where "MAX_HEADERS = 64"
definition MAX_CHUNK_BYTES :: nat where "MAX_CHUNK_BYTES = 4 * 2 ^ 20"

datatype http_error = HttpMalformed string | HttpTooLarge string | HttpStatus nat

abbreviation CR :: u8 where "CR \<equiv> 13"
abbreviation LF :: u8 where "LF \<equiv> 10"

definition CRLF :: bytes where "CRLF = [CR, LF]"

text \<open>\<open>find\<close>: the position of the first window equal to the needle.\<close>

fun find_sub :: "bytes \<Rightarrow> bytes \<Rightarrow> nat option" where
  "find_sub [] needle = None"
| "find_sub (b # bs) needle = (if take (length needle) (b # bs) = needle then Some 0 else map_option Suc (find_sub bs needle))"

record response_head =
  hd_status :: nat
  hd_content_type :: string
  hd_chunked :: bool
  hd_content_length :: "nat option"

definition to_lower :: "char \<Rightarrow> char" where
  "to_lower c = (let n = of_char c :: nat in if 65 \<le> n \<and> n \<le> 90 then char_of (n + 32) else c)"

definition lower :: "string \<Rightarrow> string" where
  "lower s = map to_lower s"

text \<open>\<open>str::split\<close> on a carriage return and line feed.\<close>

fun split_crlf :: "string \<Rightarrow> string list" where
  "split_crlf [] = [[]]"
| "split_crlf [c] = [[c]]"
| "split_crlf (c # d # s) =
     (if c = CHR 13 \<and> d = CHR 10 then [] # split_crlf s
      else case split_crlf (d # s) of [] \<Rightarrow> [[c]] | p # ps \<Rightarrow> (c # p) # ps)"

definition status_of :: "string \<Rightarrow> http_error + nat" where
  "status_of line =
     (let parts = split_on CHR '' '' line in
      if take 7 (hd parts) \<noteq> ''HTTP/1.'' then Inl (HttpMalformed ''status line: not HTTP/1.x'')
      else or_err (parse_nat (2 ^ 16 - 1) (case tl parts of [] \<Rightarrow> [] | p # _ \<Rightarrow> p)) (HttpMalformed ''status line: code''))"

text \<open>The loop over the headers, with the number of the header.\<close>

fun read_headers :: "nat \<Rightarrow> string list \<Rightarrow> response_head \<Rightarrow> http_error + response_head" where
  "read_headers n [] out = Inr out"
| "read_headers n (line # lines) out =
     (if n \<ge> MAX_HEADERS then Inl (HttpTooLarge ''the header count'')
      else case split_once CHR '':'' line of
        None \<Rightarrow> Inl (HttpMalformed ''a header without a colon'')
      | Some (k, v) \<Rightarrow>
          let name = lower (trim k); val = trim v in
          if name = ''content-type'' then read_headers (n + 1) lines (out\<lparr>hd_content_type := val\<rparr>)
          else if name = ''transfer-encoding'' then
            read_headers (n + 1) lines (out\<lparr>hd_chunked := list_ex (\<lambda>e. trim e = ''chunked'') (split_on CHR '','' (lower val))\<rparr>)
          else if name = ''content-length'' then
            and_then (or_err (parse_nat (2 ^ 64 - 1) val) (HttpMalformed ''content-length''))
              (\<lambda>m. read_headers (n + 1) lines (out\<lparr>hd_content_length := Some m\<rparr>))
          else read_headers (n + 1) lines out)"

definition head_parse :: "bytes \<Rightarrow> http_error + (response_head \<times> nat) option" where
  "head_parse buf =
     (case find_sub buf (CRLF @ CRLF) of
        None \<Rightarrow> if length buf > MAX_HEAD_BYTES then Inl (HttpTooLarge ''the response head'') else Inr None
      | Some stop \<Rightarrow>
          if stop + 4 > MAX_HEAD_BYTES then Inl (HttpTooLarge ''the response head'')
          else and_then (or_err (from_utf8 (take stop buf)) (HttpMalformed ''head: not text'')) (\<lambda>head.
               let lines = split_crlf head in
               and_then (status_of (hd lines)) (\<lambda>status.
               and_then (read_headers 0 (tl lines) \<lparr>hd_status = status, hd_content_type = [], hd_chunked = False, hd_content_length = None\<rparr>) (\<lambda>out.
               Inr (Some (out, stop + 4))))))"

definition is_protobuf :: "response_head \<Rightarrow> bool" where
  "is_protobuf h \<longleftrightarrow> lower (trim (hd (split_on CHR '';'' (hd_content_type h)))) = ''application/protobuf''"

section \<open>Chunked bodies\<close>

record chunked =
  ch_buf :: bytes
  ch_left :: nat
  ch_done :: bool

definition chunked_default :: chunked where
  "chunked_default = \<lparr>ch_buf = [], ch_left = 0, ch_done = False\<rparr>"

text \<open>\<open>usize::from_str_radix\<close> with radix 16: an optional plus, then digits.\<close>

definition parse_hex :: "string \<Rightarrow> nat option" where
  "parse_hex s =
     (let ds = (if take 1 s = ''+'' then drop 1 s else s) in
      case read_digits 16 (length ds) (2 ^ 64 - 1) 0 0 ds of
        Some (n, acc, rest) \<Rightarrow> if n > 0 \<and> rest = [] then Some acc else None
      | None \<Rightarrow> None)"

definition size_line :: "bytes \<Rightarrow> http_error + nat" where
  "size_line line =
     and_then (or_err (from_utf8 line) (HttpMalformed ''a chunk size line'')) (\<lambda>t.
     and_then (or_err (parse_hex (trim (hd (split_on CHR '';'' t)))) (HttpMalformed ''a chunk size'')) (\<lambda>size.
     if size > MAX_CHUNK_BYTES then Inl (HttpTooLarge ''a chunk'') else Inr size))"

function chunk_loop :: "bytes \<Rightarrow> nat \<Rightarrow> bytes \<Rightarrow> http_error + bytes \<times> nat \<times> bool \<times> bytes" where
  "chunk_loop buf left out =
     (if left > 0 then
        (if left > length buf then Inr ([], left - length buf, False, out @ buf)
         else chunk_loop (drop left buf) 0 (out @ take left buf))
      else if take 2 buf = CRLF then chunk_loop (drop 2 buf) 0 out
      else case find_sub buf CRLF of
        None \<Rightarrow> if length buf > 64 then Inl (HttpMalformed ''a chunk size line'') else Inr (buf, 0, False, out)
      | Some stop \<Rightarrow>
          and_then (size_line (take stop buf)) (\<lambda>size.
            if size = 0 then Inr (drop (stop + 2) buf, 0, True, out) else chunk_loop (drop (stop + 2) buf) size out))"
  by pat_completeness auto

lemma find_sub_bound: "find_sub buf needle = Some i \<Longrightarrow> needle \<noteq> [] \<Longrightarrow> i + length needle \<le> length buf"
proof (induction buf arbitrary: i)
  case (Cons b buf)
  show ?case
  proof (cases "take (length needle) (b # buf) = needle")
    case True
    then have "length needle \<le> length (b # buf)" by (metis length_take min.cobounded1)
    with Cons.prems True show ?thesis by simp
  next
    case False
    with Cons show ?thesis by auto
  qed
qed simp

termination chunk_loop
proof (relation "measure (\<lambda>(buf, left, out). length buf)", goal_cases)
  case (3 buf left out)
  then have "length buf \<ge> 2" by (auto simp: CRLF_def dest: arg_cong [of _ _ length])
  then show ?case by simp
next
  case (4 buf left out stop size)
  then show ?case using find_sub_bound [of buf CRLF stop] by (simp add: CRLF_def)
qed auto

declare chunk_loop.simps [simp del]

definition chunked_push :: "bytes \<Rightarrow> chunked \<Rightarrow> http_error + chunked \<times> bytes" where
  "chunked_push bs c =
     (if ch_done c then Inr (c, [])
      else and_then (chunk_loop (ch_buf c @ bs) (ch_left c) []) (\<lambda>(buf, left, finished, out).
             Inr (\<lparr>ch_buf = buf, ch_left = left, ch_done = finished\<rparr>, out)))"

section \<open>Where to read from\<close>

record target =
  tg_host :: string
  tg_port :: nat
  tg_path :: string

definition target_parse :: "string \<Rightarrow> http_error + target" where
  "target_parse url =
     and_then (or_err (strip_prefix ''http://'' url) (HttpMalformed ''a url that is not http://'')) (\<lambda>rest.
     let (authority, path) = (case split_once CHR ''/'' rest of Some (a, p) \<Rightarrow> (a, CHR ''/'' # p) | None \<Rightarrow> (rest, ''/'')) in
     if authority = [] then Inl (HttpMalformed ''a url without a host'')
     else and_then (case rsplit_once CHR '':'' authority of
            Some (h, p) \<Rightarrow> and_then (or_err (parse_nat (2 ^ 16 - 1) p) (HttpMalformed ''a url with a bad port'')) (\<lambda>n. Inr (h, n))
          | None \<Rightarrow> Inr (authority, 80)) (\<lambda>(h, n).
          Inr \<lparr>tg_host = h, tg_port = n, tg_path = path\<rparr>))"

definition NEWLINE :: string where "NEWLINE = [CHR 13, CHR 10]"

definition target_request :: "nat option \<Rightarrow> target \<Rightarrow> string" where
  "target_request since_ms t =
     (let query = (case since_ms of
                     None \<Rightarrow> []
                   | Some ms \<Rightarrow> (if CHR ''?'' \<in> set (tg_path t) then ''&since='' else ''?since='') @ show_nat ms)
      in ''GET '' @ tg_path t @ query @ '' HTTP/1.1'' @ NEWLINE @ ''Host: '' @ tg_host t @ '':'' @ show_nat (tg_port t) @ NEWLINE
         @ ''Accept: application/protobuf'' @ NEWLINE @ ''Accept-Encoding: identity'' @ NEWLINE @ ''User-Agent: wmlhub-connector'' @ NEWLINE @ NEWLINE)"

section \<open>How the reads fall does not matter\<close>

lemma take_eq_length: "take (length n) xs = n \<Longrightarrow> length n \<le> length xs"
  by (metis length_take min.cobounded1)

lemma find_sub_append: "find_sub buf n = Some i \<Longrightarrow> n \<noteq> [] \<Longrightarrow> find_sub (buf @ m) n = Some i"
proof (induction buf arbitrary: i)
  case (Cons b buf)
  show ?case
  proof (cases "take (length n) (b # buf) = n")
    case True
    with take_eq_length [OF True] Cons.prems(1) show ?thesis by (simp add: take_Cons' split: if_splits)
  next
    case False
    with Cons.prems(1) obtain j where j: "find_sub buf n = Some j" "i = Suc j" by auto
    have "length n \<le> length buf" using find_sub_bound [OF j(1) Cons.prems(2)] by simp
    then have "take (length n) (b # buf @ m) = take (length n) (b # buf)" by (simp add: take_Cons')
    with False Cons.IH [OF j(1) Cons.prems(2)] j(2) show ?thesis by simp
  qed
qed simp

text \<open>The branches of the loop.\<close>

lemma chunk_loop_cases:
  "left > length buf \<Longrightarrow> chunk_loop buf left out = Inr ([], left - length buf, False, out @ buf)"
  "0 < left \<Longrightarrow> left \<le> length buf \<Longrightarrow> chunk_loop buf left out = chunk_loop (drop left buf) 0 (out @ take left buf)"
  "take 2 buf = CRLF \<Longrightarrow> chunk_loop buf 0 out = chunk_loop (drop 2 buf) 0 out"
  "take 2 buf \<noteq> CRLF \<Longrightarrow> find_sub buf CRLF = None \<Longrightarrow>
     chunk_loop buf 0 out = (if length buf > 64 then Inl (HttpMalformed ''a chunk size line'') else Inr (buf, 0, False, out))"
  "take 2 buf \<noteq> CRLF \<Longrightarrow> find_sub buf CRLF = Some stop \<Longrightarrow>
     chunk_loop buf 0 out = and_then (size_line (take stop buf)) (\<lambda>size.
       if size = 0 then Inr (drop (stop + 2) buf, 0, True, out) else chunk_loop (drop (stop + 2) buf) size out)"
  by (subst chunk_loop.simps, simp)+

lemma chunk_loop_consider:
  obtains (short) "left > length buf" | (full) "0 < left" "left \<le> length buf" | (skip) "left = 0" "take 2 buf = CRLF"
    | (wait) "left = 0" "take 2 buf \<noteq> CRLF" "find_sub buf CRLF = None"
    | (line) stop where "left = 0" "take 2 buf \<noteq> CRLF" "find_sub buf CRLF = Some stop"
  by (cases "find_sub buf CRLF") force+

text \<open>The output is only ever added to.\<close>

lemma chunk_loop_out:
  "chunk_loop buf left (pre @ out) = (case chunk_loop buf left out of Inl e \<Rightarrow> Inl e | Inr (b, l, f, r) \<Rightarrow> Inr (b, l, f, pre @ r))"
proof (induction buf left out rule: chunk_loop.induct)
  case (1 buf left out)
  show ?case
  proof (cases buf left rule: chunk_loop_consider)
    case (line stop)
    then show ?thesis using 1(3) by (cases "size_line (take stop buf)") (auto simp: chunk_loop_cases(5))
  qed (use 1 in \<open>auto simp: chunk_loop_cases\<close>)
qed

text \<open>A loop that stopped for want of bytes goes on, when they come, as if they had been there.\<close>

lemma chunk_loop_append:
  "chunk_loop buf left out = Inr (b, l, f, r) \<Longrightarrow>
     chunk_loop (buf @ m) left out = (if f then Inr (b @ m, 0, True, r) else chunk_loop (b @ m) l r)"
proof (induction buf left out arbitrary: b l f r rule: chunk_loop.induct)
  case (1 buf left out)
  show ?case
  proof (cases buf left rule: chunk_loop_consider)
    case short
    with 1(4) have r: "b = []" "l = left - length buf" "f = False" "r = out @ buf" by (simp_all add: chunk_loop_cases(1))
    show ?thesis
    proof (cases "left > length (buf @ m)")
      case True
      then show ?thesis using short r by (simp add: chunk_loop_cases(1))
    next
      case False
      then show ?thesis using short r chunk_loop_cases(2) [of "left - length buf" m "out @ buf"] by (simp add: chunk_loop_cases(2))
    qed
  next
    case full
    with 1(4) have "chunk_loop (drop left buf) 0 (out @ take left buf) = Inr (b, l, f, r)" by (simp add: chunk_loop_cases(2))
    from 1(1) [OF _ _ this] full show ?thesis by (simp add: chunk_loop_cases(2))
  next
    case skip
    with 1(4) have "chunk_loop (drop 2 buf) 0 out = Inr (b, l, f, r)" by (simp add: chunk_loop_cases(3))
    moreover have "2 \<le> length buf" using arg_cong [OF skip(2), of length] by (simp add: CRLF_def)
    then have "take 2 (buf @ m) = CRLF" "drop 2 (buf @ m) = drop 2 buf @ m" using skip(2) by simp_all
    ultimately show ?thesis using 1(2) skip by (simp add: chunk_loop_cases(3))
  next
    case wait
    with 1(4) show ?thesis by (auto simp: chunk_loop_cases(4) split: if_splits)
  next
    case (line stop)
    have two: "2 \<le> length buf" and stop: "stop + 2 \<le> length buf" using find_sub_bound [OF line(3)] by (simp_all add: CRLF_def)
    have same: "take 2 (buf @ m) \<noteq> CRLF" "find_sub (buf @ m) CRLF = Some stop" "take stop (buf @ m) = take stop buf"
      "drop (stop + 2) (buf @ m) = drop (stop + 2) buf @ m"
      using line two stop find_sub_append [OF line(3), of m] by (simp_all add: CRLF_def)
    obtain size where size: "size_line (take stop buf) = Inr size" using 1(4) line by (auto simp: chunk_loop_cases(5) result_ok)
    have eq: "chunk_loop (buf @ m) 0 out = and_then (size_line (take stop buf)) (\<lambda>size.
        if size = 0 then Inr (drop (stop + 2) buf @ m, 0, True, out) else chunk_loop (drop (stop + 2) buf @ m) size out)"
      using chunk_loop_cases(5) [OF same(1,2), of out] by (simp only: same(3,4))
    show ?thesis
    proof (cases "size = 0")
      case True
      with 1(4) line size eq show ?thesis by (auto simp: chunk_loop_cases(5))
    next
      case False
      with 1(4) line size have "chunk_loop (drop (stop + 2) buf) size out = Inr (b, l, f, r)" by (simp add: chunk_loop_cases(5))
      from 1(3) [OF _ line(2,3) False this] line size eq False show ?thesis by simp
    qed
  qed
qed

text \<open>Reading a body in pieces.\<close>

fun push_all :: "bytes list \<Rightarrow> chunked \<Rightarrow> http_error + chunked \<times> bytes" where
  "push_all [] c = Inr (c, [])"
| "push_all (p # ps) c = and_then (chunked_push p c) (\<lambda>(c1, out1). and_then (push_all ps c1) (\<lambda>(c2, out2). Inr (c2, out1 @ out2)))"

lemma push_all_done: "ch_done c \<Longrightarrow> push_all ps c = Inr (c, [])"
  by (induction ps) (simp_all add: chunked_push_def)

lemma push_all_loop:
  assumes "push_all ps c = Inr (c', out)" and "\<not> ch_done c"
  shows "\<exists>b l. chunk_loop (ch_buf c @ concat ps) (ch_left c) [] = Inr (b, l, ch_done c', out)
    \<or> ps = [] \<and> c' = c \<and> out = []"
  using assms
proof (induction ps arbitrary: c out)
  case (Cons p ps)
  obtain b l f r where loop: "chunk_loop (ch_buf c @ p) (ch_left c) [] = Inr (b, l, f, r)"
    and c1: "chunked_push p c = Inr (\<lparr>ch_buf = b, ch_left = l, ch_done = f\<rparr>, r)"
    using Cons.prems by (auto simp: chunked_push_def result_ok)
  obtain out2 where rest: "push_all ps \<lparr>ch_buf = b, ch_left = l, ch_done = f\<rparr> = Inr (c', out2)" "out = r @ out2"
    using Cons.prems(1) c1 by (auto simp: result_ok)
  note A = chunk_loop_append [OF loop, of "concat ps"]
  show ?case
  proof (cases f)
    case True
    with rest push_all_done [of "\<lparr>ch_buf = b, ch_left = l, ch_done = f\<rparr>" ps] A show ?thesis by auto
  next
    case False
    show ?thesis
    proof (cases "ps = []")
      case True
      with rest False loop show ?thesis by auto
    next
      case ne: False
      from Cons.IH [OF rest(1)] False ne obtain b2 l2 where
        "chunk_loop (b @ concat ps) l [] = Inr (b2, l2, ch_done c', out2)" by auto
      with A False rest(2) chunk_loop_out [of "b @ concat ps" l r "[]"] show ?thesis by auto
    qed
  qed
qed simp

text \<open>How the reads fall never changes a body. Whenever a body read in pieces is accepted, it is accepted when it is read whole, as the
  same bytes and with the same word on whether it is complete: a split turns no refusal into an acceptance.\<close>

theorem splits_accept_what_one_read_does:
  assumes "push_all ps chunked_default = Inr (c, out)"
  shows "\<exists>c'. chunked_push (concat ps) chunked_default = Inr (c', out) \<and> ch_done c' = ch_done c"
proof -
  have "chunk_loop [] 0 [] = Inr ([], 0, False, [])" using chunk_loop_cases(4) [of "[]" "[]"] by (simp add: CRLF_def)
  then show ?thesis
    using push_all_loop [OF assms] by (cases "ps = []") (auto simp: chunked_default_def chunked_push_def)
qed

section \<open>What is chunked is read\<close>

fun show_hex :: "nat \<Rightarrow> string" where
  "show_hex n = (if n < 16 then [hex_digit n] else show_hex (n div 16) @ [hex_digit (n mod 16)])"

declare show_hex.simps [simp del]

definition chunk_bytes :: "bytes \<Rightarrow> bytes" where
  "chunk_bytes d = ascii (show_hex (length d)) @ CRLF @ d @ CRLF"

definition body_bytes :: "bytes list \<Rightarrow> bytes" where
  "body_bytes ds = concat (map chunk_bytes ds) @ ascii (show_hex 0) @ CRLF @ CRLF"

lemma read_digits_show_hex:
  assumes "acc * 16 ^ length (show_hex n) + n \<le> lim" and "k + length (show_hex n) \<le> m"
  shows "read_digits 16 m lim k acc (show_hex n @ r) = read_digits 16 m lim (k + length (show_hex n)) (acc * 16 ^ length (show_hex n) + n) r"
  using assms
proof (induction n arbitrary: k acc r rule: show_hex.induct)
  case (1 n)
  show ?case
  proof (cases "n < 16")
    case True
    with 1(2,3) show ?thesis by (simp add: show_hex.simps [of n] to_digit_hex)
  next
    case False
    let ?q = "n div 16" and ?s = "length (show_hex (n div 16))"
    have s: "show_hex n = show_hex ?q @ [hex_digit (n mod 16)]" using False by (simp add: show_hex.simps [of n])
    have n: "(acc * 16 ^ ?s + ?q) * 16 + n mod 16 = acc * 16 ^ length (show_hex n) + n" by (simp add: s algebra_simps)
    have "acc * 16 ^ ?s + ?q \<le> (acc * 16 ^ ?s + ?q) * 16 + n mod 16" by simp
    then have "acc * 16 ^ ?s + ?q \<le> lim" using 1(2) unfolding n by (rule le_trans)
    moreover have "k + ?s \<le> m" using 1(3) s by simp
    ultimately have "read_digits 16 m lim k acc (show_hex n @ r) = read_digits 16 m lim (k + ?s) (acc * 16 ^ ?s + ?q) (hex_digit (n mod 16) # r)"
      using 1(1) [OF False, of acc k "hex_digit (n mod 16) # r"] s by simp
    then show ?thesis using 1(2,3) n s by (simp add: to_digit_hex algebra_simps)
  qed
qed

lemma show_hex_digits: "list_all is_ascii_hexdigit (show_hex n) \<and> show_hex n \<noteq> []"
proof (induction n rule: show_hex.induct)
  case (1 n)
  then show ?case by (cases "n < 16") (simp_all add: show_hex.simps [of n] is_ascii_hexdigit_def to_digit_hex)
qed

lemma length_show_hex: "n < 16 ^ k \<Longrightarrow> 0 < k \<Longrightarrow> length (show_hex n) \<le> k"
proof (induction n arbitrary: k rule: show_hex.induct)
  case (1 n)
  show ?case
  proof (cases "n < 16")
    case False
    with 1(2,3) obtain j where j: "k = Suc j" "0 < j" by (cases k; cases "k - 1") auto
    with 1(2) have "n div 16 < 16 ^ j" by (simp add: div_less_iff_less_mult mult.commute)
    with 1(1) [OF False this j(2)] False j show ?thesis by (simp add: show_hex.simps [of n])
  qed (use 1(3) in \<open>simp add: show_hex.simps [of n]\<close>)
qed

lemma size_line_show:
  assumes "n \<le> MAX_CHUNK_BYTES"
  shows "size_line (ascii (show_hex n)) = Inr n"
proof -
  have d: "list_all is_ascii_hexdigit (show_hex n)" "show_hex n \<noteq> []" using show_hex_digits by simp_all
  have "CHR '';'' \<notin> set (show_hex n)" "hd (show_hex n) \<noteq> CHR ''+''"
    using d hexdigit_char by (auto simp: list_all_iff)
  then have "hd (split_on CHR '';'' (show_hex n)) = show_hex n" "take 1 (show_hex n) \<noteq> ''+''"
    using d(2) by (simp_all add: split_on_none) (cases "show_hex n", simp_all)
  moreover have "n \<le> 2 ^ 64 - 1" using assms by (simp add: MAX_CHUNK_BYTES_def)
  then have "read_digits 16 (length (show_hex n)) (2 ^ 64 - 1) 0 0 (show_hex n) = Some (length (show_hex n), n, [])"
    using read_digits_show_hex [of 0 n "2 ^ 64 - 1" 0 "length (show_hex n)" "[]"] by simp
  ultimately show ?thesis using d assms by (simp add: size_line_def from_utf8_ascii trim_hexdigits parse_hex_def)
qed

lemma ascii_no_crlf: "list_all is_ascii_hexdigit s \<Longrightarrow> b \<in> set (ascii s) \<Longrightarrow> b \<noteq> CR \<and> b \<noteq> LF"
proof -
  assume s: "list_all is_ascii_hexdigit s" and b: "b \<in> set (ascii s)"
  then obtain c where c: "b = of_nat (of_char c)" "is_ascii_hexdigit c" by (auto simp: ascii_def list_all_iff)
  then have "unat b \<noteq> 13" "unat b \<noteq> 10" using hexdigit_char [of c] by (simp_all add: u8_of_char)
  then show ?thesis by auto
qed

lemma find_crlf_none: "LF \<notin> set p \<Longrightarrow> find_sub p CRLF = None"
proof (induction p)
  case (Cons b p)
  then show ?case by (cases p) (auto simp: CRLF_def)
qed simp

lemma find_crlf: "CR \<notin> set p \<Longrightarrow> find_sub (p @ CRLF @ r) CRLF = Some (length p)"
  by (induction p) (auto simp: CRLF_def)

text \<open>One chunk, from its size line on.\<close>

lemma chunk_loop_chunk:
  assumes "list_all is_ascii_hexdigit s" and "s \<noteq> []" and "size_line (ascii s) = Inr n"
  shows "chunk_loop (ascii s @ CRLF @ r) 0 out = (if n = 0 then Inr (r, 0, True, out) else chunk_loop r n out)"
proof -
  have cr: "CR \<notin> set (ascii s)" using ascii_no_crlf [OF assms(1)] by blast
  have "take 2 (ascii s @ CRLF @ r) \<noteq> CRLF" using assms(2) cr by (cases s; cases "tl s") (auto simp: ascii_def CRLF_def)
  from chunk_loop_cases(5) [OF this find_crlf [OF cr]] assms(3) show ?thesis by (simp add: CRLF_def)
qed

lemma chunk_loop_prefix_line:
  assumes "list_all is_ascii_hexdigit s" and "length s < 60" and "k \<le> length s + 1"
  shows "chunk_loop (take k (ascii s @ CRLF @ r)) 0 out = Inr (take k (ascii s @ CRLF @ r), 0, False, out)"
proof -
  let ?p = "take k (ascii s @ CRLF @ r)"
  have p: "?p = take k (ascii s @ [CR])" using assms(3) by (auto simp: CRLF_def ascii_def take_Cons' split: if_splits)
  have lf: "LF \<notin> set ?p" unfolding p using ascii_no_crlf [OF assms(1)] by (auto dest!: in_set_takeD)
  have "take 2 ?p \<noteq> CRLF"
  proof
    assume "take 2 ?p = CRLF"
    then have "LF \<in> set (take 2 ?p)" by (simp add: CRLF_def)
    with lf show False by (meson in_set_takeD)
  qed
  moreover have "length ?p \<le> 64" unfolding p using assms(2) by (simp add: ascii_def)
  ultimately show ?thesis using chunk_loop_cases(4) [OF _ find_crlf_none [OF lf]] by simp
qed

definition chunk_ok :: "bytes \<Rightarrow> bool" where
  "chunk_ok d \<longleftrightarrow> 0 < length d \<and> length d \<le> MAX_CHUNK_BYTES"

lemma body_bytes_simps:
  "body_bytes [] = ascii (show_hex 0) @ CRLF @ CRLF"
  "body_bytes (d # ds) = ascii (show_hex (length d)) @ CRLF @ d @ CRLF @ body_bytes ds"
  by (simp_all add: body_bytes_def chunk_bytes_def)

lemma chunk_loop_data:
  assumes "chunk_ok d"
  shows "chunk_loop (ascii (show_hex (length d)) @ CRLF @ r) 0 out = chunk_loop r (length d) out"
    and "chunk_loop (d @ CRLF @ r) (length d) out = chunk_loop r 0 (out @ d)"
proof -
  show "chunk_loop (ascii (show_hex (length d)) @ CRLF @ r) 0 out = chunk_loop r (length d) out"
    using chunk_loop_chunk [of "show_hex (length d)" "length d" r out] show_hex_digits size_line_show [of "length d"] assms
    by (simp add: chunk_ok_def)
  show "chunk_loop (d @ CRLF @ r) (length d) out = chunk_loop r 0 (out @ d)"
    using chunk_loop_cases(2) [of "length d" "d @ CRLF @ r" out] chunk_loop_cases(3) [of "CRLF @ r" "out @ d"] assms
    by (simp add: chunk_ok_def CRLF_def)
qed

lemma chunk_loop_last: "chunk_loop (ascii (show_hex 0) @ CRLF @ r) 0 out = Inr (r, 0, True, out)"
  using chunk_loop_chunk [of "show_hex 0" 0 r out] show_hex_digits size_line_show [of 0] by simp

lemma body_whole: "list_all chunk_ok ds \<Longrightarrow> chunk_loop (body_bytes ds) 0 out = Inr (CRLF, 0, True, out @ concat ds)"
  by (induction ds arbitrary: out) (simp_all add: body_bytes_simps chunk_loop_last chunk_loop_data)

lemma chunk_sizes_short: "n \<le> MAX_CHUNK_BYTES \<Longrightarrow> length (show_hex n) < 60"
  using length_show_hex [of n 6] by (simp add: MAX_CHUNK_BYTES_def)

lemma body_prefix: "list_all chunk_ok ds \<Longrightarrow> \<exists>x. chunk_loop (take k (body_bytes ds)) 0 out = Inr x"
proof (induction ds arbitrary: k out)
  case Nil
  let ?s = "show_hex 0"
  show ?case
  proof (cases "k \<le> length ?s + 1")
    case True
    then show ?thesis
      using chunk_loop_prefix_line [of ?s k CRLF out] show_hex_digits chunk_sizes_short [of 0] by (auto simp: body_bytes_simps)
  next
    case False
    then have "take k (body_bytes []) = ascii ?s @ CRLF @ take (k - length ?s - 2) CRLF"
      by (simp add: body_bytes_simps ascii_def) (simp add: CRLF_def take_Cons')
    then show ?thesis using chunk_loop_last by auto
  qed
next
  case (Cons d ds)
  let ?s = "show_hex (length d)" and ?r = "d @ CRLF @ body_bytes ds"
  have d: "chunk_ok d" and ds: "list_all chunk_ok ds" using Cons.prems by simp_all
  have len: "length (ascii ?s) = length ?s" by (simp add: ascii_def)
  show ?case
  proof (cases "k \<le> length ?s + 1")
    case True
    then show ?thesis
      using chunk_loop_prefix_line [of ?s k ?r out] show_hex_digits chunk_sizes_short [of "length d"] d
      by (auto simp: body_bytes_simps chunk_ok_def)
  next
    case False
    define j where "j = k - length ?s - 2"
    have "take k (body_bytes (d # ds)) = ascii ?s @ CRLF @ take j ?r"
      using False len by (simp add: body_bytes_simps j_def) (simp add: CRLF_def take_Cons')
    then have eq: "chunk_loop (take k (body_bytes (d # ds))) 0 out = chunk_loop (take j ?r) (length d) out"
      using chunk_loop_data(1) [OF d] by simp
    consider "j < length d" | "length d \<le> j" "j < length d + 2" | "length d + 2 \<le> j" by linarith
    then show ?thesis
    proof cases
      case 1
      then show ?thesis using eq chunk_loop_cases(1) [of "take j ?r" "length d" out] by auto
    next
      case 2
      then have t: "take j ?r = d @ take (j - length d) [CR]" by (auto simp: CRLF_def take_Cons')
      have "chunk_loop (take j ?r) (length d) out = chunk_loop (take (j - length d) [CR]) 0 (out @ d)"
        using chunk_loop_cases(2) [of "length d" "take j ?r" out] d unfolding t by (simp add: chunk_ok_def)
      moreover have "\<exists>x. chunk_loop (take i [CR]) 0 w = Inr x" for i w
        using chunk_loop_cases(4) [of "take i [CR]" w] find_crlf_none [of "take i [CR]"] by (cases i) (auto simp: CRLF_def)
      ultimately show ?thesis using eq by simp
    next
      case 3
      then have "take j ?r = d @ CRLF @ take (j - length d - 2) (body_bytes ds)" by (simp add: CRLF_def take_Cons')
      then show ?thesis using eq chunk_loop_data(2) [OF d] Cons.IH [OF ds] by simp
    qed
  qed
qed

text \<open>When no prefix is refused, no sequence of pieces is.\<close>

lemma push_all_total:
  assumes "\<And>k. \<exists>x. chunk_loop (pre @ take k (concat ps)) 0 [] = Inr x"
    and "chunk_loop pre 0 [] = Inr (ch_buf c, ch_left c, ch_done c, o0)"
  shows "\<exists>c' out. push_all ps c = Inr (c', out)"
  using assms
proof (induction ps arbitrary: pre c o0)
  case (Cons p ps)
  show ?case
  proof (cases "ch_done c")
    case True
    then show ?thesis by (auto simp: push_all_done simp del: push_all.simps)
  next
    case False
    obtain b l f r where x: "chunk_loop (pre @ p) 0 [] = Inr (b, l, f, r)" using Cons.prems(1) [of "length p"] by force
    have "chunk_loop (ch_buf c @ p) (ch_left c) o0 = Inr (b, l, f, r)"
      using chunk_loop_append [OF Cons.prems(2), of p] False x by simp
    then obtain r1 where "chunk_loop (ch_buf c @ p) (ch_left c) [] = Inr (b, l, f, r1)"
      using chunk_loop_out [of "ch_buf c @ p" "ch_left c" o0 "[]"] by (auto split: sum.splits)
    then have push: "chunked_push p c = Inr (\<lparr>ch_buf = b, ch_left = l, ch_done = f\<rparr>, r1)" using False by (simp add: chunked_push_def)
    have "\<exists>y. chunk_loop ((pre @ p) @ take k (concat ps)) 0 [] = Inr y" for k using Cons.prems(1) [of "length p + k"] by simp
    then obtain c' out where "push_all ps \<lparr>ch_buf = b, ch_left = l, ch_done = f\<rparr> = Inr (c', out)"
      using Cons.IH [of "pre @ p" "\<lparr>ch_buf = b, ch_left = l, ch_done = f\<rparr>" r] x by auto
    then show ?thesis using push by auto
  qed
qed simp

text \<open>A chunked body is read however the reads fall: of any chunks within the limit, encoded and cut into pieces anywhere, the decoder yields
  exactly the bytes that went in and knows that the body is complete.\<close>

theorem chunked_bodies_survive_every_cut:
  assumes "list_all chunk_ok ds" and "concat ps = body_bytes ds"
  shows "\<exists>c. push_all ps chunked_default = Inr (c, concat ds) \<and> ch_done c"
proof -
  have start: "chunk_loop [] 0 [] = Inr ([], 0, False, [])" using chunk_loop_cases(4) [of "[]" "[]"] by (simp add: CRLF_def)
  obtain c out where p: "push_all ps chunked_default = Inr (c, out)"
    using push_all_total [of "[]" ps chunked_default "[]"] body_prefix [OF assms(1)] start assms(2) by (auto simp: chunked_default_def)
  have ne: "ps \<noteq> []" using assms(2) by (cases ds) (auto simp: body_bytes_simps CRLF_def)
  from push_all_loop [OF p] ne body_whole [OF assms(1), of "[]"] assms(2) have "out = concat ds \<and> ch_done c" by (auto simp: chunked_default_def)
  with p show ?thesis by simp
qed

definition long_line :: bytes where
  "long_line = ascii ''1;'' @ replicate 70 97"

lemma long_line_bytes: "long_line = 49 # 59 # replicate 70 97"
  by (simp add: long_line_def ascii_def)

lemma long_line_size: "size_line long_line = Inr 1"
proof -
  have "utf8_valid long_line" unfolding long_line_bytes by (rule utf8_ascii) auto
  then have "from_utf8 long_line = Some (CHR ''1'' # CHR '';'' # replicate 70 CHR ''a'')"
    unfolding from_utf8_def long_line_bytes by (simp add: char_of_def bit_0 del: replicate_Suc)
  moreover have "hd (split_on CHR '';'' (CHR ''1'' # CHR '';'' # t)) = ''1''" for t by simp
  moreover have "parse_hex (trim ''1'') = Some 1" by (simp add: trim_def is_space_def parse_hex_def to_digit_def)
  ultimately show ?thesis by (simp add: size_line_def MAX_CHUNK_BYTES_def del: split_on.simps replicate_Suc)
qed

text \<open>The exception is a size line past 64 bytes, which a chunk extension can make: read whole it is accepted, and cut before its end it is
  refused.\<close>

theorem long_size_lines_depend_on_the_reads:
  "\<not> isl (chunked_push (long_line @ CRLF) chunked_default) \<and> isl (push_all [long_line, CRLF] chunked_default)"
proof -
  have cr: "CR \<notin> set long_line" and lf: "LF \<notin> set long_line" and two: "take 2 (long_line @ m) \<noteq> CRLF" for m
    by (auto simp: long_line_bytes CRLF_def)
  have "chunk_loop (long_line @ CRLF) 0 [] = Inr ([], 1, False, [])"
    using chunk_loop_cases(5) [OF two find_crlf [OF cr, of "[]", simplified]] long_line_size chunk_loop_cases(1) [of "[]" 1 "[]"] by (simp add: CRLF_def)
  moreover have "isl (chunk_loop long_line 0 [])"
    using chunk_loop_cases(4) [OF two [of "[]", simplified] find_crlf_none [OF lf]] by (simp add: long_line_bytes)
  ultimately show ?thesis by (cases "chunk_loop long_line 0 []") (simp_all add: chunked_push_def chunked_default_def)
qed

section \<open>Heads, whole or not yet\<close>

text \<open>A response head that has been read stays as it was read, whatever follows it, and ends within its bound; and until its blank line has
  come, what is there so far is neither an answer nor, within the bound, an error.\<close>

theorem heads_are_settled:
  "(\<forall>out n m. head_parse buf = Inr (Some (out, n)) \<longrightarrow> head_parse (buf @ m) = Inr (Some (out, n)) \<and> n \<le> length buf \<and> n \<le> MAX_HEAD_BYTES)
   \<and> (find_sub buf (CRLF @ CRLF) = None \<and> length buf \<le> MAX_HEAD_BYTES \<longrightarrow> head_parse buf = Inr None)"
proof -
  have "head_parse (buf @ m) = Inr (Some (out, n)) \<and> n \<le> length buf \<and> n \<le> MAX_HEAD_BYTES"
    if h: "head_parse buf = Inr (Some (out, n))" for out n m
  proof -
    obtain stop where stop: "find_sub buf (CRLF @ CRLF) = Some stop"
      using h by (cases "find_sub buf (CRLF @ CRLF)") (auto simp: head_parse_def split: if_splits)
    have "stop + 4 \<le> length buf" "find_sub (buf @ m) (CRLF @ CRLF) = Some stop"
      using find_sub_bound [OF stop] find_sub_append [OF stop, of m] by (simp_all add: CRLF_def)
    with h stop show ?thesis by (auto simp: head_parse_def result_ok Let_def split: if_splits)
  qed
  then show ?thesis by (auto simp: head_parse_def)
qed

section \<open>An example\<close>

theorem chunked_bodies_survive_every_cut_witness:
  "\<exists>c. push_all [take 3 (body_bytes [[1, 2], [3]]), drop 3 (body_bytes [[1, 2], [3]])] chunked_default = Inr (c, [1, 2, 3]) \<and> ch_done c"
  using chunked_bodies_survive_every_cut [of "[[1, 2], [3]]" "[take 3 (body_bytes [[1, 2], [3]]), drop 3 (body_bytes [[1, 2], [3]])]"]
  by (simp add: chunk_ok_def MAX_CHUNK_BYTES_def)

theorem splits_accept_what_one_read_does_witness:
  "\<exists>c'. chunked_push (body_bytes [[1, 2]]) chunked_default = Inr (c', [1, 2])"
proof -
  obtain c out where "push_all [body_bytes [[1, 2]]] chunked_default = Inr (c, out)" "out = [1, 2]"
    using body_whole [of "[[1, 2]]" "[]"] by (auto simp: chunked_push_def chunked_default_def chunk_ok_def MAX_CHUNK_BYTES_def)
  with splits_accept_what_one_read_does [of "[body_bytes [[1, 2]]]" c out] show ?thesis by auto
qed

theorem heads_are_settled_witness: "head_parse [] = Inr None"
  using heads_are_settled [of "[]"] by (simp add: MAX_HEAD_BYTES_def)

end
