(* ===== verification/Serving.thy ===== *)
theory Serving
  imports Box_State Client Http
begin

text \<open>
  The hub half of a box connector: \<open>crates/connector/src/relay.rs\<close>, which seals and publishes a box's frames,
  \<open>crates/connector/src/serve.rs\<close>, the loop that owns the hub connection, and the resume point and backoff of
  \<open>crates/connector/src/run.rs\<close>. What the random source gave a turn of the loop is \<open>rnd\<close> and \<open>eph\<close>. Log lines are left out.
\<close>

section \<open>Publishing frames\<close>

record box_relay =
  bx_publisher :: sender
  bx_key :: stream_key
  bx_channels :: channels
  bx_edge_counter :: nat
  bx_sample_counter :: nat
  bx_key_from :: key_start

datatype relayed = Consumed | OnEdge nat | OnSample nat string

datatype relay_error = RelaySeal seal_error | RelayClient client_error

definition box_relay_new :: "sender \<Rightarrow> stream_key \<Rightarrow> channels \<Rightarrow> box_relay" where
  "box_relay_new publisher key chans =
     \<lparr>bx_publisher = publisher, bx_key = key, bx_channels = chans, bx_edge_counter = 0, bx_sample_counter = 0,
      bx_key_from = \<lparr>ks_edge = 1, ks_sample = 1\<rparr>\<rparr>"

definition rotate_key :: "stream_key \<Rightarrow> box_relay \<Rightarrow> box_relay" where
  "rotate_key key r =
     r\<lparr>bx_key := key, bx_key_from := \<lparr>ks_edge = bx_edge_counter r + 1, ks_sample = bx_sample_counter r + 1\<rparr>\<rparr>"

definition relay_route :: "bytes \<Rightarrow> relayed" where
  "relay_route frame =
     (case fst (box_route frame) of Consume \<Rightarrow> Consumed | Edge \<Rightarrow> OnEdge 0 | Sample coalesce \<Rightarrow> OnSample 0 coalesce)"

definition relay_seal :: "'x stream_suite_scheme \<Rightarrow> bytes option \<Rightarrow> bytes \<Rightarrow> nat \<Rightarrow> bytes \<Rightarrow> box_relay \<Rightarrow> relay_error + bytes" where
  "relay_seal cr rnd channel counter frame r =
     (case seal_frame cr rnd (bx_publisher r) channel (bx_key r) counter frame of Inl e \<Rightarrow> Inl (RelaySeal e) | Inr bs \<Rightarrow> Inr bs)"

definition relay_frame ::
    "'x stream_suite_scheme \<Rightarrow> (frame \<Rightarrow> bytes) \<Rightarrow> bytes option \<Rightarrow> bytes \<Rightarrow> client \<Rightarrow> box_relay
     \<Rightarrow> box_relay \<times> client \<times> (relay_error + relayed)" where
  "relay_frame cr pe rnd frame c r =
     (case relay_route frame of
        Consumed \<Rightarrow> (r, c, Inr Consumed)
      | OnEdge _ \<Rightarrow>
          let r1 = r\<lparr>bx_edge_counter := bx_edge_counter r + 1\<rparr>; n = bx_edge_counter r1; channel = ch_edge (bx_channels r) in
          (case relay_seal cr rnd channel n frame r1 of
             Inl e \<Rightarrow> (r1, c, Inl e)
           | Inr sealed \<Rightarrow>
               (case client_publish pe channel SessionEvents sealed c of
                  (c1, Inl e) \<Rightarrow> (r1, c1, Inl (RelayClient e))
                | (c1, Inr _) \<Rightarrow> (r1, c1, Inr (OnEdge n))))
      | OnSample _ coalesce \<Rightarrow>
          let r1 = r\<lparr>bx_sample_counter := bx_sample_counter r + 1\<rparr>; n = bx_sample_counter r1; channel = ch_sample (bx_channels r) in
          (case relay_seal cr rnd channel n frame r1 of
             Inl e \<Rightarrow> (r1, c, Inl e)
           | Inr sealed \<Rightarrow>
               (case client_publish_coalesced pe channel Telemetry sealed (ascii coalesce) c of
                  (c1, Inl e) \<Rightarrow> (r1, c1, Inl (RelayClient e))
                | (c1, Inr _) \<Rightarrow> (r1, c1, Inr (OnSample n coalesce)))))"

section \<open>The loop\<close>

definition REVOCATIONS_PURPOSE :: string where "REVOCATIONS_PURPOSE = ''revocations''"
definition DEDUPE_FRAMES :: nat where "DEDUPE_FRAMES = 4096"

datatype serve_error =
    HubFailed client_error | HubRefused error_frame | PublishFailed relay_error | BoxGone | StateFailed io_error

record served =
  sd_published :: nat
  sd_duplicates :: nat
  sd_granted :: nat
  sd_refused :: nat
  sd_revoked :: nat
  sd_lists :: nat
  sd_rotations :: nat

definition served_default :: served where
  "served_default = \<lparr>sd_published = 0, sd_duplicates = 0, sd_granted = 0, sd_refused = 0, sd_revoked = 0, sd_lists = 0, sd_rotations = 0\<rparr>"

record serving =
  sv_relay :: box_relay
  sv_channels :: channels
  sv_publisher :: sender
  sv_channel_key :: bytes
  sv_revocations :: revocations
  sv_dir :: string
  sv_seen :: "u64 list"
  sv_seen_set :: "u64 set"
  sv_published :: "u64 option"
  sv_counts :: served

definition serving_new :: "sender \<Rightarrow> stream_key \<Rightarrow> channels \<Rightarrow> bytes \<Rightarrow> revocations \<Rightarrow> string \<Rightarrow> serving" where
  "serving_new publisher key chans channel_key revs dir =
     \<lparr>sv_relay = box_relay_new publisher key chans, sv_channels = chans, sv_publisher = publisher, sv_channel_key = channel_key,
      sv_revocations = revs, sv_dir = dir, sv_seen = [], sv_seen_set = {}, sv_published = None, sv_counts = served_default\<rparr>"

text \<open>FNV-1a, on 64-bit words that wrap.\<close>

definition frame_hash :: "bytes \<Rightarrow> u64" where
  "frame_hash bs = fold (\<lambda>b h. (h XOR ucast b) * 0x100000001b3) bs 0xcbf29ce484222325"

definition remember :: "u64 \<Rightarrow> serving \<Rightarrow> serving" where
  "remember digest sv =
     (let seen = sv_seen sv @ [digest]; set1 = insert digest (sv_seen_set sv) in
      if length seen > DEDUPE_FRAMES then sv\<lparr>sv_seen := tl seen, sv_seen_set := set1 - {hd seen}\<rparr>
      else sv\<lparr>sv_seen := seen, sv_seen_set := set1\<rparr>)"

definition note_published :: "u64 option \<Rightarrow> serving \<Rightarrow> serving" where
  "note_published at_ms sv =
     (case at_ms of
        None \<Rightarrow> sv
      | Some t \<Rightarrow> sv\<lparr>sv_published := Some (case sv_published sv of None \<Rightarrow> t | Some newest \<Rightarrow> max newest t)\<rparr>)"

abbreviation count :: "((nat \<Rightarrow> nat) \<Rightarrow> served \<Rightarrow> served) \<Rightarrow> serving \<Rightarrow> serving" where
  "count field sv \<equiv> sv\<lparr>sv_counts := field Suc (sv_counts sv)\<rparr>"

definition serve_publish ::
    "'x stream_suite_scheme \<Rightarrow> (frame \<Rightarrow> bytes) \<Rightarrow> bytes option \<Rightarrow> bytes \<Rightarrow> client \<Rightarrow> serving \<Rightarrow> serving \<times> client \<times> (serve_error + unit)" where
  "serve_publish cr pe rnd frame c sv =
     (let digest = frame_hash frame in
      if digest \<in> sv_seen_set sv then (count sd_duplicates_update sv, c, Inr ())
      else case relay_frame cr pe rnd frame c (sv_relay sv) of
             (r, c1, Inl e) \<Rightarrow> (sv\<lparr>sv_relay := r\<rparr>, c1, Inl (PublishFailed e))
           | (r, c1, Inr Consumed) \<Rightarrow> (sv\<lparr>sv_relay := r\<rparr>, c1, Inr ())
           | (r, c1, Inr _) \<Rightarrow>
               (note_published (br_at_ms (box_read_frame frame)) (count sd_published_update (remember digest (sv\<lparr>sv_relay := r\<rparr>))), c1, Inr ()))"

fun direct_all :: "(frame \<Rightarrow> bytes) \<Rightarrow> bytes \<Rightarrow> bytes list \<Rightarrow> client \<Rightarrow> client \<times> (client_error + unit)" where
  "direct_all pe to [] c = (c, Inr ())"
| "direct_all pe to (g # gs) c =
     (case client_direct pe to Command g c of (c1, Inl e) \<Rightarrow> (c1, Inl e) | (c1, Inr _) \<Rightarrow> direct_all pe to gs c1)"

definition hub_err :: "client \<times> (client_error + unit) \<Rightarrow> client \<times> (serve_error + unit)" where
  "hub_err r = (fst r, case snd r of Inl e \<Rightarrow> Inl (HubFailed e) | Inr u \<Rightarrow> Inr u)"

definition refuse_grant ::
    "'x stream_suite_scheme \<Rightarrow> (frame \<Rightarrow> bytes) \<Rightarrow> bytes option \<Rightarrow> bytes \<Rightarrow> opened \<Rightarrow> not_now \<Rightarrow> nat \<Rightarrow> client \<Rightarrow> client \<times> (serve_error + unit)" where
  "refuse_grant cr pe rnd eph asked why now_ms c =
     (if length (cb_agreement_key (op_leaf asked)) \<noteq> 32 then (c, Inr ())
      else hub_err (client_result cr pe rnd eph \<lparr>rt_principal = op_from asked, rt_agreement_key = cb_agreement_key (op_leaf asked)\<rparr>
             (op_nonce asked) (grant_refusal why) now_ms c))"

definition serve_command ::
    "'x stream_suite_scheme \<Rightarrow> 'y state_suite_scheme \<Rightarrow> (frame \<Rightarrow> bytes) \<Rightarrow> (nat \<Rightarrow> bytes option) \<Rightarrow> (nat \<Rightarrow> bytes) \<Rightarrow> opened \<Rightarrow> nat
     \<Rightarrow> client \<Rightarrow> serving \<Rightarrow> serving \<times> client \<times> (serve_error + unit)" where
  "serve_command cr cl pe rnd eph asked now_ms c sv =
     (case (if is_grant asked then may_grant cl (op_chain asked) now_ms (sv_revocations sv) else Inr ()) of
        Inl why \<Rightarrow> (count sd_revoked_update sv, refuse_grant cr pe (rnd 0) (eph 0) asked why now_ms c)
      | Inr _ \<Rightarrow>
          (case wrap_for cr rnd eph asked (sv_publisher sv) (bx_key (sv_relay sv)) (sv_channels sv) (bx_key_from (sv_relay sv)) now_ms of
             Inl e \<Rightarrow> (sv, c, Inl (PublishFailed (RelaySeal e)))
           | Inr (Inl _) \<Rightarrow> (count sd_refused_update sv, c, Inr ())
           | Inr (Inr wrapped) \<Rightarrow>
               (case direct_all pe (op_from asked) wrapped c of
                  (c1, Inl e) \<Rightarrow> (sv, c1, Inl (HubFailed e))
                | (c1, Inr _) \<Rightarrow> (count sd_granted_update sv, c1, Inr ()))))"

definition revocations_channel :: "'x stream_suite_scheme \<Rightarrow> bytes \<Rightarrow> serving \<Rightarrow> bytes" where
  "revocations_channel cr revoker sv = channel_name cr (sv_channel_key sv) REVOCATIONS_PURPOSE revoker"

definition follow :: "'x stream_suite_scheme \<Rightarrow> (frame \<Rightarrow> bytes) \<Rightarrow> bytes \<Rightarrow> client \<Rightarrow> serving \<Rightarrow> client \<times> (serve_error + unit)" where
  "follow cr pe revoker c sv = hub_err (client_subscribe pe revoker (revocations_channel cr revoker sv) None c)"

definition serve_presence ::
    "'x stream_suite_scheme \<Rightarrow> 'y state_suite_scheme \<Rightarrow> (frame \<Rightarrow> bytes) \<Rightarrow> faults \<Rightarrow> presence \<Rightarrow> nat \<Rightarrow> client \<Rightarrow> files \<Rightarrow> serving
     \<Rightarrow> serving \<times> files \<times> client \<times> (serve_error + unit)" where
  "serve_presence cr cl pe fault p now_ms c fs sv =
     (if \<not> pr_online p \<or> pr_chain p = [] then (sv, fs, c, Inr ())
      else case verify_chain cl (rs_root (sv_revocations sv)) (pr_chain p) now_ms of
             Inl _ \<Rightarrow> (sv, fs, c, Inr ())
           | Inr v \<Rightarrow>
               if \<not> cb_may_revoke (v_leaf v) \<or> pr_principal p \<noteq> v_principal v then (sv, fs, c, Inr ())
               else (case saw_revoker (v_principal v) now_ms (sv_revocations sv) of
                       (revs, False) \<Rightarrow> (sv\<lparr>sv_revocations := revs\<rparr>, fs, c, Inr ())
                     | (revs, True) \<Rightarrow>
                         let sv1 = sv\<lparr>sv_revocations := revs\<rparr> in
                         (case write_revokers fault (sv_dir sv) revs fs of
                            (fs1, Inl e) \<Rightarrow> (sv1, fs1, c, Inl (StateFailed e))
                          | (fs1, Inr _) \<Rightarrow> (sv1, fs1, follow cr pe (v_principal v) c sv1))))"

definition serve_list ::
    "'x stream_suite_scheme \<Rightarrow> 'y state_suite_scheme \<Rightarrow> faults \<Rightarrow> bytes option \<Rightarrow> stream_ref \<Rightarrow> bytes \<Rightarrow> nat \<Rightarrow> files \<Rightarrow> serving
     \<Rightarrow> serving \<times> files \<times> (serve_error + unit)" where
  "serve_list cr cl fault rnd stream payload now_ms fs sv =
     (let publisher = sr_publisher stream in
      if length publisher \<noteq> 32 \<or> publisher \<notin> set (rs_revokers (sv_revocations sv)) \<or> sr_channel stream \<noteq> revocations_channel cr publisher sv
      then (sv, fs, Inr ())
      else case dec_rlist cl payload of
             None \<Rightarrow> (sv, fs, Inr ())
           | Some lst \<Rightarrow>
               (case revocations_apply cl lst now_ms (sv_revocations sv) of
                  (revs, Inl _) \<Rightarrow> (sv\<lparr>sv_revocations := revs\<rparr>, fs, Inr ())
                | (revs, Inr ap) \<Rightarrow>
                    let sv1 = sv\<lparr>sv_revocations := revs\<rparr> in
                    (case write_revocation_list cl fault (sv_dir sv) lst fs of
                       (fs1, Inl e) \<Rightarrow> (sv1, fs1, Inl (StateFailed e))
                     | (fs1, Inr _) \<Rightarrow>
                         (case write_revokers fault (sv_dir sv) revs fs1 of
                            (fs2, Inl e) \<Rightarrow> (sv1, fs2, Inl (StateFailed e))
                          | (fs2, Inr _) \<Rightarrow>
                              let sv2 = count sd_lists_update sv1 in
                              if ap_rotate ap then
                                (case rnd of
                                   None \<Rightarrow> (sv2, fs2, Inl (StateFailed \<lparr>ie_kind = IoOther, ie_message = ''no random source''\<rparr>))
                                 | Some bs \<Rightarrow> (count sd_rotations_update (sv2\<lparr>sv_relay := rotate_key (stream_key_from_bytes cr bs) (sv_relay sv2)\<rparr>), fs2, Inr ()))
                              else (sv2, fs2, Inr ())))))"

definition serve_event ::
    "'x stream_suite_scheme \<Rightarrow> 'y state_suite_scheme \<Rightarrow> (frame \<Rightarrow> bytes) \<Rightarrow> faults \<Rightarrow> (nat \<Rightarrow> bytes option) \<Rightarrow> (nat \<Rightarrow> bytes) \<Rightarrow> event \<Rightarrow> nat
     \<Rightarrow> client \<Rightarrow> files \<Rightarrow> serving \<Rightarrow> serving \<times> files \<times> client \<times> (serve_error + unit)" where
  "serve_event cr cl pe fault rnd eph ev now_ms c fs sv =
     (case ev of
        EvCommand asked \<Rightarrow> (case serve_command cr cl pe rnd eph asked now_ms c sv of (sv1, c1, res) \<Rightarrow> (sv1, fs, c1, res))
      | EvError e \<Rightarrow> (sv, fs, c, if er_code e = i32_of_code Throttled then Inr () else Inl (HubRefused e))
      | EvPresence p \<Rightarrow> serve_presence cr cl pe fault p now_ms c fs sv
      | EvPublished stream _ _ _ _ payload \<Rightarrow>
          (case serve_list cr cl fault (rnd 0) stream payload now_ms fs sv of (sv1, fs1, res) \<Rightarrow> (sv1, fs1, c, res))
      | _ \<Rightarrow> (sv, fs, c, Inr ()))"

fun follow_all :: "'x stream_suite_scheme \<Rightarrow> (frame \<Rightarrow> bytes) \<Rightarrow> bytes list \<Rightarrow> client \<Rightarrow> serving \<Rightarrow> client \<times> (serve_error + unit)" where
  "follow_all cr pe [] c sv = (c, Inr ())"
| "follow_all cr pe (p # ps) c sv = (case follow cr pe p c sv of (c1, Inl e) \<Rightarrow> (c1, Inl e) | (c1, Inr _) \<Rightarrow> follow_all cr pe ps c1 sv)"

text \<open>
  One turn of \<open>run\<close>'s loop: what the select yielded, the clock, and what the random source gives. The call of \<open>Client::next\<close> that loses the
  select is dropped where it stands: \<open>HubDropped n lost\<close> is a call that got through \<open>n\<close> rounds of its loop, reading a message or settling a frame that means
  nothing to the caller, and \<open>lost\<close> says that it was dropped with a ping taken and the pong not sent.
\<close>

datatype serve_input = FromBox "bytes option" | FromHub | HubDropped nat bool

fun client_drop ::
    "'x stream_suite_scheme \<Rightarrow> (frame \<Rightarrow> bytes) \<Rightarrow> (bytes \<Rightarrow> 'p + frame) \<Rightarrow> nat \<Rightarrow> nat \<Rightarrow> bool \<Rightarrow> client \<Rightarrow> client" where
  "client_drop cr pe pd now_ms 0 lost c =
     (case cl_pending c of
        Frame (Some (BPing n)) # rest \<Rightarrow> if lost then c\<lparr>cl_pending := rest\<rparr> else c
      | _ \<Rightarrow> c)"
| "client_drop cr pe pd now_ms (Suc n) lost c =
     (case cl_pending c of
        [] \<Rightarrow> (case read_message pd c of (c1, Inl e) \<Rightarrow> c | (c1, Inr _) \<Rightarrow> client_drop cr pe pd now_ms n lost c1)
      | f # rest \<Rightarrow>
          (case on_frame cr pe now_ms f (c\<lparr>cl_pending := rest\<rparr>) of
             (c1, Some r) \<Rightarrow> c
           | (c1, None) \<Rightarrow> client_drop cr pe pd now_ms n lost c1))"

record turn =
  tn_next :: serve_input
  tn_now :: nat
  tn_rnd :: "nat \<Rightarrow> bytes option"
  tn_eph :: "nat \<Rightarrow> bytes"

definition serve_turn ::
    "'x stream_suite_scheme \<Rightarrow> 'y state_suite_scheme \<Rightarrow> (frame \<Rightarrow> bytes) \<Rightarrow> (bytes \<Rightarrow> 'p + frame) \<Rightarrow> faults \<Rightarrow> turn
     \<Rightarrow> serving \<times> files \<times> client \<Rightarrow> (serving \<times> files \<times> client) \<times> (serve_error + unit)" where
  "serve_turn cr cl pe pd fault t st =
     (case st of (sv, fs, c) \<Rightarrow>
        (case tn_next t of
           FromBox None \<Rightarrow> (st, Inl BoxGone)
         | FromBox (Some frame) \<Rightarrow> (case serve_publish cr pe (tn_rnd t 0) frame c sv of (sv1, c1, res) \<Rightarrow> ((sv1, fs, c1), res))
         | HubDropped n lost \<Rightarrow> ((sv, fs, client_drop cr pe pd (tn_now t) n lost c), Inr ())
         | FromHub \<Rightarrow>
             (case client_next cr pe pd (tn_now t) c of
                (c1, Inl e) \<Rightarrow> ((sv, fs, c1), Inl (HubFailed e))
              | (c1, Inr ev) \<Rightarrow>
                  (case serve_event cr cl pe fault (tn_rnd t) (tn_eph t) ev (tn_now t) c1 fs sv of
                     (sv1, fs1, c2, res) \<Rightarrow> ((sv1, fs1, c2), res)))))"

fun serve_loop ::
    "'x stream_suite_scheme \<Rightarrow> 'y state_suite_scheme \<Rightarrow> (frame \<Rightarrow> bytes) \<Rightarrow> (bytes \<Rightarrow> 'p + frame) \<Rightarrow> faults \<Rightarrow> turn list
     \<Rightarrow> serving \<times> files \<times> client \<Rightarrow> (serving \<times> files \<times> client) \<times> serve_error option" where
  "serve_loop cr cl pe pd fault [] st = (st, None)"
| "serve_loop cr cl pe pd fault (t # ts) st =
     (case serve_turn cr cl pe pd fault t st of (st1, Inl e) \<Rightarrow> (st1, Some e) | (st1, Inr _) \<Rightarrow> serve_loop cr cl pe pd fault ts st1)"

definition serve_run ::
    "'x stream_suite_scheme \<Rightarrow> 'y state_suite_scheme \<Rightarrow> (frame \<Rightarrow> bytes) \<Rightarrow> (bytes \<Rightarrow> 'p + frame) \<Rightarrow> faults \<Rightarrow> turn list
     \<Rightarrow> serving \<times> files \<times> client \<Rightarrow> (serving \<times> files \<times> client) \<times> serve_error option" where
  "serve_run cr cl pe pd fault ts st =
     (case st of (sv, fs, c) \<Rightarrow>
        (case follow_all cr pe (rs_revokers (sv_revocations sv)) c sv of
           (c1, Inl e) \<Rightarrow> ((sv, fs, c1), Some e)
         | (c1, Inr _) \<Rightarrow> serve_loop cr cl pe pd fault ts (sv, fs, c1)))"

section \<open>Resuming a box\<close>

definition PENDING_FRAMES :: nat where "PENDING_FRAMES = 256"
definition BACKFILL_SLACK_MS :: nat where "BACKFILL_SLACK_MS = 30000"
definition MAX_BACKOFF_MS :: nat where "MAX_BACKOFF_MS = 30000"
definition FIRST_BACKOFF_MS :: nat where "FIRST_BACKOFF_MS = 500"

definition since_ms :: "nat \<Rightarrow> u64 option \<Rightarrow> nat option" where
  "since_ms now_ms published = map_option (\<lambda>newest. min (now_ms - unat newest + BACKFILL_SLACK_MS) (2 ^ 64 - 1)) published"

definition next_backoff :: "nat \<Rightarrow> nat" where
  "next_backoff backoff = min (backoff * 2) MAX_BACKOFF_MS"

section \<open>What a turn leaves alone\<close>

lemma relay_frame_moves:
  assumes "relay_frame cr pe rnd frame c r = (r', c', res)"
  obtains (consumed) "relay_route frame = Consumed" "r' = r" "c' = c" "res = Inr Consumed"
  | (edge) n where "relay_route frame = OnEdge n" "r' = r\<lparr>bx_edge_counter := bx_edge_counter r + 1\<rparr>" "res \<noteq> Inr Consumed"
  | (sample) n k where "relay_route frame = OnSample n k" "r' = r\<lparr>bx_sample_counter := bx_sample_counter r + 1\<rparr>" "res \<noteq> Inr Consumed"
proof (cases "relay_route frame")
  case Consumed
  with assms show thesis by (intro consumed) (auto simp: relay_frame_def)
next
  case (OnEdge n)
  with assms have "r' = r\<lparr>bx_edge_counter := bx_edge_counter r + 1\<rparr> \<and> res \<noteq> Inr Consumed"
    by (auto simp: relay_frame_def Let_def split: sum.splits prod.splits)
  with edge [OF OnEdge] show thesis by simp
next
  case (OnSample n k)
  with assms have "r' = r\<lparr>bx_sample_counter := bx_sample_counter r + 1\<rparr> \<and> res \<noteq> Inr Consumed"
    by (auto simp: relay_frame_def Let_def split: sum.splits prod.splits)
  with sample [OF OnSample] show thesis by simp
qed

lemma remember_fields [simp]:
  "sv_relay (remember d sv) = sv_relay sv" "sv_revocations (remember d sv) = sv_revocations sv" "sv_published (remember d sv) = sv_published sv"
  "sv_counts (remember d sv) = sv_counts sv"
  by (simp_all add: remember_def Let_def)

lemma note_published_fields [simp]:
  "sv_relay (note_published t sv) = sv_relay sv" "sv_revocations (note_published t sv) = sv_revocations sv"
  "sv_seen (note_published t sv) = sv_seen sv" "sv_seen_set (note_published t sv) = sv_seen_set sv" "sv_counts (note_published t sv) = sv_counts sv"
  by (simp_all add: note_published_def split: option.split)

text \<open>Publishing: a duplicate, a frame that was consumed or failed, or a frame that went out and is remembered.\<close>

lemma serve_publish_cases:
  assumes "serve_publish cr pe rnd frame c sv = (sv', c', res)"
  obtains (duplicate) "frame_hash frame \<in> sv_seen_set sv" "sv' = count sd_duplicates_update sv" "c' = c" "res = Inr ()"
  | (failed) r e where "frame_hash frame \<notin> sv_seen_set sv" "relay_frame cr pe rnd frame c (sv_relay sv) = (r, c', Inl e)"
      "sv' = sv\<lparr>sv_relay := r\<rparr>" "res = Inl (PublishFailed e)"
  | (consumed) r where "frame_hash frame \<notin> sv_seen_set sv" "relay_frame cr pe rnd frame c (sv_relay sv) = (r, c', Inr Consumed)"
      "sv' = sv\<lparr>sv_relay := r\<rparr>" "res = Inr ()"
  | (sent) r w where "frame_hash frame \<notin> sv_seen_set sv" "relay_route frame \<noteq> Consumed" "relay_frame cr pe rnd frame c (sv_relay sv) = (r, c', Inr w)" "w \<noteq> Consumed"
      "sv' = note_published (br_at_ms (box_read_frame frame)) (count sd_published_update (remember (frame_hash frame) (sv\<lparr>sv_relay := r\<rparr>)))" "res = Inr ()"
proof (cases "frame_hash frame \<in> sv_seen_set sv")
  case True
  with assms duplicate show thesis by (simp add: serve_publish_def)
next
  case False
  obtain r c1 q where q: "relay_frame cr pe rnd frame c (sv_relay sv) = (r, c1, q)" by (cases "relay_frame cr pe rnd frame c (sv_relay sv)") auto
  show thesis
  proof (cases q)
    case (Inl e)
    with assms False q failed show thesis by (simp add: serve_publish_def)
  next
    case (Inr w)
    show thesis
    proof (cases w)
      case Consumed
      with assms False q Inr consumed show thesis by (simp add: serve_publish_def)
    next
      case (OnEdge n)
      moreover from q Inr OnEdge have "relay_route frame \<noteq> Consumed" by (auto elim!: relay_frame_moves)
      ultimately show thesis using assms False q Inr sent by (simp add: serve_publish_def)
    next
      case (OnSample n k)
      moreover from q Inr OnSample have "relay_route frame \<noteq> Consumed" by (auto elim!: relay_frame_moves)
      ultimately show thesis using assms False q Inr sent by (simp add: serve_publish_def)
    qed
  qed
qed

text \<open>What an event of the hub can change: the counts, the revocations, and the key.\<close>

lemma serve_command_keeps:
  assumes "serve_command cr cl pe rnd eph asked now c sv = (sv', c', res)"
  shows "sv_relay sv' = sv_relay sv" "sv_revocations sv' = sv_revocations sv" "sv_seen sv' = sv_seen sv" "sv_seen_set sv' = sv_seen_set sv"
    "sv_published sv' = sv_published sv" "sd_published (sv_counts sv') = sd_published (sv_counts sv)"
  using assms by (auto simp: serve_command_def split: sum.splits prod.splits)

lemma serve_presence_keeps:
  assumes "serve_presence cr cl pe fault p now c fs sv = (sv', fs', c', res)"
  shows "sv_relay sv' = sv_relay sv" "sv_counts sv' = sv_counts sv" "sv_seen sv' = sv_seen sv" "sv_seen_set sv' = sv_seen_set sv"
    "sv_published sv' = sv_published sv"
  using assms by (auto simp: serve_presence_def Let_def split: sum.splits prod.splits if_splits bool.splits)

lemma serve_list_keeps:
  assumes "serve_list cr cl fault rnd stream payload now fs sv = (sv', fs', res)"
  shows "sv_relay sv' = sv_relay sv \<or> (\<exists>key. sv_relay sv' = rotate_key key (sv_relay sv))" "sv_seen sv' = sv_seen sv" "sv_seen_set sv' = sv_seen_set sv"
    "sv_published sv' = sv_published sv" "sd_published (sv_counts sv') = sd_published (sv_counts sv)" "sd_granted (sv_counts sv') = sd_granted (sv_counts sv)"
  using assms by (auto simp: serve_list_def Let_def split: sum.splits prod.splits if_splits option.splits)

lemma serve_event_keeps:
  assumes "serve_event cr cl pe fault rnd eph ev now c fs sv = (sv', fs', c', res)"
  shows "sv_relay sv' = sv_relay sv \<or> (\<exists>key. sv_relay sv' = rotate_key key (sv_relay sv))" "sv_seen sv' = sv_seen sv" "sv_seen_set sv' = sv_seen_set sv"
    "sv_published sv' = sv_published sv" "sd_published (sv_counts sv') = sd_published (sv_counts sv)"
proof -
  have "(sv_relay sv' = sv_relay sv \<or> (\<exists>key. sv_relay sv' = rotate_key key (sv_relay sv))) \<and> sv_seen sv' = sv_seen sv \<and> sv_seen_set sv' = sv_seen_set sv
    \<and> sv_published sv' = sv_published sv \<and> sd_published (sv_counts sv') = sd_published (sv_counts sv)"
  proof (cases ev)
    case (EvCommand asked)
    obtain sv1 c1 r where "serve_command cr cl pe rnd eph asked now c sv = (sv1, c1, r)" by (metis prod.exhaust)
    with assms EvCommand serve_command_keeps [OF this] show ?thesis by (simp add: serve_event_def)
  next
    case (EvPresence p)
    with assms have "serve_presence cr cl pe fault p now c fs sv = (sv', fs', c', res)" by (simp add: serve_event_def)
    from serve_presence_keeps [OF this] show ?thesis by simp
  next
    case (EvPublished stream k s q ep payload)
    obtain sv1 fs1 r where "serve_list cr cl fault (rnd 0) stream payload now fs sv = (sv1, fs1, r)" by (metis prod.exhaust)
    with assms EvPublished serve_list_keeps [OF this] show ?thesis by (simp add: serve_event_def)
  qed (use assms in \<open>simp_all add: serve_event_def\<close>)
  then show "sv_relay sv' = sv_relay sv \<or> (\<exists>key. sv_relay sv' = rotate_key key (sv_relay sv))" "sv_seen sv' = sv_seen sv" "sv_seen_set sv' = sv_seen_set sv"
    "sv_published sv' = sv_published sv" "sd_published (sv_counts sv') = sd_published (sv_counts sv)" by blast+
qed

lemma serve_turn_cases:
  assumes "serve_turn cr cl pe pd fault t (sv, fs, c) = ((sv', fs', c'), res)"
  obtains (gone) "tn_next t = FromBox None" "sv' = sv" "c' = c" "res = Inl BoxGone"
  | (box) frame where "tn_next t = FromBox (Some frame)" "serve_publish cr pe (tn_rnd t 0) frame c sv = (sv', c', res)"
  | (dropped) n l where "tn_next t = HubDropped n l" "sv' = sv" "c' = client_drop cr pe pd (tn_now t) n l c" "res = Inr ()"
  | (lost) e where "tn_next t = FromHub" "sv' = sv" "client_next cr pe pd (tn_now t) c = (c', Inl e)" "res = Inl (HubFailed e)"
  | (hub) c1 ev where "tn_next t = FromHub" "client_next cr pe pd (tn_now t) c = (c1, Inr ev)"
      "serve_event cr cl pe fault (tn_rnd t) (tn_eph t) ev (tn_now t) c1 fs sv = (sv', fs', c', res)"
  using assms by (auto simp: serve_turn_def split: serve_input.splits option.splits prod.splits sum.splits)

section \<open>What a connector says\<close>

text \<open>
  What a message to the hub may be: a pong, a subscription to a revoker's list, a box's frame sealed with a counter under a key for one of the two
  channels (\<open>True\<close> for edges), the key wrapped for whoever asked, from a counter on, for one of the channels, or the word that it is not granted.
  \<open>said_frame\<close> is the frame such a message carries and \<open>utters\<close> the message itself, as the socket was given it.
\<close>

datatype utterance =
    SayPong nat
  | SayFollow bytes
  | SayFrame bool nat stream_key bytes
  | SayGrant opened bool stream_key nat
  | SayRefusal opened not_now

definition channel_of :: "bool \<Rightarrow> channels \<Rightarrow> bytes" where
  "channel_of edge chans = (if edge then ch_edge chans else ch_sample chans)"

definition counter_of :: "bool \<Rightarrow> box_relay \<Rightarrow> nat" where
  "counter_of edge r = (if edge then bx_edge_counter r else bx_sample_counter r)"

definition start_of :: "bool \<Rightarrow> key_start \<Rightarrow> nat" where
  "start_of edge k = (if edge then ks_edge k else ks_sample k)"

definition on_edge :: "bytes \<Rightarrow> bool" where
  "on_edge frame = (case relay_route frame of OnEdge _ \<Rightarrow> True | _ \<Rightarrow> False)"

definition publication :: "bytes \<Rightarrow> channels \<Rightarrow> bytes \<Rightarrow> frame" where
  "publication frame chans sealed =
     Frame (Some (BEnvelope (envelope_default
       \<lparr>e_to := Some (ToChannel (channel_of (on_edge frame) chans)),
        e_kind := i32_of_kind (if on_edge frame then SessionEvents else Telemetry), e_payload := sealed,
        e_coalesce := (case relay_route frame of OnSample _ k \<Rightarrow> ascii k | _ \<Rightarrow> [])\<rparr>)))"

definition letter :: "bytes \<Rightarrow> kind \<Rightarrow> bytes \<Rightarrow> frame" where
  "letter to k payload =
     Frame (Some (BEnvelope (envelope_default\<lparr>e_to := Some (ToPrincipal to), e_kind := i32_of_kind k, e_payload := payload\<rparr>)))"

definition asker :: "opened \<Rightarrow> recipient" where
  "asker asked = \<lparr>rt_principal = op_from asked, rt_agreement_key = cb_agreement_key (op_leaf asked)\<rparr>"

fun said_frame :: "'x stream_suite_scheme \<Rightarrow> sender \<Rightarrow> turn \<Rightarrow> serving \<Rightarrow> utterance \<Rightarrow> frame option" where
  "said_frame cr me t sv (SayPong n) = Some (Frame (Some (BPong n)))"
| "said_frame cr me t sv (SayFollow p) =
     Some (Frame (Some (BSubscribe \<lparr>sub_stream = Some \<lparr>sr_publisher = p, sr_channel = revocations_channel cr p sv\<rparr>, sub_since = None\<rparr>)))"
| "said_frame cr me t sv (SayFrame edge n key frame) =
     (case seal_frame cr (tn_rnd t 0) (bx_publisher (sv_relay sv)) (channel_of edge (bx_channels (sv_relay sv))) key n frame of
        Inl _ \<Rightarrow> None | Inr sealed \<Rightarrow> Some (publication frame (bx_channels (sv_relay sv)) sealed))"
| "said_frame cr me t sv (SayGrant asked edge key start) =
     (let i = (if edge then 0 else 1) in
      case wrap_key cr (tn_rnd t i) (tn_eph t i) (sv_publisher sv) (asker asked) (channel_of edge (sv_channels sv)) key start (tn_now t) of
        Inl _ \<Rightarrow> None | Inr g \<Rightarrow> Some (letter (op_from asked) Command g))"
| "said_frame cr me t sv (SayRefusal asked why) =
     (case seal_result cr (tn_rnd t 0) (tn_eph t 0) me (asker asked) (op_nonce asked) (grant_refusal why) (tn_now t) of
        Inl _ \<Rightarrow> None | Inr r \<Rightarrow> Some (letter (op_from asked) CommandResult r))"

definition utters :: "'x stream_suite_scheme \<Rightarrow> (frame \<Rightarrow> bytes) \<Rightarrow> nat \<Rightarrow> sender \<Rightarrow> turn \<Rightarrow> serving \<Rightarrow> utterance \<Rightarrow> bytes \<Rightarrow> bool" where
  "utters cr pe mx me t sv u m \<longleftrightarrow> (\<exists>f. said_frame cr me t sv u = Some f \<and> encode_frames pe [f] mx = Inr m)"

text \<open>What a turn of the loop may say, given the connector's state before it and what the client heard.\<close>

fun may_say ::
    "'x stream_suite_scheme \<Rightarrow> 'y state_suite_scheme \<Rightarrow> (frame \<Rightarrow> bytes) \<Rightarrow> (bytes \<Rightarrow> 'p + frame) \<Rightarrow> turn \<Rightarrow> serving \<Rightarrow> client \<Rightarrow> utterance \<Rightarrow> bool" where
  "may_say cr cl pe pd t sv c (SayPong n) \<longleftrightarrow> \<not> (\<exists>frame. tn_next t = FromBox frame)"
| "may_say cr cl pe pd t sv c (SayFollow p) \<longleftrightarrow>
     tn_next t = FromHub \<and> (\<exists>pr v. snd (client_next cr pe pd (tn_now t) c) = Inr (EvPresence pr)
       \<and> verify_chain cl (rs_root (sv_revocations sv)) (pr_chain pr) (tn_now t) = Inr v \<and> cb_may_revoke (v_leaf v) \<and> v_principal v = p)"
| "may_say cr cl pe pd t sv c (SayFrame edge n key frame) \<longleftrightarrow>
     tn_next t = FromBox (Some frame) \<and> frame_hash frame \<notin> sv_seen_set sv \<and> relay_route frame \<noteq> Consumed
     \<and> edge = on_edge frame \<and> n = Suc (counter_of edge (sv_relay sv)) \<and> key = bx_key (sv_relay sv)"
| "may_say cr cl pe pd t sv c (SayGrant asked edge key start) \<longleftrightarrow>
     tn_next t = FromHub \<and> snd (client_next cr pe pd (tn_now t) c) = Inr (EvCommand asked) \<and> is_grant asked
     \<and> may_grant cl (op_chain asked) (tn_now t) (sv_revocations sv) = Inr ()
     \<and> key = bx_key (sv_relay sv) \<and> start = start_of edge (bx_key_from (sv_relay sv))"
| "may_say cr cl pe pd t sv c (SayRefusal asked why) \<longleftrightarrow>
     tn_next t = FromHub \<and> snd (client_next cr pe pd (tn_now t) c) = Inr (EvCommand asked) \<and> is_grant asked
     \<and> may_grant cl (op_chain asked) (tn_now t) (sv_revocations sv) = Inl why"

text \<open>What went out on a client's socket between two moments, and that all of it is accounted for.\<close>

definition sent :: "client \<Rightarrow> client \<Rightarrow> bytes list" where
  "sent c c' = drop (length (ws_out (cl_ws c))) (ws_out (cl_ws c'))"

definition adds :: "(utterance \<Rightarrow> bytes \<Rightarrow> bool) \<Rightarrow> (utterance \<Rightarrow> bool) \<Rightarrow> client \<Rightarrow> client \<Rightarrow> bool" where
  "adds U Q c c' \<longleftrightarrow>
     (\<exists>us ms. ws_out (cl_ws c') = ws_out (cl_ws c) @ ms \<and> list_all2 U us ms \<and> list_all Q us)
     \<and> cl_max_frame c' = cl_max_frame c \<and> client_sender c' = client_sender c"

lemma adds_refl: "ws_out (cl_ws c') = ws_out (cl_ws c) \<Longrightarrow> cl_max_frame c' = cl_max_frame c \<Longrightarrow> client_sender c' = client_sender c \<Longrightarrow> adds U Q c c'"
  unfolding adds_def by (intro conjI exI [of _ "[]"]) simp_all

lemma adds_trans:
  assumes "adds U Q c c1" and "adds U Q c1 c2"
  shows "adds U Q c c2"
proof -
  from assms obtain us ms us' ms' where "ws_out (cl_ws c1) = ws_out (cl_ws c) @ ms" "list_all2 U us ms" "list_all Q us"
    "ws_out (cl_ws c2) = ws_out (cl_ws c1) @ ms'" "list_all2 U us' ms'" "list_all Q us'" unfolding adds_def by blast
  then have "ws_out (cl_ws c2) = ws_out (cl_ws c) @ (ms @ ms')" "list_all2 U (us @ us') (ms @ ms')" "list_all Q (us @ us')"
    by (auto intro: list_all2_appendI)
  then have "\<exists>us ms. ws_out (cl_ws c2) = ws_out (cl_ws c) @ ms \<and> list_all2 U us ms \<and> list_all Q us" by blast
  with assms show ?thesis by (simp add: adds_def)
qed

lemma send_out:
  assumes "send_frames pe [f] c = (c', r)"
  obtains (failed) e where "r = Inl e" "ws_out (cl_ws c') = ws_out (cl_ws c)" "cl_max_frame c' = cl_max_frame c" "client_sender c' = client_sender c"
  | (out) m where "r = Inr ()" "encode_frames pe [f] (cl_max_frame c) = Inr m" "ws_out (cl_ws c') = ws_out (cl_ws c) @ [m]"
      "cl_max_frame c' = cl_max_frame c" "client_sender c' = client_sender c"
  using assms by (auto simp: send_frames_def client_send_def client_sender_def split: prod.splits sum.splits option.splits)

lemma send_adds:
  assumes "send_frames pe [f] c = (c', r)" and "\<And>m. encode_frames pe [f] (cl_max_frame c) = Inr m \<Longrightarrow> U u m" and "Q u"
  shows "adds U Q c c'"
  using assms(1)
proof (cases rule: send_out)
  case (out m)
  with assms(2,3) show ?thesis unfolding adds_def by (intro conjI exI [of _ "[u]"] exI [of _ "[m]"]) simp_all
qed (rule adds_refl)

text \<open>The client by itself says pongs and nothing else.\<close>

lemma on_frame_adds:
  assumes "on_frame cr pe now f c = (c', r)" and U: "\<And>n m. encode_frames pe [Frame (Some (BPong n))] (cl_max_frame c) = Inr m \<Longrightarrow> U (SayPong n) m"
    and "\<And>n. Q (SayPong n)"
  shows "adds U Q c c'"
proof (cases "\<exists>n. frame_body f = Some (BPing n)")
  case True
  then obtain n where n: "frame_body f = Some (BPing n)" by blast
  obtain c1 q where q: "send_frames pe [Frame (Some (BPong n))] c = (c1, q)" by fastforce
  have "c' = c1" using assms(1) n q by (auto simp: on_frame_def split: sum.splits)
  with send_adds [OF q, of U "SayPong n" Q] U assms(3) show ?thesis by blast
next
  case False
  have env: "ws_out (cl_ws d) = ws_out (cl_ws c) \<and> cl_max_frame d = cl_max_frame c \<and> client_sender d = client_sender c"
    if "client_on_envelope cr now e c = (d, ev)" for e d ev
    using that by (auto simp: client_on_envelope_def Let_def client_sender_def split: prod.splits kind.splits)
  from assms(1) False have "ws_out (cl_ws c') = ws_out (cl_ws c) \<and> cl_max_frame c' = cl_max_frame c \<and> client_sender c' = client_sender c"
    by (auto simp: on_frame_def dest: env split: option.splits body.splits prod.splits)
  then show ?thesis by (simp add: adds_refl)
qed

lemma read_message_adds: "read_message pd c = (c', r) \<Longrightarrow> adds U Q c c'"
  by (rule adds_refl) (auto simp: read_message_def Let_def client_sender_def split: prod.splits sum.splits)

lemma popped_adds: "adds U Q c (c\<lparr>cl_pending := fs\<rparr>)"
  by (rule adds_refl) (simp_all add: client_sender_def)

lemma client_next_adds:
  assumes "client_next cr pe pd now c = (c', r)"
    and "\<And>n m. encode_frames pe [Frame (Some (BPong n))] (cl_max_frame c) = Inr m \<Longrightarrow> U (SayPong n) m" and Q: "\<And>n. Q (SayPong n)"
  shows "adds U Q c c'"
  using assms(1,2)
proof (induction cr pe pd now c arbitrary: c' r rule: client_next.induct)
  case (1 cr pe pd now c)
  show ?case
  proof (cases "cl_pending c")
    case Nil
    obtain c1 q where q: "read_message pd c = (c1, q)" by (cases "read_message pd c")
    note a = read_message_adds [OF q, of U Q]
    show ?thesis
    proof (cases q)
      case (Inl e)
      with 1(3) Nil q a show ?thesis by (auto simp: client_next.simps)
    next
      case (Inr u)
      with 1(3) Nil q have n: "client_next cr pe pd now c1 = (c', r)" by (simp add: client_next.simps [of cr pe pd now c])
      have "adds U Q c1 c'" by (rule 1(1) [OF Nil q [symmetric] Inr n]) (use 1(4) a in \<open>simp add: adds_def\<close>)
      with a show ?thesis by (rule adds_trans)
    qed
  next
    case (Cons f fs)
    obtain c1 q where q: "on_frame cr pe now f (c\<lparr>cl_pending := fs\<rparr>) = (c1, q)"
      by (cases "on_frame cr pe now f (c\<lparr>cl_pending := fs\<rparr>)")
    have a: "adds U Q c c1"
      by (rule adds_trans [OF popped_adds on_frame_adds [OF q]]) (use 1(4) Q in simp_all)
    show ?thesis
    proof (cases q)
      case None
      with 1(3) Cons q have n: "client_next cr pe pd now c1 = (c', r)" by (simp add: client_next.simps [of cr pe pd now c])
      have "adds U Q c1 c'" by (rule 1(2) [OF Cons q [symmetric] None n]) (use 1(4) a in \<open>simp add: adds_def\<close>)
      with a show ?thesis by (rule adds_trans)
    next
      case (Some e)
      with 1(3) Cons q a show ?thesis by (simp add: client_next.simps [of cr pe pd now c])
    qed
  qed
qed

lemma client_drop_adds:
  assumes "\<And>n m. encode_frames pe [Frame (Some (BPong n))] (cl_max_frame c) = Inr m \<Longrightarrow> U (SayPong n) m" and Q: "\<And>n. Q (SayPong n)"
  shows "adds U Q c (client_drop cr pe pd now n l c)"
  using assms(1)
proof (induction n arbitrary: c)
  case 0
  show ?case by (rule adds_refl) (auto simp: client_sender_def split: list.splits frame.splits option.splits body.splits)
next
  case (Suc n)
  show ?case
  proof (cases "cl_pending c")
    case Nil
    obtain c1 q where q: "read_message pd c = (c1, q)" by (cases "read_message pd c")
    note a = read_message_adds [OF q, of U Q]
    have "adds U Q c1 (client_drop cr pe pd now n l c1)" by (rule Suc.IH) (use Suc.prems a in \<open>simp add: adds_def\<close>)
    with a have "adds U Q c (client_drop cr pe pd now n l c1)" by (rule adds_trans)
    with Nil q adds_refl [of c c U Q] show ?thesis by (cases q) simp_all
  next
    case (Cons f fs)
    obtain c1 q where q: "on_frame cr pe now f (c\<lparr>cl_pending := fs\<rparr>) = (c1, q)"
      by (cases "on_frame cr pe now f (c\<lparr>cl_pending := fs\<rparr>)")
    have a: "adds U Q c c1"
      by (rule adds_trans [OF popped_adds on_frame_adds [OF q]]) (use Suc.prems Q in simp_all)
    have "adds U Q c1 (client_drop cr pe pd now n l c1)" by (rule Suc.IH) (use Suc.prems a in \<open>simp add: adds_def\<close>)
    with a have "adds U Q c (client_drop cr pe pd now n l c1)" by (rule adds_trans)
    with Cons q adds_refl [of c c U Q] show ?thesis by (cases q) simp_all
  qed
qed

lemma relay_frame_out:
  assumes "relay_frame cr pe rnd frame c r = (r', c', res)"
  obtains (silent) "ws_out (cl_ws c') = ws_out (cl_ws c)" "cl_max_frame c' = cl_max_frame c" "client_sender c' = client_sender c"
      "res = Inr Consumed \<and> r' = r \<or> (\<exists>e. res = Inl e)"
  | (out) sealed m where "relay_route frame \<noteq> Consumed"
      "seal_frame cr rnd (bx_publisher r) (channel_of (on_edge frame) (bx_channels r)) (bx_key r) (Suc (counter_of (on_edge frame) r)) frame = Inr sealed"
      "encode_frames pe [publication frame (bx_channels r) sealed] (cl_max_frame c) = Inr m" "ws_out (cl_ws c') = ws_out (cl_ws c) @ [m]"
      "cl_max_frame c' = cl_max_frame c" "client_sender c' = client_sender c" "res \<noteq> Inr Consumed" "\<exists>w. res = Inr w"
proof -
  let ?edge = "on_edge frame"
  let ?seal = "seal_frame cr rnd (bx_publisher r) (channel_of ?edge (bx_channels r)) (bx_key r) (Suc (counter_of ?edge r)) frame"
  show thesis
  proof (cases "relay_route frame = Consumed \<or> (\<exists>e. ?seal = Inl e)")
    case True
    then show thesis using assms silent
      by (cases "relay_route frame")
        (auto simp: relay_frame_def relay_seal_def Let_def on_edge_def channel_of_def counter_of_def split: sum.splits prod.splits)
  next
    case False
    then obtain sealed where sealed: "?seal = Inr sealed" by (metis sum.exhaust)
    obtain c1 q where q: "send_frames pe [publication frame (bx_channels r) sealed] c = (c1, q)" by fastforce
    note defs = relay_frame_def relay_seal_def Let_def on_edge_def channel_of_def counter_of_def client_publish_def
      client_publish_coalesced_def publication_def envelope_default_def
    have c': "c' = c1" using assms False sealed q by (cases "relay_route frame"; cases q; simp add: defs)
    have "(q = Inr () \<longrightarrow> res \<noteq> Inr Consumed \<and> (\<exists>w. res = Inr w)) \<and> (\<forall>e. q = Inl e \<longrightarrow> (\<exists>e. res = Inl e))"
      using assms False sealed q by (cases "relay_route frame"; cases q; auto simp: defs)
    then have res: "q = Inr () \<Longrightarrow> res \<noteq> Inr Consumed" "q = Inr () \<Longrightarrow> \<exists>w. res = Inr w" "q = Inl e \<Longrightarrow> \<exists>e. res = Inl e" for e by blast+
    from q show thesis
    proof (cases rule: send_out)
      case (failed e)
      with c' silent res(3) show thesis by blast
    next
      case (out m)
      with c' sealed False res(1,2) that(2) show thesis by blast
    qed
  qed
qed

lemma serve_publish_out:
  assumes "serve_publish cr pe rnd frame c sv = (sv', c', res)"
  obtains (silent) "ws_out (cl_ws c') = ws_out (cl_ws c)" "cl_max_frame c' = cl_max_frame c" "client_sender c' = client_sender c"
      "sv_relay sv' = sv_relay sv \<or> (\<exists>e. res = Inl e)" "sv_seen sv' = sv_seen sv" "sv_seen_set sv' = sv_seen_set sv"
  | (out) r sealed m where "frame_hash frame \<notin> sv_seen_set sv" "relay_route frame \<noteq> Consumed"
      "seal_frame cr rnd (bx_publisher (sv_relay sv)) (channel_of (on_edge frame) (bx_channels (sv_relay sv))) (bx_key (sv_relay sv))
         (Suc (counter_of (on_edge frame) (sv_relay sv))) frame = Inr sealed"
      "encode_frames pe [publication frame (bx_channels (sv_relay sv)) sealed] (cl_max_frame c) = Inr m" "ws_out (cl_ws c') = ws_out (cl_ws c) @ [m]"
      "cl_max_frame c' = cl_max_frame c" "client_sender c' = client_sender c"
      "fst (relay_frame cr pe rnd frame c (sv_relay sv)) = r"
      "sv' = note_published (br_at_ms (box_read_frame frame)) (count sd_published_update (remember (frame_hash frame) (sv\<lparr>sv_relay := r\<rparr>)))"
  using assms
proof (cases rule: serve_publish_cases)
  case duplicate
  with silent show thesis by simp
next
  case (failed r e)
  from failed(2) show thesis by (cases rule: relay_frame_out) (use silent failed in auto)
next
  case (consumed r)
  from consumed(2) show thesis by (cases rule: relay_frame_out) (use silent consumed in auto)
next
  case (sent r w)
  from sent(3) show thesis
  proof (cases rule: relay_frame_out)
    case silent
    with sent(4) show thesis by simp
  next
    case a: (out sealed m)
    from that(2) [OF sent(1) a(1-6)] sent show thesis by simp
  qed
qed

lemma direct_adds:
  assumes "client_direct pe to k payload c = (c', r)"
    and "\<And>m. encode_frames pe [letter to k payload] (cl_max_frame c) = Inr m \<Longrightarrow> U u m" and "Q u"
  shows "adds U Q c c'"
  by (rule send_adds [where f = "letter to k payload" and u = u]) (use assms in \<open>simp_all add: client_direct_def letter_def\<close>)

lemma serve_command_adds:
  assumes cmd: "serve_command cr cl pe (tn_rnd t) (tn_eph t) asked (tn_now t) c sv = (sv', c', res)"
    and mx: "cl_max_frame c = mx" and me: "client_sender c = me"
    and refusals: "\<And>why. is_grant asked \<Longrightarrow> may_grant cl (op_chain asked) (tn_now t) (sv_revocations sv) = Inl why \<Longrightarrow> Q (SayRefusal asked why)"
    and grants: "\<And>edge. is_grant asked \<Longrightarrow> may_grant cl (op_chain asked) (tn_now t) (sv_revocations sv) = Inr () \<Longrightarrow>
      Q (SayGrant asked edge (bx_key (sv_relay sv)) (start_of edge (bx_key_from (sv_relay sv))))"
  shows "adds (utters cr pe mx me t sv) Q c c'"
proof -
  let ?U = "utters cr pe mx me t sv"
  note same = adds_refl [of c c ?U Q, OF refl refl refl]
  show ?thesis
  proof (cases "if is_grant asked then may_grant cl (op_chain asked) (tn_now t) (sv_revocations sv) else Inr ()")
    case (Inl why)
    then have g: "is_grant asked" "may_grant cl (op_chain asked) (tn_now t) (sv_revocations sv) = Inl why" by (auto split: if_splits)
    have c': "c' = fst (refuse_grant cr pe (tn_rnd t 0) (tn_eph t 0) asked why (tn_now t) c)"
      using cmd Inl by (simp add: serve_command_def)
    let ?seal = "seal_result cr (tn_rnd t 0) (tn_eph t 0) me (asker asked) (op_nonce asked) (grant_refusal why) (tn_now t)"
    show ?thesis
    proof (cases "length (cb_agreement_key (op_leaf asked)) = 32 \<and> (\<exists>s. ?seal = Inr s)")
      case False
      with c' same me show ?thesis
        by (auto simp: refuse_grant_def hub_err_def client_result_def asker_def split: sum.splits)
    next
      case True
      then obtain r where r: "?seal = Inr r" by blast
      obtain c1 q where q: "client_direct pe (op_from asked) CommandResult r c = (c1, q)" by fastforce
      with c' True r me have "c' = c1" by (simp add: refuse_grant_def hub_err_def client_result_def asker_def)
      moreover have "adds ?U Q c c1"
        by (rule direct_adds [OF q, where u = "SayRefusal asked why"]) (use refusals [OF g] r mx in \<open>simp_all add: utters_def\<close>)
      ultimately show ?thesis by simp
    qed
  next
    case (Inr u)
    show ?thesis
    proof (cases "\<exists>ws. wrap_for cr (tn_rnd t) (tn_eph t) asked (sv_publisher sv) (bx_key (sv_relay sv)) (sv_channels sv) (bx_key_from (sv_relay sv)) (tn_now t)
        = Inr (Inr ws)")
      case False
      with cmd Inr same show ?thesis by (auto simp: serve_command_def split: sum.splits)
    next
      case True
      then obtain ws where ws: "wrap_for cr (tn_rnd t) (tn_eph t) asked (sv_publisher sv) (bx_key (sv_relay sv)) (sv_channels sv) (bx_key_from (sv_relay sv)) (tn_now t)
        = Inr (Inr ws)" by blast
      then obtain a b where w: "ws = [a, b]" "is_grant asked"
        "wrap_key cr (tn_rnd t 0) (tn_eph t 0) (sv_publisher sv) (asker asked) (ch_edge (sv_channels sv)) (bx_key (sv_relay sv)) (ks_edge (bx_key_from (sv_relay sv))) (tn_now t) = Inr a"
        "wrap_key cr (tn_rnd t 1) (tn_eph t 1) (sv_publisher sv) (asker asked) (ch_sample (sv_channels sv)) (bx_key (sv_relay sv)) (ks_sample (bx_key_from (sv_relay sv))) (tn_now t) = Inr b"
        by (auto simp: wrap_for_def is_grant_def asker_def Let_def result_ok split: if_splits)
      have ok: "may_grant cl (op_chain asked) (tn_now t) (sv_revocations sv) = Inr ()" using Inr w(2) by simp
      obtain c1 q1 where q1: "client_direct pe (op_from asked) Command a c = (c1, q1)" by fastforce
      obtain c2 q2 where q2: "client_direct pe (op_from asked) Command b c1 = (c2, q2)" by fastforce
      have a1: "adds ?U Q c c1"
        by (rule direct_adds [OF q1, where u = "SayGrant asked True (bx_key (sv_relay sv)) (start_of True (bx_key_from (sv_relay sv)))"])
          (use grants [OF w(2) ok, of True] w(3) mx in \<open>simp_all add: utters_def channel_of_def start_of_def\<close>)
      then have "cl_max_frame c1 = mx" using mx by (simp add: adds_def)
      then have a2: "adds ?U Q c1 c2"
        by (intro direct_adds [OF q2, where u = "SayGrant asked False (bx_key (sv_relay sv)) (start_of False (bx_key_from (sv_relay sv)))"])
          (use grants [OF w(2) ok, of False] w(4) in \<open>simp_all add: utters_def channel_of_def start_of_def\<close>)
      have "c' = c1 \<or> c' = c2"
        using cmd Inr ws w(1) q1 q2 by (cases q1; cases q2; auto simp: serve_command_def)
      with a1 adds_trans [OF a1 a2] show ?thesis by blast
    qed
  qed
qed

lemma serve_presence_adds:
  assumes "serve_presence cr cl pe fault p (tn_now t) c fs sv = (sv', fs', c', res)" and mx: "cl_max_frame c = mx"
    and follows: "\<And>v. verify_chain cl (rs_root (sv_revocations sv)) (pr_chain p) (tn_now t) = Inr v \<Longrightarrow> cb_may_revoke (v_leaf v) \<Longrightarrow> Q (SayFollow (v_principal v))"
  shows "adds (utters cr pe mx me t sv) Q c c'"
proof (cases "c' = c")
  case False
  with assms(1) obtain v revs where v: "verify_chain cl (rs_root (sv_revocations sv)) (pr_chain p) (tn_now t) = Inr v" "cb_may_revoke (v_leaf v)"
    and c': "follow cr pe (v_principal v) c (sv\<lparr>sv_revocations := revs\<rparr>) = (c', res)"
    by (auto simp: serve_presence_def Let_def split: sum.splits prod.splits if_splits bool.splits)
  let ?f = "Frame (Some (BSubscribe \<lparr>sub_stream = Some \<lparr>sr_publisher = v_principal v, sr_channel = revocations_channel cr (v_principal v) sv\<rparr>, sub_since = None\<rparr>))"
  obtain c1 q where q: "send_frames pe [?f] c = (c1, q)" by fastforce
  then have "c' = c1" using c' by (simp add: follow_def client_subscribe_def hub_err_def revocations_channel_def)
  with send_adds [OF q, of "utters cr pe mx me t sv" "SayFollow (v_principal v)" Q] follows [OF v] mx show ?thesis by (simp add: utters_def)
qed (simp add: adds_refl)

lemma serve_turn_adds:
  assumes "serve_turn cr cl pe pd fault t (sv, fs, c) = ((sv', fs', c'), res)"
  shows "adds (utters cr pe (cl_max_frame c) (client_sender c) t sv) (may_say cr cl pe pd t sv c) c c'"
  using assms
proof (cases rule: serve_turn_cases)
  case gone
  then show ?thesis by (simp add: adds_refl)
next
  case (box frame)
  from box(2) show ?thesis
  proof (cases rule: serve_publish_out)
    case silent
    then show ?thesis by (simp add: adds_refl)
  next
    case (out r sealed m)
    let ?u = "SayFrame (on_edge frame) (Suc (counter_of (on_edge frame) (sv_relay sv))) (bx_key (sv_relay sv)) frame"
    show ?thesis unfolding adds_def
      by (intro conjI exI [of _ "[?u]"] exI [of _ "[m]"]) (use out(1-7) box(1) in \<open>simp_all add: utters_def\<close>)
  qed
next
  case (dropped n l)
  have "adds (utters cr pe (cl_max_frame c) (client_sender c) t sv) (may_say cr cl pe pd t sv c) c (client_drop cr pe pd (tn_now t) n l c)"
    by (rule client_drop_adds) (use dropped(1) in \<open>simp_all add: utters_def\<close>)
  with dropped(3) show ?thesis by simp
next
  case (lost e)
  show ?thesis by (rule client_next_adds [OF lost(3)]) (use lost(1) in \<open>simp_all add: utters_def\<close>)
next
  case (hub c1 ev)
  let ?U = "utters cr pe (cl_max_frame c) (client_sender c) t sv"
  let ?Q = "may_say cr cl pe pd t sv c"
  have a: "adds ?U ?Q c c1" by (rule client_next_adds [OF hub(2)]) (use hub(1) in \<open>simp_all add: utters_def\<close>)
  then have m: "cl_max_frame c1 = cl_max_frame c" "client_sender c1 = client_sender c" by (simp_all add: adds_def)
  have "adds ?U ?Q c1 c'"
  proof (cases ev)
    case (EvCommand asked)
    with hub(3) have cmd: "serve_command cr cl pe (tn_rnd t) (tn_eph t) asked (tn_now t) c1 sv = (sv', c', res)"
      by (auto simp: serve_event_def split: prod.splits)
    show ?thesis by (rule serve_command_adds [OF cmd m]) (use hub(1,2) EvCommand in simp_all)
  next
    case (EvPresence p)
    with hub(3) have "serve_presence cr cl pe fault p (tn_now t) c1 fs sv = (sv', fs', c', res)" by (simp add: serve_event_def)
    then show ?thesis by (rule serve_presence_adds [OF _ m(1)]) (use hub(1,2) EvPresence in auto)
  next
    case (EvPublished stream k q sq ep payload)
    with hub(3) have "c' = c1" by (auto simp: serve_event_def split: prod.splits)
    then show ?thesis by (simp add: adds_refl)
  qed (use hub(3) in \<open>auto simp: serve_event_def intro: adds_refl\<close>)
  with a show ?thesis by (rule adds_trans)
qed

lemma adds_sent:
  assumes "adds U Q c c'"
  shows "ws_out (cl_ws c') = ws_out (cl_ws c) @ sent c c'" "\<exists>us. list_all2 U us (sent c c') \<and> list_all Q us"
  using assms by (auto simp: adds_def sent_def)

section \<open>Only those the account still trusts are granted the key\<close>

text \<open>C10. Everything a turn of the loop puts on the socket is accounted for: a pong, a subscription to the list of a revoker whose chain verifies, the sealing
  of the frame the box just handed over, the stream key wrapped for a device, or the word that it is not granted. The key is sent
  only in answer to a command that the hub delivered and that opened and verified, that asks \<open>box.grant\<close> under the view scope, and whose chain the
  revocations this connector holds let be granted at that moment; it is wrapped for whoever asked and addressed to it, and it is the key the connector seals
  under now, from the counter it took it up at. A device the revocations refuse is sent the refusal and nothing else.\<close>

theorem only_the_trusted_are_granted:
  assumes "serve_turn cr cl pe pd fault t (sv, fs, c) = ((sv', fs', c'), res)"
  shows "ws_out (cl_ws c') = ws_out (cl_ws c) @ sent c c'
    \<and> (\<exists>us. list_all2 (utters cr pe (cl_max_frame c) (client_sender c) t sv) us (sent c c')
        \<and> list_all (may_say cr cl pe pd t sv c) us
        \<and> (\<forall>asked edge key start. SayGrant asked edge key start \<in> set us \<longrightarrow>
             snd (client_next cr pe pd (tn_now t) c) = Inr (EvCommand asked) \<and> is_grant asked
             \<and> may_grant cl (op_chain asked) (tn_now t) (sv_revocations sv) = Inr ()
             \<and> key = bx_key (sv_relay sv) \<and> start = start_of edge (bx_key_from (sv_relay sv))))"
proof -
  note A = adds_sent [OF serve_turn_adds [OF assms]]
  from A(2) obtain us where us: "list_all2 (utters cr pe (cl_max_frame c) (client_sender c) t sv) us (sent c c')"
    "list_all (may_say cr cl pe pd t sv c) us" by blast
  have "may_say cr cl pe pd t sv c u" if "u \<in> set us" for u using us(2) that by (simp add: list_all_iff)
  with A(1) us show ?thesis by fastforce
qed

section \<open>A frame is not published twice\<close>

text \<open>
  The trace of a run: each turn, the connector's state before it, and the messages that went out in it. What a turn for a frame of the box puts out is what
  is published of that frame; with it goes the key the connector had.
\<close>

type_synonym trace = "(turn \<times> serving \<times> bytes list) list"

fun serve_trace ::
    "'x stream_suite_scheme \<Rightarrow> 'y state_suite_scheme \<Rightarrow> (frame \<Rightarrow> bytes) \<Rightarrow> (bytes \<Rightarrow> 'p + frame) \<Rightarrow> faults \<Rightarrow> turn list
     \<Rightarrow> serving \<times> files \<times> client \<Rightarrow> trace" where
  "serve_trace cr cl pe pd fault [] st = []"
| "serve_trace cr cl pe pd fault (t # ts) st =
     (case serve_turn cr cl pe pd fault t st of
        (st1, res) \<Rightarrow>
          (t, fst st, sent (snd (snd st)) (snd (snd st1))) #
          (case res of Inl e \<Rightarrow> [] | Inr _ \<Rightarrow> serve_trace cr cl pe pd fault ts st1))"

definition published_in :: "turn \<times> serving \<times> bytes list \<Rightarrow> (bytes \<times> stream_key \<times> bytes) list" where
  "published_in = (\<lambda>(t, sv, ms). case tn_next t of FromBox (Some frame) \<Rightarrow> map (\<lambda>m. (frame, bx_key (sv_relay sv), m)) ms | _ \<Rightarrow> [])"

definition publications :: "trace \<Rightarrow> (bytes \<times> stream_key \<times> bytes) list" where
  "publications tr = concat (map published_in tr)"

lemma publications_simps [simp]:
  "publications [] = []" "publications (tr @ tr') = publications tr @ publications tr'" "publications (e # tr) = published_in e @ publications tr"
  by (simp_all add: publications_def)

text \<open>The digests of the last frames published, which is what the connector remembers.\<close>

definition remembers :: "u64 list \<Rightarrow> serving \<Rightarrow> bool" where
  "remembers ds sv \<longleftrightarrow> sv_seen sv = drop (length ds - DEDUPE_FRAMES) ds \<and> sv_seen_set sv = set (sv_seen sv) \<and> distinct (sv_seen sv)"

definition apart :: "u64 list \<Rightarrow> bool" where
  "apart ds \<longleftrightarrow> (\<forall>i j. i < j \<longrightarrow> j < length ds \<longrightarrow> ds ! i = ds ! j \<longrightarrow> DEDUPE_FRAMES < j - i)"

lemma remembers_cong: "remembers ds sv \<Longrightarrow> sv_seen sv' = sv_seen sv \<Longrightarrow> sv_seen_set sv' = sv_seen_set sv \<Longrightarrow> remembers ds sv'"
  unfolding remembers_def by metis

lemma remember_remembers:
  assumes "remembers ds sv" "d \<notin> sv_seen_set sv"
  shows "remembers (ds @ [d]) (remember d sv)"
proof (cases "length (sv_seen sv) < DEDUPE_FRAMES")
  case True
  with assms(1) have "length ds < DEDUPE_FRAMES" "sv_seen sv = ds" by (auto simp: remembers_def DEDUPE_FRAMES_def)
  with assms show ?thesis by (simp add: remembers_def remember_def Let_def)
next
  case False
  with assms(1) have l: "DEDUPE_FRAMES \<le> length ds" "length (sv_seen sv) = DEDUPE_FRAMES" by (auto simp: remembers_def)
  then obtain x xs where x: "sv_seen sv = x # xs" by (cases "sv_seen sv") (auto simp: DEDUPE_FRAMES_def)
  have "drop (length ds + 1 - DEDUPE_FRAMES) (ds @ [d]) = xs @ [d]"
  proof -
    have "drop (Suc (length ds - DEDUPE_FRAMES)) ds = tl (sv_seen sv)" using assms(1) by (simp add: remembers_def drop_Suc tl_drop)
    moreover have "Suc (length ds) - DEDUPE_FRAMES = Suc (length ds - DEDUPE_FRAMES)" using l(1) by (rule Suc_diff_le)
    ultimately show ?thesis using l x by (simp add: DEDUPE_FRAMES_def)
  qed
  moreover have "remember d sv = sv\<lparr>sv_seen := xs @ [d], sv_seen_set := insert d (sv_seen_set sv) - {x}\<rparr>"
    using l(2) by (simp add: remember_def Let_def x)
  moreover have "sv_seen_set sv = set (sv_seen sv)" "distinct (sv_seen sv)" using assms(1) unfolding remembers_def by blast+
  with assms(2) have "sv_seen_set sv = insert x (set xs)" "distinct (x # xs)" "d \<notin> insert x (set xs)" by (simp_all add: x)
  ultimately show ?thesis unfolding remembers_def by auto
qed

lemma apart_snoc:
  assumes "apart ds" "remembers ds sv" "d \<notin> sv_seen_set sv"
  shows "apart (ds @ [d])"
proof -
  have "DEDUPE_FRAMES < length ds - i" if "i < length ds" "ds ! i = d" for i
  proof (rule ccontr)
    assume "\<not> DEDUPE_FRAMES < length ds - i"
    then have "length ds - DEDUPE_FRAMES \<le> i" by simp
    then have "drop (length ds - DEDUPE_FRAMES) ds ! (i - (length ds - DEDUPE_FRAMES)) = ds ! i"
      "i - (length ds - DEDUPE_FRAMES) < length (drop (length ds - DEDUPE_FRAMES) ds)"
      using that(1) by (simp_all add: diff_less_mono)
    then have "ds ! i \<in> set (drop (length ds - DEDUPE_FRAMES) ds)" by (metis nth_mem)
    with assms(2,3) that(2) show False by (auto simp: remembers_def)
  qed
  with assms(1) show ?thesis by (auto simp: apart_def nth_append less_Suc_eq)
qed

abbreviation digests :: "trace \<Rightarrow> u64 list" where
  "digests tr \<equiv> map (\<lambda>p. frame_hash (fst p)) (publications tr)"

lemma serve_turn_remembers:
  assumes "serve_turn cr cl pe pd fault t (sv, fs, c) = ((sv', fs', c'), res)" "remembers ds sv" "apart ds"
  shows "remembers (ds @ digests [(t, sv, sent c c')]) sv' \<and> apart (ds @ digests [(t, sv, sent c c')])"
  using assms(1)
proof (cases rule: serve_turn_cases)
  case (box frame)
  from box(2) show ?thesis
  proof (cases rule: serve_publish_out)
    case (out r sealed m)
    have "remembers ds (sv\<lparr>sv_relay := r\<rparr>)" "frame_hash frame \<notin> sv_seen_set (sv\<lparr>sv_relay := r\<rparr>)"
      using assms(2) out(1) by (auto elim: remembers_cong)
    then have "remembers (ds @ [frame_hash frame]) (remember (frame_hash frame) (sv\<lparr>sv_relay := r\<rparr>))" by (rule remember_remembers)
    moreover have "apart (ds @ [frame_hash frame])" using apart_snoc assms(2,3) out(1) by blast
    ultimately show ?thesis using box(1) out(5,9) by (auto simp: published_in_def sent_def elim: remembers_cong)
  next
    case silent
    then show ?thesis using box(1) assms(2,3) by (auto simp: published_in_def sent_def elim: remembers_cong)
  qed
next
  case (hub c1 ev)
  with assms(2,3) serve_event_keeps [OF hub(3)] show ?thesis by (auto simp: published_in_def elim: remembers_cong)
qed (use assms(2,3) in \<open>simp_all add: published_in_def sent_def\<close>)

lemma serve_loop_apart:
  assumes "remembers ds (fst st)" "apart ds"
  shows "apart (ds @ digests (serve_trace cr cl pe pd fault ts st))"
  using assms
proof (induction ts arbitrary: st ds)
  case (Cons t ts)
  obtain sv fs c where st: "st = (sv, fs, c)" by (metis prod.exhaust)
  obtain sv' fs' c' res where turn: "serve_turn cr cl pe pd fault t (sv, fs, c) = ((sv', fs', c'), res)" by (metis prod.exhaust)
  have r: "remembers (ds @ digests [(t, sv, sent c c')]) sv'" "apart (ds @ digests [(t, sv, sent c c')])"
    using serve_turn_remembers [OF turn] Cons.prems by (auto simp: st)
  show ?case
  proof (cases res)
    case (Inr u)
    with Cons.IH [of "ds @ digests [(t, sv, sent c c')]" "(sv', fs', c')"] r turn show ?thesis by (simp add: st)
  qed (use r turn in \<open>simp add: st\<close>)
qed simp

lemma apart_window:
  assumes "apart ds"
  shows "distinct (take (Suc DEDUPE_FRAMES) (drop i ds))"
proof -
  have far: "ds ! (i + x) \<noteq> ds ! (i + y)" if "x < y" "y < Suc DEDUPE_FRAMES" "i + y < length ds" for x y
  proof
    assume "ds ! (i + x) = ds ! (i + y)"
    with assms that(1,3) have "DEDUPE_FRAMES < (i + y) - (i + x)" unfolding apart_def by (metis add_less_cancel_left)
    with that(2) show False by simp
  qed
  have "ds ! (i + k) \<noteq> ds ! (i + l)" if "k < Suc DEDUPE_FRAMES" "l < Suc DEDUPE_FRAMES" "i + k < length ds" "i + l < length ds" "k \<noteq> l" for k l
    using far [of k l] far [of l k] that by (metis nat_neq_iff)
  then show ?thesis by (auto simp: distinct_conv_nth)
qed

text \<open>C26. Whatever a box replays and whatever arrives from the hub in between, a connector puts no frame on the socket that is among the last 4096
  frames it put there: of the frames that a run's messages publish, in the order in which they go out, any 4097 in a row are pairwise different. The run
  is that of a connector that starts with nothing remembered; a frame the hub refuses ends it.\<close>

theorem no_frame_is_published_twice:
  assumes "sv_seen sv = []" "sv_seen_set sv = {}"
  shows "distinct (take (Suc DEDUPE_FRAMES) (drop i (map fst (publications (serve_trace cr cl pe pd fault ts (sv, fs, c))))))"
proof -
  have "apart ([] @ digests (serve_trace cr cl pe pd fault ts (sv, fs, c)))"
    by (rule serve_loop_apart) (simp_all add: assms remembers_def apart_def)
  then have "distinct (take (Suc DEDUPE_FRAMES) (drop i (digests (serve_trace cr cl pe pd fault ts (sv, fs, c)))))"
    by (auto dest: apart_window)
  then have "distinct (map frame_hash (take (Suc DEDUPE_FRAMES) (drop i (map fst (publications (serve_trace cr cl pe pd fault ts (sv, fs, c)))))))"
    by (simp add: drop_map take_map comp_def)
  then show ?thesis by (metis distinct_map)
qed

section \<open>A grant covers what its key sealed\<close>

definition published_on :: "bool \<Rightarrow> trace \<Rightarrow> (bytes \<times> stream_key \<times> bytes) list" where
  "published_on edge tr = filter (\<lambda>p. on_edge (fst p) = edge) (publications tr)"

text \<open>A message that carries a frame, sealed with a counter under a key.\<close>

definition carries ::
    "'x stream_suite_scheme \<Rightarrow> (frame \<Rightarrow> bytes) \<Rightarrow> nat \<Rightarrow> sender \<Rightarrow> channels \<Rightarrow> nat \<Rightarrow> bytes \<times> stream_key \<times> bytes \<Rightarrow> bool" where
  "carries cr pe mx p chans n = (\<lambda>(frame, key, m).
     \<exists>rnd sealed. seal_frame cr rnd p (channel_of (on_edge frame) chans) key n frame = Inr sealed
       \<and> encode_frames pe [publication frame chans sealed] mx = Inr m)"

definition numbered :: "'x stream_suite_scheme \<Rightarrow> (frame \<Rightarrow> bytes) \<Rightarrow> nat \<Rightarrow> sender \<Rightarrow> channels \<Rightarrow> trace \<Rightarrow> bool" where
  "numbered cr pe mx p chans tr \<longleftrightarrow> (\<forall>edge i. i < length (published_on edge tr) \<longrightarrow> carries cr pe mx p chans (Suc i) (published_on edge tr ! i))"

definition covers :: "trace \<Rightarrow> box_relay \<Rightarrow> bool" where
  "covers tr r \<longleftrightarrow> (\<forall>edge. counter_of edge r = length (published_on edge tr) \<and> start_of edge (bx_key_from r) \<le> Suc (counter_of edge r)
     \<and> (\<forall>i < length (published_on edge tr). start_of edge (bx_key_from r) \<le> Suc i \<longrightarrow> fst (snd (published_on edge tr ! i)) = bx_key r))"

definition run_kept :: "'x stream_suite_scheme \<Rightarrow> (frame \<Rightarrow> bytes) \<Rightarrow> nat \<Rightarrow> sender \<Rightarrow> channels \<Rightarrow> trace \<Rightarrow> box_relay \<Rightarrow> bool" where
  "run_kept cr pe mx p chans tr r \<longleftrightarrow> bx_publisher r = p \<and> bx_channels r = chans \<and> numbered cr pe mx p chans tr \<and> covers tr r"

lemma published_on_append: "published_on edge (tr @ tr') = published_on edge tr @ published_on edge tr'"
  by (simp add: published_on_def)

lemma silent_turn:
  assumes "published_in e = []"
  shows "numbered cr pe mx p chans (tr @ [e]) = numbered cr pe mx p chans tr" "covers (tr @ [e]) r = covers tr r"
proof -
  have "published_on edge (tr @ [e]) = published_on edge tr" for edge using assms by (simp add: published_on_def)
  then show "numbered cr pe mx p chans (tr @ [e]) = numbered cr pe mx p chans tr" "covers (tr @ [e]) r = covers tr r"
    by (simp_all add: numbered_def covers_def)
qed

lemma covers_rotated:
  assumes "covers tr r"
  shows "covers tr (rotate_key key r)"
proof -
  have "counter_of edge (rotate_key key r) = counter_of edge r" "start_of edge (bx_key_from (rotate_key key r)) = Suc (counter_of edge r)" for edge
    by (simp_all add: rotate_key_def counter_of_def start_of_def)
  with assms show ?thesis by (simp add: covers_def)
qed

text \<open>A frame that goes out: one publication more on its channel, numbered by the counter that was next.\<close>

lemma kept_out:
  assumes kept: "run_kept cr pe mx p chans tr r" and one: "published_in e = [(frame, bx_key r, m)]"
    and seal: "seal_frame cr rnd p (channel_of (on_edge frame) chans) (bx_key r) (Suc (counter_of (on_edge frame) r)) frame = Inr sealed"
    and enc: "encode_frames pe [publication frame chans sealed] mx = Inr m"
    and r': "r' = (if on_edge frame then r\<lparr>bx_edge_counter := bx_edge_counter r + 1\<rparr> else r\<lparr>bx_sample_counter := bx_sample_counter r + 1\<rparr>)"
  shows "run_kept cr pe mx p chans (tr @ [e]) r'"
proof -
  have pub: "published_on edge (tr @ [e]) = published_on edge tr @ (if on_edge frame = edge then [(frame, bx_key r, m)] else [])" for edge
    using one by (auto simp: published_on_def)
  have num: "carries cr pe mx p chans (Suc (counter_of (on_edge frame) r)) (frame, bx_key r, m)"
    using seal enc by (auto simp: carries_def)
  have cov: "covers tr r" and nb: "numbered cr pe mx p chans tr" using kept by (simp_all add: run_kept_def)
  then have len: "counter_of edge r = length (published_on edge tr)" for edge by (simp add: covers_def)
  have "numbered cr pe mx p chans (tr @ [e])"
    using nb num unfolding numbered_def pub by (auto simp: nth_append len less_Suc_eq)
  moreover have "covers (tr @ [e]) r'"
    unfolding covers_def
  proof
    fix edge
    have same: "bx_key r' = bx_key r" "bx_key_from r' = bx_key_from r" by (simp_all add: r')
    have cnt: "counter_of edge r' = counter_of edge r + (if on_edge frame = edge then 1 else 0)" by (auto simp: r' counter_of_def)
    show "counter_of edge r' = length (published_on edge (tr @ [e])) \<and> start_of edge (bx_key_from r') \<le> Suc (counter_of edge r')
      \<and> (\<forall>i < length (published_on edge (tr @ [e])). start_of edge (bx_key_from r') \<le> Suc i \<longrightarrow>
           fst (snd (published_on edge (tr @ [e]) ! i)) = bx_key r')"
    proof (intro conjI allI impI)
      show "counter_of edge r' = length (published_on edge (tr @ [e]))" using len by (simp add: cnt pub)
      have "start_of edge (bx_key_from r) \<le> Suc (counter_of edge r)" using cov unfolding covers_def by blast
      then show "start_of edge (bx_key_from r') \<le> Suc (counter_of edge r')" by (simp add: cnt same)
      fix i assume i: "i < length (published_on edge (tr @ [e]))" "start_of edge (bx_key_from r') \<le> Suc i"
      show "fst (snd (published_on edge (tr @ [e]) ! i)) = bx_key r'"
      proof (cases "i < length (published_on edge tr)")
        case True
        with cov i(2) show ?thesis by (simp add: covers_def same pub nth_append)
      next
        case False
        with i(1) show ?thesis by (auto simp: same pub nth_append split: if_splits)
      qed
    qed
  qed
  moreover have "bx_publisher r' = p" "bx_channels r' = chans" using kept by (auto simp: run_kept_def r')
  ultimately show ?thesis by (simp add: run_kept_def)
qed

lemma serve_turn_kept:
  assumes turn: "serve_turn cr cl pe pd fault t (sv, fs, c) = ((sv', fs', c'), res)" and kept: "run_kept cr pe (cl_max_frame c) p chans tr (sv_relay sv)"
  shows "numbered cr pe (cl_max_frame c) p chans (tr @ [(t, sv, sent c c')])
    \<and> (res = Inr () \<longrightarrow> run_kept cr pe (cl_max_frame c) p chans (tr @ [(t, sv, sent c c')]) (sv_relay sv'))"
  using turn
proof (cases rule: serve_turn_cases)
  case (box frame)
  from box(2) show ?thesis
  proof (cases rule: serve_publish_out)
    case silent
    then have "published_in (t, sv, sent c c') = []" using box(1) by (simp add: published_in_def sent_def)
    with kept silent(4) show ?thesis by (auto simp: run_kept_def silent_turn)
  next
    case (out r sealed m)
    have one: "published_in (t, sv, sent c c') = [(frame, bx_key (sv_relay sv), m)]" using box(1) out(5) by (simp add: published_in_def sent_def)
    obtain c2 q where "relay_frame cr pe (tn_rnd t 0) frame c (sv_relay sv) = (r, c2, q)" using out(8) by (metis prod.collapse)
    then have r: "r = (if on_edge frame then (sv_relay sv)\<lparr>bx_edge_counter := bx_edge_counter (sv_relay sv) + 1\<rparr>
        else (sv_relay sv)\<lparr>bx_sample_counter := bx_sample_counter (sv_relay sv) + 1\<rparr>)"
      by (cases rule: relay_frame_moves) (use out(2) in \<open>auto simp: on_edge_def\<close>)
    have pc: "bx_publisher (sv_relay sv) = p" "bx_channels (sv_relay sv) = chans" using kept by (simp_all add: run_kept_def)
    from kept_out [OF kept one out(3,4) [unfolded pc] r] out(9) show ?thesis by (simp add: run_kept_def)
  qed
next
  case (hub c1 ev)
  then have "published_in (t, sv, sent c c') = []" by (simp add: published_in_def)
  with kept serve_event_keeps(1) [OF hub(3)] covers_rotated show ?thesis by (auto simp: run_kept_def silent_turn rotate_key_def)
qed (use kept in \<open>auto simp: run_kept_def silent_turn published_in_def sent_def\<close>)

definition grants_covered ::
    "'x stream_suite_scheme \<Rightarrow> (frame \<Rightarrow> bytes) \<Rightarrow> nat \<Rightarrow> sender \<Rightarrow> trace \<Rightarrow> turn \<Rightarrow> serving \<Rightarrow> bytes list \<Rightarrow> bool" where
  "grants_covered cr pe mx me tr t sv ms \<longleftrightarrow>
     (\<exists>us. list_all2 (utters cr pe mx me t sv) us ms
        \<and> (\<forall>asked edge key start. SayGrant asked edge key start \<in> set us \<longrightarrow>
             start \<le> Suc (length (published_on edge tr))
             \<and> (\<forall>i < length (published_on edge tr). start \<le> Suc i \<longrightarrow> fst (snd (published_on edge tr ! i)) = key)))"

lemma serve_turn_grants:
  assumes turn: "serve_turn cr cl pe pd fault t (sv, fs, c) = ((sv', fs', c'), res)" and cov: "covers tr (sv_relay sv)"
  shows "grants_covered cr pe (cl_max_frame c) (client_sender c) tr t sv (sent c c')"
proof -
  from adds_sent(2) [OF serve_turn_adds [OF turn]] obtain us where us: "list_all2 (utters cr pe (cl_max_frame c) (client_sender c) t sv) us (sent c c')"
    "list_all (may_say cr cl pe pd t sv c) us" by blast
  have "start \<le> Suc (length (published_on edge tr)) \<and> (\<forall>i < length (published_on edge tr). start \<le> Suc i \<longrightarrow> fst (snd (published_on edge tr ! i)) = key)"
    if "SayGrant asked edge key start \<in> set us" for asked edge key start
  proof -
    from us(2) that have "may_say cr cl pe pd t sv c (SayGrant asked edge key start)" unfolding list_all_iff by blast
    then have "key = bx_key (sv_relay sv)" "start = start_of edge (bx_key_from (sv_relay sv))" by simp_all
    moreover have "start_of edge (bx_key_from (sv_relay sv)) \<le> Suc (counter_of edge (sv_relay sv))" using cov unfolding covers_def by blast
    ultimately show ?thesis using cov by (simp add: covers_def)
  qed
  with us(1) show ?thesis unfolding grants_covered_def by blast
qed

lemma serve_trace_kept:
  assumes "run_kept cr pe (cl_max_frame (snd (snd st))) p chans log (sv_relay (fst st))"
    and "cl_max_frame (snd (snd st)) = mx" and "client_sender (snd (snd st)) = me"
  shows "numbered cr pe mx p chans (log @ serve_trace cr cl pe pd fault ts st)
    \<and> (\<forall>tr1 t sv1 ms tr2. serve_trace cr cl pe pd fault ts st = tr1 @ (t, sv1, ms) # tr2 \<longrightarrow> grants_covered cr pe mx me (log @ tr1) t sv1 ms)"
  using assms
proof (induction ts arbitrary: st log)
  case Nil
  then show ?case by (simp add: run_kept_def)
next
  case (Cons t ts)
  obtain sv fs c where st: "st = (sv, fs, c)" by (metis prod.exhaust)
  obtain sv' fs' c' res where turn: "serve_turn cr cl pe pd fault t (sv, fs, c) = ((sv', fs', c'), res)" by (metis prod.exhaust)
  let ?e = "(t, sv, sent c c')"
  have mx: "cl_max_frame c = mx" "client_sender c = me" using Cons.prems(2,3) by (simp_all add: st)
  then have same: "cl_max_frame c' = mx" "client_sender c' = me" using serve_turn_adds [OF turn] by (simp_all add: adds_def)
  have k: "run_kept cr pe (cl_max_frame c) p chans log (sv_relay sv)" using Cons.prems(1) by (simp add: st)
  then have "covers log (sv_relay sv)" by (simp add: run_kept_def)
  from serve_turn_grants [OF turn this] have now: "grants_covered cr pe mx me log t sv (sent c c')" by (simp only: mx)
  note K = serve_turn_kept [OF turn k, unfolded mx]
  let ?rest = "case res of Inl e \<Rightarrow> [] | Inr _ \<Rightarrow> serve_trace cr cl pe pd fault ts (sv', fs', c')"
  have tr: "serve_trace cr cl pe pd fault (t # ts) st = ?e # ?rest" using turn by (simp add: st)
  have I: "numbered cr pe mx p chans ((log @ [?e]) @ ?rest)
    \<and> (\<forall>tr1 t sv1 ms tr2. ?rest = tr1 @ (t, sv1, ms) # tr2 \<longrightarrow> grants_covered cr pe mx me ((log @ [?e]) @ tr1) t sv1 ms)"
  proof (cases res)
    case (Inl e)
    with K show ?thesis by simp
  next
    case (Inr u)
    have kept: "run_kept cr pe (cl_max_frame (snd (snd (sv', fs', c')))) p chans (log @ [?e]) (sv_relay (fst (sv', fs', c')))"
      using K Inr same by simp
    have "cl_max_frame (snd (snd (sv', fs', c'))) = mx" "client_sender (snd (snd (sv', fs', c'))) = me" using same by simp_all
    from Cons.IH [OF kept this] Inr show ?thesis by simp
  qed
  show ?case
  proof (intro conjI allI impI)
    show "numbered cr pe mx p chans (log @ serve_trace cr cl pe pd fault (t # ts) st)" using I tr by simp
  next
    fix tr1 t' sv1 ms tr2 assume eq: "serve_trace cr cl pe pd fault (t # ts) st = tr1 @ (t', sv1, ms) # tr2"
    show "grants_covered cr pe mx me (log @ tr1) t' sv1 ms"
    proof (cases tr1)
      case Nil
      with eq tr now show ?thesis by simp
    next
      case (Cons e tr1')
      with eq tr have "?rest = tr1' @ (t', sv1, ms) # tr2" "e = ?e" by simp_all
      with I Cons show ?thesis by simp
    qed
  qed
qed

text \<open>C25. What a connector seals and what it grants fit together. Of the messages it publishes on a channel, the first carries its frame sealed with the
  counter 1, the next with 2, and so on, across every rotation, each under the key the connector had at the time. And where it sends out a grant, the counter
  the grant names is at most the next one of its channel, and every message published there before with that counter or a later one was sealed under the key the
  grant carries: a device granted after a rotation can read on from it, and nothing sealed under another key is among what its grant covers.\<close>

theorem a_grant_covers_what_its_key_sealed:
  assumes "serve_trace cr cl pe pd fault ts (sv, fs, c) = tr" and "sv_relay sv = box_relay_new p k chans"
  shows "(\<forall>edge i. i < length (published_on edge tr) \<longrightarrow> carries cr pe (cl_max_frame c) p chans (Suc i) (published_on edge tr ! i))
    \<and> (\<forall>tr1 t sv1 ms tr2. tr = tr1 @ (t, sv1, ms) # tr2 \<longrightarrow>
         (\<exists>us. list_all2 (utters cr pe (cl_max_frame c) (client_sender c) t sv1) us ms
             \<and> (\<forall>asked edge key start. SayGrant asked edge key start \<in> set us \<longrightarrow>
                  start \<le> Suc (length (published_on edge tr1))
                  \<and> (\<forall>i < length (published_on edge tr1). start \<le> Suc i \<longrightarrow> fst (snd (published_on edge tr1 ! i)) = key))))"
proof -
  have "run_kept cr pe (cl_max_frame (snd (snd (sv, fs, c)))) p chans [] (sv_relay (fst (sv, fs, c)))"
    by (simp add: assms(2) run_kept_def numbered_def covers_def published_on_def box_relay_new_def counter_of_def start_of_def)
  from serve_trace_kept [OF this refl refl, of cl pd fault ts] assms(1) show ?thesis
    by (simp add: numbered_def grants_covered_def)
qed

section \<open>Where a box is resumed\<close>

lemma serve_turn_resume:
  assumes "serve_turn cr cl pe pd fault t (sv, fs, c) = ((sv', fs', c'), res)" "sv_published sv = Some newest"
  shows "\<exists>m. sv_published sv' = Some m \<and> newest \<le> m"
  using assms(1)
proof (cases rule: serve_turn_cases)
  case (box frame)
  from box(2) show ?thesis by (cases rule: serve_publish_cases) (auto simp: assms(2) note_published_def split: option.split)
next
  case (hub c1 ev)
  with serve_event_keeps(4) [OF hub(3)] assms(2) show ?thesis by simp
qed (use assms(2) in auto)

lemma serve_loop_resume:
  assumes "serve_loop cr cl pe pd fault ts st = (st', e)" "sv_published (fst st) = Some newest"
  shows "\<exists>m. sv_published (fst st') = Some m \<and> newest \<le> m"
  using assms
proof (induction ts arbitrary: st newest)
  case (Cons t ts)
  obtain sv fs c where st: "st = (sv, fs, c)" by (metis prod.exhaust)
  obtain sv' fs' c' res where turn: "serve_turn cr cl pe pd fault t (sv, fs, c) = ((sv', fs', c'), res)" by (metis prod.exhaust)
  obtain m where m: "sv_published sv' = Some m" "newest \<le> m" using serve_turn_resume [OF turn] Cons.prems(2) by (auto simp: st)
  show ?case
  proof (cases res)
    case (Inr u)
    with Cons.IH [of "(sv', fs', c')" m] Cons.prems(1) turn m show ?thesis by (auto simp: st intro: order.trans)
  qed (use Cons.prems(1) turn m in \<open>auto simp: st\<close>)
qed simp

text \<open>A box whose clock was ahead and is set back pins the resume point: whatever the box sends from then on, a reconnect before that
  time asks for the slack only, thirty seconds, however long the connection was gone.\<close>

theorem a_clock_set_back_pins_the_resume_point:
  assumes "serve_loop cr cl pe pd fault ts (sv, fs, c) = ((sv', fs', c'), e)" "sv_published sv = Some newest" "now \<le> unat newest"
  shows "since_ms now (sv_published sv') = Some BACKFILL_SLACK_MS"
proof -
  obtain m where "sv_published sv' = Some m" "newest \<le> m" using serve_loop_resume [OF assms(1)] assms(2) by auto
  with assms(3) show ?thesis by (auto simp: since_ms_def BACKFILL_SLACK_MS_def word_le_nat_alt)
qed

section \<open>An example\<close>

text \<open>A connector whose hub delivers the phone's request for the key.\<close>

definition porch :: stream_suite where
  "porch = post\<lparr>dec_command := (\<lambda>_. Some (note_command\<lparr>cm_body := ascii GRANT_COMMAND\<rparr>))\<rparr>"

definition phone_asks :: opened where
  "phone_asks = note_opened\<lparr>op_body := ascii GRANT_COMMAND\<rparr>"

lemma porch_opens: "receiver_open porch (pad_key [7]) note_sealed 16 mailbox = (mailbox\<lparr>rc_replay := mailbox_after\<rparr>, Inr phone_asks)"
proof -
  have d: "desk_like porch" by (simp add: desk_like_def porch_def post_def)
  have "unseal porch SEAL_INFO_LABEL (pad_key [7]) note_sealed mailbox = Inr [6]"
    using mail_facts(9) [OF post_is_mail] unpack_pack
    by (simp add: unseal_def hpke_open_raw_def porch_def post_def enc_of_def note_sealed_def mailbox_def shot_open_def Let_def)
  moreover have "check_chain porch (pad_key [7]) [phone_cert] 16 mailbox = Inr phone_verified"
    using desk_like_chain [OF d, of 16] by (simp add: check_chain_def mailbox_def)
  moreover have "verify_command porch (pad_key [7]) (sd_body note_signed) (sd_signature note_signed)"
    by (simp add: verify_command_def verify_def porch_def post_def note_signed_def)
  moreover have "answers_of phone_verified (note_command\<lparr>cm_body := ascii GRANT_COMMAND\<rparr>) = Inr None"
    using mail_facts(10) [OF post_is_mail] by (simp add: answers_of_def note_command_def)
  ultimately have "open_checks porch (pad_key [7]) note_sealed 16 mailbox
      = Inr (note_signed, phone_verified, note_command\<lparr>cm_body := ascii GRANT_COMMAND\<rparr>, None)"
    by (simp add: open_checks_def note_signed_def, simp add: porch_def post_def note_signed_def)
  moreover have "check_addressing (pad_key [7]) (pad_key [7]) (pad_key [2]) (replicate 16 9) 15 16 mailbox
      = (mailbox\<lparr>rc_replay := mailbox_after\<rparr>, Inr (replicate 16 9))"
    using mailbox_admits by (simp add: check_addressing_def mailbox_def NONCE_BYTES_def CLOCK_WINDOW_MS_def abs_diff_def)
  ultimately show ?thesis
    by (simp add: receiver_open_def note_command_def phone_asks_def note_opened_def note_signed_def)
qed

definition hears_phone :: client where
  "hears_phone = listener mailbox [] [Frame (Some (BEnvelope note_envelope))]"

definition small_box :: serving where
  "small_box = serving_new \<lparr>sn_identity = [2], sn_chain = []\<rparr> \<lparr>sk_key = [1], sk_id = [1]\<rparr> \<lparr>ch_edge = [1], ch_sample = [2]\<rparr> [3]
     (revocations_new (pad_key [1]) None [] None) ''box''"

definition hub_turn :: turn where
  "hub_turn = \<lparr>tn_next = FromHub, tn_now = 16, tn_rnd = (\<lambda>_. Some [1]), tn_eph = (\<lambda>_. [1])\<rparr>"

definition box_turn :: "bytes \<Rightarrow> turn" where
  "box_turn frame = \<lparr>tn_next = FromBox (Some frame), tn_now = 16, tn_rnd = (\<lambda>_. Some [1]), tn_eph = (\<lambda>_. [1])\<rparr>"

lemma hears_phone_next:
  "client_next porch talk_enc talk_dec 16 hears_phone
     = ((listener mailbox [] [])\<lparr>cl_receiver := mailbox\<lparr>rc_replay := mailbox_after\<rparr>\<rparr>, Inr (EvCommand phone_asks))"
proof -
  have "op_answers phone_asks = None" by (simp add: phone_asks_def note_opened_def)
  then show ?thesis
    using porch_opens
    by (simp add: client_next.simps on_frame_def client_on_envelope_def note_envelope_def kind_of_i32_def listener_def Let_def hears_phone_def)
qed

lemma talk_sends: "client_send talk_enc [Frame (Some (BEnvelope e))] (2 ^ 16) (hub_says ms\<lparr>ws_out := out\<rparr>) = ((hub_says ms)\<lparr>ws_out := out @ [[1, 4]]\<rparr>, Inr ())"
  by (simp add: client_send_def hub_says_def encode_frames_def talk_enc_def write_frame_def write_varint.simps word_le_nat_alt)

lemma phone_answered:
  "ws_out (cl_ws (fst (snd (serve_command porch bureau talk_enc (tn_rnd hub_turn) (tn_eph hub_turn) phone_asks 16
     ((listener mailbox [] [])\<lparr>cl_receiver := mailbox\<lparr>rc_replay := mailbox_after\<rparr>\<rparr>) small_box)))) = [[1, 4], [1, 4]]"
proof -
  have g: "is_grant phone_asks" "length (cb_agreement_key (op_leaf phone_asks)) = 32"
    by (simp_all add: is_grant_def phone_asks_def note_opened_def VIEW_def phone_body_def spec_body_def phone_spec_def)
  have m: "may_grant bureau (op_chain phone_asks) 16 (sv_revocations small_box) = Inr ()"
    by (simp add: may_grant_def small_box_def serving_new_def revocations_new_def)
  have "\<exists>a b. wrap_for porch (tn_rnd hub_turn) (tn_eph hub_turn) phone_asks p k ch st 16 = Inr (Inr [a, b])" for p k ch st
    using g by (simp add: wrap_for_def is_grant_def Let_def wrap_key_def hub_turn_def hpke_seal_def porch_def post_def shot_seal_def)
  then obtain a b where w: "wrap_for porch (tn_rnd hub_turn) (tn_eph hub_turn) phone_asks (sv_publisher small_box) (bx_key (sv_relay small_box))
      (sv_channels small_box) (bx_key_from (sv_relay small_box)) 16 = Inr (Inr [a, b])" by blast
  show ?thesis
    using g m w talk_sends [of _ "[]" "[]"] talk_sends [of _ "[[1, 4]]" "[]"]
    by (simp add: serve_command_def client_direct_def send_frames_def listener_def hub_says_def)
qed

definition phone_turn :: "(serving \<times> files \<times> client) \<times> (serve_error + unit)" where
  "phone_turn = serve_turn porch bureau talk_enc talk_dec sound_disk hub_turn (small_box, [], hears_phone)"

lemma phone_turn_sends: "sent hears_phone (snd (snd (fst phone_turn))) = [[1, 4], [1, 4]]"
proof -
  obtain sv c r where cmd: "serve_command porch bureau talk_enc (tn_rnd hub_turn) (tn_eph hub_turn) phone_asks 16
     ((listener mailbox [] [])\<lparr>cl_receiver := mailbox\<lparr>rc_replay := mailbox_after\<rparr>\<rparr>) small_box = (sv, c, r)" by (metis prod.exhaust)
  have "tn_next hub_turn = FromHub" "tn_now hub_turn = 16" by (simp_all add: hub_turn_def)
  with cmd hears_phone_next have turn: "phone_turn = ((sv, [], c), r)" by (simp add: phone_turn_def serve_turn_def serve_event_def)
  have "ws_out (cl_ws c) = [[1, 4], [1, 4]]" using phone_answered cmd by simp
  moreover have "ws_out (cl_ws hears_phone) = []" by (simp add: hears_phone_def listener_def hub_says_def)
  ultimately show ?thesis by (simp add: turn sent_def)
qed

theorem only_the_trusted_are_granted_witness:
  "\<exists>us. list_all2 (utters porch talk_enc (cl_max_frame hears_phone) (client_sender hears_phone) hub_turn small_box) us [[1, 4], [1, 4]]
     \<and> list_all (may_say porch bureau talk_enc talk_dec hub_turn small_box hears_phone) us \<and> length us = 2"
proof -
  obtain sv fs c r where turn: "serve_turn porch bureau talk_enc talk_dec sound_disk hub_turn (small_box, [], hears_phone) = ((sv, fs, c), r)" by (metis prod.exhaust)
  then have "sent hears_phone c = [[1, 4], [1, 4]]" using phone_turn_sends by (simp add: phone_turn_def)
  with only_the_trusted_are_granted [OF turn] show ?thesis by (fastforce dest: list_all2_lengthD)
qed

theorem no_frame_is_published_twice_witness:
  "distinct (take (Suc DEDUPE_FRAMES) (drop 0 (map fst (publications (serve_trace porch bureau talk_enc talk_dec sound_disk
     [box_turn [1], hub_turn, box_turn [1]] (small_box, [], hears_phone))))))"
  by (rule no_frame_is_published_twice) (simp_all add: small_box_def serving_new_def)

text \<open>A frame of the box, an edge or a sample, then the phone's grant: the frame goes out under the counter 1.\<close>

definition porch_trace :: trace where
  "porch_trace = serve_trace porch bureau talk_enc talk_dec sound_disk [box_turn [1], hub_turn] (small_box, [], hears_phone)"

lemma porch_route: "relay_route [1] = OnEdge 0"
  by code_simp

lemma porch_publishes: "\<exists>m. publications porch_trace = [([1], \<lparr>sk_key = [1], sk_id = [1]\<rparr>, m)]"
proof -
  obtain sv c r where pub: "serve_publish porch talk_enc (Some [1]) [1] hears_phone small_box = (sv, c, r)" by (metis prod.exhaust)
  have "\<exists>m. sent hears_phone c = [m]"
    using pub porch_route talk_sends [of _ "[]" "[]"]
    by (auto simp: serve_publish_def small_box_def serving_new_def relay_frame_def relay_seal_def box_relay_new_def seal_frame_def porch_def post_def Let_def
        client_publish_def client_publish_coalesced_def send_frames_def hears_phone_def listener_def hub_says_def sent_def)
  then obtain m where "sent hears_phone c = [m]" by blast
  with pub show ?thesis
    by (auto simp: porch_trace_def serve_turn_def box_turn_def hub_turn_def published_in_def small_box_def serving_new_def box_relay_new_def split: prod.splits sum.splits)
qed

theorem a_grant_covers_what_its_key_sealed_witness:
  "\<exists>m. carries porch talk_enc (cl_max_frame hears_phone) \<lparr>sn_identity = [2], sn_chain = []\<rparr> \<lparr>ch_edge = [1], ch_sample = [2]\<rparr> 1
     ([1], \<lparr>sk_key = [1], sk_id = [1]\<rparr>, m)"
proof -
  obtain m where m: "publications porch_trace = [([1], \<lparr>sk_key = [1], sk_id = [1]\<rparr>, m)]" using porch_publishes by blast
  then have on: "published_on (on_edge [1]) porch_trace = [([1], \<lparr>sk_key = [1], sk_id = [1]\<rparr>, m)]" by (simp add: published_on_def)
  have "sv_relay small_box = box_relay_new \<lparr>sn_identity = [2], sn_chain = []\<rparr> \<lparr>sk_key = [1], sk_id = [1]\<rparr> \<lparr>ch_edge = [1], ch_sample = [2]\<rparr>"
    by (simp add: small_box_def serving_new_def)
  from a_grant_covers_what_its_key_sealed [OF porch_trace_def [symmetric] this, THEN conjunct1] on show ?thesis
    by (metis length_Cons list.size(3) nth_Cons_0 One_nat_def lessI)
qed

theorem a_clock_set_back_pins_the_resume_point_witness:
  "since_ms 5 (sv_published (fst (fst (serve_loop porch bureau talk_enc talk_dec sound_disk [box_turn [1], hub_turn]
     (small_box\<lparr>sv_published := Some 1000\<rparr>, [], hears_phone))))) = Some BACKFILL_SLACK_MS"
proof -
  obtain sv fs c e where l: "serve_loop porch bureau talk_enc talk_dec sound_disk [box_turn [1], hub_turn]
      (small_box\<lparr>sv_published := Some 1000\<rparr>, [], hears_phone) = ((sv, fs, c), e)"
    by (metis prod.exhaust)
  from a_clock_set_back_pins_the_resume_point [OF l, of 1000 5] l show ?thesis by simp
qed

end
