(* ===== verification/Ingest.thy ===== *)
theory Ingest
  imports Serving
begin

text \<open>
  Reading a box: \<open>crates/connector/src/events.rs\<close>, the HTTP response taken apart into frames, and \<open>crates/connector/src/run.rs\<close>, one pass
  over a box's stream. A box is what it does with a request: the connection or the write fails, or there is a list of what the reads of the
  socket yield, an error or the bytes of one read; a read that times out is an error of it. Whether the publishing side still takes the n-th frame is \<open>room n\<close>.
\<close>

section \<open>Events\<close>

definition READ_BUFFER_BYTES :: nat where "READ_BUFFER_BYTES = 16 * 2 ^ 10"

datatype ingest_error = IngestIo string | IngestHttp http_error | NotProtobuf string | IngestFrames frame_error | Ended

record events =
  ev_chunked :: "chunked option"
  ev_frames :: frame_reader
  ev_ready :: "bytes list"

type_synonym reads = "(string + bytes) list"

definition events_feed :: "bytes \<Rightarrow> events \<Rightarrow> events \<times> (ingest_error + unit)" where
  "events_feed bs ev =
     (case (case ev_chunked ev of
              Some c \<Rightarrow> (case chunked_push bs c of Inl e \<Rightarrow> Inl (IngestHttp e) | Inr (c1, out) \<Rightarrow> Inr (Some c1, out))
            | None \<Rightarrow> Inr (None, bs)) of
        Inl e \<Rightarrow> (ev, Inl e)
      | Inr (ch, body) \<Rightarrow>
          if body = [] then (ev\<lparr>ev_chunked := ch\<rparr>, Inr ())
          else (case reader_push (ev_frames ev) body of
                  (r, Inl e) \<Rightarrow> (ev\<lparr>ev_chunked := ch, ev_frames := r\<rparr>, Inl (IngestFrames e))
                | (r, Inr frames) \<Rightarrow> (ev\<lparr>ev_chunked := ch, ev_frames := r, ev_ready := ev_ready ev @ frames\<rparr>, Inr ())))"

fun read_into :: "reads \<Rightarrow> reads \<times> (ingest_error + bytes)" where
  "read_into [] = ([], Inl Ended)"
| "read_into (Inl e # rs) = (rs, Inl (IngestIo e))"
| "read_into (Inr bs # rs) = (rs, if bs = [] then Inl Ended else Inr bs)"

text \<open>What \<open>open\<close> does with a head it has parsed, and its loop until it has one.\<close>

definition open_with :: "response_head \<Rightarrow> bytes \<Rightarrow> ingest_error + events" where
  "open_with parsed body =
     and_then (ensure (hd_status parsed = 200) (IngestHttp (HttpStatus (hd_status parsed)))) (\<lambda>_.
     and_then (ensure (is_protobuf parsed) (NotProtobuf (hd_content_type parsed))) (\<lambda>_.
     case events_feed body \<lparr>ev_chunked = (if hd_chunked parsed then Some chunked_default else None),
            ev_frames = reader_new MAX_BOX_FRAME_BYTES, ev_ready = []\<rparr> of
       (ev, Inl e) \<Rightarrow> Inl e | (ev, Inr _) \<Rightarrow> Inr ev))"

fun open_loop :: "bytes \<Rightarrow> reads \<Rightarrow> reads \<times> (ingest_error + events)" where
  "open_loop head rs =
     (case head_parse head of
        Inl e \<Rightarrow> (rs, Inl (IngestHttp e))
      | Inr (Some (parsed, consumed)) \<Rightarrow> (rs, open_with parsed (drop consumed head))
      | Inr None \<Rightarrow>
          (case rs of
             [] \<Rightarrow> ([], Inl Ended)
           | Inl e # rest \<Rightarrow> (rest, Inl (IngestIo e))
           | Inr bs # rest \<Rightarrow> if bs = [] then (rest, Inl Ended) else open_loop (head @ bs) rest))"

declare open_loop.simps [simp del]

definition events_open :: "target \<Rightarrow> nat option \<Rightarrow> (string \<Rightarrow> string + reads) \<Rightarrow> reads \<times> (ingest_error + events)" where
  "events_open t since box =
     (case box (target_request since t) of Inl e \<Rightarrow> ([], Inl (IngestIo e)) | Inr rs \<Rightarrow> open_loop [] rs)"

definition body_done :: "events \<Rightarrow> bool" where
  "body_done ev = (case ev_chunked ev of Some c \<Rightarrow> ch_done c | None \<Rightarrow> False)"

fun next_box_frame :: "events \<Rightarrow> reads \<Rightarrow> (events \<times> reads) \<times> (ingest_error + bytes)" where
  "next_box_frame ev rs =
     (case ev_ready ev of
        f # ready \<Rightarrow> ((ev\<lparr>ev_ready := ready\<rparr>, rs), Inr f)
      | [] \<Rightarrow>
          if body_done ev then ((ev, rs), Inl Ended)
          else (case rs of
                  [] \<Rightarrow> ((ev, []), Inl Ended)
                | Inl e # rest \<Rightarrow> ((ev, rest), Inl (IngestIo e))
                | Inr bs # rest \<Rightarrow>
                    if bs = [] then ((ev, rest), Inl Ended)
                    else (case events_feed bs ev of
                            (ev1, Inl e) \<Rightarrow> ((ev1, rest), Inl e)
                          | (ev1, Inr _) \<Rightarrow> next_box_frame ev1 rest)))"

declare next_box_frame.simps [simp del]

section \<open>One pass\<close>

record pass =
  ps_forwarded :: nat
  ps_consumed :: nat

definition pass_default :: pass where "pass_default = \<lparr>ps_forwarded = 0, ps_consumed = 0\<rparr>"

datatype passed = PassedBox ingest_error | PassedStopped

lemma next_box_frame_less:
  assumes "next_box_frame ev rs = ((ev', rs'), Inr f)"
  shows "length rs' < length rs \<or> rs' = rs \<and> length (ev_ready ev') < length (ev_ready ev)"
  using assms
proof (induction ev rs rule: next_box_frame.induct)
  case (1 ev rs)
  show ?case
  proof (cases "ev_ready ev")
    case (Cons g ready)
    with 1(2) show ?thesis by (auto simp: next_box_frame.simps)
  next
    case Nil
    with 1(2) obtain bs rest where r: "\<not> body_done ev" "rs = Inr bs # rest" "bs \<noteq> []"
      by (auto simp: next_box_frame.simps [of ev] split: if_splits list.splits sum.splits)
    obtain ev1 q where q: "events_feed bs ev = (ev1, q)" by fastforce
    with 1(2) Nil r obtain u where "q = Inr u" by (cases q) (auto simp: next_box_frame.simps [of ev])
    moreover have "next_box_frame ev1 rest = ((ev', rs'), Inr f)"
      using 1(2) Nil r q \<open>q = Inr u\<close> by (simp add: next_box_frame.simps [of ev])
    ultimately have "length rs' < length rest \<or> rs' = rest \<and> length (ev_ready ev') < length (ev_ready ev1)"
      using 1(1) [OF Nil r(1,2) refl r(3) q [symmetric]] by blast
    with r(2) show ?thesis by auto
  qed
qed

function pass_loop :: "(nat \<Rightarrow> bool) \<Rightarrow> events \<Rightarrow> reads \<Rightarrow> pass \<Rightarrow> bytes list \<times> (passed + pass)" where
  "pass_loop room ev rs p =
     (case next_box_frame ev rs of
        (_, Inl e) \<Rightarrow> ([], if p = pass_default then Inl (PassedBox e) else Inr p)
      | ((ev1, rs1), Inr f) \<Rightarrow>
          if fst (box_route f) = Consume then pass_loop room ev1 rs1 (p\<lparr>ps_consumed := ps_consumed p + 1\<rparr>)
          else if \<not> room (ps_forwarded p) then ([], Inl PassedStopped)
          else apfst ((#) f) (pass_loop room ev1 rs1 (p\<lparr>ps_forwarded := ps_forwarded p + 1\<rparr>)))"
  by pat_completeness auto
termination
  by (relation "measures [\<lambda>(room, ev, rs, p). length rs, \<lambda>(room, ev, rs, p). length (ev_ready ev)]")
    (auto dest!: next_box_frame_less [OF sym])

declare pass_loop.simps [simp del]

record round =
  rd_now_ms :: nat
  rd_published :: "u64 option"
  rd_room :: "nat \<Rightarrow> bool"
  rd_box :: "string \<Rightarrow> string + reads"

definition box_pass :: "target \<Rightarrow> round \<Rightarrow> bytes list \<times> (passed + pass)" where
  "box_pass t r =
     (case events_open t (since_ms (rd_now_ms r) (rd_published r)) (rd_box r) of
        (_, Inl e) \<Rightarrow> ([], Inl (PassedBox e))
      | (rs, Inr ev) \<Rightarrow> pass_loop (rd_room r) ev rs pass_default)"

text \<open>The loop of \<open>run\<close>, over what each round finds: the frames it hands on and the waits between passes, and whether it has stopped.\<close>

fun connector_run :: "target \<Rightarrow> round list \<Rightarrow> nat \<Rightarrow> (bytes list \<times> nat) list \<times> bytes list option" where
  "connector_run t [] backoff = ([], None)"
| "connector_run t (r # rs) backoff =
     (case box_pass t r of
        (fs, Inl PassedStopped) \<Rightarrow> ([], Some fs)
      | (fs, Inl (PassedBox e)) \<Rightarrow> apfst ((#) (fs, backoff)) (connector_run t rs (next_backoff backoff))
      | (fs, Inr p) \<Rightarrow>
          let wait = (if ps_forwarded p > 0 \<or> ps_consumed p > 0 then FIRST_BACKOFF_MS else backoff)
          in apfst ((#) (fs, wait)) (connector_run t rs (next_backoff wait)))"

section \<open>What the box wrote is what goes on\<close>

definition relayed_on :: "bytes \<Rightarrow> bool" where
  "relayed_on f \<longleftrightarrow> fst (box_route f) \<noteq> Consume"

definition tally :: "bytes list \<Rightarrow> pass \<Rightarrow> pass" where
  "tally fs p = p\<lparr>ps_forwarded := ps_forwarded p + length (filter relayed_on fs),
     ps_consumed := ps_consumed p + length (filter (Not \<circ> relayed_on) fs)\<rparr>"

text \<open>A stream that still has \<open>gs\<close> to give, in reads \<open>ps\<close>: the chunks decode to the end, and after what is unread they are those frames and nothing else.\<close>

definition still_has :: "events \<Rightarrow> bytes list \<Rightarrow> bytes list \<Rightarrow> bool" where
  "still_has ev ps gs \<longleftrightarrow>
     (\<exists>c c' out. ev_chunked ev = Some c \<and> push_all ps c = Inr (c', out) \<and> ch_done c'
        \<and> reader_inv (ev_frames ev) \<and> fr_max (ev_frames ev) = MAX_BOX_FRAME_BYTES
        \<and> split_frames MAX_BOX_FRAME_BYTES (unread (ev_frames ev)) = ([], None, unread (ev_frames ev))
        \<and> split_frames MAX_BOX_FRAME_BYTES (unread (ev_frames ev) @ out) = (gs, None, []))"

lemma split_frames_rest:
  assumes "split_frames mx bs = (fs, None, rest)"
  shows "split_frames mx rest = ([], None, rest)"
proof -
  have "next_frame mx rest = Inr None" using frames.parse_all_rest [of mx] assms by simp
  then show ?thesis by (simp add: frames.parse_all_unfold [of mx rest])
qed

lemma still_has_feed:
  assumes "still_has ev (p # ps) gs"
  shows "\<exists>ev1 fs gs1. events_feed p ev = (ev1, Inr ()) \<and> ev_ready ev1 = ev_ready ev @ fs \<and> gs = fs @ gs1 \<and> still_has ev1 ps gs1"
proof -
  let ?mx = MAX_BOX_FRAME_BYTES and ?r = "ev_frames ev"
  obtain c c' out where h: "ev_chunked ev = Some c" "push_all (p # ps) c = Inr (c', out)" "ch_done c'"
    "reader_inv ?r" "fr_max ?r = ?mx" "split_frames ?mx (unread ?r) = ([], None, unread ?r)"
    "split_frames ?mx (unread ?r @ out) = (gs, None, [])"
    using assms by (auto simp: still_has_def)
  from h(2) obtain c1 o1 o2 where p: "chunked_push p c = Inr (c1, o1)" "push_all ps c1 = Inr (c', o2)" "out = o1 @ o2"
    by (auto simp: result_ok)
  show ?thesis
  proof (cases "o1 = []")
    case True
    then show ?thesis using h p
      by (intro exI [of _ "ev\<lparr>ev_chunked := Some c1\<rparr>"] exI [of _ "[]"] exI [of _ gs]) (auto simp: events_feed_def still_has_def)
  next
    case False
    obtain r1 res where push: "reader_push ?r o1 = (r1, res)" by fastforce
    obtain fs err rest where sp: "split_frames ?mx (unread ?r @ o1) = (fs, err, rest)" by (metis prod_cases3)
    note A = frames.parse_all_append [of ?mx "unread ?r @ o1" o2, unfolded sp]
    have none: "err = None" using A h(7) p(3) by (cases err) simp_all
    obtain gs1 where gs1: "gs = fs @ gs1" "split_frames ?mx (rest @ o2) = (gs1, None, [])"
      using A h(7) p(3) none by (auto split: prod.splits)
    have r1: "unread r1 = rest" "res = Inr fs" "reader_inv r1" "fr_max r1 = ?mx"
      using reader_push_refines [OF h(4) push, unfolded h(5), OF sp] none by simp_all
    have "events_feed p ev = (ev\<lparr>ev_chunked := Some c1, ev_frames := r1, ev_ready := ev_ready ev @ fs\<rparr>, Inr ())"
      using h(1) p(1) False push r1(2) by (simp add: events_feed_def)
    moreover have "still_has (ev\<lparr>ev_chunked := Some c1, ev_frames := r1, ev_ready := ev_ready ev @ fs\<rparr>) ps gs1"
      using p(2) h(3) r1 gs1(2) split_frames_rest [OF sp [unfolded none]] by (auto simp: still_has_def)
    ultimately show ?thesis using gs1(1) by auto
  qed
qed

lemma still_has_done: "still_has ev ps gs \<Longrightarrow> body_done ev \<or> ps = [] \<Longrightarrow> gs = [] \<and> body_done ev"
  by (auto simp: still_has_def body_done_def push_all_done)

lemma still_has_ready: "still_has (ev\<lparr>ev_ready := fs\<rparr>) ps gs = still_has ev ps gs"
  by (simp add: still_has_def)

definition ended_pass :: "pass \<Rightarrow> passed + pass" where
  "ended_pass p = (if p = pass_default then Inl (PassedBox Ended) else Inr p)"

lemma pass_loop_ready:
  "pass_loop (\<lambda>_. True) ev rs p
    = apfst ((@) (filter relayed_on (ev_ready ev))) (pass_loop (\<lambda>_. True) (ev\<lparr>ev_ready := []\<rparr>) rs (tally (ev_ready ev) p))"
proof (induction "ev_ready ev" arbitrary: ev p)
  case Nil
  then have "pass_loop (\<lambda>_. True) (ev\<lparr>ev_ready := []\<rparr>) rs q = pass_loop (\<lambda>_. True) ev rs q" for q by (cases ev) simp
  with Nil show ?case by (simp add: tally_def apfst_def map_prod_def)
next
  case (Cons f fs)
  have e: "ev_ready ev = f # fs" using Cons(2) by simp
  have "next_box_frame ev rs = ((ev\<lparr>ev_ready := fs\<rparr>, rs), Inr f)" using e by (simp add: next_box_frame.simps)
  then show ?case using Cons(1) [of "ev\<lparr>ev_ready := fs\<rparr>"] e
    by (subst pass_loop.simps) (simp add: tally_def relayed_on_def apfst_compose [symmetric] apfst_def map_prod_def split_beta)
qed

lemma pass_loop_hears:
  assumes "still_has ev ps gs" and "[] \<notin> set ps"
  shows "pass_loop (\<lambda>_. True) ev (map Inr ps) p
    = (filter relayed_on (ev_ready ev @ gs), ended_pass (tally (ev_ready ev @ gs) p))"
  using assms
proof (induction ps arbitrary: ev gs p)
  case Nil
  then have "gs = []" "body_done ev" using still_has_done by blast+
  then show ?case
    by (subst pass_loop_ready, subst pass_loop.simps) (simp add: next_box_frame.simps body_done_def ended_pass_def)
next
  case (Cons b ps)
  let ?ev = "ev\<lparr>ev_ready := []\<rparr>"
  show ?case
  proof (cases "body_done ev")
    case True
    then have "gs = []" using still_has_done Cons.prems(1) by blast
    with True show ?thesis
      by (subst pass_loop_ready, subst pass_loop.simps) (simp add: next_box_frame.simps body_done_def ended_pass_def)
  next
    case False
    obtain ev1 fs gs1 where f: "events_feed b ?ev = (ev1, Inr ())" "ev_ready ev1 = fs" "gs = fs @ gs1" "still_has ev1 ps gs1"
      using still_has_feed [of ?ev b ps gs] Cons.prems(1) by (auto simp: still_has_ready)
    have "next_box_frame ?ev (map Inr (b # ps)) = next_box_frame ev1 (map Inr ps)"
      using False f(1) Cons.prems(2) by (subst next_box_frame.simps) (auto simp: body_done_def)
    then have "pass_loop (\<lambda>_. True) ?ev (map Inr (b # ps)) q = pass_loop (\<lambda>_. True) ev1 (map Inr ps) q" for q
      by (simp add: pass_loop.simps [of _ ?ev] pass_loop.simps [of _ ev1])
    then show ?thesis using Cons.IH [OF f(4)] Cons.prems(2) f
      by (subst pass_loop_ready) (simp add: tally_def add.assoc)
  qed
qed

text \<open>Until its blank line is there, a head is read on; then what is past it is body.\<close>

lemma head_prefix_waits:
  assumes "head_parse hb = Inr (Some (h, length hb))" and "hb = acc @ x" and "x \<noteq> []"
  shows "head_parse acc = Inr None"
proof -
  have len: "length hb \<le> MAX_HEAD_BYTES" using heads_are_settled [of hb] assms(1) by blast
  have "find_sub acc (CRLF @ CRLF) = None"
  proof (rule ccontr)
    assume "find_sub acc (CRLF @ CRLF) \<noteq> None"
    then obtain stop where stop: "find_sub acc (CRLF @ CRLF) = Some stop" by auto
    have "find_sub hb (CRLF @ CRLF) = Some stop" "stop + 4 \<le> length acc"
      using find_sub_append [OF stop, of x] find_sub_bound [OF stop] assms(2) by (simp_all add: CRLF_def)
    then have "length hb = stop + 4" using assms(1) by (auto simp: head_parse_def result_ok Let_def split: if_splits)
    with \<open>stop + 4 \<le> length acc\<close> assms(2,3) show False by (cases x) simp_all
  qed
  with len assms(2) show ?thesis using heads_are_settled [of acc] by simp
qed

lemma open_loop_finds:
  assumes "head_parse hb = Inr (Some (h, length hb))" and "acc @ concat ps = hb @ body" and "[] \<notin> set ps"
  shows "\<exists>x qs. open_loop acc (map Inr ps) = (map Inr qs, open_with h x) \<and> x @ concat qs = body \<and> [] \<notin> set qs"
  using assms(2,3)
proof (induction ps arbitrary: acc)
  case Nil
  with assms(1) heads_are_settled [of hb] show ?case by (intro exI [of _ body] exI [of _ "[]"]) (simp add: open_loop.simps)
next
  case (Cons p ps)
  from Cons.prems(1) consider x where "acc = hb @ x" "x @ concat (p # ps) = body" | x where "hb = acc @ x" "x \<noteq> []"
    unfolding append_eq_append_conv2 by (metis append_Nil2 append_self_conv2)
  then show ?case
  proof cases
    case 1
    then have "head_parse acc = Inr (Some (h, length hb))" using heads_are_settled [of hb] assms(1) by simp
    with 1 have "open_loop acc (map Inr (p # ps)) = (map Inr (p # ps), open_with h x)" by (simp add: open_loop.simps)
    with 1 Cons.prems(2) show ?thesis by blast
  next
    case 2
    from head_prefix_waits [OF assms(1) this] Cons.prems(2)
    have "open_loop acc (map Inr (p # ps)) = open_loop (acc @ p) (map Inr ps)" by (auto simp: open_loop.simps [of acc])
    with Cons.IH [of "acc @ p"] Cons.prems show ?thesis by simp
  qed
qed

text \<open>C27. A box is heard byte for byte. When it answers with a good head and a chunked body of frames within the limit, then however its chunks
  and the reads of the socket fall, also across the end of the head, one pass hands on exactly its frames, unchanged, in order and each once, less
  the hellos that belong to the connection, and counts them.\<close>

theorem the_box_is_heard_byte_for_byte:
  assumes "write_frames MAX_BOX_FRAME_BYTES fs [] = Inr (concat ds)" and "list_all chunk_ok ds"
    and "head_parse hb = Inr (Some (h, length hb))" and "hd_status h = 200" and "is_protobuf h" and "hd_chunked h"
    and "rd_box r (target_request (since_ms (rd_now_ms r) (rd_published r)) t) = Inr (map Inr ps)"
    and "concat ps = hb @ body_bytes ds" and "[] \<notin> set ps" and "rd_room r = (\<lambda>_. True)"
  shows "box_pass t r = (filter (\<lambda>f. fst (box_route f) \<noteq> Consume) fs,
    if fs = [] then Inl (PassedBox Ended)
    else Inr \<lparr>ps_forwarded = length (filter (\<lambda>f. fst (box_route f) \<noteq> Consume) fs),
              ps_consumed = length (filter (\<lambda>f. fst (box_route f) = Consume) fs)\<rparr>)"
proof -
  let ?ev = "\<lparr>ev_chunked = Some chunked_default, ev_frames = reader_new MAX_BOX_FRAME_BYTES, ev_ready = []\<rparr>"
  obtain x qs where o: "open_loop [] (map Inr ps) = (map Inr qs, open_with h x)" "x @ concat qs = body_bytes ds" "[] \<notin> set qs"
    using open_loop_finds [OF assms(3), of "[]" ps "body_bytes ds"] assms(8,9) by auto
  obtain c where "push_all (x # qs) chunked_default = Inr (c, concat ds)" "ch_done c"
    using chunked_bodies_survive_every_cut [OF assms(2), of "x # qs"] o(2) by auto
  moreover have "split_frames MAX_BOX_FRAME_BYTES (concat ds) = (fs, None, [])"
    using assms(1) split_frames_delimit [of fs MAX_BOX_FRAME_BYTES] by (simp add: write_frames_delimit MAX_BOX_FRAME_BYTES_def)
  ultimately have "still_has ?ev (x # qs) fs" by (simp add: still_has_def)
  from still_has_feed [OF this] obtain ev1 gs gs1 where f: "events_feed x ?ev = (ev1, Inr ())" "ev_ready ev1 = gs" "fs = gs @ gs1"
    "still_has ev1 qs gs1" by auto
  have "box_pass t r = pass_loop (\<lambda>_. True) ev1 (map Inr qs) pass_default"
    using assms(4-7,10) o(1) f(1) by (simp add: box_pass_def events_open_def open_with_def ensure_def)
  also have "\<dots> = (filter relayed_on fs, ended_pass (tally fs pass_default))"
    using pass_loop_hears [OF f(4) o(3)] f(2,3) by simp
  also have "ended_pass (tally fs pass_default) = (if fs = [] then Inl (PassedBox Ended) else Inr (tally fs pass_default))"
    by (cases fs) (auto simp: ended_pass_def tally_def pass_default_def)
  finally show ?thesis by (simp add: tally_def pass_default_def relayed_on_def [abs_def] comp_def)
qed

text \<open>Between passes it waits between half a second and thirty seconds, whatever the box does.\<close>

lemma waits_are_bounded:
  "FIRST_BACKOFF_MS \<le> b \<Longrightarrow> b \<le> MAX_BACKOFF_MS \<Longrightarrow> (fs, wait) \<in> set (fst (connector_run t rs b)) \<Longrightarrow>
     FIRST_BACKOFF_MS \<le> wait \<and> wait \<le> MAX_BACKOFF_MS"
proof (induction rs arbitrary: b)
  case (Cons r rs)
  have n: "FIRST_BACKOFF_MS \<le> next_backoff w \<and> next_backoff w \<le> MAX_BACKOFF_MS" if "FIRST_BACKOFF_MS \<le> w" for w
    using that by (auto simp: next_backoff_def FIRST_BACKOFF_MS_def MAX_BACKOFF_MS_def)
  have f: "FIRST_BACKOFF_MS \<le> FIRST_BACKOFF_MS" "FIRST_BACKOFF_MS \<le> MAX_BACKOFF_MS"
    by (simp_all add: FIRST_BACKOFF_MS_def MAX_BACKOFF_MS_def)
  from Cons.prems show ?case
    using Cons.IH [of "next_backoff b"] Cons.IH [of "next_backoff FIRST_BACKOFF_MS"] n [of b] n [of FIRST_BACKOFF_MS] f
    by (auto simp: Let_def split: prod.splits sum.splits passed.splits if_splits)
qed simp

section \<open>An example\<close>

definition good_text :: string where
  "good_text = ''HTTP/1.1 200 OK'' @ NEWLINE @ ''Content-Type: application/protobuf'' @ NEWLINE @ ''Transfer-Encoding: chunked''"

definition good_head :: bytes where
  "good_head = ascii (good_text @ NEWLINE @ NEWLINE)"

definition good_reply :: response_head where
  "good_reply = \<lparr>hd_status = 200, hd_content_type = ''application/protobuf'', hd_chunked = True, hd_content_length = None\<rparr>"

lemma good_text_lines:
  "split_crlf good_text = [''HTTP/1.1 200 OK'', ''Content-Type: application/protobuf'', ''Transfer-Encoding: chunked'']"
  by code_simp

lemma good_text_headers:
  "read_headers 0 [''Content-Type: application/protobuf'', ''Transfer-Encoding: chunked'']
     \<lparr>hd_status = 200, hd_content_type = [], hd_chunked = False, hd_content_length = None\<rparr> = Inr good_reply"
  by code_simp

lemma good_head_length: "length good_head = 83" "length good_text = 79"
  by (simp_all add: good_head_def good_text_def NEWLINE_def ascii_def)

lemma good_head_read: "head_parse good_head = Inr (Some (good_reply, length good_head))"
proof -
  have "find_sub good_head (CRLF @ CRLF) = Some 79"
    by (simp add: good_head_def good_text_def NEWLINE_def ascii_def CRLF_def)
  moreover have "take 79 good_head = ascii good_text" using good_head_length(2) by (simp add: good_head_def ascii_def)
  moreover have "from_utf8 (ascii good_text) = Some good_text"
    by (rule from_utf8_text) (auto simp: good_text_def NEWLINE_def)
  moreover have "status_of ''HTTP/1.1 200 OK'' = Inr 200" by (simp add: status_of_def parse_nat_def to_digit_def)
  ultimately show ?thesis
    by (simp add: head_parse_def MAX_HEAD_BYTES_def good_text_lines good_text_headers good_head_length del: read_headers.simps)
qed

lemma good_reply_is_protobuf: "is_protobuf good_reply"
  by code_simp

definition slow_box :: "string \<Rightarrow> string + reads" where
  "slow_box req = Inr (map Inr [take 70 good_head, drop 70 good_head @ take 4 (body_bytes [[2, 7], [8, 0]]), drop 4 (body_bytes [[2, 7], [8, 0]])])"

definition slow_round :: round where
  "slow_round = \<lparr>rd_now_ms = 0, rd_published = None, rd_room = \<lambda>_. True, rd_box = slow_box\<rparr>"

theorem the_box_is_heard_byte_for_byte_witness:
  "box_pass \<lparr>tg_host = ''box'', tg_port = 80, tg_path = ''/''\<rparr> slow_round
    = ([[7, 8], []], Inr \<lparr>ps_forwarded = 2, ps_consumed = 0\<rparr>)"
proof -
  have w: "write_frames MAX_BOX_FRAME_BYTES [[7, 8], []] [] = Inr (concat [[2, 7], [8, 0]])"
    by (simp add: write_frame_def write_varint.simps word_le_nat_alt MAX_BOX_FRAME_BYTES_def)
  have r: "fst (box_route [7, 8]) \<noteq> Consume" "fst (box_route []) \<noteq> Consume" by code_simp+
  have b: "4 < length (body_bytes [[2, 7], [8, 0]])" by code_simp
  have g: "70 < length good_head" "good_head \<noteq> []" using good_head_length by auto
  show ?thesis
    by (subst the_box_is_heard_byte_for_byte [OF w _ good_head_read, where ps = "[take 70 good_head,
          drop 70 good_head @ take 4 (body_bytes [[2, 7], [8, 0]]), drop 4 (body_bytes [[2, 7], [8, 0]])]"])
      (use r b g good_reply_is_protobuf in \<open>simp_all add: slow_round_def slow_box_def chunk_ok_def MAX_CHUNK_BYTES_def good_reply_def\<close>)
qed

end
