(* ===== verification/Pairing.thy ===== *)
theory Pairing
  imports Ingest
begin

text \<open>
  Pairing a box connector and starting it: \<open>crates/connector/src/pair.rs\<close>, the offer a connector makes and what it refuses to store, and
  of \<open>crates/connector/src/main.rs\<close> the commands \<open>pair\<close>, \<open>run\<close> up to its serving loop, and \<open>status\<close>, with what they print as
  values. The random source is an argument, \<open>None\<close> where it fails; whether an answer came within the window is \<open>in_time\<close>.
\<close>

definition map_err :: "('e \<Rightarrow> 'f) \<Rightarrow> 'e + 'a \<Rightarrow> 'f + 'a" where
  "map_err f r = (case r of Inl e \<Rightarrow> Inl (f e) | Inr x \<Rightarrow> Inr x)"

lemma map_err_ok [result_ok, simp]: "map_err f r = Inr x \<longleftrightarrow> r = Inr x" "map_err f (Inr x) = Inr x"
  by (auto simp: map_err_def split: sum.splits)

section \<open>The offer\<close>

definition PAIRING_WINDOW_MS :: nat where "PAIRING_WINDOW_MS = 10 * 60 * 1000"

definition ROLE :: role where "ROLE = RoleBoxConnector"

record pairing_terms =
  pt_identity_key :: bytes
  pt_agreement_key :: bytes
  pt_role :: int
  pt_label :: string
  pt_offered_at_ms :: nat

record pair_suite = stream_suite +
  enc_offer :: "pairing_terms \<Rightarrow> bytes"
  dec_offer :: "bytes \<Rightarrow> pairing_terms option"
  enc_answer :: "bytes \<Rightarrow> bytes"
  dec_answer :: "bytes \<Rightarrow> bytes option"

datatype pair_error =
    NoRandom | LabelTooLong nat | HubFailed client_error | TimedOut | NotAnAnswer | NotSealed open_error | NotVerified chain_error
  | NotMine | NotMyAgreementKey | WrongRole role

record offer =
  of_keys :: box_keys
  of_code :: string
  of_offer :: bytes

definition offer_new :: "'x pair_suite_scheme \<Rightarrow> bytes option \<Rightarrow> box_keys \<Rightarrow> string \<Rightarrow> nat \<Rightarrow> pair_error + offer" where
  "offer_new cr rnd ks label now_ms =
     and_then (ensure (length label \<le> MAX_LABEL_BYTES) (LabelTooLong (length label))) (\<lambda>_.
     and_then (or_err rnd NoRandom) (\<lambda>bs.
     Inr \<lparr>of_keys = ks, of_code = code_generate bs,
          of_offer = enc_offer cr \<lparr>pt_identity_key = identity_public cr (bk_identity ks),
                       pt_agreement_key = agreement_public cr (bk_agreement ks), pt_role = i32_of_role ROLE, pt_label = label,
                       pt_offered_at_ms = now_ms\<rparr>\<rparr>))"

definition offer_fingerprint :: "'x pair_suite_scheme \<Rightarrow> offer \<Rightarrow> string" where
  "offer_fingerprint cr o1 = fingerprint_hex cr (identity_public cr (bk_identity (of_keys o1))) (agreement_public cr (bk_agreement (of_keys o1)))"

definition offer_leave ::
    "'x pair_suite_scheme \<Rightarrow> (frame \<Rightarrow> bytes) \<Rightarrow> (bytes \<Rightarrow> 'p + frame) \<Rightarrow> offer \<Rightarrow> socket \<Rightarrow> socket \<times> (pair_error + unit)" where
  "offer_leave cr pe pd o1 s =
     (case pairing_offer pe pd (code_hash cr (of_code o1)) (of_offer o1) s of
        (s1, Inl e) \<Rightarrow> (s1, Inl (HubFailed e)) | (s1, Inr _) \<Rightarrow> (s1, Inr ()))"

definition check_paired :: "'x pair_suite_scheme \<Rightarrow> box_keys \<Rightarrow> paired_with \<Rightarrow> nat \<Rightarrow> pair_error + unit" where
  "check_paired cr ks paired now_ms =
     and_then (ensure (length (pw_account_root paired) = 32) NotAnAnswer) (\<lambda>_.
     and_then (map_err NotVerified (verify_chain cr (pw_account_root paired) (pw_chain paired) now_ms)) (\<lambda>v.
     and_then (ensure (v_principal v = principal_id cr (identity_public cr (bk_identity ks))) NotMine) (\<lambda>_.
     and_then (ensure (cb_agreement_key (v_leaf v) = agreement_public cr (bk_agreement ks)) NotMyAgreementKey) (\<lambda>_.
     ensure (role_of_i32 (cb_role (v_leaf v)) = ROLE) (WrongRole (role_of_i32 (cb_role (v_leaf v))))))))"

definition left_answer ::
    "'x pair_suite_scheme \<Rightarrow> (bytes \<Rightarrow> 'p + frame) \<Rightarrow> bool \<Rightarrow> nat \<Rightarrow> offer \<Rightarrow> socket \<Rightarrow> socket \<times> (pair_error + paired_with)" where
  "left_answer cr pd in_time now_ms o1 s =
     (if \<not> in_time then (s, Inl TimedOut)
      else case pairing_answer_wait pd s of
        (s1, Inl e) \<Rightarrow> (s1, Inl (HubFailed e))
      | (s1, Inr bs) \<Rightarrow>
          (s1, and_then (or_err (dec_answer cr bs) NotAnAnswer) (\<lambda>sealed.
               and_then (map_err NotSealed (open_pairing_answer cr (bk_agreement (of_keys o1)) sealed)) (\<lambda>paired.
               and_then (check_paired cr (of_keys o1) paired now_ms) (\<lambda>_. Inr paired)))))"

section \<open>The commands\<close>

datatype main_error =
    AlreadyPaired | StateError io_error | KeysNotWritten io_error | PairFailed pair_error | PairedNotWritten io_error
  | NoKeys | NotPaired | RootNotAKey | CertificateNotValid chain_error | ChannelKeyNotAKey
  | BadBox http_error | StreamRandom | NoRevocations io_error | CannotLogIn client_error

text \<open>\<open>pair\<close>, to what it stores; \<open>rnd\<close> gives the two seeds and the code.\<close>

record pair_world =
  wd_fault :: faults
  wd_now_ms :: nat
  wd_seeds :: "(io_error + bytes) \<times> (io_error + bytes)"
  wd_code :: "bytes option"
  wd_in_time :: bool
  wd_answered_ms :: nat

definition pair_keys :: "pair_world \<Rightarrow> string \<Rightarrow> files \<Rightarrow> files \<times> (main_error + box_keys)" where
  "pair_keys w dir fs =
     (case state_keys (wd_fault w) dir fs of
        Inl e \<Rightarrow> (fs, Inl (StateError e))
      | Inr (Some ks) \<Rightarrow> (fs, Inr ks)
      | Inr None \<Rightarrow>
          (case generate_keys (wd_fault w) dir (fst (wd_seeds w)) (snd (wd_seeds w)) fs of
             (fs1, Inl e) \<Rightarrow> (fs1, Inl (KeysNotWritten e)) | (fs1, Inr ks) \<Rightarrow> (fs1, Inr ks)))"

text \<open>From keys to a pairing, and then to the file.\<close>

definition pair_over ::
    "'x pair_suite_scheme \<Rightarrow> (frame \<Rightarrow> bytes) \<Rightarrow> (bytes \<Rightarrow> 'p + frame) \<Rightarrow> pair_world \<Rightarrow> string \<Rightarrow> box_keys \<Rightarrow> socket \<Rightarrow> pair_error + paired_with" where
  "pair_over cr pe pd w label ks s =
     and_then (offer_new cr (wd_code w) ks label (wd_now_ms w)) (\<lambda>o1.
       case offer_leave cr pe pd o1 s of
         (_, Inl e) \<Rightarrow> Inl e
       | (s1, Inr _) \<Rightarrow> snd (left_answer cr pd (wd_in_time w) (wd_answered_ms w) o1 s1))"

definition pair_command ::
    "'x pair_suite_scheme \<Rightarrow> (frame \<Rightarrow> bytes) \<Rightarrow> (bytes \<Rightarrow> 'p + frame) \<Rightarrow> pair_world \<Rightarrow> string \<Rightarrow> string \<Rightarrow> bool \<Rightarrow> socket \<Rightarrow> files
     \<Rightarrow> files \<times> (main_error + paired_with)" where
  "pair_command cr pe pd w dir label again s fs =
     (case state_paired cr (wd_fault w) dir fs of
        Inl e \<Rightarrow> (fs, Inl (StateError e))
      | Inr held \<Rightarrow>
          if held \<noteq> None \<and> \<not> again then (fs, Inl AlreadyPaired)
          else (case pair_keys w dir fs of
                  (fs1, Inl e) \<Rightarrow> (fs1, Inl e)
                | (fs1, Inr ks) \<Rightarrow>
                    (case pair_over cr pe pd w label ks s of
                       Inl e \<Rightarrow> (fs1, Inl (PairFailed e))
                     | Inr paired \<Rightarrow>
                         (case write_paired cr (wd_fault w) dir paired fs1 of
                            (fs2, Inl e) \<Rightarrow> (fs2, Inl (PairedNotWritten e))
                          | (fs2, Inr _) \<Rightarrow> (fs2, Inr paired)))))"

record ready =
  ry_keys :: box_keys
  ry_publisher_identity :: identity
  ry_chain :: "certificate list"
  ry_account_root :: public_key
  ry_label :: string
  ry_channel_key :: bytes

definition loaded_keys :: "faults \<Rightarrow> string \<Rightarrow> files \<Rightarrow> main_error + box_keys" where
  "loaded_keys fault dir fs = and_then (map_err StateError (state_keys fault dir fs)) (\<lambda>k. or_err k NoKeys)"

definition loaded :: "'x pair_suite_scheme \<Rightarrow> faults \<Rightarrow> string \<Rightarrow> nat \<Rightarrow> files \<Rightarrow> main_error + ready" where
  "loaded cr fault dir now_ms fs =
     and_then (loaded_keys fault dir fs) (\<lambda>ks.
     and_then (loaded_keys fault dir fs) (\<lambda>again.
     and_then (map_err StateError (state_paired cr fault dir fs)) (\<lambda>held.
     and_then (or_err held NotPaired) (\<lambda>paired.
     and_then (ensure (length (pw_account_root paired) = 32) RootNotAKey) (\<lambda>_.
     and_then (map_err CertificateNotValid (verify_chain cr (pw_account_root paired) (pw_chain paired) now_ms)) (\<lambda>v.
     and_then (ensure (length (pw_channel_key paired) = 32) ChannelKeyNotAKey) (\<lambda>_.
     Inr \<lparr>ry_keys = ks, ry_publisher_identity = bk_identity again, ry_chain = pw_chain paired,
          ry_account_root = pw_account_root paired, ry_label = cb_label (v_leaf v), ry_channel_key = pw_channel_key paired\<rparr>)))))))"

text \<open>\<open>run\<close>: what it sets up, then the serving loop over its turns. The box side runs beside it and only feeds it frames.\<close>

definition run_config :: "string \<Rightarrow> ready \<Rightarrow> client_config" where
  "run_config hub_name r =
     \<lparr>cf_hub_name = hub_name, cf_identity = bk_identity (ry_keys r), cf_agreement = bk_agreement (ry_keys r), cf_chain = ry_chain r,
      cf_account_root = ry_account_root r, cf_role = RoleBoxConnector, cf_invite = []\<rparr>"

definition run_channels :: "'x pair_suite_scheme \<Rightarrow> ready \<Rightarrow> channels" where
  "run_channels cr r =
     (let me = principal_id cr (identity_public cr (bk_identity (ry_keys r))) in
      \<lparr>ch_edge = channel_name cr (ry_channel_key r) ''box.edges'' me, ch_sample = channel_name cr (ry_channel_key r) ''box.samples'' me\<rparr>)"

definition run_command ::
    "'x pair_suite_scheme \<Rightarrow> 'y state_suite_scheme \<Rightarrow> (frame \<Rightarrow> bytes) \<Rightarrow> (bytes \<Rightarrow> 'p + frame) \<Rightarrow> faults \<Rightarrow> string \<Rightarrow> string \<Rightarrow> string \<Rightarrow> nat
     \<Rightarrow> Streams.stream_key option \<Rightarrow> socket \<Rightarrow> turn list \<Rightarrow> files \<Rightarrow> main_error + (serving \<times> files \<times> client) \<times> serve_error option" where
  "run_command cr cl pe pd fault dir hub_name box now_ms rnd s ts fs =
     and_then (loaded cr fault dir now_ms fs) (\<lambda>r.
     and_then (map_err BadBox (target_parse box)) (\<lambda>t.
     and_then (or_err rnd StreamRandom) (\<lambda>key.
     and_then (map_err NoRevocations (state_revocations cl fault dir (ry_account_root r) fs)) (\<lambda>revs.
     case client_connect cr pe pd (run_config hub_name r) s of
       (_, Inl e) \<Rightarrow> Inl (CannotLogIn e)
     | (_, Inr c) \<Rightarrow>
         Inr (serve_run cr cl pe pd fault ts
           (serving_new \<lparr>sn_identity = ry_publisher_identity r, sn_chain = ry_chain r\<rparr> key (run_channels cr r) (ry_channel_key r) revs dir,
            fs, c))))))"

section \<open>What a person reads\<close>

definition for_how_long :: "nat \<Rightarrow> nat \<Rightarrow> string" where
  "for_how_long not_after_ms now_ms =
     (let left = (not_after_ms - now_ms) div 1000; days = left div 86400; hours = (left mod 86400) div 3600 in
      if days = 0 \<and> hours = 0 then show_nat ((left mod 3600) div 60) @ '' minutes''
      else if days = 0 then show_nat hours @ '' hours''
      else show_nat days @ '' days, '' @ show_nat hours @ '' hours'')"

definition spaced :: "string \<Rightarrow> string" where
  "spaced code = take (length code div 2) code @ '' '' @ drop (length code div 2) code"

fun join_groups :: "string list \<Rightarrow> string" where
  "join_groups [] = []"
| "join_groups [g] = g"
| "join_groups (g # gs) = g @ '' '' @ join_groups gs"

fun groups_of_four :: "string \<Rightarrow> string list" where
  "groups_of_four [] = []"
| "groups_of_four s = take 4 s # groups_of_four (drop 4 s)"

definition spaced_fingerprint :: "string \<Rightarrow> string" where
  "spaced_fingerprint fp = join_groups (groups_of_four fp)"

text \<open>\<open>status\<close>: nothing to say, or the principal and what it was paired with.\<close>

datatype pairing_status = Unpaired | PairedAs bytes "chain_error + string \<times> role \<times> string"

definition status_command ::
    "'x pair_suite_scheme \<Rightarrow> faults \<Rightarrow> string \<Rightarrow> nat \<Rightarrow> files \<Rightarrow> main_error + (bytes \<times> pairing_status) option" where
  "status_command cr fault dir now_ms fs =
     and_then (map_err StateError (state_keys fault dir fs)) (\<lambda>k.
     case k of
       None \<Rightarrow> Inr None
     | Some ks \<Rightarrow>
         and_then (map_err StateError (state_paired cr fault dir fs)) (\<lambda>held.
         case held of
           None \<Rightarrow> Inr (Some (principal_id cr (identity_public cr (bk_identity ks)), Unpaired))
         | Some paired \<Rightarrow>
             and_then (ensure (length (pw_account_root paired) = 32) RootNotAKey) (\<lambda>_.
             Inr (Some (principal_id cr (identity_public cr (bk_identity ks)),
               PairedAs (pw_account_root paired)
                 (case verify_chain cr (pw_account_root paired) (pw_chain paired) now_ms of
                    Inl e \<Rightarrow> Inl e
                  | Inr v \<Rightarrow> Inr (cb_label (v_leaf v), role_of_i32 (cb_role (v_leaf v)), for_how_long (cb_not_after_ms (v_leaf v)) now_ms)))))))"

section \<open>What a pairing stored runs\<close>

lemma state_read_cong: "map_of fs name = map_of fs' name \<Longrightarrow> state_read fault dir name fs = state_read fault dir name fs'"
  by (simp add: state_read_def cong: option.case_cong)

lemma state_keys_cong:
  "map_of fs IDENTITY_FILE = map_of fs' IDENTITY_FILE \<Longrightarrow> map_of fs AGREEMENT_FILE = map_of fs' AGREEMENT_FILE \<Longrightarrow>
     state_keys fault dir fs = state_keys fault dir fs'"
  by (simp add: state_keys_def state_seed_def state_read_cong [of fs _ fs'])

text \<open>What was read on a failing disk is there on a sound one.\<close>

lemma state_read_sound: "state_read fault dir name fs = Inr (Some bs) \<Longrightarrow> state_read sound_disk dir name fs = Inr (Some bs)"
  by (auto simp: state_read_def result_ok split: option.splits if_splits)

lemma state_seed_sound: "state_seed fault dir name fs = Inr (Some seed) \<Longrightarrow> state_seed sound_disk dir name fs = Inr (Some seed)"
proof -
  assume s: "state_seed fault dir name fs = Inr (Some seed)"
  then obtain bs t where "state_read fault dir name fs = Inr (Some bs)" "from_utf8 bs = Some t" "unhex32 (trim t) = Some seed"
    unfolding state_seed_def result_ok by (auto simp: result_ok split: option.splits)
  then show ?thesis by (simp add: state_seed_def state_read_sound)
qed

lemma state_keys_sound: "state_keys fault dir fs = Inr (Some ks) \<Longrightarrow> state_keys sound_disk dir fs = Inr (Some ks)"
proof -
  assume k: "state_keys fault dir fs = Inr (Some ks)"
  then obtain i a where "state_seed fault dir IDENTITY_FILE fs = Inr (Some i)" "state_seed fault dir AGREEMENT_FILE fs = Inr (Some a)"
    "ks = \<lparr>bk_identity = i, bk_agreement = a\<rparr>"
    unfolding state_keys_def result_ok by (auto split: option.splits)
  then show ?thesis by (simp add: state_keys_def state_seed_sound)
qed

lemma pair_keys_kept:
  assumes "pair_keys w dir fs = (fs', Inr ks)" and "all_private fs" and "wd_seeds w = (Inr i, Inr a)" "length i = 32" "length a = 32"
  shows "state_keys sound_disk dir fs' = Inr (Some ks)" "all_private fs'"
proof -
  from assms(1,3) consider "state_keys (wd_fault w) dir fs = Inr (Some ks)" "fs' = fs"
    | "generate_keys (wd_fault w) dir (Inr i) (Inr a) fs = (fs', Inr ks)"
    by (auto simp: pair_keys_def split: sum.splits option.splits prod.splits)
  then have "state_keys sound_disk dir fs' = Inr (Some ks) \<and> all_private fs'"
    by cases (use assms generated_keys_read [of "wd_fault w" dir i a fs fs' ks] in \<open>auto simp: state_keys_sound\<close>)
  then show "state_keys sound_disk dir fs' = Inr (Some ks)" "all_private fs'" by simp_all
qed

lemma write_paired_kept:
  assumes "write_paired cr fault dir paired fs = (fs', Inr u)" and "all_private fs" and "dec_paired cr (enc_paired cr paired) = Some paired"
  shows "state_keys sound_disk dir fs' = state_keys sound_disk dir fs" "state_paired cr sound_disk dir fs' = Inr (Some paired)"
proof -
  have w: "write_secret fault dir PAIRED_FILE (enc_paired cr paired) True fs = (fs', Inr u)"
    using assms(1) by (auto simp: write_paired_def split: sum.splits)
  show "state_keys sound_disk dir fs' = state_keys sound_disk dir fs"
    by (intro state_keys_cong write_secret_files [OF w]) (simp_all add: IDENTITY_FILE_def AGREEMENT_FILE_def PAIRED_FILE_def)
  let ?f = "(opened_file PAIRED_FILE fs)\<lparr>fl_bytes := enc_paired cr paired, fl_synced := True\<rparr>"
  have "map_of fs' PAIRED_FILE = Some ?f" using write_secret_done(1) [OF w] by (simp add: update_conv')
  from state_read_private [OF this opened_file_private [OF assms(2)], of dir] assms(3)
  show "state_paired cr sound_disk dir fs' = Inr (Some paired)" by (simp add: state_paired_def)
qed

lemma left_answer_own:
  assumes "left_answer cr pd in_time now o1 s = (s', Inr paired)"
  shows "length (pw_account_root paired) = 32" "length (pw_channel_key paired) = 32"
    "\<exists>v. verify_chain cr (pw_account_root paired) (pw_chain paired) now = Inr v
       \<and> v_principal v = principal_id cr (identity_public cr (bk_identity (of_keys o1)))
       \<and> cb_agreement_key (v_leaf v) = agreement_public cr (bk_agreement (of_keys o1))
       \<and> role_of_i32 (cb_role (v_leaf v)) = RoleBoxConnector"
  using assms by (auto simp: left_answer_def open_pairing_answer_def check_paired_def result_ok ROLE_def split: if_splits prod.splits sum.splits(2))

lemma pair_over_own:
  assumes "pair_over cr pe pd w label ks s = Inr paired"
  obtains o1 s1 s2 where "of_keys o1 = ks" "left_answer cr pd (wd_in_time w) (wd_answered_ms w) o1 s1 = (s2, Inr paired)"
proof -
  from assms obtain o1 where o1: "offer_new cr (wd_code w) ks label (wd_now_ms w) = Inr o1" "of_keys o1 = ks"
    and rest: "(case offer_leave cr pe pd o1 s of (_, Inl e) \<Rightarrow> Inl e
       | (s1, Inr _) \<Rightarrow> snd (left_answer cr pd (wd_in_time w) (wd_answered_ms w) o1 s1)) = Inr paired"
    unfolding pair_over_def result_ok by (auto simp: offer_new_def result_ok)
  obtain s1 r where s1: "offer_leave cr pe pd o1 s = (s1, r)" by fastforce
  obtain s2 q where s2: "left_answer cr pd (wd_in_time w) (wd_answered_ms w) o1 s1 = (s2, q)" by fastforce
  from rest s1 s2 have "q = Inr paired" by (cases r) simp_all
  with that [OF o1(2)] s2 show thesis by simp
qed

lemma verify_chain_time:
  "verify_chain cr root chain t = Inr v \<Longrightarrow> verify_chain cr root chain t' = Inr v' \<Longrightarrow> v' = v"
  by (auto simp: verify_chain_def result_ok split: if_splits)

text \<open>C19. A connector stores only a pairing that is its own and that it can use. When the pair command succeeds, on whatever disk and with whatever
  the hub answered, the stored certificate is for this connector's principal, agreement key and role, and after a restart, for as
  long as the certificate is valid, the connector loads exactly these keys, this chain, this account and this channel key.\<close>

theorem what_pairing_stored_runs:
  assumes "pair_command cr pe pd w dir label again s fs = (fs', Inr paired)" and "all_private fs"
    and "wd_seeds w = (Inr i, Inr a)" and "length i = 32" and "length a = 32"
    and "dec_paired cr (enc_paired cr paired) = Some paired"
    and "verify_chain cr (pw_account_root paired) (pw_chain paired) now = Inr v"
  shows "\<exists>ks. state_keys sound_disk dir fs' = Inr (Some ks)
    \<and> v_principal v = principal_id cr (identity_public cr (bk_identity ks))
    \<and> cb_agreement_key (v_leaf v) = agreement_public cr (bk_agreement ks) \<and> role_of_i32 (cb_role (v_leaf v)) = RoleBoxConnector
    \<and> loaded cr sound_disk dir now fs' = Inr \<lparr>ry_keys = ks, ry_publisher_identity = bk_identity ks, ry_chain = pw_chain paired,
        ry_account_root = pw_account_root paired, ry_label = cb_label (v_leaf v), ry_channel_key = pw_channel_key paired\<rparr>"
proof -
  from assms(1) obtain fs1 ks u where p: "pair_keys w dir fs = (fs1, Inr ks)" "pair_over cr pe pd w label ks s = Inr paired"
    "write_paired cr (wd_fault w) dir paired fs1 = (fs', Inr u)"
    by (auto simp: pair_command_def split: sum.splits if_splits prod.splits)
  note K = pair_keys_kept [OF p(1) assms(2-5)]
  note W = write_paired_kept [OF p(3) K(2) assms(6)]
  obtain o1 s1 s2 where o1: "of_keys o1 = ks" "left_answer cr pd (wd_in_time w) (wd_answered_ms w) o1 s1 = (s2, Inr paired)"
    using pair_over_own [OF p(2)] .
  note L = left_answer_own [OF o1(2)]
  have "loaded_keys sound_disk dir fs' = Inr ks" using K(1) W(1) by (simp add: loaded_keys_def)
  then have "loaded cr sound_disk dir now fs' = Inr \<lparr>ry_keys = ks, ry_publisher_identity = bk_identity ks, ry_chain = pw_chain paired,
        ry_account_root = pw_account_root paired, ry_label = cb_label (v_leaf v), ry_channel_key = pw_channel_key paired\<rparr>"
    using W(2) L(1,2) assms(7) by (simp add: loaded_def ensure_def)
  then show ?thesis using K(1) W(1) L(3) o1(1) verify_chain_time [OF assms(7)] by auto
qed

lemma honest_answer_accepted:
  assumes "honest cr" and "seals cr" and "\<forall>x. dec_sealed cr (enc_sealed cr x) = Some x" and "dec_paired cr (enc_paired cr paired) = Some paired"
    and "issue cr root spec = Inr c" and "spec_fits spec" and "cs_subject spec = identity_public cr (bk_identity (of_keys o1))"
    and "cs_agreement_key spec = agreement_public cr (bk_agreement (of_keys o1))" and "cs_role spec = RoleBoxConnector"
    and "cs_subject spec \<noteq> identity_public cr root"
    and "dec_body cr (enc_body cr (spec_body cr root spec)) = Some (spec_body cr root spec)"
    and "length (enc_body cr (spec_body cr root spec)) \<le> MAX_CERT_BYTES" and "cs_not_before_ms spec \<le> now" and "now \<le> cs_not_after_ms spec"
    and "paired = \<lparr>pw_chain = [c], pw_account_root = identity_public cr root, pw_channel_key = channel_key\<rparr>" and "length channel_key = 32"
    and "seal_pairing_answer cr eph (agreement_public cr (bk_agreement (of_keys o1))) paired = Inr sealed" and "length sealed \<le> MAX_SEALED_BYTES"
    and "pairing_answer_wait pd s = (s', Inr bs)" and "dec_answer cr bs = Some sealed"
  shows "left_answer cr pd True now o1 s = (s', Inr paired)"
proof -
  obtain enc ct where sh: "single_shot_seal cr eph (agreement_public cr (bk_agreement (of_keys o1))) PAIRING_INFO_LABEL (enc_paired cr paired) = Some (enc, ct)"
    "sealed = enc_sealed cr \<lparr>sl_enc = enc, sl_ciphertext = ct\<rparr>"
    using assms(17) by (auto simp: seal_pairing_answer_def hpke_seal_raw_def result_ok split: option.splits)
  have "enc_key_ok cr enc" "single_shot_open cr (bk_agreement (of_keys o1)) enc PAIRING_INFO_LABEL ct = Some (enc_paired cr paired)"
    using assms(2) sh(1) by (auto simp: seals_def)
  then have "open_pairing_answer cr (bk_agreement (of_keys o1)) sealed = Inr paired"
    using assms(3,4,16,18) honest_key [OF assms(1), of root] sh(2)
    by (simp add: open_pairing_answer_def hpke_open_raw_def enc_of_def ensure_def assms(15) MAX_CHAIN_def)
  moreover have "check_paired cr (of_keys o1) paired now = Inr ()"
    using issued_verify [OF assms(1,5,6,10-14)] honest_key [OF assms(1), of root] assms(7-9)
    by (simp add: check_paired_def ensure_def assms(15) ROLE_def spec_body_def)
  ultimately show ?thesis using assms(19,20) by (simp add: left_answer_def)
qed


section \<open>An example\<close>

text \<open>A connector that makes its keys, offers them, and is answered by the example account.\<close>

definition box_spec :: cert_spec where
  "box_spec = \<lparr>cs_subject = pad_key [7], cs_agreement_key = pad_key [8], cs_role = RoleBoxConnector, cs_scopes = [],
     cs_may_pair = False, cs_may_revoke = False, cs_not_before_ms = 10, cs_not_after_ms = 20, cs_label = ''box''\<rparr>"

definition box_body :: certificate_body where "box_body = spec_body keyless [1] box_spec"

definition box_cert :: certificate where
  "box_cert = \<lparr>cert_body = [1], cert_signature = identity_sign keyless [1] CERT_LABEL [1]\<rparr>"

definition box_paired :: paired_with where
  "box_paired = \<lparr>pw_chain = [box_cert], pw_account_root = pad_key [1], pw_channel_key = pad_key [5]\<rparr>"

definition box_sealed :: bytes where
  "box_sealed = pack \<lparr>sl_enc = [8], sl_ciphertext = pad_key [8] @ PAIRING_INFO_LABEL @ [9]\<rparr>"

definition lobby :: pair_suite where
  "lobby = \<lparr>sha256 = (\<lambda>b. b), public_of = pad_key, ed_sign = (\<lambda>k m. pad_key k @ m), ed_verify = (\<lambda>k m s. s = k @ m),
     enc_body = (\<lambda>_. [1]), dec_body = (\<lambda>_. Some box_body), agreement_public = pad_key,
     single_shot_seal = shot_seal, enc_key_ok = (\<lambda>_. True), single_shot_open = shot_open,
     enc_command = (\<lambda>_. [5]), dec_command = (\<lambda>_. Some note_command), enc_signed = (\<lambda>_. [6]), dec_signed = (\<lambda>_. Some note_signed),
     enc_sealed = pack, dec_sealed = unpack, enc_paired = (\<lambda>_. [9]), dec_paired = (\<lambda>_. Some box_paired),
     gcm_encrypt = (\<lambda>key nonce aad m. Some m), gcm_decrypt = (\<lambda>key nonce aad ct. Some ct), hmac_sha256 = (\<lambda>k m. m),
     enc_frame = (\<lambda>_. [7]), dec_frame = (\<lambda>_. Some news_frame), enc_grant = (\<lambda>_. []), dec_grant = (\<lambda>_. None),
     enc_offer = (\<lambda>_. [6]), dec_offer = (\<lambda>_. None), enc_answer = (\<lambda>_. [3]), dec_answer = (\<lambda>_. Some box_sealed)\<rparr>"

definition slot_dec :: "bytes \<Rightarrow> unit + frame" where
  "slot_dec b =
     (if b = [1] then Inr (Frame (Some (BChallenge the_challenge)))
      else if b = [2] then Inr (Frame (Some (BPaired \<lparr>pd_offer = [], pd_answer = []\<rparr>)))
      else if b = [3] then Inr (Frame (Some (BPaired \<lparr>pd_offer = [], pd_answer = [3]\<rparr>))) else Inl ())"

lemma one_frame: "pd [x] = Inr f \<Longrightarrow> decode_frames_shared pd [1, x] CLIENT_MAX = Inr [f]"
  by (rule batch_round_trips [of _ _ "\<lambda>_. [x]", THEN conjunct2, THEN conjunct2])
    (simp_all add: encode_frames_def write_frame_def write_varint.simps word_le_nat_alt)

lemma slot_frames:
  "first_frame slot_dec CLIENT_MAX \<lparr>ws_in = Inr (WsBinary [1, 1]) # ms, ws_out = out, ws_fault = fault\<rparr>
     = (\<lparr>ws_in = ms, ws_out = out, ws_fault = fault\<rparr>, Inr (BChallenge the_challenge))"
  "first_frame slot_dec CLIENT_MAX \<lparr>ws_in = Inr (WsBinary [1, 2]) # ms, ws_out = out, ws_fault = fault\<rparr>
     = (\<lparr>ws_in = ms, ws_out = out, ws_fault = fault\<rparr>, Inr (BPaired \<lparr>pd_offer = [], pd_answer = []\<rparr>))"
  "first_frame slot_dec CLIENT_MAX \<lparr>ws_in = Inr (WsBinary [1, 3]) # ms, ws_out = out, ws_fault = fault\<rparr>
     = (\<lparr>ws_in = ms, ws_out = out, ws_fault = fault\<rparr>, Inr (BPaired \<lparr>pd_offer = [], pd_answer = [3]\<rparr>))"
  using one_frame [of slot_dec 1] one_frame [of slot_dec 2] one_frame [of slot_dec 3]
  by (simp_all add: first_frame_def slot_dec_def)

definition box_world :: pair_world where
  "box_world = \<lparr>wd_fault = sound_disk, wd_now_ms = 11, wd_seeds = (Inr (pad_key [7]), Inr (pad_key [8])), wd_code = Some [0, 1, 2, 3, 4, 5, 6, 7],
     wd_in_time = True, wd_answered_ms = 12\<rparr>"

lemma pad_pad: "pad_key (pad_key k) = pad_key k"
  by (simp add: pad_key_def)

lemma lobby_honest: "honest lobby" "seals lobby"
  by (simp_all add: honest_def seals_def lobby_def shot_seal_def shot_open_def Let_def)

lemma lobby_body: "spec_body lobby [1] box_spec = box_body"
  by (simp add: box_body_def spec_body_def identity_public_def lobby_def keyless_def)

lemma box_issued: "issue lobby [1] box_spec = Inr box_cert" "spec_fits box_spec"
proof -
  have "sign_certificate lobby [1] box_spec = box_cert"
    by (simp add: sign_certificate_def Let_def lobby_def box_cert_def identity_sign_def keyless_def)
  then show "issue lobby [1] box_spec = Inr box_cert"
    by (simp add: issue_def check_window_def MAX_CERTIFICATE_MS_def) (simp add: box_spec_def)
  show "spec_fits box_spec" by (simp add: spec_fits_def box_spec_def MAX_SCOPES_def MAX_LABEL_BYTES_def)
qed

lemma lobby_keys: "identity_public lobby k = pad_key k" "agreement_public lobby k = pad_key k" "dec_body lobby b = Some box_body"
  "enc_body lobby x = [1]" "dec_paired lobby b = Some box_paired" "dec_answer lobby b = Some box_sealed" "dec_sealed lobby = unpack"
  "enc_sealed lobby = pack" "principal_id lobby k = k" "account_id lobby k = k"
  by (simp_all add: lobby_def identity_public_def principal_id_def account_id_def)

lemma box_answer:
  "seal_pairing_answer lobby [8] (pad_key [8]) box_paired = Inr box_sealed" "length box_sealed \<le> MAX_SEALED_BYTES"
  "pairing_answer_wait slot_dec \<lparr>ws_in = [Inr (WsBinary [1, 3])], ws_out = out, ws_fault = fault\<rparr>
     = (\<lparr>ws_in = [], ws_out = out, ws_fault = fault\<rparr>, Inr [3])"
  by (simp add: seal_pairing_answer_def hpke_seal_raw_def lobby_def shot_seal_def box_sealed_def)
    (simp add: box_sealed_def pack_def PAIRING_INFO_LABEL_def label_bytes_def MAX_SEALED_BYTES_def,
     simp add: pairing_answer_wait.simps slot_frames [simplified])

lemma box_terms: "cs_subject box_spec = pad_key [7]" "cs_agreement_key box_spec = pad_key [8]" "cs_role box_spec = RoleBoxConnector"
  "cs_not_before_ms box_spec = 10" "cs_not_after_ms box_spec = 20"
  by (simp_all add: box_spec_def)

lemmas box_facts = lobby_keys lobby_body box_issued unpack_pack pad_pad box_answer box_terms

lemma box_answered:
  assumes "bk_identity (of_keys o1) = pad_key [7]" "bk_agreement (of_keys o1) = pad_key [8]"
  shows "left_answer lobby slot_dec True 12 o1 \<lparr>ws_in = [Inr (WsBinary [1, 3])], ws_out = out, ws_fault = fault\<rparr>
    = (\<lparr>ws_in = [], ws_out = out, ws_fault = fault\<rparr>, Inr box_paired)"
  by (rule honest_answer_accepted [OF lobby_honest, where c = box_cert and spec = box_spec and root = "[1]" and eph = "[8]"
        and sealed = box_sealed and bs = "[3]" and channel_key = "pad_key [5]"])
    (simp_all add: assms box_facts MAX_CERT_BYTES_def, simp add: box_paired_def)


lemma box_pairs:
  "\<exists>fs'. pair_command lobby (\<lambda>_. [4]) slot_dec box_world ''box'' ''box'' False
     \<lparr>ws_in = map (Inr \<circ> WsBinary) [[1, 1], [1, 2], [1, 3]], ws_out = [], ws_fault = (\<lambda>_. None)\<rparr> [] = (fs', Inr box_paired)"
proof -
  let ?s = "\<lambda>ms out. \<lparr>ws_in = map (Inr \<circ> WsBinary) ms, ws_out = out, ws_fault = (\<lambda>_. None)\<rparr> :: socket"
  obtain fs1 where k: "pair_keys box_world ''box'' [] = (fs1, Inr \<lparr>bk_identity = pad_key [7], bk_agreement = pad_key [8]\<rparr>)"
    using file_names(5)
    by (simp add: pair_keys_def box_world_def state_keys_def state_seed_def state_read_def generate_keys_def make_dir_def write_secret_def Let_def)
  obtain o1 where o1: "offer_new lobby (wd_code box_world) \<lparr>bk_identity = pad_key [7], bk_agreement = pad_key [8]\<rparr> ''box'' 11 = Inr o1"
    "of_keys o1 = \<lparr>bk_identity = pad_key [7], bk_agreement = pad_key [8]\<rparr>"
    by (simp add: offer_new_def box_world_def MAX_LABEL_BYTES_def ensure_def)
  have "offer_leave lobby (\<lambda>_. [4]) slot_dec o1 (?s [[1, 1], [1, 2], [1, 3]] []) = (?s [[1, 3]] [[1, 4]], Inr ())"
    by (simp add: offer_leave_def pairing_offer_def slot_frames [simplified] client_send_def encode_frames_def write_frame_def
        write_varint.simps word_le_nat_alt)
  then have "pair_over lobby (\<lambda>_. [4]) slot_dec box_world ''box'' \<lparr>bk_identity = pad_key [7], bk_agreement = pad_key [8]\<rparr>
      (?s [[1, 1], [1, 2], [1, 3]] []) = Inr box_paired"
    using o1 box_answered [of o1] by (simp add: pair_over_def box_world_def)
  then show ?thesis using k
    by (simp add: pair_command_def state_paired_def state_read_def box_world_def write_paired_def make_dir_def write_secret_def Let_def)
qed

theorem what_pairing_stored_runs_witness:
  "\<exists>fs' r. pair_command lobby (\<lambda>_. [4]) slot_dec box_world ''box'' ''box'' False
       \<lparr>ws_in = map (Inr \<circ> WsBinary) [[1, 1], [1, 2], [1, 3]], ws_out = [], ws_fault = (\<lambda>_. None)\<rparr> [] = (fs', Inr box_paired)
     \<and> loaded lobby sound_disk ''box'' 15 fs' = Inr r \<and> ry_channel_key r = pad_key [5]"
proof -
  obtain fs' where p: "pair_command lobby (\<lambda>_. [4]) slot_dec box_world ''box'' ''box'' False
      \<lparr>ws_in = map (Inr \<circ> WsBinary) [[1, 1], [1, 2], [1, 3]], ws_out = [], ws_fault = (\<lambda>_. None)\<rparr> [] = (fs', Inr box_paired)"
    using box_pairs by blast
  obtain v where v: "verify_chain lobby (pw_account_root box_paired) (pw_chain box_paired) 15 = Inr v"
    using issued_verify [OF lobby_honest(1) box_issued, of 15] by (simp add: box_facts box_paired_def MAX_CERT_BYTES_def)
  from what_pairing_stored_runs [OF p _ _ _ _ _ v] have "\<exists>r. loaded lobby sound_disk ''box'' 15 fs' = Inr r \<and> ry_channel_key r = pad_key [5]"
    by (auto simp: all_private_def box_world_def box_facts) (simp add: box_paired_def)
  with p show ?thesis by blast
qed

end
