(* ===== verification/Admission.thy ===== *)
theory Admission
  imports Server Registry Pairing
begin

text \<open>
  Who gets in: of \<open>crates/hub/src/lib.rs\<close> the checking of a hello against its chain, its signature and the registry, the holding of
  an account to one revocation signer, and a connection from its first message to its place in a relay, with what it costs
  the strangers' budget. The codec of a certificate is \<open>ec\<close> and \<open>dc\<close>; the disk, the random source and the clock are arguments.
\<close>

section \<open>Definitions\<close>

datatype auth = Development | AuthKeys string

record admitted_hello =
  ad_account :: Relay.account_id
  ad_revoker :: revoker

definition signer_of :: "(certificate \<Rightarrow> bytes) \<Rightarrow> verified \<Rightarrow> certificate \<Rightarrow> signer" where
  "signer_of ec v cert =
     \<lparr>sg_principal = hex (v_principal v), sg_since_ms = cb_not_before_ms (v_leaf v), sg_until_ms = cb_not_after_ms (v_leaf v), sg_certificate = ec cert\<rparr>"

definition hub_revoker ::
    "(certificate \<Rightarrow> bytes) \<Rightarrow> disk \<Rightarrow> string \<Rightarrow> verified \<Rightarrow> certificate \<Rightarrow> nat \<Rightarrow> registry \<Rightarrow> registry \<times> (frame + unit)" where
  "hub_revoker ec fault pid v cert now r =
     (case claim_revoker fault pid (v_account v) (signer_of ec v cert) now r of
        (r1, Inr Held) \<Rightarrow> (r1, Inr ())
      | (r1, Inr (Second holder since)) \<Rightarrow>
          (r1, Inl (error_frame Unauthenticated ''another device signs this account's revocations; pair this one again without that grant''))
      | (r1, Inl _) \<Rightarrow> (r1, Inl (error_frame Unavailable ''hub storage error'')))"

definition refusal_frame :: "refusal \<Rightarrow> frame" where
  "refusal_frame e =
     (case e of
        InviteRequired \<Rightarrow> error_frame Unauthenticated ''this hub needs an invite to register an account''
      | InviteInvalid \<Rightarrow> error_frame Unauthenticated ''invite not valid''
      | RateLimited \<Rightarrow> error_frame Limit ''too many new accounts; try later''
      | Storage _ \<Rightarrow> error_frame Unavailable ''hub storage error'')"

text \<open>The checks of a hello that need nothing but the hello: its chain, its names and its signature.\<close>

definition BAD :: frame where "BAD = error_frame Unauthenticated ''hello did not verify''"

definition hello_verified :: "'x suite_scheme \<Rightarrow> string \<Rightarrow> hello \<Rightarrow> bytes \<Rightarrow> nat \<Rightarrow> frame + verified" where
  "hello_verified cr hub_name hello nonce now =
     and_then (ensure (length (h_account_root hello) = 32) BAD) (\<lambda>_.
     and_then (map_err (\<lambda>_. BAD) (verify_chain cr (h_account_root hello) (h_chain hello) now)) (\<lambda>v.
     and_then (ensure (h_principal hello = v_principal v \<and> h_role hello = cb_role (v_leaf v)) BAD) (\<lambda>_.
     and_then (ensure (verify_hello cr (v_leaf_key v)
         (hello_transcript hub_name nonce (h_principal hello) (role_of_i32 (h_role hello)) (v_account v)) (h_signature hello)) BAD) (\<lambda>_.
     Inr v))))"

definition known_revoker :: "(bytes \<Rightarrow> certificate option) \<Rightarrow> disk \<Rightarrow> verified \<Rightarrow> nat \<Rightarrow> registry \<Rightarrow> revoker" where
  "known_revoker dc fault v now r =
     (case registry_revoker fault (v_account v) now r of
        None \<Rightarrow> RevokerNone
      | Some s \<Rightarrow> (case dc (sg_certificate s) of None \<Rightarrow> RevokerNone | Some cert \<Rightarrow> RevokerKnown cert))"

definition authenticate ::
    "'x suite_scheme \<Rightarrow> (certificate \<Rightarrow> bytes) \<Rightarrow> (bytes \<Rightarrow> certificate option) \<Rightarrow> disk \<Rightarrow> string \<Rightarrow> auth \<Rightarrow> hello \<Rightarrow> bytes \<Rightarrow> ip_addr \<Rightarrow> nat
     \<Rightarrow> registry \<Rightarrow> registry \<times> (frame + admitted_hello)" where
  "authenticate cr ec dc fault pid auth hello nonce address now r =
     (case auth of
        Development \<Rightarrow>
          (r, if h_account_credential hello = [] then Inl (error_frame Unauthenticated ''an account credential is required'')
              else Inr \<lparr>ad_account = h_account_credential hello, ad_revoker = RevokerUnknown\<rparr>)
      | AuthKeys hub_name \<Rightarrow>
          (case hello_verified cr hub_name hello nonce now of
             Inl f \<Rightarrow> (r, Inl f)
           | Inr v \<Rightarrow>
               (case registry_admit fault (sha256 cr) (v_account v) (h_invite hello) address now r of
                  (r1, Inl e) \<Rightarrow> (r1, Inl (refusal_frame e))
                | (r1, Inr _) \<Rightarrow>
                    (case (if cb_may_revoke (v_leaf v) then hub_revoker ec fault pid v (hd (h_chain hello)) now r1 else (r1, Inr ())) of
                       (r2, Inl f) \<Rightarrow> (r2, Inl f)
                     | (r2, Inr _) \<Rightarrow> (r2, Inr \<lparr>ad_account = v_account v, ad_revoker = known_revoker dc fault v now r2\<rparr>)))))"

text \<open>
  A connection from the socket to its place in a relay, and all that can end it on the way: a request that is not an upgrade, an address that connects
  too often, an answer or a challenge that cannot be sent, a random source that fails, and what the first message says. What a socket costs
  the strangers is charged when its place is given back.
\<close>

datatype started = LeftAlone | TurnedAway frame | PairingSocket pair_offer | Connected nat conn_id "frame list" nat

record hub_state =
  hs_registry :: registry
  hs_shared :: shared
  hs_strangers :: strangers
  hs_gate :: gate

text \<open>
  What happens to one socket: its peer and whether that is a trusted proxy; whether it asks for an upgrade, with what forwarding header and
  when, and whether the answer is written; the nonce, if the random source gives one; whether the challenge is sent; the first message, if a binary one
  comes in time; the clocks; whether a pairing permit is free; and when its place is given back.
\<close>

record arrival =
  av_peer :: ip_addr
  av_proxied :: bool
  av_asked :: bool
  av_header :: "string option"
  av_asked_at :: nat
  av_upgraded :: bool
  av_nonce :: "bytes option"
  av_challenged :: bool
  av_message :: "bytes option"
  av_now_ms :: nat
  av_joined_ms :: nat
  av_clock_ms :: nat
  av_pairing_free :: bool
  av_left :: nat

definition bill :: "arrival \<Rightarrow> stranger \<Rightarrow> hub_state \<Rightarrow> hub_state" where
  "bill av s st = st\<lparr>hs_strangers := stranger_drop (av_left av) s (hs_strangers st)\<rparr>"

definition greet ::
    "'x suite_scheme \<Rightarrow> (frame \<Rightarrow> bytes) \<Rightarrow> (certificate \<Rightarrow> bytes) \<Rightarrow> (bytes \<Rightarrow> certificate option) \<Rightarrow> disk \<Rightarrow> string \<Rightarrow> auth
     \<Rightarrow> (Relay.account_id \<Rightarrow> nat) \<Rightarrow> arrival \<Rightarrow> bytes \<Rightarrow> ip_addr \<Rightarrow> hello \<Rightarrow> frame list \<Rightarrow> nat \<Rightarrow> hub_state \<Rightarrow> hub_state \<times> started" where
  "greet cr pe ec dc fault pid auth hash av nonce address hello frames bytes st =
     (let s = (if auth = Development then stranger_new else sent_hello stranger_new) in
      case authenticate cr ec dc fault pid auth hello nonce address (av_now_ms av) (hs_registry st) of
        (r, Inl f) \<Rightarrow> (bill av s (st\<lparr>hs_registry := r\<rparr>), TurnedAway f)
      | (r, Inr a) \<Rightarrow>
          let shard = shard_of hash (hs_shared st) (ad_account a) in
          (case shared_connect pe shard (ad_account a) hello (av_joined_ms av) (av_clock_ms av) (ad_revoker a) (hs_shared st) of
             (sh, Inl f) \<Rightarrow> (bill av s (st\<lparr>hs_registry := r, hs_shared := sh\<rparr>), TurnedAway f)
           | (sh, Inr cid) \<Rightarrow> (bill av (settle s) (st\<lparr>hs_registry := r, hs_shared := sh\<rparr>), Connected shard cid frames bytes)))"

definition hear_first ::
    "'x suite_scheme \<Rightarrow> (frame \<Rightarrow> bytes) \<Rightarrow> (bytes \<Rightarrow> 'p + frame) \<Rightarrow> (certificate \<Rightarrow> bytes) \<Rightarrow> (bytes \<Rightarrow> certificate option) \<Rightarrow> disk \<Rightarrow> string
     \<Rightarrow> config \<Rightarrow> auth \<Rightarrow> (Relay.account_id \<Rightarrow> nat) \<Rightarrow> arrival \<Rightarrow> bytes \<Rightarrow> ip_addr \<Rightarrow> hub_state \<Rightarrow> hub_state \<times> started" where
  "hear_first cr pe pd ec dc fault pid cfg auth hash av nonce address st =
     (case first_message pd cfg (av_message av) of
        HangUp \<Rightarrow> (bill av stranger_new st, LeftAlone)
      | Refuse f \<Rightarrow> (bill av stranger_new st, TurnedAway f)
      | Pairs offer \<Rightarrow>
          if av_pairing_free av then (bill av (settle stranger_new) st, PairingSocket offer)
          else (bill av stranger_new st, TurnedAway (error_frame Limit ''too many pairings at once''))
      | Says hello frames bytes \<Rightarrow> greet cr pe ec dc fault pid auth hash av nonce address hello frames bytes st)"

definition connection_start ::
    "accrual \<Rightarrow> 'x suite_scheme \<Rightarrow> (frame \<Rightarrow> bytes) \<Rightarrow> (bytes \<Rightarrow> 'p + frame) \<Rightarrow> (certificate \<Rightarrow> bytes) \<Rightarrow> (bytes \<Rightarrow> certificate option) \<Rightarrow> disk \<Rightarrow> string
     \<Rightarrow> config \<Rightarrow> auth \<Rightarrow> (Relay.account_id \<Rightarrow> nat) \<Rightarrow> arrival \<Rightarrow> hub_state \<Rightarrow> hub_state \<times> started" where
  "connection_start accrue cr pe pd ec dc fault pid cfg auth hash av st =
     (if \<not> av_asked av then (bill av stranger_new st, LeftAlone)
      else case handshake_gate accrue cfg (av_peer av) (av_proxied av) (av_header av) (av_asked_at av) (hs_gate st) of
        (g, address, ok) \<Rightarrow>
          let st1 = st\<lparr>hs_gate := g\<rparr> in
          if \<not> ok \<or> \<not> av_upgraded av then (bill av stranger_new st1, LeftAlone)
          else (case av_nonce av of
             None \<Rightarrow> (bill av stranger_new st1, LeftAlone)
           | Some nonce \<Rightarrow>
               if \<not> av_challenged av then (bill av stranger_new st1, LeftAlone)
               else hear_first cr pe pd ec dc fault pid cfg auth hash av nonce address st1))"

section \<open>Who gets in\<close>

lemma registry_admit_registers:
  assumes "registry_admit fault sha account invite address now r = (r', Inr a)"
  shows "map_of (rg_accounts r') (hex account) \<noteq> None"
  using assms
  by (auto simp: registry_admit_def account_exists_def register_account_def create_new_def Let_def update_conv'
      split: if_splits prod.splits sum.splits created.splits option.splits)

lemma claim_revoker_accounts: "claim_revoker fault pid account sg now r = (r', res) \<Longrightarrow> rg_accounts r' = rg_accounts r"
  by (auto simp: claim_revoker_def write_revoker_def Let_def split: option.splits if_splits prod.splits sum.splits)

lemma hub_revoker_accounts: "hub_revoker ec fault pid v cert now r = (r', res) \<Longrightarrow> rg_accounts r' = rg_accounts r"
  by (auto simp: hub_revoker_def dest: claim_revoker_accounts split: prod.splits sum.splits revoker_claim.splits)

lemma hello_verified_ok:
  "hello_verified cr hub_name hello nonce now = Inr v \<longleftrightarrow>
     length (h_account_root hello) = 32 \<and> verify_chain cr (h_account_root hello) (h_chain hello) now = Inr v
     \<and> h_principal hello = v_principal v \<and> h_role hello = cb_role (v_leaf v)
     \<and> verify_hello cr (v_leaf_key v) (hello_transcript hub_name nonce (h_principal hello) (role_of_i32 (h_role hello)) (v_account v)) (h_signature hello)"
  by (auto simp: hello_verified_def result_ok)

lemma authenticate_verified:
  assumes "authenticate cr ec dc fault pid (AuthKeys hub_name) hello nonce address now r = (r', Inr a)"
  shows "\<exists>v. hello_verified cr hub_name hello nonce now = Inr v \<and> ad_account a = v_account v \<and> v_account v = Keys.account_id cr (h_account_root hello)"
  using assms by (auto simp: authenticate_def hello_verified_ok verify_chain_def result_ok split: sum.splits prod.splits if_splits)

text \<open>C2. A hub that checks keys admits nobody else. Whoever is admitted presented a chain that verifies now under the root they named, is
  its principal in its role, and signed this hub's name and this connection's nonce with its key; the account is the hash of that
  root and is in the registry afterwards; and where the certificate may revoke, the registry holds the account to this signer.\<close>

theorem the_hub_admits_only_what_verifies:
  assumes "authenticate cr ec dc fault pid (AuthKeys hub_name) hello nonce address now r = (r', Inr a)"
  shows "\<exists>v. verify_chain cr (h_account_root hello) (h_chain hello) now = Inr v
    \<and> h_principal hello = v_principal v \<and> h_role hello = cb_role (v_leaf v)
    \<and> verify_hello cr (v_leaf_key v) (hello_transcript hub_name nonce (v_principal v) (role_of_i32 (cb_role (v_leaf v))) (ad_account a)) (h_signature hello)
    \<and> ad_account a = Keys.account_id cr (h_account_root hello) \<and> map_of (rg_accounts r') (hex (ad_account a)) \<noteq> None
    \<and> (cb_may_revoke (v_leaf v) \<longrightarrow>
         (\<exists>r1. claim_revoker fault pid (ad_account a) (signer_of ec v (hd (h_chain hello))) now r1 = (r', Inr Held)))"
proof -
  from assms obtain v where v: "hello_verified cr hub_name hello nonce now = Inr v" by (auto simp: authenticate_def split: sum.splits)
  note V = v [unfolded hello_verified_ok]
  from assms v obtain r1 ad where r1: "registry_admit fault (sha256 cr) (v_account v) (h_invite hello) address now r = (r1, Inr ad)"
    by (auto simp: authenticate_def split: sum.splits prod.splits)
  let ?rev = "if cb_may_revoke (v_leaf v) then hub_revoker ec fault pid v (hd (h_chain hello)) now r1 else (r1, Inr ())"
  from assms v r1 obtain u where rev: "?rev = (r', Inr u)" and a: "ad_account a = v_account v"
    by (auto simp: authenticate_def split: sum.splits prod.splits if_splits)
  have acc: "v_account v = Keys.account_id cr (h_account_root hello)" using V by (auto simp: verify_chain_def result_ok split: if_splits)
  have "rg_accounts r' = rg_accounts r1" using rev hub_revoker_accounts by (auto split: if_splits)
  then have "map_of (rg_accounts r') (hex (ad_account a)) \<noteq> None" using registry_admit_registers [OF r1] a by simp
  moreover have "claim_revoker fault pid (ad_account a) (signer_of ec v (hd (h_chain hello))) now r1 = (r', Inr Held)" if "cb_may_revoke (v_leaf v)"
    using rev that a by (auto simp: hub_revoker_def split: prod.splits sum.splits revoker_claim.splits)
  ultimately show ?thesis using V a acc by metis
qed

lemma member_admitted:
  assumes "honest cr" and "verify_chain cr (cf_account_root cfg) (cf_chain cfg) now = Inr v" and "length (cf_account_root cfg) = 32"
    and "v_leaf_key v = identity_public cr (cf_identity cfg)" and "cb_role (v_leaf v) = i32_of_role (cf_role cfg)"
    and "account_exists fault (Keys.account_id cr (cf_account_root cfg)) r"
    and "if cb_may_revoke (v_leaf v)
      then claim_revoker fault pid (Keys.account_id cr (cf_account_root cfg)) (signer_of ec v (hd (cf_chain cfg))) now r = (r', Inr Held)
      else r' = r"
  shows "authenticate cr ec dc fault pid (AuthKeys (cf_hub_name cfg)) (hello_of cr cfg nonce) nonce address now r
    = (r', Inr \<lparr>ad_account = Keys.account_id cr (cf_account_root cfg), ad_revoker = known_revoker dc fault v now r'\<rparr>)"
proof -
  have v: "v_account v = Keys.account_id cr (cf_account_root cfg)" "v_principal v = principal_id cr (v_leaf_key v)"
    using assms(2) by (auto simp: verify_chain_def result_ok split: if_splits)
  have "hello_verified cr (cf_hub_name cfg) (hello_of cr cfg nonce) nonce now = Inr v"
    using assms(2-5) v honest_verifies [OF assms(1)]
    by (auto simp: hello_verified_ok hello_of_def Let_def verify_hello_def sign_hello_def)
  moreover have "h_chain (hello_of cr cfg nonce) = cf_chain cfg" by (simp add: hello_of_def Let_def)
  ultimately show ?thesis using assms(6,7) v by (simp add: authenticate_def registry_admit_def hub_revoker_def split: if_splits)
qed

text \<open>C21. A member is let in. The hello that a client signs over the hub's challenge, with a chain that verifies for its own key and role
  and an account that the registry has, is admitted to that account whatever the address; and the registry does not change, unless the
  member's certificate may revoke: such a member is let in when its claim to sign the account's revocations is granted, which the registry does for
  one signer at a time and which leaves the registry as the claim does.\<close>

theorem a_member_is_let_in:
  assumes "honest cr" and "verify_chain cr (cf_account_root cfg) (cf_chain cfg) now = Inr v" and "length (cf_account_root cfg) = 32"
    and "v_leaf_key v = identity_public cr (cf_identity cfg)" and "cb_role (v_leaf v) = i32_of_role (cf_role cfg)"
    and "account_exists fault (Keys.account_id cr (cf_account_root cfg)) r"
    and "if cb_may_revoke (v_leaf v)
      then claim_revoker fault pid (Keys.account_id cr (cf_account_root cfg)) (signer_of ec v (hd (cf_chain cfg))) now r = (r', Inr Held)
      else r' = r"
  shows "authenticate cr ec dc fault pid (AuthKeys (cf_hub_name cfg)) (hello_of cr cfg nonce) nonce address now r
    = (r', Inr \<lparr>ad_account = Keys.account_id cr (cf_account_root cfg), ad_revoker = known_revoker dc fault v now r'\<rparr>)"
  using assms by (rule member_admitted)

section \<open>Who is on a relay\<close>

lemma notified_rosters: "i < length (sh_shards sh) \<Longrightarrow> ss_hub (sh_shards (foldl (notify_conn i) sh cs) ! j) = ss_hub (sh_shards sh ! j)"
  by (induction cs arbitrary: sh) (auto simp: notify_conn_def Let_def nth_list_update)

lemma connect_admit_roster:
  assumes "connect_admit pe i reserved account hello now clock rvk sh = (sh', res)" and i: "i < length (sh_shards sh)"
    and x: "roster (ss_hub (sh_shards sh' ! j)) x = Some b" "roster (ss_hub (sh_shards sh ! j)) x \<noteq> Some b"
  shows "j = i \<and> res = Inr x \<and> b = (account, h_principal hello, presentable (h_chain hello))"
proof -
  obtain sh1 wake where l: "connect_locked pe i reserved account hello now clock rvk sh = (sh1, res, wake)" and sh': "sh' = foldl (notify_conn i) sh1 wake"
    using assms(1) by (auto simp: connect_admit_def split: prod.splits)
  obtain h r where con: "connect pe account hello now clock rvk (ss_hub (sh_shards sh ! i)) = (h, r)" by fastforce
  have len: "i < length (sh_shards sh1)" and hub: "ss_hub (sh_shards sh1 ! j) = (if j = i then h else ss_hub (sh_shards sh ! j))"
    and res: "res = (case r of Inl f \<Rightarrow> Inl f | Inr (cid, _) \<Rightarrow> Inr cid)"
    using l i con by (auto simp: connect_locked_def reconcile_accounts_def Let_def)
  have j: "j = i" and rh: "roster h x = Some b" using x hub notified_rosters [OF len] by (auto simp: sh' split: if_splits)
  show ?thesis
  proof (cases r)
    case (Inl f)
    with connect_refused_roster con x(2) rh j show ?thesis by auto
  next
    case (Inr q)
    obtain cid acts where q: "q = (cid, acts)" by fastforce
    from connect_roster [OF con [unfolded Inr q]] rh x(2) j res show ?thesis by (auto simp: Inr q restrict_map_def split: if_splits)
  qed
qed

lemma shared_connect_roster:
  assumes con: "shared_connect pe i account hello now clock rvk sh = (sh', res)" and i: "i < length (sh_shards sh)"
    and x: "roster (ss_hub (sh_shards sh' ! j)) x = Some b" "roster (ss_hub (sh_shards sh ! j)) x \<noteq> Some b"
  shows "j = i \<and> res = Inr x \<and> b = (account, h_principal hello, presentable (h_chain hello))"
proof -
  obtain sh1 n where r: "connect_reserve i account sh = (sh1, n)" by fastforce
  then have same: "sh_shards sh1 = sh_shards sh" by (auto simp: connect_reserve_def split: if_splits)
  show ?thesis
  proof (cases n)
    case None
    with con r same x show ?thesis by (auto simp: shared_connect_def)
  next
    case (Some reserved)
    with con r have "connect_admit pe i reserved account hello now clock rvk sh1 = (sh', res)" by (simp add: shared_connect_def)
    from connect_admit_roster [OF this _ x(1)] i x(2) same show ?thesis by simp
  qed
qed

lemma greet_roster:
  assumes "greet cr pe ec dc fault pid (AuthKeys hub_name) hash av nonce address hello frames bytes st = (st', out)"
    and sh: "sh_shards (hs_shared st) \<noteq> []"
    and x: "roster (ss_hub (sh_shards (hs_shared st') ! j)) x = Some (aid, p, chain)"
      "roster (ss_hub (sh_shards (hs_shared st) ! j)) x \<noteq> Some (aid, p, chain)"
  shows "\<exists>v. out = Connected j x frames bytes \<and> hs_strangers st' = hs_strangers st \<and> j = shard_of hash (hs_shared st) aid
    \<and> hello_verified cr hub_name hello nonce (av_now_ms av) = Inr v \<and> aid = Keys.account_id cr (h_account_root hello) \<and> v_account v = aid
    \<and> p = v_principal v \<and> chain = presentable (h_chain hello)"
proof -
  obtain r ra where au: "authenticate cr ec dc fault pid (AuthKeys hub_name) hello nonce address (av_now_ms av) (hs_registry st) = (r, ra)" by fastforce
  show ?thesis
  proof (cases ra)
    case (Inl f)
    with assms(1) au x show ?thesis by (auto simp: greet_def bill_def)
  next
    case (Inr a)
    let ?i = "shard_of hash (hs_shared st) (ad_account a)"
    obtain sh' res where con: "shared_connect pe ?i (ad_account a) hello (av_joined_ms av) (av_clock_ms av) (ad_revoker a) (hs_shared st) = (sh', res)" by fastforce
    have st': "hs_shared st' = sh'" using assms(1) au Inr con by (auto simp: greet_def bill_def Let_def split: sum.splits)
    have i: "?i < length (sh_shards (hs_shared st))" using sh by (simp add: shard_of_def)
    from shared_connect_roster [OF con i x(1) [unfolded st'] x(2)]
    have J: "j = ?i" "res = Inr x" "aid = ad_account a" "p = h_principal hello" "chain = presentable (h_chain hello)" by auto
    have out: "out = Connected j x frames bytes" "hs_strangers st' = hs_strangers st"
      using assms(1) au Inr con J by (auto simp: greet_def bill_def settle_def stranger_drop_def Let_def)
    obtain v where v: "hello_verified cr hub_name hello nonce (av_now_ms av) = Inr v" "ad_account a = v_account v"
      "v_account v = Keys.account_id cr (h_account_root hello)" using authenticate_verified [OF au [unfolded Inr]] by blast
    with J out show ?thesis by (auto simp: hello_verified_ok)
  qed
qed

text \<open>C38. Only who proved it is on a relay. When a socket has been through its start at a hub that checks keys, however it went, a connection is on
  some shard's roster that was not there before only if it is that socket's own: its address was let through the gate, a challenge was sent
  with a fresh nonce, and its first message was a hello whose chain verifies now, signed with the leaf's key over this hub's name and that
  nonce. It is on the shard of the account that its root hashes to, as its own principal, with the chain it presented, and it is not charged
  to the strangers. Every other end of a socket puts nobody on any roster.\<close>

theorem only_the_proven_are_connected:
  assumes "connection_start accrue cr pe pd ec dc fault pid cfg (AuthKeys hub_name) hash av st = (st', out)"
    and "sh_shards (hs_shared st) \<noteq> []"
    and "roster (ss_hub (sh_shards (hs_shared st') ! j)) x = Some (aid, p, chain)"
    and "roster (ss_hub (sh_shards (hs_shared st) ! j)) x \<noteq> Some (aid, p, chain)"
  shows "\<exists>nonce hello frames bytes v. out = Connected j x frames bytes \<and> hs_strangers st' = hs_strangers st
    \<and> snd (snd (handshake_gate accrue cfg (av_peer av) (av_proxied av) (av_header av) (av_asked_at av) (hs_gate st)))
    \<and> av_nonce av = Some nonce \<and> av_challenged av \<and> first_message pd cfg (av_message av) = Says hello frames bytes
    \<and> verify_chain cr (h_account_root hello) (h_chain hello) (av_now_ms av) = Inr v
    \<and> verify_hello cr (v_leaf_key v) (hello_transcript hub_name nonce p (role_of_i32 (cb_role (v_leaf v))) aid) (h_signature hello)
    \<and> j = shard_of hash (hs_shared st) aid \<and> aid = Keys.account_id cr (h_account_root hello) \<and> p = v_principal v \<and> chain = presentable (h_chain hello)"
proof -
  obtain g address ok where gate: "handshake_gate accrue cfg (av_peer av) (av_proxied av) (av_header av) (av_asked_at av) (hs_gate st) = (g, address, ok)"
    by (metis prod_cases3)
  let ?st = "st\<lparr>hs_gate := g\<rparr>"
  have "ok \<and> av_challenged av \<and> (\<exists>nonce. av_nonce av = Some nonce
      \<and> hear_first cr pe pd ec dc fault pid cfg (AuthKeys hub_name) hash av nonce address ?st = (st', out))"
    using assms gate by (auto simp: connection_start_def bill_def Let_def split: if_splits option.splits)
  then obtain nonce where ok: "ok" "av_challenged av" "av_nonce av = Some nonce"
    and first: "hear_first cr pe pd ec dc fault pid cfg (AuthKeys hub_name) hash av nonce address ?st = (st', out)" by blast
  have "\<exists>hello frames bytes. first_message pd cfg (av_message av) = Says hello frames bytes
      \<and> greet cr pe ec dc fault pid (AuthKeys hub_name) hash av nonce address hello frames bytes ?st = (st', out)"
    using first assms(3,4) by (auto simp: hear_first_def bill_def split: first.splits if_splits)
  then obtain hello frames bytes where says: "first_message pd cfg (av_message av) = Says hello frames bytes"
    and greet: "greet cr pe ec dc fault pid (AuthKeys hub_name) hash av nonce address hello frames bytes ?st = (st', out)" by blast
  from greet_roster [OF greet _ assms(3)] assms(2,4) ok says gate show ?thesis by (auto simp: hello_verified_ok)
qed

section \<open>An example\<close>

text \<open>The connector paired in the example of \<open>Pairing\<close> logs in at a hub that has its account.\<close>

definition box_ready :: ready where
  "box_ready = \<lparr>ry_keys = \<lparr>bk_identity = pad_key [7], bk_agreement = pad_key [8]\<rparr>, ry_publisher_identity = pad_key [7], ry_chain = [box_cert],
     ry_account_root = pad_key [1], ry_label = ''box'', ry_channel_key = pad_key [5]\<rparr>"

definition box_login :: client_config where
  "box_login = run_config ''hub'' box_ready"

definition clubhouse :: registry where
  "clubhouse = registry_new Invite open_limits_default [(hex (pad_key [1]), [])] [] [] []"

definition box_verified :: verified where
  "box_verified = \<lparr>v_account = pad_key [1], v_principal = pad_key [7], v_leaf_key = pad_key [7], v_leaf = box_body\<rparr>"

lemma box_chain: "verify_chain lobby (pad_key [1]) [box_cert] 15 = Inr box_verified"
  using issued_verify [OF lobby_honest(1) box_issued, of 15] by (simp add: box_facts box_verified_def MAX_CERT_BYTES_def)

lemma box_body_facts: "cb_role box_body = i32_of_role RoleBoxConnector" "\<not> cb_may_revoke box_body"
  by (simp_all add: box_body_def spec_body_def box_spec_def)

lemma box_login_facts: "cf_account_root box_login = pad_key [1]" "cf_chain box_login = [box_cert]" "cf_identity box_login = pad_key [7]"
  "cf_role box_login = RoleBoxConnector" "cf_hub_name box_login = ''hub''"
  by (simp_all add: box_login_def run_config_def box_ready_def)

lemma clubhouse_knows: "account_exists no_fault (pad_key [1]) clubhouse"
  by (simp add: account_exists_def clubhouse_def registry_new_def no_fault_def)

lemma box_logs_in:
  "authenticate lobby ec dc no_fault pid (AuthKeys ''hub'') (hello_of lobby box_login nonce) nonce address 15 clubhouse
    = (clubhouse, Inr \<lparr>ad_account = pad_key [1], ad_revoker = known_revoker dc no_fault box_verified 15 clubhouse\<rparr>)"
  using member_admitted [OF lobby_honest(1), of box_login 15 box_verified no_fault clubhouse] box_chain
  by (simp add: box_login_facts box_facts box_body_facts clubhouse_knows box_verified_def)

theorem a_member_is_let_in_witness:
  "fst (authenticate lobby (\<lambda>_. []) (\<lambda>_. None) no_fault ''1'' (AuthKeys ''hub'') (hello_of lobby box_login [4]) [4] (V4 [1, 2, 3, 4]) 15 clubhouse) = clubhouse"
  using a_member_is_let_in [OF lobby_honest(1), of box_login 15 box_verified no_fault clubhouse] box_chain
  by (simp add: box_login_facts box_facts box_body_facts clubhouse_knows box_verified_def)

theorem the_hub_admits_only_what_verifies_witness:
  "\<exists>v. verify_chain lobby (pad_key [1]) [box_cert] 15 = Inr v \<and> h_principal (hello_of lobby box_login [4]) = v_principal v"
  using the_hub_admits_only_what_verifies [OF box_logs_in [of "\<lambda>_. []" "\<lambda>_. None" "''1''" "[4]" "V4 [1, 2, 3, 4]"]]
  by (auto simp: hello_of_def Let_def box_login_facts)

text \<open>The same connector through the whole of its start, at an empty hub with one shard.\<close>

lemma lone_connect:
  assumes "hub_accounts h = []" and "connect_refusal aid hello h = None"
  shows "\<exists>h'. connect pe aid hello now clock rvk h = (h', Inr (hub_next_conn h, [Wake (hub_next_conn h)]))"
  using assms
  by (auto simp: connect_def connect_debt_def admit_def account_new_def conn_arm_def effects_wake_def effects_default_def finish_woken
      put_account_def CONNECT_REFUSED_ABOVE_MS_def greeted_def Let_def split: prod.split)

definition club_hub :: hub where
  "club_hub = \<lparr>hub_limits = limits_default, hub_accounts = [], hub_conn_account = [], hub_next_conn = 1, hub_epoch_state = 5, hub_clock = 0\<rparr>"

definition club :: hub_state where
  "club = \<lparr>hs_registry = clubhouse,
     hs_shared = \<lparr>sh_shards = [\<lparr>ss_hub = club_hub, ss_handles = [], ss_accounts = 0\<rparr>], sh_accounts = 0, sh_max_accounts = 2\<rparr>,
     hs_strangers = strangers_new DEFAULT_BUDGET 0, hs_gate = gate_new arrivals_default\<rparr>"

definition box_arrival :: arrival where
  "box_arrival = \<lparr>av_peer = V4 [1, 2, 3, 4], av_proxied = False, av_asked = True, av_header = None, av_asked_at = 0, av_upgraded = True,
     av_nonce = Some [4], av_challenged = True, av_message = Some [1, 0], av_now_ms = 15, av_joined_ms = 15, av_clock_ms = 0,
     av_pairing_free = True, av_left = 9\<rparr>"

definition box_codec :: "bytes \<Rightarrow> unit + frame" where
  "box_codec bs = Inr (Frame (Some (BHello (hello_of lobby box_login [4]))))"

lemma box_says: "first_message box_codec config_default (Some [1, 0]) = Says (hello_of lobby box_login [4]) [] 2"
proof -
  have "read_varint [1, 0] = Inr (Some (1, 1))" using read_varint_varint [of 1 "[0]"] by (simp add: varint_last)
  then have "decode_frames_shared box_codec [1, 0] (2 ^ 20) = Inr [Frame (Some (BHello (hello_of lobby box_login [4])))]"
    by (simp add: decode_frames_shared_def decode_shared_from.simps [of _ _ _ 0] decode_shared_from.simps [of _ _ _ "Suc (Suc 0)"] checked_add_usize_def
        box_codec_def)
  then show ?thesis by (simp add: first_message_def config_default_def limits_default_def)
qed

lemma box_named: "h_principal (hello_of lobby box_login [4]) = pad_key [7]" "h_chain (hello_of lobby box_login [4]) = [box_cert]"
  "h_role (hello_of lobby box_login [4]) = i32_of_role RoleBoxConnector" "h_protocol (hello_of lobby box_login [4]) = CLIENT_PROTOCOL"
  by (simp_all add: hello_of_def Let_def box_login_facts box_facts)

lemma box_welcome: "connect_refusal (pad_key [1]) (hello_of lobby box_login [4]) club_hub = None"
proof -
  have "pad_key k \<noteq> []" for k using pad_key_length [of k] by (metis list.size(3) zero_neq_numeral)
  then show ?thesis
    by (simp add: connect_refusal_def box_named club_hub_def limits_default_def CLIENT_PROTOCOL_def PROTOCOL_def Let_def)
qed

abbreviation club_start :: "hub_state \<times> started" where
  "club_start \<equiv> connection_start (\<lambda>_ _. 0) lobby (\<lambda>_. [1]) box_codec (\<lambda>_. []) (\<lambda>_. None) no_fault ''1'' config_default (AuthKeys ''hub'') (\<lambda>_. 0) box_arrival club"

lemma box_arrives:
  "roster (ss_hub (sh_shards (hs_shared (fst club_start)) ! 0)) 1 = Some (pad_key [1], pad_key [7], presentable [box_cert])"
proof -
  obtain rvk where rvk: "authenticate lobby (\<lambda>_. []) (\<lambda>_. None) no_fault ''1'' (AuthKeys ''hub'') (hello_of lobby box_login [4]) [4]
      (V4 [1, 2, 3, 4]) 15 clubhouse = (clubhouse, Inr \<lparr>ad_account = pad_key [1], ad_revoker = rvk\<rparr>)"
    using box_logs_in by blast
  obtain h where h: "connect (\<lambda>_. [1]) (pad_key [1]) (hello_of lobby box_login [4]) 15 0 rvk club_hub = (h, Inr (1, [Wake 1]))"
    using lone_connect [OF _ box_welcome, of "\<lambda>_. [1]" 15 0 rvk] by (auto simp: club_hub_def)
  have "hs_shared (fst club_start) = fst (shared_connect (\<lambda>_. [1]) 0 (pad_key [1]) (hello_of lobby box_login [4]) 15 0 rvk (hs_shared club))"
    using rvk box_says
    by (simp add: connection_start_def hear_first_def greet_def bill_def handshake_gate_def box_arrival_def shard_of_def club_def Let_def
        split: prod.split sum.split)
  then have "ss_hub (sh_shards (hs_shared (fst club_start)) ! 0) = h"
    using h by (simp add: shared_connect_def connect_reserve_def connect_admit_def connect_locked_def reconcile_accounts_def notified_rosters club_def Let_def
        split: prod.split)
  with connect_roster [OF h] box_named show ?thesis by (simp add: restrict_map_def)
qed

theorem only_the_proven_are_connected_witness:
  "snd club_start = Connected 0 1 [] 2 \<and> hs_strangers (fst club_start) = hs_strangers club"
proof -
  have "sh_shards (hs_shared club) \<noteq> []" "roster (ss_hub (sh_shards (hs_shared club) ! 0)) 1 = None"
    by (simp_all add: club_def club_hub_def roster_def)
  with only_the_proven_are_connected [OF prod.collapse [symmetric] _ box_arrives] box_says show ?thesis
    by (auto simp: box_arrival_def)
qed

end
