(* ===== verification/Operator.thy ===== *)
theory Operator
  imports Admission
begin

text \<open>
  What an operator does, \<open>crates/hub/src/main.rs\<close>: the arguments of \<open>wmlhub\<close> with their defaults, how \<open>serve\<close> turns them into the
  state a hub starts with, and the commands on the state directory, which run beside a hub that is serving. Reading the command line
  itself is a library's work; a command is the value it yields. Of the lines printed, the values in them are kept; a failed
  command exits with its reason. The address that cannot be bound, the disk, the random source, the clock and the process are arguments.
\<close>

section \<open>Arguments\<close>

record serve_args =
  sv_listen :: "ip_addr \<times> nat"
  sv_hub_name :: "string option"
  sv_state_dir :: string
  sv_registration :: registration
  sv_open_per_address :: nat
  sv_open_total :: nat
  sv_account_bytes_per_second :: nat
  sv_account_burst_bytes :: nat
  sv_max_pending_sockets :: nat
  sv_max_hello_bytes :: nat
  sv_connections_per_minute :: "nat option"
  sv_connection_burst :: "nat option"
  sv_trusted_proxies :: string
  sv_max_pairing_sockets :: nat
  sv_shards :: nat
  sv_unauthenticated_cpu_percent :: nat
  sv_dev :: bool

definition DEFAULT_STATE_DIR :: string where "DEFAULT_STATE_DIR = ''wmlhub-state''"
definition DEFAULT_TTL_HOURS :: nat where "DEFAULT_TTL_HOURS = 168"
definition DEFAULT_CONNECTIONS_PER_MINUTE :: nat where "DEFAULT_CONNECTIONS_PER_MINUTE = 60"

text \<open>The value of every option that is not given.\<close>

definition serve_defaults :: serve_args where
  "serve_defaults =
     \<lparr>sv_listen = (V4 [127, 0, 0, 1], 8787), sv_hub_name = None, sv_state_dir = DEFAULT_STATE_DIR, sv_registration = Invite,
      sv_open_per_address = per_address open_limits_default, sv_open_total = total open_limits_default,
      sv_account_bytes_per_second = account_bytes_per_second limits_default, sv_account_burst_bytes = account_burst_bytes limits_default,
      sv_max_pending_sockets = cg_max_pending_sockets config_default, sv_max_hello_bytes = cg_max_hello_bytes config_default,
      sv_connections_per_minute = None, sv_connection_burst = None, sv_trusted_proxies = [],
      sv_max_pairing_sockets = cg_max_pairing_sockets config_default, sv_shards = 0, sv_unauthenticated_cpu_percent = 25, sv_dev = False\<rparr>"

datatype invite_command = InviteCreate string nat | InviteList string

datatype accounts_command = AccountsList string | ClearRevoker string string

datatype cli_failure =
    DevBeyondLoopback
  | HubNameRequired
  | CannotUseStateDir string string
  | CannotListen "ip_addr \<times> nat" string
  | BadTrustedProxies proxies_error
  | ServeError string
  | CannotCreateInvite string string
  | CannotRead string string
  | NoSigner string
  | CannotWrite string string

section \<open>Starting a hub\<close>

definition is_loopback :: "ip_addr \<Rightarrow> bool" where
  "is_loopback a = (case a of V4 b \<Rightarrow> take 1 b = [127] | V6 b \<Rightarrow> b = replicate 15 0 @ [1])"

definition serve_auth :: "disk \<Rightarrow> serve_args \<Rightarrow> state_dir \<Rightarrow> cli_failure + (auth \<times> registry option)" where
  "serve_auth fault args d =
     (if sv_dev args
      then and_then (ensure (is_loopback (fst (sv_listen args))) DevBeyondLoopback) (\<lambda>_. Inr (Development, None))
      else case sv_hub_name args of
             None \<Rightarrow> Inl HubNameRequired
           | Some hub_name \<Rightarrow>
               and_then (ensure (trim hub_name \<noteq> []) HubNameRequired) (\<lambda>_.
               let lims = open_limits_default\<lparr>per_address := sv_open_per_address args, total := sv_open_total args\<rparr> in
               and_then (map_err (CannotUseStateDir (sv_state_dir args)) (registry_open fault (sv_registration args) lims d)) (\<lambda>r.
               Inr (AuthKeys hub_name, Some r))))"

definition serve_arrivals :: "serve_args \<Rightarrow> proxies \<Rightarrow> arrivals" where
  "serve_arrivals args ps =
     (let rate = (case sv_connections_per_minute args of
                    Some n \<Rightarrow> n
                  | None \<Rightarrow> if ps = [] then 0 else DEFAULT_CONNECTIONS_PER_MINUTE)
      in \<lparr>per_minute = rate, burst = (case sv_connection_burst args of Some n \<Rightarrow> n | None \<Rightarrow> div_ceil rate 2)\<rparr>)"

definition serve_config :: "serve_args \<Rightarrow> proxies \<Rightarrow> config" where
  "serve_config args ps =
     (let us = sv_unauthenticated_cpu_percent args * 10000 in
      config_default\<lparr>cg_shards := sv_shards args,
        cg_limits := (cg_limits config_default)\<lparr>account_bytes_per_second := sv_account_bytes_per_second args,
                                               account_burst_bytes := sv_account_burst_bytes args\<rparr>,
        cg_max_pending_sockets := sv_max_pending_sockets args,
        cg_max_pairing_sockets := sv_max_pairing_sockets args,
        cg_max_hello_bytes := sv_max_hello_bytes args,
        cg_strangers := \<lparr>us_per_second = us, burst_us = us\<rparr>,
        cg_arrivals := serve_arrivals args ps,
        cg_trusted_proxies := ps\<rparr>)"

definition epoch_seed :: "nat \<Rightarrow> nat \<Rightarrow> u64" where
  "epoch_seed now_ms process = of_nat now_ms XOR word_rotl 32 (of_nat process)"

text \<open>What runs once everything is in place: who is asked, over which registry, with which configuration and shards.\<close>

record running =
  rn_auth :: auth
  rn_registry :: "registry option"
  rn_config :: config
  rn_shared :: shared
  rn_gate :: gate
  rn_slots :: slots
  rn_strangers :: strangers

definition hub_serve ::
    "disk \<Rightarrow> (ip_addr \<times> nat \<Rightarrow> string option) \<Rightarrow> nat option \<Rightarrow> nat \<Rightarrow> nat \<Rightarrow> nat \<Rightarrow> serve_args \<Rightarrow> state_dir \<Rightarrow> cli_failure + running" where
  "hub_serve fault bind cores now_ms process clock args d =
     and_then (serve_auth fault args d) (\<lambda>(auth, registry).
     and_then (case bind (sv_listen args) of Some e \<Rightarrow> Inl (CannotListen (sv_listen args) e) | None \<Rightarrow> Inr ()) (\<lambda>_.
     and_then (map_err BadTrustedProxies (proxies_parse (sv_trusted_proxies args))) (\<lambda>ps.
     let cfg = serve_config args ps in
     and_then (map_err ServeError (shared_new cfg cores (epoch_seed now_ms process))) (\<lambda>sh.
     Inr \<lparr>rn_auth = auth, rn_registry = registry, rn_config = cfg, rn_shared = sh, rn_gate = gate_new (cg_arrivals cfg), rn_slots = slots_default,
          rn_strangers = strangers_new (cg_strangers cfg) clock\<rparr>))))"

section \<open>The commands on a state directory\<close>

datatype printed =
    Token string nat
  | InviteLine string "nat option"
  | AccountLine string "(string \<times> nat \<times> nat \<times> bool) option"
  | NextSigner string

type_synonym outcome = "cli_failure + printed list"

definition invite_create :: "disk \<Rightarrow> (bytes \<Rightarrow> bytes) \<Rightarrow> string + bytes \<Rightarrow> nat \<Rightarrow> string \<Rightarrow> nat \<Rightarrow> 'a state_dir_scheme \<Rightarrow> 'a state_dir_scheme \<times> outcome" where
  "invite_create fault sha random now_ms path ttl_hours d =
     (case create_invite fault sha random (min (ttl_hours * 3600) U64_LIM * 1000) now_ms d of
        (d1, Inr token) \<Rightarrow> (d1, Inr [Token token ttl_hours])
      | (d1, Inl e) \<Rightarrow> (d1, Inl (CannotCreateInvite path e)))"

definition invite_list :: "disk \<Rightarrow> nat \<Rightarrow> string \<Rightarrow> 'a state_dir_scheme \<Rightarrow> outcome" where
  "invite_list fault now_ms path d =
     (case list_invites fault d of
        Inl e \<Rightarrow> Inl (CannotRead path e)
      | Inr invites \<Rightarrow>
          Inr (map (\<lambda>(prefix, expires). InviteLine prefix (if expires < now_ms then None else Some ((expires - now_ms) div 3600000))) invites))"

definition accounts_list :: "disk \<Rightarrow> nat \<Rightarrow> string \<Rightarrow> 'a state_dir_scheme \<Rightarrow> outcome" where
  "accounts_list fault now_ms path d =
     (case (list_accounts fault d, list_revokers fault d) of
        (Inr accounts, Inr revokers) \<Rightarrow>
          Inr (map (\<lambda>a. AccountLine a (map_option (\<lambda>s. (sg_principal s, sg_since_ms s, sg_until_ms s, sg_until_ms s \<le> now_ms)) (map_of revokers a))) accounts)
      | (Inl e, _) \<Rightarrow> Inl (CannotRead path e)
      | (_, Inl e) \<Rightarrow> Inl (CannotRead path e))"

definition accounts_clear_revoker :: "disk \<Rightarrow> string \<Rightarrow> string \<Rightarrow> 'a state_dir_scheme \<Rightarrow> 'a state_dir_scheme \<times> outcome" where
  "accounts_clear_revoker fault account path d =
     (case clear_revoker fault account d of
        (d1, Inr True) \<Rightarrow> (d1, Inr [NextSigner account])
      | (d1, Inr False) \<Rightarrow> (d1, Inl (NoSigner account))
      | (d1, Inl e) \<Rightarrow> (d1, Inl (CannotWrite path e)))"

text \<open>\<open>main\<close> without \<open>serve\<close>: the exit code is 0 for what was printed and 2 for a failure.\<close>

definition run_invite :: "disk \<Rightarrow> (bytes \<Rightarrow> bytes) \<Rightarrow> string + bytes \<Rightarrow> nat \<Rightarrow> invite_command \<Rightarrow> 'a state_dir_scheme \<Rightarrow> 'a state_dir_scheme \<times> outcome" where
  "run_invite fault sha random now_ms c d =
     (case c of
        InviteCreate path ttl_hours \<Rightarrow> invite_create fault sha random now_ms path ttl_hours d
      | InviteList path \<Rightarrow> (d, invite_list fault now_ms path d))"

definition run_accounts :: "disk \<Rightarrow> nat \<Rightarrow> accounts_command \<Rightarrow> 'a state_dir_scheme \<Rightarrow> 'a state_dir_scheme \<times> outcome" where
  "run_accounts fault now_ms c d =
     (case c of
        AccountsList path \<Rightarrow> (d, accounts_list fault now_ms path d)
      | ClearRevoker account path \<Rightarrow> accounts_clear_revoker fault account path d)"

definition exit_code :: "outcome \<Rightarrow> nat" where
  "exit_code out = (case out of Inl _ \<Rightarrow> 2 | Inr _ \<Rightarrow> 0)"

section \<open>When a hub starts, and as what\<close>

lemma collect_ok_exists: "(\<exists>ys. collect_ok f xs = Inr ys) \<longleftrightarrow> list_all (\<lambda>x. \<exists>y. f x = Inr y) xs"
  by (induction xs) (auto simp: result_ok)

lemma shard_new_exists:
  "(\<exists>s. shard_new l seed i = Inr s) \<longleftrightarrow>
     ring_session_events l \<le> queue_session_events l \<and> 0 < account_bytes_per_second l \<and> 0 < account_burst_bytes l \<and> max_payload_bytes l < max_frame_bytes l"
  by (auto simp: shard_new_def with_id_space_def)

lemma shard_count_pos: "0 < shard_count cores cfg"
  by (simp add: shard_count_def Let_def)

lemma shared_new_exists:
  "(\<exists>sh. shared_new cfg cores seed = Inr sh) \<longleftrightarrow>
     (let l = cg_limits cfg in ring_session_events l \<le> queue_session_events l \<and> 0 < account_bytes_per_second l \<and> 0 < account_burst_bytes l
        \<and> max_payload_bytes l < max_frame_bytes l)"
proof -
  let ?f = "shard_new ((cg_limits cfg)\<lparr>max_accounts := 2 ^ 64 - 1\<rparr>) seed"
  have "(\<exists>sh. shared_new cfg cores seed = Inr sh) \<longleftrightarrow> (\<exists>ys. collect_ok ?f [0..<shard_count cores cfg] = Inr ys)"
    by (auto simp: shared_new_def Let_def result_ok)
  also have "\<dots> \<longleftrightarrow> (\<forall>i < shard_count cores cfg. \<exists>s. ?f i = Inr s)" by (auto simp: collect_ok_exists list_all_iff)
  finally show ?thesis using shard_count_pos [of cores cfg] by (auto simp: shard_new_exists Let_def)
qed

lemma registry_open_ok:
  "registry_open fault mode lims d = Inr r \<longleftrightarrow>
     list_all (\<lambda>f. fault OpMkdir f = None) [''accounts'', ''invites'', ''invites-used'', ''revokers'']
     \<and> r = registry_new mode lims (rg_accounts d) (rg_invites d) (rg_used d) (rg_revokers d)"
  by (auto simp: registry_open_def map_filter_simps split: option.splits)

lemma serve_config_fields:
  "cg_limits (serve_config args ps) = limits_default\<lparr>account_bytes_per_second := sv_account_bytes_per_second args,
     account_burst_bytes := sv_account_burst_bytes args\<rparr>"
  "cg_arrivals (serve_config args ps) = serve_arrivals args ps" "cg_trusted_proxies (serve_config args ps) = ps"
  by (simp_all add: serve_config_def config_default_def Let_def)

lemma serve_shared_exists:
  "(\<exists>sh. shared_new (serve_config args ps) cores seed = Inr sh) \<longleftrightarrow> 0 < sv_account_bytes_per_second args \<and> 0 < sv_account_burst_bytes args"
  by (simp add: shared_new_exists serve_config_fields limits_default_def Let_def)

text \<open>The decisions of \<open>serve\<close>, each with the value it goes on with.\<close>

lemma hub_serve_ok:
  "hub_serve fault bind cores now_ms process clock args d = Inr run \<longleftrightarrow>
     (\<exists>auth registry ps sh. serve_auth fault args d = Inr (auth, registry) \<and> bind (sv_listen args) = None
        \<and> proxies_parse (sv_trusted_proxies args) = Inr ps
        \<and> shared_new (serve_config args ps) cores (epoch_seed now_ms process) = Inr sh
        \<and> run = \<lparr>rn_auth = auth, rn_registry = registry, rn_config = serve_config args ps, rn_shared = sh,
              rn_gate = gate_new (serve_arrivals args ps), rn_slots = slots_default, rn_strangers = strangers_new (cg_strangers (serve_config args ps)) clock\<rparr>)"
  by (auto simp: hub_serve_def result_ok serve_config_fields Let_def split: option.splits)

lemma serve_auth_ok:
  "serve_auth fault args d = Inr (auth, registry) \<longleftrightarrow>
     (if sv_dev args then is_loopback (fst (sv_listen args)) \<and> auth = Development \<and> registry = None
      else \<exists>n. sv_hub_name args = Some n \<and> trim n \<noteq> [] \<and> auth = AuthKeys n
        \<and> (\<exists>r. registry = Some r
             \<and> registry_open fault (sv_registration args) (open_limits_default\<lparr>per_address := sv_open_per_address args, total := sv_open_total args\<rparr>) d = Inr r))"
  by (auto simp: serve_auth_def result_ok Let_def split: option.splits)

text \<open>A hub starts exactly when it may. \<open>serve\<close> gets as far as accepting connections if and only if development mode listens on
  loopback, or there is a name that is not blank and the four folders of the state directory can be made; and the address can be listened on; and the list of
  trusted proxies parses; and the work rate and burst of an account are not zero. Nothing else the operator can write stops it.\<close>

theorem the_hub_starts_exactly_when_it_may:
  "(\<exists>run. hub_serve fault bind cores now_ms process clock args d = Inr run) \<longleftrightarrow>
     (if sv_dev args then is_loopback (fst (sv_listen args))
      else (\<exists>n. sv_hub_name args = Some n \<and> trim n \<noteq> [])
        \<and> list_all (\<lambda>f. fault OpMkdir f = None) [''accounts'', ''invites'', ''invites-used'', ''revokers''])
     \<and> bind (sv_listen args) = None \<and> (\<exists>ps. proxies_parse (sv_trusted_proxies args) = Inr ps)
     \<and> 0 < sv_account_bytes_per_second args \<and> 0 < sv_account_burst_bytes args"
proof -
  have auth: "(\<exists>a r. serve_auth fault args d = Inr (a, r)) \<longleftrightarrow>
     (if sv_dev args then is_loopback (fst (sv_listen args))
      else (\<exists>n. sv_hub_name args = Some n \<and> trim n \<noteq> [])
        \<and> list_all (\<lambda>f. fault OpMkdir f = None) [''accounts'', ''invites'', ''invites-used'', ''revokers''])"
    by (auto simp: serve_auth_ok registry_open_ok)
  have "(\<exists>run. hub_serve fault bind cores now_ms process clock args d = Inr run) \<longleftrightarrow>
    (\<exists>a r. serve_auth fault args d = Inr (a, r)) \<and> bind (sv_listen args) = None
    \<and> (\<exists>ps. proxies_parse (sv_trusted_proxies args) = Inr ps \<and> (\<exists>sh. shared_new (serve_config args ps) cores (epoch_seed now_ms process) = Inr sh))"
    by (auto simp: hub_serve_ok)
  then show ?thesis by (simp add: auth serve_shared_exists)
qed

lemma serve_arrivals_off:
  "per_minute (serve_arrivals args ps) = 0 \<longleftrightarrow>
     sv_connections_per_minute args = Some 0 \<or> sv_connections_per_minute args = None \<and> ps = []"
  by (auto simp: serve_arrivals_def DEFAULT_CONNECTIONS_PER_MINUTE_def Let_def split: option.splits)

lemma accept_socket_gate_off:
  assumes "per_minute (g_limits g) = 0"
  shows "snd (fst (accept_socket accrue cfg peer now later socket_free pending_free (st, g))) = g"
    and "snd (snd (accept_socket accrue cfg peer now later socket_free pending_free (st, g))) \<noteq> TooOften"
  using assms by (auto simp: accept_socket_def gate_admit_def Let_def split: prod.splits)

lemma serve_shared_start:
  "shared_new (serve_config args ps) cores seed = Inr sh \<Longrightarrow> server_start (sh, replicate (length (sh_shards sh)) None, [])"
  unfolding server_start_def
  by (rule exI [of _ "serve_config args ps"], rule exI [of _ cores], rule exI [of _ seed]) (simp add: serve_config_fields limits_default_def)

text \<open>C9. What was started is what was asked for. Only on loopback does a hub believe what a hello claims; everywhere else it checks keys
  under the name it was given, over the accounts and used invites already on disk. Its shards are a start of the server's machine, so everything shown of
  its runs holds. And unless the operator named proxies or set a rate, no address is read from a header and none is ever
  refused for coming too often: accepting a socket leaves the gate as it was.\<close>

theorem what_was_started_is_what_was_asked_for:
  assumes "hub_serve fault bind cores now_ms process clock args d = Inr run"
  shows "(rn_auth run = Development \<and> is_loopback (fst (sv_listen args))
      \<or> (\<exists>n r. rn_auth run = AuthKeys n \<and> sv_hub_name args = Some n \<and> trim n \<noteq> [] \<and> rn_registry run = Some r
            \<and> rg_mode r = sv_registration args \<and> rg_accounts r = rg_accounts d \<and> rg_used r = rg_used d))
    \<and> server_start (rn_shared run, replicate (length (sh_shards (rn_shared run))) None, [])
    \<and> (sv_trusted_proxies args = [] \<and> sv_connections_per_minute args = None \<longrightarrow>
         client_address peer header (cg_trusted_proxies (rn_config run)) = peer
         \<and> (\<exists>st' owed verdict. accept_socket accrue (rn_config run) peer now later socket_free pending_free (st, rn_gate run)
               = ((st', rn_gate run), owed, verdict) \<and> verdict \<noteq> TooOften))"
proof -
  from assms obtain auth registry ps sh where S: "serve_auth fault args d = Inr (auth, registry)"
      "proxies_parse (sv_trusted_proxies args) = Inr ps" "shared_new (serve_config args ps) cores (epoch_seed now_ms process) = Inr sh"
    and run: "rn_auth run = auth" "rn_registry run = registry" "rn_config run = serve_config args ps" "rn_shared run = sh"
      "rn_gate run = gate_new (serve_arrivals args ps)"
    unfolding hub_serve_ok by fastforce
  have "ps = []" if "sv_trusted_proxies args = []" using S(2) that by (simp add: proxies_parse_def trim_def)
  then have off: "ps = [] \<and> per_minute (g_limits (rn_gate run)) = 0" if "sv_trusted_proxies args = []" "sv_connections_per_minute args = None"
    using that by (simp add: run gate_new_def serve_arrivals_off)
  have "\<exists>st' owed verdict. accept_socket accrue (rn_config run) peer now later socket_free pending_free (st, rn_gate run)
      = ((st', rn_gate run), owed, verdict) \<and> verdict \<noteq> TooOften" if "per_minute (g_limits (rn_gate run)) = 0"
    using accept_socket_gate_off [OF that, of accrue "rn_config run" peer now later socket_free pending_free st] by (metis prod.collapse)
  then show ?thesis
    using S(1) off serve_shared_start [OF S(3)] by (auto simp: run serve_auth_ok registry_open_ok registry_new_def serve_config_fields client_address_def split: if_splits)
qed

section \<open>Invites and signers\<close>

lemma invite_text_expires: "n \<le> U64_LIM \<Longrightarrow> invite_expires (show_nat n @ [CHR 10]) = n"
  using trim_line [OF show_nat_hexdigits show_nat_nonempty] parse_show_nat [of n U64_LIM] by (simp add: invite_expires_def)

definition ttl_ms :: "nat \<Rightarrow> nat" where
  "ttl_ms ttl_hours = min (min (ttl_hours * 3600) U64_LIM * 1000) U64_LIM"

text \<open>What a successful \<open>invite create\<close> leaves on disk: the hash of the token it printed, with its expiry.\<close>

lemma create_invite_ok:
  assumes "create_invite fault sha random ttl now_ms d = (d1, Inr token)"
  shows "token \<noteq> [] \<and> d1 = d\<lparr>rg_invites := AList.update (hex (sha (map of_char token))) (show_nat (min (now_ms + min ttl U64_LIM) U64_LIM) @ [CHR 10]) (rg_invites d)\<rparr>"
proof -
  from assms obtain raw where raw: "random = Inr raw" "fault OpMkdir ''invites'' = None"
    by (auto simp: create_invite_def split: option.splits sum.splits)
  define t where "t = ''wmlhub-invite-'' @ hex raw"
  have "t \<noteq> []" by (simp add: t_def)
  with assms show ?thesis unfolding create_invite_def raw prod.case option.case sum.case t_def [symmetric] Let_def
    by (simp split: option.splits created.splits) blast
qed

lemma invite_create_ok:
  assumes "invite_create fault sha random now_ms path ttl_hours d = (d1, Inr [Token token ttl])"
  shows "token \<noteq> [] \<and> d1 = d\<lparr>rg_invites := AList.update (hex (sha (map of_char token))) (show_nat (min (now_ms + ttl_ms ttl_hours) U64_LIM) @ [CHR 10]) (rg_invites d)\<rparr>"
proof -
  from assms have "create_invite fault sha random (min (ttl_hours * 3600) U64_LIM * 1000) now_ms d = (d1, Inr token)"
    by (auto simp: invite_create_def split: prod.splits sum.splits)
  from create_invite_ok [OF this] show ?thesis unfolding ttl_ms_def .
qed

lemma consume_invite_sound:
  assumes "map_of (rg_used r) (hex (sha invite)) = None" and "map_of (rg_invites r) (hex (sha invite)) = Some content"
  shows "\<exists>r1. consume_invite no_fault sha invite now r = (r1, if now \<le> invite_expires content then Inr () else Inl InviteInvalid)
    \<and> map_of (rg_invites r1) (hex (sha invite)) = None \<and> rg_mode r1 = rg_mode r \<and> rg_accounts r1 = rg_accounts r"
  using assms
  by (simp add: consume_invite_def read_invite_def claim_invite_def create_new_def tidy_invite_def no_fault_def AList.delete_conv' Let_def)

lemma register_account_sound:
  assumes "map_of (rg_accounts r) (hex account) = None"
  shows "\<exists>text. register_account no_fault account now r = (r\<lparr>rg_accounts := AList.update (hex account) text (rg_accounts r)\<rparr>, Inr Registered)"
  using assms unfolding register_account_def create_new_def no_fault_def Let_def by auto

lemma registry_admit_invited:
  assumes "rg_mode r = Invite" and "invite \<noteq> []" and "map_of (rg_accounts r) (hex account) = None"
    and "map_of (rg_used r) (hex (sha invite)) = None" and "map_of (rg_invites r) (hex (sha invite)) = Some content"
  shows "\<exists>r'. registry_admit no_fault sha account invite address now r = (r', if now \<le> invite_expires content then Inr Registered else Inl InviteInvalid)
    \<and> map_of (rg_invites r') (hex (sha invite)) = None \<and> rg_mode r' = Invite
    \<and> (\<forall>other. other \<noteq> hex account \<longrightarrow> map_of (rg_accounts r') other = map_of (rg_accounts r) other)"
proof -
  obtain r1 where
    r1: "consume_invite no_fault sha invite now r = (r1, if now \<le> invite_expires content then Inr () else Inl InviteInvalid)"
    "map_of (rg_invites r1) (hex (sha invite)) = None" "rg_mode r1 = rg_mode r" "rg_accounts r1 = rg_accounts r"
    using consume_invite_sound [of r sha invite content now] assms(4,5) by blast
  from register_account_sound [of r1 account now] assms(3) r1(4) obtain t where
    "register_account no_fault account now r1 = (r1\<lparr>rg_accounts := AList.update (hex account) t (rg_accounts r1)\<rparr>, Inr Registered)" by auto
  then show ?thesis
    using assms(1-3) r1 by (cases "now \<le> invite_expires content") (simp_all add: registry_admit_def account_exists_def update_conv')
qed

lemma registry_admit_uninvited:
  assumes "rg_mode r = Invite" and "invite \<noteq> []" and "map_of (rg_accounts r) (hex account) = None"
    and "map_of (rg_invites r) (hex (sha invite)) = None"
  shows "registry_admit no_fault sha account invite address now r = (r, Inl InviteInvalid)"
  using assms by (simp add: registry_admit_def account_exists_def no_fault_def consume_invite_def read_invite_def Let_def)

lemma invite_list_sound:
  "invite_list no_fault now_ms path d =
     Inr (map (\<lambda>(prefix, expires). InviteLine prefix (if expires < now_ms then None else Some ((expires - now_ms) div 3600000)))
       (sort_key snd (map (\<lambda>(name, content). (take 12 name, invite_expires content)) (rg_invites d))))"
proof -
  have "List.map_filter (\<lambda>(name, _). None :: string option) xs = []" for xs :: dir by (induction xs) (auto simp: map_filter_simps)
  then show ?thesis by (simp add: invite_list_def list_invites_def no_fault_def)
qed

lemma hex_inj: "hex a = hex b \<Longrightarrow> a = b"
  using hex_pairs_hex by (metis option.inject)

text \<open>C17. A printed invite is good for one account. On a disk that works, the token \<open>invite create\<close> prints, given to a hub in invite mode over the same
  directory, registers an account that is not known at any time up to its expiry and is refused after it; either way it is
  spent, and no other account gets in with it. Until then \<open>invite list\<close> shows it with the hours it has left.\<close>

theorem a_printed_invite_is_good_for_one_account:
  assumes "rg_mode r = Invite"
    and create: "run_invite no_fault sha random now_ms (InviteCreate path ttl_hours) r = (r1, Inr [Token token ttl])"
    and unused: "map_of (rg_used r) (hex (sha (map of_char token))) = None"
    and "map_of (rg_accounts r) (hex account) = None" and "map_of (rg_accounts r) (hex other) = None" and "other \<noteq> account"
  shows "let expires = min (now_ms + ttl_ms ttl_hours) U64_LIM; invite = map of_char token in
     (\<exists>r2. registry_admit no_fault sha account invite address later r1 = (r2, if later \<le> expires then Inr Registered else Inl InviteInvalid)
         \<and> registry_admit no_fault sha other invite address2 after r2 = (r2, Inl InviteInvalid))
     \<and> (\<exists>lines. invite_list no_fault later path r1 = Inr lines
          \<and> InviteLine (take 12 (hex (sha invite))) (if expires < later then None else Some ((expires - later) div 3600000)) \<in> set lines)"
proof -
  let ?hash = "hex (sha (map of_char token))" and ?e = "min (now_ms + ttl_ms ttl_hours) U64_LIM"
  from invite_create_ok [of no_fault sha random now_ms path ttl_hours r r1 token ttl] create
  have "token \<noteq> []" and r1: "r1 = r\<lparr>rg_invites := AList.update ?hash (show_nat ?e @ [CHR 10]) (rg_invites r)\<rparr>" by (auto simp: run_invite_def)
  have e: "invite_expires (show_nat ?e @ [CHR 10]) = ?e" by (rule invite_text_expires) simp
  have here: "map_of (rg_invites r1) ?hash = Some (show_nat ?e @ [CHR 10])" by (simp add: r1 update_conv')
  from registry_admit_invited [of r1 "map of_char token" account sha _ address later] here e r1 assms(1) unused assms(4) \<open>token \<noteq> []\<close>
  obtain r2 where r2: "registry_admit no_fault sha account (map of_char token) address later r1 = (r2, if later \<le> ?e then Inr Registered else Inl InviteInvalid)"
    "map_of (rg_invites r2) ?hash = None" "rg_mode r2 = Invite" "map_of (rg_accounts r2) (hex other) = map_of (rg_accounts r1) (hex other)"
    using hex_inj [of other account] assms(6) by (auto simp del: of_nat_min)
  have "registry_admit no_fault sha other (map of_char token) address2 after r2 = (r2, Inl InviteInvalid)"
    using r2 r1 assms(5) \<open>token \<noteq> []\<close> by (intro registry_admit_uninvited) simp_all
  moreover have "(take 12 ?hash, ?e) \<in> (\<lambda>(name, text). (take 12 name, invite_expires text)) ` set (rg_invites r1)"
    using map_of_SomeD [OF here] e by force
  then have "\<exists>lines. invite_list no_fault later path r1 = Inr lines
      \<and> InviteLine (take 12 ?hash) (if ?e < later then None else Some ((?e - later) div 3600000)) \<in> set lines"
    by (force simp: invite_list_sound image_iff)
  ultimately show ?thesis using r2(1) by (auto simp: Let_def)
qed

text \<open>Forgetting a signer makes room for the next. When \<open>accounts clear-revoker\<close> says it did, the account has no signer, whatever its record said;
  the next certificate that may revoke takes the account, also one of the device that was forgotten, and is the signer the hub names from then on.
  When there was nothing to forget it says so and the directory is as it was.\<close>

theorem forgetting_a_signer_makes_room:
  assumes "signer_ok s" and "now < sg_until_ms s"
  shows "case run_accounts no_fault now (ClearRevoker (hex account) path) r of
      (r1, Inr _) \<Rightarrow> registry_revoker no_fault account now r1 = None
        \<and> (\<exists>r2. claim_revoker no_fault pid account s now r1 = (r2, Inr Held) \<and> registry_revoker no_fault account now r2 = Some s)
    | (r1, Inl e) \<Rightarrow> r1 = r \<and> e = NoSigner (hex account) \<and> map_of (rg_revokers r) (hex account) = None"
proof (cases "map_of (rg_revokers r) (hex account)")
  case None
  then show ?thesis by (simp add: run_accounts_def accounts_clear_revoker_def clear_revoker_def no_fault_def)
next
  case (Some content)
  define r1 where "r1 = r\<lparr>rg_revokers := AList.delete (hex account) (rg_revokers r)\<rparr>"
  have cleared: "run_accounts no_fault now (ClearRevoker (hex account) path) r = (r1, Inr [NextSigner (hex account)])"
    using Some by (simp add: run_accounts_def accounts_clear_revoker_def clear_revoker_def no_fault_def r1_def)
  have gone: "read_revoker no_fault (hex account) r1 = None" by (simp add: read_revoker_def r1_def AList.delete_conv')
  obtain r2 where w: "write_revoker no_fault pid (hex account) s r1 = (r2, Inr ())"
    by (simp add: write_revoker_def no_fault_def Let_def)
  have "registry_revoker no_fault account now r2 = Some s"
    using write_revoker_ok [OF w] revoker_text_back [OF assms(1)] assms(2)
    by (simp add: registry_revoker_def read_revoker_def live_def no_fault_def)
  then show ?thesis using cleared gone w by (simp add: registry_revoker_def claim_revoker_def live_def Let_def)
qed

section \<open>Concrete commands\<close>

definition home_args :: serve_args where
  "home_args = serve_defaults\<lparr>sv_hub_name := Some ''hub.example''\<rparr>"

definition empty_dir :: state_dir where
  "empty_dir = \<lparr>rg_accounts = [], rg_invites = [], rg_used = [], rg_revokers = []\<rparr>"

lemma home_starts: "\<exists>run. hub_serve no_fault (\<lambda>_. None) (Some 2) 5 7 0 home_args empty_dir = Inr run"
proof -
  obtain sh where "shared_new (serve_config home_args []) (Some 2) (epoch_seed 5 7) = Inr sh"
    using serve_shared_exists [of home_args "[]" "Some 2" "epoch_seed 5 7"] by (auto simp: home_args_def serve_defaults_def limits_default_def)
  moreover have "\<exists>auth registry. serve_auth no_fault home_args empty_dir = Inr (auth, registry)"
    by (auto simp: serve_auth_ok registry_open_ok home_args_def serve_defaults_def no_fault_def trim_def is_space_def)
  moreover have "proxies_parse (sv_trusted_proxies home_args) = Inr []"
    by (simp add: home_args_def serve_defaults_def proxies_parse_def trim_def)
  ultimately show ?thesis unfolding hub_serve_ok by blast
qed

theorem what_was_started_is_what_was_asked_for_witness:
  "case hub_serve no_fault (\<lambda>_. None) (Some 2) 5 7 0 home_args empty_dir of
     Inl _ \<Rightarrow> False
   | Inr run \<Rightarrow> rn_auth run = AuthKeys ''hub.example''
       \<and> client_address (V4 [1, 2, 3, 4]) (Some ''6.6.6.6'') (cg_trusted_proxies (rn_config run)) = V4 [1, 2, 3, 4]
       \<and> snd (snd (accept_socket (\<lambda>_ _. 0) (rn_config run) (V4 [1, 2, 3, 4]) 0 0 True True (rn_strangers run, rn_gate run))) \<noteq> TooOften"
proof -
  obtain run where run: "hub_serve no_fault (\<lambda>_. None) (Some 2) 5 7 0 home_args empty_dir = Inr run" using home_starts by blast
  have facts: "sv_hub_name home_args = Some ''hub.example''" "\<not> sv_dev home_args" "sv_trusted_proxies home_args = []" "sv_connections_per_minute home_args = None"
    by (simp_all add: home_args_def serve_defaults_def)
  have "rn_auth run = AuthKeys ''hub.example''" using run facts(1,2) by (auto simp: hub_serve_ok serve_auth_ok)
  then show ?thesis
    using what_was_started_is_what_was_asked_for [OF run, of "V4 [1, 2, 3, 4]" "Some ''6.6.6.6''" "\<lambda>_ _. 0" 0 0 True True "rn_strangers run"] facts(3,4)
    by (auto simp: run)
qed

definition invited :: registry where
  "invited = fst (run_invite no_fault (\<lambda>b. b) (Inr [3]) 1000 (InviteCreate ''dir'' 1) (registry_new Invite open_limits_default [] [] [] []))"

lemma invited_run:
  "run_invite no_fault (\<lambda>b. b) (Inr [3]) 1000 (InviteCreate ''dir'' 1) (registry_new Invite open_limits_default [] [] [] [])
     = (invited, Inr [Token ''wmlhub-invite-03'' 1])"
  by (simp add: invited_def run_invite_def invite_create_def create_invite_def create_new_def no_fault_def registry_new_def hex_def hex_digit_def
      char_of_def bit_0 Let_def)

theorem a_printed_invite_is_good_for_one_account_witness:
  "snd (registry_admit no_fault (\<lambda>b. b) [1] (map of_char ''wmlhub-invite-03'') (V4 [127, 0, 0, 1]) 3601000 invited) = Inr Registered
   \<and> snd (registry_admit no_fault (\<lambda>b. b) [1] (map of_char ''wmlhub-invite-03'') (V4 [127, 0, 0, 1]) 3601001 invited) = Inl InviteInvalid"
proof -
  have *: "snd (registry_admit no_fault (\<lambda>b. b) [1] (map of_char ''wmlhub-invite-03'') (V4 [127, 0, 0, 1]) later invited)
    = (if later \<le> 3601000 then Inr Registered else Inl InviteInvalid)" for later
    using a_printed_invite_is_good_for_one_account [OF _ invited_run, of "[1]" "[2]" "V4 [127, 0, 0, 1]" later "V4 [127, 0, 0, 1]" 0]
    by (auto simp: registry_new_def ttl_ms_def Let_def simp del: list.map)
  show ?thesis by (simp only: *) simp
qed

theorem forgetting_a_signer_makes_room_witness:
  "let r = registry_new Invite open_limits_default [] [] [] [(hex [9], revoker_text example_signer)]
   in case run_accounts no_fault 10 (ClearRevoker (hex [9]) ''dir'') r of (r1, _) \<Rightarrow> registry_revoker no_fault [9] 10 r1 = None"
  using forgetting_a_signer_makes_room [OF example_signer_ok, where now = 10 and account = "[9]" and path = "''dir''" and pid = "''1''"
      and r = "registry_new Invite open_limits_default [] [] [] [(hex [9], revoker_text example_signer)]"]
  by (auto simp: example_signer_def registry_new_def split: prod.splits sum.splits)

end
