(* ===== verification/Relay_Authentic.thy ===== *)
theory Relay_Authentic
  imports Relay_Promises
begin

text \<open>
  Who a delivered envelope is from. The relay keeps frames only as their encoded bytes, in the queues of connections and the rings
  of streams; a mark on bytes says for which account and which receiving principal they may be there. Every call keeps
  everything marked when the hub's own frames are marked and the envelope it was given is marked as stamped for its sender.
  A run with a history of who sent what then shows that what a connection is handed was sent on its account, by the principal it names.
\<close>

section \<open>Marked bytes\<close>

text \<open>An envelope as the hub passes it on: the sender is its own to stamp, position and coalescing key are its own to set.\<close>

definition stamped :: "bytes \<Rightarrow> envelope \<Rightarrow> envelope \<Rightarrow> bool" where
  "stamped p env e \<longleftrightarrow> e_sender e = p \<and> e_to e = e_to env \<and> e_kind e = e_kind env \<and> e_payload e = e_payload env \<and> e_ref e = e_ref env"

definition addressed :: "bytes \<Rightarrow> envelope \<Rightarrow> bool" where
  "addressed p e \<longleftrightarrow> (case e_to e of Some (ToPrincipal q) \<Rightarrow> q = p | Some (ToChannel _) \<Rightarrow> True | None \<Rightarrow> False)"

text \<open>The place of a published message, as the hub keeps it beside the encoded bytes: the stream, whether it is telemetry, the epoch
  and the number.\<close>

type_synonym place = "(stream_key \<times> bool \<times> u64 \<times> nat) option"

definition it_place :: "item \<Rightarrow> place" where
  "it_place it = map_option (\<lambda>key. (key, it_telemetry it, it_epoch it, it_seq it)) (it_stream it)"

definition at_place :: "place \<Rightarrow> envelope \<Rightarrow> bool" where
  "at_place l e \<longleftrightarrow> (case l of
       None \<Rightarrow> (\<exists>p. e_to e = Some (ToPrincipal p))
     | Some (key, tele, epoch, n) \<Rightarrow> (kind_of_i32 (e_kind e) = Telemetry \<longleftrightarrow> tele)
         \<and> e_sender e = sk_publisher key \<and> e_to e = Some (ToChannel (sk_channel key)) \<and> e_epoch e = epoch \<and> e_seq e = n)"

definition queue_marked :: "(place \<Rightarrow> bytes \<Rightarrow> bool) \<Rightarrow> outbound \<Rightarrow> bool" where
  "queue_marked P q \<longleftrightarrow> (\<forall>it \<in> set (o_items q). P (it_place it) (it_wire it))"

definition stream_marked :: "(bytes \<Rightarrow> place \<Rightarrow> bytes \<Rightarrow> bool) \<Rightarrow> stream \<Rightarrow> bool" where
  "stream_marked P s \<longleftrightarrow>
     (\<forall>r. s_ring s = Some r \<longrightarrow> (\<forall>e \<in> set (r_entries r). \<forall>p. P p (Some (s_key s, r_kind r = Telemetry, r_epoch r, en_seq e)) (en_wire e)))"

definition streams_marked :: "(bytes \<Rightarrow> place \<Rightarrow> bytes \<Rightarrow> bool) \<Rightarrow> (stream_key \<times> stream) list \<Rightarrow> bool" where
  "streams_marked P ss \<longleftrightarrow> (\<forall>x \<in> set ss. s_key (snd x) = fst x \<and> stream_marked P (snd x))"

definition conns_marked :: "(bytes \<Rightarrow> place \<Rightarrow> bytes \<Rightarrow> bool) \<Rightarrow> (conn_id \<times> conn) list \<Rightarrow> bool" where
  "conns_marked P cs \<longleftrightarrow> (\<forall>x \<in> set cs. queue_marked (P (c_principal (snd x))) (c_out (snd x)))"

definition acct_marked :: "(bytes \<Rightarrow> place \<Rightarrow> bytes \<Rightarrow> bool) \<Rightarrow> account \<Rightarrow> bool" where
  "acct_marked P a \<longleftrightarrow> conns_marked P (a_conns a) \<and> streams_marked P (a_streams a)"

definition hub_marked :: "(account_id \<Rightarrow> bytes \<Rightarrow> place \<Rightarrow> bytes \<Rightarrow> bool) \<Rightarrow> hub \<Rightarrow> bool" where
  "hub_marked G h \<longleftrightarrow> (\<forall>x \<in> set (hub_accounts h). acct_marked (G (fst x)) (snd x))"

text \<open>What the relay takes at all: a payload and a coalescing key within the limits, and a channel that can be one.\<close>

definition takeable :: "limits \<Rightarrow> envelope \<Rightarrow> bool" where
  "takeable l env \<longleftrightarrow> length (e_payload env) \<le> max_payload_bytes l \<and> length (e_coalesce env) \<le> max_coalesce_bytes l
     \<and> (case e_to env of Some (ToChannel ch) \<Rightarrow> ch \<noteq> [] \<and> length ch \<le> max_id_bytes l | _ \<Rightarrow> True)"

lemma conns_marked_update:
  "conns_marked P cs \<Longrightarrow> queue_marked (P (c_principal c)) (c_out c) \<Longrightarrow> conns_marked P (AList.update cid c cs)"
  using set_alist_update [of cid c cs] by (auto simp: conns_marked_def)

lemma conns_marked_lookup: "conns_marked P cs \<Longrightarrow> map_of cs cid = Some c \<Longrightarrow> queue_marked (P (c_principal c)) (c_out c)"
  by (force simp: conns_marked_def dest: map_of_SomeD)

lemma streams_marked_update: "streams_marked P ss \<Longrightarrow> s_key s = key \<Longrightarrow> stream_marked P s \<Longrightarrow> streams_marked P (AList.update key s ss)"
  using set_alist_update [of key s ss] by (auto simp: streams_marked_def)

lemma streams_marked_lookup: "streams_marked P ss \<Longrightarrow> map_of ss key = Some s \<Longrightarrow> s_key s = key \<and> stream_marked P s"
  by (force simp: streams_marked_def dest: map_of_SomeD)

lemma marked_delete:
  "conns_marked P cs \<Longrightarrow> conns_marked P (AList.delete cid cs)"
  "streams_marked P ss \<Longrightarrow> streams_marked P (AList.delete key ss)"
  using set_alist_delete [of cid cs] set_alist_delete [of key ss] by (auto simp: conns_marked_def streams_marked_def)

lemma hub_marked_mono: "hub_marked G h \<Longrightarrow> (\<And>aid p l w. G aid p l w \<Longrightarrow> H aid p l w) \<Longrightarrow> hub_marked H h"
  by (fastforce simp: hub_marked_def acct_marked_def conns_marked_def streams_marked_def queue_marked_def stream_marked_def)

lemma hub_marked_account: "hub_marked G h \<Longrightarrow> map_of (hub_accounts h) aid = Some a \<Longrightarrow> acct_marked (G aid) a"
  by (force simp: hub_marked_def dest: map_of_SomeD)

lemma hub_marked_put: "hub_marked G h \<Longrightarrow> acct_marked (G aid) a \<Longrightarrow> hub_marked G (put_account aid a h)"
  using set_alist_update [of aid a "hub_accounts h"] by (auto simp: hub_marked_def put_account_def)

lemma hub_marked_cong: "hub_accounts h' = hub_accounts h \<Longrightarrow> hub_marked G h' = hub_marked G h"
  by (simp add: hub_marked_def)

lemma hub_marked_ids: "hub_marked G (h\<lparr>hub_next_conn := n, hub_conn_account := m\<rparr>) = hub_marked G h"
  by (simp add: hub_marked_def)

lemma hub_marked_delete: "hub_marked G h \<Longrightarrow> hub_marked G (h\<lparr>hub_accounts := AList.delete aid (hub_accounts h)\<rparr>)"
  using set_alist_delete [of aid "hub_accounts h"] by (auto simp: hub_marked_def)

lemma acct_marked_put_conn:
  "acct_marked P a \<Longrightarrow> queue_marked (P (c_principal c)) (c_out c) \<Longrightarrow> acct_marked P (put_conn cid c a)"
  by (simp add: acct_marked_def put_conn_def conns_marked_update)

lemma queue_marked_subset: "queue_marked P q \<Longrightarrow> set (o_items q') \<subseteq> set (o_items q) \<Longrightarrow> queue_marked P q'"
  by (auto simp: queue_marked_def)

lemma push_frame_marked:
  "queue_marked P q \<Longrightarrow> P None (encode_frame pe f) \<Longrightarrow> queue_marked P (fst (push_frame pe l f q))"
  by (auto simp: queue_marked_def push_frame_def outbound_push_def frame_item_def it_place_def Let_def)

lemma push_published_marked:
  assumes "queue_marked P q" "P (Some (key, k = Telemetry, epoch, en_seq e)) (en_wire e)"
  shows "queue_marked P (fst (push_published l key k epoch e q))"
proof -
  obtain q' r where p: "push_published l key k epoch e q = (q', r)" by fastforce
  have "set (o_items q') \<subseteq> set (o_items q @ [published_item key k epoch e])"
    using list_emb_set [OF push_published_thins(1) [OF p]] by blast
  then show ?thesis using assms p by (auto simp: queue_marked_def published_item_def it_place_def)
qed

lemma purge_stream_marked: "queue_marked P q \<Longrightarrow> queue_marked P (purge_stream key q)"
  by (rule queue_marked_subset) (auto simp: purge_stream_def Let_def)

lemma pushed_or_closed_conn:
  "pushed_or_closed cid c (out, r) fx = (c', fx') \<Longrightarrow> c_principal c' = c_principal c \<and> c_out c' = out"
  by (auto simp: pushed_or_closed_def conn_arm_def Let_def split: push_result.splits if_splits)

lemma push_put_marked:
  assumes "acct_marked P a" "map_of (a_conns a) cid = Some c" "P (c_principal c) None (encode_frame pe f)"
    and "pushed_or_closed cid c' (push_frame pe l f (c_out c)) fx = (c'', fx')" "c_principal c' = c_principal c"
  shows "acct_marked P (put_conn cid c'' a)"
proof (rule acct_marked_put_conn [OF assms(1)])
  have "c_principal c'' = c_principal c \<and> c_out c'' = fst (push_frame pe l f (c_out c))"
    using assms(4,5) pushed_or_closed_conn by (metis prod.collapse)
  then show "queue_marked (P (c_principal c'')) (c_out c'')"
    using push_frame_marked [OF conns_marked_lookup [OF _ assms(2)], of P pe f l] assms(1,3) by (simp add: acct_marked_def)
qed

lemma enqueue_marked:
  assumes "hub_marked G h" "\<And>p. G aid p None (encode_frame pe f)"
  shows "hub_marked G (fst (enqueue pe aid cid f (h, fx)))"
proof (cases "map_of (hub_accounts h) aid")
  case (Some a)
  show ?thesis
  proof (cases "map_of (a_conns a) cid")
    case (Some c)
    obtain c' fx' where p: "pushed_or_closed cid c (push_frame pe (hub_limits h) f (c_out c)) fx = (c', fx')" by fastforce
    from push_put_marked [OF hub_marked_account [OF assms(1) \<open>map_of (hub_accounts h) aid = Some a\<close>] Some assms(2) p]
    show ?thesis using assms(1) Some \<open>map_of (hub_accounts h) aid = Some a\<close> p by (simp add: enqueue_def hub_marked_put)
  qed (simp add: enqueue_def assms Some)
qed (simp add: enqueue_def assms)

lemma enqueue_all_marked:
  assumes "hub_marked G (fst hf)" "\<And>p. G aid p None (encode_frame pe f)"
  shows "hub_marked G (fst (enqueue_all pe aid f cids hf))"
  using assms(1)
proof (induction cids arbitrary: hf)
  case (Cons cid cids)
  with enqueue_marked [of G "fst hf" aid pe f cid "snd hf", OF _ assms(2)] show ?case by simp
qed simp

section \<open>Leaving and closing\<close>

lemma drop_subscriber_marked: "streams_marked P ss \<Longrightarrow> streams_marked P (drop_subscriber cid key ss)"
proof (cases "map_of ss key")
  case (Some s)
  assume m: "streams_marked P ss"
  have "s_key s = key \<and> stream_marked P (s\<lparr>s_subscribers := subs\<rparr>)" for subs
    using streams_marked_lookup [OF m Some] by (auto simp: stream_marked_def)
  with m Some show ?thesis by (simp add: drop_subscriber_def Let_def marked_delete streams_marked_update)
qed (simp add: drop_subscriber_def)

lemma leave_account_marked:
  assumes "acct_marked P a" "leave_account cid c a = (role, a')"
  shows "acct_marked P a'"
proof -
  have "streams_marked P (fold (drop_subscriber cid) ks ss)" if "streams_marked P ss" for ks ss
    using that by (induction ks arbitrary: ss) (simp_all add: drop_subscriber_marked)
  with assms show ?thesis
    by (auto simp: leave_account_def go_offline_def acct_marked_def marked_delete Let_def split: option.splits prod.splits if_splits)
qed

lemma pops_gaps: "(gaps, it) \<in> set (fst (pops n q)) \<Longrightarrow> g \<in> set gaps \<Longrightarrow> \<exists>x. g = Frame (Some (BGap x))"
proof (induction n arbitrary: q)
  case (Suc n)
  show ?case
  proof (cases "o_items q")
    case (Cons i rest)
    obtain gs q1 where p: "pop_front q i rest = (gs, q1)" by fastforce
    then have "\<forall>g \<in> set gs. \<exists>x. g = Frame (Some (BGap x))"
      by (auto simp: pop_front_def gap_frame_def Let_def split: if_splits option.splits)
    with Suc.prems Suc.IH [of q1] Cons p show ?thesis by (auto split: prod.splits)
  qed (use Suc in simp)
qed simp

text \<open>What the hub says of itself is marked for everybody; the laws of a mark that the calls rely on.\<close>

locale mark =
  fixes pe :: "frame \<Rightarrow> bytes" and G :: "account_id \<Rightarrow> bytes \<Rightarrow> place \<Rightarrow> bytes \<Rightarrow> bool"
  assumes own: "(\<And>e. frame_body f \<noteq> Some (BEnvelope e)) \<Longrightarrow> G aid p None (encode_frame pe f)"
begin

lemma own_frames [simp]:
  "G aid p None (encode_frame pe (error code reference msg))"
  "G aid p None (encode_frame pe (Frame (Some (BPong n))))"
  "G aid p None (encode_frame pe (Frame (Some (BPresence pr))))"
  "G aid p None (encode_frame pe (Frame (Some (BBackfilled b))))"
  "G aid p None (encode_frame pe (welcome_of l now rvk))"
  "G aid p None (encode_frame pe (presence_of a x))"
  by (rule own; simp add: error_def welcome_of_def presence_of_def Let_def split: prod.split)+

lemma forget_marked:
  assumes "hub_marked G (fst hf)"
  shows "hub_marked G (fst (forget pe cid hf))"
proof -
  obtain h fx where hf: "hf = (h, fx)" by fastforce
  show ?thesis
  proof (cases "map_of (hub_conn_account h) cid")
    case (Some aid)
    let ?h1 = "h\<lparr>hub_conn_account := AList.delete cid (hub_conn_account h)\<rparr>"
    have h1: "hub_marked G ?h1" using assms hf by (simp add: hub_marked_def)
    show ?thesis
    proof (cases "map_of (hub_accounts h) aid")
      case a: (Some a)
      show ?thesis
      proof (cases "map_of (a_conns a) cid")
        case c: (Some c)
        obtain role a' where l: "leave_account cid c a = (role, a')" by fastforce
        have a': "acct_marked (G aid) a'"
          using leave_account_marked [OF hub_marked_account [OF _ a] l] assms hf by simp
        show ?thesis using hf Some a c l h1 a'
          by (simp add: forget_def Let_def enqueue_all_marked hub_marked_delete [of G ?h1, simplified] hub_marked_put)
      qed (use hf Some a h1 in \<open>simp add: forget_def\<close>)
    qed (use hf Some h1 in \<open>simp add: forget_def\<close>)
  qed (use assms hf in \<open>simp add: forget_def\<close>)
qed

lemma finish_loop_marked: "pe' = pe \<Longrightarrow> hub_marked G (fst hf) \<Longrightarrow> hub_marked G (fst (snd (finish_loop pe' closed hf)))"
proof (induction pe' closed hf rule: finish_loop.induct)
  case (1 pe' closed hf)
  then show ?case
    by (subst finish_loop.simps) (auto simp: Let_def forget_marked split: prod.split)
qed

lemma finish_marked: "hub_marked G (fst hf) \<Longrightarrow> finish pe hf = (h', acts) \<Longrightarrow> hub_marked G h'"
  using finish_loop_marked [of pe hf "[]"] by (auto simp: finish_def Let_def split: prod.splits)

lemma close_conn_marked: "hub_marked G h \<Longrightarrow> close_conn pe cid frm h = (h', acts) \<Longrightarrow> hub_marked G h'"
  using finish_marked forget_marked [of "(h, effects_default)" cid] by (auto simp: close_conn_def split: option.splits)

section \<open>Publishing, addressing, subscribing\<close>

lemma ensure_stream_in_marked:
  assumes "acct_marked P a" "ensure_stream_in n key a = (ok, a')"
  shows "acct_marked P a'"
proof -
  have "stream_marked P \<lparr>s_key = key, s_ring = None, s_subscribers = []\<rparr>" by (simp add: stream_marked_def)
  with assms show ?thesis
    by (auto simp: ensure_stream_in_def acct_marked_def Let_def intro!: streams_marked_update marked_delete split: option.splits if_splits)
qed

lemma ensure_stream_marked: "hub_marked G h \<Longrightarrow> ensure_stream aid key h = (ok, h') \<Longrightarrow> hub_marked G h'"
  using ensure_stream_in_marked [OF hub_marked_account] hub_marked_put
  by (fastforce simp: ensure_stream_def split: option.splits prod.splits)

lemma ring_evict_past_subset: "set (r_entries (snd (ring_evict_past c n x))) \<subseteq> set (r_entries x)"
proof (induction c n x rule: ring_evict_past.induct)
  case (1 c n x)
  obtain m y where y: "ring_evict_oldest x = (m, y)" by fastforce
  then have "set (r_entries y) \<subseteq> set (r_entries x)"
    by (auto simp: ring_evict_oldest_def split: list.splits)
  with 1 y show ?case by (subst ring_evict_past.simps) auto
qed

lemma ring_evict_past_epoch [simp]:
  "r_epoch (snd (ring_evict_past c n x)) = r_epoch x \<and> r_kind (snd (ring_evict_past c n x)) = r_kind x"
proof (induction c n x rule: ring_evict_past.induct)
  case (1 c n x)
  obtain m y where y: "ring_evict_oldest x = (m, y)" by fastforce
  then have "r_epoch y = r_epoch x \<and> r_kind y = r_kind x" by (auto simp: ring_evict_oldest_def split: list.splits)
  with 1 y show ?case by (subst (1 2) ring_evict_past.simps) auto
qed

lemma ring_publish_marked:
  assumes "stream_marked P (s\<lparr>s_ring := Some r\<rparr>)" "ring_publish pe env cap touched r = (pub, r')"
    and "\<And>p n epoch. P p (Some (s_key s, r_kind r = Telemetry, epoch, n)) (encode_frame pe (Frame (Some (BEnvelope (env\<lparr>e_seq := n, e_epoch := epoch\<rparr>)))))"
  shows "stream_marked P (s\<lparr>s_ring := Some r'\<rparr>) \<and> P q (Some (s_key s, r_kind r = Telemetry, r_epoch r, en_seq (pub_entry pub))) (en_wire (pub_entry pub))"
proof -
  have "set (r_entries r') \<subseteq> insert (pub_entry pub) (set (r_entries r))
      \<and> r_epoch r' = r_epoch r \<and> r_kind r' = r_kind r \<and> en_seq (pub_entry pub) = r_seq r + 1
      \<and> en_wire (pub_entry pub) = encode_frame pe (Frame (Some (BEnvelope (env\<lparr>e_seq := r_seq r + 1, e_epoch := r_epoch r\<rparr>))))"
  proof (cases "cap > 0")
    case True
    let ?e = "pub_entry pub"
    from assms(2) True have e: "?e = \<lparr>en_seq = r_seq r + 1, en_wire = encode_frame pe (Frame (Some (BEnvelope (env\<lparr>e_seq := r_seq r + 1, e_epoch := r_epoch r\<rparr>)))),
        en_coalesce = e_coalesce env\<rparr>" by (auto simp: ring_publish_def Let_def split: prod.splits)
    with assms(2) True have "r' = snd (ring_evict_past cap 0 (r\<lparr>r_seq := r_seq r + 1, r_touched := touched,
        r_bytes := r_bytes r + length (en_wire ?e), r_entries := r_entries r @ [?e]\<rparr>))"
      by (auto simp: ring_publish_def Let_def split: prod.splits)
    with ring_evict_past_subset ring_evict_past_epoch e show ?thesis by force
  next
    case False
    with assms(2) show ?thesis by (auto simp: ring_publish_def Let_def)
  qed
  with assms(1,3) show ?thesis by (auto simp: stream_marked_def)
qed

lemma enforce_ring_budget_marked: "acct_marked P a \<Longrightarrow> acct_marked P (enforce_ring_budget budget a)"
proof (induction budget a rule: enforce_ring_budget.induct)
  case (1 budget a)
  have "acct_marked P (evict_at i r a)" if l: "largest_ring (a_streams a) = Some (i, r)" for i r
  proof -
    have i: "i < length (a_streams a)" "s_ring (snd (a_streams a ! i)) = Some r" using largest_ring_SomeD [OF l] by auto
    then have key: "s_key (snd (a_streams a ! i)) = fst (a_streams a ! i)" and "stream_marked P (snd (a_streams a ! i))"
      using 1(2) nth_mem [OF i(1)] by (auto simp: acct_marked_def streams_marked_def)
    then have "stream_marked P ((snd (a_streams a ! i))\<lparr>s_ring := Some (snd (ring_evict_oldest r))\<rparr>)"
      using i(2) by (auto simp: stream_marked_def ring_evict_oldest_def split: list.splits)
    with 1(2) key show ?thesis
      by (auto simp: evict_at_def acct_marked_def streams_marked_def dest!: set_mp [OF set_update_subset_insert] split: prod.split)
  qed
  then show ?case using 1 by (subst enforce_ring_budget.simps) (auto split: option.split)
qed

lemma fan_out_marked:
  "conns_marked P (fst cf) \<Longrightarrow> (\<And>p. P p (Some (key, k = Telemetry, epoch, en_seq e)) (en_wire e)) \<Longrightarrow> conns_marked P (fst (fan_out l key k epoch e subs cf))"
proof (induction l key k epoch e subs cf rule: fan_out.induct)
  case (2 l key k epoch e sub subs conns fx)
  show ?case
  proof (cases "map_of conns sub")
    case (Some c)
    obtain c' fx' where p: "pushed_or_closed sub c (push_published l key k epoch e (c_out c)) fx = (c', fx')" by fastforce
    have c': "c_principal c' = c_principal c \<and> c_out c' = fst (push_published l key k epoch e (c_out c))"
      using p pushed_or_closed_conn by (metis prod.collapse)
    have "conns_marked P (AList.update sub c' conns)"
      using 2(3,4) Some c' conns_marked_lookup by (auto intro!: conns_marked_update push_published_marked)
    with 2 Some p show ?thesis by simp
  qed (use 2 in simp)
qed simp

lemma publish_in_marked:
  assumes "acct_marked P a" "stream_marked P s" "publish_in pe l fresh clock key k env s (a, fx) = (a', fx')"
    and "\<And>p n epoch. P p (Some (key, k = Telemetry, epoch, n)) (encode_frame pe (Frame (Some (BEnvelope (env\<lparr>e_seq := n, e_epoch := epoch\<rparr>)))))"
    and "s_key s = key" and "\<And>r. s_ring s = Some r \<Longrightarrow> r_kind r = k"
  shows "acct_marked P a'"
proof -
  let ?r = "case s_ring s of Some r \<Rightarrow> r | None \<Rightarrow> ring_new k fresh clock"
  have "stream_marked P (s\<lparr>s_ring := Some ?r\<rparr>)"
    using assms(2) by (simp add: stream_marked_def ring_new_def split: option.split)
  moreover have kind: "r_kind ?r = k" using assms(6) by (simp add: ring_new_def split: option.split)
  moreover obtain pub r' where p: "ring_publish pe env (ring_capacity l k) clock ?r = (pub, r')" by fastforce
  ultimately have m: "stream_marked P (s\<lparr>s_ring := Some r'\<rparr>)"
    "\<And>q. P q (Some (s_key s, k = Telemetry, r_epoch ?r, en_seq (pub_entry pub))) (en_wire (pub_entry pub))"
    using ring_publish_marked [OF _ p] assms(4,5) kind by metis+
  show ?thesis using assms(1,3,5) p m
      fan_out_marked [of P "(a_conns a, fx)" "s_key s" k "r_epoch ?r" "pub_entry pub" l "s_subscribers s"]
    by (auto simp: publish_in_def Let_def acct_marked_def intro!: enforce_ring_budget_marked [unfolded acct_marked_def]
        streams_marked_update split: prod.splits)
qed

lemma publish_marked:
  assumes m: "hub_marked G h"
    and e: "\<And>p n epoch. G aid p (Some (key, k = Telemetry, epoch, n)) (encode_frame pe (Frame (Some (BEnvelope (env\<lparr>e_seq := n, e_epoch := epoch\<rparr>)))))"
  shows "hub_marked G (fst (publish pe aid cid key k env (h, fx)))"
proof -
  obtain ok h1 where h1: "ensure_stream aid key h = (ok, h1)" by fastforce
  note m1 = ensure_stream_marked [OF m h1]
  show ?thesis
  proof (cases "map_of (hub_accounts h1) aid")
    case a: (Some a)
    note ma = hub_marked_account [OF m1 a]
    show ?thesis
    proof (cases "map_of (a_streams a) key")
      case s: (Some s)
      have ms: "s_key s = key" "stream_marked (G aid) s" using ma streams_marked_lookup [OF _ s, of "G aid"] by (simp_all add: acct_marked_def)
      have "hub_marked G (put_account aid a' h2)"
        if "publish_in pe l fresh clock key k env s (a, fx) = (a', fx')" "hub_accounts h2 = hub_accounts h1" "\<And>r. s_ring s = Some r \<Longrightarrow> r_kind r = k" for l fresh clock h2 a' fx'
        using publish_in_marked [OF ma ms(2) that(1) _ ms(1) that(3)] e hub_marked_cong [OF that(2)] m1 by (intro hub_marked_put) auto
      then show ?thesis using h1 m1 a s by (auto simp: publish_def Let_def enqueue_marked split: prod.split)
    qed (use h1 m1 a in \<open>simp add: publish_def Let_def\<close>)
  qed (use h1 m1 in \<open>simp add: publish_def Let_def\<close>)
qed

lemma direct_marked:
  assumes m: "hub_marked G h" and inv: "hub_inv W h"
    and e: "G aid target None (encode_frame pe (Frame (Some (BEnvelope (env\<lparr>e_to := Some (ToPrincipal target)\<rparr>)))))"
  shows "hub_marked G (fst (direct pe aid cid target env (h, fx)))"
proof -
  let ?look = "case map_of (hub_accounts h) aid of None \<Rightarrow> None
    | Some a \<Rightarrow> (case map_of (a_online a) target of None \<Rightarrow> None | Some (tc, _) \<Rightarrow> map_option (\<lambda>c. (a, tc, c)) (map_of (a_conns a) tc))"
  show ?thesis
  proof (cases ?look)
    case None
    then show ?thesis using enqueue_marked [OF m] by (simp add: direct_def)
  next
    case (Some x)
    then obtain a tc r c where x: "x = (a, tc, c)" and a: "map_of (hub_accounts h) aid = Some a"
      and on: "map_of (a_online a) target = Some (tc, r)" and c: "map_of (a_conns a) tc = Some c"
      by (auto split: option.splits prod.splits)
    have "acct_core (hub_limits h) {} W a"
      using hub_mid_account(1) [OF inv [unfolded hub_inv_def] a] by (simp add: acct_sound_def effects_default_def)
    then have "\<exists>c. map_of (a_conns a) tc = Some c \<and> c_principal c = target"
      using on unfolding acct_core_def by blast
    with c have t: "c_principal c = target" by simp
    let ?f = "Frame (Some (BEnvelope (env\<lparr>e_to := Some (ToPrincipal target)\<rparr>)))"
    obtain out res where p: "push_frame pe (hub_limits h) ?f (c_out c) = (out, res)" by fastforce
    obtain c' fx' where q: "pushed_or_closed tc c (out, res) fx = (c', fx')" by fastforce
    have "acct_marked (G aid) (put_conn tc c' a)"
      using push_put_marked [OF hub_marked_account [OF m a] c, of pe ?f c "hub_limits h" fx c' fx'] e t p q by simp
    then have "hub_marked G (put_account aid (put_conn tc c' a) h)" by (rule hub_marked_put [OF m])
    then show ?thesis using Some x p q by (simp add: direct_def Let_def enqueue_marked split: push_result.split)
  qed
qed

lemma on_envelope_marked:
  assumes m: "hub_marked G h" and inv: "hub_inv W h"
    and e: "\<And>p q e l. principal_of aid cid h = Some q \<Longrightarrow> takeable (hub_limits h) env \<Longrightarrow> stamped q env e \<Longrightarrow> addressed p e
      \<Longrightarrow> at_place l e \<Longrightarrow> G aid p l (encode_frame pe (Frame (Some (BEnvelope e))))"
  shows "hub_marked G (fst (on_envelope pe aid cid env (h, fx)))"
proof (cases "principal_of aid cid h")
  case (Some q)
  have pub: "hub_marked G (fst (publish pe aid cid \<lparr>sk_publisher = q, sk_channel = ch\<rparr> (kind_of_i32 (e_kind env)) (env\<lparr>e_sender := q, e_seq := 0, e_epoch := 0, e_to := Some (ToChannel ch)\<rparr>) (h, fx)))"
    if "e_to env = Some (ToChannel ch)" "takeable (hub_limits h) env" for ch
    by (rule publish_marked [OF m]) (rule e [OF Some], simp_all add: stamped_def addressed_def at_place_def that)
  have dir: "hub_marked G (fst (direct pe aid cid t (env\<lparr>e_sender := q, e_seq := 0, e_epoch := 0, e_to := None, e_coalesce := []\<rparr>) (h, fx)))"
    if "e_to env = Some (ToPrincipal t)" "takeable (hub_limits h) env" for t
    by (rule direct_marked [OF m inv]) (rule e [OF Some], simp_all add: stamped_def addressed_def at_place_def that)
  have event: "hub_marked G (fst (publish pe aid cid \<lparr>sk_publisher = q, sk_channel = ch\<rparr> (kind_of_i32 (e_kind env)) (env\<lparr>e_sender := q, e_seq := 0, e_epoch := 0, e_coalesce := [], e_to := Some (ToChannel ch)\<rparr>) (h, fx)))"
    if "e_to env = Some (ToChannel ch)" "takeable (hub_limits h) env" for ch
    by (rule publish_marked [OF m]) (rule e [OF Some], simp_all add: stamped_def addressed_def at_place_def that)
  note enq = enqueue_marked [OF m, of aid pe]
  show ?thesis
    using Some m pub event dir
    by (auto simp: on_envelope_def Let_def enq takeable_def split: option.split kind.split address.split)
qed (use m in \<open>simp add: on_envelope_def Let_def\<close>)

lemma push_backfill_marked:
  "queue_marked P (fst qn) \<Longrightarrow> \<forall>e \<in> set es. P (Some (key, k = Telemetry, epoch, en_seq e)) (en_wire e) \<Longrightarrow> queue_marked P (fst (push_backfill l key k epoch es qn))"
proof (induction l key k epoch es qn rule: push_backfill.induct)
  case (2 l key k epoch e es q n)
  then show ?case using push_published_marked [of P q key k epoch e l]
    by (auto split: prod.split push_result.split)
qed simp

lemma subscribe_fill_subset:
  "subscribe_fill since s = (es, k, epoch, seq, tr) \<Longrightarrow> e \<in> set es \<Longrightarrow> \<exists>r. s_ring s = Some r \<and> e \<in> set (r_entries r) \<and> epoch = r_epoch r \<and> k = r_kind r"
  by (cases "s_ring s") (auto simp: subscribe_fill_def ring_backfill_def Let_def)

lemma on_subscribe_marked:
  assumes m: "hub_marked G h"
  shows "hub_marked G (fst (on_subscribe pe aid cid sub (h, fx)))"
proof (cases "sub_stream sub")
  case st: (Some st)
  let ?key = "\<lparr>sk_publisher = sr_publisher st, sk_channel = sr_channel st\<rparr>"
  obtain ok h1 where h1: "ensure_stream aid ?key h = (ok, h1)" by fastforce
  note m1 = ensure_stream_marked [OF m h1]
  have sub: "hub_marked G (put_account aid (put_conn cid (c\<lparr>c_subs := subs, c_out := out\<rparr>) (a\<lparr>a_streams := AList.update ?key (s\<lparr>s_subscribers := xs\<rparr>) (a_streams a)\<rparr>)) h1)"
    if a: "map_of (hub_accounts h1) aid = Some a" and c: "map_of (a_conns a) cid = Some c" and s: "map_of (a_streams a) ?key = Some s"
      and f: "subscribe_fill (sub_since sub) (s\<lparr>s_subscribers := xs\<rparr>) = (entries, k, epoch, seq, truncated)"
      and out: "push_backfill l (s_key s) k epoch entries (purge_stream ?key (c_out c), n) = (out, n2, r)"
    for a c s xs entries k epoch seq truncated l n n2 r out subs
  proof -
    note ma = hub_marked_account [OF m1 a, unfolded acct_marked_def]
    have ms: "s_key s = ?key" "stream_marked (G aid) s" using streams_marked_lookup [OF _ s, of "G aid"] ma by simp_all
    have e: "\<forall>e \<in> set entries. G aid (c_principal c) (Some (s_key s, k = Telemetry, epoch, en_seq e)) (en_wire e)"
      using subscribe_fill_subset [OF f] ms(2) by (fastforce simp: stream_marked_def)
    have "queue_marked (G aid (c_principal c)) out"
      using push_backfill_marked [OF _ e, of "(purge_stream ?key (c_out c), n)" l] purge_stream_marked
        conns_marked_lookup [OF _ c] ma out by simp
    moreover have "stream_marked (G aid) (s\<lparr>s_subscribers := xs\<rparr>)" using ms(2) by (simp add: stream_marked_def)
    ultimately show ?thesis using ma ms(1)
      by (intro hub_marked_put [OF m1] acct_marked_put_conn) (auto simp: acct_marked_def intro: streams_marked_update)
  qed
  show ?thesis
  proof (cases "\<exists>a c s. map_of (hub_accounts h1) aid = Some a \<and> map_of (a_conns a) cid = Some c \<and> map_of (a_streams a) ?key = Some s")
    case True
    then obtain a c s where l: "map_of (hub_accounts h1) aid = Some a" "map_of (a_conns a) cid = Some c" "map_of (a_streams a) ?key = Some s" by blast
    let ?s = "s\<lparr>s_subscribers := List.insert cid (s_subscribers s)\<rparr>"
    obtain es k epoch seq tr where f: "subscribe_fill (sub_since sub) ?s = (es, k, epoch, seq, tr)" by (metis prod_cases5)
    obtain out n r where b: "push_backfill (hub_limits h) (s_key s) k epoch es (purge_stream ?key (c_out c), fx_queued fx) = (out, n, r)"
      by (metis prod_cases3)
    show ?thesis using m m1 st h1 l f b sub [OF l f b]
      by (simp add: on_subscribe_def Let_def enqueue_marked split: push_result.split)
  next
    case False
    with m m1 st h1 show ?thesis by (auto simp: on_subscribe_def Let_def enqueue_marked split: option.split)
  qed
qed (use m in \<open>simp add: on_subscribe_def Let_def enqueue_marked\<close>)

lemma unsubscribe_marked: "hub_marked G h \<Longrightarrow> hub_marked G (Relay.unsubscribe aid cid key h)"
proof (cases "map_of (hub_accounts h) aid")
  case (Some a)
  assume m: "hub_marked G h"
  note ma = hub_marked_account [OF m Some]
  have "acct_marked (G aid) (case map_of (a_conns a) cid of None \<Rightarrow> a
      | Some c \<Rightarrow> put_conn cid (c\<lparr>c_subs := removeAll key (c_subs c), c_out := purge_stream key (c_out c)\<rparr>) a)"
    using ma conns_marked_lookup [of "G aid" "a_conns a" cid]
    by (auto simp: acct_marked_def [of _ a] intro!: acct_marked_put_conn purge_stream_marked split: option.split)
  then show ?thesis using Some
    by (auto simp: unsubscribe_def Let_def acct_marked_def drop_subscriber_marked intro!: hub_marked_put [OF m])
qed (simp add: unsubscribe_def)

section \<open>The calls\<close>

lemma route_marked:
  assumes "hub_marked G h" and "hub_inv W h"
    and "\<And>env p q e l. frame_body f = Some (BEnvelope env) \<Longrightarrow> principal_of aid cid h = Some q \<Longrightarrow> takeable (hub_limits h) env
      \<Longrightarrow> stamped q env e \<Longrightarrow> addressed p e \<Longrightarrow> at_place l e \<Longrightarrow> G aid p l (encode_frame pe (Frame (Some (BEnvelope e))))"
  shows "hub_marked G (fst (route pe aid cid f (h, fx)))"
proof (cases "frame_body f")
  case (Some b)
  with assms show ?thesis
    by (cases b) (auto simp: route_def on_subscribe_marked unsubscribe_marked enqueue_marked intro!: on_envelope_marked split: option.split)
qed (use assms in \<open>simp add: route_def enqueue_marked\<close>)

lemma hub_marked_rate:
  "hub_marked G h \<Longrightarrow> map_of (hub_accounts h) aid = Some a \<Longrightarrow> hub_marked G (put_account aid (a\<lparr>a_rate := b\<rparr>) h)"
  by (frule (1) hub_marked_account) (simp add: hub_marked_put acct_marked_def)

lemma receive_marked:
  assumes "hub_marked G h" and "hub_inv W h" and "receive pe cid f h = (h', acts)"
    and "\<And>aid env p q e l. map_of (hub_conn_account h) cid = Some aid \<Longrightarrow> frame_body f = Some (BEnvelope env) \<Longrightarrow> principal_of aid cid h = Some q
      \<Longrightarrow> takeable (hub_limits h) env \<Longrightarrow> stamped q env e \<Longrightarrow> addressed p e \<Longrightarrow> at_place l e \<Longrightarrow> G aid p l (encode_frame pe (Frame (Some (BEnvelope e))))"
  shows "hub_marked G h'"
proof (cases "map_of (hub_conn_account h) cid")
  case (Some aid)
  obtain h1 fx where r: "route pe aid cid f (h, effects_default) = (h1, fx)" by fastforce
  have "hub_marked G (fst (route pe aid cid f (h, effects_default)))"
    by (rule route_marked [OF assms(1,2)]) (rule assms(4) [OF Some])
  with r have "hub_marked G h1" by simp
  then have "hub_marked G (fst (spend_queued aid (h1, fx)))"
    by (auto simp: spend_queued_def hub_marked_rate split: option.split)
  from finish_marked [OF this] assms(3) Some r show ?thesis by (simp add: receive_def)
qed (use assms in \<open>simp add: receive_def\<close>)

lemma deliver_marked:
  assumes "hub_marked G h" and "deliver pe cid f h = (h', acts)" and "\<And>aid p. G aid p None (encode_frame pe f)"
  shows "hub_marked G h'"
  using assms finish_marked [OF enqueue_marked [OF assms(1) assms(3)]]
  by (auto simp: deliver_def split: option.splits)

lemma throttle_notice_marked:
  assumes "acct_marked (G aid) a" and "throttle_notice pe l cid wait now (a, fx) = (a', fx')"
  shows "acct_marked (G aid) a'"
proof (cases "map_of (a_conns a) cid")
  case (Some c)
  let ?c = "c\<lparr>c_throttle_notice_ms := Some now\<rparr>"
  obtain c' fx2 where p: "pushed_or_closed cid ?c (push_frame pe l (error Throttled 0 ''account over its work rate; reading slowed'') (c_out c)) fx = (c', fx2)"
    by fastforce
  from push_put_marked [OF assms(1) Some _ p] assms Some p show ?thesis
    by (auto simp: throttle_notice_def Let_def split: if_splits)
qed (use assms in \<open>auto simp: throttle_notice_def split: if_splits\<close>)

lemma charge_marked:
  assumes m: "hub_marked G h" and c: "charge pe cid n now h = (h', wait, acts)"
  shows "hub_marked G h'"
proof (cases "\<exists>aid a. map_of (hub_conn_account h) cid = Some aid \<and> map_of (hub_accounts h) aid = Some a")
  case True
  then obtain aid a where l: "map_of (hub_conn_account h) cid = Some aid" "map_of (hub_accounts h) aid = Some a" by blast
  have r: "acct_marked (G aid) (a\<lparr>a_rate := b\<rparr>)" for b
    using hub_marked_account [OF m l(2)] by (simp add: acct_marked_def)
  from c l throttle_notice_marked [OF r] finish_marked hub_marked_put [OF m] show ?thesis
    by (fastforce simp: charge_def Let_def split: prod.splits)
qed (use m c in \<open>auto simp: charge_def Let_def split: option.splits\<close>)

lemma greeted_marked: "queue_marked (G aid (h_principal hello)) (c_out (greeted pe l hello now rvk a))"
proof -
  have "queue_marked P (fold (\<lambda>f q. fst (push_frame pe l f q)) fs q)" if "\<forall>f \<in> set fs. P None (encode_frame pe f)" "queue_marked P q" for P fs q
    using that by (induction fs arbitrary: q) (simp_all add: push_frame_marked)
  moreover have "queue_marked P outbound_default" for P by (simp add: queue_marked_def outbound_default_def)
  ultimately have "queue_marked (G aid (h_principal hello))
      (fold (\<lambda>f q. fst (push_frame pe l f q)) (welcome_of l now rvk # map (presence_of a) (a_online a)) outbound_default)"
    by (metis (mono_tags, lifting) image_iff list.set_map own_frames(5,6) set_ConsD)
  then show ?thesis by (simp add: greeted_def)
qed

lemma joined_marked:
  assumes "hub_marked G h"
  shows "hub_marked G (fst (joined pe aid hello now mno rvk h))"
proof -
  let ?a0 = "case map_of (hub_accounts h) aid of Some a \<Rightarrow> a | None \<Rightarrow> account_new"
  have a0: "acct_marked (G aid) ?a0"
    using hub_marked_account [OF assms] by (simp add: acct_marked_def account_new_def conns_marked_def streams_marked_def split: option.split)
  have "acct_marked (G aid) (?a0\<lparr>a_rate := b, a_conns := AList.update cid c (a_conns ?a0), a_online := on\<rparr>)"
    if "queue_marked (G aid (c_principal c)) (c_out c)" for b cid c on
    using a0 that by (simp add: acct_marked_def conns_marked_update)
  moreover have "queue_marked (G aid (c_principal c)) (c_out c)"
    if "conn_arm cid (greeted pe l hello now rvk a, fx) = (c, fx')" for cid l a fx c fx'
    using that greeted_marked [of aid hello l now rvk a] by (auto simp: conn_arm_def Let_def greeted_def split: if_splits)
  ultimately show ?thesis using hub_marked_put [OF assms]
    by (simp add: joined_def Let_def hub_marked_ids split: prod.split)
qed

lemma connect_marked:
  assumes m: "hub_marked G h" and c: "connect pe aid hello now mno rvk h = (h', res)"
  shows "hub_marked G h'"
proof -
  obtain h1 wait where d: "connect_debt aid mno h = (h1, wait)" by fastforce
  have m1: "hub_marked G h1"
    using d m by (auto simp: connect_debt_def Let_def hub_marked_rate split: option.splits)
  have "hub_marked G h2" if a: "admit pe aid hello now mno rvk h1 = (h2, cid, acts)" for h2 cid acts
  proof -
    have "finish pe (enqueue_all pe aid (Frame (Some (BPresence \<lparr>pr_principal = h_principal hello, pr_role = i32_of_role (role_of_i32 (h_role hello)),
        pr_online = True, pr_chain = presentable (h_chain hello)\<rparr>))) (keys (a_conns (case map_of (hub_accounts h1) aid of Some a \<Rightarrow> a | None \<Rightarrow> account_new)))
        (joined pe aid hello now mno rvk h1)) = (h2, acts)"
      using a by (auto simp: admit_def joined_def Let_def split: prod.splits)
    from finish_marked [OF _ this] show ?thesis by (simp add: enqueue_all_marked joined_marked m1)
  qed
  with c d m m1 show ?thesis by (auto simp: connect_def split: option.splits prod.splits if_splits)
qed

lemma take_outbound_marked:
  assumes m: "hub_marked G h" and t: "take_outbound pe cid b h = (h', t)"
  shows "hub_marked G h' \<and> (\<forall>aid p w. map_of (hub_conn_account h) cid = Some aid \<longrightarrow> principal_of aid cid h = Some p
    \<longrightarrow> w \<in> set (tk_frames t) \<longrightarrow> (\<exists>l. G aid p l w))"
proof (cases "\<exists>aid a c. map_of (hub_conn_account h) cid = Some aid \<and> map_of (hub_accounts h) aid = Some a \<and> map_of (a_conns a) cid = Some c")
  case True
  then obtain aid a c where l: "map_of (hub_conn_account h) cid = Some aid" "map_of (hub_accounts h) aid = Some a" "map_of (a_conns a) cid = Some c"
    by blast
  note ma = hub_marked_account [OF m l(2)]
  have q: "queue_marked (G aid (c_principal c)) (c_out c)" using ma conns_marked_lookup [OF _ l(3)] by (simp add: acct_marked_def)
  obtain ws out where o: "outbound_take pe b (c_out c) = (ws, out)" by fastforce
  have out: "queue_marked (G aid (c_principal c)) out"
    using queue_marked_subset [OF q] outbound_take_subset [of pe b "c_out c"] o by simp
  have "\<exists>l. G aid (c_principal c) l w" if "w \<in> set ws" for w
  proof -
    obtain n where n: "ws = handed_over pe (fst (pops n (c_out c)))"
      using outbound_take_pops [of pe b "c_out c"] o by (metis fst_conv)
    with that obtain gaps it where gi: "(gaps, it) \<in> set (fst (pops n (c_out c)))" "w \<in> encode_frame pe ` set gaps \<or> w = it_wire it"
      by (fastforce simp: handed_over_def)
    from gi(1) have "it \<in> set (map snd (fst (pops n (c_out c))))" by force
    then have "it \<in> set (o_items (c_out c))" using pops_items [of n "c_out c"] in_set_takeD by metis
    moreover have "G aid p None (encode_frame pe g)" if "g \<in> set gaps" for g p
      using own [of g] pops_gaps [OF gi(1) that] by auto
    ultimately show ?thesis using gi(2) q by (auto simp: queue_marked_def)
  qed
  moreover have "hub_marked G (put_account aid (put_conn cid (c\<lparr>c_out := out, c_armed := k\<rparr>) a) h)" for k
    by (intro hub_marked_put [OF m] acct_marked_put_conn [OF ma]) (simp add: out)
  ultimately show ?thesis using t l o by (auto simp: take_outbound_def Let_def principal_of_def)
qed (use m t in \<open>auto simp: take_outbound_def principal_of_def split: option.splits\<close>)

end

section \<open>Runs with a history\<close>

text \<open>What was sent: the account, the principal the connection was admitted as, and the envelope it handed in. A run is one of \<open>Relay_Run\<close>, with its
  conditions: a newcomer's greeting fits its queue, and the limits let an account have a connection.\<close>

type_synonym said = "(account_id \<times> bytes \<times> envelope) set"

definition said_by :: "conn_id \<Rightarrow> frame \<Rightarrow> hub \<Rightarrow> said" where
  "said_by cid f h = {(aid, p, env). map_of (hub_conn_account h) cid = Some aid \<and> principal_of aid cid h = Some p \<and> frame_body f = Some (BEnvelope env)
     \<and> takeable (hub_limits h) env}"

inductive said_step :: "(frame \<Rightarrow> bytes) \<Rightarrow> run_state \<times> said \<Rightarrow> run_state \<times> said \<Rightarrow> bool" for pe where
  connected: "greeting_fits pe aid now rvk h \<Longrightarrow> connect pe aid hello now mno rvk h = (h', Inr (cid, acts)) \<Longrightarrow>
    said_step pe ((h, W), S) ((h', after_actions acts W), S)"
| refused: "connect pe aid hello now mno rvk h = (h', Inl e) \<Longrightarrow> said_step pe ((h, W), S) ((h', W), S)"
| received: "receive pe cid f h = (h', acts) \<Longrightarrow> said_step pe ((h, W), S) ((h', after_actions acts W), S \<union> said_by cid f h)"
| delivered: "(\<And>e. frame_body f \<noteq> Some (BEnvelope e)) \<Longrightarrow> deliver pe cid f h = (h', acts) \<Longrightarrow>
    said_step pe ((h, W), S) ((h', after_actions acts W), S)"
| closed: "close_conn pe cid frm h = (h', acts) \<Longrightarrow> said_step pe ((h, W), S) ((h', after_actions acts W), S)"
| charged: "charge pe cid n now h = (h', wait, acts) \<Longrightarrow> said_step pe ((h, W), S) ((h', after_actions acts W), S)"
| taken: "take_outbound pe cid b h = (h', t) \<Longrightarrow> said_step pe ((h, W), S) ((h', if tk_more t then W else W - {cid}), S)"
| reordered: "map_of (hub_accounts h) aid = Some a \<Longrightarrow> account_reordered a a' \<Longrightarrow> said_step pe ((h, W), S) ((put_account aid a' h, W), S)"

definition said_start :: "run_state \<times> said \<Rightarrow> bool" where
  "said_start x \<longleftrightarrow> hub_start (fst x) \<and> snd x = {}"

definition said_mark :: "(frame \<Rightarrow> bytes) \<Rightarrow> said \<Rightarrow> account_id \<Rightarrow> bytes \<Rightarrow> place \<Rightarrow> bytes \<Rightarrow> bool" where
  "said_mark pe S aid p l w \<longleftrightarrow> (\<exists>f. w = encode_frame pe f
     \<and> (\<forall>e. frame_body f = Some (BEnvelope e) \<longrightarrow> addressed p e \<and> (\<exists>q env. (aid, q, env) \<in> S \<and> stamped q env e)))"

interpretation said: mark pe "said_mark pe S" for pe S
  by unfold_locales (auto simp: said_mark_def)

lemma said_step_hub: "said_step pe x y \<Longrightarrow> hub_step pe (fst x) (fst y)"
proof (induction rule: said_step.induct)
  case (taken cid b h h' t W S)
  from hub_step.taken [OF taken, of W] show ?case by (simp only: fst_conv)
qed (auto intro: hub_step.intros)

lemma said_mark_mono: "S \<subseteq> T \<Longrightarrow> said_mark pe S aid p l w \<Longrightarrow> said_mark pe T aid p l w"
  by (fastforce simp: said_mark_def)

lemma account_reordered_marked: "account_reordered a a' \<Longrightarrow> acct_marked P a \<Longrightarrow> acct_marked P a'"
  unfolding account_reordered_def acct_marked_def conns_marked_def streams_marked_def by (metis mset_eq_setD)

definition said_inv :: "(frame \<Rightarrow> bytes) \<Rightarrow> run_state \<times> said \<Rightarrow> bool" where
  "said_inv pe x \<longleftrightarrow> run_inv (fst x) \<and> hub_marked (said_mark pe (snd x)) (fst (fst x))"

lemma said_step_inv:
  assumes "said_step pe x y" and "said_inv pe x"
  shows "said_inv pe y"
proof -
  have run: "run_inv (fst y)" using assms hub_step_inv [OF said_step_hub] by (auto simp: said_inv_def)
  have "hub_marked (said_mark pe (snd y)) (fst (fst y))" using assms
  proof (induction rule: said_step.induct)
    case (received cid f h h' acts W S)
    let ?T = "S \<union> said_by cid f h"
    have m: "hub_marked (said_mark pe ?T) h"
      using received(2) by (auto simp: said_inv_def elim!: hub_marked_mono intro: said_mark_mono [of S])
    have inv: "hub_inv W h" using received(2) by (simp add: said_inv_def run_inv_def)
    have "hub_marked (said_mark pe ?T) h'"
    proof (rule said.receive_marked [OF m inv received(1)])
      fix aid env p q e l
      assume "map_of (hub_conn_account h) cid = Some aid" "frame_body f = Some (BEnvelope env)" "principal_of aid cid h = Some q"
        "takeable (hub_limits h) env" "stamped q env e" "addressed p e"
      then have "(aid, q, env) \<in> ?T" "stamped q env e" "addressed p e" by (simp_all add: said_by_def)
      then show "said_mark pe ?T aid p l (encode_frame pe (Frame (Some (BEnvelope e))))"
        unfolding said_mark_def by (intro exI [of _ "Frame (Some (BEnvelope e))"]) auto
    qed
    then show ?case by simp
  next
    case (reordered h aid a a' W S)
    then have m: "hub_marked (said_mark pe S) h" by (simp add: said_inv_def)
    from hub_marked_put [OF m account_reordered_marked [OF reordered(2) hub_marked_account [OF m reordered(1)]]] show ?case by simp
  qed (auto simp: said_inv_def dest: said.connect_marked said.deliver_marked [OF _ _ said.own] said.close_conn_marked said.charge_marked said.take_outbound_marked)
  with run show ?thesis by (simp add: said_inv_def)
qed

lemma said_start_inv: "said_start x \<Longrightarrow> said_inv pe x"
proof -
  assume x: "said_start x"
  then have "hub_accounts (fst (fst x)) = []" 
  proof -
    obtain l seed shard where "with_id_space l seed shard = Inr (fst (fst x))" using x by (auto simp: said_start_def hub_start_def)
    then show ?thesis unfolding with_id_space_def by (metis Inl_Inr_False Inr_inject hub.select_convs(2))
  qed
  with x show ?thesis by (simp add: said_start_def said_inv_def hub_start_inv hub_marked_def)
qed

interpretation said_runs: invariant_machine said_start "said_step pe" "said_inv pe"
  by unfold_locales (auto intro: said_start_inv said_step_inv)

lemma one_frame_decodes:
  assumes "length (encode_frame pe f) < 2 ^ 64" and "pd (pe f) = Inr f"
  shows "decode_frames pd (encode_frame pe f) (2 ^ 64 - 1) = Inr [f]"
proof -
  have "split_frames (2 ^ 64 - 1) (encode_frame pe f) = ([pe f], None, [])"
    using split_frames_delimit [of "[pe f]" "2 ^ 64 - 1"] assms(1) by (simp add: encode_frame_delimit delimit_def)
  with assms(2) show ?thesis by (simp add: decode_frames_split)
qed

section \<open>Properties\<close>

text \<open>C4. A delivered envelope is what somebody sent. Every message the relay hands to a connection is exactly one frame; and when that frame is
  an envelope, its sender is a principal that was connected on the receiver's own account and handed in an envelope with the same
  address, kind, payload and reference, whatever it wrote in the sender's field; and it is addressed to this receiver or to a channel.\<close>

theorem deliveries_are_authentic:
  assumes "reach said_start (said_step pe) ((h, W), S)" and "map_of (hub_conn_account h) cid = Some aid" and "principal_of aid cid h = Some me"
    and "take_outbound pe cid budget h = (h', t)" and "w \<in> set (tk_frames t)"
    and "length w < 2 ^ 64" and "\<And>f. encode_frame pe f = w \<Longrightarrow> pd (pe f) = Inr f"
  shows "\<exists>f. decode_frames pd w (2 ^ 64 - 1) = Inr [f]
    \<and> (\<forall>e. frame_body f = Some (BEnvelope e) \<longrightarrow> addressed me e \<and> (\<exists>env. (aid, e_sender e, env) \<in> S \<and> stamped (e_sender e) env e))"
proof -
  have "hub_marked (said_mark pe S) h" using said_runs.reach_inv [OF assms(1)] by (simp add: said_inv_def)
  from said.take_outbound_marked [OF this assms(4)] assms(2,3,5) obtain l where "said_mark pe S aid me l w" by blast
  then obtain f where f: "w = encode_frame pe f"
    "\<forall>e. frame_body f = Some (BEnvelope e) \<longrightarrow> addressed me e \<and> (\<exists>q env. (aid, q, env) \<in> S \<and> stamped q env e)"
    by (auto simp: said_mark_def)
  have "decode_frames pd w (2 ^ 64 - 1) = Inr [f]"
    unfolding f(1) using assms(6) [unfolded f(1)] assms(7) [OF f(1) [symmetric]] by (rule one_frame_decodes)
  moreover have "\<exists>env. (aid, e_sender e, env) \<in> S \<and> stamped (e_sender e) env e" if "frame_body f = Some (BEnvelope e)" for e
    using f(2) [rule_format, OF that] by (auto simp: stamped_def)
  ultimately show ?thesis using f(2) by (intro exI [of _ f]) simp
qed

text \<open>A device that claims to be another and writes to itself: the hub hands it its own envelope, stamped with its own name.\<close>

definition forged :: envelope where
  "forged = \<lparr>e_to = Some (ToPrincipal [1]), e_kind = i32_of_kind Command, e_sender = [7], e_seq = 0, e_epoch = 0, e_coalesce = [], e_ref = 3, e_payload = [8]\<rparr>"

definition unforged :: frame where "unforged = Frame (Some (BEnvelope (forged\<lparr>e_sender := [1]\<rparr>)))"

definition echo_enc :: "frame \<Rightarrow> bytes" where "echo_enc f = (if f = unforged then [1] else [2])"
definition echo_dec :: "bytes \<Rightarrow> unit + frame" where "echo_dec bs = (if bs = [1] then Inr unforged else Inl ())"

definition echo_joined :: hub where "echo_joined = fst (connect echo_enc [9] first_hello 0 0 RevokerUnknown first_hub)"
definition echo_sent :: hub where "echo_sent = fst (receive echo_enc 1 (Frame (Some (BEnvelope forged))) echo_joined)"

lemma echo_frames:
  "encode_frame echo_enc f = (if f = unforged then [1, 1] else [1, 2])"
  "welcome_of l now rvk \<noteq> unforged"
  by (simp_all add: encode_frame_def echo_enc_def write_varint.simps [of 1] word_le_nat_alt unforged_def welcome_of_def Let_def split: prod.split)

lemmas echo_defs = echo_joined_def echo_sent_def first_defs echo_frames push_frame_def outbound_push_def frame_item_def outbound_default_def

lemma echo_connects: "connect echo_enc [9] first_hello 0 0 RevokerUnknown first_hub = (echo_joined, Inr (1, [Wake 1]))"
  by (simp add: echo_defs)

lemma echo_fits: "greeting_fits echo_enc [9] 0 RevokerUnknown first_hub"
  by (simp add: greeting_fits_def greeting_def echo_defs)

lemmas echo_send_defs = receive_def route_def on_envelope_def forged_def principal_of_def i32_of_kind_def kind_of_i32_def direct_def
  pushed_or_closed_def put_conn_def spend_queued_def unforged_def

lemma echo_receives: "receive echo_enc 1 (Frame (Some (BEnvelope forged))) echo_joined = (echo_sent, [])"
  by (simp add: echo_defs echo_send_defs)

lemma echo_said: "said_by 1 (Frame (Some (BEnvelope forged))) echo_joined = {([9], [1], forged)}"
  by (auto simp: said_by_def principal_of_def takeable_def forged_def echo_defs)

lemma echo_reachable: "reach said_start (said_step echo_enc) ((echo_sent, {1}), {([9], [1], forged)})"
proof -
  note go = reach_step [where start = said_start and step = "said_step echo_enc"]
  have "said_start ((first_hub, {}), {})" using first_hub_start by (simp add: said_start_def)
  from go [OF reach_start [where start = said_start, OF this] said_step.connected [OF echo_fits echo_connects]]
  have "reach said_start (said_step echo_enc) ((echo_joined, {1}), {})" by (simp add: after_actions_def)
  from go [OF this said_step.received [OF echo_receives]] show ?thesis by (simp add: echo_said [simplified] after_actions_def)
qed

lemma echo_taken:
  "map_of (hub_conn_account echo_sent) 1 = Some [9]" "principal_of [9] 1 echo_sent = Some [1]"
  "[1, 1] \<in> set (tk_frames (snd (take_outbound echo_enc 1 100 echo_sent)))"
  by (simp_all add: take_outbound_def outbound_take_def take_loop_simps pop_front_def principal_of_def echo_defs echo_send_defs)

theorem deliveries_are_authentic_witness:
  "decode_frames echo_dec [1, 1] (2 ^ 64 - 1) = Inr [unforged] \<and> (\<exists>env. ([9], [1], env) \<in> {([9], [1], forged)} \<and> stamped [1] env (forged\<lparr>e_sender := [1]\<rparr>))"
proof -
  obtain h t where t: "take_outbound echo_enc 1 100 echo_sent = (h, t)" by fastforce
  have codec: "encode_frame echo_enc f = [1, 1] \<Longrightarrow> echo_dec (echo_enc f) = Inr f" for f
    by (simp add: echo_frames echo_enc_def echo_dec_def split: if_splits)
  have "[1, 1] \<in> set (tk_frames t)" using echo_taken(3) t by simp
  from deliveries_are_authentic [where pd = echo_dec, OF echo_reachable echo_taken(1,2) t this _ codec]
  obtain f where f: "decode_frames echo_dec [1, 1] (2 ^ 64 - 1) = Inr [f]"
    "\<forall>e. frame_body f = Some (BEnvelope e) \<longrightarrow> (\<exists>env. ([9], e_sender e, env) \<in> {([9], [1], forged)} \<and> stamped (e_sender e) env e)" by auto
  have "encode_frame echo_enc unforged = [1, 1]" by (simp add: echo_frames)
  with one_frame_decodes [of echo_enc unforged echo_dec] codec [of unforged] f(1) have "f = unforged" by simp
  with f show ?thesis by (simp add: unforged_def)
qed

end
