(* ===== verification/Relay_Order.thy ===== *)
theory Relay_Order
  imports Relay_Authentic
begin

text \<open>
  The order of what a subscriber receives. Every call of the relay moves a subscription forward: the stream keeps its epoch and its kind, what is
  queued of it was queued before or is newer than anything published before, and of session events exactly the ones published
  during the call are queued, unless the connection is closed. Together with a record of what each connection was handed since it subscribed, this gives
  that the messages of a stream arrive in increasing order within one epoch, and session events without a gap.
\<close>

section \<open>Moving forward\<close>

definition of_stream :: "stream_key \<Rightarrow> item list \<Rightarrow> item list" where
  "of_stream key its = filter (\<lambda>it. it_stream it = Some key) its"

lemma of_stream_append: "of_stream key (xs @ ys) = of_stream key xs @ of_stream key ys"
  by (simp add: of_stream_def)

text \<open>The positions of what may not be dropped.\<close>

definition firm_seqs :: "item list \<Rightarrow> nat list" where
  "firm_seqs its = map it_seq (filter (\<lambda>it. \<not> it_telemetry it) its)"

lemma firm_of_stream: "firm_seqs (of_stream key its) = map it_seq (of_stream key (filter (\<lambda>it. \<not> it_telemetry it) its))"
  by (simp add: firm_seqs_def of_stream_def conj_commute)

definition ring_in :: "(stream_key \<times> stream) list \<Rightarrow> stream_key \<Rightarrow> ring option" where
  "ring_in ss key = (case map_of ss key of None \<Rightarrow> None | Some s \<Rightarrow> s_ring s)"

definition ring_pos :: "ring option \<Rightarrow> nat" where
  "ring_pos r = (case r of None \<Rightarrow> 0 | Some x \<Rightarrow> r_seq x)"

definition of_sessions :: "ring option \<Rightarrow> bool" where
  "of_sessions r \<longleftrightarrow> (case r of None \<Rightarrow> False | Some x \<Rightarrow> r_kind x = SessionEvents)"

definition advances :: "ring option \<Rightarrow> item list \<Rightarrow> ring option \<Rightarrow> item list \<Rightarrow> bool" where
  "advances r its r' its' \<longleftrightarrow>
     (\<forall>x. r = Some x \<longrightarrow> (\<exists>y. r' = Some y \<and> r_epoch y = r_epoch x \<and> r_kind y = r_kind x)) \<and> ring_pos r \<le> ring_pos r'
     \<and> (\<forall>it \<in> set its'. it \<in> set its \<or> ring_pos r < it_seq it)
     \<and> firm_seqs its' = firm_seqs its @ (if of_sessions r' then [Suc (ring_pos r) ..< Suc (ring_pos r')] else [])"

lemma advances_refl [simp]: "advances r its r its"
  by (auto simp: advances_def)

lemma of_sessions_kind: "advances r its r' its' \<Longrightarrow> r \<noteq> None \<Longrightarrow> of_sessions r' = of_sessions r"
  by (auto simp: advances_def of_sessions_def)

lemma advances_firm:
  "advances r its r' its' \<Longrightarrow> firm_seqs its' = firm_seqs its @ (if of_sessions r' then [Suc (ring_pos r) ..< Suc (ring_pos r')] else [])"
  by (simp only: advances_def)

lemma upt_join: "i \<le> j \<Longrightarrow> j \<le> k \<Longrightarrow> [i ..< j] @ [j ..< k] = [i ..< k]"
  using upt_add_eq_append [of i j "k - j"] by simp

lemma advances_trans:
  assumes "advances r its r1 its1" and "advances r1 its1 r2 its2"
  shows "advances r its r2 its2"
proof -
  have le: "ring_pos r \<le> ring_pos r1" "ring_pos r1 \<le> ring_pos r2" using assms by (simp_all add: advances_def)
  have "firm_seqs its2 = firm_seqs its @ (if of_sessions r2 then [Suc (ring_pos r) ..< Suc (ring_pos r2)] else [])"
  proof (cases "of_sessions r2")
    case True
    have f2: "firm_seqs its2 = firm_seqs its1 @ [Suc (ring_pos r1) ..< Suc (ring_pos r2)]" using advances_firm [OF assms(2)] by (simp only: if_P [OF True])
    show ?thesis
    proof (cases "of_sessions r1")
      case s1: True
      have "firm_seqs its1 = firm_seqs its @ [Suc (ring_pos r) ..< Suc (ring_pos r1)]" using advances_firm [OF assms(1)] by (simp only: if_P [OF s1])
      moreover have "[Suc (ring_pos r) ..< Suc (ring_pos r1)] @ [Suc (ring_pos r1) ..< Suc (ring_pos r2)] = [Suc (ring_pos r) ..< Suc (ring_pos r2)]"
        by (rule upt_join) (use le in simp_all)
      ultimately show ?thesis using True f2 by (simp only: append_assoc if_True)
    next
      case s1: False
      then have "firm_seqs its1 = firm_seqs its" using advances_firm [OF assms(1)] by simp
      moreover have "ring_pos r1 = 0" using of_sessions_kind [OF assms(2)] True s1 by (cases r1) (simp_all add: ring_pos_def)
      ultimately show ?thesis using True f2 le by simp
    qed
  next
    case False
    moreover have "\<not> of_sessions r1" using of_sessions_kind [OF assms(2)] False by (cases r1) (auto simp: of_sessions_def)
    ultimately show ?thesis using assms by (simp add: advances_def)
  qed
  moreover have "\<forall>it \<in> set its2. it \<in> set its \<or> ring_pos r < it_seq it" using assms le by (force simp: advances_def)
  ultimately show ?thesis using assms le unfolding advances_def by fastforce
qed

text \<open>Rings that differ only in what they retain are at the same place.\<close>

definition same_place :: "ring option \<Rightarrow> ring option \<Rightarrow> bool" where
  "same_place r r' \<longleftrightarrow> (r = None \<longleftrightarrow> r' = None)
     \<and> (\<forall>x y. r = Some x \<longrightarrow> r' = Some y \<longrightarrow> r_epoch y = r_epoch x \<and> r_kind y = r_kind x \<and> r_seq y = r_seq x)"

lemma same_place_refl [simp]: "same_place r r"
  by (simp add: same_place_def)

lemma same_place_trans: "same_place a b \<Longrightarrow> same_place b c \<Longrightarrow> same_place a c"
  by (cases a; cases b; cases c) (simp_all add: same_place_def)

lemma same_place_advances: "same_place r r' \<Longrightarrow> set its' \<subseteq> set its \<Longrightarrow> firm_seqs its' = firm_seqs its \<Longrightarrow> advances r its r' its'"
  by (cases r; cases r') (auto simp: same_place_def advances_def ring_pos_def)

text \<open>The accounts, except for the subscriptions \<open>K\<close> that are just made and the connections \<open>X\<close> that are to close.\<close>

type_synonym subscription = "conn_id \<times> stream_key"

definition acct_advances :: "subscription set \<Rightarrow> conn_id set \<Rightarrow> account \<Rightarrow> account \<Rightarrow> bool" where
  "acct_advances K X a a' \<longleftrightarrow>
     (\<forall>cid c' key. map_of (a_conns a') cid = Some c' \<longrightarrow> key \<in> set (c_subs c') \<longrightarrow> cid \<notin> X \<longrightarrow> (cid, key) \<notin> K \<longrightarrow>
        (\<exists>c. map_of (a_conns a) cid = Some c \<and> key \<in> set (c_subs c)
           \<and> advances (ring_in (a_streams a) key) (of_stream key (o_items (c_out c)))
               (ring_in (a_streams a') key) (of_stream key (o_items (c_out c')))))"

definition acct_at :: "hub \<Rightarrow> account_id \<Rightarrow> account" where
  "acct_at h aid = (case map_of (hub_accounts h) aid of Some a \<Rightarrow> a | None \<Rightarrow> account_new)"

definition hub_advances :: "subscription set \<Rightarrow> conn_id set \<Rightarrow> hub \<Rightarrow> hub \<Rightarrow> bool" where
  "hub_advances K X h h' \<longleftrightarrow> (\<forall>aid. acct_advances K X (acct_at h aid) (acct_at h' aid))"

lemma acct_advancesI:
  assumes "\<And>cid c' key. map_of (a_conns a') cid = Some c' \<Longrightarrow> key \<in> set (c_subs c') \<Longrightarrow> cid \<notin> X \<Longrightarrow> (cid, key) \<notin> K \<Longrightarrow>
    \<exists>c. map_of (a_conns a) cid = Some c \<and> key \<in> set (c_subs c)
      \<and> advances (ring_in (a_streams a) key) (of_stream key (o_items (c_out c))) (ring_in (a_streams a') key) (of_stream key (o_items (c_out c')))"
  shows "acct_advances K X a a'"
  using assms by (simp add: acct_advances_def)

lemma acct_advances_refl [simp]: "acct_advances K X a a"
  by (simp add: acct_advances_def)

lemma acct_advances_trans: "acct_advances K X a b \<Longrightarrow> acct_advances K X b c \<Longrightarrow> acct_advances K X a c"
  unfolding acct_advances_def by (meson advances_trans)

lemma acct_advances_mono: "acct_advances K X a b \<Longrightarrow> K \<subseteq> K' \<Longrightarrow> X \<subseteq> X' \<Longrightarrow> acct_advances K' X' a b"
  unfolding acct_advances_def by blast

lemma hub_advances_refl [simp]: "hub_advances K X h h"
  by (simp add: hub_advances_def)

lemma hub_advances_trans: "hub_advances K X h h1 \<Longrightarrow> hub_advances K X h1 h2 \<Longrightarrow> hub_advances K X h h2"
  unfolding hub_advances_def by (meson acct_advances_trans)

lemma hub_advances_mono: "hub_advances K X h h' \<Longrightarrow> K \<subseteq> K' \<Longrightarrow> X \<subseteq> X' \<Longrightarrow> hub_advances K' X' h h'"
  unfolding hub_advances_def by (meson acct_advances_mono)

lemma acct_at_put [simp]: "acct_at (put_account aid a h) bid = (if bid = aid then a else acct_at h bid)"
  by (simp add: acct_at_def put_account_def update_conv')

lemma acct_at_cong: "hub_accounts h' = hub_accounts h \<Longrightarrow> acct_at h' = acct_at h"
  by (simp add: acct_at_def fun_eq_iff)

lemma acct_at_some: "map_of (hub_accounts h) aid = Some a \<Longrightarrow> acct_at h aid = a"
  by (simp add: acct_at_def)

lemma hub_advances_same: "hub_accounts h' = hub_accounts h \<Longrightarrow> hub_advances K X h h'"
  by (simp add: hub_advances_def acct_at_cong [of h' h])

lemma hub_advances_put: "acct_advances K X (acct_at h aid) a \<Longrightarrow> hub_advances K X h (put_account aid a h)"
  by (simp add: hub_advances_def)

section \<open>Frames of the hub\<close>

lemma of_stream_push_frame: "push_frame pe l f q = (q', r) \<Longrightarrow> of_stream key (o_items q') = of_stream key (o_items q)"
  by (auto simp: push_frame_def outbound_push_def of_stream_def frame_item_def Let_def split: if_splits)

text \<open>A connection whose queue holds the same of every stream it is subscribed to.\<close>

lemma acct_advances_put_conn:
  assumes "map_of (a_conns a) cid = Some c" and "\<And>key. key \<in> set (c_subs c') \<Longrightarrow> key \<in> set (c_subs c) \<and> of_stream key (o_items (c_out c')) = of_stream key (o_items (c_out c))"
  shows "acct_advances K X a (put_conn cid c' a)"
  using assms by (auto simp: acct_advances_def put_conn_def update_conv')

lemma pushed_or_closed_kept: "pushed_or_closed cid c (out, r) fx = (c', fx') \<Longrightarrow> c_subs c' = c_subs c \<and> c_out c' = out"
  by (auto simp: pushed_or_closed_def conn_arm_def Let_def split: push_result.splits if_splits)

lemma push_frame_advances:
  assumes "map_of (a_conns a) cid = Some c" and "pushed_or_closed cid c1 (push_frame pe l f (c_out c)) fx = (c', fx')" and "c_subs c1 = c_subs c"
  shows "acct_advances K X a (put_conn cid c' a)"
proof (rule acct_advances_put_conn [OF assms(1)])
  obtain q r where q: "push_frame pe l f (c_out c) = (q, r)" by fastforce
  with pushed_or_closed_kept [of cid c1 q r fx c' fx'] assms(2,3) of_stream_push_frame [OF q]
  show "key \<in> set (c_subs c) \<and> of_stream key (o_items (c_out c')) = of_stream key (o_items (c_out c))" if "key \<in> set (c_subs c')" for key
    using that by simp
qed

lemma enqueue_advances: "hub_advances K X (fst hf) (fst (enqueue pe aid conn f hf))"
proof -
  obtain h fx where hf: "hf = (h, fx)" by fastforce
  show ?thesis
  proof (cases "\<exists>a c. map_of (hub_accounts h) aid = Some a \<and> map_of (a_conns a) conn = Some c")
    case True
    then obtain a c where a: "map_of (hub_accounts h) aid = Some a" and c: "map_of (a_conns a) conn = Some c" by blast
    obtain c' fx' where p: "pushed_or_closed conn c (push_frame pe (hub_limits h) f (c_out c)) fx = (c', fx')" by fastforce
    from push_frame_advances [OF c p refl] a c p show ?thesis
      by (simp add: hf enqueue_def hub_advances_put acct_at_some)
  next
    case False
    then have "enqueue pe aid conn f hf = hf" by (auto simp: enqueue_def hf split: option.splits)
    then show ?thesis by simp
  qed
qed

lemma enqueue_all_advances: "hub_advances K X (fst hf) (fst (enqueue_all pe aid f others hf))"
proof (induction others arbitrary: hf)
  case (Cons x xs)
  from hub_advances_trans [OF enqueue_advances Cons] show ?case by simp
qed simp

section \<open>Leaving and closing\<close>

lemma ring_in_drop_subscriber [simp]: "ring_in (drop_subscriber conn key ss) = ring_in ss"
  by (auto simp: fun_eq_iff ring_in_def map_of_drop_subscriber left_stream_def Let_def split: option.splits)

lemma ring_in_fold_drop [simp]: "ring_in (fold (drop_subscriber conn) ks ss) = ring_in ss"
  by (induction ks arbitrary: ss) simp_all

lemma leave_account_advances:
  assumes "leave_account conn c a = (role, a')"
  shows "acct_advances K X a a'" and "a_conns a' = AList.delete conn (a_conns a)"
proof -
  show conns: "a_conns a' = AList.delete conn (a_conns a)"
    using assms by (auto simp: leave_account_def go_offline_def Let_def split: option.splits prod.splits if_splits)
  have "ring_in (a_streams a') = ring_in (a_streams a)"
    using assms by (auto simp: leave_account_def go_offline_def Let_def split: option.splits prod.splits if_splits)
  with conns show "acct_advances K X a a'" by (auto simp: acct_advances_def delete_conv' split: if_splits)
qed

lemma forget_advances: "hub_advances K X (fst hf) (fst (forget pe conn hf))"
proof -
  obtain h fx where hf: "hf = (h, fx)" by fastforce
  show ?thesis
  proof (cases "\<exists>aid a c. map_of (hub_conn_account h) conn = Some aid \<and> map_of (hub_accounts h) aid = Some a \<and> map_of (a_conns a) conn = Some c")
    case True
    then obtain aid a c where l: "map_of (hub_conn_account h) conn = Some aid" "map_of (hub_accounts h) aid = Some a" "map_of (a_conns a) conn = Some c" by blast
    obtain role a' where leave: "leave_account conn c a = (role, a')" by fastforce
    have "hub_advances K X h (without_conn conn aid a' h)"
      using leave_account_advances(1) [OF leave] l(2)
      by (auto simp: hub_advances_def acct_at_def [of "without_conn conn aid a' h"] without_conn_simps acct_at_some split: option.split)
        (auto simp: acct_at_def acct_advances_def account_new_def)
    with forget_eq [OF l, of pe fx] leave show ?thesis
      unfolding hf by (metis enqueue_all_advances fst_conv hub_advances_trans snd_conv)
  next
    case False
    then have "hub_accounts (fst (forget pe conn hf)) = hub_accounts h" by (auto simp: forget_def hf Let_def split: option.splits)
    then show ?thesis by (simp add: hf hub_advances_same)
  qed
qed

lemma pushed_or_closed_closing: "pushed_or_closed cid c qr fx = (c', fx') \<Longrightarrow> closing fx \<subseteq> closing fx'"
  by (auto simp: pushed_or_closed_def conn_arm_def effects_wake_def fx_push_close_def Let_def split: prod.splits push_result.splits if_splits)

lemma enqueue_closing: "closing (snd hf) \<subseteq> closing (snd (enqueue pe aid conn f hf))"
  by (auto simp: enqueue_def Let_def split: prod.splits option.splits dest: subsetD [OF pushed_or_closed_closing])

lemma enqueue_all_closing: "closing (snd hf) \<subseteq> closing (snd (enqueue_all pe aid f others hf))"
proof (induction others arbitrary: hf)
  case (Cons x xs)
  from order_trans [OF enqueue_closing Cons] show ?case by simp
qed simp

lemma forget_closing: "closing fx \<subseteq> closing (snd (forget pe conn (h, fx)))"
  using enqueue_all_closing [of "(_, fx)"] by (auto simp: forget_def Let_def split: option.splits prod.splits)

text \<open>Finishing a call: whoever was on the list to close is gone, and everyone else moved forward.\<close>

lemma finish_loop_advances:
  assumes "finish_loop pe closed hf = (closed', h', fx')"
    and "\<forall>c \<in> fst ` set closed. map_of (hub_conn_account (fst hf)) c = None"
  shows "hub_advances K X (fst hf) h'
    \<and> (\<forall>cid \<in> closing (snd hf). map_of (hub_conn_account h') cid = None)
    \<and> (\<forall>cid. map_of (hub_conn_account (fst hf)) cid = None \<longrightarrow> map_of (hub_conn_account h') cid = None)"
  using assms
proof (induction pe closed hf rule: finish_loop.induct)
  case (1 pe closed hf)
  obtain h fx where hf: "hf = (h, fx)" by fastforce
  show ?case
  proof (cases "fx_close fx = []")
    case True
    with "1.prems" show ?thesis by (simp add: hf finish_loop.simps [of pe closed "(h, fx)"])
  next
    case False
    obtain conn f where cf: "last (fx_close fx) = (conn, f)" by fastforce
    let ?fx = "fx\<lparr>fx_close := butlast (fx_close fx)\<rparr>"
    have split: "fx_close fx = butlast (fx_close fx) @ [(conn, f)]" using append_butlast_last_id [OF False] cf by simp
    then have "set (fx_close fx) = set (butlast (fx_close fx) @ [(conn, f)])" by (rule arg_cong)
    then have cl: "closing fx = insert conn (closing ?fx)" by simp
    show ?thesis
    proof (cases "conn \<in> set (map fst closed) \<or> map_of (hub_conn_account h) conn = None")
      case True
      then have none: "map_of (hub_conn_account h) conn = None" using "1.prems"(2) by (auto simp: hf)
      have "finish_loop pe closed (h, ?fx) = (closed', h', fx')"
        using "1.prems"(1) True False cf by (simp add: hf finish_loop.simps [of pe closed "(h, fx)"])
      from "1.IH"(1) [of "(conn, f)" conn f "(h, ?fx)"] this False cf True "1.prems"(2) none cl show ?thesis by (auto simp: hf)
    next
      case skip: False
      have loop: "finish_loop pe (closed @ [(conn, f)]) (forget pe conn (h, ?fx)) = (closed', h', fx')"
        using "1.prems"(1) skip False cf by (auto simp: hf finish_loop.simps [of pe closed "(h, fx)"] Let_def)
      have gone: "\<forall>c \<in> fst ` set (closed @ [(conn, f)]). map_of (hub_conn_account (fst (forget pe conn (h, ?fx)))) c = None"
        using "1.prems"(2) by (auto simp: forget_conn_account delete_conv' hf)
      have cls: "closing ?fx \<subseteq> closing (snd (forget pe conn (h, ?fx)))" by (rule forget_closing)
      from "1.IH"(2) [of "(conn, f)" conn f "(h, ?fx)"] loop gone False cf skip
      have IH: "hub_advances K X (fst (forget pe conn (h, ?fx))) h'"
        "\<forall>cid \<in> closing (snd (forget pe conn (h, ?fx))). map_of (hub_conn_account h') cid = None"
        "\<forall>cid. map_of (hub_conn_account (fst (forget pe conn (h, ?fx)))) cid = None \<longrightarrow> map_of (hub_conn_account h') cid = None"
        by (auto simp: hf)
      have "hub_advances K X h h'" using hub_advances_trans [OF forget_advances [of K X "(h, ?fx)" pe conn] IH(1)] by simp
      moreover have "map_of (hub_conn_account h') cid = None" if "cid \<in> closing fx \<or> map_of (hub_conn_account h) cid = None" for cid
      proof (cases "cid \<in> closing ?fx")
        case True
        with cls have "cid \<in> closing (snd (forget pe conn (h, ?fx)))" by (rule subsetD)
        with IH(2) show ?thesis by (rule bspec)
      qed (use that IH(3) cl in \<open>auto simp: forget_conn_account delete_conv'\<close>)
      ultimately show ?thesis by (simp add: hf)
    qed
  qed
qed

lemma hub_mid_conn_gone:
  "hub_mid W (h, fx) \<Longrightarrow> map_of (hub_conn_account h) cid = None \<Longrightarrow> map_of (a_conns (acct_at h aid)) cid = None"
  by (auto simp: acct_at_def account_new_def split: option.splits dest: hub_mid_account(3) [of W h fx])

lemma hub_mid_conn_elsewhere:
  "hub_mid W (h, fx) \<Longrightarrow> map_of (hub_conn_account h) cid = Some aid \<Longrightarrow> bid \<noteq> aid \<Longrightarrow> map_of (a_conns (acct_at h bid)) cid = None"
  using hub_mid_elsewhere [of W h fx bid _ cid] by (auto simp: acct_at_def account_new_def split: option.splits)

text \<open>Who is exempt and gone is exempt no more.\<close>

definition gone_from :: "conn_id set \<Rightarrow> hub \<Rightarrow> bool" where
  "gone_from X h \<longleftrightarrow> (\<forall>aid. \<forall>cid \<in> X. map_of (a_conns (acct_at h aid)) cid = None)"

lemma hub_advances_gone: "hub_advances K X h h' \<Longrightarrow> gone_from X h' \<Longrightarrow> hub_advances K {} h h'"
  unfolding hub_advances_def acct_advances_def gone_from_def by (metis empty_iff option.distinct(1))

lemma finish_advances:
  assumes "hub_mid W hf" and "finish pe hf = (h', acts)"
  shows "hub_advances K X (fst hf) h'" and "gone_from (closing (snd hf)) h'"
proof -
  obtain closed fx where loop: "finish_loop pe [] hf = (closed, h', fx)"
    using assms(2) by (auto simp: finish_def split: prod.splits)
  have mid: "hub_mid W (h', fx)" using finish_loop_mid [OF assms(1) _ loop] by simp
  show "hub_advances K X (fst hf) h'" using finish_loop_advances [OF loop, of K X] by simp
  have "\<forall>cid \<in> closing (snd hf). map_of (hub_conn_account h') cid = None" using finish_loop_advances [OF loop, of K X] by simp
  then show "gone_from (closing (snd hf)) h'" by (auto simp: gone_from_def intro: hub_mid_conn_gone [OF mid])
qed

lemma close_conn_advances:
  assumes "hub_inv W h" and "close_conn pe conn frm h = (h', acts)"
  shows "hub_advances {} {} h h'"
proof (cases frm)
  case None
  have "hub_mid W (forget pe conn (h, effects_default))"
    using forget_mid [OF assms(1) [unfolded hub_inv_def], of conn effects_default pe] by (simp add: effects_default_def)
  from finish_advances(1) [OF this, of pe h' acts] assms(2) None show ?thesis
    using hub_advances_trans [OF forget_advances [of "{}" "{}" "(h, effects_default)" pe conn]] by (simp add: close_conn_def)
next
  case (Some f)
  have "hub_mid W (h, fx_push_close conn f effects_default)" using assms(1) hub_mid_push_close unfolding hub_inv_def by blast
  from finish_advances(1) [OF this] assms(2) Some show ?thesis by (simp add: close_conn_def)
qed

section \<open>Publishing\<close>

lemma push_published_items:
  "push_published l key k epoch e q = (q', r) \<Longrightarrow> set (o_items q') \<subseteq> insert (published_item key k epoch e) (set (o_items q))"
proof -
  assume p: "push_published l key k epoch e q = (q', r)"
  have "set (o_items q') \<subseteq> set (o_items q @ [published_item key k epoch e])"
    using list_emb_set [OF push_published_thins(1) [OF p]] by blast
  then show ?thesis by simp
qed

lemma push_published_others:
  assumes "push_published l key k epoch e q = (q', r)" and "r = Pushed" and "other \<noteq> key"
  shows "set (of_stream other (o_items q')) \<subseteq> set (of_stream other (o_items q))"
    and "firm_seqs (of_stream other (o_items q')) = firm_seqs (of_stream other (o_items q))"
proof -
  note T = push_published_thins [OF assms(1)]
  show "set (of_stream other (o_items q')) \<subseteq> set (of_stream other (o_items q))"
    using push_published_items [OF assms(1)] assms(3) by (auto simp: of_stream_def published_item_def)
  have "of_stream other (filter (\<lambda>it. \<not> it_telemetry it) [published_item key k epoch e]) = []"
    using assms(3) by (simp add: of_stream_def published_item_def)
  then show "firm_seqs (of_stream other (o_items q')) = firm_seqs (of_stream other (o_items q))"
    unfolding firm_of_stream T(2) [OF assms(2)] filter_append of_stream_append by simp
qed

lemma push_published_its_own:
  assumes "push_published l key k epoch e q = (q', r)" and "r = Pushed"
  shows "set (of_stream key (o_items q')) \<subseteq> insert (published_item key k epoch e) (set (of_stream key (o_items q)))"
    and "firm_seqs (of_stream key (o_items q')) = firm_seqs (of_stream key (o_items q)) @ (if k = Telemetry then [] else [en_seq e])"
proof -
  note T = push_published_thins [OF assms(1)]
  show "set (of_stream key (o_items q')) \<subseteq> insert (published_item key k epoch e) (set (of_stream key (o_items q)))"
    using push_published_items [OF assms(1)] by (auto simp: of_stream_def)
  show "firm_seqs (of_stream key (o_items q')) = firm_seqs (of_stream key (o_items q)) @ (if k = Telemetry then [] else [en_seq e])"
    unfolding firm_of_stream T(2) [OF assms(2)] filter_append of_stream_append by (simp add: of_stream_def published_item_def)
qed

lemma fan_out_closing: "fan_out l key k epoch e subs (conns, fx) = (conns', fx') \<Longrightarrow> closing fx \<subseteq> closing fx'"
proof (induction subs arbitrary: conns fx)
  case (Cons sub subs)
  show ?case
  proof (cases "map_of conns sub")
    case (Some c)
    obtain c1 fx1 where p: "pushed_or_closed sub c (push_published l key k epoch e (c_out c)) fx = (c1, fx1)" by fastforce
    from Cons.IH [of "AList.update sub c1 conns" fx1] Cons.prems Some p pushed_or_closed_closing [OF p] show ?thesis by auto
  qed (use Cons in auto)
qed simp

text \<open>One round of the fan-out: whoever is not to be closed has the new entry behind what it had.\<close>

lemma fan_out_advances:
  assumes "fan_out l key k epoch e subs (conns, fx) = (conns', fx')" and "distinct subs"
    and "map_of conns' cid = Some c'" and "cid \<notin> closing fx'"
  shows "\<exists>c. map_of conns cid = Some c \<and> c_subs c' = c_subs c
    \<and> (if cid \<in> set subs then push_published l key k epoch e (c_out c) = (c_out c', Pushed) else c' = c)"
  using assms
proof (induction subs arbitrary: conns fx)
  case (Cons sub subs)
  show ?case
  proof (cases "map_of conns sub")
    case None
    with Cons.prems(1) have "fan_out l key k epoch e subs (conns, fx) = (conns', fx')" by simp
    from Cons.IH [OF this] Cons.prems None show ?thesis by auto
  next
    case (Some c)
    obtain q r where q: "push_published l key k epoch e (c_out c) = (q, r)" by fastforce
    obtain c1 fx1 where p: "pushed_or_closed sub c (q, r) fx = (c1, fx1)" by fastforce
    have fan: "fan_out l key k epoch e subs (AList.update sub c1 conns, fx1) = (conns', fx')" using Cons.prems(1) Some q p by simp
    note K = pushed_or_closed_kept [OF p]
    from Cons.IH [OF fan] Cons.prems obtain d where d: "map_of (AList.update sub c1 conns) cid = Some d" "c_subs c' = c_subs d"
      "if cid \<in> set subs then push_published l key k epoch e (c_out d) = (c_out c', Pushed) else c' = d" by auto
    show ?thesis
    proof (cases "cid = sub")
      case True
      with d Cons.prems(2) have "c' = c1" by (simp add: update_conv')
      moreover have "r = Pushed"
      proof (cases r)
        case SlowConsumer
        with p have "sub \<in> closing fx1" by (auto simp: pushed_or_closed_def)
        with fan_out_closing [OF fan] True Cons.prems(4) show ?thesis by auto
      qed simp
      ultimately show ?thesis using True Some K q d by (auto simp: update_conv')
    next
      case False
      with d show ?thesis by (auto simp: update_conv')
    qed
  qed
qed simp

lemma ring_in_evicted:
  assumes "i < length ss" and "s_ring (snd (ss ! i)) = Some r" and "same_place (Some r) (Some r')"
  shows "same_place (ring_in ss key) (ring_in (ss[i := (fst (ss ! i), (snd (ss ! i))\<lparr>s_ring := Some r'\<rparr>)]) key)"
  using assms
proof (induction ss arbitrary: i)
  case (Cons x ss)
  show ?case
  proof (cases i)
    case 0
    with Cons.prems show ?thesis by (cases x) (simp add: ring_in_def)
  next
    case (Suc j)
    with Cons.prems have "same_place (ring_in ss key) (ring_in (ss[j := (fst (ss ! j), (snd (ss ! j))\<lparr>s_ring := Some r'\<rparr>)]) key)"
      by (intro Cons.IH) simp_all
    with Suc show ?thesis by (cases x) (simp add: ring_in_def)
  qed
qed simp

lemma enforce_ring_budget_place:
  "same_place (ring_in (a_streams a) key) (ring_in (a_streams (enforce_ring_budget budget a)) key)
   \<and> a_conns (enforce_ring_budget budget a) = a_conns a"
proof (induction budget a rule: enforce_ring_budget.induct)
  case (1 budget a)
  show ?case
  proof (cases "a_ring_bytes a > budget \<and> (\<exists>i r. largest_ring (a_streams a) = Some (i, r) \<and> \<not> ring_is_empty r)")
    case True
    then obtain i r where l: "a_ring_bytes a > budget" "largest_ring (a_streams a) = Some (i, r)" "\<not> ring_is_empty r" by blast
    obtain n r' where ev: "ring_evict_oldest r = (n, r')" by fastforce
    have place: "same_place (Some r) (Some r')" using ev by (auto simp: ring_evict_oldest_def same_place_def split: list.splits)
    have i: "i < length (a_streams a)" "s_ring (snd (a_streams a ! i)) = Some r" using largest_ring_SomeD [OF l(2)] by auto
    from ring_in_evicted [OF i place, of key] have "same_place (ring_in (a_streams a) key) (ring_in (a_streams (evict_at i r a)) key)"
      by (simp add: evict_at_def ev)
    moreover have "a_conns (evict_at i r a) = a_conns a" by (simp add: evict_at_def ev)
    moreover note "1.IH" [OF l(1,2) refl l(3)]
    ultimately show ?thesis using l by (subst (1 2) enforce_ring_budget.simps) (auto intro: same_place_trans)
  next
    case False
    then show ?thesis by (subst (1 2) enforce_ring_budget.simps) (auto split: option.split)
  qed
qed

lemma enforce_ring_budget_advances: "acct_advances K X a (enforce_ring_budget budget a)"
proof (rule acct_advancesI)
  fix cid c' key
  assume "map_of (a_conns (enforce_ring_budget budget a)) cid = Some c'" "key \<in> set (c_subs c')"
  with enforce_ring_budget_place [of a key budget] show "\<exists>c. map_of (a_conns a) cid = Some c \<and> key \<in> set (c_subs c)
      \<and> advances (ring_in (a_streams a) key) (of_stream key (o_items (c_out c)))
          (ring_in (a_streams (enforce_ring_budget budget a)) key) (of_stream key (o_items (c_out c')))"
    by (auto intro: same_place_advances)
qed

lemma publish_in_advances:
  assumes sound: "acct_sound l Y W a" and s: "map_of (a_streams a) key = Some s"
    and kind: "k = SessionEvents \<or> k = Telemetry" "\<And>r. s_ring s = Some r \<Longrightarrow> r_kind r = k"
    and pub: "publish_in pe l fresh clock key k env s (a, fx) = (a', fx')"
  shows "acct_advances K (closing fx') a a'"
proof -
  have core: "acct_core l Y W a" using sound by (simp add: acct_sound_def)
  define r where "r = (case s_ring s of Some r \<Rightarrow> r | None \<Rightarrow> ring_new k fresh clock)"
  obtain p r' where pr: "ring_publish pe env (ring_capacity l k) clock r = (p, r')" by fastforce
  obtain conns where fan: "fan_out l key k (r_epoch r) (pub_entry p) (s_subscribers s) (a_conns a, fx) = (conns, fx')"
    and a': "a' = enforce_ring_budget (account_ring_bytes l) (a\<lparr>a_streams := AList.update key (s\<lparr>s_ring := Some r'\<rparr>) (a_streams a),
        a_ring_bytes := a_ring_bytes a + pub_added p - pub_freed p, a_conns := conns\<rparr>)"
    using pub pr acct_core_stream [OF core s] by (auto simp: publish_in_def r_def [symmetric] stream_sound_def split: prod.splits)
  have S: "stream_sound l (a_conns a) key s" by (rule acct_core_stream [OF core s])
  have "ring_ok r \<and> length (r_entries r) \<le> ring_capacity l k \<and> r_kind r = k"
    using S kind(2) by (auto simp: r_def stream_sound_def ring_sound_def ring_new_def ring_ok_def split: option.splits)
  then have R: "r_epoch r' = r_epoch r" "r_seq r' = Suc (r_seq r)" "en_seq (pub_entry p) = Suc (r_seq r)" "r_kind r' = k" "r_kind r = k"
    using ring_published_sound [OF _ _ _ kind(1) pr] ring_publish_ok [OF _ _ pr] by auto
  have pos: "ring_pos (s_ring s) = r_seq r" by (simp add: r_def ring_pos_def ring_new_def split: option.split)
  let ?a = "a\<lparr>a_streams := AList.update key (s\<lparr>s_ring := Some r'\<rparr>) (a_streams a), a_ring_bytes := a_ring_bytes a + pub_added p - pub_freed p, a_conns := conns\<rparr>"
  have "acct_advances K (closing fx') a ?a"
  proof (rule acct_advancesI)
    fix cid c' other
    assume c': "map_of (a_conns ?a) cid = Some c'" and other: "other \<in> set (c_subs c')" and live: "cid \<notin> closing fx'"
    have "distinct (s_subscribers s)" using S by (simp add: stream_sound_def)
    from fan_out_advances [OF fan this _ live] c' obtain c where c: "map_of (a_conns a) cid = Some c" "c_subs c' = c_subs c"
      "if cid \<in> set (s_subscribers s) then push_published l key k (r_epoch r) (pub_entry p) (c_out c) = (c_out c', Pushed) else c' = c" by auto
    have "advances (ring_in (a_streams a) other) (of_stream other (o_items (c_out c)))
        (ring_in (a_streams ?a) other) (of_stream other (o_items (c_out c')))"
    proof (cases "other = key")
      case True
      then have "cid \<in> set (s_subscribers s)" using acct_core_conn(2) [OF core c(1)] c(2) other s by (auto simp: conn_links_def)
      with c have push: "push_published l key k (r_epoch r) (pub_entry p) (c_out c) = (c_out c', Pushed)" by simp
      have rings: "ring_in (a_streams a) key = s_ring s" "ring_in (a_streams ?a) key = Some r'" by (simp_all add: ring_in_def s update_conv')
      have epoch: "r_epoch x = r_epoch r" if "s_ring s = Some x" for x using that by (simp add: r_def)
      have seqs: "[Suc (ring_pos (s_ring s)) ..< Suc (ring_pos (Some r'))] = [Suc (r_seq r)]" using R(2) by (simp add: ring_pos_def [of "Some r'"] pos)
      have "firm_seqs (of_stream key (o_items (c_out c'))) = firm_seqs (of_stream key (o_items (c_out c)))
          @ (if of_sessions (Some r') then [Suc (ring_pos (s_ring s)) ..< Suc (ring_pos (Some r'))] else [])"
        unfolding seqs using push_published_its_own(2) [OF push refl] R(3,4) kind(1) by (auto simp: of_sessions_def)
      moreover have "\<exists>y. Some r' = Some y \<and> r_epoch y = r_epoch x \<and> r_kind y = r_kind x" if "s_ring s = Some x" for x
        using epoch [OF that] kind(2) [OF that] R by simp
      moreover have "ring_pos (s_ring s) \<le> ring_pos (Some r')" using R(2) by (simp add: pos ring_pos_def [of "Some r'"])
      moreover have "it \<in> set (of_stream key (o_items (c_out c))) \<or> ring_pos (s_ring s) < it_seq it" if "it \<in> set (of_stream key (o_items (c_out c')))" for it
        using subsetD [OF push_published_its_own(1) [OF push refl] that] R(3) by (auto simp: pos published_item_def)
      ultimately show ?thesis unfolding True rings advances_def by blast
    next
      case False
      then have "ring_in (a_streams ?a) other = ring_in (a_streams a) other" by (simp add: ring_in_def update_conv')
      moreover have "set (of_stream other (o_items (c_out c'))) \<subseteq> set (of_stream other (o_items (c_out c)))
          \<and> firm_seqs (of_stream other (o_items (c_out c'))) = firm_seqs (of_stream other (o_items (c_out c)))"
        using c(3) push_published_others [OF _ refl False, of l k "r_epoch r" "pub_entry p" "c_out c" "c_out c'"] by (cases "cid \<in> set (s_subscribers s)") simp_all
      ultimately show ?thesis by (simp add: same_place_advances)
    qed
    with c other show "\<exists>c. map_of (a_conns a) cid = Some c \<and> other \<in> set (c_subs c)
      \<and> advances (ring_in (a_streams a) other) (of_stream other (o_items (c_out c))) (ring_in (a_streams ?a) other) (of_stream other (o_items (c_out c')))"
      by auto
  qed
  from acct_advances_trans [OF this enforce_ring_budget_advances] show ?thesis by (simp only: a')
qed

lemma ensure_stream_in_advances:
  assumes sound: "acct_sound l Y W a" and ens: "ensure_stream_in n key a = (ok, a')"
  shows "acct_advances K X a a'"
proof (rule acct_advancesI)
  fix cid c' other
  assume c': "map_of (a_conns a') cid = Some c'" and other: "other \<in> set (c_subs c')"
  have conns: "a_conns a' = a_conns a" using ens by (auto simp: ensure_stream_in_def Let_def split: if_splits option.splits)
  have core: "acct_core l Y W a" using sound by (simp add: acct_sound_def)
  from acct_core_conn(2) [OF core, of cid c'] c' conns other obtain s where s: "map_of (a_streams a) other = Some s" "cid \<in> set (s_subscribers s)"
    by (auto simp: conn_links_def)
  have dist: "keys_distinct (a_streams a)" using core by (simp add: acct_core_def)
  have "victim \<noteq> other" if "min_by_key (stream_touched \<circ> snd) (filter (\<lambda>(k, s). s_subscribers s = []) (a_streams a)) = Some (victim, t)" for victim t
  proof
    assume "victim = other"
    with min_by_key_SomeD [OF that] have "map_of (a_streams a) other = Some t" "s_subscribers t = []" using dist by (auto simp: map_of_eq_Some_iff)
    with s show False by simp
  qed
  then have "ring_in (a_streams a') other = ring_in (a_streams a) other"
    using ens s(1) by (auto simp: ensure_stream_in_def ring_in_def update_conv' delete_conv' Let_def split: if_splits option.splits)
  with c' other conns show "\<exists>c. map_of (a_conns a) cid = Some c \<and> other \<in> set (c_subs c)
      \<and> advances (ring_in (a_streams a) other) (of_stream other (o_items (c_out c))) (ring_in (a_streams a') other) (of_stream other (o_items (c_out c')))"
    by auto
qed

lemma ensure_stream_advances: "hub_mid W (h, fx) \<Longrightarrow> ensure_stream aid key h = (ok, h') \<Longrightarrow> hub_advances K X h h'"
  using ensure_stream_in_advances [OF hub_mid_account(1), of W h fx aid]
  by (auto simp: ensure_stream_def acct_at_some intro!: hub_advances_put split: option.splits prod.splits)

lemma publish_advances:
  assumes mid: "hub_mid W (h, fx)" and conn: "map_of (hub_conn_account h) conn = Some aid" and kind: "k = SessionEvents \<or> k = Telemetry"
    and pub: "publish pe aid conn key k env (h, fx) = (h', fx')"
  shows "hub_advances K (closing fx') h h'"
proof -
  obtain ok h1 where ens: "ensure_stream aid key h = (ok, h1)" by fastforce
  note E = ensure_stream_mid [OF mid conn ens]
  then have mid1: "hub_mid W (h1, fx)" and l: "hub_limits h1 = hub_limits h" by blast+
  from E obtain a where a: "map_of (hub_accounts h1) aid = Some a" and key: "ok \<longrightarrow> map_of (a_streams a) key \<noteq> None" by blast
  note adv = ensure_stream_advances [OF mid ens, of K "closing fx'"]
  show ?thesis
  proof (cases "ok \<and> (\<forall>s r. map_of (a_streams a) key = Some s \<longrightarrow> s_ring s = Some r \<longrightarrow> r_kind r = k)")
    case False
    then have "h' = h1 \<or> (\<exists>f. enqueue pe aid conn f (h1, fx) = (h', fx'))"
      using pub ens a key by (auto simp: publish_def split: if_splits option.splits)
    with hub_advances_trans [OF adv enqueue_advances [of K "closing fx'" "(h1, fx)" pe aid conn, simplified]] adv show ?thesis by (metis fst_conv)
  next
    case True
    with key obtain s where s: "map_of (a_streams a) key = Some s" by blast
    define eh where "eh = (if map_option r_kind (s_ring s) = None
      then let (z, st) = next_epoch (hub_epoch_state h1) in (z, h1\<lparr>hub_epoch_state := st\<rparr>) else (0, h1))"
    define h3 where "h3 = (snd eh)\<lparr>hub_clock := hub_clock (snd eh) + 1\<rparr>"
    obtain a' fx2 where p2: "publish_in pe (hub_limits h) (fst eh) (hub_clock h3) key k env s (a, fx) = (a', fx2)" by fastforce
    have "publish pe aid conn key k env (h, fx) = (put_account aid a' h3, fx2)"
      using ens True a s p2 by (auto simp: publish_def eh_def h3_def Let_def split: option.splits prod.splits)
    then have h': "h' = put_account aid a' h3" and p: "publish_in pe (hub_limits h) (fst eh) (hub_clock h3) key k env s (a, fx) = (a', fx')"
      using pub p2 by simp_all
    have h3: "hub_accounts h3 = hub_accounts h1" by (auto simp: h3_def eh_def split: prod.split)
    have "acct_advances K (closing fx') a a'"
      by (rule publish_in_advances [OF hub_mid_account(1) [OF mid1 a, unfolded l] s kind _ p]) (use True s in auto)
    then have "hub_advances K (closing fx') h1 h'"
      using a by (auto simp: hub_advances_def h' acct_at_cong [OF h3] acct_at_some)
    from hub_advances_trans [OF adv this] show ?thesis .
  qed
qed

lemma direct_advances: "hub_advances K X h (fst (direct pe aid conn target env (h, fx)))"
proof (cases "\<exists>a tc r c. map_of (hub_accounts h) aid = Some a \<and> map_of (a_online a) target = Some (tc, r) \<and> map_of (a_conns a) tc = Some c")
  case False
  then have "direct pe aid conn target env (h, fx) = enqueue pe aid conn (error Unavailable (e_ref env) ''recipient is not online'') (h, fx)"
    by (auto simp: direct_def split: option.splits prod.splits)
  with enqueue_advances [of K X "(h, fx)"] show ?thesis by simp
next
  case True
  then obtain a tc r c where a: "map_of (hub_accounts h) aid = Some a" and t: "map_of (a_online a) target = Some (tc, r)"
    and c: "map_of (a_conns a) tc = Some c" by blast
  let ?f = "Frame (Some (BEnvelope (env\<lparr>e_to := Some (ToPrincipal target)\<rparr>)))"
  obtain out res where qr: "push_frame pe (hub_limits h) ?f (c_out c) = (out, res)" by fastforce
  obtain c' fx' where push: "pushed_or_closed tc c (out, res) fx = (c', fx')" by fastforce
  have "pushed_or_closed tc c (push_frame pe (hub_limits h) ?f (c_out c)) fx = (c', fx')" using push qr by (simp only:)
  from push_frame_advances [OF c this refl, of K X] have adv: "hub_advances K X h (put_account aid (put_conn tc c' a) h)"
    by (simp add: hub_advances_put acct_at_some [OF a])
  with hub_advances_trans [OF adv enqueue_advances [of K X "(put_account aid (put_conn tc c' a) h, fx')", simplified]] a t c qr push
  show ?thesis by (cases res) (simp_all add: direct_def)
qed

lemma on_envelope_advances:
  assumes mid: "hub_mid W (h, fx)" and conn: "map_of (hub_conn_account h) conn = Some aid" and r: "on_envelope pe aid conn env (h, fx) = (h', fx')"
  shows "hub_advances K (closing fx') h h'"
proof -
  have enq: "hub_advances K (closing fx') h (fst (enqueue pe aid conn f (h, fx)))" for f using enqueue_advances [of K "closing fx'" "(h, fx)"] by simp
  have dir: "hub_advances K (closing fx') h (fst (direct pe aid conn t e (h, fx)))" for t e by (rule direct_advances)
  have pub: "hub_advances K (closing fx') h h'" if "publish pe aid conn key k e (h, fx) = (h', fx')" "k = SessionEvents \<or> k = Telemetry" for key k e
    using publish_advances [OF mid conn that(2,1)] .
  have fst: "hub_advances K (closing fx') h h'" if "x = (h', fx')" "hub_advances K (closing fx') h (fst x)" for x using that by simp
  show ?thesis using r pub fst [OF _ enq] fst [OF _ dir]
    by (auto simp: on_envelope_def Let_def split: if_splits option.splits kind.splits address.splits)
qed

section \<open>Subscribing\<close>

text \<open>What a subscription starts with: of session events a run that ends with the newest.\<close>

definition well_begun :: "ring option \<Rightarrow> item list \<Rightarrow> bool" where
  "well_begun r its \<longleftrightarrow> (if of_sessions r then \<exists>m. firm_seqs its = [m ..< Suc (ring_pos r)] else firm_seqs its = [])"

definition hub_started :: "subscription set \<Rightarrow> conn_id set \<Rightarrow> hub \<Rightarrow> bool" where
  "hub_started K X h \<longleftrightarrow>
     (\<forall>aid cid c key. map_of (a_conns (acct_at h aid)) cid = Some c \<longrightarrow> key \<in> set (c_subs c) \<longrightarrow> cid \<notin> X \<longrightarrow> (cid, key) \<in> K \<longrightarrow>
        well_begun (ring_in (a_streams (acct_at h aid)) key) (of_stream key (o_items (c_out c))))"

lemma well_begun_advances:
  assumes "well_begun r its" and "advances r its r' its'"
  shows "well_begun r' its'"
proof (cases "of_sessions r'")
  case True
  have le: "ring_pos r \<le> ring_pos r'" using assms(2) by (simp add: advances_def)
  have f: "firm_seqs its' = firm_seqs its @ [Suc (ring_pos r) ..< Suc (ring_pos r')]" using advances_firm [OF assms(2)] by (simp only: if_P [OF True])
  have "\<exists>m. m \<le> Suc (ring_pos r) \<and> firm_seqs its = [m ..< Suc (ring_pos r)]"
  proof (cases "of_sessions r")
    case True
    with assms(1) obtain m where "firm_seqs its = [m ..< Suc (ring_pos r)]" by (auto simp: well_begun_def)
    then show ?thesis by (intro exI [of _ "min m (Suc (ring_pos r))"]) (simp add: min_def)
  next
    case False
    with assms(1) show ?thesis by (intro exI [of _ "Suc (ring_pos r)"]) (simp add: well_begun_def)
  qed
  then obtain m where m: "m \<le> Suc (ring_pos r)" "firm_seqs its = [m ..< Suc (ring_pos r)]" by blast
  have "firm_seqs its' = [m ..< Suc (ring_pos r')]" unfolding f m(2) by (rule upt_join) (use m le in simp_all)
  with True show ?thesis by (auto simp: well_begun_def)
next
  case False
  moreover have "\<not> of_sessions r" using of_sessions_kind [OF assms(2)] False by (cases r) (auto simp: of_sessions_def)
  ultimately show ?thesis using assms advances_firm [OF assms(2)] by (simp add: well_begun_def)
qed

lemma hub_started_advances: "hub_started K X h \<Longrightarrow> hub_advances {} X h h' \<Longrightarrow> hub_started K X h'"
  unfolding hub_started_def hub_advances_def acct_advances_def by (meson empty_iff well_begun_advances)

lemma hub_started_gone: "hub_started K X h \<Longrightarrow> gone_from X h \<Longrightarrow> hub_started K {} h"
  unfolding hub_started_def gone_from_def by (metis option.distinct(1))

text \<open>A call that may have renewed the subscriptions \<open>K\<close>.\<close>

definition call_moves :: "subscription set \<Rightarrow> conn_id set \<Rightarrow> hub \<Rightarrow> hub \<Rightarrow> bool" where
  "call_moves K X h h' \<longleftrightarrow> hub_advances {} X h h' \<or> hub_advances K X h h' \<and> hub_started K X h'"

lemma call_moves_advances: "call_moves K X h h1 \<Longrightarrow> hub_advances {} X h1 h2 \<Longrightarrow> call_moves K X h h2"
  unfolding call_moves_def by (meson empty_subsetI hub_advances_mono hub_advances_trans hub_started_advances order_refl)

lemma call_moves_gone: "call_moves K X h h' \<Longrightarrow> gone_from X h' \<Longrightarrow> call_moves K {} h h'"
  unfolding call_moves_def by (meson hub_advances_gone hub_started_gone)

lemma push_backfill_effect:
  assumes "push_backfill l key k epoch es (q, n) = (q', n', Pushed)"
  shows "other \<noteq> key \<Longrightarrow> set (of_stream other (o_items q')) \<subseteq> set (of_stream other (o_items q))
      \<and> firm_seqs (of_stream other (o_items q')) = firm_seqs (of_stream other (o_items q))"
    and "firm_seqs (of_stream key (o_items q')) = firm_seqs (of_stream key (o_items q)) @ (if k = Telemetry then [] else map en_seq es)"
proof -
  have "(other \<noteq> key \<longrightarrow> set (of_stream other (o_items q')) \<subseteq> set (of_stream other (o_items q))
      \<and> firm_seqs (of_stream other (o_items q')) = firm_seqs (of_stream other (o_items q)))
    \<and> firm_seqs (of_stream key (o_items q')) = firm_seqs (of_stream key (o_items q)) @ (if k = Telemetry then [] else map en_seq es)"
    using assms
  proof (induction es arbitrary: q n)
    case (Cons e es)
    from Cons.prems obtain q1 where p: "push_published l key k epoch e q = (q1, Pushed)" "push_backfill l key k epoch es (q1, n + 1) = (q', n', Pushed)"
      by (auto split: prod.splits push_result.splits)
    from Cons.IH [OF p(2)] push_published_others [OF p(1) refl, of other] push_published_its_own(2) [OF p(1) refl] show ?case by auto
  qed simp
  then show "other \<noteq> key \<Longrightarrow> set (of_stream other (o_items q')) \<subseteq> set (of_stream other (o_items q))
      \<and> firm_seqs (of_stream other (o_items q')) = firm_seqs (of_stream other (o_items q))"
    and "firm_seqs (of_stream key (o_items q')) = firm_seqs (of_stream key (o_items q)) @ (if k = Telemetry then [] else map en_seq es)" by blast+
qed

lemma of_stream_purge [simp]: "of_stream other (filter (\<lambda>it. it_stream it \<noteq> Some key) its) = (if other = key then [] else of_stream other its)"
  by (auto simp: of_stream_def intro: filter_cong)

text \<open>The account after a subscription whose backfill fitted.\<close>

lemma subscribed_moves:
  assumes core: "acct_core l Y W a" and c: "map_of (a_conns a) conn = Some c" and st: "map_of (a_streams a) key = Some s"
    and fill: "subscribe_fill since s = (es, k, epoch, seq, tr)"
    and push: "push_backfill l key k epoch es (purge_stream key (c_out c), n) = (out, n', Pushed)"
  defines "a' \<equiv> subscribed conn key s (c\<lparr>c_subs := List.insert key (c_subs c), c_out := out\<rparr>) a"
  shows "acct_advances {(conn, key)} X a a'" and "well_begun (ring_in (a_streams a') key) (of_stream key (o_items out))"
proof -
  have rings: "ring_in (a_streams a') = ring_in (a_streams a)"
    using st by (auto simp: a'_def subscribed_def put_conn_def ring_in_def update_conv' fun_eq_iff)
  have conns: "map_of (a_conns a') cid = (if cid = conn then Some (c\<lparr>c_subs := List.insert key (c_subs c), c_out := out\<rparr>) else map_of (a_conns a) cid)" for cid
    by (simp add: a'_def subscribed_def put_conn_def update_conv')
  note B = push_backfill_effect [OF push]
  show "acct_advances {(conn, key)} X a a'"
  proof (rule acct_advancesI)
    fix cid c' other
    assume "map_of (a_conns a') cid = Some c'" "other \<in> set (c_subs c')" "(cid, other) \<notin> {(conn, key)}"
    with B(1) [of other] c show "\<exists>c. map_of (a_conns a) cid = Some c \<and> other \<in> set (c_subs c)
        \<and> advances (ring_in (a_streams a) other) (of_stream other (o_items (c_out c))) (ring_in (a_streams a') other) (of_stream other (o_items (c_out c')))"
      unfolding rings conns by (auto intro!: same_place_advances split: if_splits)
  qed
  have own: "firm_seqs (of_stream key (o_items out)) = (if k = Telemetry then [] else map en_seq es)"
    using B(2) by (simp add: firm_seqs_def)
  have ring: "ring_in (a_streams a') key = s_ring s" unfolding rings by (simp add: ring_in_def st)
  show "well_begun (ring_in (a_streams a') key) (of_stream key (o_items out))"
  proof (cases "s_ring s")
    case None
    with fill have "es = []" by (simp add: subscribe_fill_def)
    with None own show ?thesis unfolding ring by (simp add: well_begun_def of_sessions_def)
  next
    case (Some r)
    have ok: "ring_ok r" and kinds: "r_kind r = SessionEvents \<or> r_kind r = Telemetry"
      using acct_core_stream [OF core st] Some by (simp_all add: stream_sound_def ring_sound_def)
    define after where "after = (case since of Some p \<Rightarrow> if p_epoch p = r_epoch r then p_seq p else 0 | None \<Rightarrow> 0)"
    have es: "es = filter (\<lambda>e. en_seq e > after) (r_entries r)" "k = r_kind r"
      using fill Some by (auto simp: subscribe_fill_def ring_backfill_def after_def Let_def)
    have "map en_seq es = [max (r_seq r - length (r_entries r)) after + 1 ..< Suc (r_seq r)]"
      unfolding es using ring_backfill_seqs [OF ok, of after] by simp
    with own es(2) kinds show ?thesis unfolding ring Some
      by (auto simp: well_begun_def of_sessions_def ring_pos_def)
  qed
qed

lemma on_subscribe_moves:
  assumes mid: "hub_mid W (h, fx)" and conn: "map_of (hub_conn_account h) conn = Some aid"
    and r: "on_subscribe pe aid conn sub (h, fx) = (h', fx')"
  shows "call_moves {(conn, \<lparr>sk_publisher = sr_publisher st, sk_channel = sr_channel st\<rparr>) | st. sub_stream sub = Some st} (closing fx') h h'"
proof (cases "\<exists>f. enqueue pe aid conn f (h, fx) = (h', fx') \<or> (h', fx') = (h, fx_push_close conn f fx)")
  case True
  with r enqueue_advances [of "{}" "closing fx'" "(h, fx)" pe aid conn] show ?thesis
    by (auto simp: call_moves_def) (metis fst_conv)+
next
  case go: False
  from go r obtain st where st: "sub_stream sub = Some st" by (auto simp: on_subscribe_def Let_def split: option.splits)
  define key where "key = \<lparr>sk_publisher = sr_publisher st, sk_channel = sr_channel st\<rparr>"
  from hub_mid_conn [OF mid conn] obtain a0 c where a0: "map_of (hub_accounts h) aid = Some a0" "map_of (a_conns a0) conn = Some c" by blast
  obtain ok h1 where ens: "ensure_stream aid key h = (ok, h1)" by fastforce
  note E = ensure_stream_mid [OF mid conn ens]
  then have mid1: "hub_mid W (h1, fx)" and l: "hub_limits h1 = hub_limits h" by blast+
  from E a0 obtain a where a: "map_of (hub_accounts h1) aid = Some a" and c: "map_of (a_conns a) conn = Some c"
    and found: "ok \<longrightarrow> map_of (a_streams a) key \<noteq> None" by auto
  note adv = ensure_stream_advances [OF mid ens]
  have K: "{(conn, \<lparr>sk_publisher = sr_publisher st, sk_channel = sr_channel st\<rparr>) | st. sub_stream sub = Some st} = {(conn, key)}"
    using st by (simp add: key_def)
  show ?thesis
  proof (cases ok)
    case False
    with r go st ens a0 have "h' = h1" by (auto simp: on_subscribe_def key_def [symmetric] Let_def split: if_splits)
    with adv show ?thesis by (simp add: call_moves_def)
  next
    case True
    with found obtain s where s: "map_of (a_streams a) key = Some s" by blast
    have core: "acct_core (hub_limits h1) (closing fx) (W \<union> set (fx_wakes fx)) a" using hub_mid_account(1) [OF mid1 a] by (simp add: acct_sound_def)
    then have sk: "s_key s = key" using acct_core_stream s by (metis stream_sound_def)
    obtain es k epoch seq tr where fill: "subscribe_fill (sub_since sub) s = (es, k, epoch, seq, tr)" by (metis prod_cases5)
    obtain out n' res where push: "push_backfill (hub_limits h1) key k epoch es (purge_stream key (c_out c), fx_queued fx) = (out, n', res)" by (metis prod_cases3)
    have fill': "subscribe_fill (sub_since sub) (s\<lparr>s_subscribers := x\<rparr>) = (es, k, epoch, seq, tr)" for x
      using fill subscribe_fill_cong [of "s\<lparr>s_subscribers := x\<rparr>" s] by simp
    let ?a = "subscribed conn key s (c\<lparr>c_subs := List.insert key (c_subs c), c_out := out\<rparr>) a"
    let ?h = "put_account aid ?a h1"
    have tail: "case res of SlowConsumer \<Rightarrow> h' = ?h \<and> conn \<in> closing fx' | Pushed \<Rightarrow> \<exists>f fx1. enqueue pe aid conn f (?h, fx1) = (h', fx')"
      using r go st ens True a c s sk fill' push l a0
      by (auto simp: on_subscribe_def key_def [symmetric] subscribed_def Let_def split: if_splits push_result.splits)
    show ?thesis
    proof (cases res)
      case Pushed
      note B = subscribed_moves [OF core c s fill push [unfolded Pushed]]
      have "hub_advances {(conn, key)} (closing fx') h1 ?h" using B(1) by (simp add: hub_advances_put acct_at_some [OF a])
      with hub_advances_trans [OF adv] have "hub_advances {(conn, key)} (closing fx') h ?h" by blast
      moreover have "hub_started {(conn, key)} (closing fx') ?h"
        unfolding hub_started_def
      proof (intro allI impI)
        fix bid cid d other
        assume d: "map_of (a_conns (acct_at ?h bid)) cid = Some d" and "(cid, other) \<in> {(conn, key)}"
        then have same: "cid = conn" "other = key" by simp_all
        have "bid = aid"
          using d same hub_mid_conn_elsewhere [OF mid1, of conn aid bid] conn E by (auto split: if_splits)
        with d same B(2) show "well_begun (ring_in (a_streams (acct_at ?h bid)) other) (of_stream other (o_items (c_out d)))"
          by (auto simp: subscribed_def put_conn_def update_conv')
      qed
      ultimately have "call_moves {(conn, key)} (closing fx') h ?h" by (simp add: call_moves_def)
      moreover from tail Pushed obtain f fx1 where "enqueue pe aid conn f (?h, fx1) = (h', fx')" by auto
      ultimately show ?thesis unfolding K using enqueue_advances [of "{}" "closing fx'" "(?h, fx1)" pe aid conn f] call_moves_advances by (metis fst_conv)
    next
      case SlowConsumer
      have "acct_advances {} (closing fx') a ?a"
        using tail SlowConsumer s by (auto simp: acct_advances_def subscribed_def put_conn_def update_conv' ring_in_def)
      then have "hub_advances {} (closing fx') h1 ?h" by (simp add: hub_advances_put acct_at_some [OF a])
      with hub_advances_trans [OF adv] tail SlowConsumer show ?thesis by (auto simp: call_moves_def)
    qed
  qed
qed

section \<open>The calls\<close>

lemma unsubscribe_advances: "hub_advances K X h (Relay.unsubscribe aid conn key h)"
proof (cases "map_of (hub_accounts h) aid")
  case (Some a)
  show ?thesis
  proof (cases "map_of (a_conns a) conn")
    case None
    then have "acct_advances K X a (a\<lparr>a_streams := drop_subscriber conn key (a_streams a)\<rparr>)" by (auto simp: acct_advances_def)
    with Some None show ?thesis by (simp add: unsubscribe_def Let_def hub_advances_put acct_at_some)
  next
    case c: (Some c)
    let ?c = "c\<lparr>c_subs := removeAll key (c_subs c), c_out := purge_stream key (c_out c)\<rparr>"
    have "acct_advances K X a (put_conn conn ?c a)" by (rule acct_advances_put_conn [OF c]) (auto simp: purge_stream_items)
    then have "acct_advances K X a ((put_conn conn ?c a)\<lparr>a_streams := drop_subscriber conn key (a_streams a)\<rparr>)"
      by (simp add: acct_advances_def put_conn_def)
    with Some c show ?thesis by (simp add: unsubscribe_def Let_def hub_advances_put acct_at_some put_conn_def)
  qed
qed (simp add: unsubscribe_def)

text \<open>The subscription a frame asks for.\<close>

definition renewed :: "conn_id \<Rightarrow> frame \<Rightarrow> subscription set" where
  "renewed conn f = {(conn, \<lparr>sk_publisher = sr_publisher st, sk_channel = sr_channel st\<rparr>) | sub st. frame_body f = Some (BSubscribe sub) \<and> sub_stream sub = Some st}"

lemma route_moves:
  assumes mid: "hub_mid W (h, fx)" and conn: "map_of (hub_conn_account h) conn = Some aid" and r: "route pe aid conn f (h, fx) = (h', fx')"
  shows "call_moves (renewed conn f) (closing fx') h h'"
proof (cases "\<exists>sub. frame_body f = Some (BSubscribe sub)")
  case True
  then obtain sub where f: "frame_body f = Some (BSubscribe sub)" by blast
  with on_subscribe_moves [OF mid conn, of pe sub h' fx'] r show ?thesis by (simp add: route_def renewed_def)
next
  case False
  have enq: "hub_advances {} X h h'" if "enqueue pe aid conn g (h, fx) = (h', fx')" for g X
    using that enqueue_advances [of "{}" X "(h, fx)" pe aid conn g] by simp
  have "hub_advances {} (closing fx') h h'"
    using r False on_envelope_advances [OF mid conn] enq unsubscribe_advances
    by (auto simp: route_def split: option.splits body.splits)
  then show ?thesis by (simp add: call_moves_def)
qed

lemma hub_advances_rate: "map_of (hub_accounts h) aid = Some a \<Longrightarrow> hub_advances K X h (put_account aid (a\<lparr>a_rate := b\<rparr>) h)"
  by (rule hub_advances_put) (auto simp: acct_at_some acct_advances_def)

lemma receive_moves:
  assumes inv: "hub_inv W h" and r: "receive pe conn f h = (h', acts)"
  shows "call_moves (renewed conn f) {} h h'"
proof (cases "map_of (hub_conn_account h) conn")
  case (Some aid)
  obtain h1 fx where rt: "route pe aid conn f (h, effects_default) = (h1, fx)" by fastforce
  have mid: "hub_mid W (h1, fx)" using route_mid [OF inv [unfolded hub_inv_def] Some, of pe f] rt by simp
  obtain h2 where sp: "spend_queued aid (h1, fx) = (h2, fx)" by (cases "map_of (hub_accounts h1) aid") (simp_all add: spend_queued_def)
  have "hub_advances {} (closing fx) h1 h2" using sp by (auto simp: spend_queued_def hub_advances_rate split: option.splits)
  with call_moves_advances [OF route_moves [OF inv [unfolded hub_inv_def] Some rt]] have "call_moves (renewed conn f) (closing fx) h h2" .
  moreover have fin: "finish pe (h2, fx) = (h', acts)" using r Some rt sp by (simp add: receive_def)
  moreover have mid2: "hub_mid W (h2, fx)" using spend_queued_mid [OF mid, of aid] sp by simp
  ultimately have "call_moves (renewed conn f) (closing fx) h h'"
    using call_moves_advances finish_advances(1) [OF mid2 fin, of "{}" "closing fx"] by simp
  with call_moves_gone finish_advances(2) [OF mid2 fin] show ?thesis by simp
qed (use r in \<open>simp add: receive_def call_moves_def\<close>)

lemma deliver_advances:
  assumes inv: "hub_inv W h" and d: "deliver pe conn f h = (h', acts)"
  shows "hub_advances {} {} h h'"
proof (cases "map_of (hub_conn_account h) conn")
  case (Some aid)
  have "hub_mid W (enqueue pe aid conn f (h, effects_default))" using enqueue_mid inv unfolding hub_inv_def by blast
  from hub_advances_trans [OF enqueue_advances [of "{}" "{}" "(h, effects_default)" pe aid conn f] finish_advances(1) [OF this]] d Some
  show ?thesis by (simp add: deliver_def)
qed (use d in \<open>simp add: deliver_def\<close>)

lemma throttle_notice_advances:
  assumes "throttle_notice pe l conn wait now (a, fx) = (a', fx')"
  shows "acct_advances K X a a'"
proof (cases "map_of (a_conns a) conn")
  case (Some c)
  obtain c' fx2 where p: "pushed_or_closed conn (c\<lparr>c_throttle_notice_ms := Some now\<rparr>)
      (push_frame pe l (error Throttled 0 ''account over its work rate; reading slowed'') (c_out c)) fx = (c', fx2)" by fastforce
  from push_frame_advances [OF Some p] assms Some p show ?thesis
    by (auto simp: throttle_notice_def Let_def split: if_splits)
qed (use assms in \<open>auto simp: throttle_notice_def split: if_splits\<close>)

lemma charge_advances:
  assumes inv: "hub_inv W h" and ch: "charge pe conn n now h = (h', wait, acts)"
  shows "hub_advances {} {} h h'"
proof (cases "map_of (hub_conn_account h) conn")
  case (Some aid)
  note mid = inv [unfolded hub_inv_def]
  from hub_mid_conn [OF mid Some] obtain a where a: "map_of (hub_accounts h) aid = Some a" by blast
  obtain a' fx where t: "charge_noticed pe conn n now h a = (a', fx)" by fastforce
  note C = charge_noticed_mid [OF mid Some a t]
  from C(2) obtain w b where "throttle_notice pe (hub_limits h) conn w now (a\<lparr>a_rate := b\<rparr>, effects_default) = (a', fx)" by blast
  then have "acct_advances {} {} (a\<lparr>a_rate := b\<rparr>) a'" by (rule throttle_notice_advances)
  then have "hub_advances {} {} h (put_account aid a' h)" by (simp add: hub_advances_put acct_at_some [OF a] acct_advances_def)
  from hub_advances_trans [OF this] finish_advances(1) [OF C(1) C(3) [OF ch], of "{}" "{}"] show ?thesis by simp
qed (use ch in \<open>simp add: charge_def Let_def\<close>)

lemma connect_debt_advances: "connect_debt aid now h = (h1, wait) \<Longrightarrow> hub_advances K X h h1"
  by (auto simp: connect_debt_def Let_def hub_advances_rate split: option.splits)

lemma joined_advances: "hub_advances K X h (fst (joined pe aid hello now mno rvk h))"
proof -
  let ?a0 = "acct_at h aid"
  have "c_subs c = []" if "conn_arm cid (greeted pe l hello now rvk a, fx) = (c, fx')" for cid l a fx c fx'
    using that by (auto simp: conn_arm_def Let_def greeted_def split: if_splits)
  moreover have "acct_advances K X ?a0 (?a0\<lparr>a_rate := b, a_conns := AList.update cid c (a_conns ?a0), a_online := on\<rparr>)" if "c_subs c = []" for b cid c on
    using that by (auto simp: acct_advances_def update_conv')
  ultimately have "hub_advances K X h (put_account aid (?a0\<lparr>a_rate := b, a_conns := AList.update cid c (a_conns ?a0), a_online := on\<rparr>) h)"
    if "conn_arm cid (greeted pe l hello now rvk a, fx) = (c, fx')" for b cid c on l a fx fx'
    using that by (blast intro: hub_advances_put)
  then show ?thesis
    by (auto simp: joined_def Let_def acct_at_def [symmetric] hub_advances_def acct_at_cong [of "_\<lparr>hub_next_conn := _, hub_conn_account := _\<rparr>"] split: prod.split)
qed

lemma connect_advances:
  assumes "hub_inv W h" and "0 < max_connections_per_account (hub_limits h)"
    and "greeting_fits pe aid now rvk h" and "connect pe aid hello now mno rvk h = (h', Inr (cid, acts))"
  shows "hub_advances {} {} h h'"
proof -
  from connect_admitted [OF assms] obtain h1 where debt: "connect_debt aid mno h = (h1, snd (connect_debt aid mno h))"
    and adm: "admit pe aid hello now mno rvk h1 = (h', cid, acts)" and mid: "hub_mid W (joined pe aid hello now mno rvk h1)" by blast
  from admit_joined [OF adm] obtain here others
    where fin: "finish pe (enqueue_all pe aid here others (joined pe aid hello now mno rvk h1)) = (h', acts)" by blast
  have "hub_mid W (enqueue_all pe aid here others (joined pe aid hello now mno rvk h1))" using enqueue_all_mid [OF mid] by blast
  from connect_debt_advances [OF debt] joined_advances enqueue_all_advances finish_advances(1) [OF this fin]
  show ?thesis by (meson hub_advances_trans)
qed

lemma connect_refused_advances: "connect pe aid hello now mno rvk h = (h', Inl e) \<Longrightarrow> hub_advances K X h h'"
  using connect_debt_advances [of aid mno h] by (auto simp: connect_def split: option.splits prod.splits if_splits)

lemma reordered_advances:
  assumes inv: "hub_inv W h" and a: "map_of (hub_accounts h) aid = Some a" and r: "account_reordered a a'"
  shows "hub_advances K X h (put_account aid a' h)"
proof -
  have "keys_distinct (a_streams a)" using hub_mid_account(1) [OF inv [unfolded hub_inv_def] a] by (simp add: acct_sound_def acct_core_def)
  with r map_of_mset [of "a_streams a'" "a_streams a"] have "map_of (a_streams a') = map_of (a_streams a)" by (simp add: account_reordered_def)
  moreover have "map_of (a_conns a') = map_of (a_conns a)"
    using account_reordered_sound [OF r hub_mid_account(1) [OF inv [unfolded hub_inv_def] a]] by blast
  ultimately show ?thesis by (intro hub_advances_put) (auto simp: acct_at_some [OF a] acct_advances_def ring_in_def)
qed

section \<open>Runs with what was handed over\<close>

text \<open>What is queued for a connection, and what a call of \<open>take_outbound\<close> took of it.\<close>

definition queue_at :: "hub \<Rightarrow> conn_id \<Rightarrow> item list" where
  "queue_at h cid = (case map_of (hub_conn_account h) cid of None \<Rightarrow> []
     | Some aid \<Rightarrow> (case map_of (a_conns (acct_at h aid)) cid of None \<Rightarrow> [] | Some c \<Rightarrow> o_items (c_out c)))"

definition taken_from :: "conn_id \<Rightarrow> hub \<Rightarrow> hub \<Rightarrow> item list" where
  "taken_from cid h h' = take (length (queue_at h cid) - length (queue_at h' cid)) (queue_at h cid)"

lemma take_outbound_pops:
  assumes t: "take_outbound pe conn b h = (h', t)"
    and l: "map_of (hub_conn_account h) conn = Some bid" "map_of (hub_accounts h) bid = Some a" "map_of (a_conns a) conn = Some c"
  obtains n m where "h' = put_account bid (put_conn conn (c\<lparr>c_out := snd (pops n (c_out c)), c_armed := m\<rparr>) a) h"
    and "taken_from conn h h' = take n (o_items (c_out c))" and "tk_frames t = handed_over pe (fst (pops n (c_out c)))"
proof -
  obtain n where n: "outbound_take pe b (c_out c) = (handed_over pe (fst (pops n (c_out c))), snd (pops n (c_out c)))" "n \<le> length (o_items (c_out c))"
    by (rule outbound_take_pops [of pe b "c_out c"])
  let ?q = "snd (pops n (c_out c))"
  obtain m where h': "h' = put_account bid (put_conn conn (c\<lparr>c_out := ?q, c_armed := m\<rparr>) a) h" and f: "tk_frames t = handed_over pe (fst (pops n (c_out c)))"
    using t l n by (auto simp: take_outbound_def Let_def)
  have "o_items ?q = drop n (o_items (c_out c))" using pops_items [of n "c_out c"] by simp
  then have "queue_at h conn = o_items (c_out c)" "queue_at h' conn = drop n (o_items (c_out c))"
    using l by (simp_all add: queue_at_def acct_at_some h' put_account_def put_conn_def acct_at_def update_conv')
  then have "taken_from conn h h' = take n (o_items (c_out c))" using n(2) by (simp add: taken_from_def)
  from that [OF h' this f] show ?thesis .
qed

text \<open>The bytes of what was taken are among the bytes handed to the socket, in their order; between them stand the notices of gaps.\<close>

lemma taken_wires:
  assumes "take_outbound pe conn b h = (h', t)"
  shows "subseq (map it_wire (taken_from conn h h')) (tk_frames t)"
proof (cases "\<exists>bid a c. map_of (hub_conn_account h) conn = Some bid \<and> map_of (hub_accounts h) bid = Some a \<and> map_of (a_conns a) conn = Some c")
  case True
  then obtain bid a c where l: "map_of (hub_conn_account h) conn = Some bid" "map_of (hub_accounts h) bid = Some a" "map_of (a_conns a) conn = Some c" by blast
  have "subseq (map (it_wire \<circ> snd) ps) (handed_over pe ps)" for ps :: "(frame list \<times> item) list"
  proof (induction ps)
    case (Cons p ps)
    from subseq_drop_many [OF subseq_Cons2 [OF Cons]] show ?case by (auto simp: handed_over_def split: prod.split)
  qed simp
  note wires = this
  obtain n where "taken_from conn h h' = take n (o_items (c_out c))" "tk_frames t = handed_over pe (fst (pops n (c_out c)))"
    by (rule take_outbound_pops [OF assms l])
  with wires [of "fst (pops n (c_out c))"] show ?thesis by (metis list.map_comp pops_items)
next
  case False
  with assms have "h' = h" by (auto simp: take_outbound_def split: option.splits)
  then show ?thesis by (simp add: taken_from_def)
qed

lemma take_outbound_effect:
  assumes inv: "hub_inv W h" and t: "take_outbound pe conn b h = (h', t)"
    and c': "map_of (a_conns (acct_at h' aid)) cid = Some c'"
  obtains c where "map_of (a_conns (acct_at h aid)) cid = Some c" and "c_subs c' = c_subs c"
    and "o_items (c_out c) = (if cid = conn then taken_from conn h h' else []) @ o_items (c_out c')"
    and "ring_in (a_streams (acct_at h' aid)) = ring_in (a_streams (acct_at h aid))"
proof (cases "\<exists>bid a c. map_of (hub_conn_account h) conn = Some bid \<and> map_of (hub_accounts h) bid = Some a \<and> map_of (a_conns a) conn = Some c")
  case True
  then obtain bid a c where l: "map_of (hub_conn_account h) conn = Some bid" "map_of (hub_accounts h) bid = Some a" "map_of (a_conns a) conn = Some c" by blast
  obtain n m where h': "h' = put_account bid (put_conn conn (c\<lparr>c_out := snd (pops n (c_out c)), c_armed := m\<rparr>) a) h"
    and taken: "taken_from conn h h' = take n (o_items (c_out c))"
    by (rule take_outbound_pops [OF t l])
  have q: "o_items (snd (pops n (c_out c))) = drop n (o_items (c_out c))" using pops_items [of n "c_out c"] by simp
  have other: "map_of (a_conns (acct_at h aid)) conn = None" if "aid \<noteq> bid"
    using hub_mid_conn_elsewhere [OF inv [unfolded hub_inv_def] l(1) that] .
  have "\<exists>d. map_of (a_conns (acct_at h aid)) cid = Some d \<and> c_subs c' = c_subs d
    \<and> o_items (c_out d) = (if cid = conn then taken_from conn h h' else []) @ o_items (c_out c')"
  proof (cases "aid = bid \<and> cid = conn")
    case True
    then show ?thesis unfolding taken using c' l q by (auto simp: h' acct_at_some put_conn_def update_conv')
  next
    case False
    then have "map_of (a_conns (acct_at h aid)) cid = Some c'"
      using c' l by (auto simp: h' acct_at_some put_conn_def update_conv' split: if_splits)
    with False other show ?thesis by (cases "aid = bid") auto
  qed
  then obtain d where "map_of (a_conns (acct_at h aid)) cid = Some d" "c_subs c' = c_subs d"
    "o_items (c_out d) = (if cid = conn then taken_from conn h h' else []) @ o_items (c_out c')" by blast
  moreover have "ring_in (a_streams (acct_at h' aid)) = ring_in (a_streams (acct_at h aid))"
    using l by (simp add: h' acct_at_some put_conn_def)
  ultimately show ?thesis by (rule that)
next
  case False
  with t have h': "h' = h" by (auto simp: take_outbound_def split: option.splits)
  with c' show ?thesis by (intro that) (simp_all add: taken_from_def)
qed

text \<open>The history of a subscription: what its connection was handed of the stream since it last asked for it. A run is one of \<open>Relay_Run\<close>, with its
  conditions: a newcomer's greeting fits its queue, and the limits let an account have a connection.\<close>

type_synonym histories = "conn_id \<Rightarrow> stream_key \<Rightarrow> item list"

definition restarted :: "subscription set \<Rightarrow> histories \<Rightarrow> histories" where
  "restarted K D = (\<lambda>cid key. if (cid, key) \<in> K then [] else D cid key)"

definition handed :: "conn_id \<Rightarrow> item list \<Rightarrow> histories \<Rightarrow> histories" where
  "handed cid its D = D(cid := \<lambda>key. D cid key @ of_stream key its)"

inductive order_step :: "(frame \<Rightarrow> bytes) \<Rightarrow> run_state \<times> histories \<Rightarrow> run_state \<times> histories \<Rightarrow> bool" for pe where
  connected: "greeting_fits pe aid now rvk h \<Longrightarrow> connect pe aid hello now mno rvk h = (h', Inr (cid, acts)) \<Longrightarrow>
    order_step pe ((h, W), D) ((h', after_actions acts W), D)"
| refused: "connect pe aid hello now mno rvk h = (h', Inl e) \<Longrightarrow> order_step pe ((h, W), D) ((h', W), D)"
| received: "receive pe cid f h = (h', acts) \<Longrightarrow> order_step pe ((h, W), D) ((h', after_actions acts W), restarted (renewed cid f) D)"
| delivered: "(\<And>e. frame_body f \<noteq> Some (BEnvelope e)) \<Longrightarrow> deliver pe cid f h = (h', acts) \<Longrightarrow> order_step pe ((h, W), D) ((h', after_actions acts W), D)"
| closed: "close_conn pe cid frm h = (h', acts) \<Longrightarrow> order_step pe ((h, W), D) ((h', after_actions acts W), D)"
| charged: "charge pe cid n now h = (h', wait, acts) \<Longrightarrow> order_step pe ((h, W), D) ((h', after_actions acts W), D)"
| taken: "take_outbound pe cid b h = (h', t) \<Longrightarrow>
    order_step pe ((h, W), D) ((h', if tk_more t then W else W - {cid}), handed cid (taken_from cid h h') D)"
| reordered: "map_of (hub_accounts h) aid = Some a \<Longrightarrow> account_reordered a a' \<Longrightarrow> order_step pe ((h, W), D) ((put_account aid a' h, W), D)"

definition order_start :: "run_state \<times> histories \<Rightarrow> bool" where
  "order_start x \<longleftrightarrow> hub_start (fst x) \<and> snd x = (\<lambda>_ _. [])"

lemma order_step_hub: "order_step pe x y \<Longrightarrow> hub_step pe (fst x) (fst y)"
proof (induction rule: order_step.induct)
  case (taken cid b h h' t W D)
  from hub_step.taken [OF taken, of W] show ?case by (simp only: fst_conv)
qed (auto intro: hub_step.intros)

text \<open>A history and what is queued behind it.\<close>

definition history_ok :: "ring option \<Rightarrow> item list \<Rightarrow> item list \<Rightarrow> bool" where
  "history_ok r ds qs \<longleftrightarrow> sorted_wrt (<) (map it_seq (ds @ qs)) \<and> well_begun r (ds @ qs)
     \<and> (\<forall>it \<in> set ds. it_seq it \<le> ring_pos r \<and> (\<exists>x. r = Some x \<and> it_epoch it = r_epoch x))"

lemma firm_seqs_append [simp]: "firm_seqs (xs @ ys) = firm_seqs xs @ firm_seqs ys"
  by (simp add: firm_seqs_def)

lemma advances_append: "advances r qs r' qs' \<Longrightarrow> advances r (ds @ qs) r' (ds @ qs')"
  by (auto simp: advances_def)

lemma history_advances:
  assumes ok: "history_ok r ds qs" and adv: "advances r qs r' qs'" and sorted: "sorted_wrt (<) (map it_seq qs')"
  shows "history_ok r' ds qs'"
proof -
  have "it_seq d < it_seq it" if "d \<in> set ds" "it \<in> set qs'" for d it
    using that ok adv by (fastforce simp: history_ok_def advances_def sorted_wrt_append)
  with ok sorted have "sorted_wrt (<) (map it_seq (ds @ qs'))" by (auto simp: history_ok_def sorted_wrt_append)
  moreover have "well_begun r' (ds @ qs')" using ok advances_append [OF adv] well_begun_advances by (auto simp: history_ok_def)
  moreover have "\<forall>it \<in> set ds. it_seq it \<le> ring_pos r' \<and> (\<exists>x. r' = Some x \<and> it_epoch it = r_epoch x)"
    using ok adv by (fastforce simp: history_ok_def advances_def)
  ultimately show ?thesis by (simp add: history_ok_def)
qed

lemma upt_suffix: "xs @ ys = [m ..< n] \<Longrightarrow> \<exists>k. ys = [k ..< n]"
  by (metis append_eq_conv_conj drop_upt)

lemma history_restarts: "history_ok r ds qs \<Longrightarrow> history_ok r [] qs"
  using upt_suffix [of "firm_seqs ds" "firm_seqs qs" _ "Suc (ring_pos r)"]
  by (auto simp: history_ok_def well_begun_def sorted_wrt_append simp del: upt_Suc split: if_splits)

definition histories_ok :: "hub \<Rightarrow> histories \<Rightarrow> bool" where
  "histories_ok h D \<longleftrightarrow> (\<forall>aid cid c key. map_of (a_conns (acct_at h aid)) cid = Some c \<longrightarrow> key \<in> set (c_subs c) \<longrightarrow>
     history_ok (ring_in (a_streams (acct_at h aid)) key) (D cid key) (of_stream key (o_items (c_out c))))"

lemma hub_inv_queue:
  assumes inv: "hub_inv W h" and c: "map_of (a_conns (acct_at h aid)) cid = Some c"
  shows "sorted_wrt (<) (map it_seq (of_stream key (o_items (c_out c))))"
    and "it \<in> set (of_stream key (o_items (c_out c))) \<Longrightarrow> \<exists>x. ring_in (a_streams (acct_at h aid)) key = Some x \<and> it_epoch it = r_epoch x \<and> it_seq it \<le> r_seq x"
proof -
  from c obtain a where a: "map_of (hub_accounts h) aid = Some a" by (cases "map_of (hub_accounts h) aid") (simp_all add: acct_at_def account_new_def)
  have "conn_local (hub_limits h) (closing effects_default) (W \<union> set (fx_wakes effects_default)) cid c
      \<and> conn_links (a_streams a) (a_online a) cid c"
    using hub_mid_account(1) [OF inv [unfolded hub_inv_def] a] c unfolding acct_at_some [OF a] acct_sound_def acct_core_def by blast
  then show "sorted_wrt (<) (map it_seq (of_stream key (o_items (c_out c))))"
    and "it \<in> set (of_stream key (o_items (c_out c))) \<Longrightarrow> \<exists>x. ring_in (a_streams (acct_at h aid)) key = Some x \<and> it_epoch it = r_epoch x \<and> it_seq it \<le> r_seq x"
    by (fastforce simp: conn_local_def queue_in_order_def of_stream_def conn_links_def item_link_def ring_in_def acct_at_some [OF a])+
qed

lemma histories_advance:
  assumes "histories_ok h D" and "hub_advances {} {} h h'" and "hub_inv W h'"
  shows "histories_ok h' D"
  unfolding histories_ok_def
proof (intro allI impI)
  fix aid cid c' key
  assume c': "map_of (a_conns (acct_at h' aid)) cid = Some c'" and key: "key \<in> set (c_subs c')"
  with assms(2) obtain c where c: "map_of (a_conns (acct_at h aid)) cid = Some c" "key \<in> set (c_subs c)"
    and adv: "advances (ring_in (a_streams (acct_at h aid)) key) (of_stream key (o_items (c_out c)))
      (ring_in (a_streams (acct_at h' aid)) key) (of_stream key (o_items (c_out c')))"
    unfolding hub_advances_def acct_advances_def by blast
  from assms(1) c have "history_ok (ring_in (a_streams (acct_at h aid)) key) (D cid key) (of_stream key (o_items (c_out c)))" by (simp add: histories_ok_def)
  from history_advances [OF this adv hub_inv_queue(1) [OF assms(3) c']]
  show "history_ok (ring_in (a_streams (acct_at h' aid)) key) (D cid key) (of_stream key (o_items (c_out c')))" .
qed

lemma histories_call:
  assumes ok: "histories_ok h D" and moves: "call_moves K {} h h'" and inv: "hub_inv W h'"
  shows "histories_ok h' (restarted K D)"
proof (cases "hub_advances {} {} h h'")
  case True
  with histories_advance [OF ok True inv] show ?thesis
    unfolding histories_ok_def restarted_def using history_restarts by (metis (full_types))
next
  case False
  with moves have adv: "hub_advances K {} h h'" and new: "hub_started K {} h'" by (simp_all add: call_moves_def)
  show ?thesis
    unfolding histories_ok_def
  proof (intro allI impI)
    fix aid cid c' key
    assume c': "map_of (a_conns (acct_at h' aid)) cid = Some c'" and key: "key \<in> set (c_subs c')"
    note sorted = hub_inv_queue(1) [OF inv c', of key]
    show "history_ok (ring_in (a_streams (acct_at h' aid)) key) (restarted K D cid key) (of_stream key (o_items (c_out c')))"
    proof (cases "(cid, key) \<in> K")
      case True
      with new c' key sorted show ?thesis by (simp add: hub_started_def restarted_def history_ok_def)
    next
      case False
      with adv c' key obtain c where c: "map_of (a_conns (acct_at h aid)) cid = Some c" "key \<in> set (c_subs c)"
        and a: "advances (ring_in (a_streams (acct_at h aid)) key) (of_stream key (o_items (c_out c)))
          (ring_in (a_streams (acct_at h' aid)) key) (of_stream key (o_items (c_out c')))"
        unfolding hub_advances_def acct_advances_def by blast
      from ok c have "history_ok (ring_in (a_streams (acct_at h aid)) key) (D cid key) (of_stream key (o_items (c_out c)))" by (simp add: histories_ok_def)
      from history_advances [OF this a sorted] False show ?thesis by (simp add: restarted_def)
    qed
  qed
qed

lemma histories_take:
  assumes ok: "histories_ok h D" and inv: "hub_inv W h" and t: "take_outbound pe conn b h = (h', t)"
  shows "histories_ok h' (handed conn (taken_from conn h h') D)"
  unfolding histories_ok_def
proof (intro allI impI)
  fix aid cid c' key
  assume c': "map_of (a_conns (acct_at h' aid)) cid = Some c'" and key: "key \<in> set (c_subs c')"
  obtain c where c: "map_of (a_conns (acct_at h aid)) cid = Some c" "c_subs c' = c_subs c"
    and q: "o_items (c_out c) = (if cid = conn then taken_from conn h h' else []) @ o_items (c_out c')"
    and r: "ring_in (a_streams (acct_at h' aid)) = ring_in (a_streams (acct_at h aid))"
    by (rule take_outbound_effect [OF inv t c'])
  let ?r = "ring_in (a_streams (acct_at h aid)) key" and ?took = "of_stream key (if cid = conn then taken_from conn h h' else [])"
  have "history_ok ?r (D cid key) (?took @ of_stream key (o_items (c_out c')))"
    using ok c key unfolding histories_ok_def by (metis q of_stream_append)
  moreover have "it_seq it \<le> ring_pos ?r \<and> (\<exists>x. ?r = Some x \<and> it_epoch it = r_epoch x)" if "it \<in> set ?took" for it
    using that hub_inv_queue(2) [OF inv c(1), of it key] unfolding q by (auto simp: of_stream_append ring_pos_def)
  ultimately have "history_ok ?r (D cid key @ ?took) (of_stream key (o_items (c_out c')))" by (auto simp: history_ok_def)
  then show "history_ok (ring_in (a_streams (acct_at h' aid)) key) (handed conn (taken_from conn h h') D cid key) (of_stream key (o_items (c_out c')))"
    unfolding r by (auto simp: handed_def of_stream_def split: if_splits)
qed

text \<open>The bytes of a published message say where it belongs.\<close>

definition in_place :: "(frame \<Rightarrow> bytes) \<Rightarrow> place \<Rightarrow> bytes \<Rightarrow> bool" where
  "in_place pe l w \<longleftrightarrow> (\<exists>f. w = encode_frame pe f \<and> (l \<noteq> None \<longrightarrow> (\<exists>e. frame_body f = Some (BEnvelope e)))
     \<and> (\<forall>e. frame_body f = Some (BEnvelope e) \<longrightarrow> at_place l e))"

interpretation placed: mark pe "\<lambda>_ _. in_place pe" for pe
  by unfold_locales (auto simp: in_place_def)

lemma taken_in_place:
  assumes "hub_marked (\<lambda>_ _. in_place pe) h" and "it \<in> set (taken_from cid h h')"
  shows "in_place pe (it_place it) (it_wire it)"
proof -
  from assms(2) have "it \<in> set (queue_at h cid)" by (auto simp: taken_from_def dest: in_set_takeD)
  then obtain aid c where c: "map_of (a_conns (acct_at h aid)) cid = Some c" "it \<in> set (o_items (c_out c))"
    unfolding queue_at_def by (cases "map_of (hub_conn_account h) cid") (force split: option.splits)+
  then obtain a where a: "map_of (hub_accounts h) aid = Some a" by (cases "map_of (hub_accounts h) aid") (simp_all add: acct_at_def account_new_def)
  with c have "map_of (a_conns a) cid = Some c" by (simp add: acct_at_some)
  with hub_marked_account [OF assms(1) a] conns_marked_lookup c(2) show ?thesis by (fastforce simp: acct_marked_def queue_marked_def)
qed

definition order_inv :: "(frame \<Rightarrow> bytes) \<Rightarrow> run_state \<times> histories \<Rightarrow> bool" where
  "order_inv pe x \<longleftrightarrow> run_inv (fst x) \<and> hub_marked (\<lambda>_ _. in_place pe) (fst (fst x)) \<and> histories_ok (fst (fst x)) (snd x)
     \<and> (\<forall>cid key. \<forall>it \<in> set (snd x cid key). it_stream it = Some key \<and> in_place pe (it_place it) (it_wire it))"

lemma hub_step_marked:
  assumes "order_step pe x y" and "run_inv (fst x)" and "hub_marked (\<lambda>_ _. in_place pe) (fst (fst x))"
  shows "hub_marked (\<lambda>_ _. in_place pe) (fst (fst y))"
  using assms
proof (induction rule: order_step.induct)
  case (received cid f h h' acts W D)
  have inv: "hub_inv W h" using received(2) by (simp add: run_inv_def)
  have m: "hub_marked (\<lambda>_ _. in_place pe) h" using received(3) by simp
  have "hub_marked (\<lambda>_ _. in_place pe) h'"
    by (rule placed.receive_marked [OF m inv received(1)]) (force simp: in_place_def)
  then show ?case by simp
next
  case (delivered f cid h h' acts W D)
  from placed.deliver_marked [OF _ delivered(2) placed.own [OF delivered(1)]] delivered(4) show ?case by simp
next
  case (reordered h aid a a' W D)
  then have m: "hub_marked (\<lambda>_ _. in_place pe) h" by simp
  from hub_marked_put [OF m account_reordered_marked [OF reordered(2) hub_marked_account [OF m reordered(1)]]] show ?case by simp
qed (auto dest: placed.connect_marked placed.close_conn_marked placed.charge_marked placed.take_outbound_marked)

lemma order_step_inv:
  assumes "order_step pe x y" and "order_inv pe x"
  shows "order_inv pe y"
proof -
  have run: "run_inv (fst x)" "run_inv (fst y)" using assms hub_step_inv [OF order_step_hub] by (auto simp: order_inv_def)
  have mark: "hub_marked (\<lambda>_ _. in_place pe) (fst (fst x))" "hub_marked (\<lambda>_ _. in_place pe) (fst (fst y))"
    using assms(2) hub_step_marked [OF assms(1) run(1)] by (simp_all add: order_inv_def)
  have "histories_ok (fst (fst y)) (snd y)"
    using assms(1) run assms(2) [unfolded order_inv_def]
  proof (induction rule: order_step.induct)
    case (received cid f h h' acts W D)
    then have "histories_ok h D" "hub_inv W h" "hub_inv (after_actions acts W) h'" by (simp_all add: run_inv_def)
    from histories_call [OF this(1) receive_moves [OF this(2) received(1)] this(3)] show ?case by simp
  next
    case (taken cid b h h' t W D)
    then have "histories_ok h D" "hub_inv W h" by (simp_all add: run_inv_def)
    from histories_take [OF this taken(1)] show ?case by simp
  qed (auto simp: run_inv_def intro: histories_advance connect_advances connect_refused_advances deliver_advances close_conn_advances
      charge_advances reordered_advances)
  moreover have "\<forall>cid key. \<forall>it \<in> set (snd y cid key). it_stream it = Some key \<and> in_place pe (it_place it) (it_wire it)"
    using assms(1) mark assms(2) [unfolded order_inv_def]
  proof (induction rule: order_step.induct)
    case (taken cid b h h' t W D)
    then show ?case using taken_in_place [of pe h _ cid h'] by (auto simp: handed_def of_stream_def)
  qed (auto simp: restarted_def)
  ultimately show ?thesis using run mark by (simp add: order_inv_def)
qed

lemma order_start_inv: "order_start x \<Longrightarrow> order_inv pe x"
proof -
  assume x: "order_start x"
  then obtain l seed shard where "with_id_space l seed shard = Inr (fst (fst x))" by (auto simp: order_start_def hub_start_def)
  then have "hub_accounts (fst (fst x)) = []" unfolding with_id_space_def by (metis Inl_Inr_False Inr_inject hub.select_convs(2))
  with x show ?thesis
    by (simp add: order_start_def order_inv_def hub_start_inv hub_marked_def histories_ok_def acct_at_def account_new_def)
qed

interpretation order_runs: invariant_machine order_start "order_step pe" "order_inv pe"
  by unfold_locales (auto intro: order_start_inv order_step_inv)

lemma in_place_envelope:
  assumes "it_stream it = Some key" and "in_place pe (it_place it) (it_wire it)"
  shows "\<exists>e. it_wire it = encode_frame pe (Frame (Some (BEnvelope e))) \<and> e_seq e = it_seq it \<and> e_epoch e = it_epoch it
    \<and> e_sender e = sk_publisher key \<and> e_to e = Some (ToChannel (sk_channel key)) \<and> (kind_of_i32 (e_kind e) = Telemetry \<longleftrightarrow> it_telemetry it)"
proof -
  from assms obtain f e where f: "it_wire it = encode_frame pe f" "frame_body f = Some (BEnvelope e)" "at_place (it_place it) e"
    by (auto simp: in_place_def it_place_def)
  then have "f = Frame (Some (BEnvelope e))" by (cases f) simp
  with f assms(1) show ?thesis by (auto simp: it_place_def at_place_def)
qed

lemma envelopes_of_items:
  assumes "\<And>it. it \<in> set its \<Longrightarrow> it_stream it = Some key \<and> it_epoch it = epoch \<and> in_place pe (it_place it) (it_wire it)"
  shows "\<exists>es. map it_wire its = map (\<lambda>e. encode_frame pe (Frame (Some (BEnvelope e)))) es \<and> map e_seq es = map it_seq its
    \<and> (\<forall>e \<in> set es. e_sender e = sk_publisher key \<and> e_to e = Some (ToChannel (sk_channel key)) \<and> e_epoch e = epoch)
    \<and> map e_seq (filter (\<lambda>e. kind_of_i32 (e_kind e) \<noteq> Telemetry) es) = firm_seqs its"
  using assms
proof (induction its)
  case (Cons it its)
  from Cons.IH Cons.prems obtain es where "map it_wire its = map (\<lambda>e. encode_frame pe (Frame (Some (BEnvelope e)))) es \<and> map e_seq es = map it_seq its
    \<and> (\<forall>e \<in> set es. e_sender e = sk_publisher key \<and> e_to e = Some (ToChannel (sk_channel key)) \<and> e_epoch e = epoch)
    \<and> map e_seq (filter (\<lambda>e. kind_of_i32 (e_kind e) \<noteq> Telemetry) es) = firm_seqs its" by auto
  moreover from in_place_envelope [of it key pe] Cons.prems obtain e where "it_wire it = encode_frame pe (Frame (Some (BEnvelope e)))"
    "e_seq e = it_seq it" "e_epoch e = epoch" "e_sender e = sk_publisher key" "e_to e = Some (ToChannel (sk_channel key))"
    "kind_of_i32 (e_kind e) = Telemetry \<longleftrightarrow> it_telemetry it" by auto
  ultimately show ?case by (intro exI [of _ "e # es"]) (simp add: firm_seqs_def)
qed (simp add: firm_seqs_def)

lemma upt_prefix: "xs @ ys = [m ..< n] \<Longrightarrow> \<exists>k. xs = [m ..< k]"
proof -
  assume eq: "xs @ ys = [m ..< n]"
  then have "length xs \<le> n - m" by (metis le_add1 length_append length_upt)
  moreover have "xs = take (length xs) [m ..< n]" using eq by (metis append_eq_conv_conj)
  ultimately have "xs = [m ..< m + length xs]" by (cases "m \<le> n") (simp_all add: take_upt)
  then show ?thesis ..
qed

lemma history_prefix:
  assumes "history_ok r ds (qs @ rest)"
  shows "sorted_wrt (<) (map it_seq (ds @ qs))" and "\<exists>m n. firm_seqs (ds @ qs) = [m ..< n]"
proof -
  show "sorted_wrt (<) (map it_seq (ds @ qs))" using assms by (auto simp: history_ok_def sorted_wrt_append)
  have "\<exists>m n. firm_seqs ((ds @ qs) @ rest) = [m ..< n]"
  proof (cases "of_sessions r")
    case True
    with assms show ?thesis by (auto simp: history_ok_def well_begun_def simp del: upt_Suc)
  next
    case False
    with assms have "firm_seqs ((ds @ qs) @ rest) = [0 ..< 0]" by (simp add: history_ok_def well_begun_def)
    then show ?thesis by blast
  qed
  then show "\<exists>m n. firm_seqs (ds @ qs) = [m ..< n]" using upt_prefix by (metis firm_seqs_append)
qed

section \<open>A run\<close>

text \<open>A client listens to its own channel: it subscribes, publishes, takes, and publishes again.\<close>

definition radio_key :: stream_key where "radio_key = \<lparr>sk_publisher = [1], sk_channel = [7]\<rparr>"

definition radio_ask :: frame where
  "radio_ask = Frame (Some (BSubscribe \<lparr>sub_stream = Some \<lparr>sr_publisher = [1], sr_channel = [7]\<rparr>, sub_since = None\<rparr>))"

definition radio_news :: frame where
  "radio_news = Frame (Some (BEnvelope \<lparr>e_to = Some (ToChannel [7]), e_kind = i32_of_kind SessionEvents, e_sender = [], e_seq = 0, e_epoch = 0,
     e_coalesce = [], e_ref = 0, e_payload = [8]\<rparr>))"

abbreviation radio_enc :: "frame \<Rightarrow> bytes" where "radio_enc \<equiv> \<lambda>_. [1]"

definition radio_on :: hub where "radio_on = fst (receive radio_enc 1 radio_ask first_joined)"
definition radio_said :: hub where "radio_said = fst (receive radio_enc 1 radio_news radio_on)"
definition radio_quiet :: hub where "radio_quiet = fst (take_outbound radio_enc 1 100 radio_said)"
definition radio_again :: hub where "radio_again = fst (receive radio_enc 1 radio_news radio_quiet)"

lemmas radio_defs = first_joined_def first_defs push_frame_def outbound_push_def frame_item_def outbound_default_def 
  encode_frame_def write_frame_def write_varint.simps [of 1] word_le_nat_alt

lemmas radio_call_defs = receive_def route_def radio_ask_def radio_news_def on_subscribe_def ensure_stream_def ensure_stream_in_def subscribe_fill_def
  purge_stream_def spend_queued_def enqueue_def pushed_or_closed_def put_conn_def on_envelope_def principal_of_def i32_of_kind_def kind_of_i32_def
  publish_def publish_in_def ring_new_def ring_publish_def ring_evict_past.simps [of _ 0] ring_capacity_def enforce_ring_budget.simps push_published_def published_item_def

lemma radio_asked: "receive radio_enc 1 radio_ask first_joined = (radio_on, [])"
  by (simp add: radio_on_def radio_defs radio_call_defs)

lemma radio_hears: "receive radio_enc 1 radio_news radio_on = (radio_said, [])"
  by (simp add: radio_said_def radio_on_def radio_defs radio_call_defs case_prod_beta)

lemmas radio_take_defs = take_outbound_def outbound_take_def take_loop_simps pop_front_def outbound_is_empty_def

lemma radio_takes: "\<exists>t. take_outbound radio_enc 1 100 radio_said = (radio_quiet, t) \<and> \<not> tk_more t"
  by (simp add: radio_quiet_def radio_said_def radio_on_def radio_defs radio_call_defs radio_take_defs case_prod_beta)

lemma radio_hears_again: "receive radio_enc 1 radio_news radio_quiet = (radio_again, [Wake 1])"
  by (simp add: radio_again_def radio_quiet_def radio_said_def radio_on_def radio_defs radio_call_defs radio_take_defs case_prod_beta)

definition radio_history :: histories where "radio_history = handed 1 (taken_from 1 radio_said radio_quiet) (\<lambda>_ _. [])"

lemma radio_reachable: "reach order_start (order_step radio_enc) ((radio_again, {1}), radio_history)"
proof -
  note go = reach_step [where start = order_start and step = "order_step radio_enc"]
  have quiet: "restarted K (\<lambda>_ _. []) = (\<lambda>_ _. [])" for K by (simp add: restarted_def fun_eq_iff)
  have news: "restarted (renewed 1 radio_news) D = D" for D by (simp add: restarted_def renewed_def radio_news_def)
  have "order_start ((first_hub, {}), \<lambda>_ _. [])" using first_hub_start by (simp add: order_start_def)
  from go [OF reach_start [where start = order_start, OF this] order_step.connected [OF first_greeting_fits first_connect]]
  have "reach order_start (order_step radio_enc) ((first_joined, {1}), \<lambda>_ _. [])" by (simp add: after_actions_def)
  from go [OF this order_step.received [OF radio_asked]]
  have "reach order_start (order_step radio_enc) ((radio_on, {1}), \<lambda>_ _. [])" by (simp add: quiet after_actions_def)
  from go [OF this order_step.received [OF radio_hears]]
  have said: "reach order_start (order_step radio_enc) ((radio_said, {1}), \<lambda>_ _. [])" by (simp add: quiet after_actions_def)
  from radio_takes obtain t where t: "take_outbound radio_enc 1 100 radio_said = (radio_quiet, t)" "\<not> tk_more t" by blast
  from go [OF said order_step.taken [OF t(1)]] t(2)
  have "reach order_start (order_step radio_enc) ((radio_quiet, {}), radio_history)" by (simp add: radio_history_def)
  from go [OF this order_step.received [OF radio_hears_again]] show ?thesis by (simp add: news [simplified] after_actions_def)
qed

lemmas radio_all = radio_again_def radio_quiet_def radio_said_def radio_on_def radio_defs radio_call_defs radio_take_defs case_prod_beta

lemma radio_tuned: "map_of (hub_conn_account radio_again) 1 = Some [9]"
    "\<exists>c. map_of (a_conns (acct_at radio_again [9])) 1 = Some c \<and> radio_key \<in> set (c_subs c)"
  by (simp_all add: acct_at_def radio_key_def radio_all)

abbreviation radio_tape :: "item list" where
  "radio_tape \<equiv> radio_history 1 radio_key @ of_stream radio_key (taken_from 1 radio_again (fst (take_outbound radio_enc 1 100 radio_again)))"

lemma radio_seqs: "map it_seq radio_tape = [1, 2]"
  by (simp add: radio_history_def handed_def taken_from_def queue_at_def acct_at_def of_stream_def radio_key_def radio_all)

section \<open>Properties\<close>

text \<open>C5. A stream arrives in order. Take any subscription of any reachable relay, what its connection was handed of the stream since it last asked for
  it, and what the next call hands over: these are envelopes of the stream's publisher on its channel, of one epoch, with increasing
  numbers, and those that are not telemetry, session events that is, are numbered without a gap; and what is handed over now goes out in that order.\<close>

theorem streams_arrive_in_order:
  assumes "reach order_start (order_step pe) ((h, W), D)" and "map_of (hub_conn_account h) cid = Some aid"
    and "map_of (a_conns (acct_at h aid)) cid = Some c" and "key \<in> set (c_subs c)" and "take_outbound pe cid budget h = (h', t)"
  shows "\<exists>es epoch. map it_wire (D cid key @ of_stream key (taken_from cid h h')) = map (\<lambda>e. encode_frame pe (Frame (Some (BEnvelope e)))) es
    \<and> (\<forall>e \<in> set es. e_sender e = sk_publisher key \<and> e_to e = Some (ToChannel (sk_channel key)) \<and> e_epoch e = epoch)
    \<and> sorted_wrt (<) (map e_seq es)
    \<and> (\<exists>m n. map e_seq (filter (\<lambda>e. kind_of_i32 (e_kind e) \<noteq> Telemetry) es) = [m ..< n])
    \<and> subseq (map it_wire (taken_from cid h h')) (tk_frames t)"
proof -
  have inv: "order_inv pe ((h, W), D)" by (rule order_runs.reach_inv [OF assms(1)])
  then have run: "hub_inv W h" and hist: "histories_ok h D" by (simp_all add: order_inv_def run_inv_def)
  have placed: "it_stream it = Some key \<and> in_place pe (it_place it) (it_wire it)"
    if "it \<in> set (D cid key @ of_stream key (taken_from cid h h'))" for it
    using that inv taken_in_place [of pe h it cid h'] by (auto simp: order_inv_def of_stream_def)
  let ?r = "ring_in (a_streams (acct_at h aid)) key" and ?its = "D cid key @ of_stream key (taken_from cid h h')"
  have "queue_at h cid = o_items (c_out c)" using assms(2,3) by (simp add: queue_at_def)
  then obtain n where cut: "o_items (c_out c) = taken_from cid h h' @ drop n (o_items (c_out c))"
    unfolding taken_from_def by (metis append_take_drop_id)
  have ok: "history_ok ?r (D cid key) (of_stream key (taken_from cid h h') @ of_stream key (drop n (o_items (c_out c))))"
    using hist assms(3,4) cut unfolding histories_ok_def by (metis of_stream_append)
  have "\<exists>x. ?r = Some x \<and> it_epoch it = r_epoch x" if "it \<in> set ?its" for it
    using that ok hub_inv_queue(2) [OF run assms(3), of it key] cut by (auto simp: history_ok_def) (metis UnCI of_stream_append set_append)+
  then obtain epoch where "\<And>it. it \<in> set ?its \<Longrightarrow> it_epoch it = epoch" by (metis option.inject)
  with envelopes_of_items [of ?its key epoch pe] placed history_prefix [OF ok] taken_wires [OF assms(5)] show ?thesis by metis
qed

theorem streams_arrive_in_order_witness:
  "map it_seq radio_tape = [1, 2] \<and> (\<exists>es. map it_wire radio_tape = map (\<lambda>e. encode_frame radio_enc (Frame (Some (BEnvelope e)))) es
    \<and> sorted_wrt (<) (map e_seq es))"
proof -
  from radio_tuned(2) obtain c where c: "map_of (a_conns (acct_at radio_again [9])) 1 = Some c" "radio_key \<in> set (c_subs c)" by blast
  obtain h t where t: "take_outbound radio_enc 1 100 radio_again = (h, t)" by fastforce
  from streams_arrive_in_order [OF radio_reachable radio_tuned(1) c t] radio_seqs show ?thesis unfolding t fst_conv by blast
qed

end
