(* ===== verification/Relay_Room.thy ===== *)
theory Relay_Room
  imports Relay_Presence
begin

text \<open>
  Runs of the relay with no condition on an admission. \<open>Relay_Run\<close> lets a newcomer in when its greeting, the welcome and the presence of everyone
  online, fits its queue; the relay itself queues the greeting without looking, taking a failure for a misconfiguration that
  nothing checks. Here the limits are said to leave room when the longest greeting fits, and then every run of the calls, whatever they
  are, is a run in the sense of \<open>Relay_Run\<close>: what is proved of those holds of these.
\<close>

section \<open>Limits that leave room\<close>

text \<open>
  \<open>R\<close> is what the server may say of an account's revocation signer. A presence shows a principal no longer than an id may be and a
  chain no longer than a presentable one.
\<close>

definition presence_shown :: "bytes \<Rightarrow> role \<Rightarrow> certificate list \<Rightarrow> frame" where
  "presence_shown p r chain = Frame (Some (BPresence \<lparr>pr_principal = p, pr_role = i32_of_role r, pr_online = True, pr_chain = chain\<rparr>))"

definition roomy :: "(frame \<Rightarrow> bytes) \<Rightarrow> revoker set \<Rightarrow> limits \<Rightarrow> bool" where
  "roomy pe R l \<longleftrightarrow>
     (\<exists>w p. (\<forall>now_ms < 2 ^ 64. \<forall>rvk \<in> R. length (encode_frame pe (welcome_of l now_ms rvk)) \<le> w)
        \<and> (\<forall>pid r chain. length pid \<le> max_id_bytes l \<longrightarrow> length (encode_frame pe (presence_shown pid r (presentable chain))) \<le> p)
        \<and> w + max_connections_per_account l * p \<le> queue_bytes l)"

section \<open>Calls in any order\<close>

fun woken_by :: "relay_call \<Rightarrow> relay_answer \<Rightarrow> conn_id set \<Rightarrow> conn_id set" where
  "woken_by call (Admitted cid acts) W = after_actions acts W"
| "woken_by call (Refused f) W = W"
| "woken_by call (Acts acts) W = after_actions acts W"
| "woken_by call (Waits wait acts) W = after_actions acts W"
| "woken_by (CallTake conn b) (Took t) W = (if tk_more t then W else W - {conn})"
| "woken_by call (Took t) W = W"

text \<open>The clock of a connect is a \<open>u64\<close> of milliseconds, and its word on the signer is one the server has.\<close>

fun sane_call :: "revoker set \<Rightarrow> relay_call \<Rightarrow> bool" where
  "sane_call R (CallConnect aid hello now_ms mono_ms rvk) \<longleftrightarrow> now_ms < 2 ^ 64 \<and> rvk \<in> R"
| "sane_call R _ \<longleftrightarrow> True"

inductive call_step :: "(frame \<Rightarrow> bytes) \<Rightarrow> revoker set \<Rightarrow> run_state \<Rightarrow> run_state \<Rightarrow> bool" for pe R where
  ran: "sane_call R call \<Longrightarrow> relay_run pe call h = (h', ans) \<Longrightarrow> call_step pe R (h, W) (h', woken_by call ans W)"
| shuffled: "map_of (hub_accounts h) aid = Some a \<Longrightarrow> account_reordered a a' \<Longrightarrow> call_step pe R (h, W) (put_account aid a' h, W)"

definition call_start :: "limits \<Rightarrow> run_state \<Rightarrow> bool" where
  "call_start l s \<longleftrightarrow> (\<exists>seed shard. with_id_space l seed shard = Inr (fst s) \<and> snd s = {})"

section \<open>Every greeting fits\<close>

definition brief_names :: "hub \<Rightarrow> bool" where
  "brief_names h \<longleftrightarrow> (\<forall>cid aid p ch. roster h cid = Some (aid, p, ch) \<longrightarrow>
     length p \<le> max_id_bytes (hub_limits h) \<and> (\<exists>chain. ch = presentable chain))"

lemma online_shown:
  assumes inv: "hub_inv W h" and names: "brief_names h" and a: "map_of (hub_accounts h) aid = Some a" and x: "x \<in> set (a_online a)"
  shows "\<exists>p r chain. length p \<le> max_id_bytes (hub_limits h) \<and> presence_of a x = presence_shown p r (presentable chain)"
proof -
  note mid = inv [unfolded hub_inv_def]
  have core: "acct_core (hub_limits h) {} W a" using hub_mid_account(1) [OF mid a] by (simp add: acct_sound_def effects_default_def)
  obtain p cid r where px: "x = (p, cid, r)" by (metis prod.exhaust)
  have "map_of (a_online a) p = Some (cid, r)" using core x px by (auto simp: acct_core_def)
  then obtain c where c: "map_of (a_conns a) cid = Some c" "c_principal c = p" using core unfolding acct_core_def by blast
  have "map_of (hub_conn_account h) cid = Some aid" using hub_mid_account(3) [OF mid a] c(1) by simp
  then have "roster h cid = Some (aid, p, c_chain c)" using a c by (simp add: roster_def who_def badge_def)
  with names obtain chain where "length p \<le> max_id_bytes (hub_limits h)" "c_chain c = presentable chain" unfolding brief_names_def by blast
  with c px show ?thesis by (auto simp: presence_of_def presence_shown_def)
qed

lemma room_for_greeting:
  assumes inv: "hub_inv W h" and names: "brief_names h" and room: "roomy pe R (hub_limits h)" and now_ms: "now_ms < 2 ^ 64" and rvk: "rvk \<in> R"
  shows "greeting_fits pe aid now_ms rvk h"
proof -
  let ?l = "hub_limits h"
  from room obtain w p where w: "length (encode_frame pe (welcome_of ?l now_ms rvk)) \<le> w"
    and p: "\<And>pid r chain. length pid \<le> max_id_bytes ?l \<Longrightarrow> length (encode_frame pe (presence_shown pid r (presentable chain))) \<le> p"
    and sum: "w + max_connections_per_account ?l * p \<le> queue_bytes ?l" using now_ms rvk unfolding roomy_def by blast
  define a where "a = (case map_of (hub_accounts h) aid of Some a \<Rightarrow> a | None \<Rightarrow> account_new)"
  have "length (encode_frame pe (presence_of a x)) \<le> p" if "x \<in> set (a_online a)" for x
  proof (cases "map_of (hub_accounts h) aid")
    case None
    with that show ?thesis by (simp add: a_def account_new_def)
  next
    case (Some b)
    with that have "x \<in> set (a_online b)" by (simp add: a_def)
    from online_shown [OF inv names Some this] p Some show ?thesis by (metis a_def option.simps(5))
  qed
  then have "sum_list (map (length \<circ> encode_frame pe) (map (presence_of a) (a_online a))) \<le> p * length (a_online a)"
    using sum_list_mono [of "a_online a" "\<lambda>x. length (encode_frame pe (presence_of a x))" "\<lambda>_. p"] by (simp add: o_def sum_list_triv mult.commute)
  also have "\<dots> \<le> p * max_connections_per_account ?l"
  proof (cases "map_of (hub_accounts h) aid")
    case (Some b)
    with hub_mid_account(1) [OF inv [unfolded hub_inv_def] Some] show ?thesis by (auto simp: a_def acct_sound_def acct_core_def)
  qed (simp add: a_def account_new_def)
  finally show ?thesis using w sum by (simp add: greeting_fits_def greeting_def a_def [symmetric] mult.commute)
qed

lemma run_is_step:
  "relay_run pe call h = (h', ans) \<Longrightarrow> hub_inv W h \<Longrightarrow> 0 < max_connections_per_account (hub_limits h) \<Longrightarrow>
   (\<And>aid now_ms rvk. (\<exists>hello mono_ms. call = CallConnect aid hello now_ms mono_ms rvk) \<Longrightarrow> greeting_fits pe aid now_ms rvk h) \<Longrightarrow>
   hub_step pe (h, W) (h', woken_by call ans W)"
  using hub_step.taken [of pe _ _ h h' _ W]
  by (cases call) (auto simp: apsnd_def map_prod_def intro: hub_step.intros split: prod.splits sum.splits)

text \<open>A name enters the roster with an admission, which checks its length.\<close>

lemma relay_run_names:
  assumes inv: "hub_inv W h" and run: "relay_run pe call h = (h', ans)" and names: "brief_names h" and limits: "hub_limits h' = hub_limits h"
  shows "brief_names h'"
proof -
  note R = relay_run_presence [OF inv run]
  have new: "length p \<le> max_id_bytes (hub_limits h) \<and> (\<exists>chain. ch = presentable chain)"
    if "presence_of_call call ans = Joined cid aid p ch gone" for cid aid p ch gone
  proof -
    from that obtain hello now_ms mono_ms rvk acts where c: "call = CallConnect aid hello now_ms mono_ms rvk" "ans = Admitted cid acts"
      "p = h_principal hello" "ch = presentable (h_chain hello)" by (cases "(call, ans)" rule: presence_of_call.cases) auto
    with run have "connect_refusal aid hello h = None" by (auto simp: connect_def split: prod.splits sum.splits option.splits)
    then have "length (h_principal hello) \<le> max_id_bytes (hub_limits h)" by (auto simp: connect_refusal_def Let_def split: if_splits)
    with c show ?thesis by auto
  qed
  show ?thesis
    using R new names unfolding brief_names_def limits
    by (cases "presence_of_call call ans") (fastforce simp: restrict_map_def split: if_splits)+
qed

section \<open>Every run is a run with room\<close>

lemma call_step_simulated:
  assumes step: "call_step pe R (h, W) (h', W')" and inv: "run_inv (h, W)" and names: "brief_names h" and room: "roomy pe R (hub_limits h)"
  shows "hub_step pe (h, W) (h', W') \<and> brief_names h' \<and> hub_limits h' = hub_limits h"
  using step
proof cases
  case (ran call ans)
  have hi: "hub_inv W h" "0 < max_connections_per_account (hub_limits h)" using inv by (simp_all add: run_inv_def)
  have "greeting_fits pe aid now_ms rvk h" if "\<exists>hello mono_ms. call = CallConnect aid hello now_ms mono_ms rvk" for aid now_ms rvk
    using room_for_greeting [OF hi(1) names room] ran(2) that by auto
  with run_is_step [OF ran(3) hi] ran(1) have step: "hub_step pe (h, W) (h', W')" by blast
  have "hub_limits h' = hub_limits h"
    using step
  proof cases
    case connected
    then show ?thesis using connect_isolated [OF hi] by blast
  next
    case refused
    then show ?thesis using connect_refused_limits by (auto simp: hub_touches_def)
  next
    case reordered
    then show ?thesis by (simp add: put_account_def)
  next
    case received
    then show ?thesis using hub_touches_limits [OF call_touches(1) [OF hi(1)]] by blast
  next
    case delivered
    then show ?thesis using hub_touches_limits [OF call_touches(2) [OF hi(1)]] by blast
  next
    case closed
    then show ?thesis using hub_touches_limits [OF call_touches(3) [OF hi(1)]] by blast
  next
    case charged
    then show ?thesis using hub_touches_limits [OF call_touches(4) [OF hi(1)]] by blast
  next
    case taken
    then show ?thesis using hub_touches_limits [OF call_touches(5) [OF hi(1)]] by blast
  qed
  with step relay_run_names [OF hi(1) ran(3) names] show ?thesis by simp
next
  case (shuffled aid a a')
  have hi: "hub_inv W h" using inv by (simp add: run_inv_def)
  have "roster h' = roster h" using reordered_roster [OF hi shuffled(3,4)] shuffled(1) by simp
  with names shuffled hub_step.reordered [OF shuffled(3,4), of pe W] show ?thesis by (auto simp: brief_names_def put_account_def)
qed

lemma calls_are_runs:
  assumes "reach (call_start l) (call_step pe R) s" and room: "roomy pe R l" and conns: "0 < max_connections_per_account l"
  shows "reach hub_start (hub_step pe) s \<and> brief_names (fst s) \<and> hub_limits (fst s) = l"
  using assms(1)
proof (induction rule: reach.induct)
  case (reach_start s)
  obtain h W where s: "s = (h, W)" by fastforce
  with reach_start obtain seed shard where h: "with_id_space l seed shard = Inr h" and W: "W = {}" by (auto simp: call_start_def)
  have start: "hub_start s" unfolding hub_start_def using h conns W s by auto
  have empty: "hub_conn_account h = []" and lim: "hub_limits h = l" using h by (auto simp: with_id_space_def split: if_splits)
  have "brief_names h" by (simp add: brief_names_def roster_def empty)
  with lim s reach.reach_start [where start = hub_start, OF start] show ?case by simp
next
  case (reach_step s t)
  obtain h W h' W' where st: "s = (h, W)" "t = (h', W')" by fastforce
  from reach_step.IH st have run: "reach hub_start (hub_step pe) (h, W)" and names: "brief_names h" and lim: "hub_limits h = l" by simp_all
  have "call_step pe R (h, W) (h', W')" using reach_step.hyps st by simp
  from call_step_simulated [OF this hub_runs.reach_inv [OF run] names] room lim
  have step: "hub_step pe (h, W) (h', W')" and rest: "brief_names h'" "hub_limits h' = l" by simp_all
  from reach.reach_step [OF run step] rest st show ?case by simp
qed

text \<open>C1. Whatever the server calls, in whatever order, the relay passes the model checker's test after every call: every count
  is within its limit, the byte counters are exact, the online map, the connection map, the subscriber sets and the subscriptions agree in both
  directions, no empty account is kept, and every connection with frames queued has a wake outstanding. It is asked of the limits that an account
  may have a connection, and that a connection's queue holds the longest welcome and one longest presence for each
  connection an account may have; the constructor of the relay asks neither.\<close>

theorem every_reachable_hub_passes_the_check:
  assumes "roomy pe R l" and "0 < max_connections_per_account l" and "reach (call_start l) (call_step pe R) (h, W)"
  shows "hub_check l h W"
  using calls_are_runs [OF assms(3,1,2)] reachable_hub_check [of pe h W] by simp

lemma tiny_roomy: "roomy (\<lambda>_. [1]) {RevokerUnknown} tiny_limits"
proof -
  have "length (encode_frame (\<lambda>_. [1]) f) = 2" for f
    by (simp add: encode_frame_def write_frame_def write_varint.simps [of 1] word_le_nat_alt)
  then show ?thesis unfolding roomy_def by (intro exI [of _ 2]) (simp add: tiny_limits_def)
qed

lemma first_called: "reach (call_start tiny_limits) (call_step (\<lambda>_. [1]) {RevokerUnknown}) (first_joined, {1})"
proof (rule reach_step [OF reach_start])
  show "call_start tiny_limits (first_hub, {})"
    unfolding call_start_def by (rule exI [of _ 5], rule exI [of _ 0]) (simp add: with_id_space_def first_hub_def tiny_limits_def)
  show "call_step (\<lambda>_. [1]) {RevokerUnknown} (first_hub, {}) (first_joined, {1})"
    using call_step.ran [of "{RevokerUnknown}" "CallConnect [9] first_hello 0 0 RevokerUnknown" "\<lambda>_. [1]" first_hub first_joined "Admitted 1 [Wake 1]" "{}"]
      first_connect by (simp add: after_actions_def)
qed

theorem every_reachable_hub_passes_the_check_witness: "hub_check tiny_limits first_joined {1}"
  by (rule every_reachable_hub_passes_the_check [OF tiny_roomy _ first_called]) (simp add: tiny_limits_def)

end
