(* ===== verification/Spec2Isabelle.thy ===== *)
theory Spec2Isabelle
  imports Operator Relay_Order Relay_Room Streams
begin

text \<open>
  A verification of the hub: an end-to-end encrypted message router for one person's devices. Devices hold keys and
  certificates, seal commands and streams to each other, and connect to a hub that routes what it cannot read.

  \<^bold>\<open>The parts and how they meet.\<close> A connection arrives at the server (\<open>crates/hub\<close>), which decides whose address it is charged to,
  paces arrivals and strangers, reads frames (\<open>crates/frame\<close>, \<open>crates/proto\<close>), verifies the hello against the
  device's certificate chain (\<open>crates/keys\<close>), admits the account (the registry) and hands the connection to the routing
  core (\<open>crates/relay\<close>) of its account's shard: a single state machine that owns accounts, presence, streams with their replay rings, and one
  bounded outbound queue a connection. Between devices, commands and streams are sealed (\<open>crates/seal\<close>), and a revocation
  list says whose chains no longer count. A device speaks to the hub through the client library (\<open>crates/client\<close>). The connector
  of a box (\<open>crates/connector\<close>) is such a device: it reads a box's events over HTTP, sorts them (\<open>crates/box\<close>), publishes them sealed, and
  hands its stream key to the devices that may have it.

  \<^bold>\<open>Which theory models what.\<close>

  \<^item> \<open>Prelude\<close>: machine types, hash maps as association lists with distinct keys, results, and the
  interfaces shared by components (\<open>stream_parser\<close>, \<open>invariant_machine\<close>); \<open>Budget\<close>: the interface \<open>work_budget\<close> of a
  budget that is spent and earned back; \<open>Text\<close>: the text functions of the standard library the records on disk need.

  \<^item> \<open>Framing\<close> (\<open>frame/src/lib.rs\<close>) varints, frames and the incremental reader; \<open>Wire\<close> (\<open>proto/src/lib.rs\<close>, \<open>hub.proto\<close>) messages and batches.

  \<^item> \<open>Rate\<close>, \<open>Limits\<close>, \<open>Ring\<close>, \<open>Queue\<close> (\<open>relay/src/rate.rs\<close>, \<open>limits.rs\<close>, \<open>ring.rs\<close>, \<open>queue.rs\<close>) the parts of the routing core, and \<open>Relay\<close>
  (\<open>relay/src/lib.rs\<close>, and the checker of \<open>model.rs\<close>) the core itself: the record \<open>hub\<close> is \<open>Hub\<close>, one definition per method. \<open>Relay_Inv\<close> and
  \<open>Relay_Calls\<close> prove that every call keeps the invariant, \<open>Relay_Isolation\<close> what a call may touch, \<open>Relay_Run\<close> closes both
  over all runs in which a newcomer's greeting fits its queue, \<open>Relay_Presence\<close> is the refinement to a roster of who is connected, \<open>Relay_Room\<close> shows that with limits
  that leave room for the longest greeting every sequence of calls is such a run, \<open>Relay_Authentic\<close> says who a delivered envelope is from, \<open>Relay_Order\<close> in which order
  a stream arrives,
  \<open>Relay_Promises\<close> the remaining promises.

  \<^item> \<open>Forwarded\<close>, \<open>Strangers\<close>, \<open>Slots\<close>, \<open>Arrivals\<close>, \<open>Registry\<close> (\<open>hub/src/forwarded.rs\<close>, \<open>strangers.rs\<close>, \<open>pairing.rs\<close>, \<open>arrivals.rs\<close>,
  \<open>registry.rs\<close>) the decisions of the server that do not touch the routing core.

  \<^item> \<open>Server\<close>, \<open>Admission\<close> (\<open>hub/src/lib.rs\<close>) the server around all of these: the record \<open>shared\<close> is \<open>Shared\<close>, its shards and the
  account limit across them; the tasks of accepting, reading, writing and pairing as steps that may interleave in any order, a wake-up that a task owes after it has
  released a shard's lock being a step of its own and a writer a state with every way it ends; and a connection from
  its socket, through the gate, the challenge, the first message and \<open>authenticate\<close>, to its place in a relay. \<open>Operator\<close> (\<open>hub/src/main.rs\<close>) the arguments \<open>serve\<close> starts a hub with, and the
  operator's commands on the registry's directory.

  \<^item> \<open>Keys\<close>, \<open>Revocation\<close> (\<open>keys/src/lib.rs\<close>, \<open>revocation.rs\<close>, \<open>pairing.rs\<close>) certificates, the hello, lists and codes; \<open>Seal\<close>, \<open>Streams\<close>
  (\<open>seal/src/lib.rs\<close>, \<open>pairing.rs\<close>, \<open>stream.rs\<close>) sealed commands, the replay window, grants and published frames.

  \<^item> \<open>Client\<close> (\<open>client/src/lib.rs\<close>) logging in, sending, the events a client reads, and both sides of a pairing.

  \<^item> \<open>Box\<close> (\<open>box/src/lib.rs\<close>) which channel a frame of the box belongs to; \<open>Http\<close> (\<open>connector/src/http.rs\<close>) response heads and chunked bodies;
  \<open>Ingest\<close> (\<open>events.rs\<close>, \<open>run.rs\<close>) the passes over a box's stream; \<open>Revoked\<close> (\<open>revoked.rs\<close>, \<open>grant.rs\<close>) whom a connector may grant
  its key; \<open>Box_State\<close> (\<open>state.rs\<close>) its files, with what of them has reached the disk; \<open>Serving\<close> (\<open>relay.rs\<close>, \<open>serve.rs\<close>) publishing, granting and following
  revokers, a wait for the hub that is dropped halfway included, with what is put on the socket read off message by message; \<open>Pairing\<close> (\<open>pair.rs\<close>, \<open>main.rs\<close>) how it gets its certificate, and its three commands.

  \<^bold>\<open>How the code is read.\<close> A method that takes \<open>&mut self\<close> is a function from the state to the state and its result. A
  \<open>HashMap\<close> is an association list whose order stands for the unspecified iteration order; theorems hold for every order. Errors are values:
  \<open>Result\<close> is a sum. \<open>u64\<close> is a word where the code relies on wrapping (positions, epochs, the frame hash) and a natural number with the
  saturation written out elsewhere. A clock reading is an argument of the call that reads it. A socket is the list of what it will yield, errors
  and timeouts included, and what has been written to it; which of two tasks goes first is an argument or a nondeterministic step. Code that is not in the
  repository is an argument: the generated protobuf codec, the hash, signatures and encryption (fields of a \<open>suite\<close>), the
  floating point product of the arrival gate, which disk operation fails. Where a property relies on what such code does
  (decoding undoes encoding, a signature verifies under its key), that is a hypothesis of the property.

  \<^bold>\<open>What is shown.\<close> The relay: with limits that leave room for a greeting the checker of the model test passes after any calls; in every run in which greetings fit one account never touches another, an envelope that is
  delivered was handed in by the principal it names on the receiver's own account, a stream arrives in order and its session events without a gap, and in
  terms of who is connected every call is a step of an abstract roster; the queue, ring and budget keep their
  counters exact and their bounds, lose only telemetry and report what they lost; draining empties a queue and the search for an
  epoch ends. The wire: framing does not depend on how bytes are cut, and what is written is read back. The server: only a hello that verifies is
  admitted and a member's is, nobody else comes to be on a relay however a socket's start goes, the account limit holds across shards under every interleaving, whatever is queued
  has a writer that is at work, has been woken or is owed its wake-up, unless its socket failed, a message is charged once; an invite registers
  one account under every interleaving of disk operations, an account has one signer, slots are answered once, strangers stay within
  their budget, and the address charged is the one the proxy appended, with the bound on entries as a proved exception. A hub starts exactly when it may, believes hellos only on
  loopback, and an invite the operator is given is good for one account until it expires.
  Keys and seals: every power of a verified chain stands in something the root signed, access ends without renewal, renewals verify, lists
  only move forward, what opens is authentic and opens once, and what is sealed or published opens as what went in.
  The client: its events have their types and do not depend on how frames were put into messages, and it signs only for the hub it was told to expect.
  The connector: what the box says is handed on byte for byte, no frame is published twice, counters and keys fit together
  across rotations, the key is sent only to a verified device that asked for it and is not revoked, silence stops new grants, a restart remembers, a crash leaves the
  old file or the new because what is renamed into place has been synced, and what pairing stored is what runs. Where the code departs from its own comments the departure is proved, each in the theory of its component.

  \<^bold>\<open>Bounds and fuel.\<close> No definition uses fuel: the loops of the source are structural recursion, over what a socket will yield where they read from
  one, or have a termination proof, and the one that could run on, the search for a nonzero epoch, is proved to end for every state.

  \<^bold>\<open>What is not modelled.\<close> The load generator (\<open>crates/loadgen\<close>), a tool that measures a running hub over sockets and holds none of the
  program's rules; the reading of command lines; the runtime underneath: sockets, TLS, timers, the scheduling of tasks, log lines, and the texts
  printed for a person, of which only the values in them are kept. The generator and the operations of the relay's model test are not modelled, only its checker.
\<close>

end
